(* ===== verification/Infer_Prelude.thy ===== *)
theory Infer_Prelude
  imports Main "HOL-Library.Multiset" "HOL-Library.Word"
begin

text \<open>
  What every component of the model shares: the exceptions of the engine as values, the shape
  of a state-changing operation, loops that stop at the first exception, and the arithmetic of
  fixed-size blocks. The lemma collections \<open>ceil_div\<close>, \<open>act_simps\<close> and \<open>blocks_simps\<close>
  carry the component proofs.
\<close>

named_theorems act_simps \<open>unfolding of operations that may raise\<close>
named_theorems ceil_div \<open>block arithmetic: the number of blocks that hold n tokens\<close>
named_theorems blocks_simps \<open>cutting a token list into full blocks\<close>

section \<open>Exceptions and state\<close>

text \<open>The exception classes that the modelled modules raise. The message is not kept.\<close>

datatype py_error =
    ValueError
  | KeyError
  | IndexError
  | TypeError
  | ZeroDivisionError
  | RuntimeError
  | OverflowError
  | AssertionError
  | NotImplementedError
  | OutOfMemoryError
  | EngineNotRunningError
  | RequestFailedError
  | TimeoutError
  | Queue_Full
  | Queue_Empty

text \<open>Token ids are Python integers.\<close>

type_synonym token = int

type_synonym byte = "8 word"

text \<open>
  A method that mutates an object is a function from the old state to its outcome and the new
  state. An exception keeps the mutations made before it: the new state is there in both cases.
\<close>

type_synonym 'a res = "py_error + 'a"
type_synonym ('s, 'a) act = "'s \<Rightarrow> 'a res \<times> 's"

definition ret :: "'a \<Rightarrow> ('s, 'a) act" where
  "ret x = (\<lambda>s. (Inr x, s))"

definition raise :: "py_error \<Rightarrow> ('s, 'a) act" where
  "raise e = (\<lambda>s. (Inl e, s))"

definition seq :: "('s, 'a) act \<Rightarrow> ('a \<Rightarrow> ('s, 'b) act) \<Rightarrow> ('s, 'b) act" where
  "seq m f = (\<lambda>s. case m s of (Inl e, s') \<Rightarrow> (Inl e, s') | (Inr x, s') \<Rightarrow> f x s')"

text \<open>A \<open>for\<close> loop whose body may raise.\<close>

fun for_each :: "('x \<Rightarrow> ('s, unit) act) \<Rightarrow> 'x list \<Rightarrow> ('s, unit) act" where
  "for_each f [] s = (Inr (), s)"
| "for_each f (x # xs) s =
     (case f x s of (Inl e, s') \<Rightarrow> (Inl e, s') | (Inr _, s') \<Rightarrow> for_each f xs s')"

text \<open>\<open>xs[i]\<close> for an index that is not negative.\<close>

definition nth_res :: "'a list \<Rightarrow> nat \<Rightarrow> 'a res" where
  "nth_res xs i = (if i < length xs then Inr (xs ! i) else Inl IndexError)"

lemma nth_res_Inr [simp]: "nth_res xs i = Inr x \<longleftrightarrow> i < length xs \<and> x = xs ! i"
  by (auto simp: nth_res_def)

text \<open>\<open>assert\<close> of the source: the exception is \<open>AssertionError\<close>.\<close>

definition ensure :: "bool \<Rightarrow> py_error \<Rightarrow> unit res" where
  "ensure b e = (if b then Inr () else Inl e)"

text \<open>Run checks in order; the first that fails is the outcome.\<close>

fun first_error :: "unit res list \<Rightarrow> unit res" where
  "first_error [] = Inr ()"
| "first_error (Inl e # rs) = Inl e"
| "first_error (Inr _ # rs) = first_error rs"

definition succeeds :: "'a res \<Rightarrow> bool" where
  "succeeds r = (case r of Inl _ \<Rightarrow> False | Inr _ \<Rightarrow> True)"

lemma succeeds_simps [simp]: "\<not> succeeds (Inl e)" "succeeds (Inr x)"
  by (simp_all add: succeeds_def)

lemma succeeds_iff: "succeeds r \<longleftrightarrow> (\<exists>x. r = Inr x)"
  by (cases r) auto

lemma seq_Inr [act_simps]: "m s = (Inr x, s') \<Longrightarrow> seq m f s = f x s'"
  by (simp add: seq_def)

lemma seq_Inl [act_simps]: "m s = (Inl e, s') \<Longrightarrow> seq m f s = (Inl e, s')"
  by (simp add: seq_def)

lemma seq_Inr_iff:
  "seq m f s = (Inr y, s'') \<longleftrightarrow> (\<exists>x s'. m s = (Inr x, s') \<and> f x s' = (Inr y, s''))"
  by (auto simp: seq_def split: prod.splits sum.splits)

lemma ensure_Inr [simp]: "ensure b e = Inr u \<longleftrightarrow> b"
  by (cases u) (simp add: ensure_def)

lemma ensure_Inl [simp]: "ensure b e = Inl e' \<longleftrightarrow> \<not> b \<and> e' = e"
  by (auto simp: ensure_def)

lemma first_error_Inr: "first_error rs = Inr () \<longleftrightarrow> (\<forall>r \<in> set rs. succeeds r)"
  by (induction rs rule: first_error.induct) auto

lemma first_error_ensure [simp]:
  "first_error (ensure b e # rs) = (if b then first_error rs else Inl e)"
  by (simp add: ensure_def)

lemma first_error_append:
  "first_error (rs @ qs) = (case first_error rs of Inl e \<Rightarrow> Inl e | Inr _ \<Rightarrow> first_error qs)"
  by (induction rs rule: first_error.induct) auto

lemma for_each_append:
  "for_each f (xs @ ys) s =
     (case for_each f xs s of (Inl e, s') \<Rightarrow> (Inl e, s') | (Inr _, s') \<Rightarrow> for_each f ys s')"
  by (induction f xs s rule: for_each.induct) (auto split: prod.splits sum.splits)

text \<open>An invariant that every call of the body keeps, raised or not, is kept by the loop.\<close>

lemma for_each_invariant:
  assumes "I s"
    and "\<And>x s r s'. x \<in> set xs \<Longrightarrow> I s \<Longrightarrow> f x s = (r, s') \<Longrightarrow> I s'"
  shows "I (snd (for_each f xs s))"
  using assms
proof (induction xs arbitrary: s)
  case Nil
  then show ?case by simp
next
  case (Cons x xs)
  obtain r s' where fx: "f x s = (r, s')" by (cases "f x s")
  have I': "I s'" by (rule Cons.prems(2) [OF _ Cons.prems(1) fx]) simp
  have "I (snd (for_each f xs s'))" by (rule Cons.IH [OF I']) (rule Cons.prems(2), auto)
  with fx I' show ?case by (cases r) auto
qed

text \<open>A loop whose every turn succeeds and takes the invariant from \<open>i\<close> to \<open>Suc i\<close>.\<close>

lemma for_each_upt:
  assumes "I m s" "m \<le> n"
    and "\<And>i s. m \<le> i \<Longrightarrow> i < n \<Longrightarrow> I i s \<Longrightarrow> \<exists>s'. f i s = (Inr (), s') \<and> I (Suc i) s'"
  shows "\<exists>s'. for_each f [m ..< n] s = (Inr (), s') \<and> I n s'"
  using assms
proof (induction "n - m" arbitrary: m s)
  case 0
  then show ?case by simp
next
  case (Suc d)
  then have m: "m < n" by simp
  from Suc.prems(3) [OF le_refl m Suc.prems(1)] obtain s1 where s1: "f m s = (Inr (), s1)" "I (Suc m) s1"
    by blast
  have "\<exists>s'. for_each f [Suc m ..< n] s1 = (Inr (), s') \<and> I n s'"
    by (rule Suc.hyps(1)) (use Suc s1 in auto)
  then show ?case using s1 m by (simp add: upt_conv_Cons)
qed

section \<open>Blocks\<close>

text \<open>\<open>(n + block_size - 1) // block_size\<close>, the number of blocks that hold \<open>n\<close> tokens.\<close>

definition blocks_for :: "nat \<Rightarrow> nat \<Rightarrow> nat" where
  "blocks_for bs n = (n + bs - 1) div bs"

lemma blocks_for_0 [ceil_div]: "0 < bs \<Longrightarrow> blocks_for bs 0 = 0"
  by (simp add: blocks_for_def)

lemma blocks_for_le_iff [ceil_div]: "0 < bs \<Longrightarrow> blocks_for bs n \<le> k \<longleftrightarrow> n \<le> k * bs"
proof -
  assume "0 < bs"
  then have "blocks_for bs n \<le> k \<longleftrightarrow> n + bs - 1 < Suc k * bs"
    by (simp only: blocks_for_def less_Suc_eq_le [symmetric] less_mult_imp_div_less
        div_less_iff_less_mult)
  also have "\<dots> \<longleftrightarrow> n \<le> k * bs" using \<open>0 < bs\<close> by auto
  finally show ?thesis .
qed

lemma less_blocks_for_iff [ceil_div]: "0 < bs \<Longrightarrow> k < blocks_for bs n \<longleftrightarrow> k * bs < n"
  using blocks_for_le_iff [of bs n k] by linarith

lemma blocks_for_mono: "0 < bs \<Longrightarrow> m \<le> n \<Longrightarrow> blocks_for bs m \<le> blocks_for bs n"
  by (simp add: blocks_for_def div_le_mono)

lemma div_less_blocks_for [ceil_div]: "0 < bs \<Longrightarrow> pos < n \<Longrightarrow> pos div bs < blocks_for bs n"
proof -
  assume a: "0 < bs" "pos < n"
  have "pos div bs * bs \<le> pos" by simp
  also note \<open>pos < n\<close>
  finally show ?thesis using a by (simp add: less_blocks_for_iff)
qed

lemma blocks_for_mult [ceil_div]: "0 < bs \<Longrightarrow> blocks_for bs (k * bs) = k"
proof -
  assume "0 < bs"
  then have "k * bs + bs - 1 = (bs - 1) + k * bs" by linarith
  then have "(k * bs + bs - 1) div bs = ((bs - 1) + k * bs) div bs" by (simp only:)
  also have "\<dots> = k + (bs - 1) div bs" using \<open>0 < bs\<close> by (intro div_mult_self1) simp
  finally show ?thesis using \<open>0 < bs\<close> by (simp add: blocks_for_def)
qed

lemma blocks_for_covers: "0 < bs \<Longrightarrow> n \<le> blocks_for bs n * bs"
  using blocks_for_le_iff [of bs n "blocks_for bs n"] by simp

text \<open>The full blocks of a token list, in order; the trailing partial block is left out.\<close>

definition full_blocks :: "nat \<Rightarrow> 'a list \<Rightarrow> 'a list list" where
  "full_blocks bs xs = map (\<lambda>i. take bs (drop (i * bs) xs)) [0 ..< length xs div bs]"

lemma length_full_blocks [blocks_simps]: "length (full_blocks bs xs) = length xs div bs"
  by (simp add: full_blocks_def)

lemma nth_full_blocks [blocks_simps]:
  "i < length xs div bs \<Longrightarrow> full_blocks bs xs ! i = take bs (drop (i * bs) xs)"
  by (simp add: full_blocks_def)

lemma block_end_le: "i < n div bs \<Longrightarrow> i * bs + bs \<le> (n::nat)"
proof -
  assume "i < n div bs"
  then have "Suc i * bs \<le> n div bs * bs" by (intro mult_le_mono1) simp
  also have "\<dots> \<le> n" by simp
  finally show ?thesis by simp
qed

lemma full_blocks_length: "b \<in> set (full_blocks bs xs) \<Longrightarrow> length b = bs"
  by (auto simp: full_blocks_def min_def dest!: block_end_le)

lemma concat_take_blocks:
  "k * bs \<le> length xs \<Longrightarrow> concat (map (\<lambda>i. take bs (drop (i * bs) xs)) [0 ..< k]) = take (k * bs) xs"
proof (induction k)
  case 0
  then show ?case by simp
next
  case (Suc k)
  then have "concat (map (\<lambda>i. take bs (drop (i * bs) xs)) [0 ..< k]) = take (k * bs) xs"
    by simp
  then show ?case by (simp add: take_add [of "k * bs" bs] add.commute [of bs])
qed

lemma concat_take_full_blocks:
  assumes "k \<le> length xs div bs"
  shows "concat (take k (full_blocks bs xs)) = take (k * bs) xs"
proof -
  have "take k (full_blocks bs xs) = map (\<lambda>i. take bs (drop (i * bs) xs)) [0 ..< k]"
    using assms by (simp add: full_blocks_def take_map)
  moreover have "k * bs \<le> length xs"
  proof -
    have "k * bs \<le> length xs div bs * bs" using assms by (rule mult_le_mono1)
    also have "\<dots> \<le> length xs" by simp
    finally show ?thesis .
  qed
  ultimately show ?thesis using concat_take_blocks by metis
qed

section \<open>Lists used as queues and slot tables\<close>

text \<open>\<open>xs.pop(i)\<close> on a list.\<close>

definition remove_at :: "nat \<Rightarrow> 'a list \<Rightarrow> 'a list" where
  "remove_at i xs = take i xs @ drop (Suc i) xs"

lemma length_remove_at [simp]: "i < length xs \<Longrightarrow> length (remove_at i xs) = length xs - 1"
  by (simp add: remove_at_def)

lemma nth_remove_at:
  "i < length xs \<Longrightarrow> j < length xs - 1 \<Longrightarrow>
     remove_at i xs ! j = (if j < i then xs ! j else xs ! Suc j)"
  by (auto simp: remove_at_def nth_append)

lemma map_remove_at: "map f (remove_at i xs) = remove_at i (map f xs)"
  by (simp add: remove_at_def take_map drop_map)

lemma set_remove_at: "set (remove_at i xs) \<subseteq> set xs"
  by (auto simp: remove_at_def dest: in_set_takeD in_set_dropD)

lemma mset_concat_remove_at:
  "i < length xss \<Longrightarrow> mset (concat (remove_at i xss)) + mset (xss ! i) = mset (concat xss)"
proof -
  assume "i < length xss"
  then have "xss = take i xss @ xss ! i # drop (Suc i) xss" by (simp add: id_take_nth_drop)
  then have "mset (concat xss) = mset (concat (take i xss @ xss ! i # drop (Suc i) xss))" by simp
  then show ?thesis by (simp add: remove_at_def)
qed

lemma mset_concat_update:
  assumes "i < length xss"
  shows "mset (concat (xss[i := ys])) + mset (xss ! i) = mset (concat xss) + mset ys"
proof -
  have "xss[i := ys] = take i xss @ ys # drop (Suc i) xss"
    using assms by (simp add: upd_conv_take_nth_drop)
  moreover have "mset (concat xss) = mset (concat (take i xss @ xss ! i # drop (Suc i) xss))"
    using assms by (simp add: id_take_nth_drop [symmetric])
  ultimately show ?thesis by simp
qed

text \<open>Running sums: \<open>[0, x0, x0 + x1, ...]\<close>, the cumulative boundaries of packed rows.\<close>

fun sums_from :: "nat \<Rightarrow> nat list \<Rightarrow> nat list" where
  "sums_from a [] = [a]"
| "sums_from a (x # xs) = a # sums_from (a + x) xs"

lemma length_sums_from [simp]: "length (sums_from a xs) = Suc (length xs)"
  by (induction a xs rule: sums_from.induct) auto

lemma nth_sums_from: "i \<le> length xs \<Longrightarrow> sums_from a xs ! i = a + sum_list (take i xs)"
proof (induction a xs arbitrary: i rule: sums_from.induct)
  case (1 a)
  then show ?case by simp
next
  case (2 a x xs)
  then show ?case by (cases i) auto
qed

lemma last_sums_from [simp]: "last (sums_from a xs) = a + sum_list xs"
proof -
  have "sums_from a xs \<noteq> []" by (metis length_sums_from list.size(3) nat.distinct(1))
  then show ?thesis by (simp add: last_conv_nth nth_sums_from)
qed

lemma hd_sums_from [simp]: "hd (sums_from a xs) = a"
  by (cases xs) auto

lemma sums_from_snoc: "sums_from a (xs @ [x]) = sums_from a xs @ [a + sum_list xs + x]"
  by (induction a xs rule: sums_from.induct) (auto simp: add.assoc)

text \<open>A position of a concatenation, as a part and a place in it.\<close>

lemma nth_concat_part:
  assumes "i < length xss" "j < length (xss ! i)"
  shows "sum_list (map length (take i xss)) + j < length (concat xss)"
    "concat xss ! (sum_list (map length (take i xss)) + j) = xss ! i ! j"
proof -
  have split: "concat xss = concat (take i xss) @ xss ! i @ concat (drop (Suc i) xss)"
    using assms(1) by (metis append_Cons append_Nil concat.simps(2) concat_append id_take_nth_drop)
  have len: "length (concat (take i xss)) = sum_list (map length (take i xss))" by (simp add: length_concat)
  show "sum_list (map length (take i xss)) + j < length (concat xss)"
    "concat xss ! (sum_list (map length (take i xss)) + j) = xss ! i ! j"
    unfolding split len [symmetric] using assms(2) by (simp_all add: nth_append)
qed

lemma sums_from_diff:
  assumes "i < length xs"
  shows "sums_from a xs ! Suc i - sums_from a xs ! i = xs ! i"
  using assms by (simp add: nth_sums_from take_Suc_conv_app_nth)

lemma distinct_concat_upt:
  assumes "\<And>b. b < n \<Longrightarrow> distinct (f b)"
    and "\<And>b b' x. b < n \<Longrightarrow> b' < n \<Longrightarrow> x \<in> set (f b) \<Longrightarrow> x \<in> set (f b') \<Longrightarrow> b = b'"
  shows "distinct (concat (map f [0 ..< n]))"
  using assms
proof (induction n)
  case 0
  then show ?case by simp
next
  case (Suc n)
  have "distinct (concat (map f [0 ..< n]))" by (rule Suc.IH) (use Suc.prems less_SucI in blast)+
  moreover have "set (concat (map f [0 ..< n])) \<inter> set (f n) = {}"
  proof (rule equals0I)
    fix x assume "x \<in> set (concat (map f [0 ..< n])) \<inter> set (f n)"
    then obtain b where "b < n" "x \<in> set (f b)" "x \<in> set (f n)" by auto
    then show False using Suc.prems(2) [of b n x] by simp
  qed
  ultimately show ?case using Suc.prems(1) by simp
qed

end
