(* ===== verification/Block_Provider.thy ===== *)
theory Block_Provider
  imports Infer_Prelude
begin

text \<open>
  The interface between the block pool and the caches that hold its blocks: handing out a block,
  taking one back, and the contract both keep. The references that the clients hold are a
  multiset: a block that several slots share through the prefix cache occurs once per slot.
  \<open>key\<close> is what a shared block is stored under, \<open>None\<close> for a block with one owner.
  The loops that the clients run over it (grow a block table, give a list of blocks back) are
  defined for any provider and proved once, in the locale.
\<close>

text \<open>\<open>while len(ids) < required: ids.append(pool.allocate())\<close>, with \<open>n\<close> blocks missing.\<close>

fun grow :: "('s, nat) act \<Rightarrow> nat \<Rightarrow> nat list \<Rightarrow> 's \<Rightarrow> unit res \<times> nat list \<times> 's" where
  "grow alloc 0 ids s = (Inr (), ids, s)"
| "grow alloc (Suc n) ids s =
     (case alloc s of
        (Inl e, s') \<Rightarrow> (Inl e, ids, s')
      | (Inr b, s') \<Rightarrow> grow alloc n (ids @ [b]) s')"

locale block_provider =
  fixes inv :: "'s \<Rightarrow> nat multiset \<Rightarrow> bool"
    and alloc :: "('s, nat) act"
    and release :: "nat \<Rightarrow> ('s, unit) act"
    and avail :: "'s \<Rightarrow> nat"
    and key :: "'s \<Rightarrow> nat \<Rightarrow> 'k option"
    and frame :: "'s \<Rightarrow> 'd"
  assumes unshared_once: "inv s R \<Longrightarrow> key s b = None \<Longrightarrow> count R b \<le> 1"
    and alloc_ok: "inv s R \<Longrightarrow> 0 < avail s \<Longrightarrow> \<exists>b s'. alloc s = (Inr b, s') \<and>
        inv s' (add_mset b R) \<and> b \<notin># R \<and> key s' b = None \<and> avail s' = avail s - 1 \<and>
        (\<forall>x. x \<in># R \<longrightarrow> key s' x = key s x) \<and> (\<forall>x. key s' x = None \<or> key s' x = key s x) \<and>
        frame s' = frame s"
    and alloc_oom: "inv s R \<Longrightarrow> avail s = 0 \<Longrightarrow> alloc s = (Inl OutOfMemoryError, s)"
    and release_ok: "inv s R \<Longrightarrow> b \<in># R \<Longrightarrow> \<exists>s'. release b s = (Inr (), s') \<and>
        inv s' (R - {#b#}) \<and> avail s \<le> avail s' \<and> key s' = key s \<and> frame s' = frame s"
begin

text \<open>
  Growing a table takes exactly the blocks the provider can give: all \<open>n\<close>, or every available
  one and then \<open>OutOfMemoryError\<close>. The new blocks are fresh, private and all different.
\<close>

lemma grow_ok:
  assumes "inv s (mset ids + R)"
  shows "\<exists>new s'. grow alloc n ids s = (if n \<le> avail s then Inr () else Inl OutOfMemoryError, ids @ new, s') \<and>
    inv s' (mset (ids @ new) + R) \<and> length new = min n (avail s) \<and> avail s' = avail s - length new \<and>
    distinct new \<and> (\<forall>b \<in> set new. b \<notin># mset ids + R \<and> key s' b = None) \<and>
    (\<forall>x. x \<in># mset ids + R \<longrightarrow> key s' x = key s x) \<and>
    (\<forall>x. key s' x = None \<or> key s' x = key s x) \<and> frame s' = frame s"
  using assms
proof (induction n arbitrary: ids s)
  case 0
  then show ?case by (intro exI [of _ "[]"]) auto
next
  case (Suc n)
  show ?case
  proof (cases "avail s = 0")
    case True
    with alloc_oom [OF Suc.prems] Suc.prems show ?thesis by (intro exI [of _ "[]"]) auto
  next
    case False
    with alloc_ok [OF Suc.prems] obtain b s1 where b: "alloc s = (Inr b, s1)"
        "inv s1 (add_mset b (mset ids + R))" "b \<notin># mset ids + R" "key s1 b = None"
        "avail s1 = avail s - 1" "\<forall>x. x \<in># mset ids + R \<longrightarrow> key s1 x = key s x"
        "\<forall>x. key s1 x = None \<or> key s1 x = key s x" "frame s1 = frame s"
      by auto
    have "inv s1 (mset (ids @ [b]) + R)" using b(2) by simp
    from Suc.IH [OF this] obtain new s2 where n:
        "grow alloc n (ids @ [b]) s1 =
           (if n \<le> avail s1 then Inr () else Inl OutOfMemoryError, (ids @ [b]) @ new, s2)"
        "inv s2 (mset ((ids @ [b]) @ new) + R)" "length new = min n (avail s1)"
        "avail s2 = avail s1 - length new" "distinct new"
        "\<forall>x \<in> set new. x \<notin># mset (ids @ [b]) + R \<and> key s2 x = None"
        "\<forall>x. x \<in># mset (ids @ [b]) + R \<longrightarrow> key s2 x = key s1 x"
        "\<forall>x. key s2 x = None \<or> key s2 x = key s1 x" "frame s2 = frame s1"
      by blast
    show ?thesis
    proof (intro exI [of _ "b # new"] exI [of _ s2] conjI)
      show "grow alloc (Suc n) ids s =
          (if Suc n \<le> avail s then Inr () else Inl OutOfMemoryError, ids @ b # new, s2)"
        using b(1,5) n(1) False by auto
      show "inv s2 (mset (ids @ b # new) + R)" using n(2) by simp
      show "\<forall>x. key s2 x = None \<or> key s2 x = key s x" using n(8) b(7) by metis
    qed (use b n False in auto)
  qed
qed

text \<open>Giving a list of held blocks back always succeeds.\<close>

lemma release_all_ok:
  assumes "inv s (mset bs + R)"
  shows "\<exists>s'. for_each release bs s = (Inr (), s') \<and> inv s' R \<and> avail s \<le> avail s' \<and>
    key s' = key s \<and> frame s' = frame s"
  using assms
proof (induction bs arbitrary: s)
  case Nil
  then show ?case by simp
next
  case (Cons b bs)
  from release_ok [OF Cons.prems, of b] obtain s1 where s1: "release b s = (Inr (), s1)"
      "inv s1 (mset bs + R)" "avail s \<le> avail s1" "key s1 = key s" "frame s1 = frame s"
    by auto
  from Cons.IH [OF s1(2)] obtain s2 where "for_each release bs s1 = (Inr (), s2)" "inv s2 R"
      "avail s1 \<le> avail s2" "key s2 = key s1" "frame s2 = frame s1"
    by blast
  with s1 show ?case by auto
qed

end

end
