(* ===== verification/Prefix_Cache.thy ===== *)
theory Prefix_Cache
  imports Infer_Prelude
begin

text \<open>
  \<open>src/mini_infer/cache/prefix_cache.py\<close>: the content-addressed table of full K/V blocks with
  reference counts and an LRU queue of unreferenced blocks.

  The state is the record \<open>prefix_cache\<close>: \<open>entries\<close> is \<open>_entries\<close>, \<open>block_to_hash\<close> is
  \<open>_block_to_hash\<close>, and \<open>evictable\<close> is the key order of the \<open>OrderedDict\<close> \<open>_evictable\<close>
  (oldest first). \<open>hashlib.blake2b(digest_size=16)\<close> is the parameter \<open>digest\<close> of the hashing
  functions: the whole byte string of the \<open>update\<close> calls to its digest.

  The theory shows: the three tables agree after every operation (\<open>pc_inv\<close>); an operation
  acts on the abstract view (cached blocks, reference counts, release order) as its docstring
  says; \<open>lookup\<close> returns the longest cached prefix of a chain; eviction takes the block released
  longest ago; chained hashes identify the whole token prefix when the digest does not collide.
\<close>

section \<open>State\<close>

record cache_entry =
  ce_block_id :: nat
  ce_hash :: "byte list"
  ce_tokens :: "token list"
  refcount :: nat

record prefix_cache =
  pc_block_size :: nat
  entries :: "byte list \<rightharpoonup> cache_entry"
  block_to_hash :: "nat \<rightharpoonup> byte list"
  evictable :: "nat list"

type_synonym digest = "byte list \<Rightarrow> byte list"
type_synonym chain = "(byte list \<times> token list) list"

definition prefix_cache_init :: "int \<Rightarrow> prefix_cache res" where
  "prefix_cache_init bs =
     (if bs \<le> 0 then Inl ValueError
      else Inr \<lparr>pc_block_size = nat bs, entries = Map.empty, block_to_hash = Map.empty,
                evictable = []\<rparr>)"

definition num_evictable :: "prefix_cache \<Rightarrow> nat" where
  "num_evictable pc = length (evictable pc)"

text \<open>An \<open>OrderedDict\<close> used as an ordered set: storing a present key keeps its place.\<close>

definition od_set :: "nat \<Rightarrow> nat list \<Rightarrow> nat list" where
  "od_set k ks = (if k \<in> set ks then ks else ks @ [k])"

definition od_pop :: "nat \<Rightarrow> nat list \<Rightarrow> nat list" where
  "od_pop k ks = filter (\<lambda>x. x \<noteq> k) ks"

section \<open>Hashing\<close>

text \<open>\<open>token_id.to_bytes(4, "little", signed=False)\<close>.\<close>

definition to_bytes4 :: "token \<Rightarrow> byte list res" where
  "to_bytes4 t =
     (if 0 \<le> t \<and> t < 2 ^ 32
      then Inr [word_of_int t, word_of_int (t div 2 ^ 8), word_of_int (t div 2 ^ 16),
                word_of_int (t div 2 ^ 24)]
      else Inl OverflowError)"

fun encode_tokens :: "token list \<Rightarrow> byte list res" where
  "encode_tokens [] = Inr []"
| "encode_tokens (t # ts) =
     (case to_bytes4 t of Inl e \<Rightarrow> Inl e
      | Inr bs \<Rightarrow> (case encode_tokens ts of Inl e \<Rightarrow> Inl e | Inr rest \<Rightarrow> Inr (bs @ rest)))"

definition parent_bytes :: "byte list option \<Rightarrow> byte list" where
  "parent_bytes parent = (case parent of None \<Rightarrow> [] | Some p \<Rightarrow> p)"

definition hash_block :: "digest \<Rightarrow> byte list option \<Rightarrow> token list \<Rightarrow> byte list res" where
  "hash_block digest parent tokens =
     (case encode_tokens tokens of Inl e \<Rightarrow> Inl e
      | Inr bs \<Rightarrow> Inr (digest (parent_bytes parent @ bs)))"

fun hash_blocks :: "digest \<Rightarrow> byte list option \<Rightarrow> token list list \<Rightarrow> chain res" where
  "hash_blocks digest parent [] = Inr []"
| "hash_blocks digest parent (tokens # rest) =
     (case hash_block digest parent tokens of Inl e \<Rightarrow> Inl e
      | Inr h \<Rightarrow> (case hash_blocks digest (Some h) rest of Inl e \<Rightarrow> Inl e
                 | Inr c \<Rightarrow> Inr ((h, tokens) # c)))"

definition compute_block_hashes :: "digest \<Rightarrow> token list \<Rightarrow> nat \<Rightarrow> chain res" where
  "compute_block_hashes digest token_ids bs = hash_blocks digest None (full_blocks bs token_ids)"

section \<open>Operations\<close>

fun lookup :: "prefix_cache \<Rightarrow> chain \<Rightarrow> nat list" where
  "lookup pc [] = []"
| "lookup pc ((h, expected) # rest) =
     (case entries pc h of
        None \<Rightarrow> []
      | Some e \<Rightarrow> if ce_tokens e \<noteq> expected then [] else ce_block_id e # lookup pc rest)"

text \<open>\<open>_incref(entry)\<close>, where \<open>entry\<close> is the object stored under \<open>h\<close>.\<close>

definition incref_entry :: "byte list \<Rightarrow> cache_entry \<Rightarrow> prefix_cache \<Rightarrow> prefix_cache" where
  "incref_entry h e pc =
     pc\<lparr>evictable := (if refcount e = 0 then od_pop (ce_block_id e) (evictable pc)
                      else evictable pc),
        entries := (entries pc)(h \<mapsto> e\<lparr>refcount := refcount e + 1\<rparr>)\<rparr>"

definition publish ::
  "byte list \<Rightarrow> token list \<Rightarrow> nat \<Rightarrow> (prefix_cache, nat \<times> bool) act" where
  "publish h tokens b pc =
     (case entries pc h of
        Some e \<Rightarrow>
          if ce_tokens e \<noteq> tokens then (Inl RuntimeError, pc)
          else (Inr (ce_block_id e, True), incref_entry h e pc)
      | None \<Rightarrow>
          (Inr (b, False),
           pc\<lparr>entries := (entries pc)(h \<mapsto> \<lparr>ce_block_id = b, ce_hash = h, ce_tokens = tokens,
                                          refcount = 1\<rparr>),
              block_to_hash := (block_to_hash pc)(b \<mapsto> h)\<rparr>))"

definition incref :: "nat \<Rightarrow> (prefix_cache, unit) act" where
  "incref b pc =
     (case block_to_hash pc b of
        None \<Rightarrow> (Inl KeyError, pc)
      | Some h \<Rightarrow>
          (case entries pc h of
             None \<Rightarrow> (Inl KeyError, pc)
           | Some e \<Rightarrow> (Inr (), incref_entry h e pc)))"

definition decref :: "nat \<Rightarrow> (prefix_cache, unit) act" where
  "decref b pc =
     (case block_to_hash pc b of
        None \<Rightarrow> (Inl KeyError, pc)
      | Some h \<Rightarrow>
          (case entries pc h of
             None \<Rightarrow> (Inl KeyError, pc)
           | Some e \<Rightarrow>
               if refcount e = 0 then (Inl RuntimeError, pc)
               else (Inr (),
                     pc\<lparr>entries := (entries pc)(h \<mapsto> e\<lparr>refcount := refcount e - 1\<rparr>),
                        evictable := (if refcount e - 1 = 0 then od_set b (evictable pc)
                                      else evictable pc)\<rparr>)))"

definition evict_lru :: "(prefix_cache, nat option) act" where
  "evict_lru pc =
     (case evictable pc of
        [] \<Rightarrow> (Inr None, pc)
      | b # rest \<Rightarrow>
          (case block_to_hash pc b of
             None \<Rightarrow> (Inl KeyError, pc\<lparr>evictable := rest\<rparr>)
           | Some h \<Rightarrow>
               (case entries pc h of
                  None \<Rightarrow> (Inl KeyError, pc\<lparr>evictable := rest,
                                         block_to_hash := (block_to_hash pc)(b := None)\<rparr>)
                | Some e \<Rightarrow>
                    (Inr (Some b),
                     pc\<lparr>evictable := rest,
                        block_to_hash := (block_to_hash pc)(b := None),
                        entries := (entries pc)(h := None)\<rparr>))))"

definition is_cached :: "prefix_cache \<Rightarrow> nat \<Rightarrow> bool" where
  "is_cached pc b \<longleftrightarrow> block_to_hash pc b \<noteq> None"

section \<open>The invariant of the tables\<close>

text \<open>The entry of a block, and the references it counts.\<close>

definition entry_of :: "prefix_cache \<Rightarrow> nat \<Rightarrow> cache_entry option" where
  "entry_of pc b = (case block_to_hash pc b of None \<Rightarrow> None | Some h \<Rightarrow> entries pc h)"

definition refs_of :: "prefix_cache \<Rightarrow> nat \<Rightarrow> nat" where
  "refs_of pc b = (case entry_of pc b of None \<Rightarrow> 0 | Some e \<Rightarrow> refcount e)"

text \<open>What a cached block is stored under: its hash and its tokens.\<close>

definition key_of :: "prefix_cache \<Rightarrow> nat \<Rightarrow> (byte list \<times> token list) option" where
  "key_of pc b = map_option (\<lambda>e. (ce_hash e, ce_tokens e)) (entry_of pc b)"

definition pc_inv :: "prefix_cache \<Rightarrow> bool" where
  "pc_inv pc \<longleftrightarrow>
     (\<forall>b h. block_to_hash pc b = Some h \<longrightarrow> (\<exists>e. entries pc h = Some e \<and> ce_block_id e = b)) \<and>
     (\<forall>h e. entries pc h = Some e \<longrightarrow>
        block_to_hash pc (ce_block_id e) = Some h \<and> ce_hash e = h) \<and>
     distinct (evictable pc) \<and>
     (\<forall>b. b \<in> set (evictable pc) \<longleftrightarrow> is_cached pc b \<and> refs_of pc b = 0)"

lemma pc_invD:
  assumes "pc_inv pc"
  shows "block_to_hash pc b = Some h \<Longrightarrow> \<exists>e. entries pc h = Some e \<and> ce_block_id e = b \<and> ce_hash e = h"
    and "entries pc h = Some e \<Longrightarrow> block_to_hash pc (ce_block_id e) = Some h \<and> ce_hash e = h"
    and "distinct (evictable pc)"
    and "b \<in> set (evictable pc) \<longleftrightarrow> is_cached pc b \<and> refs_of pc b = 0"
  using assms unfolding pc_inv_def by blast+

lemma is_cached_entryE:
  assumes "pc_inv pc" "is_cached pc b"
  obtains h e where "block_to_hash pc b = Some h" "entries pc h = Some e" "ce_block_id e = b"
    "ce_hash e = h" "entry_of pc b = Some e"
  using assms pc_invD(1) [OF assms(1)] by (force simp: is_cached_def entry_of_def)

lemma key_of_iff: "pc_inv pc \<Longrightarrow> key_of pc b \<noteq> None \<longleftrightarrow> is_cached pc b"
  by (auto simp: key_of_def is_cached_def entry_of_def dest: pc_invD(1) split: option.splits)

lemma key_of_Some:
  assumes "pc_inv pc" "key_of pc b = Some (h, t)"
  shows "\<exists>e. entries pc h = Some e \<and> ce_block_id e = b \<and> ce_tokens e = t"
  using assms(2) pc_invD(1) [OF assms(1), of b]
  by (auto simp: key_of_def entry_of_def split: option.splits)

lemma key_of_entry:
  "pc_inv pc \<Longrightarrow> entries pc h = Some e \<Longrightarrow> key_of pc (ce_block_id e) = Some (h, ce_tokens e)"
  using pc_invD(2) by (simp add: key_of_def entry_of_def)

lemma refs_of_uncached [simp]: "\<not> is_cached pc b \<Longrightarrow> refs_of pc b = 0"
  by (simp add: refs_of_def entry_of_def is_cached_def)

lemma set_od_set [simp]: "set (od_set k ks) = insert k (set ks)"
  by (auto simp: od_set_def)

lemma distinct_od_set [simp]: "distinct ks \<Longrightarrow> distinct (od_set k ks)"
  by (auto simp: od_set_def)

lemma set_od_pop [simp]: "set (od_pop k ks) = set ks - {k}"
  by (auto simp: od_pop_def)

lemma distinct_od_pop [simp]: "distinct ks \<Longrightarrow> distinct (od_pop k ks)"
  by (simp add: od_pop_def)

lemma od_pop_absent [simp]: "k \<notin> set ks \<Longrightarrow> od_pop k ks = ks"
  by (induction ks) (auto simp: od_pop_def)

lemma prefix_cache_init_inv: "prefix_cache_init bs = Inr pc \<Longrightarrow> pc_inv pc \<and> pc_block_size pc = nat bs \<and> 0 < pc_block_size pc"
  by (auto simp: prefix_cache_init_def pc_inv_def is_cached_def split: if_splits)

text \<open>Changing the count of one entry, the step that \<open>incref\<close>, \<open>decref\<close> and a duplicate
  \<open>publish\<close> share.\<close>

lemma refs_of_set_count:
  assumes inv: "pc_inv pc" and b: "block_to_hash pc b = Some h" "entries pc h = Some e"
  shows "refs_of (pc\<lparr>entries := (entries pc)(h \<mapsto> e\<lparr>refcount := n\<rparr>), evictable := ev\<rparr>) =
           (refs_of pc)(b := n)"
proof
  fix x
  show "refs_of (pc\<lparr>entries := (entries pc)(h \<mapsto> e\<lparr>refcount := n\<rparr>), evictable := ev\<rparr>) x =
      ((refs_of pc)(b := n)) x"
  proof (cases "x = b")
    case True
    then show ?thesis using b by (simp add: refs_of_def entry_of_def)
  next
    case False
    then have "block_to_hash pc x \<noteq> Some h"
      using pc_invD(1) [OF inv, of x h] pc_invD(1) [OF inv, of b h] b by auto
    with False show ?thesis by (simp add: refs_of_def entry_of_def split: option.splits)
  qed
qed

lemma key_of_set_count:
  assumes "entries pc h = Some e"
  shows "key_of (pc\<lparr>entries := (entries pc)(h \<mapsto> e\<lparr>refcount := n\<rparr>), evictable := ev\<rparr>) = key_of pc"
  using assms by (auto simp: key_of_def entry_of_def fun_eq_iff split: option.splits)

lemma is_cached_set_count [simp]:
  "is_cached (pc\<lparr>entries := m, evictable := ev\<rparr>) b = is_cached pc b"
  by (simp add: is_cached_def)

lemma pc_inv_set_count:
  assumes inv: "pc_inv pc" and b: "block_to_hash pc b = Some h" "entries pc h = Some e"
    and ev: "distinct ev" "set ev = (if n = 0 then insert b (set (evictable pc)) else set (evictable pc) - {b})"
  shows "pc_inv (pc\<lparr>entries := (entries pc)(h \<mapsto> e\<lparr>refcount := n\<rparr>), evictable := ev\<rparr>)"
    (is "pc_inv ?pc'")
proof -
  have refs: "refs_of ?pc' = (refs_of pc)(b := n)" by (rule refs_of_set_count [OF inv b])
  have "\<forall>x. x \<in> set ev \<longleftrightarrow> is_cached ?pc' x \<and> refs_of ?pc' x = 0"
    using pc_invD(4) [OF inv] b ev(2) unfolding refs by (auto simp: is_cached_def)
  moreover have "\<forall>x h'. block_to_hash pc x = Some h' \<longrightarrow>
      (\<exists>e'. ((entries pc)(h \<mapsto> e\<lparr>refcount := n\<rparr>)) h' = Some e' \<and> ce_block_id e' = x)"
    using pc_invD(1) [OF inv] b by fastforce
  moreover have "\<forall>h' e'. ((entries pc)(h \<mapsto> e\<lparr>refcount := n\<rparr>)) h' = Some e' \<longrightarrow>
      block_to_hash pc (ce_block_id e') = Some h' \<and> ce_hash e' = h'"
    using pc_invD(2) [OF inv b(2)] by (auto dest: pc_invD(2) [OF inv] split: if_splits)
  ultimately show ?thesis using ev(1) by (simp add: pc_inv_def)
qed

section \<open>The interface of a reference-counted store\<close>

text \<open>
  What a client of the prefix cache may rely on, over the abstract view: the cached blocks, the
  count of each and the queue of blocks without references.
\<close>

text \<open>Calling \<open>evict\<close> \<open>n\<close> times, keeping the blocks it returns.\<close>

fun evict_times :: "('c, nat option) act \<Rightarrow> nat \<Rightarrow> 'c \<Rightarrow> nat list \<times> 'c" where
  "evict_times evict 0 c = ([], c)"
| "evict_times evict (Suc n) c =
     (case evict c of
        (Inr (Some b), c') \<Rightarrow> (case evict_times evict n c' of (out, c'') \<Rightarrow> (b # out, c''))
      | (_, c') \<Rightarrow> ([], c'))"

locale refcounted_store =
  fixes inv :: "'c \<Rightarrow> bool"
    and key :: "'c \<Rightarrow> nat \<Rightarrow> 'k option"
    and refs :: "'c \<Rightarrow> nat \<Rightarrow> nat"
    and idle :: "'c \<Rightarrow> nat list"
    and pin :: "nat \<Rightarrow> ('c, unit) act"
    and unpin :: "nat \<Rightarrow> ('c, unit) act"
    and evict :: "('c, nat option) act"
  assumes idle_distinct: "inv c \<Longrightarrow> distinct (idle c)"
    and idle_iff: "inv c \<Longrightarrow> b \<in> set (idle c) \<longleftrightarrow> key c b \<noteq> None \<and> refs c b = 0"
    and pin_ok: "inv c \<Longrightarrow> key c b \<noteq> None \<Longrightarrow> \<exists>c'. pin b c = (Inr (), c') \<and> inv c' \<and>
        key c' = key c \<and> refs c' = (refs c)(b := refs c b + 1) \<and>
        idle c' = filter (\<lambda>x. x \<noteq> b) (idle c)"
    and pin_err: "key c b = None \<Longrightarrow> pin b c = (Inl KeyError, c)"
    and unpin_ok: "inv c \<Longrightarrow> key c b \<noteq> None \<Longrightarrow> 0 < refs c b \<Longrightarrow> \<exists>c'. unpin b c = (Inr (), c') \<and>
        inv c' \<and> key c' = key c \<and> refs c' = (refs c)(b := refs c b - 1) \<and>
        idle c' = (if refs c b = 1 then idle c @ [b] else idle c)"
    and unpin_err: "inv c \<Longrightarrow> refs c b = 0 \<Longrightarrow> \<exists>e. unpin b c = (Inl e, c)"
    and evict_empty: "idle c = [] \<Longrightarrow> evict c = (Inr None, c)"
    and evict_ok: "inv c \<Longrightarrow> idle c = b # bs \<Longrightarrow> \<exists>c'. evict c = (Inr (Some b), c') \<and> inv c' \<and>
        key c' = (key c)(b := None) \<and> refs c' = refs c \<and> idle c' = bs"
begin

text \<open>Pinning a list of cached blocks adds one reference per occurrence.\<close>

lemma pin_all:
  assumes "inv c" "\<forall>b \<in> set bs. key c b \<noteq> None"
  shows "\<exists>c'. for_each pin bs c = (Inr (), c') \<and> inv c' \<and> key c' = key c \<and>
    refs c' = (\<lambda>b. refs c b + count_list bs b) \<and> idle c' = filter (\<lambda>x. x \<notin> set bs) (idle c)"
  using assms
proof (induction bs arbitrary: c)
  case Nil
  then show ?case by simp
next
  case (Cons b bs)
  obtain c1 where c1: "pin b c = (Inr (), c1)" "inv c1" "key c1 = key c"
      "refs c1 = (refs c)(b := refs c b + 1)" "idle c1 = filter (\<lambda>x. x \<noteq> b) (idle c)"
    using pin_ok [of c b] Cons.prems by auto
  obtain c2 where c2: "for_each pin bs c1 = (Inr (), c2)" "inv c2" "key c2 = key c1"
      "refs c2 = (\<lambda>x. refs c1 x + count_list bs x)" "idle c2 = filter (\<lambda>x. x \<notin> set bs) (idle c1)"
    using Cons.IH [of c1] Cons.prems c1 by auto
  have "refs c2 = (\<lambda>x. refs c x + count_list (b # bs) x)" by (auto simp: c2(4) c1(4))
  then show ?case using c1 c2 by (auto intro!: filter_cong)
qed

text \<open>Blocks leave in the order of their release: evicting \<open>n\<close> times takes the front of the queue.\<close>

lemma evict_times_ok:
  assumes "inv c" "n \<le> length (idle c)"
  shows "\<exists>c'. evict_times evict n c = (take n (idle c), c') \<and> inv c' \<and> idle c' = drop n (idle c)"
  using assms
proof (induction n arbitrary: c)
  case 0
  then show ?case by simp
next
  case (Suc n)
  then obtain b bs where bs: "idle c = b # bs" by (cases "idle c") auto
  obtain c1 where c1: "evict c = (Inr (Some b), c1)" "inv c1" "idle c1 = bs"
    using evict_ok [OF Suc.prems(1) bs] by auto
  from Suc.IH [OF c1(2)] c1(3) Suc.prems(2) bs obtain c2 where
    "evict_times evict n c1 = (take n bs, c2)" "inv c2" "idle c2 = drop n bs" by auto
  with c1 bs show ?case by simp
qed

end

section \<open>The prefix cache provides the interface\<close>

lemma od_pop_distinct_set: "set (od_pop b (evictable pc)) = set (evictable pc) - {b}"
  by simp

lemma incref_ok:
  assumes "pc_inv pc" "is_cached pc b"
  shows "\<exists>pc'. incref b pc = (Inr (), pc') \<and> pc_inv pc' \<and> is_cached pc' = is_cached pc \<and> key_of pc' = key_of pc \<and>
    refs_of pc' = (refs_of pc)(b := refs_of pc b + 1) \<and>
    evictable pc' = filter (\<lambda>x. x \<noteq> b) (evictable pc) \<and> pc_block_size pc' = pc_block_size pc"
proof -
  obtain h e where he: "block_to_hash pc b = Some h" "entries pc h = Some e" "ce_block_id e = b"
      "entry_of pc b = Some e"
    using assms by (rule is_cached_entryE)
  have r: "refs_of pc b = refcount e" using he by (simp add: refs_of_def)
  let ?ev = "if refcount e = 0 then od_pop b (evictable pc) else evictable pc"
  have ev: "?ev = filter (\<lambda>x. x \<noteq> b) (evictable pc)"
    using pc_invD(4) [OF assms(1), of b] r od_pop_absent [of b "evictable pc"]
    by (auto simp: od_pop_def)
  let ?pc' = "pc\<lparr>entries := (entries pc)(h \<mapsto> e\<lparr>refcount := refcount e + 1\<rparr>), evictable := ?ev\<rparr>"
  have eq: "incref b pc = (Inr (), ?pc')"
    using he by (simp add: incref_def incref_entry_def del: if_split)
  have "distinct ?ev" "set ?ev = set (evictable pc) - {b}"
    unfolding ev using pc_invD(3) [OF assms(1)] by auto
  then have "pc_inv ?pc'" by (intro pc_inv_set_count [OF assms(1) he(1,2)]) auto
  moreover have "refs_of ?pc' = (refs_of pc)(b := refs_of pc b + 1)"
    using refs_of_set_count [OF assms(1) he(1,2)] r by simp
  moreover have "key_of ?pc' = key_of pc" using key_of_set_count [OF he(2)] by simp
  ultimately show ?thesis using eq ev by (auto simp: fun_eq_iff)
qed

lemma decref_ok:
  assumes "pc_inv pc" "is_cached pc b" "0 < refs_of pc b"
  shows "\<exists>pc'. decref b pc = (Inr (), pc') \<and> pc_inv pc' \<and> is_cached pc' = is_cached pc \<and> key_of pc' = key_of pc \<and>
    refs_of pc' = (refs_of pc)(b := refs_of pc b - 1) \<and>
    evictable pc' = (if refs_of pc b = 1 then evictable pc @ [b] else evictable pc) \<and>
    pc_block_size pc' = pc_block_size pc"
proof -
  obtain h e where he: "block_to_hash pc b = Some h" "entries pc h = Some e" "ce_block_id e = b"
      "entry_of pc b = Some e"
    using assms(1,2) by (rule is_cached_entryE)
  have r: "refs_of pc b = refcount e" using he by (simp add: refs_of_def)
  have nb: "b \<notin> set (evictable pc)" using pc_invD(4) [OF assms(1), of b] assms(3) by simp
  let ?ev = "if refs_of pc b = 1 then evictable pc @ [b] else evictable pc"
  let ?pc' = "pc\<lparr>entries := (entries pc)(h \<mapsto> e\<lparr>refcount := refcount e - 1\<rparr>), evictable := ?ev\<rparr>"
  have eq: "decref b pc = (Inr (), ?pc')"
    using he r nb assms(3) by (auto simp: decref_def od_set_def)
  have "pc_inv ?pc'"
    by (rule pc_inv_set_count [OF assms(1) he(1,2)])
      (use pc_invD(3) [OF assms(1)] nb r assms(3) in auto)
  moreover have "refs_of ?pc' = (refs_of pc)(b := refs_of pc b - 1)"
    using refs_of_set_count [OF assms(1) he(1,2)] r by simp
  moreover have "key_of ?pc' = key_of pc" using key_of_set_count [OF he(2)] by simp
  ultimately show ?thesis using eq by (auto simp: fun_eq_iff)
qed

lemma evict_lru_ok:
  assumes inv: "pc_inv pc" and ev: "evictable pc = b # bs"
  shows "\<exists>pc'. evict_lru pc = (Inr (Some b), pc') \<and> pc_inv pc' \<and>
    is_cached pc' = (is_cached pc)(b := False) \<and> key_of pc' = (key_of pc)(b := None) \<and> refs_of pc' = refs_of pc \<and> evictable pc' = bs \<and>
    pc_block_size pc' = pc_block_size pc"
proof -
  have c: "is_cached pc b" "refs_of pc b = 0" using pc_invD(4) [OF inv, of b] ev by auto
  obtain h e where he: "block_to_hash pc b = Some h" "entries pc h = Some e" "ce_block_id e = b"
    using inv c(1) by (rule is_cached_entryE)
  let ?pc' = "pc\<lparr>evictable := bs, block_to_hash := (block_to_hash pc)(b := None),
    entries := (entries pc)(h := None)\<rparr>"
  have eq: "evict_lru pc = (Inr (Some b), ?pc')" using he ev by (simp add: evict_lru_def)
  have other: "block_to_hash pc x \<noteq> Some h" if "x \<noteq> b" for x
    using pc_invD(1) [OF inv, of x h] he that by auto
  have refs: "refs_of ?pc' = refs_of pc"
  proof
    show "refs_of ?pc' x = refs_of pc x" for x
      using c(2) other [of x] by (cases "x = b") (auto simp: refs_of_def entry_of_def split: option.splits)
  qed
  have key: "key_of ?pc' = (key_of pc)(b := None)"
    using other by (auto simp: key_of_def entry_of_def fun_eq_iff split: option.splits)
  have cch: "is_cached ?pc' = (is_cached pc)(b := False)" by (auto simp: is_cached_def fun_eq_iff)
  have "block_to_hash ?pc' (ce_block_id e') = Some h' \<and> ce_hash e' = h'"
    if "entries ?pc' h' = Some e'" for h' e'
  proof -
    have "entries pc h' = Some e'" "h' \<noteq> h" using that by (auto split: if_splits)
    then show ?thesis using pc_invD(2) [OF inv, of h' e'] he by auto
  qed
  moreover have "\<exists>e'. entries ?pc' h' = Some e' \<and> ce_block_id e' = x"
    if "block_to_hash ?pc' x = Some h'" for x h'
  proof -
    have x: "block_to_hash pc x = Some h'" "x \<noteq> b" using that by (auto split: if_splits)
    then show ?thesis using pc_invD(1) [OF inv x(1)] other [OF x(2)] by auto
  qed
  moreover have "x \<in> set (evictable ?pc') \<longleftrightarrow> is_cached ?pc' x \<and> refs_of ?pc' x = 0" for x
    using pc_invD(3,4) [OF inv] ev unfolding refs cch by auto
  moreover have "distinct (evictable ?pc')" using pc_invD(3) [OF inv] ev by simp
  ultimately have "pc_inv ?pc'" unfolding pc_inv_def by blast
  with eq refs cch key show ?thesis by auto
qed

interpretation pc: refcounted_store pc_inv key_of refs_of evictable incref decref evict_lru
proof (unfold_locales, goal_cases)
  case (1 c)
  then show ?case by (rule pc_invD(3))
next
  case (2 c b)
  then show ?case using pc_invD(4) key_of_iff by blast
next
  case (3 c b)
  then show ?case using incref_ok key_of_iff by blast
next
  case (4 c b)
  then show ?case
    by (auto simp: key_of_def entry_of_def incref_def split: option.splits)
next
  case (5 c b)
  then show ?case using decref_ok key_of_iff by blast
next
  case (6 c b)
  then show ?case by (auto simp: decref_def refs_of_def entry_of_def split: option.splits)
next
  case (7 c)
  then show ?case by (simp add: evict_lru_def)
next
  case (8 c b bs)
  then show ?case using evict_lru_ok by blast
qed

section \<open>Publishing\<close>

lemma publish_new_ok:
  assumes inv: "pc_inv pc" and h: "entries pc h = None" and b: "\<not> is_cached pc b"
  shows "\<exists>pc'. publish h tokens b pc = (Inr (b, False), pc') \<and> pc_inv pc' \<and>
    is_cached pc' = (is_cached pc)(b := True) \<and> key_of pc' = (key_of pc)(b := Some (h, tokens)) \<and>
    refs_of pc' = (refs_of pc)(b := 1) \<and>
    evictable pc' = evictable pc \<and> pc_block_size pc' = pc_block_size pc"
proof -
  let ?e = "\<lparr>ce_block_id = b, ce_hash = h, ce_tokens = tokens, refcount = 1\<rparr>"
  let ?pc' = "pc\<lparr>entries := (entries pc)(h \<mapsto> ?e), block_to_hash := (block_to_hash pc)(b \<mapsto> h)\<rparr>"
  have eq: "publish h tokens b pc = (Inr (b, False), ?pc')" using h by (simp add: publish_def)
  have nb: "block_to_hash pc b = None" using b by (simp add: is_cached_def)
  have nh: "block_to_hash pc x \<noteq> Some h" for x using pc_invD(1) [OF inv, of x h] h by auto
  have refs: "refs_of ?pc' = (refs_of pc)(b := 1)"
  proof
    show "refs_of ?pc' x = ((refs_of pc)(b := 1)) x" for x
      using nh [of x] by (cases "x = b") (auto simp: refs_of_def entry_of_def split: option.splits)
  qed
  have cch: "is_cached ?pc' = (is_cached pc)(b := True)" by (auto simp: is_cached_def fun_eq_iff)
  have key: "key_of ?pc' = (key_of pc)(b := Some (h, tokens))"
    using nh by (auto simp: key_of_def entry_of_def fun_eq_iff split: option.splits)
  have "ce_block_id e' \<noteq> b" if "entries pc h' = Some e'" for h' e'
    using pc_invD(2) [OF inv that] nb by auto
  then have "\<forall>h' e'. entries ?pc' h' = Some e' \<longrightarrow>
      block_to_hash ?pc' (ce_block_id e') = Some h' \<and> ce_hash e' = h'"
    using pc_invD(2) [OF inv] by auto
  moreover have "\<forall>x h'. block_to_hash ?pc' x = Some h' \<longrightarrow>
      (\<exists>e'. entries ?pc' h' = Some e' \<and> ce_block_id e' = x)"
    using pc_invD(1) [OF inv] nh by auto
  moreover have "\<forall>x. x \<in> set (evictable ?pc') \<longleftrightarrow> is_cached ?pc' x \<and> refs_of ?pc' x = 0"
    using pc_invD(4) [OF inv] b unfolding refs cch by auto
  ultimately have "pc_inv ?pc'" using pc_invD(3) [OF inv] by (simp add: pc_inv_def)
  with eq refs cch key show ?thesis by auto
qed

lemma publish_dup_ok:
  assumes inv: "pc_inv pc" and h: "entries pc h = Some e" "ce_tokens e = tokens"
  shows "\<exists>pc'. publish h tokens b pc = (Inr (ce_block_id e, True), pc') \<and> pc_inv pc' \<and>
    is_cached pc (ce_block_id e) \<and> is_cached pc' = is_cached pc \<and> key_of pc' = key_of pc \<and>
    key_of pc (ce_block_id e) = Some (h, tokens) \<and>
    refs_of pc' = (refs_of pc)(ce_block_id e := refs_of pc (ce_block_id e) + 1) \<and>
    evictable pc' = filter (\<lambda>x. x \<noteq> ce_block_id e) (evictable pc) \<and>
    pc_block_size pc' = pc_block_size pc"
proof -
  let ?b = "ce_block_id e"
  have b: "block_to_hash pc ?b = Some h" using pc_invD(2) [OF inv h(1)] by simp
  then have c: "is_cached pc ?b" by (simp add: is_cached_def)
  have "snd (incref ?b pc) = incref_entry h e pc" using b h(1) by (simp add: incref_def)
  then have "publish h tokens b pc = (Inr (?b, True), snd (incref ?b pc))"
    using h by (simp add: publish_def)
  with incref_ok [OF inv c] c key_of_entry [OF inv h(1)] h(2) show ?thesis by auto
qed

lemma publish_collision:
  "entries pc h = Some e \<Longrightarrow> ce_tokens e \<noteq> tokens \<Longrightarrow> publish h tokens b pc = (Inl RuntimeError, pc)"
  by (simp add: publish_def)

lemma publish_entries:
  assumes "publish h tokens b pc = (Inr r, pc')"
  shows "\<exists>e. entries pc' h = Some e \<and> ce_tokens e = tokens \<and> ce_block_id e = fst r"
    and "h' \<noteq> h \<Longrightarrow> entries pc' h' = entries pc h'"
  using assms by (auto simp: publish_def incref_entry_def split: option.splits if_splits)

section \<open>Lookup\<close>

text \<open>A hit: the hash is cached and the stored tokens are the expected ones.\<close>

definition hit :: "prefix_cache \<Rightarrow> byte list \<times> token list \<Rightarrow> bool" where
  "hit pc ht = (case entries pc (fst ht) of None \<Rightarrow> False | Some e \<Rightarrow> ce_tokens e = snd ht)"

definition block_of :: "prefix_cache \<Rightarrow> byte list \<Rightarrow> nat" where
  "block_of pc h = (case entries pc h of None \<Rightarrow> 0 | Some e \<Rightarrow> ce_block_id e)"

lemma lookup_eq: "lookup pc chain = map (\<lambda>ht. block_of pc (fst ht)) (takeWhile (hit pc) chain)"
  by (induction pc chain rule: lookup.induct) (auto simp: hit_def block_of_def split: option.splits)

lemma lookup_length: "length (lookup pc chain) \<le> length chain"
  by (simp add: lookup_eq length_takeWhile_le)

lemma lookup_nth:
  assumes "i < length (lookup pc chain)"
  shows "hit pc (chain ! i)" "lookup pc chain ! i = block_of pc (fst (chain ! i))"
proof -
  have l: "i < length (takeWhile (hit pc) chain)" using assms by (simp add: lookup_eq)
  then have "takeWhile (hit pc) chain ! i = chain ! i" by (rule takeWhile_nth)
  moreover have "hit pc (takeWhile (hit pc) chain ! i)" using l nth_mem set_takeWhileD by fastforce
  ultimately show "hit pc (chain ! i)" "lookup pc chain ! i = block_of pc (fst (chain ! i))"
    using l by (simp_all add: lookup_eq)
qed

lemma lookup_cached:
  assumes inv: "pc_inv pc"
  shows "\<forall>b \<in> set (lookup pc chain). is_cached pc b"
proof (induction chain)
  case Nil
  then show ?case by simp
next
  case (Cons ht chain)
  obtain h t where ht: "ht = (h, t)" by (cases ht)
  show ?case
  proof (cases "entries pc h")
    case None
    then show ?thesis by (simp add: ht)
  next
    case (Some e)
    then show ?thesis using Cons pc_invD(2) [OF inv Some] by (simp add: ht is_cached_def)
  qed
qed

lemma block_of_inj:
  assumes "pc_inv pc" "entries pc h = Some e" "entries pc h' = Some e'" "block_of pc h = block_of pc h'"
  shows "h = h'"
  using pc_invD(2) [OF assms(1,2)] pc_invD(2) [OF assms(1,3)] assms by (simp add: block_of_def)

section \<open>Chained hashes identify the prefix\<close>

lemma to_bytes4_length: "to_bytes4 t = Inr bs \<Longrightarrow> length bs = 4"
  by (auto simp: to_bytes4_def split: if_splits)

lemma base256_digits:
  assumes "0 \<le> (t::int)" "t < 4294967296"
  shows "t = t mod 256 + 256 * (t div 256 mod 256) + 65536 * (t div 65536 mod 256)
      + 16777216 * (t div 16777216 mod 256)"
proof -
  define a b c where "a = t div 256" and "b = t div 65536" and "c = t div 16777216"
  have b: "b = a div 256" and c: "c = b div 256"
    by (simp_all add: a_def b_def c_def zdiv_zmult2_eq [symmetric])
  have "t = 256 * a + t mod 256" by (simp add: a_def)
  moreover have "a = 256 * b + a mod 256" by (simp add: b)
  moreover have "b = 256 * c + b mod 256" by (simp add: c)
  moreover have "c mod 256 = c"
    using assms by (intro mod_pos_pos_trivial) (auto simp: c_def div_less_iff_less_mult pos_imp_zdiv_nonneg_iff)
  ultimately have "t = t mod 256 + 256 * (a mod 256) + 65536 * (b mod 256) + 16777216 * (c mod 256)"
    by linarith
  then show ?thesis by (simp only: a_def b_def c_def)
qed

lemma to_bytes4_decode:
  assumes "to_bytes4 t = Inr bs"
  shows "t = uint (bs ! 0) + 256 * uint (bs ! 1) + 65536 * uint (bs ! 2) + 16777216 * uint (bs ! 3)"
proof -
  have t: "0 \<le> t" "t < 4294967296" using assms by (auto simp: to_bytes4_def split: if_splits)
  have bs: "bs = [word_of_int t, word_of_int (t div 256), word_of_int (t div 65536),
      word_of_int (t div 16777216)]"
    using assms by (auto simp: to_bytes4_def split: if_splits)
  have "uint (bs ! 0) = t mod 256" "uint (bs ! 1) = t div 256 mod 256"
      "uint (bs ! 2) = t div 65536 mod 256" "uint (bs ! 3) = t div 16777216 mod 256"
    by (simp_all add: bs unsigned_of_int take_bit_eq_mod)
  then show ?thesis using base256_digits [OF t] by (simp only:)
qed

lemma to_bytes4_inj: "to_bytes4 t = Inr bs \<Longrightarrow> to_bytes4 t' = Inr bs \<Longrightarrow> t = t'"
  using to_bytes4_decode by metis

lemma encode_tokens_length: "encode_tokens ts = Inr bs \<Longrightarrow> length bs = 4 * length ts"
  by (induction ts arbitrary: bs) (auto dest: to_bytes4_length split: sum.splits)

lemma encode_tokens_inj:
  "encode_tokens ts = Inr bs \<Longrightarrow> encode_tokens ts' = Inr bs \<Longrightarrow> ts = ts'"
proof (induction ts arbitrary: ts' bs)
  case Nil
  then show ?case using encode_tokens_length [of ts' bs] by simp
next
  case (Cons t ts)
  then obtain x xs where x: "to_bytes4 t = Inr x" "encode_tokens ts = Inr xs" "bs = x @ xs"
    by (auto split: sum.splits)
  have "length ts' = Suc (length ts)"
    using encode_tokens_length [OF Cons.prems(1)] encode_tokens_length [OF Cons.prems(2)] by simp
  then obtain t' us where ts': "ts' = t' # us" by (cases ts') auto
  with Cons.prems(2) obtain y ys where y: "to_bytes4 t' = Inr y" "encode_tokens us = Inr ys" "bs = y @ ys"
    by (auto split: sum.splits)
  have "x = y \<and> xs = ys"
    using x(3) y(3) to_bytes4_length [OF x(1)] to_bytes4_length [OF y(1)] by auto
  then show ?case using Cons.IH [OF x(2)] to_bytes4_inj [OF x(1)] y ts' by simp
qed

lemma encode_tokens_ok: "\<forall>t \<in> set ts. 0 \<le> t \<and> t < 2 ^ 32 \<Longrightarrow> succeeds (encode_tokens ts)"
  by (induction ts) (auto simp: to_bytes4_def succeeds_iff split: sum.splits)

text \<open>The byte string hashed for a block, with a digest of 16 bytes in front of all but the first.\<close>

lemma hash_input_inj:
  assumes "encode_tokens ts = Inr bs" "encode_tokens ts' = Inr bs'" "length ts = length ts'"
    and "\<And>x. p = Some x \<Longrightarrow> length x = 16" "\<And>x. p' = Some x \<Longrightarrow> length x = 16"
    and eq: "parent_bytes p @ bs = parent_bytes p' @ bs'"
  shows "p = p' \<and> ts = ts'"
proof -
  have l: "length bs = length bs'"
    using encode_tokens_length [OF assms(1)] encode_tokens_length [OF assms(2)] assms(3) by simp
  with eq have "parent_bytes p = parent_bytes p' \<and> bs = bs'" by simp
  moreover from this have "p = p'"
    using assms(4,5) by (cases p; cases p') (auto simp: parent_bytes_def)
  ultimately show ?thesis using encode_tokens_inj assms(1,2) by blast
qed

text \<open>The chain of a block list: its tokens, and each hash from the one before.\<close>

definition parent_at :: "byte list option \<Rightarrow> chain \<Rightarrow> nat \<Rightarrow> byte list option" where
  "parent_at p c i = (case i of 0 \<Rightarrow> p | Suc k \<Rightarrow> Some (fst (c ! k)))"

lemma hash_blocks_spec:
  "hash_blocks digest p blocks = Inr c \<Longrightarrow>
     map snd c = blocks \<and>
     (\<forall>i < length c. hash_block digest (parent_at p c i) (blocks ! i) = Inr (fst (c ! i)))"
proof (induction digest p blocks arbitrary: c rule: hash_blocks.induct)
  case (1 digest p)
  then show ?case by simp
next
  case (2 digest p tokens rest)
  then obtain h c' where h: "hash_block digest p tokens = Inr h"
      "hash_blocks digest (Some h) rest = Inr c'" "c = (h, tokens) # c'"
    by (auto split: sum.splits)
  from "2.IH" [OF h(1,2)] have IH: "map snd c' = rest"
    "\<forall>i < length c'. hash_block digest (parent_at (Some h) c' i) (rest ! i) = Inr (fst (c' ! i))"
    by auto
  have "hash_block digest (parent_at p c i) ((tokens # rest) ! i) = Inr (fst (c ! i))"
    if "i < length c" for i
  proof (cases i)
    case 0
    then show ?thesis using h by (simp add: parent_at_def)
  next
    case (Suc k)
    then have "parent_at p c i = parent_at (Some h) c' k"
      by (cases k) (simp_all add: parent_at_def h(3))
    then show ?thesis using Suc IH(2) that by (simp add: h(3))
  qed
  then show ?case using IH(1) h(3) by simp
qed

lemma hash_blocks_length: "hash_blocks digest p blocks = Inr c \<Longrightarrow> length c = length blocks"
  using hash_blocks_spec by (metis length_map)

lemma hash_blocks_take:
  "hash_blocks digest p blocks = Inr c \<Longrightarrow> hash_blocks digest p (take k blocks) = Inr (take k c)"
proof (induction digest p blocks arbitrary: c k rule: hash_blocks.induct)
  case (1 digest p)
  then show ?case by simp
next
  case (2 digest p tokens rest)
  then obtain h c' where h: "hash_block digest p tokens = Inr h"
      "hash_blocks digest (Some h) rest = Inr c'" "c = (h, tokens) # c'"
    by (auto split: sum.splits)
  then show ?case using "2.IH" [OF h(1,2)] by (cases k) auto
qed

text \<open>The byte strings that a chain feeds to the digest.\<close>

definition chain_inputs :: "chain \<Rightarrow> byte list set" where
  "chain_inputs c = {parent_bytes (parent_at None c i) @ bs | i bs.
     i < length c \<and> encode_tokens (snd (c ! i)) = Inr bs}"

lemma chain_inputsI:
  "i < length c \<Longrightarrow> encode_tokens (snd (c ! i)) = Inr bs \<Longrightarrow>
     parent_bytes (parent_at None c i) @ bs \<in> chain_inputs c"
  unfolding chain_inputs_def by blast

lemma hash_block_eqD:
  assumes "hash_block digest p ts = Inr h"
  shows "\<exists>bs. encode_tokens ts = Inr bs \<and> h = digest (parent_bytes p @ bs)"
  using assms by (auto simp: hash_block_def split: sum.splits)

lemma chain_hash_injective:
  assumes digest: "\<And>x. length (digest x) = 16"
    and inj: "inj_on digest (chain_inputs c \<union> chain_inputs d)"
    and c: "hash_blocks digest None us = Inr c" and d: "hash_blocks digest None vs = Inr d"
    and len: "\<forall>b \<in> set us \<union> set vs. length b = n"
    and "i < length c" "j < length d" "fst (c ! i) = fst (d ! j)"
  shows "i = j \<and> take (Suc i) us = take (Suc j) vs"
proof -
  note cs = hash_blocks_spec [OF c] and ds = hash_blocks_spec [OF d]
  have lens: "length us = length c" "length vs = length d" using cs ds by (metis length_map)+
  have p16: "length x = 16"
    if prt: "parent_at None e k = Some x" and rng: "e = c \<and> k < length c \<or> e = d \<and> k < length d"
    for e k x
  proof -
    obtain m where m: "k = Suc m" "x = fst (e ! m)"
      using prt by (cases k) (auto simp: parent_at_def)
    have "\<exists>y. x = digest y"
      using rng m cs ds hash_block_eqD by (metis Suc_lessD)
    then show ?thesis using digest by auto
  qed
  have step: "parent_at None c i = parent_at None d j \<and> us ! i = vs ! j"
    if ij: "i < length c" "j < length d" "fst (c ! i) = fst (d ! j)" for i j
  proof -
    obtain x where x: "encode_tokens (us ! i) = Inr x"
        "fst (c ! i) = digest (parent_bytes (parent_at None c i) @ x)"
      using cs ij(1) hash_block_eqD by blast
    obtain y where y: "encode_tokens (vs ! j) = Inr y"
        "fst (d ! j) = digest (parent_bytes (parent_at None d j) @ y)"
      using ds ij(2) hash_block_eqD by blast
    have "snd (c ! i) = us ! i" "snd (d ! j) = vs ! j"
      using cs ds ij by (metis nth_map)+
    then have "parent_bytes (parent_at None c i) @ x \<in> chain_inputs c"
        "parent_bytes (parent_at None d j) @ y \<in> chain_inputs d"
      using chain_inputsI x(1) y(1) ij by metis+
    then have eq: "parent_bytes (parent_at None c i) @ x = parent_bytes (parent_at None d j) @ y"
      using inj x(2) y(2) ij(3) by (metis UnCI inj_onD)
    have "us ! i \<in> set us" "vs ! j \<in> set vs" using ij lens by auto
    then have "length (us ! i) = length (vs ! j)" using len by simp
    from hash_input_inj [OF x(1) y(1) this _ _ eq] show ?thesis using p16 ij by blast
  qed
  show ?thesis using assms(6-8)
  proof (induction i arbitrary: j)
    case 0
    from step [OF 0] have "parent_at None d j = None" "us ! 0 = vs ! j"
      by (auto simp: parent_at_def)
    moreover from this(1) have "j = 0" by (cases j) (auto simp: parent_at_def)
    ultimately show ?case using 0 lens by (auto simp: take_Suc_conv_app_nth)
  next
    case (Suc i)
    from step [OF Suc.prems] have st: "parent_at None d j = Some (fst (c ! i))" "us ! Suc i = vs ! j"
      by (auto simp: parent_at_def)
    then obtain m where m: "j = Suc m" "fst (c ! i) = fst (d ! m)"
      by (cases j) (auto simp: parent_at_def)
    have "i = m \<and> take (Suc i) us = take (Suc m) vs"
      by (rule Suc.IH) (use Suc.prems m in auto)
    then show ?case using m st Suc.prems lens by (auto simp: take_Suc_conv_app_nth)
  qed
qed

section \<open>Runs of the cache\<close>

datatype pc_op = OpPublish "byte list" "token list" nat | OpIncref nat | OpDecref nat | OpEvict

text \<open>
  One successful call. A writer publishes a block of its own: one that is not in the cache, unless
  the hash is already there and the block is rejected.
\<close>

inductive pc_step :: "prefix_cache \<Rightarrow> pc_op \<Rightarrow> prefix_cache \<Rightarrow> bool" where
  step_publish: "publish h tokens b pc = (Inr r, pc') \<Longrightarrow> entries pc h = None \<longrightarrow> \<not> is_cached pc b \<Longrightarrow>
    pc_step pc (OpPublish h tokens b) pc'"
| step_incref: "incref b pc = (Inr (), pc') \<Longrightarrow> pc_step pc (OpIncref b) pc'"
| step_decref: "decref b pc = (Inr (), pc') \<Longrightarrow> pc_step pc (OpDecref b) pc'"
| step_evict: "evict_lru pc = (Inr r, pc') \<Longrightarrow> pc_step pc OpEvict pc'"

inductive_cases step_publishE: "pc_step pc (OpPublish h tokens b) pc'"
inductive_cases step_increfE: "pc_step pc (OpIncref b) pc'"
inductive_cases step_decrefE: "pc_step pc (OpDecref b) pc'"
inductive_cases step_evictE: "pc_step pc OpEvict pc'"

inductive pc_run :: "prefix_cache \<Rightarrow> pc_op list \<Rightarrow> prefix_cache \<Rightarrow> bool" where
  run_init: "pc_run pc [] pc"
| run_step: "pc_run pc ops pc' \<Longrightarrow> pc_step pc' op pc'' \<Longrightarrow> pc_run pc (ops @ [op]) pc''"

text \<open>What a step does to the queue and the counts.\<close>

lemma pc_step_view:
  assumes "pc_inv pc" "pc_step pc op pc'"
  shows "pc_inv pc' \<and>
    (\<exists>P. evictable pc' = filter P (evictable pc)) \<and> (\<forall>b. op \<noteq> OpDecref b) \<or>
    pc_inv pc' \<and> (\<exists>b. op = OpDecref b \<and> b \<notin> set (evictable pc) \<and>
      (evictable pc' = evictable pc \<or> evictable pc' = evictable pc @ [b]))"
proof (cases op)
  case (OpPublish h tokens b)
  with assms(2) obtain r where r: "publish h tokens b pc = (Inr r, pc')"
      "entries pc h = None \<longrightarrow> \<not> is_cached pc b"
    by (auto elim: step_publishE)
  show ?thesis
  proof (cases "entries pc h")
    case None
    with publish_new_ok [OF assms(1) None, of b tokens] r OpPublish show ?thesis
      by (auto intro!: exI [of _ "\<lambda>_. True"])
  next
    case (Some e)
    moreover have "ce_tokens e = tokens"
      using Some r(1) by (auto simp: publish_def split: if_splits)
    ultimately show ?thesis using publish_dup_ok [OF assms(1) Some, of tokens b] r OpPublish by auto
  qed
next
  case (OpIncref b)
  with assms(2) have r: "incref b pc = (Inr (), pc')" by (auto elim: step_increfE)
  then have "is_cached pc b" by (auto simp: incref_def is_cached_def split: option.splits)
  with incref_ok [OF assms(1) this] r OpIncref show ?thesis by auto
next
  case (OpDecref b)
  with assms(2) have r: "decref b pc = (Inr (), pc')" by (auto elim: step_decrefE)
  then have c: "is_cached pc b" by (auto simp: decref_def is_cached_def split: option.splits)
  have "0 < refs_of pc b"
    using pc.unpin_err [OF assms(1), of b] r by (metis gr0I old.sum.distinct(1) prod.inject)
  then show ?thesis
    using decref_ok [OF assms(1) c] r pc_invD(4) [OF assms(1), of b] OpDecref by fastforce
next
  case OpEvict
  with assms(2) obtain r where r: "evict_lru pc = (Inr r, pc')" by (auto elim: step_evictE)
  show ?thesis
  proof (cases "evictable pc")
    case Nil
    then show ?thesis using r OpEvict assms(1) by (auto simp: evict_lru_def)
  next
    case (Cons b bs)
    have "bs = filter (\<lambda>x. x \<noteq> b) (evictable pc)"
      using pc_invD(3) [OF assms(1)] Cons od_pop_absent [of b bs] by (auto simp: od_pop_def)
    with evict_lru_ok [OF assms(1) Cons] r OpEvict show ?thesis by auto
  qed
qed

lemma pc_step_inv: "pc_inv pc \<Longrightarrow> pc_step pc op pc' \<Longrightarrow> pc_inv pc'"
  using pc_step_view by blast

lemma pc_run_inv: "pc_run pc ops pc' \<Longrightarrow> pc_inv pc \<Longrightarrow> pc_inv pc'"
  by (induction rule: pc_run.induct) (auto intro: pc_step_inv)

text \<open>The time of the last release of a block in a trace: 0 if there is none.\<close>

definition release_time :: "pc_op list \<Rightarrow> nat \<Rightarrow> nat" where
  "release_time ops b = length (dropWhile (\<lambda>op. op \<noteq> OpDecref b) (rev ops))"

lemma release_time_snoc:
  "release_time (ops @ [op]) b = (if op = OpDecref b then Suc (length ops) else release_time ops b)"
  by (simp add: release_time_def)

lemma release_time_le: "release_time ops b \<le> length ops"
  by (metis length_dropWhile_le length_rev release_time_def)

lemma pc_run_lru:
  "pc_run pc ops pc' \<Longrightarrow> pc_inv pc \<Longrightarrow> evictable pc = [] \<Longrightarrow>
     sorted_wrt (<) (map (release_time ops) (evictable pc'))"
proof (induction rule: pc_run.induct)
  case (run_init pc)
  then show ?case by simp
next
  case (run_step pc ops pc' op pc'')
  have srt: "sorted_wrt (<) (map (release_time ops) (evictable pc'))" using run_step by simp
  have inv: "pc_inv pc'" using pc_run_inv run_step by blast
  from pc_step_view [OF inv run_step.hyps(2)] consider
      (keep) P where "evictable pc'' = filter P (evictable pc')" "\<forall>b. op \<noteq> OpDecref b"
    | (release) b where "op = OpDecref b" "b \<notin> set (evictable pc')"
        "evictable pc'' = evictable pc' \<or> evictable pc'' = evictable pc' @ [b]"
    by blast
  then show ?case
  proof cases
    case (keep P)
    have "sorted_wrt (\<lambda>x y. release_time ops x < release_time ops y) (filter P (evictable pc'))"
      using srt by (simp add: sorted_wrt_map sorted_wrt_filter)
    then show ?thesis using keep by (simp add: sorted_wrt_map release_time_snoc)
  next
    case (release b)
    have same: "map (release_time (ops @ [op])) (evictable pc') = map (release_time ops) (evictable pc')"
      using release(1,2) by (auto simp: release_time_snoc)
    have last: "release_time (ops @ [op]) b = Suc (length ops)"
      using release(1) by (simp add: release_time_snoc)
    have "release_time ops x < Suc (length ops)" for x
      using release_time_le le_imp_less_Suc by blast
    then have snoc: "sorted_wrt (<) (map (release_time ops) (evictable pc') @ [Suc (length ops)])"
      using srt by (auto simp: sorted_wrt_append)
    show ?thesis
      using release(3) srt snoc by (elim disjE) (simp_all only: map_append same list.map last)
  qed
qed

end
