(* ===== verification/Block_Pool.thy ===== *)
theory Block_Pool
  imports Block_Provider Prefix_Cache
begin

text \<open>
  \<open>src/mini_infer/cache/block_pool.py\<close>: the pool of fixed-size K/V blocks. The record \<open>pool\<close>
  holds the configuration that the constructor checks, the free list, the prefix cache and the
  uncompressed storage. The storage maps a layer, a stream name, a block id and a slot to one row
  (a tensor of shape heads by head dimension), of a type \<open>'v\<close> that the model does not look into.
  The legacy K/V tensors and the per-stream tensors alias the same memory, so one map holds both.

  The theory shows that the constructor accepts exactly the consistent configurations, and that
  the pool with its prefix cache provides the interface \<open>block_provider\<close>: no block is handed out
  twice, none is lost, and the count of a cached block is the number of its holders.
\<close>

section \<open>Configuration\<close>

record stream_spec =
  stream_name :: string
  stream_kv_heads :: int
  stream_head_dim :: int

text \<open>An attention spec: \<open>"full"\<close>, \<open>("sliding", window)\<close>, or any other value.\<close>

datatype attn_spec = Full | Sliding int | OtherSpec

record pool_args =
  arg_num_blocks :: int
  arg_block_size :: int
  arg_num_layers :: nat
  arg_num_kv_heads :: int
  arg_head_dim :: int
  arg_prefix_cache :: "prefix_cache option"
  arg_kv_quant :: "string option"
  arg_attention_backend :: string
  arg_layer_attention :: "attn_spec list option"
  arg_layer_kv_shape :: "(int \<times> int) list option"
  arg_layer_streams :: "stream_spec list list option"

definition supported_kv_quant :: "string option list" where
  "supported_kv_quant = [None, Some ''turbo4'', Some ''turbo3'', Some ''fp8'', Some ''nvfp4'']"

definition supported_attention_backends :: "string list" where
  "supported_attention_backends = [''flash_attn'', ''flashinfer'', ''torch'']"

definition heterogeneous :: "(int \<times> int) list \<Rightarrow> bool" where
  "heterogeneous shapes = list_ex (\<lambda>s. s \<noteq> hd shapes) shapes"

text \<open>The guards before any default is filled in.\<close>

definition check_pool_args :: "pool_args \<Rightarrow> unit res" where
  "check_pool_args a = first_error
     [ensure (0 < arg_num_blocks a) ValueError,
      ensure (0 < arg_block_size a) ValueError,
      ensure (case arg_prefix_cache a of None \<Rightarrow> True
              | Some pc \<Rightarrow> int (pc_block_size pc) = arg_block_size a) ValueError,
      ensure (arg_kv_quant a \<in> set supported_kv_quant) ValueError,
      ensure (\<not> (arg_kv_quant a \<noteq> None \<and>
                 (case arg_layer_kv_shape a of None \<Rightarrow> False | Some sh \<Rightarrow> heterogeneous sh)))
        ValueError,
      ensure (\<not> (arg_kv_quant a \<in> {Some ''turbo4'', Some ''turbo3''} \<and>
                 (arg_block_size a * arg_num_kv_heads a * arg_head_dim a) mod 2 \<noteq> 0)) ValueError,
      ensure (arg_attention_backend a \<in> set supported_attention_backends) ValueError,
      ensure (\<not> (arg_attention_backend a = ''flashinfer'' \<and>
                 arg_kv_quant a \<notin> {None, Some ''fp8'', Some ''nvfp4''})) ValueError,
      ensure (\<not> (arg_kv_quant a = Some ''fp8'' \<and> arg_attention_backend a \<noteq> ''flashinfer''))
        ValueError,
      ensure (arg_kv_quant a = Some ''nvfp4'' \<longrightarrow>
                 arg_attention_backend a = ''flashinfer'' \<and> arg_block_size a mod 4 = 0 \<and>
                 arg_head_dim a mod 64 = 0 \<and> arg_prefix_cache a = None) ValueError]"

definition kv_shape_of :: "pool_args \<Rightarrow> (int \<times> int) list" where
  "kv_shape_of a = (case arg_layer_kv_shape a of
     None \<Rightarrow> replicate (arg_num_layers a) (arg_num_kv_heads a, arg_head_dim a)
   | Some sh \<Rightarrow> sh)"

definition check_kv_shape :: "pool_args \<Rightarrow> unit res" where
  "check_kv_shape a = first_error
     (ensure (length (kv_shape_of a) = arg_num_layers a) ValueError #
      map (\<lambda>s. ensure (0 < fst s \<and> 0 < snd s) ValueError) (kv_shape_of a))"

definition streams_of :: "pool_args \<Rightarrow> stream_spec list list" where
  "streams_of a = (case arg_layer_streams a of
     None \<Rightarrow> map (\<lambda>(kv, hd). [\<lparr>stream_name = ''k'', stream_kv_heads = kv, stream_head_dim = hd\<rparr>,
                              \<lparr>stream_name = ''v'', stream_kv_heads = kv, stream_head_dim = hd\<rparr>])
              (kv_shape_of a)
   | Some st \<Rightarrow> st)"

text \<open>One layer: at least one stream, positive dimensions, no name twice.\<close>

fun check_specs :: "string list \<Rightarrow> stream_spec list \<Rightarrow> unit res" where
  "check_specs seen [] = Inr ()"
| "check_specs seen (sp # rest) =
     (if stream_kv_heads sp \<le> 0 \<or> stream_head_dim sp \<le> 0 then Inl ValueError
      else if stream_name sp \<in> set seen then Inl ValueError
      else check_specs (stream_name sp # seen) rest)"

definition check_streams :: "pool_args \<Rightarrow> unit res" where
  "check_streams a = first_error
     (ensure (\<not> (arg_layer_streams a \<noteq> None \<and> arg_kv_quant a \<noteq> None)) ValueError #
      ensure (length (streams_of a) = arg_num_layers a) ValueError #
      map (\<lambda>st. if st = [] then Inl ValueError else check_specs [] st) (streams_of a))"

definition find_stream :: "string \<Rightarrow> stream_spec list \<Rightarrow> stream_spec option" where
  "find_stream nm st = find (\<lambda>sp. stream_name sp = nm) st"

definition legacy_layer :: "stream_spec list \<Rightarrow> bool" where
  "legacy_layer st \<longleftrightarrow>
     length st = 2 \<and> set (map stream_name st) = {''k'', ''v''} \<and>
     (case (find_stream ''k'' st, find_stream ''v'' st) of
        (Some k, Some v) \<Rightarrow> stream_kv_heads k = stream_kv_heads v \<and> stream_head_dim k = stream_head_dim v
      | _ \<Rightarrow> False)"

definition layer_attention_of :: "pool_args \<Rightarrow> attn_spec list" where
  "layer_attention_of a = (case arg_layer_attention a of
     None \<Rightarrow> replicate (arg_num_layers a) Full | Some l \<Rightarrow> l)"

definition valid_attn_spec :: "attn_spec \<Rightarrow> bool" where
  "valid_attn_spec sp = (case sp of Full \<Rightarrow> True | Sliding w \<Rightarrow> 0 < w | OtherSpec \<Rightarrow> False)"

definition check_layer_attention :: "pool_args \<Rightarrow> unit res" where
  "check_layer_attention a = first_error
     (ensure (length (layer_attention_of a) = arg_num_layers a) ValueError #
      map (\<lambda>sp. ensure (valid_attn_spec sp) ValueError) (layer_attention_of a))"

section \<open>The pool\<close>

record 'v pool =
  num_blocks :: nat
  block_size :: nat
  num_layers :: nat
  homogeneous_num_kv_heads :: int
  homogeneous_head_dim :: int
  layer_kv_shape :: "(int \<times> int) list"
  is_heterogeneous :: bool
  layer_stream_specs :: "stream_spec list list"
  is_legacy_kv_layout :: bool
  kv_quant :: "string option"
  attention_backend :: string
  layer_attention :: "attn_spec list"
  storage :: "nat \<Rightarrow> string \<Rightarrow> nat \<Rightarrow> nat \<Rightarrow> 'v"
  to_dtype :: "'v \<Rightarrow> 'v"
  free_list :: "nat list"
  pool_prefix_cache :: "prefix_cache option"

text \<open>The allocation of the storage, after the checks. \<open>torch.zeros\<close> and \<open>torch.ones\<close> raise
  \<open>RuntimeError\<close> for a negative dimension; the dimensions of an uncompressed pool were checked, but a
  compressed one uses the arguments \<open>num_kv_heads\<close> and \<open>head_dim\<close>, which nothing checks when there is no
  layer or the shapes are given. Without any layer, \<open>self._layer_kv_shape[0]\<close> raises \<open>IndexError\<close> in an
  uncompressed pool, and \<open>generate_rotation_matrices\<close> raises \<open>ValueError\<close> in a turbo one.\<close>

definition torch_full :: "int list \<Rightarrow> unit res" where
  "torch_full dims = ensure (list_all (\<lambda>d. 0 \<le> d) dims) RuntimeError"

definition alloc_storage :: "pool_args \<Rightarrow> unit res" where
  "alloc_storage a =
     (let nl = int (arg_num_layers a); nb = arg_num_blocks a; bs = arg_block_size a;
          kv = arg_num_kv_heads a; hd = arg_head_dim a in
      case arg_kv_quant a of
        None \<Rightarrow> ensure (\<not> (list_all legacy_layer (streams_of a) \<and> kv_shape_of a = [])) IndexError
      | Some q \<Rightarrow>
          if q = ''fp8'' then first_error [torch_full [nl, 2, nb, bs, kv, hd], torch_full [nl, 2, kv], torch_full [nl, 2]]
          else if q = ''nvfp4'' then
            first_error [torch_full [nl, 2, nb, bs, kv, hd div 2], torch_full [nl, 2, nb, bs, kv, hd div 16], torch_full [nl, 2]]
          else first_error
            [torch_full [nl, 2, nb, (bs * kv * hd) div 2],
             if q = ''turbo4'' then torch_full [nl, 2, nb, kv, hd, 2] else torch_full [nl, 2, nb, bs, kv],
             ensure (0 < nl \<and> 0 < hd) ValueError])"

text \<open>\<open>z\<close> is the row of zeros that \<open>torch.zeros\<close> fills the storage with, \<open>cast\<close> the conversion of a
  row to the \<open>dtype\<close> of the pool.\<close>

definition pool_init :: "'v \<Rightarrow> ('v \<Rightarrow> 'v) \<Rightarrow> pool_args \<Rightarrow> 'v pool res" where
  "pool_init z cast a =
     (case first_error
             [check_pool_args a, check_kv_shape a, check_streams a, check_layer_attention a,
              alloc_storage a] of
        Inl e \<Rightarrow> Inl e
      | Inr _ \<Rightarrow> Inr
          \<lparr>num_blocks = nat (arg_num_blocks a),
           block_size = nat (arg_block_size a),
           num_layers = arg_num_layers a,
           homogeneous_num_kv_heads = arg_num_kv_heads a,
           homogeneous_head_dim = arg_head_dim a,
           layer_kv_shape = kv_shape_of a,
           is_heterogeneous = heterogeneous (kv_shape_of a),
           layer_stream_specs = streams_of a,
           is_legacy_kv_layout = list_all legacy_layer (streams_of a),
           kv_quant = arg_kv_quant a,
           attention_backend = arg_attention_backend a,
           layer_attention = layer_attention_of a,
           storage = (\<lambda>_ _ _ _. z),
           to_dtype = cast,
           free_list = [0 ..< nat (arg_num_blocks a)],
           pool_prefix_cache = arg_prefix_cache a\<rparr>)"

definition num_free_blocks :: "'v pool \<Rightarrow> nat" where
  "num_free_blocks P = length (free_list P)"

definition allocate :: "('v pool, nat) act" where
  "allocate P =
     (if free_list P \<noteq> []
      then (Inr (last (free_list P)), P\<lparr>free_list := butlast (free_list P)\<rparr>)
      else (case pool_prefix_cache P of
              None \<Rightarrow> (Inl OutOfMemoryError, P)
            | Some pc \<Rightarrow>
                (case evict_lru pc of
                   (Inl e, pc') \<Rightarrow> (Inl e, P\<lparr>pool_prefix_cache := Some pc'\<rparr>)
                 | (Inr None, pc') \<Rightarrow> (Inl OutOfMemoryError, P\<lparr>pool_prefix_cache := Some pc'\<rparr>)
                 | (Inr (Some b), pc') \<Rightarrow> (Inr b, P\<lparr>pool_prefix_cache := Some pc'\<rparr>))))"

definition free :: "nat \<Rightarrow> ('v pool, unit) act" where
  "free b P =
     (case pool_prefix_cache P of
        None \<Rightarrow> (Inr (), P\<lparr>free_list := free_list P @ [b]\<rparr>)
      | Some pc \<Rightarrow>
          if is_cached pc b
          then (case decref b pc of (r, pc') \<Rightarrow> (r, P\<lparr>pool_prefix_cache := Some pc'\<rparr>))
          else (Inr (), P\<lparr>free_list := free_list P @ [b]\<rparr>))"

section \<open>Accessors\<close>

text \<open>
  The result of \<open>storage\<close>: the rectangular tensor, or the placeholder \<open>torch.empty(0)\<close> (\<open>None\<close>)
  that a pool without a legacy K/V layout keeps.
\<close>

definition pool_storage :: "'v pool \<Rightarrow> (nat \<Rightarrow> string \<Rightarrow> nat \<Rightarrow> nat \<Rightarrow> 'v) option res" where
  "pool_storage P =
     (if kv_quant P \<noteq> None then Inl RuntimeError
      else if is_heterogeneous P then Inl RuntimeError
      else Inr (if is_legacy_kv_layout P then Some (storage P) else None))"

definition num_kv_heads :: "'v pool \<Rightarrow> int res" where
  "num_kv_heads P = (if is_heterogeneous P then Inl RuntimeError else Inr (homogeneous_num_kv_heads P))"

definition head_dim :: "'v pool \<Rightarrow> int res" where
  "head_dim P = (if is_heterogeneous P then Inl RuntimeError else Inr (homogeneous_head_dim P))"

definition num_kv_heads_for_layer :: "'v pool \<Rightarrow> nat \<Rightarrow> int res" where
  "num_kv_heads_for_layer P l =
     (if \<not> is_legacy_kv_layout P then Inl RuntimeError
      else map_sum id fst (nth_res (layer_kv_shape P) l))"

definition head_dim_for_layer :: "'v pool \<Rightarrow> nat \<Rightarrow> int res" where
  "head_dim_for_layer P l =
     (if \<not> is_legacy_kv_layout P then Inl RuntimeError
      else map_sum id snd (nth_res (layer_kv_shape P) l))"

definition storage_for_layer :: "'v pool \<Rightarrow> nat \<Rightarrow> ((nat \<Rightarrow> nat \<Rightarrow> 'v) \<times> (nat \<Rightarrow> nat \<Rightarrow> 'v)) res" where
  "storage_for_layer P l =
     (if kv_quant P \<noteq> None then Inl RuntimeError
      else if \<not> is_legacy_kv_layout P then Inl RuntimeError
      else if num_layers P \<le> l then Inl IndexError
      else Inr (storage P l ''k'', storage P l ''v''))"

definition stream_names :: "'v pool \<Rightarrow> nat \<Rightarrow> string list res" where
  "stream_names P l = map_sum id (map stream_name) (nth_res (layer_stream_specs P) l)"

definition get_stream_spec :: "'v pool \<Rightarrow> nat \<Rightarrow> string \<Rightarrow> stream_spec res" where
  "get_stream_spec P l nm =
     (case nth_res (layer_stream_specs P) l of Inl e \<Rightarrow> Inl e
      | Inr st \<Rightarrow> (case find_stream nm st of None \<Rightarrow> Inl KeyError | Some sp \<Rightarrow> Inr sp))"

definition num_kv_heads_for_stream :: "'v pool \<Rightarrow> nat \<Rightarrow> string \<Rightarrow> int res" where
  "num_kv_heads_for_stream P l nm = map_sum id stream_kv_heads (get_stream_spec P l nm)"

definition head_dim_for_stream :: "'v pool \<Rightarrow> nat \<Rightarrow> string \<Rightarrow> int res" where
  "head_dim_for_stream P l nm = map_sum id stream_head_dim (get_stream_spec P l nm)"

definition storage_for_stream :: "'v pool \<Rightarrow> nat \<Rightarrow> string \<Rightarrow> (nat \<Rightarrow> nat \<Rightarrow> 'v) res" where
  "storage_for_stream P l nm =
     (if kv_quant P \<noteq> None then Inl RuntimeError
      else (case get_stream_spec P l nm of Inl e \<Rightarrow> Inl e | Inr _ \<Rightarrow> Inr (storage P l nm)))"

text \<open>
  The last two dimensions of the tensor behind \<open>storage_for_stream\<close>: a pool whose layers are all
  legacy allocates the rectangular tensors from \<open>_layer_kv_shape\<close> and aliases them, any other pool
  allocates one tensor per stream spec.
\<close>

definition stream_tensor_shape :: "'v pool \<Rightarrow> nat \<Rightarrow> string \<Rightarrow> (int \<times> int) res" where
  "stream_tensor_shape P l nm =
     (case get_stream_spec P l nm of Inl e \<Rightarrow> Inl e
      | Inr sp \<Rightarrow> if is_legacy_kv_layout P then nth_res (layer_kv_shape P) l
                 else Inr (stream_kv_heads sp, stream_head_dim sp))"

text \<open>\<open>view\<close>: the K and V rows of one block; indexing the placeholder raises \<open>IndexError\<close>.\<close>

definition view :: "'v pool \<Rightarrow> nat \<Rightarrow> nat \<Rightarrow> ((nat \<Rightarrow> 'v) \<times> (nat \<Rightarrow> 'v)) res" where
  "view P b l =
     (if kv_quant P \<noteq> None then Inl RuntimeError
      else if is_legacy_kv_layout P \<and> \<not> is_heterogeneous P \<and> l < num_layers P \<and> b < num_blocks P
           then Inr (storage P l ''k'' b, storage P l ''v'' b)
      else Inl IndexError)"

section \<open>Accounting\<close>

text \<open>
  \<open>R\<close> holds the references of all clients. A block is in exactly one place: in the prefix cache
  with one count per reference, on the free list, or with one holder.
\<close>

definition pcached :: "'v pool \<Rightarrow> nat \<Rightarrow> bool" where
  "pcached P b = (case pool_prefix_cache P of None \<Rightarrow> False | Some pc \<Rightarrow> is_cached pc b)"

definition pkey :: "'v pool \<Rightarrow> nat \<Rightarrow> (byte list \<times> token list) option" where
  "pkey P b = (case pool_prefix_cache P of None \<Rightarrow> None | Some pc \<Rightarrow> key_of pc b)"

definition prefs :: "'v pool \<Rightarrow> nat \<Rightarrow> nat" where
  "prefs P b = (case pool_prefix_cache P of None \<Rightarrow> 0 | Some pc \<Rightarrow> refs_of pc b)"

definition num_idle :: "'v pool \<Rightarrow> nat" where
  "num_idle P = (case pool_prefix_cache P of None \<Rightarrow> 0 | Some pc \<Rightarrow> num_evictable pc)"

definition available :: "'v pool \<Rightarrow> nat" where
  "available P = num_free_blocks P + num_idle P"

definition cache_ok :: "'v pool \<Rightarrow> bool" where
  "cache_ok P = (case pool_prefix_cache P of None \<Rightarrow> True
                 | Some pc \<Rightarrow> pc_inv pc \<and> pc_block_size pc = block_size P)"

definition pool_inv :: "'v pool \<Rightarrow> nat multiset \<Rightarrow> bool" where
  "pool_inv P R \<longleftrightarrow>
     0 < block_size P \<and> cache_ok P \<and> distinct (free_list P) \<and>
     (\<forall>b \<in> set (free_list P). b < num_blocks P \<and> \<not> pcached P b) \<and>
     (\<forall>b. pcached P b \<longrightarrow> b < num_blocks P \<and> prefs P b = count R b) \<and>
     (\<forall>b. \<not> pcached P b \<longrightarrow>
        count R b = (if b < num_blocks P \<and> b \<notin> set (free_list P) then 1 else 0))"

text \<open>Everything of the pool but its two stores of blocks.\<close>

definition pool_frame :: "'v pool \<Rightarrow> 'v pool \<times> bool" where
  "pool_frame P = (P\<lparr>free_list := [], pool_prefix_cache := None\<rparr>, pool_prefix_cache P = None)"

lemma pool_frame_simps [simp]:
  "pool_frame (P\<lparr>free_list := fl\<rparr>) = pool_frame P"
  "pool_prefix_cache P = Some pc' \<Longrightarrow>
     pool_frame (P\<lparr>pool_prefix_cache := Some pc\<rparr>) = pool_frame P"
  by (simp_all add: pool_frame_def)

lemma pool_frameD:
  assumes "pool_frame P = pool_frame Q"
  shows "num_blocks P = num_blocks Q" "block_size P = block_size Q" "num_layers P = num_layers Q"
    "storage P = storage Q" "kv_quant P = kv_quant Q" "is_legacy_kv_layout P = is_legacy_kv_layout Q"
    "layer_stream_specs P = layer_stream_specs Q" "layer_kv_shape P = layer_kv_shape Q"
    "is_heterogeneous P = is_heterogeneous Q"
    "pool_prefix_cache P = None \<longleftrightarrow> pool_prefix_cache Q = None"
proof -
  have "num_blocks (fst (pool_frame P)) = num_blocks (fst (pool_frame Q))"
    "block_size (fst (pool_frame P)) = block_size (fst (pool_frame Q))"
    "num_layers (fst (pool_frame P)) = num_layers (fst (pool_frame Q))"
    "storage (fst (pool_frame P)) = storage (fst (pool_frame Q))"
    "kv_quant (fst (pool_frame P)) = kv_quant (fst (pool_frame Q))"
    "is_legacy_kv_layout (fst (pool_frame P)) = is_legacy_kv_layout (fst (pool_frame Q))"
    "layer_stream_specs (fst (pool_frame P)) = layer_stream_specs (fst (pool_frame Q))"
    "layer_kv_shape (fst (pool_frame P)) = layer_kv_shape (fst (pool_frame Q))"
    "is_heterogeneous (fst (pool_frame P)) = is_heterogeneous (fst (pool_frame Q))"
    "snd (pool_frame P) = snd (pool_frame Q)"
    using assms by simp_all
  then show "num_blocks P = num_blocks Q" "block_size P = block_size Q" "num_layers P = num_layers Q"
    "storage P = storage Q" "kv_quant P = kv_quant Q" "is_legacy_kv_layout P = is_legacy_kv_layout Q"
    "layer_stream_specs P = layer_stream_specs Q" "layer_kv_shape P = layer_kv_shape Q"
    "is_heterogeneous P = is_heterogeneous Q"
    "pool_prefix_cache P = None \<longleftrightarrow> pool_prefix_cache Q = None"
    by (simp_all add: pool_frame_def)
qed

lemma pool_invD:
  assumes "pool_inv P R"
  shows "0 < block_size P" "cache_ok P" "distinct (free_list P)"
    and "b \<in> set (free_list P) \<Longrightarrow> b < num_blocks P \<and> \<not> pcached P b"
    and "pcached P b \<Longrightarrow> b < num_blocks P \<and> prefs P b = count R b"
    and "\<not> pcached P b \<Longrightarrow> count R b = (if b < num_blocks P \<and> b \<notin> set (free_list P) then 1 else 0)"
  using assms by (auto simp: pool_inv_def)

lemma pool_invI:
  assumes "0 < block_size P" "cache_ok P" "distinct (free_list P)"
    and "\<And>b. b \<in> set (free_list P) \<Longrightarrow> b < num_blocks P \<and> \<not> pcached P b"
    and "\<And>b. pcached P b \<Longrightarrow> b < num_blocks P \<and> prefs P b = count R b"
    and "\<And>b. \<not> pcached P b \<Longrightarrow>
      count R b = (if b < num_blocks P \<and> b \<notin> set (free_list P) then 1 else 0)"
  shows "pool_inv P R"
  using assms unfolding pool_inv_def by blast

lemma pool_inv_pcE:
  assumes "pool_inv P R" "pool_prefix_cache P = Some pc"
  shows "pc_inv pc" "pc_block_size pc = block_size P"
  using pool_invD(2) [OF assms(1)] assms(2) by (auto simp: cache_ok_def)

lemma pkey_iff: "cache_ok P \<Longrightarrow> pkey P b \<noteq> None \<longleftrightarrow> pcached P b"
  by (cases "pool_prefix_cache P") (simp_all add: pkey_def pcached_def cache_ok_def key_of_iff [symmetric])

lemma pkey_None: "pool_inv P R \<Longrightarrow> pkey P b = None \<longleftrightarrow> \<not> pcached P b"
  using pkey_iff pool_invD(2) by blast

text \<open>A held block is never on the free list.\<close>

lemma held_not_free: "pool_inv P R \<Longrightarrow> b \<in># R \<Longrightarrow> b \<notin> set (free_list P) \<and> b < num_blocks P"
proof -
  assume "pool_inv P R" "b \<in># R"
  then show ?thesis
    using pool_invD(4,5,6) [of P R b] by (cases "pcached P b") (auto simp: count_eq_zero_iff split: if_splits)
qed

lemma allocate_ok:
  assumes inv: "pool_inv P R" and av: "0 < available P"
  shows "\<exists>b P'. allocate P = (Inr b, P') \<and> pool_inv P' (add_mset b R) \<and> b \<notin># R \<and>
    pkey P' b = None \<and> available P' = available P - 1 \<and>
    (\<forall>x. x \<in># R \<longrightarrow> pkey P' x = pkey P x) \<and> (\<forall>x. pkey P' x = None \<or> pkey P' x = pkey P x) \<and>
    pool_frame P' = pool_frame P"
proof (cases "free_list P = []")
  case False
  then obtain fl b where fl: "free_list P = fl @ [b]" by (metis rev_exhaust)
  let ?P' = "P\<lparr>free_list := fl\<rparr>"
  have eq: "allocate P = (Inr b, ?P')" by (simp add: allocate_def fl)
  have b: "b < num_blocks P" "\<not> pcached P b" using pool_invD(4) [OF inv, of b] fl by auto
  then have nR: "b \<notin># R" using held_not_free [OF inv, of b] fl by auto
  have pc: "pcached ?P' = pcached P" "prefs ?P' = prefs P" "cache_ok ?P' = cache_ok P" "pkey ?P' = pkey P"
    by (auto simp: pcached_def pkey_def prefs_def cache_ok_def fun_eq_iff split: option.splits)
  have dist: "distinct fl" "b \<notin> set fl" using pool_invD(3) [OF inv] fl by auto
  have "pool_inv ?P' (add_mset b R)"
  proof (rule pool_invI)
    show "0 < block_size ?P'" "cache_ok ?P'" "distinct (free_list ?P')"
      using pool_invD(1,2) [OF inv] dist pc by auto
  next
    fix x assume "x \<in> set (free_list ?P')"
    then show "x < num_blocks ?P' \<and> \<not> pcached ?P' x" using pool_invD(4) [OF inv, of x] fl pc by simp
  next
    fix x assume "pcached ?P' x"
    then show "x < num_blocks ?P' \<and> prefs ?P' x = count (add_mset b R) x"
      using pool_invD(5) [OF inv, of x] b pc by auto
  next
    fix x assume "\<not> pcached ?P' x"
    then show "count (add_mset b R) x = (if x < num_blocks ?P' \<and> x \<notin> set (free_list ?P') then 1 else 0)"
      using pool_invD(6) [OF inv, of x] b dist nR fl pc by (auto simp: count_eq_zero_iff)
  qed
  then show ?thesis using eq nR b pc fl pkey_None [OF inv, of b]
    by (auto simp: available_def num_free_blocks_def num_idle_def)
next
  case True
  with av obtain pc where pc: "pool_prefix_cache P = Some pc" "evictable pc \<noteq> []"
    by (auto simp: available_def num_free_blocks_def num_idle_def num_evictable_def split: option.splits)
  then obtain b bs where ev: "evictable pc = b # bs" by (cases "evictable pc") auto
  note pinv = pool_inv_pcE [OF inv pc(1)]
  from evict_lru_ok [OF pinv(1) ev] obtain pc' where pc': "evict_lru pc = (Inr (Some b), pc')"
      "pc_inv pc'" "is_cached pc' = (is_cached pc)(b := False)" "key_of pc' = (key_of pc)(b := None)" "refs_of pc' = refs_of pc"
      "evictable pc' = bs" "pc_block_size pc' = pc_block_size pc"
    by auto
  let ?P' = "P\<lparr>pool_prefix_cache := Some pc'\<rparr>"
  have eq: "allocate P = (Inr b, ?P')" using True pc(1) pc'(1) by (simp add: allocate_def)
  have b: "pcached P b" "prefs P b = 0"
    using pc_invD(4) [OF pinv(1), of b] ev pc(1) by (auto simp: pcached_def prefs_def)
  then have nR: "b \<notin># R" "b < num_blocks P" using pool_invD(5) [OF inv b(1)] by (auto simp: count_eq_zero_iff)
  have v: "pcached ?P' = (pcached P)(b := False)" "prefs ?P' = prefs P" "cache_ok ?P'"
      "pkey ?P' = (pkey P)(b := None)"
    using pc(1) pc' pinv by (auto simp: pcached_def pkey_def prefs_def cache_ok_def fun_eq_iff)
  have "pool_inv ?P' (add_mset b R)"
  proof (rule pool_invI)
    show "0 < block_size ?P'" "cache_ok ?P'" "distinct (free_list ?P')"
      using pool_invD(1) [OF inv] True v(3) by auto
  next
    fix x assume "x \<in> set (free_list ?P')"
    then show "x < num_blocks ?P' \<and> \<not> pcached ?P' x" using True by simp
  next
    fix x assume "pcached ?P' x"
    then show "x < num_blocks ?P' \<and> prefs ?P' x = count (add_mset b R) x"
      using pool_invD(5) [OF inv, of x] v by (auto split: if_splits)
  next
    fix x assume "\<not> pcached ?P' x"
    then show "count (add_mset b R) x = (if x < num_blocks ?P' \<and> x \<notin> set (free_list ?P') then 1 else 0)"
      using pool_invD(6) [OF inv, of x] True nR v(1) by (simp add: count_eq_zero_iff split: if_splits)
  qed
  then show ?thesis using eq nR b v pc ev pc'(6)
    by (auto simp: available_def num_free_blocks_def num_idle_def num_evictable_def True)
qed

lemma allocate_oom:
  assumes "available P = 0"
  shows "allocate P = (Inl OutOfMemoryError, P)"
proof (cases "pool_prefix_cache P")
  case None
  with assms show ?thesis by (simp add: allocate_def available_def num_free_blocks_def)
next
  case (Some pc)
  then have "evictable pc = []" "free_list P = []"
    using assms by (auto simp: available_def num_free_blocks_def num_idle_def num_evictable_def)
  moreover from this have "P\<lparr>pool_prefix_cache := Some pc\<rparr> = P" using Some by simp
  ultimately show ?thesis using Some by (simp add: allocate_def evict_lru_def)
qed

lemma free_ok:
  assumes inv: "pool_inv P R" and b: "b \<in># R"
  shows "\<exists>P'. free b P = (Inr (), P') \<and> pool_inv P' (R - {#b#}) \<and> available P \<le> available P' \<and>
    pkey P' = pkey P \<and> pool_frame P' = pool_frame P"
proof (cases "pcached P b")
  case False
  let ?P' = "P\<lparr>free_list := free_list P @ [b]\<rparr>"
  have eq: "free b P = (Inr (), ?P')"
    using False by (auto simp: free_def pcached_def split: option.splits)
  have pc: "pcached ?P' = pcached P" "prefs ?P' = prefs P" "cache_ok ?P' = cache_ok P" "pkey ?P' = pkey P"
    by (auto simp: pcached_def pkey_def prefs_def cache_ok_def fun_eq_iff split: option.splits)
  note held = held_not_free [OF inv b]
  have c: "count R b = 1" using pool_invD(6) [OF inv False] held by simp
  have "pool_inv ?P' (R - {#b#})"
  proof (rule pool_invI)
    show "0 < block_size ?P'" "cache_ok ?P'" "distinct (free_list ?P')"
      using pool_invD(1-3) [OF inv] held pc by auto
  next
    fix x assume "x \<in> set (free_list ?P')"
    then show "x < num_blocks ?P' \<and> \<not> pcached ?P' x"
      using pool_invD(4) [OF inv, of x] held False pc by auto
  next
    fix x assume "pcached ?P' x"
    then show "x < num_blocks ?P' \<and> prefs ?P' x = count (R - {#b#}) x"
      using pool_invD(5) [OF inv, of x] False pc by auto
  next
    fix x assume "\<not> pcached ?P' x"
    then show "count (R - {#b#}) x = (if x < num_blocks ?P' \<and> x \<notin> set (free_list ?P') then 1 else 0)"
      using pool_invD(6) [OF inv, of x] c pc by simp
  qed
  then show ?thesis using eq pc by (auto simp: available_def num_free_blocks_def num_idle_def)
next
  case True
  then obtain pc where pc: "pool_prefix_cache P = Some pc" "is_cached pc b"
    by (auto simp: pcached_def split: option.splits)
  note pinv = pool_inv_pcE [OF inv pc(1)]
  have r: "0 < refs_of pc b" "refs_of pc b = count R b"
    using pool_invD(5) [OF inv True] b pc(1) by (auto simp: prefs_def)
  from decref_ok [OF pinv(1) pc(2) r(1)] obtain pc' where pc': "decref b pc = (Inr (), pc')"
      "pc_inv pc'" "is_cached pc' = is_cached pc" "key_of pc' = key_of pc" "refs_of pc' = (refs_of pc)(b := refs_of pc b - 1)"
      "evictable pc' = (if refs_of pc b = 1 then evictable pc @ [b] else evictable pc)"
      "pc_block_size pc' = pc_block_size pc"
    by auto
  let ?P' = "P\<lparr>pool_prefix_cache := Some pc'\<rparr>"
  have eq: "free b P = (Inr (), ?P')" using pc pc'(1) by (simp add: free_def)
  have v: "pcached ?P' = pcached P" "prefs ?P' = (prefs P)(b := prefs P b - 1)" "cache_ok ?P'"
      "pkey ?P' = pkey P"
    using pc(1) pc' pinv by (auto simp: pcached_def pkey_def prefs_def cache_ok_def fun_eq_iff)
  have "pool_inv ?P' (R - {#b#})"
  proof (rule pool_invI)
    show "0 < block_size ?P'" "cache_ok ?P'" "distinct (free_list ?P')"
      using pool_invD(1,3) [OF inv] v(3) by auto
  next
    fix x assume "x \<in> set (free_list ?P')"
    then show "x < num_blocks ?P' \<and> \<not> pcached ?P' x" using pool_invD(4) [OF inv, of x] v(1) by simp
  next
    fix x assume "pcached ?P' x"
    then show "x < num_blocks ?P' \<and> prefs ?P' x = count (R - {#b#}) x"
      using pool_invD(5) [OF inv, of x] v by auto
  next
    fix x assume "\<not> pcached ?P' x"
    then show "count (R - {#b#}) x = (if x < num_blocks ?P' \<and> x \<notin> set (free_list ?P') then 1 else 0)"
      using pool_invD(6) [OF inv, of x] True v(1) by auto
  qed
  then show ?thesis using eq v pc pc'(6)
    by (auto simp: available_def num_free_blocks_def num_idle_def num_evictable_def)
qed

interpretation bp: block_provider pool_inv allocate free available pkey pool_frame
proof (unfold_locales, goal_cases)
  case (1 P R b)
  then show ?case using pool_invD(6) pkey_None by fastforce
next
  case (2 P R)
  then show ?case by (rule allocate_ok)
next
  case (3 P R)
  then show ?case by (intro allocate_oom)
next
  case (4 P R b)
  then show ?case by (rule free_ok)
qed

text \<open>Every block is available or held by a client: the two counts add up to the size of the pool.\<close>

lemma idle_iff_unreferenced:
  assumes "pool_inv P R"
  shows "(\<exists>pc. pool_prefix_cache P = Some pc \<and> b \<in> set (evictable pc)) \<longleftrightarrow> pcached P b \<and> b \<notin># R"
proof (cases "pool_prefix_cache P")
  case None
  then show ?thesis by (simp add: pcached_def)
next
  case (Some pc)
  note pinv = pool_inv_pcE [OF assms Some]
  have "pcached P b \<Longrightarrow> refs_of pc b = 0 \<longleftrightarrow> b \<notin># R"
    using pool_invD(5) [OF assms, of b] Some by (simp add: prefs_def count_eq_zero_iff)
  then show ?thesis using pc_invD(4) [OF pinv(1), of b] Some by (auto simp: pcached_def)
qed

lemma blocks_conserved:
  assumes "pool_inv P R"
  shows "available P + card (set_mset R) = num_blocks P"
proof -
  let ?ev = "{b. \<exists>pc. pool_prefix_cache P = Some pc \<and> b \<in> set (evictable pc)}"
  have ev: "?ev = {b. pcached P b \<and> b \<notin># R}" using idle_iff_unreferenced [OF assms] by blast
  have "finite ?ev \<and> card ?ev = num_idle P"
  proof (cases "pool_prefix_cache P")
    case None
    then show ?thesis by (simp add: num_idle_def)
  next
    case (Some pc)
    then have "?ev = set (evictable pc)" by auto
    moreover have "distinct (evictable pc)" using pc_invD(3) [OF pool_inv_pcE(1) [OF assms Some]] .
    ultimately show ?thesis using Some by (simp add: num_idle_def num_evictable_def distinct_card)
  qed
  then have fin: "finite ?ev" and card_ev: "card ?ev = num_idle P" by auto
  have un: "{0 ..< num_blocks P} = (set (free_list P) \<union> ?ev) \<union> set_mset R" (is "?L = ?M")
  proof (intro equalityI subsetI)
    fix b assume "b \<in> ?L"
    then show "b \<in> ?M" unfolding ev using pool_invD(6) [OF assms, of b]
      by (cases "pcached P b") (auto intro: count_inI split: if_splits)
  next
    fix b assume "b \<in> ?M"
    then show "b \<in> ?L" unfolding ev
      using pool_invD(4,5) [OF assms, of b] held_not_free [OF assms, of b] by auto
  qed
  have d1: "set (free_list P) \<inter> ?ev = {}" unfolding ev using pool_invD(4) [OF assms] by auto
  have d2: "(set (free_list P) \<union> ?ev) \<inter> set_mset R = {}" unfolding ev using held_not_free [OF assms] by auto
  have "num_blocks P = card (set (free_list P)) + card ?ev + card (set_mset R)"
    using arg_cong [OF un, of card] card_Un_disjoint [OF _ _ d2] card_Un_disjoint [OF _ fin d1] fin by simp
  then show ?thesis using card_ev distinct_card [OF pool_invD(3) [OF assms]]
    by (simp add: available_def num_free_blocks_def)
qed

end
