(* ===== verification/Paged_Cache.thy ===== *)
theory Paged_Cache
  imports Block_Pool
begin

text \<open>
  \<open>src/mini_infer/cache/paged_kv_cache.py\<close>: the paged K/V cache of a batch of requests. The
  record \<open>kvcache\<close> holds the per-slot lists of the class, the host indices that the layers of one
  step reuse, and the static step in progress; the pool is shared with other caches, so the
  operations act on the pair of a cache and its pool. A tensor of boundaries is its identity and
  its values, a device is a number. The boundaries \<open>cu_seqlens_q\<close> never fall, as the docstrings
  ask, so a count of new tokens is a natural number.

  This theory holds the state and the operations. \<open>Paged_Accounting\<close> shows what they keep of the
  block accounting and of the slots, \<open>Paged_Content\<close> what the stored rows are, \<open>Static_Step\<close> that
  a captured step builds the index of the eager one.
\<close>

section \<open>State\<close>

record static_step =
  ss_rows :: nat
  ss_slots :: nat
  scratch_block :: nat
  capacity :: nat
  flat :: "nat list"
  staging :: "nat list"
  ss_cu_seqlens_q :: "nat list"
  active :: nat
  active_rows :: nat

record cu_tensor =
  tensor_id :: nat
  tensor_values :: "nat list"

type_synonym cells = "(nat \<times> nat) list"

record 'v kvcache =
  pool_ref :: nat
  block_ids :: "nat list list"
  num_tokens :: "nat list"
  slot_prompt_tokens :: "token list list"
  slot_num_published :: "nat list"
  slot_parent_hash :: "byte list option list"
  nvfp4_shadow :: "(nat \<Rightarrow> nat \<Rightarrow> nat \<Rightarrow> 'v) option list"
  nvfp4_shadow_block_id :: "nat option list"
  step_cu_tensor :: "nat option"
  step_cu_list :: "nat list"
  write_index :: "(nat list \<times> nat \<times> cells) option"
  gather_index :: "(nat \<times> cells \<times> nat list) option"
  page_index_cache :: "(nat \<times> nat list \<times> nat list \<times> nat list) option"
  static_step :: "static_step option"
  layout_serial :: nat

type_synonym 'v kvs = "'v kvcache \<times> 'v pool"

definition kvcache_init :: "nat \<Rightarrow> 'v kvcache" where
  "kvcache_init pool_id =
     \<lparr>pool_ref = pool_id, block_ids = [], num_tokens = [], slot_prompt_tokens = [],
      slot_num_published = [], slot_parent_hash = [], nvfp4_shadow = [],
      nvfp4_shadow_block_id = [], step_cu_tensor = None, step_cu_list = [], write_index = None,
      gather_index = None, page_index_cache = None, static_step = None, layout_serial = 0\<rparr>"

definition batch_size :: "'v kvcache \<Rightarrow> nat" where
  "batch_size c = length (num_tokens c)"

text \<open>\<open>_layout_changed\<close>: drop the indices that depend on slot lengths or block ids.\<close>

definition layout_changed :: "'v kvcache \<Rightarrow> 'v kvcache" where
  "layout_changed c =
     c\<lparr>write_index := None, gather_index := None, page_index_cache := None,
       layout_serial := layout_serial c + 1\<rparr>"

section \<open>Slots\<close>

definition append_slot :: "token list \<Rightarrow> 'v kvcache \<Rightarrow> 'v kvcache" where
  "append_slot prompt c =
     (layout_changed c)
       \<lparr>num_tokens := num_tokens c @ [0],
        block_ids := block_ids c @ [[]],
        slot_prompt_tokens := slot_prompt_tokens c @ [prompt],
        slot_num_published := slot_num_published c @ [0],
        slot_parent_hash := slot_parent_hash c @ [None],
        nvfp4_shadow := nvfp4_shadow c @ [None],
        nvfp4_shadow_block_id := nvfp4_shadow_block_id c @ [None]\<rparr>"

text \<open>The number of cached blocks a slot takes: the last-token rule leaves one token to run.\<close>

definition usable_blocks :: "nat \<Rightarrow> nat \<Rightarrow> nat \<Rightarrow> nat" where
  "usable_blocks bs prompt_len matched =
     (if matched * bs \<ge> prompt_len then matched - 1 else matched)"

definition prompt_of :: "token list option \<Rightarrow> token list" where
  "prompt_of prompt_opt = (case prompt_opt of None \<Rightarrow> [] | Some p \<Rightarrow> p)"

definition add_request_slot :: "digest \<Rightarrow> token list option \<Rightarrow> ('v kvs, nat) act" where
  "add_request_slot digest prompt_opt = (\<lambda>(c, P).
     let prompt = prompt_of prompt_opt;
         c1 = append_slot prompt c;
         b = batch_size c1 - 1
     in case pool_prefix_cache P of
          None \<Rightarrow> (Inr b, (c1, P))
        | Some pc \<Rightarrow>
            if prompt = [] then (Inr b, (c1, P))
            else (case compute_block_hashes digest prompt (block_size P) of
              Inl e \<Rightarrow> (Inl e, (c1, P))
            | Inr chain \<Rightarrow>
                (let matched = lookup pc chain;
                     n = usable_blocks (block_size P) (length prompt) (length matched)
                 in if matched = [] \<or> n = 0 then (Inr b, (c1, P))
                    else (case for_each incref (take n matched) pc of
                      (Inl e, pc') \<Rightarrow> (Inl e, (c1, P\<lparr>pool_prefix_cache := Some pc'\<rparr>))
                    | (Inr _, pc') \<Rightarrow>
                        (Inr b,
                         (c1\<lparr>block_ids := (block_ids c1)[b := take n matched],
                             num_tokens := (num_tokens c1)[b := n * block_size P],
                             slot_num_published := (slot_num_published c1)[b := n],
                             slot_parent_hash := (slot_parent_hash c1)[b := Some (fst (chain ! (n - 1)))]\<rparr>,
                          P\<lparr>pool_prefix_cache := Some pc'\<rparr>))))))"

definition remove_request :: "nat \<Rightarrow> ('v kvs, unit) act" where
  "remove_request b = (\<lambda>(c, P).
     if \<not> b < batch_size c then (Inl IndexError, (c, P))
     else let c1 = layout_changed c in
       (case for_each free (block_ids c ! b) P of
          (Inl e, P') \<Rightarrow> (Inl e, (c1, P'))
        | (Inr _, P') \<Rightarrow>
            (Inr (),
             (c1\<lparr>block_ids := remove_at b (block_ids c),
                 num_tokens := remove_at b (num_tokens c),
                 slot_prompt_tokens := remove_at b (slot_prompt_tokens c),
                 slot_num_published := remove_at b (slot_num_published c),
                 slot_parent_hash := remove_at b (slot_parent_hash c),
                 nvfp4_shadow := remove_at b (nvfp4_shadow c),
                 nvfp4_shadow_block_id := remove_at b (nvfp4_shadow_block_id c)\<rparr>, P'))))"

definition truncate_to :: "nat \<Rightarrow> int \<Rightarrow> ('v kvs, unit) act" where
  "truncate_to b new_seq_len = (\<lambda>(c, P).
     if \<not> b < batch_size c then (Inl IndexError, (c, P))
     else if new_seq_len < 0 then (Inl ValueError, (c, P))
     else if new_seq_len > int (num_tokens c ! b) then (Inl ValueError, (c, P))
     else if new_seq_len = int (num_tokens c ! b) then (Inr (), (c, P))
     else if new_seq_len < int (slot_num_published c ! b * block_size P) then (Inl ValueError, (c, P))
     else let required = blocks_for (block_size P) (nat new_seq_len);
              ids = block_ids c ! b;
              c1 = (layout_changed c)\<lparr>block_ids := (block_ids c)[b := take required ids]\<rparr>
       in (case for_each free (drop required ids) P of
             (Inl e, P') \<Rightarrow> (Inl e, (c1, P'))
           | (Inr _, P') \<Rightarrow> (Inr (), (c1\<lparr>num_tokens := (num_tokens c)[b := nat new_seq_len]\<rparr>, P'))))"

text \<open>\<open>merge_request\<close>: outcome, the absorbing cache, and the emptied one.\<close>

definition merge_request :: "'v kvcache \<Rightarrow> 'v kvcache \<Rightarrow> nat res \<times> 'v kvcache \<times> 'v kvcache" where
  "merge_request self other =
     (if batch_size other \<noteq> 1 then (Inl ValueError, self, other)
      else if pool_ref other \<noteq> pool_ref self then (Inl ValueError, self, other)
      else let s1 = layout_changed self; o1 = layout_changed other;
               s2 = s1\<lparr>block_ids := block_ids s1 @ [block_ids o1 ! 0],
                       num_tokens := num_tokens s1 @ [num_tokens o1 ! 0],
                       slot_prompt_tokens := slot_prompt_tokens s1 @ [slot_prompt_tokens o1 ! 0],
                       slot_num_published := slot_num_published s1 @ [slot_num_published o1 ! 0],
                       slot_parent_hash := slot_parent_hash s1 @ [slot_parent_hash o1 ! 0],
                       nvfp4_shadow := nvfp4_shadow s1 @ [nvfp4_shadow o1 ! 0],
                       nvfp4_shadow_block_id := nvfp4_shadow_block_id s1 @ [nvfp4_shadow_block_id o1 ! 0]\<rparr>;
               o2 = o1\<lparr>block_ids := [], num_tokens := [], slot_prompt_tokens := [],
                       slot_num_published := [], slot_parent_hash := [], nvfp4_shadow := [],
                       nvfp4_shadow_block_id := []\<rparr>
        in (Inr (batch_size s2 - 1), s2, o2))"

text \<open>\<open>free\<close> of the cache. The two shadow lists keep their entries, as in the source.\<close>

definition free_cache :: "('v kvs, unit) act" where
  "free_cache = (\<lambda>(c, P).
     let c1 = layout_changed c in
     (case for_each free (concat (block_ids c)) P of
        (Inl e, P') \<Rightarrow> (Inl e, (c1, P'))
      | (Inr _, P') \<Rightarrow>
          (Inr (), (c1\<lparr>block_ids := [], num_tokens := [], slot_prompt_tokens := [],
                       slot_num_published := [], slot_parent_hash := []\<rparr>, P'))))"

section \<open>Reading the layout\<close>

definition cu_seqlens_k_list :: "'v kvcache \<Rightarrow> nat list" where
  "cu_seqlens_k_list c = sums_from 0 (num_tokens c)"

definition read_cu_seqlens_q :: "cu_tensor \<Rightarrow> 'v kvcache \<Rightarrow> nat list \<times> 'v kvcache" where
  "read_cu_seqlens_q t c =
     (tensor_values t, c\<lparr>step_cu_tensor := Some (tensor_id t), step_cu_list := tensor_values t\<rparr>)"

definition cu_seqlens_q_list :: "cu_tensor \<Rightarrow> 'v kvcache \<Rightarrow> nat list \<times> 'v kvcache" where
  "cu_seqlens_q_list t c =
     (case static_step c of
        Some step \<Rightarrow> (ss_cu_seqlens_q step, c)
      | None \<Rightarrow> if step_cu_tensor c \<noteq> Some (tensor_id t) then read_cu_seqlens_q t c
                else (step_cu_list c, c))"

definition get_seq_length :: "'v kvcache \<Rightarrow> nat" where
  "get_seq_length c = (if num_tokens c = [] then 0 else Max (set (num_tokens c)))"

definition get_mask_sizes :: "nat \<Rightarrow> 'v kvcache \<Rightarrow> nat \<times> nat" where
  "get_mask_sizes query_length c = (get_seq_length c + query_length, 0)"

text \<open>\<open>block_table_padded\<close>: one row of block ids per request, filled with zeros.\<close>

definition block_table_padded :: "'v kvcache \<Rightarrow> nat list list" where
  "block_table_padded c =
     (let width = (if block_ids c = [] then 0 else Max (set (map length (block_ids c))))
      in map (\<lambda>ids. ids @ replicate (width - length ids) 0) (block_ids c))"

section \<open>Indices of pool cells\<close>

text \<open>The pool cell of a position of slot \<open>b\<close>: its block id and the place in the block.\<close>

definition cell :: "'v kvcache \<Rightarrow> nat \<Rightarrow> nat \<Rightarrow> nat \<Rightarrow> nat \<times> nat" where
  "cell c bs b pos = (block_ids c ! b ! (pos div bs), pos mod bs)"

text \<open>\<open>_block_slot_index\<close>: the cells of a position range per slot, in packed order. A position
  without a block is an out-of-range tensor index.\<close>

definition block_slot_index :: "'v kvcache \<Rightarrow> nat \<Rightarrow> (nat \<times> nat) list \<Rightarrow> cells res" where
  "block_slot_index c bs ranges =
     (if \<exists>b \<in> set [0 ..< length ranges]. \<exists>pos \<in> set [fst (ranges ! b) ..< snd (ranges ! b)].
           length (block_ids c ! b) \<le> pos div bs
      then Inl IndexError
      else Inr (concat (map (\<lambda>b. map (cell c bs b) [fst (ranges ! b) ..< snd (ranges ! b)])
                  [0 ..< length ranges])))"

definition write_ranges :: "'v kvcache \<Rightarrow> nat list \<Rightarrow> (nat \<times> nat) list" where
  "write_ranges c cu =
     map (\<lambda>b. (num_tokens c ! b - (cu ! Suc b - cu ! b), num_tokens c ! b)) [0 ..< batch_size c]"

definition step_write_index :: "nat \<Rightarrow> nat list \<Rightarrow> nat \<Rightarrow> ('v kvcache, cells) act" where
  "step_write_index bs cu device c =
     (let rebuild = (case block_slot_index c bs (write_ranges c cu) of
                       Inl e \<Rightarrow> (Inl e, c)
                     | Inr idx \<Rightarrow> (Inr idx, c\<lparr>write_index := Some (cu, device, idx)\<rparr>))
      in case write_index c of
           None \<Rightarrow> rebuild
         | Some (cu', device', idx) \<Rightarrow>
             if cu' \<noteq> cu \<or> device' \<noteq> device then rebuild else (Inr idx, c))"

definition step_gather_index :: "nat \<Rightarrow> nat \<Rightarrow> ('v kvcache, cells \<times> nat list) act" where
  "step_gather_index bs device c =
     (let rebuild = (case block_slot_index c bs (map (\<lambda>n. (0, n)) (num_tokens c)) of
                       Inl e \<Rightarrow> (Inl e, c)
                     | Inr idx \<Rightarrow> (Inr (idx, cu_seqlens_k_list c),
                                  c\<lparr>gather_index := Some (device, idx, cu_seqlens_k_list c)\<rparr>))
      in case gather_index c of
           None \<Rightarrow> rebuild
         | Some (device', idx, cu_k) \<Rightarrow>
             if device' \<noteq> device then rebuild else (Inr (idx, cu_k), c))"

text \<open>The tokens in the last page of a slot: a full last page reports \<open>block_size\<close>.\<close>

definition last_page_len :: "nat \<Rightarrow> nat \<Rightarrow> nat" where
  "last_page_len bs n = (if n \<noteq> 0 \<and> n mod bs = 0 then bs else n mod bs)"

definition pages_of :: "'v kvcache \<Rightarrow> nat \<Rightarrow> nat list \<times> nat list \<times> nat list" where
  "pages_of c bs =
     (sums_from 0 (map (blocks_for bs) (num_tokens c)),
      concat (map2 (\<lambda>ids n. take (blocks_for bs n) ids) (block_ids c) (num_tokens c)),
      map (last_page_len bs) (num_tokens c))"

section \<open>Reserving positions\<close>

definition reserve_slot :: "nat list \<Rightarrow> nat \<Rightarrow> ('v kvs, unit) act" where
  "reserve_slot cu b = (\<lambda>(c, P).
     let new_tokens = cu ! Suc b - cu ! b in
     if new_tokens = 0 then (Inr (), (c, P))
     else let new_total = num_tokens c ! b + new_tokens;
              required = blocks_for (block_size P) new_total;
              ids = block_ids c ! b
       in (case grow allocate (required - length ids) ids P of
             (Inl e, ids', P') \<Rightarrow> (Inl e, (c\<lparr>block_ids := (block_ids c)[b := ids']\<rparr>, P'))
           | (Inr _, ids', P') \<Rightarrow>
               (Inr (), (c\<lparr>block_ids := (block_ids c)[b := ids'],
                           num_tokens := (num_tokens c)[b := new_total]\<rparr>, P'))))"

definition reserve_new_tokens :: "cu_tensor \<Rightarrow> ('v kvs, unit) act" where
  "reserve_new_tokens t = (\<lambda>(c, P).
     case read_cu_seqlens_q t (layout_changed c) of
       (cu, c1) \<Rightarrow> for_each (reserve_slot cu) [0 ..< batch_size c1] (c1, P))"

definition check_new_token_boundaries :: "cu_tensor \<Rightarrow> 'v kvcache \<Rightarrow> unit res" where
  "check_new_token_boundaries t c = ensure (length (tensor_values t) = batch_size c + 1) ValueError"

section \<open>Publishing filled blocks\<close>

text \<open>The loop of \<open>_publish_filled_blocks\<close> over block indices; its result is the last hash.\<close>

fun publish_blocks ::
  "digest \<Rightarrow> nat \<Rightarrow> nat list \<Rightarrow> byte list option \<Rightarrow> ('v kvs, byte list option) act" where
  "publish_blocks digest b [] parent (c, P) = (Inr parent, (c, P))"
| "publish_blocks digest b (i # rest) parent (c, P) =
     (let tokens = take (block_size P) (drop (i * block_size P) (slot_prompt_tokens c ! b));
          block_id = block_ids c ! b ! i
      in case pool_prefix_cache P of
           None \<Rightarrow> (Inl AssertionError, (c, P))
         | Some pc \<Rightarrow>
             (case hash_block digest parent tokens of
                Inl e \<Rightarrow> (Inl e, (c, P))
              | Inr h \<Rightarrow>
                  (case publish h tokens block_id pc of
                     (Inl e, pc') \<Rightarrow> (Inl e, (c, P\<lparr>pool_prefix_cache := Some pc'\<rparr>))
                   | (Inr (canonical, was_dup), pc') \<Rightarrow>
                       if was_dup
                       then (case free block_id (P\<lparr>pool_prefix_cache := Some pc'\<rparr>) of
                               (Inl e, P') \<Rightarrow> (Inl e, (layout_changed c, P'))
                             | (Inr _, P') \<Rightarrow>
                                 publish_blocks digest b rest (Some h)
                                   ((layout_changed c)
                                      \<lparr>block_ids := (block_ids c)[b := (block_ids c ! b)[i := canonical]]\<rparr>,
                                    P'))
                       else publish_blocks digest b rest (Some h)
                              (c, P\<lparr>pool_prefix_cache := Some pc'\<rparr>))))"

definition publish_target :: "nat \<Rightarrow> nat \<Rightarrow> 'v kvcache \<Rightarrow> nat" where
  "publish_target bs b c =
     min (num_tokens c ! b div bs) (length (slot_prompt_tokens c ! b) div bs)"

definition publish_filled_blocks :: "digest \<Rightarrow> nat \<Rightarrow> ('v kvs, unit) act" where
  "publish_filled_blocks digest b = (\<lambda>(c, P).
     if slot_prompt_tokens c ! b = [] then (Inr (), (c, P))
     else let target = publish_target (block_size P) b c; already = slot_num_published c ! b in
       if target \<le> already then (Inr (), (c, P))
       else (case publish_blocks digest b [already ..< target] (slot_parent_hash c ! b) (c, P) of
               (Inl e, s) \<Rightarrow> (Inl e, s)
             | (Inr parent, (c', P')) \<Rightarrow>
                 (Inr (), (c'\<lparr>slot_num_published := (slot_num_published c')[b := target],
                              slot_parent_hash := (slot_parent_hash c')[b := parent]\<rparr>, P'))))"

definition publish_all :: "digest \<Rightarrow> ('v kvs, unit) act" where
  "publish_all digest = (\<lambda>(c, P).
     for_each (publish_filled_blocks digest) [0 ..< batch_size c] (c, P))"

definition publish_step :: "digest \<Rightarrow> nat \<Rightarrow> ('v kvs, unit) act" where
  "publish_step digest layer_idx = (\<lambda>(c, P).
     if pool_prefix_cache P \<noteq> None \<and> Suc layer_idx = num_layers P
     then publish_all digest (c, P) else (Inr (), (c, P)))"

end
