(* ===== verification/Paged_Accounting.thy ===== *)
theory Paged_Accounting
  imports Paged_Cache
begin

text \<open>
  What the operations of the paged cache keep. \<open>kv_inv\<close> says of a cache and its pool: the per-slot
  lists have one entry per slot; the pool accounts for exactly the blocks the slots hold and the
  references \<open>R\<close> of the other caches; every slot has the blocks its tokens need, its published
  prompt blocks are stored in the prefix cache under the chained hashes of its prompt, and the
  blocks after them belong to it alone.
\<close>

definition held :: "'v kvcache \<Rightarrow> nat multiset" where
  "held c = mset (concat (block_ids c))"

definition aligned :: "'v kvcache \<Rightarrow> bool" where
  "aligned c \<longleftrightarrow>
     length (block_ids c) = batch_size c \<and> length (slot_prompt_tokens c) = batch_size c \<and>
     length (slot_num_published c) = batch_size c \<and> length (slot_parent_hash c) = batch_size c"

definition slot_ok ::
  "digest \<Rightarrow> 'v pool \<Rightarrow> nat list \<Rightarrow> nat \<Rightarrow> token list \<Rightarrow> nat \<Rightarrow> byte list option \<Rightarrow> bool" where
  "slot_ok digest P ids n prompt pub parent \<longleftrightarrow>
     n \<le> length ids * block_size P \<and> pub * block_size P \<le> n \<and>
     pub \<le> length prompt div block_size P \<and>
     (\<forall>i. pub \<le> i \<and> i < length ids \<longrightarrow> pkey P (ids ! i) = None) \<and>
     (\<exists>chain. hash_blocks digest None (take pub (full_blocks (block_size P) prompt)) = Inr chain \<and>
        (\<forall>i < pub. pkey P (ids ! i) = Some (chain ! i)) \<and> parent = parent_at None chain pub)"

definition slot_at :: "digest \<Rightarrow> 'v pool \<Rightarrow> 'v kvcache \<Rightarrow> nat \<Rightarrow> bool" where
  "slot_at digest P c b \<longleftrightarrow>
     slot_ok digest P (block_ids c ! b) (num_tokens c ! b) (slot_prompt_tokens c ! b)
       (slot_num_published c ! b) (slot_parent_hash c ! b)"

definition kv_inv :: "digest \<Rightarrow> 'v kvs \<Rightarrow> nat multiset \<Rightarrow> bool" where
  "kv_inv digest s R \<longleftrightarrow>
     aligned (fst s) \<and> pool_inv (snd s) (held (fst s) + R) \<and>
     (\<forall>b < batch_size (fst s). slot_at digest (snd s) (fst s) b)"

lemma kv_invD:
  assumes "kv_inv digest (c, P) R"
  shows "aligned c" "pool_inv P (held c + R)" "b < batch_size c \<Longrightarrow> slot_at digest P c b"
    "0 < block_size P" "cache_ok P"
  using assms pool_invD(1,2) by (auto simp: kv_inv_def)

lemma kv_invI:
  "aligned c \<Longrightarrow> pool_inv P (held c + R) \<Longrightarrow> (\<And>b. b < batch_size c \<Longrightarrow> slot_at digest P c b) \<Longrightarrow>
     kv_inv digest (c, P) R"
  by (simp add: kv_inv_def)

lemma slot_pub_le: "slot_ok digest P ids n prompt pub parent \<Longrightarrow> 0 < block_size P \<Longrightarrow> pub \<le> length ids"
  unfolding slot_ok_def by (metis le_trans mult_le_cancel2)

text \<open>A change of the pool that keeps the keys of a slot's blocks keeps the slot.\<close>

lemma slot_ok_cong:
  assumes "slot_ok digest P ids n prompt pub parent" "block_size P' = block_size P" "0 < block_size P"
    and "\<forall>x \<in> set ids. pkey P' x = pkey P x"
  shows "slot_ok digest P' ids n prompt pub parent"
proof -
  have "pub \<le> length ids" using slot_pub_le assms(1,3) .
  then have "i < pub \<Longrightarrow> pkey P' (ids ! i) = pkey P (ids ! i)" for i
    using assms(4) by simp
  moreover have "i < length ids \<Longrightarrow> pkey P' (ids ! i) = pkey P (ids ! i)" for i
    using assms(4) by simp
  ultimately show ?thesis using assms(1) unfolding slot_ok_def assms(2) by auto
qed

section \<open>Slots of a cache\<close>

lemma held_layout_changed [simp]: "held (layout_changed c) = held c"
  by (simp add: held_def layout_changed_def)

lemma batch_layout_changed [simp]: "batch_size (layout_changed c) = batch_size c"
  by (simp add: batch_size_def layout_changed_def)

lemma layout_changed_sel [simp]:
  "block_ids (layout_changed c) = block_ids c" "num_tokens (layout_changed c) = num_tokens c"
  "slot_prompt_tokens (layout_changed c) = slot_prompt_tokens c"
  "slot_num_published (layout_changed c) = slot_num_published c"
  "slot_parent_hash (layout_changed c) = slot_parent_hash c"
  "static_step (layout_changed c) = static_step c" "pool_ref (layout_changed c) = pool_ref c"
  by (simp_all add: layout_changed_def)

text \<open>The invariant reads only the per-slot lists.\<close>

lemma kv_inv_cong:
  assumes "kv_inv digest (c, P) R"
    and "block_ids c' = block_ids c" "num_tokens c' = num_tokens c"
    "slot_prompt_tokens c' = slot_prompt_tokens c" "slot_num_published c' = slot_num_published c"
    "slot_parent_hash c' = slot_parent_hash c"
  shows "kv_inv digest (c', P) R"
  using assms by (simp add: kv_inv_def aligned_def held_def batch_size_def slot_at_def)

lemma kv_inv_layout_changed: "kv_inv digest (c, P) R \<Longrightarrow> kv_inv digest (layout_changed c, P) R"
  by (erule kv_inv_cong) simp_all

lemma held_slot:
  assumes "b < length (block_ids c)"
  obtains rest where "\<And>ids. mset (concat ((block_ids c)[b := ids])) = mset ids + rest"
    "held c = mset (block_ids c ! b) + rest"
    "\<And>b'. b' < length (block_ids c) \<Longrightarrow> b' \<noteq> b \<Longrightarrow> set (block_ids c ! b') \<subseteq> set_mset rest"
proof -
  define rest where "rest = mset (concat (take b (block_ids c))) + mset (concat (drop (Suc b) (block_ids c)))"
  have 1: "mset (concat ((block_ids c)[b := ids])) = mset ids + rest" for ids
    using assms by (simp add: upd_conv_take_nth_drop rest_def)
  have 2: "held c = mset (block_ids c ! b) + rest"
    using 1 [of "block_ids c ! b"] assms by (simp add: held_def)
  have 3: "set (block_ids c ! b') \<subseteq> set_mset rest" if "b' < length (block_ids c)" "b' \<noteq> b" for b'
  proof -
    have "block_ids c ! b' \<in> set (take b (block_ids c)) \<union> set (drop (Suc b) (block_ids c))"
    proof (cases "b' < b")
      case True
      then have "take b (block_ids c) ! b' = block_ids c ! b'" "b' < length (take b (block_ids c))"
        using that(1) by auto
      then show ?thesis by (metis UnI1 nth_mem)
    next
      case False
      then have "drop (Suc b) (block_ids c) ! (b' - Suc b) = block_ids c ! b'"
          "b' - Suc b < length (drop (Suc b) (block_ids c))"
        using that by auto
      then show ?thesis by (metis UnI2 nth_mem)
    qed
    then show ?thesis by (auto simp: rest_def)
  qed
  show thesis using that 1 2 3 by blast
qed

lemma held_memI: "b < length (block_ids c) \<Longrightarrow> x \<in> set (block_ids c ! b) \<Longrightarrow> x \<in># held c"
  by (auto simp: held_def)

text \<open>Replacing the data of one slot, and the pool, keeps the invariant when the other slots'
  blocks keep their keys.\<close>

lemma kv_inv_slot_update:
  assumes inv: "kv_inv digest (c, P) R" and b: "b < batch_size c"
    and upd: "block_ids c' = (block_ids c)[b := ids]" "num_tokens c' = (num_tokens c)[b := n]"
      "slot_prompt_tokens c' = slot_prompt_tokens c"
      "slot_num_published c' = (slot_num_published c)[b := pub]"
      "slot_parent_hash c' = (slot_parent_hash c)[b := parent]"
    and pinv: "pool_inv P' (held c' + R)" and bs: "block_size P' = block_size P"
    and slot: "slot_ok digest P' ids n (slot_prompt_tokens c ! b) pub parent"
    and others: "\<And>b' x. b' < batch_size c \<Longrightarrow> b' \<noteq> b \<Longrightarrow> x \<in> set (block_ids c ! b') \<Longrightarrow> pkey P' x = pkey P x"
  shows "kv_inv digest (c', P') R"
proof (rule kv_invI)
  have al: "aligned c" using inv by (rule kv_invD)
  have bsz: "batch_size c' = batch_size c" by (simp add: batch_size_def upd)
  show "aligned c'" using al bsz upd by (simp add: aligned_def)
  show "pool_inv P' (held c' + R)" by (rule pinv)
  fix b' assume b': "b' < batch_size c'"
  show "slot_at digest P' c' b'"
  proof (cases "b' = b")
    case True
    then show ?thesis using slot al b by (simp add: slot_at_def upd aligned_def batch_size_def)
  next
    case False
    have "slot_at digest P c b'" using kv_invD(3) [OF inv] b' bsz by simp
    then have "slot_ok digest P' (block_ids c ! b') (num_tokens c ! b') (slot_prompt_tokens c ! b')
        (slot_num_published c ! b') (slot_parent_hash c ! b')"
      unfolding slot_at_def
      by (rule slot_ok_cong) (use bs kv_invD(4) [OF inv] others False b' bsz in auto)
    then show ?thesis using False by (simp add: slot_at_def upd)
  qed
qed

section \<open>A fresh cache and a fresh slot\<close>

lemma kv_inv_init: "pool_inv P R \<Longrightarrow> kv_inv digest (kvcache_init i, P) R"
  by (simp add: kv_inv_def kvcache_init_def aligned_def held_def batch_size_def)

lemma append_slot_sel [simp]:
  "block_ids (append_slot prompt c) = block_ids c @ [[]]"
  "num_tokens (append_slot prompt c) = num_tokens c @ [0]"
  "slot_prompt_tokens (append_slot prompt c) = slot_prompt_tokens c @ [prompt]"
  "slot_num_published (append_slot prompt c) = slot_num_published c @ [0]"
  "slot_parent_hash (append_slot prompt c) = slot_parent_hash c @ [None]"
  "batch_size (append_slot prompt c) = Suc (batch_size c)"
  "held (append_slot prompt c) = held c"
  by (simp_all add: append_slot_def layout_changed_def batch_size_def held_def)

lemma slot_ok_empty: "slot_ok digest P [] 0 prompt 0 None"
  by (simp add: slot_ok_def parent_at_def)

lemma kv_inv_append_slot:
  assumes "kv_inv digest (c, P) R"
  shows "kv_inv digest (append_slot prompt c, P) R"
proof (rule kv_invI)
  note al = kv_invD(1) [OF assms]
  show "aligned (append_slot prompt c)" using al by (simp add: aligned_def)
  show "pool_inv P (held (append_slot prompt c) + R)" using kv_invD(2) [OF assms] by simp
  fix b assume b: "b < batch_size (append_slot prompt c)"
  show "slot_at digest P (append_slot prompt c) b"
  proof (cases "b = batch_size c")
    case True
    then have "slot_at digest P (append_slot prompt c) b = slot_ok digest P [] 0 prompt 0 None"
      using al by (simp add: slot_at_def aligned_def batch_size_def nth_append)
    then show ?thesis using slot_ok_empty by metis
  next
    case False
    with b have b': "b < batch_size c" by simp
    show ?thesis using kv_invD(3) [OF assms b'] al b'
      by (simp add: slot_at_def aligned_def batch_size_def nth_append)
  qed
qed

section \<open>Giving blocks back\<close>

lemma remove_at_eq: "i < length xs \<Longrightarrow> remove_at i xs = take i xs @ drop (Suc i) xs"
  by (simp add: remove_at_def)

lemma remove_request_ok:
  assumes inv: "kv_inv digest (c, P) R" and b: "b < batch_size c"
  shows "\<exists>c' P'. remove_request b (c, P) = (Inr (), (c', P')) \<and> kv_inv digest (c', P') R \<and>
    num_tokens c' = remove_at b (num_tokens c) \<and> block_ids c' = remove_at b (block_ids c) \<and>
    available P \<le> available P' \<and> pkey P' = pkey P \<and> pool_frame P' = pool_frame P"
proof -
  have al: "aligned c" using inv by (rule kv_invD)
  have bl: "b < length (block_ids c)" using b al by (simp add: aligned_def)
  let ?rest = "mset (concat (remove_at b (block_ids c)))"
  have "held c = mset (block_ids c ! b) + ?rest"
    using mset_concat_remove_at [OF bl] by (simp add: held_def add.commute)
  then have "pool_inv P (mset (block_ids c ! b) + (?rest + R))"
    using kv_invD(2) [OF inv] by (simp add: add.assoc)
  from bp.release_all_ok [OF this] obtain P' where P': "for_each free (block_ids c ! b) P = (Inr (), P')"
      "pool_inv P' (?rest + R)" "available P \<le> available P'" "pkey P' = pkey P" "pool_frame P' = pool_frame P"
    by blast
  obtain c' where c': "remove_request b (c, P) = (Inr (), (c', P'))"
      "num_tokens c' = remove_at b (num_tokens c)" "block_ids c' = remove_at b (block_ids c)"
      "slot_prompt_tokens c' = remove_at b (slot_prompt_tokens c)"
      "slot_num_published c' = remove_at b (slot_num_published c)"
      "slot_parent_hash c' = remove_at b (slot_parent_hash c)"
    using P'(1) b by (simp add: remove_request_def Let_def)
  have bsz: "batch_size c' = batch_size c - 1" using c' b by (simp add: batch_size_def)
  have "kv_inv digest (c', P') R"
  proof (rule kv_invI)
    show "aligned c'" using al b bsz c' by (simp add: aligned_def)
    show "pool_inv P' (held c' + R)" using P'(2) c'(3) by (simp add: held_def)
    fix b' assume b': "b' < batch_size c'"
    define j where "j = (if b' < b then b' else Suc b')"
    have j: "j < batch_size c" using b' bsz by (auto simp: j_def)
    have sel: "block_ids c' ! b' = block_ids c ! j" "num_tokens c' ! b' = num_tokens c ! j"
        "slot_prompt_tokens c' ! b' = slot_prompt_tokens c ! j"
        "slot_num_published c' ! b' = slot_num_published c ! j"
        "slot_parent_hash c' ! b' = slot_parent_hash c ! j"
      using al b b' bsz c' by (simp_all add: j_def aligned_def batch_size_def nth_remove_at)
    have "slot_at digest P c j" using kv_invD(3) [OF inv j] .
    then show "slot_at digest P' c' b'" unfolding slot_at_def sel
      by (rule slot_ok_cong) (use P' kv_invD(4) [OF inv] pool_frameD(2) in auto)
  qed
  then show ?thesis using c' P' by blast
qed

text \<open>Truncation keeps the leading blocks of a slot; the ones given back were private.\<close>

lemma slot_ok_truncate:
  assumes ok: "slot_ok digest P ids n prompt pub parent" and bs: "0 < block_size P"
    and m: "m \<le> n" "pub * block_size P \<le> m"
  shows "slot_ok digest P (take (blocks_for (block_size P) m) ids) m prompt pub parent"
proof -
  let ?k = "blocks_for (block_size P) m"
  have k: "?k \<le> length ids"
    using ok m bs by (simp add: slot_ok_def blocks_for_le_iff)
  have pk: "pub \<le> ?k" using m(2) blocks_for_mono [OF bs m(2)] bs by (simp add: blocks_for_mult)
  have ex: "m \<le> ?k * block_size P" using blocks_for_covers [OF bs] .
  obtain chain where chain:
      "hash_blocks digest None (take pub (full_blocks (block_size P) prompt)) = Inr chain"
      "\<forall>i < pub. pkey P (ids ! i) = Some (chain ! i)" "parent = parent_at None chain pub"
    using ok unfolding slot_ok_def by blast
  show ?thesis unfolding slot_ok_def
  proof (intro conjI exI [of _ chain])
    show "m \<le> length (take ?k ids) * block_size P" using ex k by (simp add: min_def)
    show "\<forall>i. pub \<le> i \<and> i < length (take ?k ids) \<longrightarrow> pkey P (take ?k ids ! i) = None"
      using ok by (auto simp: slot_ok_def)
    show "\<forall>i < pub. pkey P (take ?k ids ! i) = Some (chain ! i)" using chain(2) pk by auto
  qed (use ok chain m in \<open>auto simp: slot_ok_def\<close>)
qed

lemma truncate_to_ok:
  assumes inv: "kv_inv digest (c, P) R" and b: "b < batch_size c"
    and m: "m \<le> num_tokens c ! b" "slot_num_published c ! b * block_size P \<le> m"
  shows "\<exists>c' P'. truncate_to b (int m) (c, P) = (Inr (), (c', P')) \<and> kv_inv digest (c', P') R \<and>
    num_tokens c' = (num_tokens c)[b := m] \<and>
    block_ids c' = (if m = num_tokens c ! b then block_ids c
      else (block_ids c)[b := take (blocks_for (block_size P) m) (block_ids c ! b)]) \<and>
    slot_num_published c' = slot_num_published c \<and> slot_parent_hash c' = slot_parent_hash c \<and>
    slot_prompt_tokens c' = slot_prompt_tokens c \<and>
    available P \<le> available P' \<and> pkey P' = pkey P \<and> pool_frame P' = pool_frame P"
proof (cases "m = num_tokens c ! b")
  case True
  then show ?thesis using inv b
    by (intro exI [of _ c] exI [of _ P]) (simp add: truncate_to_def batch_size_def)
next
  case False
  have al: "aligned c" using inv by (rule kv_invD)
  have bl: "b < length (block_ids c)" using b al by (simp add: aligned_def)
  note bs = kv_invD(4) [OF inv]
  let ?ids = "block_ids c ! b" and ?k = "blocks_for (block_size P) m"
  obtain rest where rest: "\<And>ids. mset (concat ((block_ids c)[b := ids])) = mset ids + rest"
      "held c = mset ?ids + rest"
    using held_slot [OF bl] by metis
  have "mset ?ids = mset (drop ?k ?ids) + mset (take ?k ?ids)"
    by (metis append_take_drop_id mset_append union_commute)
  then have "pool_inv P (mset (drop ?k ?ids) + (mset (take ?k ?ids) + rest + R))"
    using kv_invD(2) [OF inv] rest(2) by (simp add: add.assoc)
  from bp.release_all_ok [OF this] obtain P' where P': "for_each free (drop ?k ?ids) P = (Inr (), P')"
      "pool_inv P' (mset (take ?k ?ids) + rest + R)" "available P \<le> available P'" "pkey P' = pkey P"
      "pool_frame P' = pool_frame P"
    by blast
  have guards: "\<not> int m < 0" "\<not> int m > int (num_tokens c ! b)" "int m \<noteq> int (num_tokens c ! b)"
      "\<not> int m < int (slot_num_published c ! b * block_size P)"
    using m False by (simp_all only: of_nat_le_iff of_nat_less_iff of_nat_eq_iff not_less of_nat_0_le_iff)
      auto
  obtain c' where c': "truncate_to b (int m) (c, P) = (Inr (), (c', P'))"
      "num_tokens c' = (num_tokens c)[b := m]" "block_ids c' = (block_ids c)[b := take ?k ?ids]"
      "slot_prompt_tokens c' = slot_prompt_tokens c" "slot_num_published c' = slot_num_published c"
      "slot_parent_hash c' = slot_parent_hash c"
    using P'(1) b guards by (simp add: truncate_to_def Let_def del: of_nat_mult)
  have "slot_ok digest P ?ids (num_tokens c ! b) (slot_prompt_tokens c ! b)
      (slot_num_published c ! b) (slot_parent_hash c ! b)"
    using kv_invD(3) [OF inv b] by (simp add: slot_at_def)
  from slot_ok_truncate [OF this bs m] have "slot_ok digest P (take ?k ?ids) m (slot_prompt_tokens c ! b)
      (slot_num_published c ! b) (slot_parent_hash c ! b)" .
  then have slot: "slot_ok digest P' (take ?k ?ids) m (slot_prompt_tokens c ! b)
      (slot_num_published c ! b) (slot_parent_hash c ! b)"
    by (rule slot_ok_cong) (use P' bs pool_frameD(2) in auto)
  have "kv_inv digest (c', P') R"
    by (rule kv_inv_slot_update [OF inv b c'(3,2,4), of "slot_num_published c ! b" "slot_parent_hash c ! b"])
      (use c' P' slot rest(1) pool_frameD(2) in \<open>auto simp: held_def\<close>)
  then show ?thesis using c' P' False by auto
qed

section \<open>Taking a slot\<close>

text \<open>Taking references to cached blocks moves them from the idle queue to the clients.\<close>

lemma pool_pin_ok:
  assumes inv: "pool_inv P R" and pc: "pool_prefix_cache P = Some pc" and bs: "\<forall>b \<in> set bs. is_cached pc b"
  shows "\<exists>pc'. for_each incref bs pc = (Inr (), pc') \<and>
    pool_inv (P\<lparr>pool_prefix_cache := Some pc'\<rparr>) (mset bs + R) \<and>
    pkey (P\<lparr>pool_prefix_cache := Some pc'\<rparr>) = pkey P"
proof -
  note pinv = pool_inv_pcE [OF inv pc]
  have "\<forall>b \<in> set bs. key_of pc b \<noteq> None" using bs key_of_iff [OF pinv(1)] by blast
  from pc.pin_all [OF pinv(1) this] obtain pc' where pc': "for_each incref bs pc = (Inr (), pc')"
      "pc_inv pc'" "key_of pc' = key_of pc" "refs_of pc' = (\<lambda>b. refs_of pc b + count_list bs b)"
    by blast
  have bsz: "pc_block_size pc' = pc_block_size pc"
  proof -
    have "pc_block_size (snd (for_each incref bs pc)) = pc_block_size pc"
      by (rule for_each_invariant)
        (auto simp: incref_def incref_entry_def split: option.splits)
    then show ?thesis using pc'(1) by simp
  qed
  let ?P' = "P\<lparr>pool_prefix_cache := Some pc'\<rparr>"
  have cached: "is_cached pc' = is_cached pc"
    using key_of_iff [OF pc'(2)] key_of_iff [OF pinv(1)] unfolding pc'(3) by blast
  have v: "pcached ?P' = pcached P" "cache_ok ?P'" "pkey ?P' = pkey P"
      "prefs ?P' b = prefs P b + count_list bs b" for b
    using pc pc' pinv bsz cached by (auto simp: pcached_def pkey_def prefs_def cache_ok_def fun_eq_iff)
  have "pool_inv ?P' (mset bs + R)"
  proof (rule pool_invI)
    show "0 < block_size ?P'" "cache_ok ?P'" "distinct (free_list ?P')"
      using pool_invD(1,3) [OF inv] v(2) by auto
  next
    fix x assume "x \<in> set (free_list ?P')"
    then show "x < num_blocks ?P' \<and> \<not> pcached ?P' x" using pool_invD(4) [OF inv, of x] v(1) by simp
  next
    fix x assume "pcached ?P' x"
    then show "x < num_blocks ?P' \<and> prefs ?P' x = count (mset bs + R) x"
      using pool_invD(5) [OF inv, of x] v(1,4) by (simp add: count_mset)
  next
    fix x assume x: "\<not> pcached ?P' x"
    then have "x \<notin> set bs" using bs v(1) pc by (auto simp: pcached_def)
    then have "count (mset bs) x = 0" by (simp add: count_eq_zero_iff)
    then show "count (mset bs + R) x = (if x < num_blocks ?P' \<and> x \<notin> set (free_list ?P') then 1 else 0)"
      using pool_invD(6) [OF inv, of x] x v(1) by simp
  qed
  with pc'(1) v(3) show ?thesis by blast
qed

lemma lookup_key:
  assumes "pc_inv pc" "i < length (lookup pc chain)"
  shows "key_of pc (lookup pc chain ! i) = Some (chain ! i)"
proof -
  obtain e where e: "entries pc (fst (chain ! i)) = Some e" "ce_tokens e = snd (chain ! i)"
    using lookup_nth(1) [OF assms(2)] by (auto simp: hit_def split: option.splits)
  have "lookup pc chain ! i = ce_block_id e" using lookup_nth(2) [OF assms(2)] e(1) by (simp add: block_of_def)
  then show ?thesis using key_of_entry [OF assms(1) e(1)] e(2) by simp
qed

text \<open>The last-token rule: the cached part is shorter than the prompt.\<close>

lemma usable_blocks_bound:
  assumes "0 < bs" "matched * bs \<le> len" "0 < usable_blocks bs len matched"
  shows "usable_blocks bs len matched * bs < len" "usable_blocks bs len matched \<le> matched"
  using assms by (auto simp: usable_blocks_def diff_mult_distrib split: if_splits)

lemma slot_ok_matched:
  assumes inv: "cache_ok P" "pool_prefix_cache P = Some pc"
    and h: "compute_block_hashes digest prompt (block_size P) = Inr chain"
    and n: "0 < n" "n \<le> length (lookup pc chain)"
  shows "slot_ok digest P (take n (lookup pc chain)) (n * block_size P) prompt n (Some (fst (chain ! (n - 1))))"
proof -
  have pinv: "pc_inv pc" using inv by (simp add: cache_ok_def)
  have hb: "hash_blocks digest None (full_blocks (block_size P) prompt) = Inr chain"
    using h by (simp add: compute_block_hashes_def)
  have len: "length chain = length prompt div block_size P"
    using hash_blocks_length [OF hb] by (simp add: blocks_simps)
  have nl: "n \<le> length chain" using n lookup_length le_trans by blast
  show ?thesis unfolding slot_ok_def
  proof (intro conjI exI [of _ "take n chain"])
    show "hash_blocks digest None (take n (full_blocks (block_size P) prompt)) = Inr (take n chain)"
      using hash_blocks_take [OF hb] by simp
    show "\<forall>i < n. pkey P (take n (lookup pc chain) ! i) = Some (take n chain ! i)"
      using lookup_key [OF pinv] n inv(2) by (simp add: pkey_def)
    show "Some (fst (chain ! (n - 1))) = parent_at None (take n chain) n"
      using n nl by (cases n) (simp_all add: parent_at_def)
  qed (use n nl len in auto)
qed

text \<open>The slot that \<open>add_request_slot\<close> fills on a hit.\<close>

lemma take_cached_ok:
  fixes c :: "'v kvcache" and P :: "'v pool"
  assumes inv: "kv_inv digest (c, P) R" and pc: "pool_prefix_cache P = Some pc"
    and h: "compute_block_hashes digest prompt (block_size P) = Inr chain"
    and n: "0 < n" "n \<le> length (lookup pc chain)"
  defines "c1 \<equiv> append_slot prompt c" and "b \<equiv> batch_size c" and "ids \<equiv> take n (lookup pc chain)"
  defines "c2 \<equiv> c1\<lparr>block_ids := (block_ids c1)[b := ids], num_tokens := (num_tokens c1)[b := n * block_size P],
     slot_num_published := (slot_num_published c1)[b := n],
     slot_parent_hash := (slot_parent_hash c1)[b := Some (fst (chain ! (n - 1)))]\<rparr>"
  shows "\<exists>pc'. for_each incref ids pc = (Inr (), pc') \<and>
    kv_inv digest (c2, P\<lparr>pool_prefix_cache := Some pc'\<rparr>) R \<and>
    pkey (P\<lparr>pool_prefix_cache := Some pc'\<rparr>) = pkey P"
    and "block_ids c2 = block_ids c @ [ids]" "num_tokens c2 = num_tokens c @ [n * block_size P]"
    "slot_prompt_tokens c2 = slot_prompt_tokens c @ [prompt]"
    "slot_num_published c2 = slot_num_published c @ [n]"
proof -
  note inv1 = kv_inv_append_slot [OF inv, of prompt, folded c1_def]
  note bs = kv_invD(4) [OF inv] and cok = kv_invD(5) [OF inv]
  have pinv: "pc_inv pc" using cok pc by (simp add: cache_ok_def)
  have al: "length (block_ids c) = b" "length (num_tokens c) = b" "length (slot_prompt_tokens c) = b"
      "length (slot_num_published c) = b"
    using kv_invD(1) [OF inv] by (simp_all add: aligned_def batch_size_def b_def)
  show sel: "block_ids c2 = block_ids c @ [ids]" "num_tokens c2 = num_tokens c @ [n * block_size P]"
      "slot_prompt_tokens c2 = slot_prompt_tokens c @ [prompt]"
      "slot_num_published c2 = slot_num_published c @ [n]"
    using al list_update_length [of "block_ids c" "[]" "[]"] list_update_length [of "num_tokens c" 0 "[]"]
      list_update_length [of "slot_num_published c" 0 "[]"]
    by (simp_all add: c2_def c1_def)
  have "\<forall>b \<in> set ids. is_cached pc b"
    using lookup_cached [OF pinv] by (auto simp: ids_def dest: in_set_takeD)
  from pool_pin_ok [OF kv_invD(2) [OF inv1] pc this] obtain pc' where pc':
      "for_each incref ids pc = (Inr (), pc')"
      "pool_inv (P\<lparr>pool_prefix_cache := Some pc'\<rparr>) (mset ids + (held c1 + R))"
      "pkey (P\<lparr>pool_prefix_cache := Some pc'\<rparr>) = pkey P"
    by blast
  have slot: "slot_ok digest P ids (n * block_size P) prompt n (Some (fst (chain ! (n - 1))))"
    using slot_ok_matched [OF cok pc h n] by (simp add: ids_def)
  have "kv_inv digest (c2, P\<lparr>pool_prefix_cache := Some pc'\<rparr>) R"
  proof (rule kv_inv_slot_update [OF inv1, of b])
    show "b < batch_size c1" by (simp add: c1_def b_def)
    show "pool_inv (P\<lparr>pool_prefix_cache := Some pc'\<rparr>) (held c2 + R)"
      using pc'(2) sel(1) by (simp add: held_def c1_def ac_simps)
    show "slot_ok digest (P\<lparr>pool_prefix_cache := Some pc'\<rparr>) ids (n * block_size P)
        (slot_prompt_tokens c1 ! b) n (Some (fst (chain ! (n - 1))))"
    proof -
      have "slot_ok digest (P\<lparr>pool_prefix_cache := Some pc'\<rparr>) ids (n * block_size P) prompt n
          (Some (fst (chain ! (n - 1))))"
        by (rule slot_ok_cong [OF slot _ bs]) (use pc'(3) in simp_all)
      then show ?thesis using al by (simp add: c1_def nth_append)
    qed
  qed (use pc'(3) in \<open>simp_all add: c2_def\<close>)
  with pc' show "\<exists>pc'. for_each incref ids pc = (Inr (), pc') \<and>
      kv_inv digest (c2, P\<lparr>pool_prefix_cache := Some pc'\<rparr>) R \<and>
      pkey (P\<lparr>pool_prefix_cache := Some pc'\<rparr>) = pkey P"
    by blast
qed

text \<open>
  \<open>add_request_slot\<close> keeps the invariant on every path. It only raises when a prompt token does
  not fit the hash encoding; the new slot is then empty. Otherwise the new slot holds whole cached
  blocks, fewer tokens than the prompt has.
\<close>

definition slot_added ::
  "digest \<Rightarrow> token list option \<Rightarrow> 'v kvs \<Rightarrow> nat res \<Rightarrow> 'v kvs \<Rightarrow> nat list \<Rightarrow> bool" where
  "slot_added digest popt s r s' ids \<longleftrightarrow>
     block_ids (fst s') = block_ids (fst s) @ [ids] \<and>
     num_tokens (fst s') = num_tokens (fst s) @ [length ids * block_size (snd s)] \<and>
     slot_prompt_tokens (fst s') = slot_prompt_tokens (fst s) @ [prompt_of popt] \<and>
     slot_num_published (fst s') = slot_num_published (fst s) @ [length ids] \<and>
     (ids = [] \<or> length ids * block_size (snd s) < length (prompt_of popt)) \<and>
     (r = Inr (batch_size (fst s)) \<or> ids = [] \<and> pool_prefix_cache (snd s) \<noteq> None \<and>
        \<not> succeeds (compute_block_hashes digest (prompt_of popt) (block_size (snd s)))) \<and>
     pkey (snd s') = pkey (snd s) \<and> pool_frame (snd s') = pool_frame (snd s)"

lemma add_request_slot_cases:
  fixes c :: "'v kvcache" and P :: "'v pool" and digest :: digest and popt :: "token list option"
  defines "out \<equiv> add_request_slot digest popt (c, P)" and "c1 \<equiv> append_slot (prompt_of popt) c"
  obtains (plain) "out = (Inr (batch_size c), (c1, P))"
    | (raised) e pc where "pool_prefix_cache P = Some pc"
        "compute_block_hashes digest (prompt_of popt) (block_size P) = Inl e" "out = (Inl e, (c1, P))"
    | (hit) pc chain n where "pool_prefix_cache P = Some pc"
        "compute_block_hashes digest (prompt_of popt) (block_size P) = Inr chain"
        "n = usable_blocks (block_size P) (length (prompt_of popt)) (length (lookup pc chain))" "0 < n"
        "\<And>pc'. for_each incref (take n (lookup pc chain)) pc = (Inr (), pc') \<Longrightarrow>
          out = (Inr (batch_size c),
            (c1\<lparr>block_ids := (block_ids c1)[batch_size c := take n (lookup pc chain)],
                num_tokens := (num_tokens c1)[batch_size c := n * block_size P],
                slot_num_published := (slot_num_published c1)[batch_size c := n],
                slot_parent_hash := (slot_parent_hash c1)[batch_size c := Some (fst (chain ! (n - 1)))]\<rparr>,
             P\<lparr>pool_prefix_cache := Some pc'\<rparr>))"
proof (cases "pool_prefix_cache P")
  case None
  then show thesis using plain by (simp add: out_def c1_def add_request_slot_def Let_def)
next
  case (Some pc)
  note that1 = that and pc = this
  show thesis
  proof (cases "prompt_of popt = []")
    case True
    then show thesis using plain pc by (simp add: out_def c1_def add_request_slot_def Let_def)
  next
    case ne: False
    show thesis
    proof (cases "compute_block_hashes digest (prompt_of popt) (block_size P)")
      case (Inl e)
      then show thesis using raised pc ne by (simp add: out_def c1_def add_request_slot_def Let_def)
    next
      case (Inr chain)
      define n where "n = usable_blocks (block_size P) (length (prompt_of popt)) (length (lookup pc chain))"
      show thesis
      proof (cases "lookup pc chain = [] \<or> n = 0")
        case True
        then show thesis using plain pc ne Inr
          by (auto simp: out_def c1_def add_request_slot_def Let_def n_def)
      next
        case False
        show thesis
          by (rule hit [OF pc Inr n_def])
            (use False pc ne Inr in \<open>simp_all add: out_def c1_def add_request_slot_def Let_def n_def\<close>)
      qed
    qed
  qed
qed

lemma matched_bound:
  assumes bs: "0 < block_size P" and h: "compute_block_hashes digest prompt (block_size P) = Inr chain"
    and n: "n = usable_blocks (block_size P) (length prompt) (length (lookup pc chain))" "0 < n"
  shows "n * block_size P < length prompt" "n \<le> length (lookup pc chain)"
proof -
  have "length chain = length prompt div block_size P"
    using hash_blocks_length h by (fastforce simp: compute_block_hashes_def blocks_simps)
  then have "length (lookup pc chain) * block_size P \<le> length prompt div block_size P * block_size P"
    using lookup_length [of pc chain] by (intro mult_le_mono1) simp
  also have "\<dots> \<le> length prompt" by simp
  finally show "n * block_size P < length prompt" "n \<le> length (lookup pc chain)"
    using usable_blocks_bound [OF bs] n by auto
qed

lemma add_request_slot_ok:
  assumes inv: "kv_inv digest (c, P) R"
  shows "\<exists>r s' ids. add_request_slot digest popt (c, P) = (r, s') \<and> kv_inv digest s' R \<and>
    slot_added digest popt (c, P) r s' ids"
proof -
  let ?c1 = "append_slot (prompt_of popt) c"
  have c1: "kv_inv digest (?c1, P) R" "slot_added digest popt (c, P) (Inr (batch_size c)) (?c1, P) []"
    using kv_inv_append_slot [OF inv] by (simp_all add: slot_added_def)
  show ?thesis
  proof (cases digest popt c P rule: add_request_slot_cases)
    case plain
    with c1 show ?thesis by blast
  next
    case (raised e pc)
    then have "slot_added digest popt (c, P) (Inl e) (?c1, P) []" by (simp add: slot_added_def)
    with raised c1 show ?thesis by blast
  next
    case (hit pc chain n)
    note n = matched_bound [OF kv_invD(4) [OF inv] hit(2,3,4)]
    note took = take_cached_ok [OF inv hit(1,2,4) n(2)]
    obtain pc' where pc': "for_each incref (take n (lookup pc chain)) pc = (Inr (), pc')" using took(1) by blast
    then obtain c2 where c2: "add_request_slot digest popt (c, P) =
          (Inr (batch_size c), (c2, P\<lparr>pool_prefix_cache := Some pc'\<rparr>))"
        "kv_inv digest (c2, P\<lparr>pool_prefix_cache := Some pc'\<rparr>) R"
        "pkey (P\<lparr>pool_prefix_cache := Some pc'\<rparr>) = pkey P"
        "block_ids c2 = block_ids c @ [take n (lookup pc chain)]"
        "num_tokens c2 = num_tokens c @ [n * block_size P]"
        "slot_prompt_tokens c2 = slot_prompt_tokens c @ [prompt_of popt]"
        "slot_num_published c2 = slot_num_published c @ [n]"
      using hit(5) took by fastforce
    then have "slot_added digest popt (c, P) (Inr (batch_size c)) (c2, P\<lparr>pool_prefix_cache := Some pc'\<rparr>)
        (take n (lookup pc chain))"
      using n hit(1) by (simp add: slot_added_def)
    with c2 show ?thesis by blast
  qed
qed

end
