(* ===== verification/Paged_Reserve.thy ===== *)
theory Paged_Reserve
  imports Paged_Accounting
begin

text \<open>
  Reserving the positions of a step (\<open>_reserve_new_tokens\<close>): which slots advance, which blocks
  they take, and when the pool runs out. On a failure the slots before the failing one have
  advanced and the failing one keeps the blocks it got; \<open>truncate_to\<close> undoes the advance.
\<close>

definition new_tokens :: "nat list \<Rightarrow> nat \<Rightarrow> nat" where
  "new_tokens cu b = cu ! Suc b - cu ! b"

text \<open>The blocks that slot \<open>b\<close> lacks for its new tokens.\<close>

definition need :: "nat \<Rightarrow> nat list \<Rightarrow> 'v kvcache \<Rightarrow> nat \<Rightarrow> nat" where
  "need bs cu c b = blocks_for bs (num_tokens c ! b + new_tokens cu b) - length (block_ids c ! b)"

lemma slot_ok_grow:
  assumes ok: "slot_ok digest P ids n prompt pub parent" and bs: "0 < block_size P"
    and fr: "block_size P' = block_size P" "\<forall>x \<in> set ids. pkey P' x = pkey P x"
    and new: "\<forall>x \<in> set new. pkey P' x = None" and m: "n \<le> m" "m \<le> length (ids @ new) * block_size P"
  shows "slot_ok digest P' (ids @ new) m prompt pub parent"
proof -
  have ok': "slot_ok digest P' ids n prompt pub parent" by (rule slot_ok_cong [OF ok fr(1) bs fr(2)])
  have pub: "pub \<le> length ids" using slot_pub_le [OF ok bs] .
  have priv: "pkey P' ((ids @ new) ! i) = None" if "pub \<le> i" "i < length (ids @ new)" for i
  proof (cases "i < length ids")
    case True
    then show ?thesis using ok' that by (simp add: slot_ok_def nth_append)
  next
    case False
    then show ?thesis using new that by (simp add: nth_append)
  qed
  obtain chain where chain:
      "hash_blocks digest None (take pub (full_blocks (block_size P') prompt)) = Inr chain"
      "\<forall>i < pub. pkey P' (ids ! i) = Some (chain ! i)" "parent = parent_at None chain pub"
    using ok' unfolding slot_ok_def by blast
  show ?thesis unfolding slot_ok_def
  proof (intro conjI exI [of _ chain])
    show "\<forall>i < pub. pkey P' ((ids @ new) ! i) = Some (chain ! i)"
      using chain(2) pub by (simp add: nth_append)
    show "\<forall>i. pub \<le> i \<and> i < length (ids @ new) \<longrightarrow> pkey P' ((ids @ new) ! i) = None"
      using priv by blast
  qed (use ok' chain m fr in \<open>auto simp: slot_ok_def\<close>)
qed

text \<open>What one slot's turn of the loop does to a cache and its pool.\<close>

definition slot_grown :: "nat \<Rightarrow> nat list \<Rightarrow> nat \<Rightarrow> nat \<Rightarrow> nat multiset \<Rightarrow> 'v kvs \<Rightarrow> 'v kvs \<Rightarrow> bool" where
  "slot_grown b new k m R s s' \<longleftrightarrow>
     block_ids (fst s') = (block_ids (fst s))[b := block_ids (fst s) ! b @ new] \<and>
     num_tokens (fst s') = (num_tokens (fst s))[b := num_tokens (fst s) ! b + k] \<and>
     slot_prompt_tokens (fst s') = slot_prompt_tokens (fst s) \<and>
     slot_num_published (fst s') = slot_num_published (fst s) \<and>
     slot_parent_hash (fst s') = slot_parent_hash (fst s) \<and>
     length new = m \<and> distinct new \<and>
     (\<forall>x \<in> set new. x \<notin># held (fst s) + R \<and> pkey (snd s') x = None) \<and>
     (\<forall>x. x \<in># held (fst s) + R \<longrightarrow> pkey (snd s') x = pkey (snd s) x) \<and>
     (\<forall>x. pkey (snd s') x = None \<or> pkey (snd s') x = pkey (snd s) x) \<and>
     available (snd s') = available (snd s) - m \<and> pool_frame (snd s') = pool_frame (snd s)"

lemma slot_grown_inv:
  assumes inv: "kv_inv digest (c, P) R" and b: "b < batch_size c"
    and g: "slot_grown b new k m R (c, P) (c', P')" and pinv: "pool_inv P' (held c' + R)"
    and fits: "num_tokens c ! b + k \<le> length (block_ids c ! b @ new) * block_size P"
  shows "kv_inv digest (c', P') R"
proof -
  note bs = kv_invD(4) [OF inv]
  have g': "block_ids c' = (block_ids c)[b := block_ids c ! b @ new]"
      "num_tokens c' = (num_tokens c)[b := num_tokens c ! b + k]"
      "slot_prompt_tokens c' = slot_prompt_tokens c" "slot_num_published c' = slot_num_published c"
      "slot_parent_hash c' = slot_parent_hash c"
      "\<forall>x \<in> set new. pkey P' x = None" "\<forall>x. x \<in># held c + R \<longrightarrow> pkey P' x = pkey P x"
      "pool_frame P' = pool_frame P"
    using g by (simp_all add: slot_grown_def)
  have bl: "b < length (block_ids c)" using b kv_invD(1) [OF inv] by (simp add: aligned_def)
  have heldp: "x \<in> set (block_ids c ! b') \<Longrightarrow> b' < batch_size c \<Longrightarrow> pkey P' x = pkey P x" for b' x
    using g'(7) held_memI [of b' c x] kv_invD(1) [OF inv] by (simp add: aligned_def)
  have slot: "slot_ok digest P (block_ids c ! b) (num_tokens c ! b) (slot_prompt_tokens c ! b)
      (slot_num_published c ! b) (slot_parent_hash c ! b)"
    using kv_invD(3) [OF inv b] by (simp add: slot_at_def)
  show ?thesis
    by (rule kv_inv_slot_update [OF inv b g'(1,2,3), of "slot_num_published c ! b" "slot_parent_hash c ! b"])
      (use g' pinv pool_frameD(2) [OF g'(8)] heldp b fits slot_ok_grow [OF slot bs _ _ g'(6)] in auto)
qed

lemma reserve_slot_ok:
  fixes cu :: "nat list"
  assumes inv: "kv_inv digest (c, P) R" and b: "b < batch_size c"
  defines "k \<equiv> new_tokens cu b" and "n \<equiv> need (block_size P) cu c b"
  shows "\<exists>s' new. reserve_slot cu b (c, P) =
      (if n \<le> available P then Inr () else Inl OutOfMemoryError, s') \<and> kv_inv digest s' R \<and>
    slot_grown b new (if n \<le> available P then k else 0) (min n (available P)) R (c, P) s'"
proof -
  note bs = kv_invD(4) [OF inv]
  have bl: "b < length (block_ids c)" using b kv_invD(1) [OF inv] by (simp add: aligned_def)
  have fits: "num_tokens c ! b \<le> length (block_ids c ! b) * block_size P"
    using kv_invD(3) [OF inv b] by (simp add: slot_at_def slot_ok_def)
  show ?thesis
  proof (cases "k = 0")
    case True
    then have "n = 0" using fits bs by (simp add: n_def need_def k_def blocks_for_le_iff)
    moreover have "reserve_slot cu b (c, P) = (Inr (), (c, P))"
      using True by (simp add: reserve_slot_def k_def new_tokens_def)
    ultimately show ?thesis using inv b bl True
      by (intro exI [of _ "(c, P)"] exI [of _ "[]"]) (simp add: slot_grown_def batch_size_def)
  next
    case False
    let ?ids = "block_ids c ! b"
    obtain rest where rest: "\<And>ids. mset (concat ((block_ids c)[b := ids])) = mset ids + rest"
        "held c = mset ?ids + rest"
      using held_slot [OF bl] by metis
    have "pool_inv P (mset ?ids + (rest + R))" using kv_invD(2) [OF inv] rest(2) by (simp add: add.assoc)
    from bp.grow_ok [OF this, of n] obtain new P' where g:
        "grow allocate n ?ids P = (if n \<le> available P then Inr () else Inl OutOfMemoryError, ?ids @ new, P')"
        "pool_inv P' (mset (?ids @ new) + (rest + R))" "length new = min n (available P)"
        "available P' = available P - length new" "distinct new"
        "\<forall>x \<in> set new. x \<notin># mset ?ids + (rest + R) \<and> pkey P' x = None"
        "\<forall>x. x \<in># mset ?ids + (rest + R) \<longrightarrow> pkey P' x = pkey P x"
        "\<forall>x. pkey P' x = None \<or> pkey P' x = pkey P x" "pool_frame P' = pool_frame P"
      by blast
    define j where "j = (if n \<le> available P then k else 0)"
    define c' where "c' = c\<lparr>block_ids := (block_ids c)[b := ?ids @ new],
        num_tokens := (num_tokens c)[b := num_tokens c ! b + j]\<rparr>"
    have n_eq: "n = blocks_for (block_size P) (num_tokens c ! b + k) - length ?ids"
      by (simp add: n_def need_def k_def)
    have eq: "reserve_slot cu b (c, P) = (if n \<le> available P then Inr () else Inl OutOfMemoryError, (c', P'))"
      using False g(1) unfolding n_eq
      by (simp add: reserve_slot_def Let_def k_def new_tokens_def c'_def j_def n_eq)
    have grown: "slot_grown b new j (min n (available P)) R (c, P) (c', P')"
      using g rest(2) by (simp add: slot_grown_def c'_def add.assoc)
    have "blocks_for (block_size P) (num_tokens c ! b) \<le> length ?ids" using fits bs by (simp add: blocks_for_le_iff)
    then have "blocks_for (block_size P) (num_tokens c ! b + j) \<le> length (?ids @ new)"
      using g(3) n_eq by (cases "n \<le> available P") (auto simp: j_def)
    then have "num_tokens c ! b + j \<le> length (?ids @ new) * block_size P"
      using bs by (simp add: blocks_for_le_iff)
    moreover have "pool_inv P' (held c' + R)"
      using g(2) rest(1) [of "?ids @ new"] by (simp add: held_def c'_def ac_simps)
    ultimately have "kv_inv digest (c', P') R" using slot_grown_inv [OF inv b grown] by blast
    with eq grown show ?thesis unfolding j_def by blast
  qed
qed

section \<open>All slots\<close>

text \<open>The blocks that the slots from \<open>i\<close> on lack.\<close>

definition total_need :: "nat \<Rightarrow> nat list \<Rightarrow> 'v kvcache \<Rightarrow> nat \<Rightarrow> nat" where
  "total_need bs cu c i = sum_list (map (need bs cu c) [i ..< batch_size c])"

lemma total_need_step: "i < batch_size c \<Longrightarrow> total_need bs cu c i = need bs cu c i + total_need bs cu c (Suc i)"
  by (simp add: total_need_def upt_conv_Cons)

text \<open>The slots \<open>i \<le> b < m\<close> have advanced, every block table is extended, nothing else moved.\<close>

definition slots_grown :: "nat list \<Rightarrow> nat \<Rightarrow> nat \<Rightarrow> 'v kvs \<Rightarrow> 'v kvs \<Rightarrow> bool" where
  "slots_grown cu i m s s' \<longleftrightarrow>
     batch_size (fst s') = batch_size (fst s) \<and>
     (\<forall>b < batch_size (fst s). num_tokens (fst s') ! b =
        num_tokens (fst s) ! b + (if i \<le> b \<and> b < m then new_tokens cu b else 0)) \<and>
     (\<forall>b < batch_size (fst s). \<exists>new. block_ids (fst s') ! b = block_ids (fst s) ! b @ new \<and>
        (b < i \<or> m < b \<longrightarrow> new = [])) \<and>
     slot_prompt_tokens (fst s') = slot_prompt_tokens (fst s) \<and>
     slot_num_published (fst s') = slot_num_published (fst s) \<and>
     slot_parent_hash (fst s') = slot_parent_hash (fst s) \<and>
     (\<forall>x. x \<in># held (fst s) \<longrightarrow> pkey (snd s') x = pkey (snd s) x) \<and>
     (\<forall>x. pkey (snd s') x = None \<or> pkey (snd s') x = pkey (snd s) x) \<and>
     pool_frame (snd s') = pool_frame (snd s)"

lemma slots_grown_refl: "slots_grown cu i i s s"
  unfolding slots_grown_def by auto

lemma slots_grown_step:
  assumes g1: "slot_grown i new (new_tokens cu i) n R (c, P) (c1, P1)"
    and g2: "slots_grown cu (Suc i) m (c1, P1) s2" and i: "i < batch_size c" "aligned c" "Suc i \<le> m"
  shows "slots_grown cu i m (c, P) s2"
proof -
  have il: "i < length (num_tokens c)" "i < length (block_ids c)"
    using i by (simp_all add: batch_size_def aligned_def)
  note g1' = g1 [unfolded slot_grown_def fst_conv snd_conv]
  note g2' = g2 [unfolded slots_grown_def fst_conv snd_conv]
  have b1: "batch_size c1 = batch_size c" using g1' by (simp add: batch_size_def)
  have nums: "num_tokens (fst s2) ! b =
      num_tokens c ! b + (if i \<le> b \<and> b < m then new_tokens cu b else 0)" if "b < batch_size c" for b
    using g1' g2' that b1 i(3) il by (cases "b = i") auto
  have tabs: "\<exists>nw. block_ids (fst s2) ! b = block_ids c ! b @ nw \<and> (b < i \<or> m < b \<longrightarrow> nw = [])"
    if b: "b < batch_size c" for b
  proof -
    obtain nw where nw: "block_ids (fst s2) ! b = block_ids c1 ! b @ nw" "b < Suc i \<or> m < b \<longrightarrow> nw = []"
      using g2' b b1 by auto
    show ?thesis
    proof (cases "b = i")
      case True
      then show ?thesis using nw g1' il i(3) by auto
    next
      case False
      then show ?thesis using nw g1' by auto
    qed
  qed
  have keys: "pkey (snd s2) x = pkey P x" if "x \<in># held c" for x
  proof -
    have "held c1 = held c + mset new"
      using mset_concat_update [OF il(2), of "block_ids c ! i @ new"] g1' by (simp add: held_def)
    then have "x \<in># held c1" using that by simp
    then show ?thesis using g1' g2' that by simp
  qed
  have less: "pkey (snd s2) x = None \<or> pkey (snd s2) x = pkey P x" for x
    using g1' g2' by metis
  show ?thesis unfolding slots_grown_def fst_conv snd_conv
    using g1' g2' b1 nums tabs keys less by simp
qed

text \<open>
  The loop succeeds exactly when the pool can give every missing block; otherwise it stops with
  \<open>OutOfMemoryError\<close> at the first slot it cannot serve. The invariant holds in both cases.
\<close>

lemma reserve_loop:
  assumes "kv_inv digest (c, P) R" "i \<le> batch_size c"
  shows "\<exists>m s'. for_each (reserve_slot cu) [i ..< batch_size c] (c, P) =
      (if total_need (block_size P) cu c i \<le> available P then Inr () else Inl OutOfMemoryError, s') \<and>
    kv_inv digest s' R \<and> i \<le> m \<and> slots_grown cu i m (c, P) s' \<and>
    (if total_need (block_size P) cu c i \<le> available P
     then m = batch_size c \<and> available (snd s') = available P - total_need (block_size P) cu c i
     else m < batch_size c)"
  using assms
proof (induction "batch_size c - i" arbitrary: i c P)
  case 0
  then have "i = batch_size c" by simp
  with 0 show ?case by (intro exI [of _ i] exI [of _ "(c, P)"]) (simp add: total_need_def slots_grown_refl)
next
  case (Suc d)
  then have i: "i < batch_size c" by simp
  let ?n = "need (block_size P) cu c i" and ?T = "total_need (block_size P) cu c"
  obtain c1 P1 new where s1: "reserve_slot cu i (c, P) =
        (if ?n \<le> available P then Inr () else Inl OutOfMemoryError, (c1, P1))"
      "kv_inv digest (c1, P1) R"
      "slot_grown i new (if ?n \<le> available P then new_tokens cu i else 0) (min ?n (available P)) R (c, P) (c1, P1)"
    using reserve_slot_ok [OF Suc.prems(1) i, of cu] by (metis prod.exhaust)
  note g1 = s1(3) [unfolded slot_grown_def fst_conv snd_conv]
  have b1: "batch_size c1 = batch_size c" using g1 by (simp add: batch_size_def)
  have il: "i < length (num_tokens c)" "i < length (block_ids c)"
    using i kv_invD(1) [OF Suc.prems(1)] by (simp_all add: batch_size_def aligned_def)
  have T: "?T i = ?n + ?T (Suc i)" using total_need_step [OF i] .
  show ?case
  proof (cases "?n \<le> available P")
    case False
    have "slots_grown cu i i (c, P) (c1, P1)"
      using g1 False il b1 by (auto simp: slots_grown_def nth_list_update)
    moreover have "for_each (reserve_slot cu) [i ..< batch_size c] (c, P) = (Inl OutOfMemoryError, (c1, P1))"
      using i s1(1) False by (simp add: upt_conv_Cons)
    ultimately show ?thesis using T False i s1(2)
      by (intro exI [of _ i] exI [of _ "(c1, P1)"]) simp
  next
    case True
    have bs1: "block_size P1 = block_size P" using g1 pool_frameD(2) by blast
    have need1: "need (block_size P1) cu c1 b = need (block_size P) cu c b" if "i < b" for b
      using that g1 bs1 by (simp add: need_def)
    have T1: "total_need (block_size P1) cu c1 (Suc i) = ?T (Suc i)"
      unfolding total_need_def b1 by (rule arg_cong [of _ _ sum_list]) (use need1 in auto)
    have av1: "available P1 = available P - ?n" using g1 True by simp
    have dec: "?T (Suc i) \<le> available P1 \<longleftrightarrow> ?T i \<le> available P" using T av1 True by auto
    have "d = batch_size c1 - Suc i" "Suc i \<le> batch_size c1" using Suc.hyps(2) b1 i by auto
    from Suc.hyps(1) [OF this(1) s1(2) this(2)] obtain m s2 where s2:
        "for_each (reserve_slot cu) [Suc i ..< batch_size c] (c1, P1) =
           (if ?T i \<le> available P then Inr () else Inl OutOfMemoryError, s2)"
        "kv_inv digest s2 R" "Suc i \<le> m" "slots_grown cu (Suc i) m (c1, P1) s2"
        "if ?T i \<le> available P then m = batch_size c \<and> available (snd s2) = available P1 - ?T (Suc i)
         else m < batch_size c"
      unfolding T1 dec b1 by blast
    have eq: "for_each (reserve_slot cu) [i ..< batch_size c] (c, P) =
        (if ?T i \<le> available P then Inr () else Inl OutOfMemoryError, s2)"
      using i s1(1) True s2(1) by (simp add: upt_conv_Cons)
    have "slots_grown cu i m (c, P) s2"
      by (rule slots_grown_step [OF s1(3) [unfolded if_P [OF True]] s2(4) i kv_invD(1) [OF Suc.prems(1)] s2(3)])
    then show ?thesis using eq s2 T av1 by (intro exI [of _ m] exI [of _ s2]) auto
  qed
qed

end
