(* ===== verification/Paged_Publish.thy ===== *)
theory Paged_Publish
  imports Paged_Accounting
begin

text \<open>
  Publishing the prompt blocks that a step filled (\<open>_publish_filled_blocks\<close>), joining two caches and
  giving all blocks back. The loop over the blocks keeps the invariant of a slot that has \<open>i\<close>
  published blocks; an exception leaves the accounting of the pool intact.
\<close>

section \<open>One block\<close>

lemma hash_blocks_snoc:
  assumes "hash_blocks digest p blocks = Inr chain"
    and "hash_block digest (parent_at p chain (length chain)) tokens = Inr h"
  shows "hash_blocks digest p (blocks @ [tokens]) = Inr (chain @ [(h, tokens)])"
  using assms
proof (induction digest p blocks arbitrary: chain rule: hash_blocks.induct)
  case (1 digest parent)
  then show ?case by (simp add: parent_at_def)
next
  case (2 digest parent t rest)
  then obtain h0 c where c: "hash_block digest parent t = Inr h0"
      "hash_blocks digest (Some h0) rest = Inr c" "chain = (h0, t) # c"
    by (auto split: sum.splits)
  have "parent_at (Some h0) c (length c) = parent_at parent chain (length chain)"
    by (cases c rule: rev_cases) (simp_all add: parent_at_def c(3) nth_append)
  with 2 c show ?case by simp
qed

lemma pool_publish_new:
  assumes inv: "pool_inv P R" and pc: "pool_prefix_cache P = Some pc"
    and b: "b \<in># R" "pkey P b = None" and h: "entries pc h = None"
  shows "\<exists>pc'. publish h tokens b pc = (Inr (b, False), pc') \<and>
    pool_inv (P\<lparr>pool_prefix_cache := Some pc'\<rparr>) R \<and>
    pkey (P\<lparr>pool_prefix_cache := Some pc'\<rparr>) = (pkey P)(b := Some (h, tokens))"
proof -
  note pinv = pool_inv_pcE [OF inv pc]
  have nb: "\<not> pcached P b" "\<not> is_cached pc b" using pkey_None [OF inv] b(2) pc by (auto simp: pcached_def)
  note held = held_not_free [OF inv b(1)]
  have one: "count R b = 1" using pool_invD(6) [OF inv nb(1)] held by simp
  from publish_new_ok [OF pinv(1) h nb(2), of tokens] obtain pc' where pc':
      "publish h tokens b pc = (Inr (b, False), pc')" "pc_inv pc'" "is_cached pc' = (is_cached pc)(b := True)"
      "key_of pc' = (key_of pc)(b := Some (h, tokens))" "refs_of pc' = (refs_of pc)(b := 1)"
      "pc_block_size pc' = pc_block_size pc"
    by blast
  let ?P' = "P\<lparr>pool_prefix_cache := Some pc'\<rparr>"
  have v: "pcached ?P' = (pcached P)(b := True)" "prefs ?P' = (prefs P)(b := 1)" "cache_ok ?P'"
      "pkey ?P' = (pkey P)(b := Some (h, tokens))"
    using pc pc' pinv by (auto simp: pcached_def pkey_def prefs_def cache_ok_def fun_eq_iff)
  have "pool_inv ?P' R"
  proof (rule pool_invI)
    show "0 < block_size ?P'" "cache_ok ?P'" "distinct (free_list ?P')"
      using pool_invD(1,3) [OF inv] v(3) by auto
  next
    fix x assume "x \<in> set (free_list ?P')"
    then show "x < num_blocks ?P' \<and> \<not> pcached ?P' x"
      using pool_invD(4) [OF inv, of x] held v(1) by auto
  next
    fix x assume "pcached ?P' x"
    then show "x < num_blocks ?P' \<and> prefs ?P' x = count R x"
      using pool_invD(5) [OF inv, of x] v(1,2) one held by (auto split: if_splits)
  next
    fix x assume "\<not> pcached ?P' x"
    then show "count R x = (if x < num_blocks ?P' \<and> x \<notin> set (free_list ?P') then 1 else 0)"
      using pool_invD(6) [OF inv, of x] v(1) by (auto split: if_splits)
  qed
  with pc'(1) v(4) show ?thesis by blast
qed

lemma pool_publish_dup:
  assumes inv: "pool_inv P R" and pc: "pool_prefix_cache P = Some pc"
    and h: "entries pc h = Some e" "ce_tokens e = tokens"
  shows "\<exists>pc'. publish h tokens b pc = (Inr (ce_block_id e, True), pc') \<and>
    pool_inv (P\<lparr>pool_prefix_cache := Some pc'\<rparr>) (add_mset (ce_block_id e) R) \<and>
    pkey (P\<lparr>pool_prefix_cache := Some pc'\<rparr>) = pkey P \<and> pkey P (ce_block_id e) = Some (h, tokens)"
proof -
  note pinv = pool_inv_pcE [OF inv pc]
  let ?k = "ce_block_id e"
  from publish_dup_ok [OF pinv(1) h, of b] obtain pc' where pc':
      "publish h tokens b pc = (Inr (?k, True), pc')" "pc_inv pc'" "is_cached pc ?k"
      "is_cached pc' = is_cached pc" "key_of pc' = key_of pc" "key_of pc ?k = Some (h, tokens)"
      "refs_of pc' = (refs_of pc)(?k := refs_of pc ?k + 1)" "pc_block_size pc' = pc_block_size pc"
    by blast
  let ?P' = "P\<lparr>pool_prefix_cache := Some pc'\<rparr>"
  have v: "pcached ?P' = pcached P" "prefs ?P' = (prefs P)(?k := prefs P ?k + 1)" "cache_ok ?P'"
      "pkey ?P' = pkey P" "pcached P ?k" "pkey P ?k = Some (h, tokens)"
    using pc pc' pinv by (auto simp: pcached_def pkey_def prefs_def cache_ok_def fun_eq_iff)
  have "pool_inv ?P' (add_mset ?k R)"
  proof (rule pool_invI)
    show "0 < block_size ?P'" "cache_ok ?P'" "distinct (free_list ?P')"
      using pool_invD(1,3) [OF inv] v(3) by auto
  next
    fix x assume "x \<in> set (free_list ?P')"
    then show "x < num_blocks ?P' \<and> \<not> pcached ?P' x" using pool_invD(4) [OF inv, of x] v(1) by simp
  next
    fix x assume "pcached ?P' x"
    then show "x < num_blocks ?P' \<and> prefs ?P' x = count (add_mset ?k R) x"
      using pool_invD(5) [OF inv, of x] v(1,2) by auto
  next
    fix x assume "\<not> pcached ?P' x"
    then show "count (add_mset ?k R) x = (if x < num_blocks ?P' \<and> x \<notin> set (free_list ?P') then 1 else 0)"
      using pool_invD(6) [OF inv, of x] v(1,5) by auto
  qed
  with pc'(1) v show ?thesis by blast
qed

text \<open>A cache whose slot \<open>b\<close> counts \<open>i\<close> published blocks, the last with hash \<open>parent\<close>.\<close>

definition with_pub :: "nat \<Rightarrow> nat \<Rightarrow> byte list option \<Rightarrow> 'v kvcache \<Rightarrow> 'v kvcache" where
  "with_pub b i parent c =
     c\<lparr>slot_num_published := (slot_num_published c)[b := i],
       slot_parent_hash := (slot_parent_hash c)[b := parent]\<rparr>"

lemma with_pub_sel [simp]:
  "block_ids (with_pub b i parent c) = block_ids c" "num_tokens (with_pub b i parent c) = num_tokens c"
  "slot_prompt_tokens (with_pub b i parent c) = slot_prompt_tokens c"
  "batch_size (with_pub b i parent c) = batch_size c" "held (with_pub b i parent c) = held c"
  "slot_num_published (with_pub b i parent c) = (slot_num_published c)[b := i]"
  "slot_parent_hash (with_pub b i parent c) = (slot_parent_hash c)[b := parent]"
  by (simp_all add: with_pub_def batch_size_def held_def)

lemma with_pub_slot:
  assumes "kv_inv digest (with_pub b i parent c, P) R" "b < batch_size c"
  shows "slot_ok digest P (block_ids c ! b) (num_tokens c ! b) (slot_prompt_tokens c ! b) i parent"
    "b < length (block_ids c)" "b < length (slot_num_published c)" "b < length (slot_parent_hash c)"
  using kv_invD(1) [OF assms(1)] kv_invD(3) [OF assms(1), of b] assms(2)
  by (auto simp: slot_at_def aligned_def)

lemma with_pub_same:
  assumes "kv_inv digest (c, P) R"
  shows "kv_inv digest (with_pub b (slot_num_published c ! b) (slot_parent_hash c ! b) c, P) R"
  by (rule kv_inv_cong [OF assms]) simp_all

text \<open>The block tokens of a prompt.\<close>

definition prompt_block :: "nat \<Rightarrow> token list \<Rightarrow> nat \<Rightarrow> token list" where
  "prompt_block bs prompt i = take bs (drop (i * bs) prompt)"

lemma take_Suc_full_blocks:
  "i < length prompt div bs \<Longrightarrow>
     take (Suc i) (full_blocks bs prompt) = take i (full_blocks bs prompt) @ [prompt_block bs prompt i]"
  by (simp add: take_Suc_conv_app_nth length_full_blocks nth_full_blocks prompt_block_def)

lemma slot_ok_publish:
  assumes ok: "slot_ok digest P ids n prompt i parent" and bs: "0 < block_size P"
    and i: "i < n div block_size P" "i < length prompt div block_size P"
    and h: "hash_block digest parent (prompt_block (block_size P) prompt i) = Inr h"
    and k: "pkey P' k = Some (h, prompt_block (block_size P) prompt i)" "block_size P' = block_size P"
    and others: "\<forall>j < length ids. j \<noteq> i \<longrightarrow> pkey P' (ids ! j) = pkey P (ids ! j)"
  shows "slot_ok digest P' (ids[i := k]) n prompt (Suc i) (Some h)"
proof -
  obtain chain where chain: "hash_blocks digest None (take i (full_blocks (block_size P) prompt)) = Inr chain"
      "\<forall>j < i. pkey P (ids ! j) = Some (chain ! j)" "parent = parent_at None chain i"
    using ok unfolding slot_ok_def by blast
  have len: "length chain = i"
    using hash_blocks_length [OF chain(1)] i(2) by (simp add: length_full_blocks)
  have il: "i < length ids"
  proof -
    have "i * block_size P + block_size P \<le> n" using i(1) by (rule block_end_le)
    also have "n \<le> length ids * block_size P" using ok by (simp add: slot_ok_def)
    finally have "Suc i * block_size P \<le> length ids * block_size P" by simp
    then have "Suc i \<le> length ids" using bs by (simp only: mult_le_cancel2)
    then show ?thesis by simp
  qed
  show ?thesis unfolding slot_ok_def k(2)
  proof (intro conjI exI [of _ "chain @ [(h, prompt_block (block_size P) prompt i)]"])
    show "hash_blocks digest None (take (Suc i) (full_blocks (block_size P) prompt)) =
        Inr (chain @ [(h, prompt_block (block_size P) prompt i)])"
      unfolding take_Suc_full_blocks [OF i(2)]
      by (rule hash_blocks_snoc [OF chain(1)]) (use h chain(3) len in simp)
    show "\<forall>j < Suc i. pkey P' (ids[i := k] ! j) = Some ((chain @ [(h, prompt_block (block_size P) prompt i)]) ! j)"
      using chain(2) k(1) others il len by (auto simp: nth_append less_Suc_eq)
    show "Some h = parent_at None (chain @ [(h, prompt_block (block_size P) prompt i)]) (Suc i)"
      using len by (simp add: parent_at_def nth_append)
    show "\<forall>j. Suc i \<le> j \<and> j < length (ids[i := k]) \<longrightarrow> pkey P' (ids[i := k] ! j) = None"
      using ok others by (auto simp: slot_ok_def)
    show "n \<le> length (ids[i := k]) * block_size P" using ok by (simp add: slot_ok_def)
    show "Suc i * block_size P \<le> n" using block_end_le [OF i(1)] by simp
    show "Suc i \<le> length prompt div block_size P" using i(2) by simp
  qed
qed

text \<open>A private block is held once: it is in no other slot and at no other place of its slot.\<close>

lemma private_elsewhere:
  assumes inv: "pool_inv P (held c + R)" and b: "b < length (block_ids c)" "i < length (block_ids c ! b)"
    and priv: "pkey P (block_ids c ! b ! i) = None"
  shows "b' < length (block_ids c) \<Longrightarrow> b' \<noteq> b \<Longrightarrow> block_ids c ! b ! i \<notin> set (block_ids c ! b')"
    and "j < length (block_ids c ! b) \<Longrightarrow> j \<noteq> i \<Longrightarrow> block_ids c ! b ! j \<noteq> block_ids c ! b ! i"
proof -
  let ?x = "block_ids c ! b ! i" and ?ids = "block_ids c ! b"
  obtain rest where rest: "held c = mset ?ids + rest"
      "\<And>b'. b' < length (block_ids c) \<Longrightarrow> b' \<noteq> b \<Longrightarrow> set (block_ids c ! b') \<subseteq> set_mset rest"
    using held_slot [OF b(1)] by metis
  have "count (held c + R) ?x \<le> 1" by (rule bp.unshared_once [OF inv priv])
  moreover have "0 < count (mset ?ids) ?x" using b(2) by (intro count_mset_gt_0) simp
  ultimately have one: "count (mset ?ids) ?x = 1" "count rest ?x = 0"
    unfolding rest(1) count_union by linarith+
  show "b' < length (block_ids c) \<Longrightarrow> b' \<noteq> b \<Longrightarrow> ?x \<notin> set (block_ids c ! b')"
    using rest(2) one(2) by (metis count_eq_zero_iff subset_iff)
  show "?ids ! j \<noteq> ?x" if "j < length ?ids" "j \<noteq> i"
  proof
    assume eq: "?ids ! j = ?x"
    have "card {m. m < length ?ids \<and> ?x = ?ids ! m} = 1"
      using one(1) by (simp add: count_mset count_list_eq_length_filter length_filter_conv_card)
    moreover have "{i, j} \<subseteq> {m. m < length ?ids \<and> ?x = ?ids ! m}" using eq that b(2) by auto
    moreover have "finite {m. m < length ?ids \<and> ?x = ?ids ! m}" by simp
    ultimately have "card {i, j} \<le> 1" by (metis card_mono)
    then show False using that(2) by simp
  qed
qed

section \<open>The loop over the blocks of a slot\<close>

lemma publish_blocks_new:
  assumes "pool_prefix_cache P = Some pc"
    and "hash_block digest parent (prompt_block (block_size P) (slot_prompt_tokens c ! b) i) = Inr h"
    and "publish h (prompt_block (block_size P) (slot_prompt_tokens c ! b) i) (block_ids c ! b ! i) pc =
      (Inr (canonical, False), pc')"
  shows "publish_blocks digest b (i # rest) parent (c, P) =
    publish_blocks digest b rest (Some h) (c, P\<lparr>pool_prefix_cache := Some pc'\<rparr>)"
  using assms by (simp add: prompt_block_def Let_def)

lemma publish_blocks_dup:
  assumes "pool_prefix_cache P = Some pc"
    and "hash_block digest parent (prompt_block (block_size P) (slot_prompt_tokens c ! b) i) = Inr h"
    and "publish h (prompt_block (block_size P) (slot_prompt_tokens c ! b) i) (block_ids c ! b ! i) pc =
      (Inr (canonical, True), pc')"
    and "free (block_ids c ! b ! i) (P\<lparr>pool_prefix_cache := Some pc'\<rparr>) = (Inr (), P')"
  shows "publish_blocks digest b (i # rest) parent (c, P) =
    publish_blocks digest b rest (Some h)
      ((layout_changed c)\<lparr>block_ids := (block_ids c)[b := (block_ids c ! b)[i := canonical]]\<rparr>, P')"
  using assms by (simp add: prompt_block_def Let_def)

text \<open>What one turn of the loop leaves.\<close>

definition block_published :: "nat \<Rightarrow> nat \<Rightarrow> byte list \<Rightarrow> 'v kvs \<Rightarrow> 'v kvs \<Rightarrow> bool" where
  "block_published b i h s s' \<longleftrightarrow>
     num_tokens (fst s') = num_tokens (fst s) \<and>
     slot_prompt_tokens (fst s') = slot_prompt_tokens (fst s) \<and>
     slot_num_published (fst s') = slot_num_published (fst s) \<and>
     slot_parent_hash (fst s') = slot_parent_hash (fst s) \<and>
     (\<exists>k. block_ids (fst s') = (block_ids (fst s))[b := (block_ids (fst s) ! b)[i := k]] \<and>
        (k = block_ids (fst s) ! b ! i \<and> pkey (snd s') = (pkey (snd s))
            (k := Some (h, prompt_block (block_size (snd s)) (slot_prompt_tokens (fst s) ! b) i)) \<or>
         pkey (snd s') = pkey (snd s) \<and>
         pkey (snd s) k = Some (h, prompt_block (block_size (snd s)) (slot_prompt_tokens (fst s) ! b) i))) \<and>
     pool_frame (snd s') = pool_frame (snd s)"

lemma block_published_inv:
  assumes inv: "kv_inv digest (with_pub b i parent c, P) R" and b: "b < batch_size c"
    and i: "i < publish_target (block_size P) b c"
    and h: "hash_block digest parent (prompt_block (block_size P) (slot_prompt_tokens c ! b) i) = Inr h"
    and s: "block_published b i h (c, P) (c', P')" and pinv: "pool_inv P' (held c' + R)"
  shows "kv_inv digest (with_pub b (Suc i) (Some h) c', P') R"
proof -
  note sl = with_pub_slot [OF inv b] and bs = kv_invD(4) [OF inv]
  note s' = s [unfolded block_published_def fst_conv snd_conv]
  let ?ids = "block_ids c ! b" and ?t = "prompt_block (block_size P) (slot_prompt_tokens c ! b) i"
  obtain k where k: "block_ids c' = (block_ids c)[b := ?ids[i := k]]" "pkey P' k = Some (h, ?t)"
      "\<And>x. x \<noteq> ?ids ! i \<Longrightarrow> pkey P' x = pkey P x"
    using s' by (metis fun_upd_apply)
  have bs': "block_size P' = block_size P" using s' pool_frameD(2) by blast
  have i': "i < num_tokens c ! b div block_size P" "i < length (slot_prompt_tokens c ! b) div block_size P"
    using i by (simp_all add: publish_target_def)
  have "i * block_size P < num_tokens c ! b" using block_end_le [OF i'(1)] bs by linarith
  also have "\<dots> \<le> length ?ids * block_size P" using sl(1) by (simp add: slot_ok_def)
  finally have il: "i < length ?ids" using bs by simp
  have priv: "pkey P (?ids ! i) = None" using sl(1) il by (simp add: slot_ok_def)
  note elsewhere = private_elsewhere [OF kv_invD(2) [OF inv], of b i, simplified, OF sl(2) il priv]
  have slot: "slot_ok digest P' (?ids[i := k]) (num_tokens c ! b) (slot_prompt_tokens c ! b) (Suc i) (Some h)"
    by (rule slot_ok_publish [OF sl(1) bs i' h k(2) bs']) (use k(3) elsewhere(2) in auto)
  have len: "length (block_ids c) = batch_size c"
    using kv_invD(1) [OF inv] by (simp add: aligned_def)
  show ?thesis
  proof (rule kv_inv_slot_update [OF inv, of b])
    show "pkey P' x = pkey P x" if "b' < batch_size (with_pub b i parent c)" "b' \<noteq> b"
        "x \<in> set (block_ids (with_pub b i parent c) ! b')" for b' x
    proof (rule k(3))
      show "x \<noteq> ?ids ! i" using elsewhere(1) [of b'] that len by auto
    qed
    show "num_tokens (with_pub b (Suc i) (Some h) c') = (num_tokens (with_pub b i parent c))[b := num_tokens c ! b]"
      using s' by simp
  qed (use s' k(1) b slot bs' pinv in \<open>simp_all add: held_def\<close>)
qed

lemma publish_block_ok:
  assumes inv: "kv_inv digest (with_pub b i parent c, P) R" and b: "b < batch_size c"
    and pc: "pool_prefix_cache P = Some pc" and i: "i < publish_target (block_size P) b c"
    and h: "hash_block digest parent (prompt_block (block_size P) (slot_prompt_tokens c ! b) i) = Inr h"
    and free_of_collision: "\<And>e. entries pc h = Some e \<Longrightarrow>
      ce_tokens e = prompt_block (block_size P) (slot_prompt_tokens c ! b) i"
  shows "\<exists>s'. (\<forall>rest. publish_blocks digest b (i # rest) parent (c, P) =
      publish_blocks digest b rest (Some h) s') \<and>
    block_published b i h (c, P) s' \<and> kv_inv digest (with_pub b (Suc i) (Some h) (fst s'), snd s') R"
proof -
  note sl = with_pub_slot [OF inv b] and bs = kv_invD(4) [OF inv]
  let ?ids = "block_ids c ! b" and ?t = "prompt_block (block_size P) (slot_prompt_tokens c ! b) i"
  let ?x = "?ids ! i"
  have i': "i < num_tokens c ! b div block_size P" using i by (simp add: publish_target_def)
  have "i * block_size P < num_tokens c ! b" using block_end_le [OF i'] bs by linarith
  also have "\<dots> \<le> length ?ids * block_size P" using sl(1) by (simp add: slot_ok_def)
  finally have il: "i < length ?ids" using bs by simp
  have priv: "pkey P ?x = None" using sl(1) il by (simp add: slot_ok_def)
  have pinv: "pool_inv P (held c + R)" using kv_invD(2) [OF inv] by simp
  have xh: "?x \<in># held c" using held_memI [OF sl(2)] il by simp
  have frame: "pool_frame (P\<lparr>pool_prefix_cache := Some pc'\<rparr>) = pool_frame P" for pc'
    using pc by simp
  show ?thesis
  proof (cases "entries pc h")
    case None
    have "?x \<in># held c + R" using xh by simp
    from pool_publish_new [OF pinv pc this priv None, of ?t] obtain pc' where pc':
        "publish h ?t ?x pc = (Inr (?x, False), pc')"
        "pool_inv (P\<lparr>pool_prefix_cache := Some pc'\<rparr>) (held c + R)"
        "pkey (P\<lparr>pool_prefix_cache := Some pc'\<rparr>) = (pkey P)(?x := Some (h, ?t))"
      by blast
    let ?s = "(c, P\<lparr>pool_prefix_cache := Some pc'\<rparr>)"
    have bp: "block_published b i h (c, P) ?s"
      using pc'(3) frame by (simp add: block_published_def exI [of _ ?x])
    show ?thesis
      using publish_blocks_new [OF pc h pc'(1)] bp block_published_inv [OF inv b i h bp pc'(2)]
      by (intro exI [of _ ?s]) simp
  next
    case (Some e)
    let ?k = "ce_block_id e"
    from pool_publish_dup [OF pinv pc Some free_of_collision [OF Some], of ?x] obtain pc' where pc':
        "publish h ?t ?x pc = (Inr (?k, True), pc')"
        "pool_inv (P\<lparr>pool_prefix_cache := Some pc'\<rparr>) (add_mset ?k (held c + R))"
        "pkey (P\<lparr>pool_prefix_cache := Some pc'\<rparr>) = pkey P" "pkey P ?k = Some (h, ?t)"
      by blast
    from free_ok [OF pc'(2), of ?x] xh obtain P' where P':
        "free ?x (P\<lparr>pool_prefix_cache := Some pc'\<rparr>) = (Inr (), P')"
        "pool_inv P' (add_mset ?k (held c + R) - {#?x#})" "pkey P' = pkey P" "pool_frame P' = pool_frame P"
      unfolding pc'(3) frame by auto
    let ?c = "(layout_changed c)\<lparr>block_ids := (block_ids c)[b := ?ids[i := ?k]]\<rparr>"
    have bp: "block_published b i h (c, P) (?c, P')"
      using P'(3,4) pc'(4) by (auto simp: block_published_def)
    have "held ?c + {#?x#} = held c + {#?k#}"
    proof -
      have "mset (?ids[i := ?k]) = add_mset ?k (mset ?ids - {#?x#})" using il by (rule mset_update)
      moreover have "?x \<in># mset ?ids" using il by simp
      ultimately have "mset (?ids[i := ?k]) + {#?x#} = mset ?ids + {#?k#}" by simp
      then have "held ?c + (mset ?ids + {#?x#}) = held c + (mset ?ids + {#?k#})"
        using mset_concat_update [OF sl(2), of "?ids[i := ?k]"] by (simp add: held_def ac_simps)
      then show ?thesis by (simp add: ac_simps)
    qed
    then have "add_mset ?k (held c + R) - {#?x#} = held ?c + R"
    proof -
      have "add_mset ?k (held c + R) = held c + {#?k#} + R" by (simp add: ac_simps)
      also have "\<dots> = add_mset ?x (held ?c + R)"
        unfolding \<open>held ?c + {#?x#} = held c + {#?k#}\<close> [symmetric] by (simp add: ac_simps)
      finally show ?thesis by (simp only: add_mset_remove_trivial)
    qed
    then have "kv_inv digest (with_pub b (Suc i) (Some h) ?c, P') R"
      using block_published_inv [OF inv b i h bp] P'(2) by simp
    with publish_blocks_dup [OF pc h pc'(1) P'(1)] bp show ?thesis
      by (intro exI [of _ "(?c, P')"]) simp
  qed
qed

text \<open>
  A slot can publish when no hash of its chain is stored under other tokens. \<open>K\<close> holds the pairs of
  a hash and a token block that the slots may publish; it assigns one token block to a hash.
\<close>

definition compatible :: "'v pool \<Rightarrow> (byte list \<times> token list) set \<Rightarrow> bool" where
  "compatible P K \<longleftrightarrow> single_valued K \<and>
     (\<forall>b h t t'. pkey P b = Some (h, t') \<longrightarrow> (h, t) \<in> K \<longrightarrow> t' = t)"

text \<open>The chain of a slot's prompt is computed and lies in \<open>K\<close>.\<close>

definition chained :: "digest \<Rightarrow> nat \<Rightarrow> (byte list \<times> token list) set \<Rightarrow> token list \<Rightarrow> chain \<Rightarrow> bool" where
  "chained digest bs K prompt chain \<longleftrightarrow>
     compute_block_hashes digest prompt bs = Inr chain \<and> set chain \<subseteq> K"

lemma chained_nth:
  assumes "chained digest bs K prompt chain" "i < length prompt div bs"
  shows "i < length chain" "snd (chain ! i) = prompt_block bs prompt i" "chain ! i \<in> K"
    "hash_block digest (parent_at None chain i) (prompt_block bs prompt i) = Inr (fst (chain ! i))"
proof -
  have hb: "hash_blocks digest None (full_blocks bs prompt) = Inr chain"
    using assms(1) by (simp add: chained_def compute_block_hashes_def)
  show l: "i < length chain" using hash_blocks_length [OF hb] assms(2) by (simp add: length_full_blocks)
  have "map snd chain ! i = full_blocks bs prompt ! i" using hash_blocks_spec [OF hb] by simp
  then show "snd (chain ! i) = prompt_block bs prompt i"
    using l assms(2) by (simp add: nth_full_blocks prompt_block_def)
  show "chain ! i \<in> K" using assms(1) l by (auto simp: chained_def)
  have "hash_block digest (parent_at None chain i) (full_blocks bs prompt ! i) = Inr (fst (chain ! i))"
    using hash_blocks_spec [OF hb] l by blast
  then show "hash_block digest (parent_at None chain i) (prompt_block bs prompt i) = Inr (fst (chain ! i))"
    using assms(2) by (simp add: nth_full_blocks prompt_block_def)
qed

lemma compatible_published:
  assumes "compatible (snd s) K" "block_published b i h s s'"
    and "(h, prompt_block (block_size (snd s)) (slot_prompt_tokens (fst s) ! b) i) \<in> K"
  shows "compatible (snd s') K"
proof -
  let ?t = "prompt_block (block_size (snd s)) (slot_prompt_tokens (fst s) ! b) i"
  have keys: "pkey (snd s') x = pkey (snd s) x \<or> pkey (snd s') x = Some (h, ?t)" for x
    using assms(2) by (auto simp: block_published_def)
  have sv: "single_valued K" using assms(1) by (simp add: compatible_def)
  have "t' = t" if "pkey (snd s') x = Some (g, t')" "(g, t) \<in> K" for x g t t'
  proof (cases "pkey (snd s') x = pkey (snd s) x")
    case True
    then have "pkey (snd s) x = Some (g, t')" using that(1) by simp
    then show ?thesis using assms(1) that(2) unfolding compatible_def by blast
  next
    case False
    then have "g = h" "t' = ?t" using keys [of x] that(1) by auto
    then show ?thesis using sv that(2) assms(3) by (auto dest: single_valuedD)
  qed
  then show ?thesis using sv by (auto simp: compatible_def)
qed

text \<open>The data of the slots that publishing does not touch.\<close>

definition same_slots :: "'v kvs \<Rightarrow> 'v kvs \<Rightarrow> bool" where
  "same_slots s s' \<longleftrightarrow>
     num_tokens (fst s') = num_tokens (fst s) \<and> slot_prompt_tokens (fst s') = slot_prompt_tokens (fst s) \<and>
     map length (block_ids (fst s')) = map length (block_ids (fst s)) \<and>
     pool_frame (snd s') = pool_frame (snd s)"

lemma same_slots_refl: "same_slots s s"
  and same_slots_trans: "same_slots s s' \<Longrightarrow> same_slots s' s'' \<Longrightarrow> same_slots s s''"
  by (simp_all add: same_slots_def)

lemma block_published_same: "block_published b i h s s' \<Longrightarrow> same_slots s s'"
proof -
  have "map length (xs[b := ys]) = map length xs" if "length ys = length (xs ! b)" for xs :: "nat list list" and ys
    using that by (cases "b < length xs") (auto simp: map_update list_update_same_conv list_update_beyond)
  then show "block_published b i h s s' \<Longrightarrow> same_slots s s'"
    by (auto simp: block_published_def same_slots_def)
qed

text \<open>
  The loop publishes every block up to the target. \<open>I\<close> is any property of the state that one
  turn of the loop carries on.
\<close>

lemma publish_loop:
  assumes "kv_inv digest (with_pub b i (parent_at None chain i) c, P) R" "b < batch_size c"
    and "pool_prefix_cache P \<noteq> None" "chained digest (block_size P) K (slot_prompt_tokens c ! b) chain"
    and "compatible P K" "i \<le> publish_target (block_size P) b c" "I i (c, P)"
    and step: "\<And>j s s'. I j s \<Longrightarrow> same_slots (c, P) s \<Longrightarrow> j < publish_target (block_size P) b c \<Longrightarrow>
      kv_inv digest (with_pub b j (parent_at None chain j) (fst s), snd s) R \<Longrightarrow>
      block_published b j (fst (chain ! j)) s s' \<Longrightarrow> I (Suc j) s'"
  shows "\<exists>s'. publish_blocks digest b [i ..< publish_target (block_size P) b c] (parent_at None chain i) (c, P) =
      (Inr (parent_at None chain (publish_target (block_size P) b c)), s') \<and>
    kv_inv digest (with_pub b (publish_target (block_size P) b c)
      (parent_at None chain (publish_target (block_size P) b c)) (fst s'), snd s') R \<and>
    I (publish_target (block_size P) b c) s' \<and> compatible (snd s') K \<and> same_slots (c, P) s' \<and>
    slot_num_published (fst s') = slot_num_published c \<and> slot_parent_hash (fst s') = slot_parent_hash c"
  using assms
proof (induction "publish_target (block_size P) b c - i" arbitrary: i c P)
  case 0
  then have "i = publish_target (block_size P) b c" by simp
  with 0 same_slots_refl show ?case by (intro exI [of _ "(c, P)"]) simp
next
  case (Suc d)
  let ?T = "publish_target (block_size P) b c"
  have i: "i < ?T" using Suc.hyps(2) by simp
  then have i': "i < length (slot_prompt_tokens c ! b) div block_size P" by (simp add: publish_target_def)
  note ch = chained_nth [OF Suc.prems(4) i']
  obtain pc where pc: "pool_prefix_cache P = Some pc" using Suc.prems(3) by blast
  have pinv: "pc_inv pc" using kv_invD(5) [OF Suc.prems(1)] pc by (simp add: cache_ok_def)
  have coll: "ce_tokens e = prompt_block (block_size P) (slot_prompt_tokens c ! b) i"
    if "entries pc (fst (chain ! i)) = Some e" for e
  proof -
    have "pkey P (ce_block_id e) = Some (fst (chain ! i), ce_tokens e)"
      using key_of_entry [OF pinv that] pc by (simp add: pkey_def)
    then show ?thesis using Suc.prems(5) ch(2,3) unfolding compatible_def by (metis prod.collapse)
  qed
  from publish_block_ok [OF Suc.prems(1,2) pc i ch(4) coll] obtain c1 P1 where s1:
      "\<forall>rest. publish_blocks digest b (i # rest) (parent_at None chain i) (c, P) =
        publish_blocks digest b rest (Some (fst (chain ! i))) (c1, P1)"
      "block_published b i (fst (chain ! i)) (c, P) (c1, P1)"
      "kv_inv digest (with_pub b (Suc i) (Some (fst (chain ! i))) c1, P1) R"
    by force
  have p1: "Some (fst (chain ! i)) = parent_at None chain (Suc i)" by (simp add: parent_at_def)
  have ss: "same_slots (c, P) (c1, P1)" using block_published_same [OF s1(2)] .
  have bs: "block_size P1 = block_size P" using ss pool_frameD(2) by (auto simp: same_slots_def)
  have T1: "publish_target (block_size P1) b c1 = ?T"
    using ss bs by (simp add: publish_target_def same_slots_def)
  have prem: "d = publish_target (block_size P1) b c1 - Suc i"
      "kv_inv digest (with_pub b (Suc i) (parent_at None chain (Suc i)) c1, P1) R"
      "b < batch_size c1" "pool_prefix_cache P1 \<noteq> None"
      "chained digest (block_size P1) K (slot_prompt_tokens c1 ! b) chain"
      "compatible P1 K" "Suc i \<le> publish_target (block_size P1) b c1" "I (Suc i) (c1, P1)"
    subgoal using Suc.hyps(2) T1 by simp
    subgoal using s1(3) p1 by simp
    subgoal using Suc.prems(2) ss by (simp add: same_slots_def batch_size_def)
    subgoal using Suc.prems(3) ss pool_frameD(10) [of P1 P] by (simp add: same_slots_def)
    subgoal using Suc.prems(4) ss bs by (simp add: same_slots_def)
    subgoal
      using compatible_published [OF _ s1(2), of K] Suc.prems(5) ch(2,3) by (metis fst_conv prod.collapse snd_conv)
    subgoal using i T1 by simp
    subgoal using Suc.prems(8) [OF Suc.prems(7) same_slots_refl i _ s1(2)] Suc.prems(1) by simp
    done
  have step: "I (Suc j) s'" if "I j s" "same_slots (c1, P1) s" "j < publish_target (block_size P1) b c1"
      "kv_inv digest (with_pub b j (parent_at None chain j) (fst s), snd s) R"
      "block_published b j (fst (chain ! j)) s s'" for j s s'
    using Suc.prems(8) [OF that(1) same_slots_trans [OF ss that(2)] _ that(4,5)] that(3) T1 by simp
  have "\<exists>s2. publish_blocks digest b [Suc i ..< ?T] (parent_at None chain (Suc i)) (c1, P1) =
      (Inr (parent_at None chain ?T), s2) \<and>
    kv_inv digest (with_pub b ?T (parent_at None chain ?T) (fst s2), snd s2) R \<and>
    I ?T s2 \<and> compatible (snd s2) K \<and> same_slots (c1, P1) s2 \<and>
    slot_num_published (fst s2) = slot_num_published c1 \<and> slot_parent_hash (fst s2) = slot_parent_hash c1"
    unfolding T1 [symmetric] by (rule Suc.hyps(1) [OF prem]) (rule step)
  then obtain s2 where
    "publish_blocks digest b [Suc i ..< ?T] (parent_at None chain (Suc i)) (c1, P1) =
      (Inr (parent_at None chain ?T), s2)"
    "kv_inv digest (with_pub b ?T (parent_at None chain ?T) (fst s2), snd s2) R"
    "I ?T s2" "compatible (snd s2) K" "same_slots (c1, P1) s2"
    "slot_num_published (fst s2) = slot_num_published c1" "slot_parent_hash (fst s2) = slot_parent_hash c1"
    by blast
  then show ?case using s1(1) s1(2) p1 i same_slots_trans [OF ss]
    by (intro exI [of _ s2]) (simp add: upt_conv_Cons block_published_def)
qed

section \<open>Slots\<close>

lemma with_pub_twice [simp]: "with_pub b i p (with_pub b j q c) = with_pub b i p c"
  by (simp add: with_pub_def)

lemma published_le_target:
  assumes "kv_inv digest (c, P) R" "b < batch_size c"
  shows "slot_num_published c ! b \<le> publish_target (block_size P) b c"
proof -
  have "slot_num_published c ! b * block_size P \<le> num_tokens c ! b"
    "slot_num_published c ! b \<le> length (slot_prompt_tokens c ! b) div block_size P"
    using kv_invD(3) [OF assms] by (simp_all add: slot_at_def slot_ok_def)
  then show ?thesis using kv_invD(4) [OF assms(1)]
    by (simp add: publish_target_def less_eq_div_iff_mult_less_eq)
qed

lemma published_parent:
  assumes "kv_inv digest (c, P) R" "b < batch_size c"
    and "chained digest (block_size P) K (slot_prompt_tokens c ! b) chain"
  shows "slot_parent_hash c ! b = parent_at None chain (slot_num_published c ! b)"
proof -
  let ?n = "slot_num_published c ! b"
  obtain chain' where c': "hash_blocks digest None
        (take ?n (full_blocks (block_size P) (slot_prompt_tokens c ! b))) = Inr chain'"
      "slot_parent_hash c ! b = parent_at None chain' ?n"
    using kv_invD(3) [OF assms(1,2)] by (auto simp: slot_at_def slot_ok_def)
  have "hash_blocks digest None (full_blocks (block_size P) (slot_prompt_tokens c ! b)) = Inr chain"
    using assms(3) by (simp add: chained_def compute_block_hashes_def)
  from hash_blocks_take [OF this, of ?n] c'(1) have "chain' = take ?n chain" by simp
  then show ?thesis using c'(2) by (cases ?n) (simp_all add: parent_at_def)
qed

text \<open>
  Publishing a slot raises its count to the target. \<open>J\<close> is any property of the state that one
  published block carries on and that does not read the counts.
\<close>

lemma publish_slot_ok:
  assumes inv: "kv_inv digest (c, P) R" and b: "b < batch_size c" and pc: "pool_prefix_cache P \<noteq> None"
    and ch: "chained digest (block_size P) K (slot_prompt_tokens c ! b) chain" and comp: "compatible P K"
    and J: "J (c, P)" "\<And>j p c P. J (c, P) \<Longrightarrow> J (with_pub b j p c, P)"
    and step: "\<And>j s s'. J s \<Longrightarrow> same_slots (c, P) s \<Longrightarrow> j < publish_target (block_size P) b c \<Longrightarrow>
      kv_inv digest (with_pub b j (parent_at None chain j) (fst s), snd s) R \<Longrightarrow>
      block_published b j (fst (chain ! j)) s s' \<Longrightarrow> J s'"
  shows "\<exists>c' P'. publish_filled_blocks digest b (c, P) = (Inr (), (c', P')) \<and> kv_inv digest (c', P') R \<and>
    J (c', P') \<and> compatible P' K \<and> same_slots (c, P) (c', P') \<and>
    slot_num_published c' = (slot_num_published c)[b := publish_target (block_size P) b c]"
proof -
  let ?T = "publish_target (block_size P) b c" and ?n = "slot_num_published c ! b"
  have bl: "b < length (slot_num_published c)" using b kv_invD(1) [OF inv] by (simp add: aligned_def)
  note le = published_le_target [OF inv b]
  show ?thesis
  proof (cases "?T \<le> ?n")
    case True
    then have "publish_filled_blocks digest b (c, P) = (Inr (), (c, P))" "?T = ?n"
      using le by (simp_all add: publish_filled_blocks_def Let_def)
    then show ?thesis using inv J(1) comp same_slots_refl bl
      by (intro exI [of _ c] exI [of _ P]) simp
  next
    case False
    have ne: "slot_prompt_tokens c ! b \<noteq> []" using False by (auto simp: publish_target_def)
    have par: "slot_parent_hash c ! b = parent_at None chain ?n" by (rule published_parent [OF inv b ch])
    note inv' = with_pub_same [OF inv, of b, unfolded par]
    have "\<exists>s'. publish_blocks digest b [?n ..< ?T] (parent_at None chain ?n) (c, P) = (Inr (parent_at None chain ?T), s') \<and>
      kv_inv digest (with_pub b ?T (parent_at None chain ?T) (fst s'), snd s') R \<and>
      J s' \<and> compatible (snd s') K \<and> same_slots (c, P) s' \<and>
      slot_num_published (fst s') = slot_num_published c \<and> slot_parent_hash (fst s') = slot_parent_hash c"
      by (rule publish_loop [OF inv' b pc ch comp le, where I = "\<lambda>_. J"]) (use J(1) step in auto)
    then obtain c1 P1 where s1:
        "publish_blocks digest b [?n ..< ?T] (parent_at None chain ?n) (c, P) = (Inr (parent_at None chain ?T), (c1, P1))"
        "kv_inv digest (with_pub b ?T (parent_at None chain ?T) c1, P1) R"
        "J (c1, P1)" "compatible P1 K" "same_slots (c, P) (c1, P1)" "slot_num_published c1 = slot_num_published c"
      by auto
    have "publish_filled_blocks digest b (c, P) = (Inr (), (with_pub b ?T (parent_at None chain ?T) c1, P1))"
      using False ne s1(1) par by (simp add: publish_filled_blocks_def Let_def with_pub_def)
    moreover have "same_slots (c, P) (with_pub b ?T (parent_at None chain ?T) c1, P1)"
      using s1(5) by (simp add: same_slots_def)
    ultimately show ?thesis using s1 J(2) by (intro exI conjI) auto
  qed
qed

text \<open>Publishing all slots of a batch.\<close>

definition all_chained :: "digest \<Rightarrow> nat \<Rightarrow> (byte list \<times> token list) set \<Rightarrow> 'v kvcache \<Rightarrow> bool" where
  "all_chained digest bs K c \<longleftrightarrow>
     (\<forall>b < batch_size c. \<exists>chain. chained digest bs K (slot_prompt_tokens c ! b) chain)"

lemma publish_all_ok:
  assumes inv: "kv_inv digest (c, P) R" and pc: "pool_prefix_cache P \<noteq> None"
    and ch: "all_chained digest (block_size P) K c" and comp: "compatible P K"
    and J: "J (c, P)" "\<And>b j p c P. J (c, P) \<Longrightarrow> J (with_pub b j p c, P)"
    and step: "\<And>b j chain s s'. J s \<Longrightarrow> same_slots (c, P) s \<Longrightarrow> b < batch_size c \<Longrightarrow>
      j < publish_target (block_size P) b c \<Longrightarrow>
      chained digest (block_size P) K (slot_prompt_tokens c ! b) chain \<Longrightarrow>
      kv_inv digest (with_pub b j (parent_at None chain j) (fst s), snd s) R \<Longrightarrow>
      block_published b j (fst (chain ! j)) s s' \<Longrightarrow> J s'"
  shows "\<exists>c' P'. publish_all digest (c, P) = (Inr (), (c', P')) \<and> kv_inv digest (c', P') R \<and>
    J (c', P') \<and> compatible P' K \<and> same_slots (c, P) (c', P') \<and>
    slot_num_published c' = map (\<lambda>b. publish_target (block_size P) b c) [0 ..< batch_size c]"
proof -
  let ?t = "\<lambda>b. publish_target (block_size P) b c"
  define I where "I = (\<lambda>i (s :: 'a kvs). kv_inv digest s R \<and> J s \<and> compatible (snd s) K \<and> same_slots (c, P) s \<and>
      slot_num_published (fst s) = map ?t [0 ..< i] @ drop i (slot_num_published c))"
  have len: "length (slot_num_published c) = batch_size c" using kv_invD(1) [OF inv] by (simp add: aligned_def)
  have "\<exists>s'. for_each (publish_filled_blocks digest) [0 ..< batch_size c] (c, P) = (Inr (), s') \<and> I (batch_size c) s'"
  proof (rule for_each_upt)
    show "I 0 (c, P)" using inv J(1) comp same_slots_refl by (simp add: I_def)
    fix b s assume b: "b < batch_size c" and I: "I b s"
    obtain c1 P1 where s: "s = (c1, P1)" by (cases s)
    note I1 = I [unfolded I_def s fst_conv snd_conv]
    have ss: "same_slots (c, P) (c1, P1)" using I1 by blast
    have eqs: "block_size P1 = block_size P" "slot_prompt_tokens c1 = slot_prompt_tokens c"
        "num_tokens c1 = num_tokens c" "batch_size c1 = batch_size c" "pool_prefix_cache P1 \<noteq> None"
      using ss pool_frameD(2) [of P1 P] pool_frameD(10) [of P1 P] pc by (auto simp: same_slots_def batch_size_def)
    have T: "publish_target (block_size P1) b c1 = ?t b" using eqs by (simp add: publish_target_def)
    obtain chain where chain: "chained digest (block_size P) K (slot_prompt_tokens c ! b) chain"
      using ch b by (auto simp: all_chained_def)
    have stp: "J s'" if "J s" "same_slots (c1, P1) s" "j < publish_target (block_size P1) b c1"
        "kv_inv digest (with_pub b j (parent_at None chain j) (fst s), snd s) R"
        "block_published b j (fst (chain ! j)) s s'" for j s s'
      by (rule step [OF that(1) same_slots_trans [OF ss that(2)] b _ chain that(4,5)]) (use that(3) T in simp)
    have "\<exists>c' P'. publish_filled_blocks digest b (c1, P1) = (Inr (), (c', P')) \<and> kv_inv digest (c', P') R \<and>
        J (c', P') \<and> compatible P' K \<and> same_slots (c1, P1) (c', P') \<and>
        slot_num_published c' = (slot_num_published c1)[b := publish_target (block_size P1) b c1]"
      by (rule publish_slot_ok [where chain = chain]) (use I1 b eqs chain J(2) stp in auto)
    then obtain c2 P2 where s2: "publish_filled_blocks digest b (c1, P1) = (Inr (), (c2, P2))"
        "kv_inv digest (c2, P2) R" "J (c2, P2)" "compatible P2 K" "same_slots (c1, P1) (c2, P2)"
        "slot_num_published c2 = (slot_num_published c1)[b := ?t b]"
      unfolding T by blast
    have "slot_num_published c2 = map ?t [0 ..< Suc b] @ drop (Suc b) (slot_num_published c)"
      unfolding s2(6) using I1 b len
      by (auto simp: nth_append list_eq_iff_nth_eq nth_list_update less_Suc_eq)
    then show "\<exists>s'. publish_filled_blocks digest b s = (Inr (), s') \<and> I (Suc b) s'"
      using s2 same_slots_trans [OF ss s2(5)] by (intro exI [of _ "(c2, P2)"]) (simp add: I_def s)
  qed simp
  then obtain c' P' where "for_each (publish_filled_blocks digest) [0 ..< batch_size c] (c, P) = (Inr (), (c', P'))"
      "I (batch_size c) (c', P')"
    by auto
  then show ?thesis using len by (intro exI [of _ c'] exI [of _ P']) (simp add: publish_all_def I_def)
qed

section \<open>Joining caches and giving everything back\<close>

lemma slot_at_append:
  assumes "aligned c" "block_ids c' = block_ids c @ xs" "num_tokens c' = num_tokens c @ ns"
    "slot_prompt_tokens c' = slot_prompt_tokens c @ ps" "slot_num_published c' = slot_num_published c @ qs"
    "slot_parent_hash c' = slot_parent_hash c @ hs" "b < batch_size c" "slot_at digest P c b"
  shows "slot_at digest P c' b"
  using assms by (simp add: slot_at_def aligned_def batch_size_def nth_append)

text \<open>
  A merge moves the one slot of \<open>other\<close> to the end of \<open>self\<close>: the references that \<open>self\<close> saw as
  another client's are its own afterwards.
\<close>

lemma merge_request_ok:
  assumes inv: "kv_inv digest (c, P) (held d + R)" and dinv: "kv_inv digest (d, P) (held c + R)"
    and one: "batch_size d = 1" and same: "pool_ref d = pool_ref c"
  shows "\<exists>c' d'. merge_request c d = (Inr (batch_size c), c', d') \<and>
    kv_inv digest (c', P) R \<and> kv_inv digest (d', P) (held c' + R) \<and> batch_size d' = 0 \<and>
    num_tokens c' = num_tokens c @ num_tokens d \<and> block_ids c' = block_ids c @ block_ids d"
proof -
  note al = kv_invD(1) [OF inv] kv_invD(1) [OF dinv]
  have lens: "length (block_ids d) = 1" "length (num_tokens d) = 1" "length (slot_prompt_tokens d) = 1"
      "length (slot_num_published d) = 1" "length (slot_parent_hash d) = 1"
    using al(2) one by (simp_all add: aligned_def batch_size_def)
  have sing: "xs = [xs ! 0]" if "length xs = 1" for xs :: "'x list" using that by (cases xs) auto
  obtain c' d' where m: "merge_request c d = (Inr (batch_size c), c', d')"
      "block_ids c' = block_ids c @ [block_ids d ! 0]" "num_tokens c' = num_tokens c @ [num_tokens d ! 0]"
      "slot_prompt_tokens c' = slot_prompt_tokens c @ [slot_prompt_tokens d ! 0]"
      "slot_num_published c' = slot_num_published c @ [slot_num_published d ! 0]"
      "slot_parent_hash c' = slot_parent_hash c @ [slot_parent_hash d ! 0]"
      "block_ids d' = []" "num_tokens d' = []" "slot_prompt_tokens d' = []" "slot_num_published d' = []"
      "slot_parent_hash d' = []"
    using one same by (simp add: merge_request_def Let_def batch_size_def)
  have "concat (block_ids d) = block_ids d ! 0"
    by (subst sing [OF lens(1)]) simp
  then have held': "held c' = held c + held d" using m(2) by (simp add: held_def)
  have bsz: "batch_size c' = Suc (batch_size c)" using m by (simp add: batch_size_def)
  have "kv_inv digest (c', P) R"
  proof (rule kv_invI)
    show "aligned c'" using al(1) bsz m by (simp add: aligned_def)
    show "pool_inv P (held c' + R)" using kv_invD(2) [OF inv] held' by (simp add: add.assoc)
    fix b assume b: "b < batch_size c'"
    show "slot_at digest P c' b"
    proof (cases "b = batch_size c")
      case True
      then have "slot_at digest P c' b = slot_at digest P d 0"
        using al(1) m by (simp add: slot_at_def aligned_def batch_size_def nth_append)
      then show ?thesis using kv_invD(3) [OF dinv, of 0] one by simp
    next
      case False
      then have b': "b < batch_size c" using b bsz by simp
      show ?thesis by (rule slot_at_append [OF al(1) m(2-6) b' kv_invD(3) [OF inv b']])
    qed
  qed
  moreover have "kv_inv digest (d', P) (held c' + R)"
    using calculation m(7-11) by (simp add: kv_inv_def aligned_def batch_size_def held_def)
  moreover have "batch_size d' = 0" using m(8) by (simp add: batch_size_def)
  moreover have "num_tokens c' = num_tokens c @ num_tokens d" "block_ids c' = block_ids c @ block_ids d"
    using m(2,3) sing [OF lens(1)] sing [OF lens(2)] by simp_all
  ultimately show ?thesis using m(1) by blast
qed

lemma free_cache_ok:
  assumes inv: "kv_inv digest (c, P) R"
  shows "\<exists>c' P'. free_cache (c, P) = (Inr (), (c', P')) \<and> kv_inv digest (c', P') R \<and> batch_size c' = 0 \<and>
    held c' = {#} \<and> available P \<le> available P' \<and> pkey P' = pkey P \<and> pool_frame P' = pool_frame P"
proof -
  have "pool_inv P (mset (concat (block_ids c)) + R)" using kv_invD(2) [OF inv] by (simp add: held_def)
  from bp.release_all_ok [OF this] obtain P' where P': "for_each free (concat (block_ids c)) P = (Inr (), P')"
      "pool_inv P' R" "available P \<le> available P'" "pkey P' = pkey P" "pool_frame P' = pool_frame P"
    by blast
  then show ?thesis
    by (auto simp: free_cache_def Let_def kv_inv_def aligned_def held_def batch_size_def)
qed

end
