(* ===== verification/Paged_Append.thy ===== *)
theory Paged_Append
  imports Paged_Cache
begin

text \<open>
  \<open>src/mini_infer/cache/paged_kv_cache.py\<close>: the operations that move rows between packed tensors
  and the blocks of the pool. A packed tensor is the list of its rows. The quantised formats write
  and read through the arguments \<open>qwrite\<close> and \<open>qread\<close>; \<open>dev\<close> is the device of the pool's tensors.
\<close>

section \<open>Rows and cells\<close>

definition put_row :: "nat \<Rightarrow> string \<Rightarrow> nat \<times> nat \<Rightarrow> 'v \<Rightarrow> 'v pool \<Rightarrow> 'v pool" where
  "put_row l nm cl v P =
     P\<lparr>storage := (storage P)(l := (storage P l)(nm := (storage P l nm)
        (fst cl := (storage P l nm (fst cl))(snd cl := v))))\<rparr>"

text \<open>\<open>tensor[block_ids, slots] = rows\<close>: one row per cell, or one row for all of them.\<close>

fun put_rows :: "nat \<Rightarrow> string \<Rightarrow> cells \<Rightarrow> 'v list \<Rightarrow> 'v pool \<Rightarrow> 'v pool" where
  "put_rows l nm (cl # cls) (v # vs) P = put_rows l nm cls vs (put_row l nm cl v P)"
| "put_rows l nm _ _ P = P"

definition index_put :: "nat \<Rightarrow> string \<Rightarrow> cells \<Rightarrow> 'v list \<Rightarrow> ('v pool, unit) act" where
  "index_put l nm idx rows P =
     (if length rows \<noteq> length idx \<and> length rows \<noteq> 1 then (Inl RuntimeError, P)
      else if \<exists>cl \<in> set idx. num_blocks P \<le> fst cl \<or> block_size P \<le> snd cl then (Inl IndexError, P)
      else (Inr (), put_rows l nm idx
              (if length rows = length idx then rows else replicate (length idx) (hd rows)) P))"

text \<open>\<open>tensor[block_ids, slots]\<close>.\<close>

definition index_get :: "nat \<Rightarrow> string \<Rightarrow> cells \<Rightarrow> 'v pool \<Rightarrow> 'v list res" where
  "index_get l nm idx P =
     (if \<exists>cl \<in> set idx. num_blocks P \<le> fst cl \<or> block_size P \<le> snd cl then Inl IndexError
      else Inr (map (\<lambda>cl. storage P l nm (fst cl) (snd cl)) idx))"

text \<open>\<open>packed[cu[0] : cu[-1]]\<close>.\<close>

definition slice_rows :: "nat list \<Rightarrow> 'v list \<Rightarrow> 'v list" where
  "slice_rows cu rows = take (last cu - hd cu) (drop (hd cu) rows)"

section \<open>Writing a layer\<close>

text \<open>Both tensors of a layer, K first.\<close>

definition put_kv :: "nat \<Rightarrow> cells \<Rightarrow> 'v list \<Rightarrow> 'v list \<Rightarrow> ('v pool, unit) act" where
  "put_kv l idx ks vs P =
     seq (index_put l ''k'' idx (map (to_dtype P) ks))
       (\<lambda>_. index_put l ''v'' idx (map (to_dtype P) vs)) P"

definition on_pool :: "('v pool, 'a) act \<Rightarrow> ('v kvs, 'a) act" where
  "on_pool f = (\<lambda>(c, P). case f P of (r, P') \<Rightarrow> (r, (c, P')))"

definition on_cache :: "('v kvcache, 'a) act \<Rightarrow> ('v kvs, 'a) act" where
  "on_cache f = (\<lambda>(c, P). case f c of (r, c') \<Rightarrow> (r, (c', P)))"

text \<open>The write index of the step for the boundaries \<open>t\<close>.\<close>

definition write_cells :: "nat \<Rightarrow> nat \<Rightarrow> cu_tensor \<Rightarrow> ('v kvcache, nat list \<times> cells) act" where
  "write_cells bs dev t c =
     (case cu_seqlens_q_list t c of (cu, c1) \<Rightarrow>
        (case step_write_index bs cu dev c1 of
           (Inl e, c2) \<Rightarrow> (Inl e, c2)
         | (Inr idx, c2) \<Rightarrow> (Inr (cu, idx), c2)))"

definition write_packed_kv_uncompressed ::
  "nat \<Rightarrow> nat \<Rightarrow> 'v list \<Rightarrow> 'v list \<Rightarrow> cu_tensor \<Rightarrow> ('v kvs, unit) act" where
  "write_packed_kv_uncompressed dev l packed_k packed_v t = (\<lambda>(c, P).
     case storage_for_layer P l of
       Inl e \<Rightarrow> (Inl e, (c, P))
     | Inr _ \<Rightarrow> seq (on_cache (write_cells (block_size P) dev t))
         (\<lambda>(cu, idx). on_pool (put_kv l idx (slice_rows cu packed_k) (slice_rows cu packed_v))) (c, P))"

type_synonym 'v qwriter = "nat \<Rightarrow> 'v list \<Rightarrow> 'v list \<Rightarrow> cu_tensor \<Rightarrow> ('v kvs, unit) act"

definition write_packed_kv ::
  "'v qwriter \<Rightarrow> nat \<Rightarrow> nat \<Rightarrow> 'v list \<Rightarrow> 'v list \<Rightarrow> cu_tensor \<Rightarrow> ('v kvs, unit) act" where
  "write_packed_kv qwrite dev l packed_k packed_v t = (\<lambda>(c, P).
     if kv_quant P = None then write_packed_kv_uncompressed dev l packed_k packed_v t (c, P)
     else qwrite l packed_k packed_v t (c, P))"

text \<open>The views into \<open>flat\<close> that a static step writes through.\<close>

definition ss_write_block_ids :: "static_step \<Rightarrow> nat list" where
  "ss_write_block_ids st = take (ss_rows st) (flat st)"

definition ss_write_slots :: "static_step \<Rightarrow> nat list" where
  "ss_write_slots st = take (ss_rows st) (drop (ss_rows st) (flat st))"

definition ss_cells :: "static_step \<Rightarrow> cells" where
  "ss_cells st = zip (ss_write_block_ids st) (ss_write_slots st)"

definition write_static :: "nat \<Rightarrow> 'v list \<Rightarrow> 'v list \<Rightarrow> ('v kvs, unit) act" where
  "write_static l packed_k packed_v = (\<lambda>(c, P).
     case static_step c of
       None \<Rightarrow> (Inl AssertionError, (c, P))
     | Some st \<Rightarrow> (case storage_for_layer P l of
         Inl e \<Rightarrow> (Inl e, (c, P))
       | Inr _ \<Rightarrow> on_pool (put_kv l (ss_cells st) packed_k packed_v) (c, P)))"

text \<open>Layer 0 advances the slots, the last layer publishes.\<close>

definition append_kv_packed ::
  "'v qwriter \<Rightarrow> digest \<Rightarrow> nat \<Rightarrow> 'v list \<Rightarrow> 'v list \<Rightarrow> cu_tensor \<Rightarrow> nat \<Rightarrow> ('v kvs, unit) act" where
  "append_kv_packed qwrite digest dev packed_k packed_v t l = (\<lambda>(c, P).
     if static_step c \<noteq> None then write_static l packed_k packed_v (c, P)
     else (case check_new_token_boundaries t c of
         Inl e \<Rightarrow> (Inl e, (c, P))
       | Inr _ \<Rightarrow>
           seq (if l = 0 then reserve_new_tokens t else ret ())
             (\<lambda>_. seq (write_packed_kv qwrite dev l packed_k packed_v t)
                (\<lambda>_. publish_step digest l)) (c, P)))"

text \<open>
  \<open>append_kv\<close>: \<open>ks\<close> and \<open>vs\<close> hold one list of \<open>n\<close> rows per request, and \<open>tid\<close> is the identity of the
  boundary tensor that \<open>torch.arange(0, (B + 1) * n, n)\<close> makes. A step of 0 raises.
\<close>

definition append_kv ::
  "'v qwriter \<Rightarrow> digest \<Rightarrow> nat \<Rightarrow> nat \<Rightarrow> nat \<Rightarrow> 'v list list \<Rightarrow> 'v list list \<Rightarrow> nat \<Rightarrow> ('v kvs, unit) act" where
  "append_kv qwrite digest dev tid n ks vs l = (\<lambda>(c, P).
     if length ks \<noteq> batch_size c then (Inl ValueError, (c, P))
     else if n = 0 then (Inl RuntimeError, (c, P))
     else append_kv_packed qwrite digest dev (concat ks) (concat vs)
            \<lparr>tensor_id = tid, tensor_values = map (\<lambda>i. i * n) [0 ..< Suc (batch_size c)]\<rparr> l (c, P))"

text \<open>\<open>append_kv_with\<close>: the caller's \<open>write\<close> stores the rows.\<close>

definition append_kv_with ::
  "digest \<Rightarrow> nat \<Rightarrow> (cells \<Rightarrow> ('v pool, unit) act) \<Rightarrow> cu_tensor \<Rightarrow> nat \<Rightarrow> ('v kvs, unit) act" where
  "append_kv_with digest dev write t l = (\<lambda>(c, P).
     if kv_quant P \<noteq> None then (Inl RuntimeError, (c, P))
     else (case static_step c of
         Some st \<Rightarrow> on_pool (write (ss_cells st)) (c, P)
       | None \<Rightarrow> (case check_new_token_boundaries t c of
           Inl e \<Rightarrow> (Inl e, (c, P))
         | Inr _ \<Rightarrow>
             seq (if l = 0 then reserve_new_tokens t else ret ())
               (\<lambda>_. seq (\<lambda>(c, P). case cu_seqlens_q_list t c of (cu, c1) \<Rightarrow>
                    (case storage_for_layer P l of
                       Inl e \<Rightarrow> (Inl e, (c1, P))
                     | Inr _ \<Rightarrow> seq (on_cache (step_write_index (block_size P) cu dev))
                         (\<lambda>idx. on_pool (write idx)) (c1, P)))
                  (\<lambda>_. publish_step digest l)) (c, P))))"

section \<open>Writing a named stream\<close>

text \<open>The rows of one slot, token by token; a row or a block that is not there is an index error.\<close>

fun put_stream_rows :: "nat \<Rightarrow> string \<Rightarrow> 'v kvcache \<Rightarrow> nat \<Rightarrow> 'v list \<Rightarrow> nat \<Rightarrow> nat list \<Rightarrow> ('v pool, unit) act" where
  "put_stream_rows l nm c b chunk start [] P = (Inr (), P)"
| "put_stream_rows l nm c b chunk start (i # js) P =
     (if length (block_ids c ! b) \<le> (start + i) div block_size P \<or> length chunk \<le> i then (Inl IndexError, P)
      else case index_put l nm [cell c (block_size P) b (start + i)] [to_dtype P (chunk ! i)] P of
        (Inl e, P') \<Rightarrow> (Inl e, P')
      | (Inr _, P') \<Rightarrow> put_stream_rows l nm c b chunk start js P')"

definition put_stream_slot :: "nat \<Rightarrow> string \<Rightarrow> nat list \<Rightarrow> 'v list \<Rightarrow> 'v kvcache \<Rightarrow> nat \<Rightarrow> ('v pool, unit) act" where
  "put_stream_slot l nm cu packed c b P =
     (let n = cu ! Suc b - cu ! b in
      put_stream_rows l nm c b (take n (drop (cu ! b) packed)) (num_tokens c ! b - n) [0 ..< n] P)"

definition put_stream :: "nat \<Rightarrow> string \<Rightarrow> nat list \<Rightarrow> 'v list \<Rightarrow> ('v kvs, unit) act" where
  "put_stream l nm cu packed = (\<lambda>(c, P).
     case storage_for_stream P l nm of
       Inl e \<Rightarrow> (Inl e, (c, P))
     | Inr _ \<Rightarrow> on_pool (for_each (put_stream_slot l nm cu packed c) [0 ..< batch_size c]) (c, P))"

text \<open>The first stream of layer 0 advances the slots, the last stream of the last layer publishes.\<close>

definition append_stream_packed ::
  "digest \<Rightarrow> 'v list \<Rightarrow> cu_tensor \<Rightarrow> nat \<Rightarrow> string \<Rightarrow> ('v kvs, unit) act" where
  "append_stream_packed digest packed t l nm = (\<lambda>(c, P).
     let cu = tensor_values t in
     if length cu \<noteq> batch_size c + 1 then (Inl ValueError, (c, P))
     else if kv_quant P \<noteq> None then (Inl RuntimeError, (c, P))
     else (case stream_names P 0 of
         Inl e \<Rightarrow> (Inl e, (c, P))
       | Inr names \<Rightarrow>
           seq (if l = 0 \<and> nm = hd names
                then (\<lambda>(c, P). for_each (reserve_slot cu) [0 ..< batch_size c] (layout_changed c, P))
                else ret ())
             (\<lambda>_. seq (put_stream l nm cu packed)
                (\<lambda>_ (c, P). case stream_names P (num_layers P - 1) of
                     Inl e \<Rightarrow> (Inl e, (c, P))
                   | Inr lasts \<Rightarrow>
                       if pool_prefix_cache P \<noteq> None \<and> Suc l = num_layers P \<and> nm = last lasts
                       then publish_all digest (c, P) else (Inr (), (c, P)))) (c, P)))"

section \<open>Reading a layer\<close>

definition padded :: "static_step \<Rightarrow> bool" where
  "padded st \<longleftrightarrow> active st < ss_slots st \<or> active_rows st < ss_rows st"

type_synonym 'v packed_kv = "'v list \<times> 'v list \<times> nat list \<times> nat"

definition materialize_packed_kv ::
  "(nat \<Rightarrow> ('v kvs, 'v packed_kv) act) \<Rightarrow> nat \<Rightarrow> nat \<Rightarrow> ('v kvs, 'v packed_kv) act" where
  "materialize_packed_kv qread dev l = (\<lambda>(c, P).
     if (case static_step c of None \<Rightarrow> False | Some st \<Rightarrow> padded st) then (Inl RuntimeError, (c, P))
     else case num_kv_heads_for_layer P l of Inl e \<Rightarrow> (Inl e, (c, P)) | Inr _ \<Rightarrow>
     (if kv_quant P \<noteq> None then
        (if \<forall>n \<in> set (num_tokens c). n = 0
         then (Inr ([], [], replicate (batch_size c + 1) 0, 0), (c, P)) else qread l (c, P))
      else case storage_for_layer P l of Inl e \<Rightarrow> (Inl e, (c, P)) | Inr _ \<Rightarrow>
        if \<forall>n \<in> set (num_tokens c). n = 0
        then (Inr ([], [], replicate (batch_size c + 1) 0, 0), (c, P))
        else seq (on_cache (step_gather_index (block_size P) dev))
          (\<lambda>(idx, cu_k) (c, P).
             case (index_get l ''k'' idx P, index_get l ''v'' idx P) of
               (Inr ks, Inr vs) \<Rightarrow> (Inr (ks, vs, cu_k, Max (set (num_tokens c))), (c, P))
             | (Inl e, _) \<Rightarrow> (Inl e, (c, P))
             | (_, Inl e) \<Rightarrow> (Inl e, (c, P))) (c, P)))"

text \<open>The rows of one slot, positions \<open>0\<close> to its length.\<close>

definition slot_rows :: "'v kvs \<Rightarrow> nat \<Rightarrow> string \<Rightarrow> nat \<Rightarrow> 'v list res" where
  "slot_rows s l nm b =
     (if length (block_ids (fst s) ! b) * block_size (snd s) < num_tokens (fst s) ! b then Inl IndexError
      else index_get l nm (map (cell (fst s) (block_size (snd s)) b) [0 ..< num_tokens (fst s) ! b]) (snd s))"

fun collect :: "'a res list \<Rightarrow> 'a list res" where
  "collect [] = Inr []"
| "collect (Inl e # rs) = Inl e"
| "collect (Inr x # rs) = map_sum id (Cons x) (collect rs)"

definition materialize_packed_stream :: "'v kvs \<Rightarrow> nat \<Rightarrow> string \<Rightarrow> ('v list \<times> nat list \<times> nat) res" where
  "materialize_packed_stream s l nm =
     (let c = fst s; P = snd s in
      if kv_quant P \<noteq> None then Inl RuntimeError
      else case storage_for_stream P l nm of Inl e \<Rightarrow> Inl e | Inr _ \<Rightarrow>
        if \<forall>n \<in> set (num_tokens c). n = 0 then Inr ([], replicate (batch_size c + 1) 0, 0)
        else (case collect (map (slot_rows s l nm) [0 ..< batch_size c]) of
            Inl e \<Rightarrow> Inl e
          | Inr rows \<Rightarrow> Inr (concat rows, sums_from 0 (num_tokens c), Max (set (num_tokens c)))))"

text \<open>\<open>_materialize\<close>: one rectangle of rows per request, filled with the row of zeros \<open>z\<close>.\<close>

definition materialize :: "'v \<Rightarrow> 'v kvs \<Rightarrow> nat \<Rightarrow> ('v list list \<times> 'v list list) res" where
  "materialize z s l =
     (let c = fst s; P = snd s;
          pad = (\<lambda>rows. rows @ replicate (get_seq_length c - length rows) z) in
      if kv_quant P \<noteq> None then Inl RuntimeError
      else case storage_for_layer P l of Inl e \<Rightarrow> Inl e | Inr _ \<Rightarrow>
        (case (collect (map (slot_rows s l ''k'') [0 ..< batch_size c]),
               collect (map (slot_rows s l ''v'') [0 ..< batch_size c])) of
           (Inr ks, Inr vs) \<Rightarrow> Inr (map pad ks, map pad vs)
         | (Inl e, _) \<Rightarrow> Inl e
         | (_, Inl e) \<Rightarrow> Inl e))"

definition update ::
  "'v qwriter \<Rightarrow> digest \<Rightarrow> 'v \<Rightarrow> nat \<Rightarrow> nat \<Rightarrow> nat \<Rightarrow> 'v list list \<Rightarrow> 'v list list \<Rightarrow> nat
    \<Rightarrow> ('v kvs, 'v list list \<times> 'v list list) act" where
  "update qwrite digest z dev tid n ks vs l =
     seq (append_kv qwrite digest dev tid n ks vs l) (\<lambda>_ s. (materialize z s l, s))"

definition pool_storage_for_layer :: "'v kvs \<Rightarrow> nat \<Rightarrow> ((nat \<Rightarrow> nat \<Rightarrow> 'v) \<times> (nat \<Rightarrow> nat \<Rightarrow> 'v)) res" where
  "pool_storage_for_layer s l =
     (if kv_quant (snd s) \<noteq> None then Inl RuntimeError else storage_for_layer (snd s) l)"

definition pool_storage_for_stream :: "'v kvs \<Rightarrow> nat \<Rightarrow> string \<Rightarrow> (nat \<Rightarrow> nat \<Rightarrow> 'v) res" where
  "pool_storage_for_stream s l nm =
     (if kv_quant (snd s) \<noteq> None then Inl RuntimeError else storage_for_stream (snd s) l nm)"

section \<open>The page index\<close>

text \<open>The integer views of a static step into \<open>flat\<close>, in the order of \<open>StaticStep.allocate\<close>.\<close>

definition ss_qo_indptr :: "static_step \<Rightarrow> nat list" where
  "ss_qo_indptr st = take (ss_slots st + 1) (drop (2 * ss_rows st) (flat st))"

definition ss_indptr :: "static_step \<Rightarrow> nat list" where
  "ss_indptr st = take (ss_slots st + 1) (drop (2 * ss_rows st + ss_slots st + 1) (flat st))"

definition ss_indices :: "static_step \<Rightarrow> nat list" where
  "ss_indices st = take (capacity st) (drop (2 * ss_rows st + 2 * (ss_slots st + 1)) (flat st))"

definition ss_last_page_len :: "static_step \<Rightarrow> nat list" where
  "ss_last_page_len st = drop (2 * ss_rows st + 2 * (ss_slots st + 1) + capacity st) (flat st)"

definition page_index :: "nat \<Rightarrow> nat \<Rightarrow> 'v kvcache \<Rightarrow> (nat list \<times> nat list \<times> nat list) \<times> 'v kvcache" where
  "page_index bs dev c =
     (let rebuild = (pages_of c bs, c\<lparr>page_index_cache := Some (dev, pages_of c bs)\<rparr>) in
      case static_step c of
        Some st \<Rightarrow> ((ss_indptr st, ss_indices st, ss_last_page_len st), c)
      | None \<Rightarrow> (case page_index_cache c of
          None \<Rightarrow> rebuild
        | Some (dev', pages) \<Rightarrow> if dev' \<noteq> dev then rebuild else (pages, c)))"

end
