(* ===== verification/Example_Pool.thy ===== *)
theory Example_Pool
  imports Paged_Reserve Paged_Publish Paged_Append
begin

text \<open>
  A small concrete configuration that the witnesses of the properties run on: a digest, a pool of
  eight blocks of two tokens with a prefix cache, and a cache with no slots. Rows are integers.
\<close>

text \<open>A pool right after construction accounts for no reference.\<close>

definition fresh_prefix_cache :: "pool_args \<Rightarrow> bool" where
  "fresh_prefix_cache a = (case arg_prefix_cache a of None \<Rightarrow> True
     | Some pc \<Rightarrow> prefix_cache_init (arg_block_size a) = Inr pc)"

lemma pool_init_sel:
  assumes "pool_init z cast a = Inr P"
  shows "num_blocks P = nat (arg_num_blocks a)" "block_size P = nat (arg_block_size a)"
    "free_list P = [0 ..< nat (arg_num_blocks a)]" "pool_prefix_cache P = arg_prefix_cache a"
    "check_pool_args a = Inr ()" "kv_quant P = arg_kv_quant a" "num_layers P = arg_num_layers a"
    "is_legacy_kv_layout P = list_all legacy_layer (streams_of a)" "to_dtype P = cast"
  using assms by (auto simp: pool_init_def first_error_Inr succeeds_iff split: sum.splits)

lemma check_pool_args_block_size: "check_pool_args a = Inr () \<Longrightarrow> 0 < arg_num_blocks a \<and> 0 < arg_block_size a"
  by (simp add: check_pool_args_def split: if_splits)

lemma pool_init_inv:
  assumes "pool_init z cast a = Inr P" "fresh_prefix_cache a"
  shows "pool_inv P {#}" "available P = num_blocks P"
proof -
  note s = pool_init_sel [OF assms(1)]
  note pos = check_pool_args_block_size [OF s(5)]
  have un: "\<not> pcached P b" for b
    using assms(2) s(4) by (auto simp: pcached_def is_cached_def fresh_prefix_cache_def prefix_cache_init_def split: option.splits if_splits)
  have "cache_ok P"
    using assms(2) s pos prefix_cache_init_inv
    by (auto simp: cache_ok_def fresh_prefix_cache_def split: option.splits)
  then show "pool_inv P {#}" using un s pos by (intro pool_invI) auto
  show "available P = num_blocks P"
    using assms(2) s
    by (auto simp: available_def num_free_blocks_def num_idle_def num_evictable_def fresh_prefix_cache_def
        prefix_cache_init_def split: option.splits if_splits)
qed

definition ex_digest :: digest where
  "ex_digest bs = take 16 (rev bs @ replicate 16 0)"

definition ex_prefix_cache :: prefix_cache where
  "ex_prefix_cache = \<lparr>pc_block_size = 2, entries = Map.empty, block_to_hash = Map.empty, evictable = []\<rparr>"

definition ex_args :: pool_args where
  "ex_args = \<lparr>arg_num_blocks = 8, arg_block_size = 2, arg_num_layers = 1, arg_num_kv_heads = 1,
     arg_head_dim = 1, arg_prefix_cache = Some ex_prefix_cache, arg_kv_quant = None,
     arg_attention_backend = ''torch'', arg_layer_attention = None, arg_layer_kv_shape = None,
     arg_layer_streams = None\<rparr>"

definition ex_pool :: "int pool" where
  "ex_pool = projr (pool_init 0 id ex_args)"

lemma ex_fresh: "fresh_prefix_cache ex_args"
  by (simp add: fresh_prefix_cache_def ex_args_def prefix_cache_init_def ex_prefix_cache_def)

lemma ex_pool_eq: "pool_init 0 id ex_args = Inr ex_pool"
proof -
  have "succeeds (pool_init (0::int) id ex_args)" by code_simp
  then show ?thesis by (auto simp: ex_pool_def succeeds_iff)
qed

lemma ex_pool_inv: "pool_inv ex_pool {#}"
  using pool_init_inv(1) [OF ex_pool_eq ex_fresh] .

lemma ex_pool_sel:
  "block_size ex_pool = 2" "num_blocks ex_pool = 8" "pool_prefix_cache ex_pool = Some ex_prefix_cache"
  "kv_quant ex_pool = None" "num_layers ex_pool = 1" "to_dtype ex_pool = id" "is_legacy_kv_layout ex_pool"
  using pool_init_sel [OF ex_pool_eq]
  by (simp_all add: ex_args_def streams_of_def kv_shape_of_def legacy_layer_def find_stream_def)

lemma ex_available: "available ex_pool = 8"
  using pool_init_inv(2) [OF ex_pool_eq ex_fresh] ex_pool_sel by simp

text \<open>One request with five prompt tokens, before and after its prompt is reserved.\<close>

definition ex_prompt :: "token list" where
  "ex_prompt = [11, 12, 13, 14, 15]"

definition ex_added :: "int kvs" where
  "ex_added = snd (add_request_slot ex_digest (Some ex_prompt) (kvcache_init 0, ex_pool))"

definition ex_cu :: cu_tensor where
  "ex_cu = \<lparr>tensor_id = 7, tensor_values = [0, 5]\<rparr>"

definition ex_reserved :: "int kvs" where
  "ex_reserved = snd (reserve_new_tokens ex_cu ex_added)"

lemma ex_init_inv: "kv_inv ex_digest (kvcache_init 0, ex_pool) {#}"
  using kv_inv_init [OF ex_pool_inv] .

lemma ex_added_inv: "kv_inv ex_digest (fst ex_added, snd ex_added) {#}"
  using add_request_slot_ok [OF ex_init_inv, of "Some ex_prompt"] by (auto simp: ex_added_def)

lemma ex_added_eval:
  "num_tokens (fst ex_added) = [0]" "batch_size (fst ex_added) = 1" "available (snd ex_added) = 8"
  "block_size (snd ex_added) = 2" "total_need 2 [0, 5] (fst ex_added) 0 = 3"
  "total_need 2 [0, 20] (fst ex_added) 0 = 10" "slot_num_published (fst ex_added) ! 0 = 0"
  by code_simp+

end
