(* ===== verification/Cache_Properties.thy ===== *)
theory Cache_Properties
  imports Example_Pool
begin

text \<open>
  What the block pool, the prefix cache and the paged cache promise their callers, each with a run
  on the concrete configuration of \<open>Example_Pool\<close>.
\<close>

section \<open>Prefix cache\<close>

text \<open>C16: with a 16-byte digest that has no collision on the byte strings that two prompts feed to
  it, two full blocks have the same chained hash only when they are at the same place and the
  prompts agree on every token up to the end of that block.\<close>

theorem chained_hash_identifies_prefix:
  assumes "\<And>x. length (digest x) = 16" "inj_on digest (chain_inputs c \<union> chain_inputs d)"
    and "compute_block_hashes digest us bs = Inr c" "compute_block_hashes digest vs bs = Inr d"
    and "i < length c" "j < length d" "fst (c ! i) = fst (d ! j)"
  shows "i = j \<and> take (Suc i * bs) us = take (Suc j * bs) vs"
proof -
  have hb: "hash_blocks digest None (full_blocks bs us) = Inr c" "hash_blocks digest None (full_blocks bs vs) = Inr d"
    using assms(3,4) by (simp_all add: compute_block_hashes_def)
  have "\<forall>b \<in> set (full_blocks bs us) \<union> set (full_blocks bs vs). length b = bs"
    using full_blocks_length by auto
  from chain_hash_injective [OF assms(1,2) hb this assms(5-7)]
  have eq: "i = j" "take (Suc i) (full_blocks bs us) = take (Suc j) (full_blocks bs vs)" by auto
  have "Suc i \<le> length us div bs" "Suc j \<le> length vs div bs"
    using hash_blocks_length [OF hb(1)] hash_blocks_length [OF hb(2)] assms(5,6)
    by (simp_all add: length_full_blocks)
  then show ?thesis using eq concat_take_full_blocks by metis
qed

lemma inj_on_pair: "f a \<noteq> f b \<Longrightarrow> inj_on f {a, b}"
  by (auto simp: inj_on_def)

definition ex_chain :: "token list \<Rightarrow> chain" where
  "ex_chain ts = projr (compute_block_hashes ex_digest ts 1)"

lemma ex_chain_inputs:
  "chain_inputs (ex_chain [1, 2]) \<subseteq> {[1, 0, 0, 0], [0, 0, 0, 1, 0, 0, 0, 0, 0, 0, 0, 0, 0, 0, 0, 0, 2, 0, 0, 0]}"
proof -
  have c: "ex_chain [1, 2] = [([0, 0, 0, 1, 0, 0, 0, 0, 0, 0, 0, 0, 0, 0, 0, 0], [1]),
      ([0, 0, 0, 2, 0, 0, 0, 0, 0, 0, 0, 0, 0, 0, 0, 0], [2])]" by code_simp
  have e: "encode_tokens [1] = Inr [1, 0, 0, 0]" "encode_tokens [2] = Inr [2, 0, 0, 0]" by code_simp+
  show ?thesis unfolding c chain_inputs_def
    by (auto simp: less_Suc_eq e parent_at_def parent_bytes_def simp del: encode_tokens.simps)
qed

theorem chained_hash_identifies_prefix_witness:
  "fst (ex_chain [1, 2] ! 0) \<noteq> fst (ex_chain [1, 2] ! 1)"
proof
  assume eq: "fst (ex_chain [1, 2] ! 0) = fst (ex_chain [1, 2] ! 1)"
  have "succeeds (compute_block_hashes ex_digest [1, 2] 1)" "length (ex_chain [1, 2]) = 2" by code_simp+
  then have c: "compute_block_hashes ex_digest [1, 2] 1 = Inr (ex_chain [1, 2])"
    by (auto simp: ex_chain_def succeeds_iff)
  have "ex_digest [1, 0, 0, 0] \<noteq> ex_digest [0, 0, 0, 1, 0, 0, 0, 0, 0, 0, 0, 0, 0, 0, 0, 0, 2, 0, 0, 0]"
    by code_simp
  then have "inj_on ex_digest {[1, 0, 0, 0], [0, 0, 0, 1, 0, 0, 0, 0, 0, 0, 0, 0, 0, 0, 0, 0, 2, 0, 0, 0]}"
    by (rule inj_on_pair)
  then have "inj_on ex_digest (chain_inputs (ex_chain [1, 2]) \<union> chain_inputs (ex_chain [1, 2]))"
    unfolding Un_absorb by (rule inj_on_subset [OF _ ex_chain_inputs])
  moreover have "length (ex_digest x) = 16" for x by (simp add: ex_digest_def)
  ultimately show False
    using chained_hash_identifies_prefix [OF _ _ c c _ _ eq] \<open>length (ex_chain [1, 2]) = 2\<close> by fastforce
qed

text \<open>C17: over any sequence of operations on a prefix cache that raise nothing, the blocks without
  references stay queued in the order of their last release, so \<open>evict_lru\<close> takes the least
  recently released one.\<close>

theorem prefix_cache_evicts_oldest_release:
  assumes "prefix_cache_init bs = Inr pc0" "pc_run pc0 ops pc" "evictable pc = b # rest"
  shows "\<exists>pc'. evict_lru pc = (Inr (Some b), pc') \<and> pc_inv pc' \<and> evictable pc' = rest \<and>
    \<not> is_cached pc' b \<and> (\<forall>x \<in> set rest. release_time ops b < release_time ops x)"
proof -
  have inv0: "pc_inv pc0" "evictable pc0 = []"
    using prefix_cache_init_inv assms(1) by (auto simp: prefix_cache_init_def split: if_splits)
  have inv: "pc_inv pc" by (rule pc_run_inv [OF assms(2) inv0(1)])
  have "sorted_wrt (\<lambda>x y. release_time ops x < release_time ops y) (evictable pc)"
    using pc_run_lru [OF assms(2)] inv0 by (simp add: sorted_wrt_map)
  then have "\<forall>x \<in> set rest. release_time ops b < release_time ops x" using assms(3) by simp
  with evict_lru_ok [OF inv assms(3)] show ?thesis by auto
qed

definition ex_ops :: "pc_op list" where
  "ex_ops = [OpPublish [1] [5, 6] 0, OpPublish [2] [7, 8] 1, OpDecref 1, OpDecref 0]"

definition ex_pc1 :: prefix_cache where "ex_pc1 = snd (publish [1] [5, 6] 0 ex_prefix_cache)"
definition ex_pc2 :: prefix_cache where "ex_pc2 = snd (publish [2] [7, 8] 1 ex_pc1)"
definition ex_pc3 :: prefix_cache where "ex_pc3 = snd (decref 1 ex_pc2)"
definition ex_pc4 :: prefix_cache where "ex_pc4 = snd (decref 0 ex_pc3)"

lemma ex_run: "pc_run ex_prefix_cache ex_ops ex_pc4"
proof -
  have "publish [1] [5, 6] 0 ex_prefix_cache = (Inr (0, False), ex_pc1)"
    "publish [2] [7, 8] 1 ex_pc1 = (Inr (1, False), ex_pc2)"
    "decref 1 ex_pc2 = (Inr (), ex_pc3)" "decref 0 ex_pc3 = (Inr (), ex_pc4)"
    by (simp_all add: ex_pc4_def ex_pc3_def ex_pc2_def ex_pc1_def ex_prefix_cache_def publish_def decref_def)
  note steps = step_publish [OF this(1)] step_publish [OF this(2)] step_decref [OF this(3)] step_decref [OF this(4)]
  have "\<not> is_cached ex_prefix_cache 0" "\<not> is_cached ex_pc1 1" by code_simp+
  with steps have st: "pc_step ex_prefix_cache (OpPublish [1] [5, 6] 0) ex_pc1"
      "pc_step ex_pc1 (OpPublish [2] [7, 8] 1) ex_pc2" "pc_step ex_pc2 (OpDecref 1) ex_pc3"
      "pc_step ex_pc3 (OpDecref 0) ex_pc4"
    by simp_all
  from run_step [OF run_step [OF run_step [OF run_step [OF run_init st(1)] st(2)] st(3)] st(4)]
  show ?thesis by (simp add: ex_ops_def)
qed

theorem prefix_cache_evicts_oldest_release_witness:
  "\<exists>pc'. evict_lru ex_pc4 = (Inr (Some 1), pc') \<and> evictable pc' = [0] \<and>
     release_time ex_ops 1 < release_time ex_ops 0"
proof -
  have "prefix_cache_init 2 = Inr ex_prefix_cache" by (simp add: prefix_cache_init_def ex_prefix_cache_def)
  moreover have "evictable ex_pc4 = [1, 0]" by code_simp
  ultimately show ?thesis using prefix_cache_evicts_oldest_release [OF _ ex_run] by force
qed

section \<open>Block pool\<close>

text \<open>C18: \<open>allocate\<close> succeeds exactly when a block is on the free list or idle in the prefix cache. It
  then returns a block of the pool that no client holds and that is not cached, and every other
  block keeps its cache entry; otherwise it raises \<open>OutOfMemoryError\<close> and changes nothing.\<close>

theorem allocate_exact:
  assumes "pool_inv P R"
  shows "if 0 < available P
    then \<exists>b P'. allocate P = (Inr b, P') \<and> b < num_blocks P \<and> b \<notin># R \<and> \<not> pcached P' b \<and>
      pool_inv P' (add_mset b R) \<and> available P' = available P - 1 \<and> storage P' = storage P \<and>
      (\<forall>x. x \<in># R \<longrightarrow> pkey P' x = pkey P x)
    else allocate P = (Inl OutOfMemoryError, P)"
proof (cases "0 < available P")
  case True
  from allocate_ok [OF assms True] obtain b P' where b: "allocate P = (Inr b, P')"
      "pool_inv P' (add_mset b R)" "b \<notin># R" "pkey P' b = None" "available P' = available P - 1"
      "\<forall>x. x \<in># R \<longrightarrow> pkey P' x = pkey P x" "pool_frame P' = pool_frame P"
    by blast
  then show ?thesis using True held_not_free [OF b(2), of b] pool_frameD(1,4) [OF b(7)] pkey_None [OF b(2), of b]
    by auto
qed (simp add: allocate_oom)

theorem allocate_exact_witness:
  "\<exists>b P'. allocate ex_pool = (Inr b, P') \<and> pool_inv P' {#b#} \<and> available P' = 7"
  using allocate_exact [OF ex_pool_inv] by (auto simp: ex_available)

text \<open>C19: giving back a held block always succeeds; the pool then accounts for the other
  references. The number of available blocks and the number of different held blocks always add up
  to the size of the pool, so no block is lost and none is handed out twice.\<close>

theorem free_conserves_blocks:
  assumes "pool_inv P R" "b \<in># R"
  shows "\<exists>P'. free b P = (Inr (), P') \<and> pool_inv P' (R - {#b#}) \<and>
    available P' + card (set_mset (R - {#b#})) = num_blocks P \<and>
    available P + card (set_mset R) = num_blocks P"
  using free_ok [OF assms] blocks_conserved blocks_conserved [OF assms(1)] pool_frameD(1) by metis

definition ex_taken :: "int pool" where
  "ex_taken = snd (allocate ex_pool)"

lemma ex_taken_inv: "pool_inv ex_taken {#7#}"
proof -
  obtain b P' where "allocate ex_pool = (Inr b, P')" "pool_inv P' {#b#}"
    using allocate_ok [OF ex_pool_inv] ex_available by auto
  moreover have "fst (allocate ex_pool) = Inr 7" by code_simp
  ultimately show ?thesis by (simp add: ex_taken_def)
qed

theorem free_conserves_blocks_witness:
  "\<exists>P'. free 7 ex_taken = (Inr (), P') \<and> pool_inv P' {#} \<and> available P' = num_blocks ex_taken"
  using free_conserves_blocks [OF ex_taken_inv, of 7] by auto

section \<open>Paged cache\<close>

text \<open>C20: reserving the positions of a step succeeds exactly when the pool can give every block the
  slots lack, whatever mix of free and idle cached blocks it has. Success advances every slot by its
  new tokens and costs exactly the missing blocks. On \<open>OutOfMemoryError\<close> a proper prefix of the
  slots has advanced. The accounting and the prompts' published blocks stay right in both cases.\<close>

theorem reserve_new_tokens_exact:
  assumes "kv_inv digest (c, P) R"
  shows "\<exists>m c' P'. reserve_new_tokens t (c, P) =
      (if total_need (block_size P) (tensor_values t) c 0 \<le> available P then Inr ()
       else Inl OutOfMemoryError, (c', P')) \<and>
    kv_inv digest (c', P') R \<and>
    (\<forall>b < batch_size c. num_tokens c' ! b = num_tokens c ! b + (if b < m then new_tokens (tensor_values t) b else 0)) \<and>
    (if total_need (block_size P) (tensor_values t) c 0 \<le> available P
     then m = batch_size c \<and> available P' = available P - total_need (block_size P) (tensor_values t) c 0
     else m < batch_size c)"
proof -
  define c1 where "c1 = snd (read_cu_seqlens_q t (layout_changed c))"
  have c1: "num_tokens c1 = num_tokens c" "block_ids c1 = block_ids c" "batch_size c1 = batch_size c"
    by (simp_all add: c1_def read_cu_seqlens_q_def batch_size_def)
  have inv: "kv_inv digest (c1, P) R"
    by (rule kv_inv_cong [OF assms]) (simp_all add: c1_def read_cu_seqlens_q_def)
  have eq: "reserve_new_tokens t (c, P) = for_each (reserve_slot (tensor_values t)) [0 ..< batch_size c1] (c1, P)"
    by (simp add: reserve_new_tokens_def c1_def read_cu_seqlens_q_def)
  have tn: "total_need bs cu c1 0 = total_need bs cu c 0" for bs cu
    using c1 by (simp add: total_need_def need_def [abs_def])
  obtain m s' where "for_each (reserve_slot (tensor_values t)) [0 ..< batch_size c1] (c1, P) =
        (if total_need (block_size P) (tensor_values t) c 0 \<le> available P then Inr () else Inl OutOfMemoryError, s')"
      "kv_inv digest s' R" "slots_grown (tensor_values t) 0 m (c1, P) s'"
      "if total_need (block_size P) (tensor_values t) c 0 \<le> available P
       then m = batch_size c \<and> available (snd s') = available P - total_need (block_size P) (tensor_values t) c 0
       else m < batch_size c"
    using reserve_loop [OF inv, of 0 "tensor_values t"] unfolding tn c1 by blast
  then show ?thesis using eq c1
    by (intro exI [of _ m] exI [of _ "fst s'"] exI [of _ "snd s'"]) (simp add: slots_grown_def)
qed

theorem reserve_new_tokens_exact_witness:
  "fst (reserve_new_tokens ex_cu ex_added) = Inr () \<and>
   fst (reserve_new_tokens \<lparr>tensor_id = 7, tensor_values = [0, 20]\<rparr> ex_added) = Inl OutOfMemoryError"
  using reserve_new_tokens_exact [OF ex_added_inv, of ex_cu]
    reserve_new_tokens_exact [OF ex_added_inv, of "\<lparr>tensor_id = 7, tensor_values = [0, 20]\<rparr>"]
  by (auto simp: ex_added_eval ex_cu_def)

end
