(* ===== verification/Paged_Content.thy ===== *)
theory Paged_Content
  imports Paged_Reserve Paged_Publish Paged_Append
begin

text \<open>
  Which pool cells a step writes and reads. The indices that the layers of a step share describe
  the layout the cache has; the cells a step writes belong to one position of one slot and to no
  cached block; writing a layer changes those cells and nothing else.
\<close>

section \<open>The shared indices are never stale\<close>

definition index_ok :: "nat \<Rightarrow> 'v kvcache \<Rightarrow> bool" where
  "index_ok bs c \<longleftrightarrow>
     (\<forall>cu dev idx. write_index c = Some (cu, dev, idx) \<longrightarrow>
        block_slot_index c bs (write_ranges c cu) = Inr idx) \<and>
     (\<forall>dev idx cu_k. gather_index c = Some (dev, idx, cu_k) \<longrightarrow>
        block_slot_index c bs (map (\<lambda>n. (0, n)) (num_tokens c)) = Inr idx \<and> cu_k = cu_seqlens_k_list c) \<and>
     (\<forall>dev pages. page_index_cache c = Some (dev, pages) \<longrightarrow> pages = pages_of c bs)"

text \<open>The layout: what the indices are built from.\<close>

definition same_layout :: "'v kvcache \<Rightarrow> 'v kvcache \<Rightarrow> bool" where
  "same_layout c c' \<longleftrightarrow> block_ids c' = block_ids c \<and> num_tokens c' = num_tokens c"

definition dropped :: "'v kvcache \<Rightarrow> bool" where
  "dropped c \<longleftrightarrow> write_index c = None \<and> gather_index c = None \<and> page_index_cache c = None"

lemma index_ok_dropped: "dropped c \<Longrightarrow> index_ok bs c"
  by (simp add: dropped_def index_ok_def)

lemma same_layout_index:
  assumes "same_layout c c'"
  shows "block_slot_index c' bs r = block_slot_index c bs r" "write_ranges c' cu = write_ranges c cu"
    "cu_seqlens_k_list c' = cu_seqlens_k_list c" "pages_of c' bs = pages_of c bs"
proof -
  have "cell c' = cell c" using assms by (auto simp: cell_def same_layout_def fun_eq_iff)
  then show "block_slot_index c' bs r = block_slot_index c bs r" "write_ranges c' cu = write_ranges c cu"
    "cu_seqlens_k_list c' = cu_seqlens_k_list c" "pages_of c' bs = pages_of c bs"
    using assms by (simp_all add: same_layout_def block_slot_index_def write_ranges_def batch_size_def
        cu_seqlens_k_list_def pages_of_def)
qed

lemma index_ok_cong:
  assumes "index_ok bs c" "same_layout c c'" "write_index c' = write_index c"
    "gather_index c' = gather_index c" "page_index_cache c' = page_index_cache c"
  shows "index_ok bs c'"
  using assms same_layout_index [OF assms(2)] by (simp add: index_ok_def same_layout_def)

text \<open>Building an index stores it under the layout it was built from.\<close>

lemma step_write_index_ok:
  assumes "index_ok bs c" "block_slot_index c bs (write_ranges c cu) = Inr idx"
  shows "\<exists>c'. step_write_index bs cu dev c = (Inr idx, c') \<and> index_ok bs c' \<and> same_layout c c' \<and>
    c' = c\<lparr>write_index := write_index c'\<rparr>"
proof (cases "write_index c")
  case None
  let ?c' = "c\<lparr>write_index := Some (cu, dev, idx)\<rparr>"
  have sl: "same_layout c ?c'" by (simp add: same_layout_def)
  have "step_write_index bs cu dev c = (Inr idx, ?c')"
    using None assms(2) by (simp add: step_write_index_def Let_def)
  moreover have "index_ok bs ?c'"
    using assms same_layout_index [OF sl] by (simp add: index_ok_def)
  ultimately show ?thesis using sl by (intro exI [of _ ?c']) simp
next
  case (Some w)
  obtain cu' dev' idx' where w: "w = (cu', dev', idx')" by (metis prod_cases3)
  show ?thesis
  proof (cases "cu' = cu \<and> dev' = dev")
    case True
    then have "idx' = idx" using assms Some w by (simp add: index_ok_def)
    then show ?thesis using True Some w assms(1)
      by (intro exI [of _ c]) (simp add: step_write_index_def Let_def same_layout_def)
  next
    case False
    let ?c' = "c\<lparr>write_index := Some (cu, dev, idx)\<rparr>"
    have sl: "same_layout c ?c'" by (simp add: same_layout_def)
    have "step_write_index bs cu dev c = (Inr idx, ?c')"
      using False Some w assms(2) by (auto simp: step_write_index_def Let_def)
    moreover have "index_ok bs ?c'"
      using assms same_layout_index [OF sl] by (simp add: index_ok_def)
    ultimately show ?thesis using sl by (intro exI [of _ ?c']) simp
  qed
qed

lemma step_gather_index_ok:
  assumes "index_ok bs c" "block_slot_index c bs (map (\<lambda>n. (0, n)) (num_tokens c)) = Inr idx"
  shows "\<exists>c'. step_gather_index bs dev c = (Inr (idx, cu_seqlens_k_list c), c') \<and> index_ok bs c' \<and>
    same_layout c c' \<and> c' = c\<lparr>gather_index := gather_index c'\<rparr>"
proof -
  let ?c' = "c\<lparr>gather_index := Some (dev, idx, cu_seqlens_k_list c)\<rparr>"
  have sl: "same_layout c ?c'" by (simp add: same_layout_def)
  have ok: "index_ok bs ?c'" using assms same_layout_index [OF sl] by (simp add: index_ok_def)
  show ?thesis
  proof (cases "\<exists>w. gather_index c = Some (dev, w)")
    case True
    then obtain idx' cu_k where "gather_index c = Some (dev, idx', cu_k)" by (metis prod.exhaust)
    moreover from this have "idx' = idx" "cu_k = cu_seqlens_k_list c" using assms by (auto simp: index_ok_def)
    ultimately show ?thesis using assms(1)
      by (intro exI [of _ c]) (simp add: step_gather_index_def Let_def same_layout_def)
  next
    case False
    then have "step_gather_index bs dev c = (Inr (idx, cu_seqlens_k_list c), ?c')"
      using assms(2) by (auto simp: step_gather_index_def Let_def split: option.splits)
    with sl ok show ?thesis by (intro exI [of _ ?c']) simp
  qed
qed

lemma page_index_ok:
  assumes "index_ok bs c" "static_step c = None"
  shows "fst (page_index bs dev c) = pages_of c bs" "index_ok bs (snd (page_index bs dev c))"
    "same_layout c (snd (page_index bs dev c))"
proof -
  let ?c' = "c\<lparr>page_index_cache := Some (dev, pages_of c bs)\<rparr>"
  have sl: "same_layout c ?c'" by (simp add: same_layout_def)
  have "pages = pages_of ?c' bs" if "page_index_cache ?c' = Some (dev', pages)" for dev' pages
    using that same_layout_index(4) [OF sl] by simp
  then have ok: "index_ok bs ?c'"
    using assms(1) same_layout_index(1-3) [OF sl] by (simp add: index_ok_def del: split_paired_All)
  have "page_index bs dev c = (pages_of c bs, ?c') \<or> page_index bs dev c = (pages_of c bs, c)"
    using assms by (auto simp: page_index_def Let_def index_ok_def split: option.splits)
  with sl ok assms(1) show "fst (page_index bs dev c) = pages_of c bs"
      "index_ok bs (snd (page_index bs dev c))" "same_layout c (snd (page_index bs dev c))"
    by (auto simp: same_layout_def)
qed

section \<open>Cells of a slot\<close>

text \<open>The cells of a range of positions per slot, in packed order.\<close>

definition range_cells :: "'v kvcache \<Rightarrow> nat \<Rightarrow> (nat \<Rightarrow> nat) \<Rightarrow> (nat \<Rightarrow> nat) \<Rightarrow> cells" where
  "range_cells c bs lo hi = concat (map (\<lambda>b. map (cell c bs b) [lo b ..< hi b]) [0 ..< batch_size c])"

lemma slot_covers:
  assumes "kv_inv digest (c, P) R" "b < batch_size c" "pos < num_tokens c ! b"
  shows "pos div block_size P < length (block_ids c ! b)"
proof -
  have "num_tokens c ! b \<le> length (block_ids c ! b) * block_size P"
    using kv_invD(3) [OF assms(1,2)] by (simp add: slot_at_def slot_ok_def)
  then show ?thesis using assms(3) kv_invD(4) [OF assms(1)] by (simp add: div_less_iff_less_mult)
qed

lemma block_slot_index_ranges:
  assumes inv: "kv_inv digest (c, P) R" and hi: "\<And>b. b < batch_size c \<Longrightarrow> hi b \<le> num_tokens c ! b"
  shows "block_slot_index c (block_size P) (map (\<lambda>b. (lo b, hi b)) [0 ..< batch_size c]) =
    Inr (range_cells c (block_size P) lo hi)"
proof -
  let ?r = "map (\<lambda>b. (lo b, hi b)) [0 ..< batch_size c]"
  have "\<not> length (block_ids c ! b) \<le> pos div block_size P" if "b < batch_size c" "pos < hi b" for b pos
    using slot_covers [OF inv that(1)] hi [OF that(1)] that(2) by (simp add: not_le)
  then have "\<not> (\<exists>b \<in> set [0 ..< length ?r]. \<exists>pos \<in> set [fst (?r ! b) ..< snd (?r ! b)].
      length (block_ids c ! b) \<le> pos div block_size P)"
    by auto
  moreover have "map (\<lambda>b. map (cell c (block_size P) b) [fst (?r ! b) ..< snd (?r ! b)]) [0 ..< batch_size c] =
      map (\<lambda>b. map (cell c (block_size P) b) [lo b ..< hi b]) [0 ..< batch_size c]"
    by (rule map_cong) auto
  ultimately show ?thesis unfolding block_slot_index_def range_cells_def
    by (simp only: if_False length_map length_upt diff_zero)
qed

lemma write_index_ranges:
  assumes "kv_inv digest (c, P) R"
  shows "block_slot_index c (block_size P) (write_ranges c cu) =
    Inr (range_cells c (block_size P) (\<lambda>b. num_tokens c ! b - new_tokens cu b) (\<lambda>b. num_tokens c ! b))"
  unfolding write_ranges_def new_tokens_def [symmetric]
  by (rule block_slot_index_ranges [OF assms]) simp

lemma gather_index_ranges:
  assumes "kv_inv digest (c, P) R"
  shows "block_slot_index c (block_size P) (map (\<lambda>n. (0, n)) (num_tokens c)) =
    Inr (range_cells c (block_size P) (\<lambda>_. 0) (\<lambda>b. num_tokens c ! b))"
proof -
  have "map (\<lambda>n. (0::nat, n)) (num_tokens c) = map (\<lambda>b. (0, num_tokens c ! b)) [0 ..< batch_size c]"
    by (rule nth_equalityI) (simp_all add: batch_size_def)
  then show ?thesis using block_slot_index_ranges [OF assms, of "\<lambda>b. num_tokens c ! b" "\<lambda>_. 0"] by simp
qed

text \<open>A position past the published blocks has its cell for itself.\<close>

lemma cell_private:
  assumes inv: "kv_inv digest (c, P) R" and b: "b < batch_size c" "pos < num_tokens c ! b"
    and pub: "slot_num_published c ! b * block_size P \<le> pos"
  shows "pkey P (fst (cell c (block_size P) b pos)) = None"
    and "b' < batch_size c \<Longrightarrow> pos' < num_tokens c ! b' \<Longrightarrow>
      cell c (block_size P) b pos = cell c (block_size P) b' pos' \<Longrightarrow> b = b' \<and> pos = pos'"
    and "fst (cell c (block_size P) b pos) \<in># held c"
    and "x \<in># R \<Longrightarrow> fst (cell c (block_size P) b pos) \<noteq> x"
proof -
  let ?bs = "block_size P" let ?i = "pos div ?bs" let ?ids = "block_ids c ! b"
  note bs = kv_invD(4) [OF inv]
  have len: "length (block_ids c) = batch_size c" using kv_invD(1) [OF inv] by (simp add: aligned_def)
  have i: "?i < length ?ids" by (rule slot_covers [OF inv b])
  have "slot_num_published c ! b \<le> ?i" using pub bs by (simp add: less_eq_div_iff_mult_less_eq)
  then have priv: "pkey P (?ids ! ?i) = None"
    using kv_invD(3) [OF inv b(1)] i by (simp add: slot_at_def slot_ok_def)
  then show "pkey P (fst (cell c ?bs b pos)) = None" by (simp add: cell_def)
  show mem: "fst (cell c ?bs b pos) \<in># held c"
    using held_memI [of b c] len b(1) i by (simp add: cell_def)
  have bl: "b < length (block_ids c)" using len b(1) by simp
  note elsewhere = private_elsewhere [OF kv_invD(2) [OF inv] bl i priv]
  show "b = b' \<and> pos = pos'"
    if "b' < batch_size c" "pos' < num_tokens c ! b'" "cell c ?bs b pos = cell c ?bs b' pos'"
  proof -
    let ?i' = "pos' div ?bs"
    have i': "?i' < length (block_ids c ! b')" by (rule slot_covers [OF inv that(1,2)])
    have eq: "?ids ! ?i = block_ids c ! b' ! ?i'" "pos mod ?bs = pos' mod ?bs"
      using that(3) by (simp_all add: cell_def)
    have bb: "b' = b" using elsewhere(1) [of b'] eq(1) i' len that(1) by auto
    then have "?i' = ?i" using elsewhere(2) [of ?i'] eq(1) i' by auto
    then have "pos = pos'" using eq(2) by (metis div_mult_mod_eq)
    with bb show ?thesis by simp
  qed
  show "fst (cell c ?bs b pos) \<noteq> x" if "x \<in># R"
  proof
    assume eq: "fst (cell c ?bs b pos) = x"
    have "count (held c + R) x \<le> 1"
      using bp.unshared_once [OF kv_invD(2) [OF inv]] priv eq by (simp add: cell_def)
    moreover have "0 < count (held c) x" "0 < count R x"
      using mem eq that by (simp_all only: count_greater_zero_iff)
    ultimately show False by simp
  qed
qed

section \<open>Writing a layer\<close>

text \<open>Storage that agrees outside some cells of one stream.\<close>

definition same_outside ::
  "(nat \<times> string) set \<Rightarrow> (nat \<times> nat) set \<Rightarrow> (nat \<Rightarrow> string \<Rightarrow> nat \<Rightarrow> nat \<Rightarrow> 'v)
    \<Rightarrow> (nat \<Rightarrow> string \<Rightarrow> nat \<Rightarrow> nat \<Rightarrow> 'v) \<Rightarrow> bool" where
  "same_outside streams cs S S' \<longleftrightarrow>
     (\<forall>l nm x s. (l, nm) \<notin> streams \<or> (x, s) \<notin> cs \<longrightarrow> S' l nm x s = S l nm x s)"

lemma same_outside_self: "\<exists>S. P = P\<lparr>storage := S\<rparr> \<and> same_outside A B (storage P) S"
  by (intro exI [of _ "storage P"]) (simp add: same_outside_def)

lemma put_rows_storage:
  "\<exists>S. put_rows l nm idx rows P = P\<lparr>storage := S\<rparr> \<and> same_outside {(l, nm)} (set idx) (storage P) S \<and>
     (distinct idx \<longrightarrow> length rows = length idx \<longrightarrow>
        (\<forall>i < length idx. S l nm (fst (idx ! i)) (snd (idx ! i)) = rows ! i))"
proof (induction l nm idx rows P rule: put_rows.induct)
  case (1 l nm cl cls v vs P)
  let ?P = "put_row l nm cl v P"
  from 1 obtain S where S: "put_rows l nm cls vs ?P = ?P\<lparr>storage := S\<rparr>"
      "same_outside {(l, nm)} (set cls) (storage ?P) S"
      "distinct cls \<Longrightarrow> length vs = length cls \<Longrightarrow>
        \<forall>i < length cls. S l nm (fst (cls ! i)) (snd (cls ! i)) = vs ! i"
    by blast
  have "put_rows l nm (cl # cls) (v # vs) P = P\<lparr>storage := S\<rparr>" using S(1) by (simp add: put_row_def)
  moreover have "same_outside {(l, nm)} (set (cl # cls)) (storage P) S"
    using S(2) by (cases cl) (auto simp: same_outside_def put_row_def)
  moreover have "\<forall>i < length (cl # cls). S l nm (fst ((cl # cls) ! i)) (snd ((cl # cls) ! i)) = (v # vs) ! i"
    if d: "distinct (cl # cls)" "length (v # vs) = length (cl # cls)"
  proof (intro allI impI)
    fix i assume i: "i < length (cl # cls)"
    show "S l nm (fst ((cl # cls) ! i)) (snd ((cl # cls) ! i)) = (v # vs) ! i"
    proof (cases i)
      case 0
      have "S l nm (fst cl) (snd cl) = storage ?P l nm (fst cl) (snd cl)"
        using S(2) d(1) unfolding same_outside_def by simp
      then show ?thesis using 0 by (simp add: put_row_def)
    next
      case (Suc k)
      then show ?thesis using S(3) d i by simp
    qed
  qed
  ultimately show ?case by blast
next
  case "2_1"
  show ?case using same_outside_self by simp
next
  case "2_2"
  show ?case using same_outside_self by simp
qed

lemma index_put_ok:
  assumes "length rows = length idx" "\<forall>cl \<in> set idx. fst cl < num_blocks P \<and> snd cl < block_size P"
  shows "index_put l nm idx rows P = (Inr (), put_rows l nm idx rows P)"
  using assms by (auto simp: index_put_def)

lemma put_kv_ok:
  assumes len: "length ks = length idx" "length vs = length idx" and d: "distinct idx"
    and rng: "\<forall>cl \<in> set idx. fst cl < num_blocks P \<and> snd cl < block_size P"
  shows "\<exists>S. put_kv l idx ks vs P = (Inr (), P\<lparr>storage := S\<rparr>) \<and>
    same_outside {(l, ''k''), (l, ''v'')} (set idx) (storage P) S \<and>
    (\<forall>i < length idx. S l ''k'' (fst (idx ! i)) (snd (idx ! i)) = to_dtype P (ks ! i) \<and>
       S l ''v'' (fst (idx ! i)) (snd (idx ! i)) = to_dtype P (vs ! i))"
proof -
  let ?ks = "map (to_dtype P) ks" let ?vs = "map (to_dtype P) vs"
  obtain S1 where S1: "put_rows l ''k'' idx ?ks P = P\<lparr>storage := S1\<rparr>"
      "same_outside {(l, ''k'')} (set idx) (storage P) S1"
      "\<forall>i < length idx. S1 l ''k'' (fst (idx ! i)) (snd (idx ! i)) = ?ks ! i"
    using put_rows_storage [of l "''k''" idx ?ks P] d len(1) by auto
  let ?P1 = "P\<lparr>storage := S1\<rparr>"
  obtain S2 where S2: "put_rows l ''v'' idx ?vs ?P1 = ?P1\<lparr>storage := S2\<rparr>"
      "same_outside {(l, ''v'')} (set idx) S1 S2"
      "\<forall>i < length idx. S2 l ''v'' (fst (idx ! i)) (snd (idx ! i)) = ?vs ! i"
    using put_rows_storage [of l "''v''" idx ?vs ?P1] d len(2) by auto
  have "put_kv l idx ks vs P = (Inr (), P\<lparr>storage := S2\<rparr>)"
    using index_put_ok [of ?ks idx P l "''k''"] index_put_ok [of ?vs idx ?P1 l "''v''"] len rng S1(1) S2(1)
    by (simp add: put_kv_def seq_def)
  moreover have "same_outside {(l, ''k''), (l, ''v'')} (set idx) (storage P) S2"
    using S1(2) S2(2) unfolding same_outside_def by (metis insert_iff)
  moreover have "S2 l ''k'' x s = S1 l ''k'' x s" for x s using S2(2) unfolding same_outside_def by simp
  ultimately show ?thesis using S1(3) S2(3) len by auto
qed

text \<open>The host copy of the boundaries is the tensor's.\<close>

definition cu_read :: "cu_tensor \<Rightarrow> 'v kvcache \<Rightarrow> bool" where
  "cu_read t c \<longleftrightarrow> (step_cu_tensor c = Some (tensor_id t) \<longrightarrow> step_cu_list c = tensor_values t)"

lemma cu_seqlens_q_list_ok:
  assumes "static_step c = None" "cu_read t c"
  shows "\<exists>c'. cu_seqlens_q_list t c = (tensor_values t, c') \<and> cu_read t c' \<and>
    c' = c\<lparr>step_cu_tensor := step_cu_tensor c', step_cu_list := step_cu_list c'\<rparr>"
  using assms by (auto simp: cu_seqlens_q_list_def read_cu_seqlens_q_def cu_read_def)

lemma kv_inv_storage: "kv_inv digest (c, P) R \<Longrightarrow> kv_inv digest (c, P\<lparr>storage := S\<rparr>) R"
proof -
  assume "kv_inv digest (c, P) R"
  moreover have "pkey (P\<lparr>storage := S\<rparr>) = pkey P" "pcached (P\<lparr>storage := S\<rparr>) = pcached P"
      "prefs (P\<lparr>storage := S\<rparr>) = prefs P" "cache_ok (P\<lparr>storage := S\<rparr>) = cache_ok P"
    by (simp_all add: pkey_def pcached_def prefs_def cache_ok_def fun_eq_iff split: option.splits)
  ultimately show ?thesis by (simp add: kv_inv_def pool_inv_def slot_at_def slot_ok_def)
qed

lemma pkey_storage [simp]: "pkey (P\<lparr>storage := S\<rparr>) = pkey P"
  by (simp add: pkey_def fun_eq_iff split: option.splits)

section \<open>The cells of a step\<close>

text \<open>Slot \<open>b\<close> takes \<open>ks ! b\<close> new tokens, which end at its length and lie past its published blocks.\<close>

definition step_counts :: "nat \<Rightarrow> nat list \<Rightarrow> 'v kvcache \<Rightarrow> bool" where
  "step_counts bs ks c \<longleftrightarrow> length ks = batch_size c \<and>
     (\<forall>b < batch_size c. ks ! b \<le> num_tokens c ! b \<and>
        slot_num_published c ! b * bs \<le> num_tokens c ! b - ks ! b)"

definition step_cells :: "'v kvcache \<Rightarrow> nat \<Rightarrow> nat list \<Rightarrow> cells" where
  "step_cells c bs ks = range_cells c bs (\<lambda>b. num_tokens c ! b - ks ! b) (\<lambda>b. num_tokens c ! b)"

lemma step_cells_mem:
  assumes "kv_inv digest (c, P) R" "step_counts (block_size P) ks c" "cl \<in> set (step_cells c (block_size P) ks)"
  obtains b pos where "b < batch_size c" "num_tokens c ! b - ks ! b \<le> pos" "pos < num_tokens c ! b"
    "cl = cell c (block_size P) b pos" "slot_num_published c ! b * block_size P \<le> pos"
  using assms(2,3) by (force simp: step_cells_def range_cells_def step_counts_def)

lemma cell_mem_step:
  assumes inv: "kv_inv digest (c, P) R" and sc: "step_counts (block_size P) ks c"
    and b: "b < batch_size c" "pos < num_tokens c ! b"
  shows "cell c (block_size P) b pos \<in> set (step_cells c (block_size P) ks) \<longleftrightarrow> num_tokens c ! b - ks ! b \<le> pos"
proof
  assume "cell c (block_size P) b pos \<in> set (step_cells c (block_size P) ks)"
  then obtain b' pos' where p: "b' < batch_size c" "num_tokens c ! b' - ks ! b' \<le> pos'" "pos' < num_tokens c ! b'"
      "cell c (block_size P) b' pos' = cell c (block_size P) b pos" "slot_num_published c ! b' * block_size P \<le> pos'"
    using step_cells_mem [OF inv sc] by metis
  from cell_private(2) [OF inv p(1,3,5) b p(4)] p(2) show "num_tokens c ! b - ks ! b \<le> pos" by auto
next
  assume "num_tokens c ! b - ks ! b \<le> pos"
  then show "cell c (block_size P) b pos \<in> set (step_cells c (block_size P) ks)"
    using b by (force simp: step_cells_def range_cells_def)
qed

lemma step_cells_distinct:
  assumes inv: "kv_inv digest (c, P) R" and sc: "step_counts (block_size P) ks c"
  shows "distinct (step_cells c (block_size P) ks)"
proof -
  let ?bs = "block_size P" let ?lo = "\<lambda>b. num_tokens c ! b - ks ! b"
  have inj: "b = b' \<and> pos = pos'"
    if "b < batch_size c" "?lo b \<le> pos" "pos < num_tokens c ! b" "b' < batch_size c" "pos' < num_tokens c ! b'"
      "cell c ?bs b pos = cell c ?bs b' pos'" for b pos b' pos'
    using cell_private(2) [OF inv that(1,3) _ that(4-6)] sc that(1,2) by (fastforce simp: step_counts_def)
  show ?thesis unfolding step_cells_def range_cells_def
  proof (rule distinct_concat_upt)
    show "distinct (map (cell c ?bs b) [?lo b ..< num_tokens c ! b])" if "b < batch_size c" for b
      using inj [OF that _ _ that] by (auto simp: distinct_map inj_on_def)
  qed (use inj in fastforce)
qed

lemma step_cells_range:
  assumes inv: "kv_inv digest (c, P) R" and sc: "step_counts (block_size P) ks c"
    and cl: "cl \<in> set (step_cells c (block_size P) ks)"
  shows "fst cl < num_blocks P" "snd cl < block_size P" "pkey P (fst cl) = None" "x \<in># R \<Longrightarrow> fst cl \<noteq> x"
proof -
  obtain b pos where p: "b < batch_size c" "pos < num_tokens c ! b" "cl = cell c (block_size P) b pos"
      "slot_num_published c ! b * block_size P \<le> pos"
    using step_cells_mem [OF assms] by metis
  note priv = cell_private [OF inv p(1,2,4), folded p(3)]
  show "fst cl < num_blocks P"
    using held_not_free [OF kv_invD(2) [OF inv], of "fst cl"] priv(3) by simp
  show "snd cl < block_size P" using kv_invD(4) [OF inv] by (simp add: p(3) cell_def)
  show "pkey P (fst cl) = None" "x \<in># R \<Longrightarrow> fst cl \<noteq> x" using priv(1,4) by auto
qed

text \<open>The place of a position's row in the packed tensor, and of its cell in the index.\<close>

lemma step_cells_nth:
  assumes sc: "step_counts bs ks c" and b: "b < batch_size c"
    and pos: "num_tokens c ! b - ks ! b \<le> pos" "pos < num_tokens c ! b"
    and rows: "map length rows = ks"
  obtains i where "i < length (step_cells c bs ks)" "step_cells c bs ks ! i = cell c bs b pos"
    "concat rows ! i = rows ! b ! (pos - (num_tokens c ! b - ks ! b))"
proof -
  let ?lo = "num_tokens c ! b - ks ! b"
  let ?parts = "map (\<lambda>b. map (cell c bs b) [num_tokens c ! b - ks ! b ..< num_tokens c ! b]) [0 ..< batch_size c]"
  have len: "map length ?parts = ks"
    using sc by (intro nth_equalityI) (auto simp: step_counts_def)
  have lb: "b < length ?parts" "b < length rows"
    using b sc rows by (auto simp: step_counts_def dest: map_eq_imp_length_eq)
  have k: "ks ! b \<le> num_tokens c ! b" "b < length ks" using sc b by (auto simp: step_counts_def)
  have lr: "length (rows ! b) = ks ! b" using rows lb(2) by (metis nth_map)
  have lp: "length (?parts ! b) = ks ! b" using b k by simp
  define i where "i = sum_list (take b ks) + (pos - ?lo)"
  have tk: "sum_list (map length (take b ?parts)) = sum_list (take b ks)"
      "sum_list (map length (take b rows)) = sum_list (take b ks)"
    using len rows by (metis take_map)+
  have j: "pos - ?lo < ks ! b" using pos k by linarith
  note A = nth_concat_part [OF lb(1), of "pos - ?lo", unfolded lp tk, OF j]
  note B = nth_concat_part [OF lb(2), of "pos - ?lo", unfolded lr tk, OF j]
  have "?parts ! b ! (pos - ?lo) = cell c bs b pos" using b j pos by simp
  then show thesis using that [of i] A B by (simp add: i_def step_cells_def range_cells_def)
qed

definition layer_streams :: "nat \<Rightarrow> (nat \<times> string) set" where
  "layer_streams l = {(l, ''k''), (l, ''v'')}"

text \<open>What writing one layer does: the new rows of every slot are stored, all other cells keep
  their rows, and the cache only gains cached indices.\<close>

definition layer_written ::
  "nat \<Rightarrow> nat list \<Rightarrow> 'v list list \<Rightarrow> 'v list list \<Rightarrow> 'v kvs \<Rightarrow> 'v kvs \<Rightarrow> bool" where
  "layer_written l ks krows vrows s s' \<longleftrightarrow>
     same_layout (fst s) (fst s') \<and> slot_prompt_tokens (fst s') = slot_prompt_tokens (fst s) \<and>
     slot_num_published (fst s') = slot_num_published (fst s) \<and>
     slot_parent_hash (fst s') = slot_parent_hash (fst s) \<and> static_step (fst s') = static_step (fst s) \<and>
     snd s' = (snd s)\<lparr>storage := storage (snd s')\<rparr> \<and>
     same_outside (layer_streams l) (set (step_cells (fst s) (block_size (snd s)) ks))
       (storage (snd s)) (storage (snd s')) \<and>
     (\<forall>b < batch_size (fst s). \<forall>pos < num_tokens (fst s) ! b. num_tokens (fst s) ! b - ks ! b \<le> pos \<longrightarrow>
        (let cl = cell (fst s) (block_size (snd s)) b pos; i = pos - (num_tokens (fst s) ! b - ks ! b) in
         storage (snd s') l ''k'' (fst cl) (snd cl) = to_dtype (snd s) (krows ! b ! i) \<and>
         storage (snd s') l ''v'' (fst cl) (snd cl) = to_dtype (snd s) (vrows ! b ! i)))"

lemma slice_all: "slice_rows (sums_from 0 (map length rows)) (concat rows) = concat rows"
proof -
  have "sums_from 0 (map length rows) \<noteq> []" by (metis length_sums_from list.size(3) nat.distinct(1))
  then show ?thesis by (simp add: slice_rows_def length_concat)
qed

lemma write_layer_ok:
  assumes inv: "kv_inv digest (c, P) R" and ix: "index_ok (block_size P) c"
    and st: "static_step c = None" and q: "kv_quant P = None" "is_legacy_kv_layout P" "l < num_layers P"
    and cr: "cu_read t c" and t: "tensor_values t = sums_from 0 ks" and sc: "step_counts (block_size P) ks c"
    and rows: "map length krows = ks" "map length vrows = ks"
  shows "\<exists>c' P'. write_packed_kv qwrite dev l (concat krows) (concat vrows) t (c, P) = (Inr (), (c', P')) \<and>
    index_ok (block_size P') c' \<and> cu_read t c' \<and> layer_written l ks krows vrows (c, P) (c', P')"
proof -
  let ?bs = "block_size P" let ?idx = "step_cells c ?bs ks"
  obtain c1 where c1: "cu_seqlens_q_list t c = (tensor_values t, c1)" "cu_read t c1"
      "c1 = c\<lparr>step_cu_tensor := step_cu_tensor c1, step_cu_list := step_cu_list c1\<rparr>"
    using cu_seqlens_q_list_ok [OF st cr] by blast
  have sel1: "same_layout c c1" "write_index c1 = write_index c" "gather_index c1 = gather_index c"
      "page_index_cache c1 = page_index_cache c" "slot_prompt_tokens c1 = slot_prompt_tokens c"
      "slot_num_published c1 = slot_num_published c" "slot_parent_hash c1 = slot_parent_hash c"
      "static_step c1 = static_step c"
    by (subst c1(3), simp add: same_layout_def)+
  have ix1: "index_ok ?bs c1" by (rule index_ok_cong [OF ix sel1(1-4)])
  have nt: "new_tokens (tensor_values t) b = ks ! b" if "b < batch_size c" for b
    using that sc sums_from_diff [of b ks 0] t by (simp add: new_tokens_def step_counts_def)
  have "range_cells c ?bs (\<lambda>b. num_tokens c ! b - new_tokens (tensor_values t) b) (\<lambda>b. num_tokens c ! b) = ?idx"
    unfolding step_cells_def range_cells_def by (rule arg_cong [of _ _ concat], rule map_cong) (auto simp: nt)
  then have "block_slot_index c1 ?bs (write_ranges c1 (tensor_values t)) = Inr ?idx"
    using write_index_ranges [OF inv, of "tensor_values t"] same_layout_index [OF sel1(1)] by simp
  from step_write_index_ok [OF ix1 this, of dev] obtain c2 where c2:
      "step_write_index ?bs (tensor_values t) dev c1 = (Inr ?idx, c2)" "index_ok ?bs c2" "same_layout c1 c2"
      "c2 = c1\<lparr>write_index := write_index c2\<rparr>"
    by blast
  have sel2: "slot_prompt_tokens c2 = slot_prompt_tokens c1" "slot_num_published c2 = slot_num_published c1"
      "slot_parent_hash c2 = slot_parent_hash c1" "static_step c2 = static_step c1"
      "step_cu_tensor c2 = step_cu_tensor c1" "step_cu_list c2 = step_cu_list c1"
    by (subst c2(4), simp)+
  have len: "length (concat krows) = length ?idx" "length (concat vrows) = length ?idx"
  proof -
    have "map length (map (\<lambda>b. map (cell c ?bs b) [num_tokens c ! b - ks ! b ..< num_tokens c ! b]) [0 ..< batch_size c]) = ks"
      using sc by (intro nth_equalityI) (auto simp: step_counts_def)
    then have "length ?idx = sum_list ks" unfolding step_cells_def range_cells_def length_concat by (simp only:)
    then show "length (concat krows) = length ?idx" "length (concat vrows) = length ?idx"
      using rows by (simp_all add: length_concat)
  qed
  have rng: "\<forall>cl \<in> set ?idx. fst cl < num_blocks P \<and> snd cl < block_size P"
    using step_cells_range [OF inv sc] by blast
  from put_kv_ok [OF len step_cells_distinct [OF inv sc] rng, of l] obtain S where S:
      "put_kv l ?idx (concat krows) (concat vrows) P = (Inr (), P\<lparr>storage := S\<rparr>)"
      "same_outside {(l, ''k''), (l, ''v'')} (set ?idx) (storage P) S"
      "\<And>i. i < length ?idx \<Longrightarrow> S l ''k'' (fst (?idx ! i)) (snd (?idx ! i)) = to_dtype P (concat krows ! i) \<and>
        S l ''v'' (fst (?idx ! i)) (snd (?idx ! i)) = to_dtype P (concat vrows ! i)"
    by blast
  have sl: "slice_rows (tensor_values t) (concat krows) = concat krows"
      "slice_rows (tensor_values t) (concat vrows) = concat vrows"
    using slice_all [of krows] slice_all [of vrows] rows t by simp_all
  have "write_packed_kv qwrite dev l (concat krows) (concat vrows) t (c, P) = (Inr (), (c2, P\<lparr>storage := S\<rparr>))"
    using q c1(1) c2(1) S(1) sl
    by (simp add: write_packed_kv_def write_packed_kv_uncompressed_def storage_for_layer_def write_cells_def
        on_cache_def on_pool_def seq_def)
  moreover have "storage (P\<lparr>storage := S\<rparr>) l ''k'' (fst (cell c ?bs b pos)) (snd (cell c ?bs b pos)) =
        to_dtype P (krows ! b ! (pos - (num_tokens c ! b - ks ! b))) \<and>
      storage (P\<lparr>storage := S\<rparr>) l ''v'' (fst (cell c ?bs b pos)) (snd (cell c ?bs b pos)) =
        to_dtype P (vrows ! b ! (pos - (num_tokens c ! b - ks ! b)))"
    if "b < batch_size c" "num_tokens c ! b - ks ! b \<le> pos" "pos < num_tokens c ! b" for b pos
  proof -
    note place = that
    obtain i where i: "i < length ?idx" "?idx ! i = cell c ?bs b pos"
        "concat krows ! i = krows ! b ! (pos - (num_tokens c ! b - ks ! b))"
      using step_cells_nth [OF sc place rows(1)] by metis
    obtain j where j: "j < length ?idx" "?idx ! j = cell c ?bs b pos"
        "concat vrows ! j = vrows ! b ! (pos - (num_tokens c ! b - ks ! b))"
      using step_cells_nth [OF sc place rows(2)] by metis
    show ?thesis using S(3) [OF i(1)] S(3) [OF j(1)] unfolding i(2,3) j(2,3) by simp
  qed
  moreover have "cu_read t c2" using c1(2) sel2 by (simp add: cu_read_def)
  ultimately show ?thesis
    using c2(2,3) sel1 sel2 S(2)
    by (intro exI [of _ c2] exI [of _ "P\<lparr>storage := S\<rparr>"])
      (simp add: layer_written_def layer_streams_def same_layout_def Let_def)
qed

end
