(* ===== verification/Prefix_Transparency.thy ===== *)
theory Prefix_Transparency
  imports Paged_Content
begin

text \<open>
  Sharing is invisible. \<open>kv l nm ts\<close> is the row that layer \<open>l\<close> stores in stream \<open>nm\<close> for the last
  token of the prefix \<open>ts\<close>: the model computes a row from the tokens up to its position, so equal
  prefixes give equal rows. \<open>hist\<close> lists the tokens that each slot holds rows of. \<open>content\<close> says that
  every slot holds the rows of its own tokens, whatever blocks it shares, and that every cached
  block holds the rows of each prompt that can hit it. All operations of the cache keep it.
\<close>

type_synonym 'v rows = "nat \<Rightarrow> string \<Rightarrow> token list \<Rightarrow> 'v"

section \<open>Prompts and hashes\<close>

text \<open>The pairs of a hash and a block that prompts of \<open>U\<close> are stored under.\<close>

definition known_keys :: "digest \<Rightarrow> nat \<Rightarrow> token list set \<Rightarrow> (byte list \<times> token list) set" where
  "known_keys digest bs U = {k. \<exists>q \<in> U. \<exists>chain. compute_block_hashes digest q bs = Inr chain \<and> k \<in> set chain}"

text \<open>The prompts in play can be hashed, and no two different prefixes of them share a hash.\<close>

definition prompts_ok :: "digest \<Rightarrow> nat \<Rightarrow> token list set \<Rightarrow> bool" where
  "prompts_ok digest bs U \<longleftrightarrow>
     (\<forall>q \<in> U. succeeds (compute_block_hashes digest q bs)) \<and>
     (\<forall>q \<in> U. \<forall>q' \<in> U. \<forall>chain chain' i j.
        compute_block_hashes digest q bs = Inr chain \<longrightarrow> compute_block_hashes digest q' bs = Inr chain' \<longrightarrow>
        i < length chain \<longrightarrow> j < length chain' \<longrightarrow> fst (chain ! i) = fst (chain' ! j) \<longrightarrow>
        i = j \<and> take (Suc i * bs) q = take (Suc i * bs) q')"

lemma prompts_ok_same:
  assumes "prompts_ok digest bs U" "q \<in> U" "q' \<in> U" "chained digest bs K q chain" "chained digest bs K' q' chain'"
    "i < length chain" "j < length chain'" "fst (chain ! i) = fst (chain' ! j)"
  shows "i = j" "take (Suc i * bs) q = take (Suc i * bs) q'"
  using assms unfolding prompts_ok_def chained_def by metis+

lemma prompts_ok_chain:
  assumes "prompts_ok digest bs U" "q \<in> U"
  obtains chain where "chained digest bs (known_keys digest bs U) q chain"
proof -
  obtain chain where c: "compute_block_hashes digest q bs = Inr chain"
    using assms unfolding prompts_ok_def succeeds_iff by blast
  then have "set chain \<subseteq> known_keys digest bs U" using assms(2) by (auto simp: known_keys_def)
  with c that show thesis by (simp add: chained_def)
qed

lemma chained_block:
  assumes "chained digest bs K q chain" "i < length chain"
  shows "i < length q div bs" "snd (chain ! i) = prompt_block bs q i"
proof -
  have hb: "hash_blocks digest None (full_blocks bs q) = Inr chain"
    using assms(1) by (simp add: chained_def compute_block_hashes_def)
  show i: "i < length q div bs" using hash_blocks_length [OF hb] assms(2) by (simp add: length_full_blocks)
  show "snd (chain ! i) = prompt_block bs q i" by (rule chained_nth(2) [OF assms(1) i])
qed

lemma take_block_eq:
  assumes "take (Suc i * bs) q = take (Suc i * bs) q'"
  shows "prompt_block bs q i = prompt_block bs q' i"
proof -
  have "prompt_block bs x i = drop (i * bs) (take (Suc i * bs) x)" for x :: "token list"
    by (simp add: prompt_block_def drop_take)
  then show ?thesis using assms by metis
qed

lemma known_keys_sv:
  assumes "prompts_ok digest bs U"
  shows "single_valued (known_keys digest bs U)"
proof (rule single_valuedI)
  fix h t t' assume "(h, t) \<in> known_keys digest bs U" "(h, t') \<in> known_keys digest bs U"
  then obtain q chain q' chain' i j where q: "q \<in> U" "chained digest bs (known_keys digest bs U) q chain"
      "i < length chain" "chain ! i = (h, t)" "q' \<in> U" "chained digest bs (known_keys digest bs U) q' chain'"
      "j < length chain'" "chain' ! j = (h, t')"
    unfolding known_keys_def by (force simp: chained_def in_set_conv_nth)
  have eq: "fst (chain ! i) = fst (chain' ! j)" using q(4,8) by simp
  note same = prompts_ok_same [OF assms q(1,5,2,6,3,7) eq]
  have "prompt_block bs q i = prompt_block bs q' j"
    using take_block_eq [OF same(2)] same(1) by simp
  then show "t = t'" using chained_block(2) [OF q(2,3)] chained_block(2) [OF q(6,7)] q(4,8) by simp
qed

section \<open>Content\<close>

definition kv_streams :: "string set" where
  "kv_streams = {''k'', ''v''}"

text \<open>A cached block holds the rows of every prompt that can hit it.\<close>

definition stored_right :: "'v rows \<Rightarrow> digest \<Rightarrow> token list set \<Rightarrow> 'v pool \<Rightarrow> bool" where
  "stored_right kv digest U P \<longleftrightarrow>
     (\<forall>x q chain i l nm s. q \<in> U \<longrightarrow> chained digest (block_size P) (known_keys digest (block_size P) U) q chain \<longrightarrow>
        i < length chain \<longrightarrow> pkey P x = Some (chain ! i) \<longrightarrow> l < num_layers P \<longrightarrow> nm \<in> kv_streams \<longrightarrow>
        s < block_size P \<longrightarrow> storage P l nm x s = kv l nm (take (Suc (i * block_size P + s)) q))"

definition keys_known :: "digest \<Rightarrow> token list set \<Rightarrow> 'v pool \<Rightarrow> bool" where
  "keys_known digest U P \<longleftrightarrow> (\<forall>x k. pkey P x = Some k \<longrightarrow> k \<in> known_keys digest (block_size P) U)"

text \<open>Slot \<open>b\<close> holds, in layer \<open>l\<close>, the rows of the first \<open>m b\<close> tokens of its history.\<close>

definition layer_right ::
  "'v rows \<Rightarrow> token list list \<Rightarrow> (nat \<Rightarrow> nat) \<Rightarrow> 'v kvs \<Rightarrow> nat \<Rightarrow> bool" where
  "layer_right kv hist m s l \<longleftrightarrow>
     (\<forall>b < batch_size (fst s). \<forall>pos < m b. \<forall>nm \<in> kv_streams.
        storage (snd s) l nm (fst (cell (fst s) (block_size (snd s)) b pos))
          (snd (cell (fst s) (block_size (snd s)) b pos)) = kv l nm (take (Suc pos) (hist ! b)))"

text \<open>The history of a slot: as long as its length says, and it starts with its prompt.\<close>

definition hist_ok :: "token list set \<Rightarrow> token list list \<Rightarrow> 'v kvcache \<Rightarrow> bool" where
  "hist_ok U hist c \<longleftrightarrow> length hist = batch_size c \<and>
     (\<forall>b < batch_size c. length (hist ! b) = num_tokens c ! b \<and> slot_prompt_tokens c ! b \<in> U \<and>
        take (length (slot_prompt_tokens c ! b)) (hist ! b) = take (num_tokens c ! b) (slot_prompt_tokens c ! b))"

definition pool_right :: "'v rows \<Rightarrow> digest \<Rightarrow> token list set \<Rightarrow> 'v pool \<Rightarrow> bool" where
  "pool_right kv digest U P \<longleftrightarrow> prompts_ok digest (block_size P) U \<and> keys_known digest U P \<and> stored_right kv digest U P"

definition content :: "'v rows \<Rightarrow> digest \<Rightarrow> token list set \<Rightarrow> token list list \<Rightarrow> 'v kvs \<Rightarrow> bool" where
  "content kv digest U hist s \<longleftrightarrow>
     pool_right kv digest U (snd s) \<and> hist_ok U hist (fst s) \<and>
     (\<forall>l < num_layers (snd s). layer_right kv hist (\<lambda>b. num_tokens (fst s) ! b) s l)"

lemma pool_right_cong:
  assumes "pool_right kv digest U P" "block_size P' = block_size P" "num_layers P' = num_layers P"
    "storage P' = storage P" "\<And>x. pkey P' x = None \<or> pkey P' x = pkey P x"
  shows "pool_right kv digest U P'"
proof -
  have key: "pkey P' x = Some k \<Longrightarrow> pkey P x = Some k" for x k using assms(5) [of x] by auto
  have "keys_known digest U P'"
    using assms(1) key unfolding pool_right_def keys_known_def assms(2) by blast
  moreover have "stored_right kv digest U P'"
    using assms(1) key unfolding pool_right_def stored_right_def assms(2-4) by blast
  ultimately show ?thesis using assms(1) by (simp add: pool_right_def assms(2))
qed

lemma compatible_known:
  assumes "pool_right kv digest U P"
  shows "compatible P (known_keys digest (block_size P) U)"
proof -
  note sv = known_keys_sv [of digest "block_size P" U]
  have "single_valued (known_keys digest (block_size P) U)" using assms sv by (simp add: pool_right_def)
  moreover have "t' = t" if "pkey P b = Some (h, t')" "(h, t) \<in> known_keys digest (block_size P) U" for b h t t'
    using that assms calculation by (auto simp: pool_right_def keys_known_def dest: single_valuedD)
  ultimately show ?thesis by (auto simp: compatible_def)
qed

lemma all_chained_known:
  assumes "pool_right kv digest U P" "hist_ok U hist c"
  shows "all_chained digest (block_size P) (known_keys digest (block_size P) U) c"
  using assms prompts_ok_chain unfolding all_chained_def pool_right_def hist_ok_def by metis

text \<open>The rows of a position of a slot that lies in its prompt.\<close>

lemma prompt_row:
  assumes "hist_ok U hist c" "b < batch_size c" "pos < num_tokens c ! b" "pos < length (slot_prompt_tokens c ! b)"
  shows "take (Suc pos) (hist ! b) = take (Suc pos) (slot_prompt_tokens c ! b)"
proof -
  let ?p = "slot_prompt_tokens c ! b"
  have "take (length ?p) (hist ! b) = take (num_tokens c ! b) ?p" using assms by (simp add: hist_ok_def)
  then have "take (Suc pos) (take (length ?p) (hist ! b)) = take (Suc pos) (take (num_tokens c ! b) ?p)" by simp
  then show ?thesis using assms(3,4) by simp
qed

section \<open>Publishing keeps the content\<close>

lemma block_published_parts:
  assumes "block_published b i h s s'"
  obtains k where "block_ids (fst s') = (block_ids (fst s))[b := (block_ids (fst s) ! b)[i := k]]"
    "num_tokens (fst s') = num_tokens (fst s)" "pool_frame (snd s') = pool_frame (snd s)"
    "\<And>x. pkey (snd s') x = pkey (snd s) x \<or> x = block_ids (fst s) ! b ! i \<and>
       pkey (snd s') x = Some (h, prompt_block (block_size (snd s)) (slot_prompt_tokens (fst s) ! b) i)"
    "k = block_ids (fst s) ! b ! i \<or>
       pkey (snd s) k = Some (h, prompt_block (block_size (snd s)) (slot_prompt_tokens (fst s) ! b) i)"
  using assms unfolding block_published_def by (metis fun_upd_apply)

lemma nth_nested_update:
  assumes "xss[b := (xss ! b)[i := k]] ! b' ! j \<noteq> xss ! b' ! j"
  shows "b' = b \<and> j = i \<and> b < length xss \<and> i < length (xss ! b) \<and> k \<noteq> xss ! b ! i"
proof -
  have b: "b < length xss" using assms by (cases "b < length xss") (simp_all add: list_update_beyond)
  have bb: "b' = b" using assms by (cases "b' = b") simp_all
  have i: "i < length (xss ! b)"
    using assms by (cases "i < length (xss ! b)") (simp_all add: list_update_beyond)
  have "j = i" using assms b bb by (cases "j = i") simp_all
  then show ?thesis using assms b bb i by auto
qed

lemma publish_right:
  fixes s s' :: "'v kvs"
  assumes pr: "pool_right kv digest U (snd s)" and ho: "hist_ok U hist (fst s)"
    and lr: "\<And>l. l < num_layers (snd s) \<Longrightarrow> layer_right kv hist (\<lambda>b. num_tokens (fst s) ! b) s l"
    and b: "b < batch_size (fst s)" and i: "i < publish_target (block_size (snd s)) b (fst s)"
    and ch: "chained digest (block_size (snd s)) (known_keys digest (block_size (snd s)) U)
      (slot_prompt_tokens (fst s) ! b) chain"
    and pub: "block_published b i (fst (chain ! i)) s s'"
  shows "pool_right kv digest U (snd s')"
    and "\<And>l. l < num_layers (snd s') \<Longrightarrow> layer_right kv hist (\<lambda>b. num_tokens (fst s') ! b) s' l"
proof -
  let ?bs = "block_size (snd s)" let ?p = "slot_prompt_tokens (fst s) ! b" let ?ids = "block_ids (fst s) ! b"
  have tgt: "i < num_tokens (fst s) ! b div ?bs" "i < length ?p div ?bs"
    using i by (simp_all add: publish_target_def)
  note cn = chained_nth [OF ch tgt(2)]
  have key: "(fst (chain ! i), prompt_block ?bs ?p i) = chain ! i" using cn(2) by (metis prod.collapse)
  obtain k where k: "block_ids (fst s') = (block_ids (fst s))[b := ?ids[i := k]]"
      "num_tokens (fst s') = num_tokens (fst s)" "pool_frame (snd s') = pool_frame (snd s)"
      "\<And>x. pkey (snd s') x = pkey (snd s) x \<or> x = ?ids ! i \<and> pkey (snd s') x = Some (chain ! i)"
      "k = ?ids ! i \<or> pkey (snd s) k = Some (chain ! i)"
  proof (rule block_published_parts [OF pub, unfolded key], goal_cases)
    case (1 k)
    show ?case by (rule 1(1) [OF 1(2-6)])
  qed
  note fr = pool_frameD [OF k(3)]
  have pU: "?p \<in> U" using ho b by (simp add: hist_ok_def)
  have prow: "take (Suc (i * ?bs + r)) (hist ! b) = take (Suc (i * ?bs + r)) ?p" if "r < ?bs" for r
    by (rule prompt_row [OF ho b]) (use block_end_le [OF tgt(1)] block_end_le [OF tgt(2)] that in linarith)+
  have own: "storage (snd s) l nm (?ids ! i) r = kv l nm (take (Suc (i * ?bs + r)) ?p)"
    if "l < num_layers (snd s)" "nm \<in> kv_streams" "r < ?bs" for l nm r
  proof -
    have pos: "i * ?bs + r < num_tokens (fst s) ! b" using block_end_le [OF tgt(1)] that(3) by linarith
    have "cell (fst s) ?bs b (i * ?bs + r) = (?ids ! i, r)" using that(3) by (simp add: cell_def)
    moreover have "storage (snd s) l nm (fst (cell (fst s) ?bs b (i * ?bs + r)))
        (snd (cell (fst s) ?bs b (i * ?bs + r))) = kv l nm (take (Suc (i * ?bs + r)) (hist ! b))"
      using lr [OF that(1)] b pos that(2) unfolding layer_right_def by blast
    ultimately show ?thesis using prow [OF that(3)] by simp
  qed
  have st: "stored_right kv digest U (snd s)" "keys_known digest U (snd s)" "prompts_ok digest ?bs U"
    using pr by (simp_all add: pool_right_def)
  have "stored_right kv digest U (snd s')" unfolding stored_right_def fr(2,3,4)
  proof (intro allI impI)
    fix x q chain' j l nm r
    assume a: "q \<in> U" "chained digest ?bs (known_keys digest ?bs U) q chain'" "j < length chain'"
      "pkey (snd s') x = Some (chain' ! j)" "l < num_layers (snd s)" "nm \<in> kv_streams" "r < ?bs"
    show "storage (snd s) l nm x r = kv l nm (take (Suc (j * ?bs + r)) q)"
    proof (cases "pkey (snd s') x = pkey (snd s) x")
      case True
      then have "pkey (snd s) x = Some (chain' ! j)" using a(4) by simp
      then show ?thesis using st(1) a unfolding stored_right_def by blast
    next
      case False
      then have x: "x = ?ids ! i" "chain ! i = chain' ! j" using k(4) [of x] a(4) by auto
      have eq: "fst (chain ! i) = fst (chain' ! j)" using x(2) by simp
      note same = prompts_ok_same [OF st(3) pU a(1) ch a(2) cn(1) a(3) eq]
      have "take (Suc (i * ?bs + r)) ?p = take (Suc (i * ?bs + r)) (take (Suc i * ?bs) ?p)"
        using a(7) by simp
      also have "\<dots> = take (Suc (i * ?bs + r)) q" unfolding same(2) using a(7) by simp
      finally show ?thesis using own [OF a(5,6,7)] x(1) same(1) by simp
    qed
  qed
  moreover have "keys_known digest U (snd s')"
    unfolding keys_known_def fr(2) using k(4) st(2) cn(3) unfolding keys_known_def by (metis option.inject)
  ultimately show "pool_right kv digest U (snd s')" using st(3) by (simp add: pool_right_def fr(2))
  fix l assume l: "l < num_layers (snd s')"
  show "layer_right kv hist (\<lambda>b. num_tokens (fst s') ! b) s' l" unfolding layer_right_def k(2) fr(2,4)
  proof (intro allI impI ballI)
    fix b' pos nm
    assume a: "b' < batch_size (fst s')" "pos < num_tokens (fst s) ! b'" "nm \<in> kv_streams"
    have b': "b' < batch_size (fst s)" using a(1) k(2) by (simp add: batch_size_def)
    have old: "storage (snd s) l nm (fst (cell (fst s) ?bs b' pos)) (snd (cell (fst s) ?bs b' pos)) =
        kv l nm (take (Suc pos) (hist ! b'))"
      using lr [of l] l fr(3) b' a(2,3) unfolding layer_right_def by simp
    show "storage (snd s) l nm (fst (cell (fst s') ?bs b' pos)) (snd (cell (fst s') ?bs b' pos)) =
        kv l nm (take (Suc pos) (hist ! b'))"
    proof (cases "cell (fst s') ?bs b' pos = cell (fst s) ?bs b' pos")
      case True
      then show ?thesis using old by simp
    next
      case False
      then have "(block_ids (fst s))[b := ?ids[i := k]] ! b' ! (pos div ?bs) \<noteq> block_ids (fst s) ! b' ! (pos div ?bs)"
        by (auto simp: cell_def k(1))
      from nth_nested_update [OF this]
      have bb: "b' = b" "pos div ?bs = i" "k \<noteq> ?ids ! i"
        and len: "i < length ?ids" "b < length (block_ids (fst s))" by auto
      have kk: "pkey (snd s) k = Some (chain ! i)" using k(5) bb(3) by blast
      have pos: "pos = i * ?bs + pos mod ?bs" using bb(2) by (metis div_mult_mod_eq)
      have r: "pos mod ?bs < ?bs" using tgt(1) by (cases "?bs = 0") auto
      have "storage (snd s) l nm k (pos mod ?bs) = kv l nm (take (Suc (i * ?bs + pos mod ?bs)) ?p)"
        using st(1) pU ch cn(1) kk l fr(3) a(3) r unfolding stored_right_def by metis
      also have "\<dots> = kv l nm (take (Suc pos) (hist ! b))" using prow [OF r] pos by simp
      finally show ?thesis using bb(1,2) len by (simp add: cell_def k(1))
    qed
  qed
qed

section \<open>Growing and writing keep the content\<close>

lemma layer_right_mono:
  "layer_right kv hist m s l \<Longrightarrow> (\<And>b. b < batch_size (fst s) \<Longrightarrow> m' b \<le> m b) \<Longrightarrow> layer_right kv hist m' s l"
  unfolding layer_right_def by (meson order_less_le_trans)

text \<open>Longer histories.\<close>

lemma layer_right_extend:
  assumes "layer_right kv hist m s l"
    and "\<And>b. b < batch_size (fst s) \<Longrightarrow> m b \<le> length (hist ! b) \<and> hist' ! b = hist ! b @ new ! b"
  shows "layer_right kv hist' m s l"
  unfolding layer_right_def
proof (intro allI impI ballI)
  fix b pos nm assume a: "b < batch_size (fst s)" "pos < m b" "nm \<in> kv_streams"
  then have "Suc pos \<le> length (hist ! b)" "hist' ! b = hist ! b @ new ! b" using assms(2) [OF a(1)] by auto
  then have "take (Suc pos) (hist' ! b) = take (Suc pos) (hist ! b)" by simp
  then show "storage (snd s) l nm (fst (cell (fst s) (block_size (snd s)) b pos))
      (snd (cell (fst s) (block_size (snd s)) b pos)) = kv l nm (take (Suc pos) (hist' ! b))"
    using assms(1) a unfolding layer_right_def by simp
qed

lemma grown_right:
  assumes inv: "kv_inv digest (c, P) R" and pr: "pool_right kv digest U P"
    and lr: "layer_right kv hist (\<lambda>b. num_tokens c ! b) (c, P) l" and g: "slots_grown cu 0 m (c, P) (c', P')"
  shows "pool_right kv digest U P'" "layer_right kv hist (\<lambda>b. num_tokens c ! b) (c', P') l"
proof -
  note g' = g [unfolded slots_grown_def fst_conv snd_conv]
  have fr: "pool_frame P' = pool_frame P" using g' by blast
  show "pool_right kv digest U P'"
    by (rule pool_right_cong [OF pr]) (use g' pool_frameD(2,3,4) [OF fr] in auto)
  show "layer_right kv hist (\<lambda>b. num_tokens c ! b) (c', P') l" unfolding layer_right_def fst_conv snd_conv
  proof (intro allI impI ballI)
    fix b pos nm assume a: "b < batch_size c'" "pos < num_tokens c ! b" "nm \<in> kv_streams"
    have b: "b < batch_size c" using a(1) g' by simp
    obtain new where "block_ids c' ! b = block_ids c ! b @ new" using g' b by blast
    then have "cell c' (block_size P') b pos = cell c (block_size P) b pos"
      using slot_covers [OF inv b a(2)] pool_frameD(2) [OF fr] by (simp add: cell_def nth_append)
    then show "storage P' l nm (fst (cell c' (block_size P') b pos)) (snd (cell c' (block_size P') b pos)) =
        kv l nm (take (Suc pos) (hist ! b))"
      using lr b a(2,3) pool_frameD(4) [OF fr] unfolding layer_right_def by simp
  qed
qed

text \<open>The rows that a step stores are the model's rows of the new tokens.\<close>

definition new_rows_right ::
  "'v rows \<Rightarrow> ('v \<Rightarrow> 'v) \<Rightarrow> token list list \<Rightarrow> nat list \<Rightarrow> nat \<Rightarrow> 'v list list \<Rightarrow> 'v list list \<Rightarrow> bool" where
  "new_rows_right kv cast hist ks l krows vrows \<longleftrightarrow>
     map length krows = ks \<and> map length vrows = ks \<and>
     (\<forall>b < length ks. \<forall>i < ks ! b.
        cast (krows ! b ! i) = kv l ''k'' (take (Suc (length (hist ! b) - ks ! b + i)) (hist ! b)) \<and>
        cast (vrows ! b ! i) = kv l ''v'' (take (Suc (length (hist ! b) - ks ! b + i)) (hist ! b)))"

lemma cell_same_layout: "same_layout c c' \<Longrightarrow> cell c' = cell c" "same_layout c c' \<Longrightarrow> batch_size c' = batch_size c"
  by (simp_all add: same_layout_def cell_def batch_size_def fun_eq_iff)

lemma written_right:
  assumes inv: "kv_inv digest (c, P) R" and sc: "step_counts (block_size P) ks c"
    and w: "layer_written l ks krows vrows (c, P) (c', P')"
  shows "pool_right kv digest U P \<Longrightarrow> pool_right kv digest U P'"
    and "l' \<noteq> l \<Longrightarrow> layer_right kv hist m (c, P) l' \<Longrightarrow> layer_right kv hist m (c', P') l'"
    and "hist_ok U hist c \<Longrightarrow> new_rows_right kv (to_dtype P) hist ks l krows vrows \<Longrightarrow>
      layer_right kv hist (\<lambda>b. num_tokens c ! b - ks ! b) (c, P) l \<Longrightarrow>
      layer_right kv hist (\<lambda>b. num_tokens c ! b) (c', P') l"
proof -
  note w' = w [unfolded layer_written_def fst_conv snd_conv]
  have P': "P' = P\<lparr>storage := storage P'\<rparr>" and lay: "same_layout c c'" using w' by blast+
  have sel: "block_size P' = block_size P" "num_layers P' = num_layers P" "pkey P' = pkey P"
    by (subst P', simp)+
  note out = w' [THEN conjunct2, THEN conjunct2, THEN conjunct2, THEN conjunct2, THEN conjunct2, THEN conjunct2, THEN conjunct1]
  show "pool_right kv digest U P'" if pr: "pool_right kv digest U P"
  proof -
    have "storage P' l nm x s = storage P l nm x s" if "pkey P x = Some k" for l nm x s k
    proof -
      have "(x, s) \<notin> set (step_cells c (block_size P) ks)"
        using step_cells_range(3) [OF inv sc, of "(x, s)"] that by auto
      then show ?thesis using out unfolding same_outside_def by blast
    qed
    then have "stored_right kv digest U P'"
      using pr unfolding pool_right_def stored_right_def sel by metis
    then show ?thesis using pr by (simp add: pool_right_def keys_known_def sel)
  qed
  show "layer_right kv hist m (c', P') l'" if "l' \<noteq> l" "layer_right kv hist m (c, P) l'"
  proof -
    have "storage P' l' = storage P l'"
      using out that(1) unfolding same_outside_def layer_streams_def by (auto simp: fun_eq_iff)
    then show ?thesis using that(2) by (simp add: layer_right_def cell_same_layout [OF lay] sel)
  qed
  show "layer_right kv hist (\<lambda>b. num_tokens c ! b) (c', P') l"
    if ho: "hist_ok U hist c" and rows: "new_rows_right kv (to_dtype P) hist ks l krows vrows"
      and lr: "layer_right kv hist (\<lambda>b. num_tokens c ! b - ks ! b) (c, P) l"
    unfolding layer_right_def fst_conv snd_conv cell_same_layout [OF lay] sel
  proof (intro allI impI ballI)
    fix b pos nm assume a: "b < batch_size c" "pos < num_tokens c ! b" "nm \<in> kv_streams"
    let ?cl = "cell c (block_size P) b pos" and ?lo = "num_tokens c ! b - ks ! b"
    have k: "ks ! b \<le> num_tokens c ! b" "length ks = batch_size c" "length (hist ! b) = num_tokens c ! b"
      using sc ho a(1) by (auto simp: step_counts_def hist_ok_def)
    show "storage P' l nm (fst ?cl) (snd ?cl) = kv l nm (take (Suc pos) (hist ! b))"
    proof (cases "?lo \<le> pos")
      case True
      then have i: "pos - ?lo < ks ! b" "?lo + (pos - ?lo) = pos" using k(1) a(2) by auto
      have "storage P' l ''k'' (fst ?cl) (snd ?cl) = to_dtype P (krows ! b ! (pos - ?lo)) \<and>
          storage P' l ''v'' (fst ?cl) (snd ?cl) = to_dtype P (vrows ! b ! (pos - ?lo))"
        using w' a(1,2) True by (simp add: Let_def)
      moreover have "to_dtype P (krows ! b ! (pos - ?lo)) = kv l ''k'' (take (Suc pos) (hist ! b)) \<and>
          to_dtype P (vrows ! b ! (pos - ?lo)) = kv l ''v'' (take (Suc pos) (hist ! b))"
        using rows i k a(1) unfolding new_rows_right_def by metis
      ultimately show ?thesis using a(3) by (auto simp: kv_streams_def)
    next
      case False
      then have "?cl \<notin> set (step_cells c (block_size P) ks)"
        using cell_mem_step [OF inv sc a(1,2)] by simp
      then have "storage P' l nm (fst ?cl) (snd ?cl) = storage P l nm (fst ?cl) (snd ?cl)"
        using out unfolding same_outside_def by (metis prod.collapse)
      then show ?thesis using lr a(1,3) False unfolding layer_right_def by simp
    qed
  qed
qed

section \<open>A whole step\<close>

text \<open>The layers of one forward pass append in order; \<open>ks l\<close> and \<open>vs l\<close> are layer \<open>l\<close>'s packed rows.\<close>

definition step_layers ::
  "'v qwriter \<Rightarrow> digest \<Rightarrow> nat \<Rightarrow> cu_tensor \<Rightarrow> (nat \<Rightarrow> 'v list) \<Rightarrow> (nat \<Rightarrow> 'v list) \<Rightarrow> ('v kvs, unit) act" where
  "step_layers qwrite digest dev t ks vs = (\<lambda>(c, P).
     for_each (\<lambda>l. append_kv_packed qwrite digest dev (ks l) (vs l) t l) [0 ..< num_layers P] (c, P))"

text \<open>The configuration of a pool that no operation changes.\<close>

definition pool_cfg where
  "pool_cfg P = (block_size P, num_layers P, kv_quant P, is_legacy_kv_layout P, to_dtype P,
     pool_prefix_cache P = None, layer_kv_shape P, layer_attention P, attention_backend P, num_blocks P)"

lemma pool_cfg_frame: "pool_frame P = pool_frame Q \<Longrightarrow> pool_cfg P = pool_cfg Q"
proof -
  assume fr: "pool_frame P = pool_frame Q"
  then have "f (fst (pool_frame P)) = f (fst (pool_frame Q))" for f :: "'a pool \<Rightarrow> 'b" by simp
  from this [of to_dtype] this [of layer_attention] this [of attention_backend]
  have "to_dtype P = to_dtype Q" "layer_attention P = layer_attention Q" "attention_backend P = attention_backend Q"
    by (simp_all add: pool_frame_def)
  then show ?thesis using pool_frameD [OF fr] by (simp add: pool_cfg_def)
qed

lemma pool_cfg_storage [simp]: "pool_cfg (P\<lparr>storage := S\<rparr>) = pool_cfg P"
  by (simp add: pool_cfg_def)

lemma pool_cfgD:
  assumes "pool_cfg P = pool_cfg Q"
  shows "block_size P = block_size Q" "num_layers P = num_layers Q" "kv_quant P = kv_quant Q"
    "is_legacy_kv_layout P = is_legacy_kv_layout Q" "to_dtype P = to_dtype Q"
    "pool_prefix_cache P = None \<longleftrightarrow> pool_prefix_cache Q = None" "layer_kv_shape P = layer_kv_shape Q"
    "layer_attention P = layer_attention Q" "attention_backend P = attention_backend Q" "num_blocks P = num_blocks Q"
  using assms by (simp_all add: pool_cfg_def)

text \<open>The state between two layers: the layers below \<open>n\<close> hold the rows of the new tokens.\<close>

definition mid_step ::
  "'v rows \<Rightarrow> digest \<Rightarrow> token list set \<Rightarrow> nat multiset \<Rightarrow> cu_tensor \<Rightarrow> nat list \<Rightarrow> token list list
    \<Rightarrow> 'v pool \<Rightarrow> nat \<Rightarrow> 'v kvs \<Rightarrow> bool" where
  "mid_step kv digest U R t ks hist P0 n s \<longleftrightarrow>
     kv_inv digest s R \<and> index_ok (block_size P0) (fst s) \<and> static_step (fst s) = None \<and>
     cu_read t (fst s) \<and> step_counts (block_size P0) ks (fst s) \<and> hist_ok U hist (fst s) \<and>
     pool_right kv digest U (snd s) \<and> pool_cfg (snd s) = pool_cfg P0 \<and>
     (\<forall>l < num_layers P0. layer_right kv hist
        (\<lambda>b. if l < n then num_tokens (fst s) ! b else num_tokens (fst s) ! b - ks ! b) s l)"

lemma mid_step_write:
  assumes m: "mid_step kv digest U R t ks hist P0 l s" and l: "l < num_layers P0"
    and q: "kv_quant P0 = None" "is_legacy_kv_layout P0"
    and t: "tensor_values t = sums_from 0 ks"
    and rows: "new_rows_right kv (to_dtype P0) hist ks l krows vrows"
  shows "\<exists>s'. write_packed_kv qwrite dev l (concat krows) (concat vrows) t s = (Inr (), s') \<and>
    mid_step kv digest U R t ks hist P0 (Suc l) s' \<and> num_tokens (fst s') = num_tokens (fst s)"
proof -
  obtain c P where s: "s = (c, P)" by (cases s)
  note m' = m [unfolded mid_step_def s fst_conv snd_conv]
  have cfg: "pool_cfg P = pool_cfg P0" using m' by blast
  note cf = pool_cfgD [OF cfg]
  have inv: "kv_inv digest (c, P) R" and sc: "step_counts (block_size P) ks c" and ho: "hist_ok U hist c"
    and pr: "pool_right kv digest U P" and st: "static_step c = None" and cr: "cu_read t c"
    and ix: "index_ok (block_size P) c"
    using m' cf by auto
  have lr: "layer_right kv hist (\<lambda>b. if l' < l then num_tokens c ! b else num_tokens c ! b - ks ! b) (c, P) l'"
    if "l' < num_layers P0" for l' using m' that by blast
  have rl: "map length krows = ks" "map length vrows = ks" using rows by (simp_all add: new_rows_right_def)
  have qP: "kv_quant P = None" "is_legacy_kv_layout P" "l < num_layers P" using q cf l by auto
  obtain c' P' where w: "write_packed_kv qwrite dev l (concat krows) (concat vrows) t (c, P) = (Inr (), (c', P'))"
      "index_ok (block_size P') c'" "cu_read t c'" "layer_written l ks krows vrows (c, P) (c', P')"
    using write_layer_ok [OF inv ix st qP cr t sc rl] by blast
  note w' = w(4) [unfolded layer_written_def fst_conv snd_conv]
  have P': "P' = P\<lparr>storage := storage P'\<rparr>" and lay: "same_layout c c'" using w' by blast+
  have cfg': "pool_cfg P' = pool_cfg P0" by (subst P') (simp add: cfg)
  have nt: "num_tokens c' = num_tokens c" "block_ids c' = block_ids c" using lay by (simp_all add: same_layout_def)
  have "kv_inv digest (c', P) R" by (rule kv_inv_cong [OF inv nt(2,1)]) (use w' in auto)
  from kv_inv_storage [OF this, of "storage P'"] have inv': "kv_inv digest (c', P') R" using P' by simp
  have rows': "new_rows_right kv (to_dtype P) hist ks l krows vrows" using rows cf by simp
  have right: "layer_right kv hist (\<lambda>b. if l' < Suc l then num_tokens c' ! b else num_tokens c' ! b - ks ! b) (c', P') l'"
    if "l' < num_layers P0" for l'
  proof (cases "l' = l")
    case True
    then show ?thesis using written_right(3) [OF inv sc w(4) ho rows'] lr [OF that] nt by simp
  next
    case False
    then have "l' < Suc l \<longleftrightarrow> l' < l" by auto
    then show ?thesis using written_right(2) [OF inv sc w(4) False lr [OF that]] unfolding nt(1) by simp
  qed
  have "mid_step kv digest U R t ks hist P0 (Suc l) (c', P')"
    unfolding mid_step_def fst_conv snd_conv
    using inv' w(2,3) w' st right written_right(1) [OF inv sc w(4) pr] cfg' pool_cfgD(1) [OF cfg'] sc ho nt cf(1)
    by (auto simp: step_counts_def hist_ok_def batch_size_def)
  with w(1) nt s show ?thesis by auto
qed

text \<open>The end of a step: all layers hold all rows, and the filled prompt blocks are published.\<close>

definition after_step ::
  "'v rows \<Rightarrow> digest \<Rightarrow> token list set \<Rightarrow> nat multiset \<Rightarrow> token list list \<Rightarrow> 'v pool \<Rightarrow> 'v kvs \<Rightarrow> bool" where
  "after_step kv digest U R hist P0 s \<longleftrightarrow>
     kv_inv digest s R \<and> index_ok (block_size P0) (fst s) \<and> static_step (fst s) = None \<and>
     pool_cfg (snd s) = pool_cfg P0 \<and> content kv digest U hist s"

lemma mid_step_end:
  assumes "mid_step kv digest U R t ks hist P0 (num_layers P0) s"
  shows "after_step kv digest U R hist P0 s"
proof -
  note m = assms [unfolded mid_step_def]
  have "num_layers (snd s) = num_layers P0" using m pool_cfgD(2) by blast
  then show ?thesis using m by (simp add: after_step_def content_def)
qed

text \<open>Publishing keeps the shared indices coherent: a rewritten block table drops them.\<close>

definition index_static :: "nat \<Rightarrow> 'v kvcache \<Rightarrow> bool" where
  "index_static bs c \<longleftrightarrow> index_ok bs c \<and> static_step c = None"

lemma index_static_dropped: "static_step c = None \<Longrightarrow> dropped c \<Longrightarrow> index_static bs c"
  by (simp add: index_static_def index_ok_dropped)

text \<open>What publishing keeps of a cache: everything that a dropped index and new counts keep.\<close>

definition publish_stable :: "('v kvcache \<Rightarrow> bool) \<Rightarrow> bool" where
  "publish_stable J \<longleftrightarrow> (\<forall>c. J c \<longrightarrow> J (layout_changed c) \<and>
     (\<forall>ids. J ((layout_changed c)\<lparr>block_ids := ids\<rparr>)) \<and> (\<forall>b n p. J (with_pub b n p c)))"

lemma publish_blocks_stable:
  assumes "publish_stable J"
  shows "J (fst s) \<Longrightarrow> J (fst (snd (publish_blocks digest b js parent s)))"
proof (induction js arbitrary: parent s)
  case Nil
  then show ?case by (cases s) simp
next
  case (Cons i js)
  obtain c P where s: "s = (c, P)" by (cases s)
  have J: "J c" "J (layout_changed c)" "J ((layout_changed c)\<lparr>block_ids := ids\<rparr>)" for ids
    using Cons.prems s assms by (simp_all add: publish_stable_def)
  show ?case unfolding s publish_blocks.simps Let_def
    by (auto split: option.splits sum.splits prod.splits if_splits simp: J intro!: Cons.IH)
qed

lemma publish_all_stable:
  assumes st: "publish_stable J" and "J (fst s)"
  shows "J (fst (snd (publish_all digest s)))"
proof -
  have slot: "J (fst s')" if "J (fst s)" "publish_filled_blocks digest b s = (r, s')" for b s s' r
  proof -
    obtain c P where s: "s = (c, P)" by (cases s)
    define out where "out = publish_blocks digest b [slot_num_published c ! b ..< publish_target (block_size P) b c]
        (slot_parent_hash c ! b) (c, P)"
    have o: "J (fst (snd out))"
      unfolding out_def by (rule publish_blocks_stable [OF st]) (use that(1) s in simp)
    have pub: "J (with_pub b n p d)" if "J d" for n p d using that st by (simp add: publish_stable_def)
    show ?thesis using that o unfolding s publish_filled_blocks_def Let_def out_def with_pub_def [symmetric]
      by (auto split: prod.splits sum.splits if_splits intro: pub)
  qed
  obtain c P where s: "s = (c, P)" by (cases s)
  have "J (fst (snd (for_each (publish_filled_blocks digest) [0 ..< batch_size c] (c, P))))"
    by (rule for_each_invariant [where I = "\<lambda>s. J (fst s)"])
      (use assms s in simp, rule slot)
  then show ?thesis by (simp add: s publish_all_def)
qed

lemma publish_stable_index: "publish_stable (index_static bs)"
proof -
  have "index_static bs (with_pub b n p d)" if "index_static bs d" for b n p and d :: "'a kvcache"
    using that index_ok_cong [of bs d "with_pub b n p d"]
    by (simp add: index_static_def same_layout_def) (simp add: with_pub_def)
  moreover have "index_static bs (layout_changed d)" "index_static bs ((layout_changed d)\<lparr>block_ids := ids\<rparr>)"
    if "index_static bs d" for ids and d :: "'a kvcache"
    by (rule index_static_dropped; use that in \<open>simp add: index_static_def dropped_def layout_changed_def\<close>)+
  ultimately show ?thesis by (simp add: publish_stable_def)
qed

lemma publish_stable_cu: "publish_stable (cu_read t)"
  by (simp add: publish_stable_def cu_read_def layout_changed_def with_pub_def)

lemma publish_step_cu: "cu_read t (fst s) \<Longrightarrow> cu_read t (fst (snd (publish_step digest l s)))"
  using publish_all_stable [OF publish_stable_cu, of t s digest] by (cases s) (simp add: publish_step_def)

lemma publish_step_after:
  assumes a: "after_step kv digest U R hist P0 s" and L: "num_layers P0 = Suc l"
  shows "\<exists>s'. publish_step digest l s = (Inr (), s') \<and> after_step kv digest U R hist P0 s' \<and>
    num_tokens (fst s') = num_tokens (fst s)"
proof (cases "pool_prefix_cache P0 = None")
  case True
  moreover have "pool_cfg (snd s) = pool_cfg P0" using a by (simp add: after_step_def)
  ultimately have "pool_prefix_cache (snd s) = None" using pool_cfgD(6) by blast
  then have "publish_step digest l s = (Inr (), s)" by (cases s) (simp add: publish_step_def)
  then show ?thesis using a by blast
next
  case False
  obtain c P where s: "s = (c, P)" by (cases s)
  note a' = a [unfolded after_step_def s fst_conv snd_conv content_def]
  have cfg: "pool_cfg P = pool_cfg P0" using a' by blast
  note cf = pool_cfgD [OF cfg]
  have inv: "kv_inv digest (c, P) R" and pr: "pool_right kv digest U P" and ho: "hist_ok U hist c"
    and lr: "\<And>l. l < num_layers P \<Longrightarrow> layer_right kv hist (\<lambda>b. num_tokens c ! b) (c, P) l"
    using a' by auto
  have pc: "pool_prefix_cache P \<noteq> None" using False unfolding cf(6) .
  define J where "J = (\<lambda>s :: 'a kvs. pool_right kv digest U (snd s) \<and>
      (\<forall>l < num_layers (snd s). layer_right kv hist (\<lambda>b. num_tokens (fst s) ! b) s l))"
  have "\<exists>c' P'. publish_all digest (c, P) = (Inr (), (c', P')) \<and> kv_inv digest (c', P') R \<and>
      J (c', P') \<and> compatible P' (known_keys digest (block_size P) U) \<and> same_slots (c, P) (c', P') \<and>
      slot_num_published c' = map (\<lambda>b. publish_target (block_size P) b c) [0 ..< batch_size c]"
  proof (rule publish_all_ok [OF inv pc all_chained_known [OF pr ho] compatible_known [OF pr]])
    show "J (c, P)" using pr lr by (simp add: J_def)
    show "J (with_pub b j p c, P)" if "J (c, P)" for b j p c P
      using that by (simp add: J_def layer_right_def cell_def)
    fix b j chain s s'
    assume st: "J s" "same_slots (c, P) s" "b < batch_size c" "j < publish_target (block_size P) b c"
      "chained digest (block_size P) (known_keys digest (block_size P) U) (slot_prompt_tokens c ! b) chain"
      "block_published b j (fst (chain ! j)) s s'"
    have eqs: "num_tokens (fst s) = num_tokens c" "slot_prompt_tokens (fst s) = slot_prompt_tokens c"
        "block_size (snd s) = block_size P" "batch_size (fst s) = batch_size c"
      using st(2) pool_frameD(2) [of "snd s" P] by (auto simp: same_slots_def batch_size_def)
    have "hist_ok U hist (fst s)" using ho eqs by (simp add: hist_ok_def)
    moreover have "publish_target (block_size (snd s)) b (fst s) = publish_target (block_size P) b c"
      using eqs by (simp add: publish_target_def)
    ultimately show "J s'"
      using publish_right [of kv digest U s hist b j chain s'] st eqs by (simp add: J_def)
  qed
  then obtain c' P' where p: "publish_all digest (c, P) = (Inr (), (c', P'))" "kv_inv digest (c', P') R"
      "J (c', P')" "same_slots (c, P) (c', P')"
    by blast
  have ss: "num_tokens c' = num_tokens c" "slot_prompt_tokens c' = slot_prompt_tokens c" "pool_frame P' = pool_frame P"
    using p(4) by (simp_all add: same_slots_def)
  have "index_static (block_size P0) c'"
    using publish_all_stable [OF publish_stable_index, of "block_size P0" "(c, P)" digest] a' p(1) by (simp add: index_static_def)
  moreover have "hist_ok U hist c'" using ho ss by (simp add: hist_ok_def batch_size_def)
  ultimately have "after_step kv digest U R hist P0 (c', P')"
    using p(2,3) cfg pool_cfg_frame [OF ss(3)] by (simp add: after_step_def content_def index_static_def J_def)
  moreover have "publish_step digest l s = (Inr (), (c', P'))"
    using p(1) pc L cf(2) by (simp add: s publish_step_def)
  ultimately show ?thesis using ss by (intro exI [of _ "(c', P')"]) (simp add: s)
qed

text \<open>Reserving leaves no index and the boundaries of the step.\<close>

lemma reserve_slot_cache:
  assumes "reserve_slot cu b (c, P) = (r, (c', P'))"
  shows "c' = c\<lparr>block_ids := block_ids c', num_tokens := num_tokens c'\<rparr>"
  using assms by (auto simp: reserve_slot_def Let_def split: if_splits prod.splits sum.splits)

definition reserving :: "cu_tensor \<Rightarrow> 'v kvcache \<Rightarrow> bool" where
  "reserving t c \<longleftrightarrow> dropped c \<and> static_step c = None \<and> step_cu_tensor c = Some (tensor_id t) \<and>
     step_cu_list c = tensor_values t"

lemma reserve_loop_cache:
  assumes "reserving t c"
  shows "reserving t (fst (snd (for_each (reserve_slot cu) bs (c, P))))"
proof (rule for_each_invariant [where I = "\<lambda>s. reserving t (fst s)"])
  show "reserving t (fst (c, P))" using assms by simp
  fix b s r s' assume "reserving t (fst s)" "reserve_slot cu b s = (r, s')"
  moreover from this have "fst s' = (fst s)\<lparr>block_ids := block_ids (fst s'), num_tokens := num_tokens (fst s')\<rparr>"
    using reserve_slot_cache by (cases s; cases s') simp
  then obtain ids ns where "fst s' = (fst s)\<lparr>block_ids := ids, num_tokens := ns\<rparr>" by blast
  ultimately show "reserving t (fst s')" by (simp add: reserving_def dropped_def)
qed

text \<open>The tokens of a step: \<open>new ! b\<close> for slot \<open>b\<close>, which go on with the prompt while it lasts.\<close>

definition step_tokens_ok :: "token list list \<Rightarrow> token list list \<Rightarrow> 'v kvcache \<Rightarrow> bool" where
  "step_tokens_ok hist new c \<longleftrightarrow> length new = batch_size c \<and>
     (\<forall>b < batch_size c. take (length (slot_prompt_tokens c ! b)) (hist ! b @ new ! b) =
        take (length (hist ! b @ new ! b)) (slot_prompt_tokens c ! b))"

lemma reserve_mid_step:
  assumes inv: "kv_inv digest (c, P) R" and st: "static_step c = None" and ct: "content kv digest U hist (c, P)"
    and tok: "step_tokens_ok hist new c" and t: "tensor_values t = sums_from 0 (map length new)"
    and av: "total_need (block_size P) (tensor_values t) c 0 \<le> available P"
  shows "\<exists>s'. reserve_new_tokens t (c, P) = (Inr (), s') \<and>
    mid_step kv digest U R t (map length new) (map2 (@) hist new) P 0 s' \<and>
    num_tokens (fst s') = map length (map2 (@) hist new)"
proof -
  define c1 where "c1 = snd (read_cu_seqlens_q t (layout_changed c))"
  let ?cu = "tensor_values t" and ?ks = "map length new" and ?hist = "map2 (@) hist new"
  have c1: "num_tokens c1 = num_tokens c" "block_ids c1 = block_ids c" "batch_size c1 = batch_size c"
      "slot_prompt_tokens c1 = slot_prompt_tokens c" "slot_num_published c1 = slot_num_published c"
      "slot_parent_hash c1 = slot_parent_hash c"
    by (simp_all add: c1_def read_cu_seqlens_q_def batch_size_def)
  have res1: "reserving t c1" using st
    by (simp add: reserving_def c1_def read_cu_seqlens_q_def dropped_def) (simp add: layout_changed_def)
  have inv1: "kv_inv digest (c1, P) R" by (rule kv_inv_cong [OF inv c1(2,1,4,5,6)])
  have eq: "reserve_new_tokens t (c, P) = for_each (reserve_slot ?cu) [0 ..< batch_size c] (c1, P)"
    using c1(3) by (simp add: reserve_new_tokens_def c1_def read_cu_seqlens_q_def)
  have av1: "total_need (block_size P) ?cu c1 0 \<le> available P"
    using av c1 by (simp add: total_need_def need_def [abs_def])
  obtain c2 P2 where s2: "for_each (reserve_slot ?cu) [0 ..< batch_size c1] (c1, P) = (Inr (), (c2, P2))"
      "kv_inv digest (c2, P2) R" "slots_grown ?cu 0 (batch_size c1) (c1, P) (c2, P2)"
  proof -
    obtain m s' where "for_each (reserve_slot ?cu) [0 ..< batch_size c1] (c1, P) = (Inr (), s')"
        "kv_inv digest s' R" "slots_grown ?cu 0 m (c1, P) s'" "m = batch_size c1"
      using reserve_loop [OF inv1 le0, of ?cu] unfolding if_P [OF av1] by blast
    then show ?thesis using that [of "fst s'" "snd s'"] by simp
  qed
  note g = s2(3) [unfolded slots_grown_def fst_conv snd_conv c1]
  have pr: "pool_right kv digest U P" and ho: "hist_ok U hist c"
    and lr: "\<And>l. l < num_layers P \<Longrightarrow> layer_right kv hist (\<lambda>b. num_tokens c ! b) (c, P) l"
    using ct by (simp_all add: content_def)
  have lr1: "layer_right kv hist (\<lambda>b. num_tokens c1 ! b) (c1, P) l" if "l < num_layers P" for l
    using lr [OF that] c1 by (simp add: layer_right_def cell_def)
  have lens: "length hist = batch_size c" "length new = batch_size c" using ho tok
    by (simp_all add: hist_ok_def step_tokens_ok_def)
  have hb: "?hist ! b = hist ! b @ new ! b" "length (hist ! b) = num_tokens c ! b" if "b < batch_size c" for b
    using that lens ho by (simp_all add: hist_ok_def)
  have nt: "num_tokens c2 ! b = num_tokens c ! b + length (new ! b)" if "b < batch_size c" for b
    using g that sums_from_diff [of b ?ks 0] lens t by (simp add: new_tokens_def)
  have b2: "batch_size c2 = batch_size c" using g by simp
  have cfg: "pool_cfg P2 = pool_cfg P" using g pool_cfg_frame by blast
  have res2: "reserving t c2" using reserve_loop_cache [OF res1, of ?cu "[0 ..< batch_size c1]" P] s2(1) by simp
  have right: "layer_right kv ?hist (\<lambda>b. num_tokens c2 ! b - ?ks ! b) (c2, P2) l" if l: "l < num_layers P" for l
  proof -
    have "layer_right kv hist (\<lambda>b. num_tokens c1 ! b) (c2, P2) l"
      by (rule grown_right(2) [OF inv1 pr lr1 [OF l] s2(3)])
    from layer_right_extend [OF this, of ?hist new]
    have "layer_right kv ?hist (\<lambda>b. num_tokens c1 ! b) (c2, P2) l" using b2 hb c1(1) by simp
    then show ?thesis by (rule layer_right_mono) (use nt b2 c1(1) lens in simp)
  qed
  have "hist_ok U ?hist c2"
    using ho tok lens nt b2 hb g by (simp add: hist_ok_def step_tokens_ok_def)
  moreover have "step_counts (block_size P) ?ks c2"
  proof -
    have "slot_num_published c ! b * block_size P \<le> num_tokens c ! b" if "b < batch_size c" for b
      using kv_invD(3) [OF inv that] by (simp add: slot_at_def slot_ok_def)
    then show ?thesis using lens nt b2 g by (simp add: step_counts_def)
  qed
  moreover have "index_ok (block_size P) c2" "static_step c2 = None" "cu_read t c2"
    using res2 by (simp_all add: reserving_def index_ok_dropped cu_read_def)
  moreover have "pool_right kv digest U P2" if "0 < num_layers P" using grown_right(1) [OF inv1 pr lr1 s2(3)] that by blast
  moreover have "pool_right kv digest U P2" if "num_layers P = 0"
    by (rule pool_right_cong [OF pr]) (use g pool_frameD [of P2 P] in auto)
  ultimately have "mid_step kv digest U R t ?ks ?hist P 0 (c2, P2)"
    using s2(2) cfg right by (auto simp: mid_step_def)
  moreover have "num_tokens c2 = map length ?hist"
    using nt hb b2 lens by (intro nth_equalityI) (auto simp: batch_size_def)
  ultimately show ?thesis using eq s2(1) c1(3) by (intro exI [of _ "(c2, P2)"]) simp
qed

text \<open>The state of a step when the layers below \<open>n\<close> have appended.\<close>

definition layer_state ::
  "'v rows \<Rightarrow> digest \<Rightarrow> token list set \<Rightarrow> nat multiset \<Rightarrow> cu_tensor \<Rightarrow> nat list \<Rightarrow> token list list
    \<Rightarrow> 'v pool \<Rightarrow> nat \<Rightarrow> 'v kvs \<Rightarrow> bool" where
  "layer_state kv digest U R t ks hist P0 n s \<longleftrightarrow>
     num_tokens (fst s) = map length hist \<and> cu_read t (fst s) \<and>
     (if n = num_layers P0 then after_step kv digest U R hist P0 s else mid_step kv digest U R t ks hist P0 n s)"

lemma write_and_publish:
  assumes m: "mid_step kv digest U R t ks hist P0 l s" "num_tokens (fst s) = map length hist" and l: "l < num_layers P0"
    and q: "kv_quant P0 = None" "is_legacy_kv_layout P0" and t: "tensor_values t = sums_from 0 ks"
    and rows: "new_rows_right kv (to_dtype P0) hist ks l krows vrows"
  shows "\<exists>s'. seq (write_packed_kv qwrite dev l (concat krows) (concat vrows) t) (\<lambda>_. publish_step digest l) s = (Inr (), s') \<and>
    layer_state kv digest U R t ks hist P0 (Suc l) s'"
proof -
  obtain s1 where s1: "write_packed_kv qwrite dev l (concat krows) (concat vrows) t s = (Inr (), s1)"
      "mid_step kv digest U R t ks hist P0 (Suc l) s1" "num_tokens (fst s1) = num_tokens (fst s)"
    using mid_step_write [OF m(1) l q t rows] by blast
  have cu: "cu_read t (fst s1)" using s1(2) by (simp add: mid_step_def)
  show ?thesis
  proof (cases "Suc l = num_layers P0")
    case True
    have "after_step kv digest U R hist P0 s1" using mid_step_end s1(2) True by metis
    from publish_step_after [OF this, of l] obtain s2 where s2: "publish_step digest l s1 = (Inr (), s2)"
        "after_step kv digest U R hist P0 s2" "num_tokens (fst s2) = num_tokens (fst s1)"
      using True by auto
    have "cu_read t (fst s2)" using publish_step_cu [OF cu, of digest l] s2(1) by simp
    then show ?thesis using s1 s2 m(2) True by (intro exI [of _ s2]) (simp add: seq_Inr layer_state_def)
  next
    case False
    have "pool_cfg (snd s1) = pool_cfg P0" using s1(2) by (simp add: mid_step_def)
    then have "Suc l \<noteq> num_layers (snd s1)" using pool_cfgD(2) False by metis
    then have "publish_step digest l s1 = (Inr (), s1)" by (cases s1) (simp add: publish_step_def)
    then show ?thesis using s1 m(2) False cu by (intro exI [of _ s1]) (simp add: seq_Inr layer_state_def)
  qed
qed

text \<open>Layer 0 of a step that fits the pool, and the layers after it.\<close>

lemma append_first_layer:
  assumes inv: "kv_inv digest (c, P) R" and st: "static_step c = None" and ct: "content kv digest U hist (c, P)"
    and q: "kv_quant P = None" "is_legacy_kv_layout P" "0 < num_layers P"
    and tok: "step_tokens_ok hist new c" and t: "tensor_values t = sums_from 0 (map length new)"
    and av: "total_need (block_size P) (tensor_values t) c 0 \<le> available P"
    and rows: "new_rows_right kv (to_dtype P) (map2 (@) hist new) (map length new) 0 krows vrows"
  shows "\<exists>s'. append_kv_packed qwrite digest dev (concat krows) (concat vrows) t 0 (c, P) = (Inr (), s') \<and>
    layer_state kv digest U R t (map length new) (map2 (@) hist new) P (Suc 0) s'"
proof -
  have lens: "length new = batch_size c" "length hist = batch_size c"
    using tok ct by (simp_all add: step_tokens_ok_def content_def hist_ok_def)
  obtain s0 where s0: "reserve_new_tokens t (c, P) = (Inr (), s0)"
      "mid_step kv digest U R t (map length new) (map2 (@) hist new) P 0 s0"
      "num_tokens (fst s0) = map length (map2 (@) hist new)"
    using reserve_mid_step [OF inv st ct tok t av] by blast
  have "check_new_token_boundaries t c = Inr ()"
    using t lens by (simp add: check_new_token_boundaries_def ensure_def batch_size_def)
  then show ?thesis
    using write_and_publish [OF s0(2,3) q(3,1,2) t rows, of qwrite dev] st s0(1)
    by (simp add: append_kv_packed_def seq_def)
qed

lemma append_next_layer:
  assumes m: "layer_state kv digest U R t ks hist P0 l s" and l: "0 < l" "l < num_layers P0"
    and q: "kv_quant P0 = None" "is_legacy_kv_layout P0" and t: "tensor_values t = sums_from 0 ks"
    and rows: "new_rows_right kv (to_dtype P0) hist ks l krows vrows"
  shows "\<exists>s'. append_kv_packed qwrite digest dev (concat krows) (concat vrows) t l s = (Inr (), s') \<and>
    layer_state kv digest U R t ks hist P0 (Suc l) s'"
proof -
  have ms: "mid_step kv digest U R t ks hist P0 l s" "num_tokens (fst s) = map length hist"
    using m l by (simp_all add: layer_state_def)
  have "length ks = length hist" using ms by (simp add: mid_step_def step_counts_def batch_size_def)
  then have "check_new_token_boundaries t (fst s) = Inr ()"
    using ms(2) t by (simp add: check_new_token_boundaries_def ensure_def batch_size_def)
  moreover have "static_step (fst s) = None" using ms(1) by (simp add: mid_step_def)
  ultimately show ?thesis
    using write_and_publish [OF ms l(2) q t rows, of qwrite dev] l
    by (cases s) (simp add: append_kv_packed_def seq_def ret_def)
qed

text \<open>A step through all layers stores the rows of its tokens and keeps the content.\<close>

lemma step_layers_ok:
  assumes inv: "kv_inv digest (c, P) R" and st: "static_step c = None" and ct: "content kv digest U hist (c, P)"
    and q: "kv_quant P = None" "is_legacy_kv_layout P" "0 < num_layers P"
    and tok: "step_tokens_ok hist new c" and t: "tensor_values t = sums_from 0 (map length new)"
    and av: "total_need (block_size P) (tensor_values t) c 0 \<le> available P"
    and rows: "\<And>l. l < num_layers P \<Longrightarrow>
      new_rows_right kv (to_dtype P) (map2 (@) hist new) (map length new) l (krows l) (vrows l)"
  shows "\<exists>s'. step_layers qwrite digest dev t (\<lambda>l. concat (krows l)) (\<lambda>l. concat (vrows l)) (c, P) = (Inr (), s') \<and>
    after_step kv digest U R (map2 (@) hist new) P s' \<and> num_tokens (fst s') = map length (map2 (@) hist new)"
proof -
  let ?ks = "map length new" and ?hist = "map2 (@) hist new" and ?L = "num_layers P"
  let ?f = "\<lambda>l. append_kv_packed qwrite digest dev (concat (krows l)) (concat (vrows l)) t l"
  let ?I = "layer_state kv digest U R t ?ks ?hist P"
  obtain s1 where s1: "?f 0 (c, P) = (Inr (), s1)" "?I (Suc 0) s1"
    using append_first_layer [OF inv st ct q tok t av rows [OF q(3)]] by blast
  have "\<exists>s'. for_each ?f [Suc 0 ..< ?L] s1 = (Inr (), s') \<and> ?I ?L s'"
  proof (rule for_each_upt [where I = ?I])
    show "?I (Suc 0) s1" "Suc 0 \<le> ?L" using s1(2) q(3) by simp_all
    fix l s assume "Suc 0 \<le> l" "l < ?L" "?I l s"
    then show "\<exists>s'. ?f l s = (Inr (), s') \<and> ?I (Suc l) s'"
      by (intro append_next_layer [OF _ _ _ q(1,2) t rows]) simp_all
  qed
  then obtain s' where "for_each ?f [Suc 0 ..< ?L] s1 = (Inr (), s')" "?I ?L s'" by blast
  moreover from this have "for_each ?f [0 ..< ?L] (c, P) = (Inr (), s')"
    using q(3) s1 by (simp add: upt_conv_Cons)
  ultimately show ?thesis by (intro exI [of _ s']) (simp add: step_layers_def layer_state_def)
qed

end
