(* ===== verification/Serving_Runs.thy ===== *)
theory Serving_Runs
  imports Prefix_Transparency
begin

text \<open>
  Runs of a paged cache: requests join, steps append rows to any mix of slots, slots are truncated
  and removed, in any order. In every reachable state the cache reads back, for each slot, the rows
  of that slot's own tokens: paging, prefix sharing, eviction and block reuse cannot be seen.
\<close>

section \<open>Joining\<close>

lemma hash_blocks_prefix:
  assumes "hash_blocks digest None (take n bl) = Inr c" "hash_blocks digest None bl = Inr chain" "i < n" "n \<le> length bl"
  shows "c ! i = chain ! i" "i < length chain"
proof -
  have "c = take n chain" using hash_blocks_take [OF assms(2), of n] assms(1) by simp
  then show "c ! i = chain ! i" using assms(3) by simp
  show "i < length chain" using hash_blocks_length [OF assms(2)] assms(3,4) by simp
qed

text \<open>The published blocks of a slot hold its prompt's rows.\<close>

lemma published_rows:
  assumes pr: "pool_right kv digest U P" and ok: "slot_ok digest P ids n prompt pub parent" and U: "prompt \<in> U"
    and bs: "0 < block_size P" and pos: "pos < pub * block_size P" and l: "l < num_layers P" "nm \<in> kv_streams"
  shows "storage P l nm (ids ! (pos div block_size P)) (pos mod block_size P) = kv l nm (take (Suc pos) prompt)"
proof -
  let ?bs = "block_size P" let ?i = "pos div ?bs"
  have i: "?i < pub" using pos bs by (simp add: div_less_iff_less_mult)
  obtain c where c: "hash_blocks digest None (take pub (full_blocks ?bs prompt)) = Inr c"
      "pkey P (ids ! ?i) = Some (c ! ?i)" "pub \<le> length prompt div ?bs"
    using ok i unfolding slot_ok_def by blast
  obtain chain where chain: "chained digest ?bs (known_keys digest ?bs U) prompt chain"
    using prompts_ok_chain pr U unfolding pool_right_def by metis
  have "hash_blocks digest None (full_blocks ?bs prompt) = Inr chain"
    using chain by (simp add: chained_def compute_block_hashes_def)
  note pre = hash_blocks_prefix [OF c(1) this i, unfolded length_full_blocks, OF c(3)]
  have "pkey P (ids ! ?i) = Some (chain ! ?i)" using c(2) pre(1) by simp
  then have "storage P l nm (ids ! ?i) (pos mod ?bs) = kv l nm (take (Suc (?i * ?bs + pos mod ?bs)) prompt)"
    using pr U chain pre(2) l bs unfolding pool_right_def stored_right_def by (meson mod_less_divisor)
  then show ?thesis by simp
qed

text \<open>A slot more, with the cached part of its prompt.\<close>

lemma add_request_slot_cache:
  assumes "add_request_slot digest popt (c, P) = (r, (c', P'))"
  shows "dropped c'" "static_step c' = static_step c"
proof -
  have "dropped (append_slot p c)" "static_step (append_slot p c) = static_step c" for p
    by (simp_all add: append_slot_def layout_changed_def dropped_def)
  moreover have "\<exists>ids ns pubs ps. c' = (append_slot (prompt_of popt) c)\<lparr>block_ids := ids, num_tokens := ns,
      slot_num_published := pubs, slot_parent_hash := ps\<rparr>"
  proof -
    have "c' = append_slot (prompt_of popt) c \<or> ?thesis"
      using assms unfolding add_request_slot_def Let_def prod.case
      by (auto split: option.splits sum.splits if_splits prod.splits)
    moreover have "append_slot (prompt_of popt) c = (append_slot (prompt_of popt) c)
        \<lparr>block_ids := block_ids (append_slot (prompt_of popt) c), num_tokens := num_tokens (append_slot (prompt_of popt) c),
         slot_num_published := slot_num_published (append_slot (prompt_of popt) c),
         slot_parent_hash := slot_parent_hash (append_slot (prompt_of popt) c)\<rparr>"
      by simp
    ultimately show ?thesis by blast
  qed
  ultimately show "dropped c'" "static_step c' = static_step c" by (auto simp: dropped_def)
qed

lemma cell_append_slot:
  assumes "block_ids c' = block_ids c @ [ids]" "b < length (block_ids c)"
  shows "cell c' bs b pos = cell c bs b pos"
  using assms by (simp add: cell_def nth_append)

lemma add_request_right:
  assumes a: "after_step kv digest U R hist P0 (c, P)" and U: "prompt \<in> U"
    and add: "add_request_slot digest (Some prompt) (c, P) = (r, (c', P'))"
  shows "after_step kv digest U R (hist @ [take (last (num_tokens c')) prompt]) P0 (c', P')"
proof -
  note a' = a [unfolded after_step_def content_def fst_conv snd_conv]
  have inv: "kv_inv digest (c, P) R" and ho: "hist_ok U hist c" and pr: "pool_right kv digest U P"
    and lr: "\<And>l. l < num_layers P \<Longrightarrow> layer_right kv hist (\<lambda>b. num_tokens c ! b) (c, P) l"
    using a' by auto
  obtain ids where ids: "kv_inv digest (c', P') R" "slot_added digest (Some prompt) (c, P) r (c', P') ids"
    using add_request_slot_ok [OF inv, of "Some prompt"] add by auto
  note s = ids(2) [unfolded slot_added_def fst_conv snd_conv prompt_of_def option.case]
  have fr: "pool_frame P' = pool_frame P" "pkey P' = pkey P" using s by auto
  note fr' = pool_frameD [OF fr(1)]
  let ?n = "length ids * block_size P" and ?B = "batch_size c"
  let ?hist = "hist @ [take ?n prompt]"
  have len: "length (block_ids c) = ?B" "length hist = ?B" "length (slot_prompt_tokens c) = ?B"
      "length (num_tokens c) = ?B" "length (slot_num_published c) = ?B"
    using kv_invD(1) [OF inv] ho by (simp_all add: aligned_def hist_ok_def batch_size_def)
  have B: "batch_size c' = Suc ?B" using s by (simp add: batch_size_def)
  have last: "last (num_tokens c') = ?n" using s by simp
  have le: "?n \<le> length prompt" using s by auto
  have pr': "pool_right kv digest U P'" by (rule pool_right_cong [OF pr]) (use fr fr' in auto)
  have ho': "hist_ok U ?hist c'"
    using ho s B len U le by (auto simp: hist_ok_def nth_append less_Suc_eq)
  have "layer_right kv ?hist (\<lambda>b. num_tokens c' ! b) (c', P') l" if l: "l < num_layers P'" for l
    unfolding layer_right_def fst_conv snd_conv
  proof (intro allI impI ballI)
    fix b pos nm assume p: "b < batch_size c'" "pos < num_tokens c' ! b" "nm \<in> kv_streams"
    show "storage P' l nm (fst (cell c' (block_size P') b pos)) (snd (cell c' (block_size P') b pos)) =
        kv l nm (take (Suc pos) (?hist ! b))"
    proof (cases "b < ?B")
      case True
      have "cell c' (block_size P') b pos = cell c (block_size P) b pos"
        using cell_append_slot [of c' c ids b] s len(1) True fr'(2) by simp
      then show ?thesis using lr [of l] l fr' p True s len unfolding layer_right_def by (simp add: nth_append)
    next
      case False
      then have b: "b = ?B" using p(1) B by simp
      then have pos: "pos < ?n" using p(2) s len by (simp add: nth_append)
      have "slot_at digest P' c' b" using kv_invD(3) [OF ids(1)] p(1) .
      then have ok: "slot_ok digest P' ids ?n prompt (length ids) (slot_parent_hash c' ! b)"
        using s len b by (simp add: slot_at_def nth_append)
      from published_rows [OF pr' ok U kv_invD(4) [OF ids(1)], of pos l nm] pos l p(3) fr'(2)
      show ?thesis using b s len le by (simp add: cell_def nth_append)
    qed
  qed
  moreover have "dropped c'" "static_step c' = None"
    using add_request_slot_cache [OF add] a' by auto
  moreover have "pool_cfg P' = pool_cfg P0" using pool_cfg_frame [OF fr(1)] a' by simp
  ultimately show ?thesis using ids(1) pr' ho'
    by (simp add: after_step_def content_def index_ok_dropped last)
qed

section \<open>Truncating and leaving\<close>

lemma truncate_to_cache:
  assumes "truncate_to b n (c, P) = (Inr (), (c', P'))" "index_ok bs c"
  shows "index_ok bs c'" "static_step c' = static_step c"
proof -
  have "c' = c \<or> dropped c'" "static_step c' = static_step c"
    using assms(1) by (auto simp: truncate_to_def Let_def dropped_def layout_changed_def
        split: if_splits sum.splits prod.splits)
  then show "index_ok bs c'" "static_step c' = static_step c" using assms(2) index_ok_dropped by auto
qed

lemma truncate_right:
  assumes a: "after_step kv digest U R hist P0 (c, P)" and b: "b < batch_size c"
    and m: "m \<le> num_tokens c ! b" "slot_num_published c ! b * block_size P \<le> m"
  shows "\<exists>s'. truncate_to b (int m) (c, P) = (Inr (), s') \<and>
    after_step kv digest U R (hist[b := take m (hist ! b)]) P0 s'"
proof -
  note a' = a [unfolded after_step_def content_def fst_conv snd_conv]
  have inv: "kv_inv digest (c, P) R" and ho: "hist_ok U hist c" and pr: "pool_right kv digest U P"
    and lr: "\<And>l. l < num_layers P \<Longrightarrow> layer_right kv hist (\<lambda>b. num_tokens c ! b) (c, P) l"
    using a' by auto
  obtain c' P' where t: "truncate_to b (int m) (c, P) = (Inr (), (c', P'))" "kv_inv digest (c', P') R"
      "num_tokens c' = (num_tokens c)[b := m]"
      "block_ids c' = (if m = num_tokens c ! b then block_ids c
        else (block_ids c)[b := take (blocks_for (block_size P) m) (block_ids c ! b)])"
      "slot_prompt_tokens c' = slot_prompt_tokens c" "pkey P' = pkey P" "pool_frame P' = pool_frame P"
    using truncate_to_ok [OF inv b m] by blast
  note fr' = pool_frameD [OF t(7)]
  let ?hist = "hist[b := take m (hist ! b)]"
  have len: "length (block_ids c) = batch_size c" "length hist = batch_size c" "length (num_tokens c) = batch_size c"
    using kv_invD(1) [OF inv] ho by (simp_all add: aligned_def hist_ok_def batch_size_def)
  have B: "batch_size c' = batch_size c" using t(3) by (simp add: batch_size_def)
  have le: "num_tokens c' ! b' \<le> num_tokens c ! b'" for b'
    using t(3) m(1) b len by (cases "b' = b") auto
  have pr': "pool_right kv digest U P'" by (rule pool_right_cong [OF pr]) (use t(6) fr' in auto)
  have ho': "hist_ok U ?hist c'"
  proof -
    have "take (length (slot_prompt_tokens c ! b)) (take m (hist ! b)) =
        take (min m (num_tokens c ! b)) (slot_prompt_tokens c ! b)"
      using ho b unfolding hist_ok_def by (metis take_take min.commute)
    then show ?thesis using ho t(3,5) B b len m(1) by (auto simp: hist_ok_def nth_list_update min_def)
  qed
  have "layer_right kv ?hist (\<lambda>b. num_tokens c' ! b) (c', P') l" if l: "l < num_layers P'" for l
    unfolding layer_right_def fst_conv snd_conv
  proof (intro allI impI ballI)
    fix b' pos nm assume p: "b' < batch_size c'" "pos < num_tokens c' ! b'" "nm \<in> kv_streams"
    have pos: "pos < num_tokens c ! b'" using p(2) le [of b'] by linarith
    have "pos div block_size P < blocks_for (block_size P) (num_tokens c' ! b')"
      by (rule div_less_blocks_for [OF kv_invD(4) [OF inv] p(2)])
    then have "cell c' (block_size P') b' pos = cell c (block_size P) b' pos"
      using t(3,4) fr'(2) b len B p(1) by (auto simp: cell_def nth_list_update)
    moreover have "take (Suc pos) (?hist ! b') = take (Suc pos) (hist ! b')"
      using p(1,2) t(3) b len B by (cases "b' = b") auto
    ultimately show "storage P' l nm (fst (cell c' (block_size P') b' pos)) (snd (cell c' (block_size P') b' pos)) =
        kv l nm (take (Suc pos) (?hist ! b'))"
      using lr [of l] l fr' p(1,3) pos B unfolding layer_right_def by simp
  qed
  moreover have "index_ok (block_size P0) c'" "static_step c' = None"
    using truncate_to_cache [OF t(1)] a' by auto
  moreover have "pool_cfg P' = pool_cfg P0" using pool_cfg_frame [OF t(7)] a' by simp
  ultimately show ?thesis using t(1,2) pr' ho'
    by (intro exI [of _ "(c', P')"]) (simp add: after_step_def content_def)
qed

lemma remove_right:
  assumes a: "after_step kv digest U R hist P0 (c, P)" and b: "b < batch_size c"
  shows "\<exists>s'. remove_request b (c, P) = (Inr (), s') \<and> after_step kv digest U R (remove_at b hist) P0 s'"
proof -
  note a' = a [unfolded after_step_def content_def fst_conv snd_conv]
  have inv: "kv_inv digest (c, P) R" and ho: "hist_ok U hist c" and pr: "pool_right kv digest U P"
    and lr: "\<And>l. l < num_layers P \<Longrightarrow> layer_right kv hist (\<lambda>b. num_tokens c ! b) (c, P) l"
    using a' by auto
  obtain c' P' where t: "remove_request b (c, P) = (Inr (), (c', P'))" "kv_inv digest (c', P') R"
      "num_tokens c' = remove_at b (num_tokens c)" "block_ids c' = remove_at b (block_ids c)"
      "pkey P' = pkey P" "pool_frame P' = pool_frame P"
    using remove_request_ok [OF inv b] by blast
  have sel: "slot_prompt_tokens c' = remove_at b (slot_prompt_tokens c)" "dropped c'"
      "static_step c' = static_step c"
    using t(1) by (auto simp: remove_request_def Let_def dropped_def layout_changed_def
        split: if_splits sum.splits prod.splits)
  note fr' = pool_frameD [OF t(6)]
  have len: "length (block_ids c) = batch_size c" "length hist = batch_size c" "length (num_tokens c) = batch_size c"
      "length (slot_prompt_tokens c) = batch_size c"
    using kv_invD(1) [OF inv] ho by (simp_all add: aligned_def hist_ok_def batch_size_def)
  have B: "batch_size c' = batch_size c - 1" using t(3) b by (simp add: batch_size_def)
  define j where "j = (\<lambda>b'. if b' < b then b' else Suc b')"
  have j: "j b' < batch_size c" if "b' < batch_size c'" for b' using that B b by (auto simp: j_def)
  have at: "remove_at b xs ! b' = xs ! j b'" if "b' < batch_size c'" "length xs = batch_size c" for b' and xs :: "'x list"
    using that B b by (simp add: j_def nth_remove_at)
  have pr': "pool_right kv digest U P'" by (rule pool_right_cong [OF pr]) (use t(5) fr' in auto)
  have ho': "hist_ok U (remove_at b hist) c'"
    using ho B b len j by (simp add: hist_ok_def t(3) sel(1) at)
  have "layer_right kv (remove_at b hist) (\<lambda>b. num_tokens c' ! b) (c', P') l" if l: "l < num_layers P'" for l
    unfolding layer_right_def fst_conv snd_conv
  proof (intro allI impI ballI)
    fix b' pos nm assume p: "b' < batch_size c'" "pos < num_tokens c' ! b'" "nm \<in> kv_streams"
    have "cell c' (block_size P') b' pos = cell c (block_size P) (j b') pos"
      using at [OF p(1) len(1)] fr'(2) by (simp add: cell_def t(4))
    moreover have "pos < num_tokens c ! j b'" using p(2) at [OF p(1) len(3)] by (simp add: t(3))
    ultimately show "storage P' l nm (fst (cell c' (block_size P') b' pos)) (snd (cell c' (block_size P') b' pos)) =
        kv l nm (take (Suc pos) (remove_at b hist ! b'))"
      using lr [of l] l fr' p(3) j [OF p(1)] at [OF p(1) len(2)] unfolding layer_right_def by simp
  qed
  moreover have "pool_cfg P' = pool_cfg P0" using pool_cfg_frame [OF t(6)] a' by simp
  ultimately show ?thesis using t(1,2) pr' ho' sel a'
    by (intro exI [of _ "(c', P')"]) (simp add: after_step_def content_def index_ok_dropped)
qed

section \<open>Running out of blocks\<close>

text \<open>\<open>_roll_back_partial_append\<close> of the scheduler: every slot back to its length before the forward.\<close>

definition roll_back :: "nat list \<Rightarrow> ('v kvs, unit) act" where
  "roll_back snapshot =
     for_each (\<lambda>b. truncate_to b (int (snapshot ! b))) [0 ..< length snapshot]"

text \<open>A cache that still has, in the first \<open>n ! b\<close> positions of each slot, the cells of another.\<close>

definition cells_kept :: "nat list \<Rightarrow> 'v kvs \<Rightarrow> 'v kvs \<Rightarrow> bool" where
  "cells_kept n s s' \<longleftrightarrow>
     batch_size (fst s') = length n \<and> slot_prompt_tokens (fst s') = slot_prompt_tokens (fst s) \<and>
     slot_num_published (fst s') = slot_num_published (fst s) \<and>
     static_step (fst s') = static_step (fst s) \<and> pool_frame (snd s') = pool_frame (snd s) \<and>
     (\<forall>x. pkey (snd s') x = None \<or> pkey (snd s') x = pkey (snd s) x) \<and>
     (\<forall>b < length n. n ! b \<le> num_tokens (fst s') ! b \<and>
        (\<forall>pos < n ! b. cell (fst s') (block_size (snd s)) b pos = cell (fst s) (block_size (snd s)) b pos))"

lemma truncate_kept:
  assumes inv: "kv_inv digest (c, P) R" and k: "cells_kept n s0 (c, P)" and b: "b < length n"
    and pub: "slot_num_published (fst s0) ! b * block_size (snd s0) \<le> n ! b" and ix: "index_ok bs c"
  shows "\<exists>c' P'. truncate_to b (int (n ! b)) (c, P) = (Inr (), (c', P')) \<and> kv_inv digest (c', P') R \<and>
    cells_kept n s0 (c', P') \<and> index_ok bs c' \<and> num_tokens c' = (num_tokens c)[b := n ! b]"
proof -
  note k' = k [unfolded cells_kept_def fst_conv snd_conv]
  have bs: "block_size P = block_size (snd s0)" using k' pool_frameD(2) by blast
  have bb: "b < batch_size c" using k' b by simp
  have m: "n ! b \<le> num_tokens c ! b" "slot_num_published c ! b * block_size P \<le> n ! b" using k' b pub bs by simp_all
  obtain c' P' where t: "truncate_to b (int (n ! b)) (c, P) = (Inr (), (c', P'))" "kv_inv digest (c', P') R"
      "num_tokens c' = (num_tokens c)[b := n ! b]"
      "block_ids c' = (if n ! b = num_tokens c ! b then block_ids c
        else (block_ids c)[b := take (blocks_for (block_size P) (n ! b)) (block_ids c ! b)])"
      "slot_num_published c' = slot_num_published c" "slot_prompt_tokens c' = slot_prompt_tokens c"
      "pkey P' = pkey P" "pool_frame P' = pool_frame P"
    using truncate_to_ok [OF inv bb m] by blast
  note tc = truncate_to_cache [OF t(1) ix]
  have len: "length (block_ids c) = length n" "length (num_tokens c) = length n"
    using kv_invD(1) [OF inv] k' by (simp_all add: aligned_def batch_size_def)
  have cells: "cell c' (block_size (snd s0)) b' pos = cell (fst s0) (block_size (snd s0)) b' pos"
    if "b' < length n" "pos < n ! b'" for b' pos
  proof -
    have "0 < block_size (snd s0)" using kv_invD(4) [OF inv] bs by simp
    then have "cell c' (block_size (snd s0)) b' pos = cell c (block_size (snd s0)) b' pos"
      using t(4) bs that len div_less_blocks_for by (cases "b' = b") (auto simp: cell_def)
    then show ?thesis using k' that by simp
  qed
  have "cells_kept n s0 (c', P')"
    using k' t(3,5-8) tc(2) b cells len by (auto simp: cells_kept_def batch_size_def nth_list_update)
  with t(1-3) tc(1) show ?thesis by blast
qed

lemma roll_back_kept:
  assumes inv: "kv_inv digest (c, P) R" and k: "cells_kept n s0 (c, P)" and ix: "index_ok bs c"
    and pub: "\<And>b. b < length n \<Longrightarrow> slot_num_published (fst s0) ! b * block_size (snd s0) \<le> n ! b"
  shows "\<exists>c' P'. roll_back n (c, P) = (Inr (), (c', P')) \<and> kv_inv digest (c', P') R \<and>
    cells_kept n s0 (c', P') \<and> index_ok bs c' \<and> num_tokens c' = n"
proof -
  define I where "I = (\<lambda>i s :: 'a kvs. kv_inv digest s R \<and> cells_kept n s0 s \<and> index_ok bs (fst s) \<and>
      (\<forall>b < i. num_tokens (fst s) ! b = n ! b))"
  have "\<exists>s'. for_each (\<lambda>b. truncate_to b (int (n ! b))) [0 ..< length n] (c, P) = (Inr (), s') \<and> I (length n) s'"
  proof (rule for_each_upt [where I = I])
    show "I 0 (c, P)" using inv k ix by (simp add: I_def)
    fix i s assume i: "i < length n" and I: "I i s"
    obtain c1 P1 where s: "s = (c1, P1)" by (cases s)
    note I' = I [unfolded I_def s fst_conv]
    obtain c2 P2 where t: "truncate_to i (int (n ! i)) (c1, P1) = (Inr (), (c2, P2))" "kv_inv digest (c2, P2) R"
        "cells_kept n s0 (c2, P2)" "index_ok bs c2" "num_tokens c2 = (num_tokens c1)[i := n ! i]"
      using truncate_kept [OF _ _ i pub [OF i]] I' by blast
    have "length (num_tokens c1) = length n" using I' by (simp add: cells_kept_def batch_size_def)
    then have "\<forall>b < Suc i. num_tokens c2 ! b = n ! b" using I' t(5) i by (auto simp: less_Suc_eq)
    then show "\<exists>s'. truncate_to i (int (n ! i)) s = (Inr (), s') \<and> I (Suc i) s'"
      using t s by (intro exI [of _ "(c2, P2)"]) (simp add: I_def)
  qed simp
  then obtain c' P' where r: "for_each (\<lambda>b. truncate_to b (int (n ! b))) [0 ..< length n] (c, P) = (Inr (), (c', P'))"
      "I (length n) (c', P')"
    by auto
  have "num_tokens c' = n"
    using r(2) by (intro nth_equalityI) (auto simp: I_def cells_kept_def batch_size_def)
  then show ?thesis using r by (auto simp: roll_back_def I_def)
qed

text \<open>What a forward that ran out of blocks leaves behind.\<close>

definition half_grown :: "digest \<Rightarrow> nat multiset \<Rightarrow> 'v kvs \<Rightarrow> 'v kvs \<Rightarrow> bool" where
  "half_grown digest R s s' \<longleftrightarrow> kv_inv digest s' R \<and> cells_kept (num_tokens (fst s)) s s'"

text \<open>
  A forward that runs out of blocks leaves some slots advanced; the rollback returns the cache to
  the content before it.
\<close>

lemma oom_append:
  assumes a: "after_step kv digest U R hist P0 (c, P)"
    and t: "length (tensor_values t) = batch_size c + 1"
    and oom: "available P < total_need (block_size P) (tensor_values t) c 0"
  shows "\<exists>s1 s2. append_kv_packed qwrite digest dev ks vs t 0 (c, P) = (Inl OutOfMemoryError, s1) \<and>
    batch_size (fst s1) = batch_size c \<and> roll_back (num_tokens c) s1 = (Inr (), s2) \<and> after_step kv digest U R hist P0 s2 \<and>
    half_grown digest R (c, P) s1"
proof -
  note a' = a [unfolded after_step_def content_def fst_conv snd_conv]
  have inv: "kv_inv digest (c, P) R" and ho: "hist_ok U hist c" and pr: "pool_right kv digest U P"
    and st: "static_step c = None"
    and lr: "\<And>l. l < num_layers P \<Longrightarrow> layer_right kv hist (\<lambda>b. num_tokens c ! b) (c, P) l"
    using a' by auto
  define c1 where "c1 = snd (read_cu_seqlens_q t (layout_changed c))"
  have c1: "num_tokens c1 = num_tokens c" "block_ids c1 = block_ids c" "batch_size c1 = batch_size c"
      "slot_prompt_tokens c1 = slot_prompt_tokens c" "slot_num_published c1 = slot_num_published c"
      "slot_parent_hash c1 = slot_parent_hash c"
    by (simp_all add: c1_def read_cu_seqlens_q_def batch_size_def)
  have res1: "reserving t c1" using st
    by (simp add: reserving_def c1_def read_cu_seqlens_q_def dropped_def) (simp add: layout_changed_def)
  have inv1: "kv_inv digest (c1, P) R" by (rule kv_inv_cong [OF inv c1(2,1,4,5,6)])
  have "total_need (block_size P) (tensor_values t) c1 0 = total_need (block_size P) (tensor_values t) c 0"
    using c1 by (simp add: total_need_def need_def [abs_def])
  with oom have "\<not> total_need (block_size P) (tensor_values t) c1 0 \<le> available P" by simp
  with reserve_loop [OF inv1 le0, of "tensor_values t"] obtain m c2 P2 where s2:
      "for_each (reserve_slot (tensor_values t)) [0 ..< batch_size c1] (c1, P) = (Inl OutOfMemoryError, (c2, P2))"
      "kv_inv digest (c2, P2) R" "slots_grown (tensor_values t) 0 m (c1, P) (c2, P2)"
    by (auto simp: if_not_P)
  note g = s2(3) [unfolded slots_grown_def fst_conv snd_conv c1]
  have res2: "reserving t c2"
    using reserve_loop_cache [OF res1, of "tensor_values t" "[0 ..< batch_size c1]" P] s2(1) by simp
  have eq: "reserve_new_tokens t (c, P) = (Inl OutOfMemoryError, (c2, P2))"
    using s2(1) c1(3) by (simp add: reserve_new_tokens_def c1_def read_cu_seqlens_q_def)
  have app: "append_kv_packed qwrite digest dev ks vs t 0 (c, P) = (Inl OutOfMemoryError, (c2, P2))"
    using eq st t by (simp add: append_kv_packed_def seq_def check_new_token_boundaries_def ensure_def)
  moreover have kept: "cells_kept (num_tokens c) (c, P) (c2, P2)"
  proof -
    have "cell c2 (block_size P) b pos = cell c (block_size P) b pos" if "b < batch_size c" "pos < num_tokens c ! b" for b pos
    proof -
      note p = that
      obtain new where "block_ids c2 ! b = block_ids c ! b @ new" using g p(1) by blast
      then show ?thesis using slot_covers [OF inv p] by (simp add: cell_def nth_append)
    qed
    then show ?thesis using g res2 st by (simp add: cells_kept_def batch_size_def reserving_def)
  qed
  moreover have "slot_num_published c ! b * block_size P \<le> num_tokens c ! b" if "b < length (num_tokens c)" for b
    using kv_invD(3) [OF inv, of b] that by (simp add: slot_at_def slot_ok_def batch_size_def)
  moreover have "index_ok (block_size P0) c2" using res2 by (simp add: reserving_def index_ok_dropped)
  ultimately obtain c3 P3 where s3: "roll_back (num_tokens c) (c2, P2) = (Inr (), (c3, P3))" "kv_inv digest (c3, P3) R"
      "cells_kept (num_tokens c) (c, P) (c3, P3)" "index_ok (block_size P0) c3" "num_tokens c3 = num_tokens c"
    using roll_back_kept [OF s2(2), of "num_tokens c" "(c, P)" "block_size P0"] by auto
  note k = s3(3) [unfolded cells_kept_def fst_conv snd_conv]
  have fr: "pool_frame P3 = pool_frame P" using k by blast
  note fr' = pool_frameD [OF fr]
  have "layer_right kv hist (\<lambda>b. num_tokens c3 ! b) (c3, P3) l" if "l < num_layers P3" for l
    unfolding layer_right_def fst_conv snd_conv s3(5) fr'(2,4)
  proof (intro allI impI ballI)
    fix b pos nm assume p: "b < batch_size c3" "pos < num_tokens c ! b" "nm \<in> kv_streams"
    then have "cell c3 (block_size P) b pos = cell c (block_size P) b pos" "b < batch_size c"
      using k by (simp_all add: batch_size_def)
    then show "storage P l nm (fst (cell c3 (block_size P) b pos)) (snd (cell c3 (block_size P) b pos)) =
        kv l nm (take (Suc pos) (hist ! b))"
      using lr [of l] that fr'(3) p(2,3) unfolding layer_right_def by simp
  qed
  moreover have "pool_right kv digest U P3" by (rule pool_right_cong [OF pr]) (use k fr' in auto)
  moreover have "hist_ok U hist c3" using ho k s3(5) by (simp add: hist_ok_def batch_size_def)
  moreover have "pool_cfg P3 = pool_cfg P0" using pool_cfg_frame [OF fr] a' by simp
  ultimately have "after_step kv digest U R hist P0 (c3, P3)"
    using s3(2,4) k st by (simp add: after_step_def content_def)
  moreover have "batch_size c2 = batch_size c" using g by blast
  ultimately show ?thesis using app s3(1) s2(2) kept
    by (intro exI [of _ "(c2, P2)"] exI [of _ "(c3, P3)"]) (simp add: half_grown_def)
qed

lemma oom_roll_back:
  assumes a: "after_step kv digest U R hist P0 (c, P)"
    and q: "0 < num_layers P" and t: "length (tensor_values t) = batch_size c + 1"
    and oom: "available P < total_need (block_size P) (tensor_values t) c 0"
  shows "\<exists>s1 s2. step_layers qwrite digest dev t ks vs (c, P) = (Inl OutOfMemoryError, s1) \<and>
    roll_back (num_tokens c) s1 = (Inr (), s2) \<and> after_step kv digest U R hist P0 s2"
  using oom_append [OF a t oom, of qwrite dev "ks 0" "vs 0"] q by (auto simp: step_layers_def upt_conv_Cons)

section \<open>Reading back\<close>

text \<open>The rows of a history: one per token, each from the tokens up to it.\<close>

definition rows_of :: "'v rows \<Rightarrow> nat \<Rightarrow> string \<Rightarrow> token list \<Rightarrow> 'v list" where
  "rows_of kv l nm ts = map (\<lambda>pos. kv l nm (take (Suc pos) ts)) [0 ..< length ts]"

lemma gathered_rows:
  assumes "layer_right kv hist (\<lambda>b. num_tokens c ! b) (c, P) l" "hist_ok U hist c" "nm \<in> kv_streams"
  shows "map (\<lambda>cl. storage P l nm (fst cl) (snd cl)) (range_cells c (block_size P) (\<lambda>_. 0) (\<lambda>b. num_tokens c ! b)) =
    concat (map (rows_of kv l nm) hist)"
proof -
  have "map (\<lambda>cl. storage P l nm (fst cl) (snd cl)) (map (cell c (block_size P) b) [0 ..< num_tokens c ! b]) =
      rows_of kv l nm (hist ! b)" if "b < batch_size c" for b
    using that assms by (simp add: layer_right_def hist_ok_def rows_of_def)
  then have "map (\<lambda>b. map (\<lambda>cl. storage P l nm (fst cl) (snd cl)) (map (cell c (block_size P) b) [0 ..< num_tokens c ! b]))
      [0 ..< batch_size c] = map (\<lambda>b. rows_of kv l nm (hist ! b)) [0 ..< batch_size c]"
    by (intro map_cong) auto
  also have "\<dots> = map (rows_of kv l nm) hist"
    using assms(2) by (intro nth_equalityI) (auto simp: hist_ok_def)
  finally show ?thesis by (simp add: range_cells_def map_concat comp_def)
qed

lemma sums_from_zero: "\<forall>n \<in> set ns. n = 0 \<Longrightarrow> sums_from a ns = replicate (length ns + 1) a"
  by (induction a ns rule: sums_from.induct) auto

text \<open>What reading layer \<open>l\<close> needs of a state.\<close>

definition readable ::
  "'v rows \<Rightarrow> digest \<Rightarrow> token list set \<Rightarrow> nat multiset \<Rightarrow> token list list \<Rightarrow> 'v pool \<Rightarrow> nat \<Rightarrow> 'v kvs \<Rightarrow> bool" where
  "readable kv digest U R hist P0 l s \<longleftrightarrow>
     kv_inv digest s R \<and> index_ok (block_size P0) (fst s) \<and> static_step (fst s) = None \<and>
     pool_cfg (snd s) = pool_cfg P0 \<and> hist_ok U hist (fst s) \<and> layer_right kv hist (\<lambda>b. num_tokens (fst s) ! b) s l"

lemma readable_after:
  assumes "after_step kv digest U R hist P0 s" "l < num_layers P0"
  shows "readable kv digest U R hist P0 l s"
proof -
  note a = assms(1) [unfolded after_step_def content_def]
  have "num_layers (snd s) = num_layers P0" using a pool_cfgD(2) by blast
  then show ?thesis using a assms(2) by (simp add: readable_def)
qed

lemma readable_mid: "mid_step kv digest U R t ks hist P0 n s \<Longrightarrow> l < n \<Longrightarrow> l < num_layers P0 \<Longrightarrow> readable kv digest U R hist P0 l s"
  unfolding readable_def mid_step_def by auto

text \<open>A cache with the same slots and other indices.\<close>

definition same_content :: "'v kvcache \<Rightarrow> 'v kvcache \<Rightarrow> bool" where
  "same_content c c' \<longleftrightarrow> block_ids c' = block_ids c \<and> num_tokens c' = num_tokens c \<and>
     slot_prompt_tokens c' = slot_prompt_tokens c \<and> slot_num_published c' = slot_num_published c \<and>
     slot_parent_hash c' = slot_parent_hash c \<and> static_step c' = static_step c"

lemma content_kept:
  assumes sc: "same_content c c'" and ix: "index_ok (block_size P0) c'"
  shows "after_step kv digest U R hist P0 (c, P) \<Longrightarrow> after_step kv digest U R hist P0 (c', P)"
    "cu_read t c' \<Longrightarrow> mid_step kv digest U R t ks hist P0 n (c, P) \<Longrightarrow> mid_step kv digest U R t ks hist P0 n (c', P)"
    "cu_read t c' \<Longrightarrow> layer_state kv digest U R t ks hist P0 n (c, P) \<Longrightarrow> layer_state kv digest U R t ks hist P0 n (c', P)"
proof -
  note sel = sc [unfolded same_content_def]
  have inv: "kv_inv digest (c', P) R" if "kv_inv digest (c, P) R" by (rule kv_inv_cong [OF that]) (use sel in simp_all)
  have ho: "hist_ok U hist c' = hist_ok U hist c" using sel by (simp add: hist_ok_def batch_size_def)
  have lr: "layer_right kv hist m (c', P) l = layer_right kv hist m (c, P) l" for m l
    using sel by (simp add: layer_right_def cell_def batch_size_def)
  have cnt: "step_counts bs ks c' = step_counts bs ks c" "num_tokens c' = num_tokens c" for bs
    using sel by (simp_all add: step_counts_def batch_size_def)
  show after: "after_step kv digest U R hist P0 (c', P)" if "after_step kv digest U R hist P0 (c, P)"
    using that ix inv sel by (simp add: after_step_def content_def ho lr)
  show mid: "mid_step kv digest U R t ks hist P0 n (c', P)"
    if "cu_read t c'" "mid_step kv digest U R t ks hist P0 n (c, P)"
    using that ix inv sel by (simp add: mid_step_def ho lr cnt cong: if_cong)
  show "layer_state kv digest U R t ks hist P0 n (c', P)"
    if "cu_read t c'" "layer_state kv digest U R t ks hist P0 n (c, P)"
    using that after mid cnt by (auto simp: layer_state_def split: if_splits)
qed

lemma same_content_gather: "same_content c (c\<lparr>gather_index := g\<rparr>)"
  by (simp add: same_content_def)

text \<open>A readable layer reads back the rows of the histories, packed in slot order.\<close>

lemma materialize_readable:
  assumes a: "readable kv digest U R hist P0 l (c, P)" and q: "kv_quant P0 = None" "is_legacy_kv_layout P0"
    and l: "l < num_layers P0" "l < length (layer_kv_shape P0)"
  shows "\<exists>m g. materialize_packed_kv qread dev l (c, P) =
      (Inr (concat (map (rows_of kv l ''k'') hist), concat (map (rows_of kv l ''v'') hist),
            sums_from 0 (map length hist), m), (c\<lparr>gather_index := g\<rparr>, P)) \<and>
      index_ok (block_size P0) (c\<lparr>gather_index := g\<rparr>)"
proof -
  note a' = a [unfolded readable_def fst_conv snd_conv]
  have inv: "kv_inv digest (c, P) R" and ho: "hist_ok U hist c"
    and st: "static_step c = None" and lr: "layer_right kv hist (\<lambda>b. num_tokens c ! b) (c, P) l"
    using a' by auto
  have cfg: "pool_cfg P = pool_cfg P0" using a' by simp
  note cf = pool_cfgD [OF cfg]
  have ix: "index_ok (block_size P) c" using a' cf(1) by simp
  have ok: "storage_for_layer P l = Inr (storage P l ''k'', storage P l ''v'')" "succeeds (num_kv_heads_for_layer P l)"
      "kv_quant P = None" "l < num_layers P"
    using q l cf by (simp_all add: storage_for_layer_def num_kv_heads_for_layer_def nth_res_def)
  have nt: "num_tokens c = map length hist" using ho by (intro nth_equalityI) (auto simp: hist_ok_def batch_size_def)
  let ?idx = "range_cells c (block_size P) (\<lambda>_. 0) (\<lambda>b. num_tokens c ! b)"
  have rows: "map (\<lambda>cl. storage P l nm (fst cl) (snd cl)) ?idx = concat (map (rows_of kv l nm) hist)"
    if "nm \<in> kv_streams" for nm
    by (rule gathered_rows [OF lr ho that])
  show ?thesis
  proof (cases "\<forall>n \<in> set (num_tokens c). n = 0")
    case True
    then have "\<forall>ts \<in> set hist. ts = []" using nt by auto
    then have "concat (map (rows_of kv l nm) hist) = []" for nm by (auto simp: rows_of_def)
    moreover have "sums_from 0 (map length hist) = replicate (batch_size c + 1) 0"
      using sums_from_zero [of "map length hist" 0] True nt by (simp add: batch_size_def)
    moreover have "materialize_packed_kv qread dev l (c, P) = (Inr ([], [], replicate (batch_size c + 1) 0, 0), (c, P))"
      using st ok True by (auto simp: materialize_packed_kv_def succeeds_iff)
    moreover have "c = c\<lparr>gather_index := gather_index c\<rparr>" by simp
    ultimately show ?thesis using ix cf(1) by (intro exI [of _ 0] exI [of _ "gather_index c"]) simp
  next
    case False
    obtain c' where c': "step_gather_index (block_size P) dev c = (Inr (?idx, cu_seqlens_k_list c), c')"
        "index_ok (block_size P) c'" "same_layout c c'" "c' = c\<lparr>gather_index := gather_index c'\<rparr>"
      using step_gather_index_ok [OF ix gather_index_ranges [OF inv]] by blast
    have rng: "fst cl < num_blocks P \<and> snd cl < block_size P" if cl: "cl \<in> set ?idx" for cl
    proof -
      obtain b pos where b: "b < batch_size c" "pos < num_tokens c ! b" "cl = cell c (block_size P) b pos"
        using cl by (auto simp: range_cells_def)
      have "b < length (block_ids c)" using b(1) kv_invD(1) [OF inv] by (simp add: aligned_def)
      from held_memI [OF this, of "fst cl"] have "fst cl \<in># held c"
        using slot_covers [OF inv b(1,2)] b(3) by (simp add: cell_def)
      then show ?thesis using held_not_free [OF kv_invD(2) [OF inv], of "fst cl"] kv_invD(4) [OF inv] b(3)
        by (simp add: cell_def)
    qed
    have get: "index_get l nm ?idx P = Inr (concat (map (rows_of kv l nm) hist))" if "nm \<in> kv_streams" for nm
      using rng rows [OF that] by (force simp: index_get_def)
    have "materialize_packed_kv qread dev l (c, P) =
        (Inr (concat (map (rows_of kv l ''k'') hist), concat (map (rows_of kv l ''v'') hist),
            sums_from 0 (map length hist), Max (set (num_tokens c))), (c', P))"
      using st ok False c'(1,3) get [of "''k''"] get [of "''v''"] nt
      by (auto simp: same_layout_def materialize_packed_kv_def succeeds_iff on_cache_def seq_def kv_streams_def cu_seqlens_k_list_def)
    with c'(2) [unfolded cf(1)] show ?thesis by (subst (asm) (1 2) c'(4)) blast
  qed
qed

lemma materialize_right:
  assumes a: "after_step kv digest U R hist P0 (c, P)" and q: "kv_quant P0 = None" "is_legacy_kv_layout P0"
    and l: "l < num_layers P0" "l < length (layer_kv_shape P0)"
  shows "\<exists>m s'. materialize_packed_kv qread dev l (c, P) =
      (Inr (concat (map (rows_of kv l ''k'') hist), concat (map (rows_of kv l ''v'') hist),
            sums_from 0 (map length hist), m), s') \<and> after_step kv digest U R hist P0 s'"
  using materialize_readable [OF readable_after [OF a l(1)] q l, of qread dev] content_kept(1) [OF same_content_gather _ a] by blast

lemma read_layer:
  assumes a: "layer_state kv digest U R t ks hist P0 n s" and q: "kv_quant P0 = None" "is_legacy_kv_layout P0"
    and l: "l < n" "n \<le> num_layers P0" "l < length (layer_kv_shape P0)"
  shows "\<exists>m s'. materialize_packed_kv qread dev l s =
      (Inr (concat (map (rows_of kv l ''k'') hist), concat (map (rows_of kv l ''v'') hist),
            sums_from 0 (map length hist), m), s') \<and> layer_state kv digest U R t ks hist P0 n s'"
proof -
  obtain c P where s: "s = (c, P)" by (cases s)
  have ln: "l < num_layers P0" using l by simp
  have "readable kv digest U R hist P0 l (c, P)"
    using a l(1) ln readable_after readable_mid by (auto simp: layer_state_def s split: if_splits)
  from materialize_readable [OF this q ln l(3)] obtain m g where g: "materialize_packed_kv qread dev l (c, P) =
      (Inr (concat (map (rows_of kv l ''k'') hist), concat (map (rows_of kv l ''v'') hist),
            sums_from 0 (map length hist), m), (c\<lparr>gather_index := g\<rparr>, P))"
      "index_ok (block_size P0) (c\<lparr>gather_index := g\<rparr>)" by blast
  have "layer_state kv digest U R t ks hist P0 n (c\<lparr>gather_index := g\<rparr>, P)"
    by (rule content_kept(3) [OF same_content_gather g(2) _ a [unfolded s]])
      (use a in \<open>simp add: layer_state_def s cu_read_def\<close>)
  with g(1) show ?thesis using s by blast
qed

section \<open>Runs\<close>

text \<open>
  What a caller does with one cache on a pool \<open>P0\<close>. The rows it appends are the model's. A forward
  that raises \<open>OutOfMemoryError\<close> is rolled back.
\<close>

inductive serving ::
  "'v rows \<Rightarrow> digest \<Rightarrow> token list set \<Rightarrow> 'v pool \<Rightarrow> token list list \<Rightarrow> 'v kvs \<Rightarrow> bool"
  for kv digest U P0 where
  serving_start: "serving kv digest U P0 [] (kvcache_init i, P0)"
| serving_add: "serving kv digest U P0 hist s \<Longrightarrow> prompt \<in> U \<Longrightarrow>
    add_request_slot digest (Some prompt) s = (r, s') \<Longrightarrow>
    serving kv digest U P0 (hist @ [take (last (num_tokens (fst s'))) prompt]) s'"
| serving_step: "serving kv digest U P0 hist s \<Longrightarrow> step_tokens_ok hist new (fst s) \<Longrightarrow>
    tensor_values t = sums_from 0 (map length new) \<Longrightarrow>
    (\<And>l. l < num_layers P0 \<Longrightarrow>
      new_rows_right kv (to_dtype P0) (map2 (@) hist new) (map length new) l (krows l) (vrows l)) \<Longrightarrow>
    step_layers qwrite digest dev t (\<lambda>l. concat (krows l)) (\<lambda>l. concat (vrows l)) s = (Inr (), s') \<Longrightarrow>
    serving kv digest U P0 (map2 (@) hist new) s'"
| serving_oom: "serving kv digest U P0 hist s \<Longrightarrow> step_tokens_ok hist new (fst s) \<Longrightarrow>
    tensor_values t = sums_from 0 (map length new) \<Longrightarrow>
    (\<And>l. l < num_layers P0 \<Longrightarrow>
      new_rows_right kv (to_dtype P0) (map2 (@) hist new) (map length new) l (krows l) (vrows l)) \<Longrightarrow>
    step_layers qwrite digest dev t (\<lambda>l. concat (krows l)) (\<lambda>l. concat (vrows l)) s = (Inl e, s1) \<Longrightarrow>
    roll_back (num_tokens (fst s)) s1 = (r, s') \<Longrightarrow>
    serving kv digest U P0 hist s'"
| serving_truncate: "serving kv digest U P0 hist s \<Longrightarrow> b < batch_size (fst s) \<Longrightarrow>
    truncate_to b (int m) s = (Inr (), s') \<Longrightarrow>
    serving kv digest U P0 (hist[b := take m (hist ! b)]) s'"
| serving_remove: "serving kv digest U P0 hist s \<Longrightarrow> b < batch_size (fst s) \<Longrightarrow>
    remove_request b s = (r, s') \<Longrightarrow> serving kv digest U P0 (remove_at b hist) s'"

text \<open>The pools a run starts on: plain K/V storage and no cached block under an unknown key.\<close>

definition servable :: "'v rows \<Rightarrow> digest \<Rightarrow> token list set \<Rightarrow> 'v pool \<Rightarrow> bool" where
  "servable kv digest U P0 \<longleftrightarrow> pool_inv P0 {#} \<and> kv_quant P0 = None \<and> is_legacy_kv_layout P0 \<and>
     0 < num_layers P0 \<and> length (layer_kv_shape P0) = num_layers P0 \<and> pool_right kv digest U P0"

lemma truncate_to_guard:
  assumes "truncate_to b (int m) (c, P) = (Inr (), s')" "b < batch_size c"
  shows "m \<le> num_tokens c ! b" "m = num_tokens c ! b \<or> slot_num_published c ! b * block_size P \<le> m"
  using assms by (auto simp: truncate_to_def split: if_splits simp flip: of_nat_mult)

lemma serving_after_step:
  assumes sv: "servable kv digest U P0"
  shows "serving kv digest U P0 hist s \<Longrightarrow> after_step kv digest U {#} hist P0 s"
proof (induction rule: serving.induct)
  case (serving_start i)
  have "kv_inv digest (kvcache_init i, P0) {#}" using sv by (intro kv_inv_init) (simp add: servable_def)
  then show ?case using sv
    by (simp add: after_step_def content_def servable_def index_ok_def kvcache_init_def hist_ok_def
        layer_right_def batch_size_def)
next
  case (serving_add hist s prompt r s')
  then show ?case using add_request_right by (metis prod.collapse fst_conv)
next
  case (serving_step hist s new t krows vrows qwrite dev s')
  obtain c P where s: "s = (c, P)" by (cases s)
  note a = serving_step.IH [unfolded s]
  have cfg: "pool_cfg P = pool_cfg P0" using a by (simp add: after_step_def)
  note cf = pool_cfgD [OF cfg]
  have len: "length (tensor_values t) = batch_size c + 1"
    using serving_step.hyps(2,3) by (simp add: s step_tokens_ok_def)
  have "total_need (block_size P) (tensor_values t) c 0 \<le> available P"
  proof (rule ccontr)
    assume "\<not> ?thesis"
    with oom_roll_back [OF a _ len, of qwrite dev "\<lambda>l. concat (krows l)" "\<lambda>l. concat (vrows l)"]
      serving_step.hyps(5) sv cf
    show False by (auto simp: servable_def s not_le)
  qed
  with step_layers_ok [of digest c P "{#}" kv U hist new t krows vrows qwrite dev] a serving_step.hyps sv cf
  obtain s2 where "step_layers qwrite digest dev t (\<lambda>l. concat (krows l)) (\<lambda>l. concat (vrows l)) (c, P) = (Inr (), s2)"
      "after_step kv digest U {#} (map2 (@) hist new) P s2"
    by (auto simp: after_step_def servable_def s)
  then show ?case using serving_step.hyps(5) cfg cf by (simp add: s after_step_def)
next
  case (serving_oom hist s new t krows vrows qwrite dev e s1 r s')
  obtain c P where s: "s = (c, P)" by (cases s)
  note a = serving_oom.IH [unfolded s]
  have cfg: "pool_cfg P = pool_cfg P0" using a by (simp add: after_step_def)
  note cf = pool_cfgD [OF cfg]
  have len: "length (tensor_values t) = batch_size c + 1"
    using serving_oom.hyps(2,3) by (simp add: s step_tokens_ok_def)
  have "available P < total_need (block_size P) (tensor_values t) c 0"
  proof (rule ccontr)
    assume "\<not> ?thesis"
    with step_layers_ok [of digest c P "{#}" kv U hist new t krows vrows qwrite dev] a serving_oom.hyps sv cf
    show False by (auto simp: after_step_def servable_def s not_less)
  qed
  then show ?case
    using oom_roll_back [OF a _ len, of qwrite dev "\<lambda>l. concat (krows l)" "\<lambda>l. concat (vrows l)"] serving_oom.hyps(5,6) sv cf
    by (auto simp: servable_def s)
next
  case (serving_truncate hist s b m s')
  obtain c P where s: "s = (c, P)" by (cases s)
  have inv: "kv_inv digest (c, P) {#}" and ho: "hist_ok U hist c"
    using serving_truncate.IH by (simp_all add: s after_step_def content_def)
  have b: "b < batch_size c" using serving_truncate.hyps by (simp add: s)
  note g = truncate_to_guard [OF serving_truncate.hyps(3) [unfolded s] b]
  have "slot_num_published c ! b * block_size P \<le> m"
    using g kv_invD(3) [OF inv b] by (auto simp: slot_at_def slot_ok_def)
  from truncate_right [OF serving_truncate.IH [unfolded s] b g(1) this] serving_truncate.hyps(3)
  show ?case by (auto simp: s)
next
  case (serving_remove hist s b r s')
  obtain c P where s: "s = (c, P)" by (cases s)
  from remove_right [OF serving_remove.IH [unfolded s], of b] serving_remove.hyps show ?case by (auto simp: s)
qed

end
