(* ===== verification/Serving_Properties.thy ===== *)
theory Serving_Properties
  imports Serving_Runs Example_Pool
begin

text \<open>
  The promise of the paged cache to the attention code, on whole runs, with a run in which two
  requests share the blocks of a prompt.
\<close>

text \<open>C14: in every state that a run reaches (requests join with cached prefixes, steps append to any
  mix of slots and publish filled prompt blocks, blocks are shared, evicted and reused, a forward
  runs out of blocks and is rolled back, slots are truncated and removed), each layer reads back,
  for every slot, exactly the rows of that slot's own tokens, as a cache without sharing would.\<close>

theorem serving_reads_own_rows:
  assumes "servable kv digest U P0" "serving kv digest U P0 hist s" "l < num_layers P0"
  shows "\<exists>m s'. materialize_packed_kv qread dev l s =
    (Inr (concat (map (rows_of kv l ''k'') hist), concat (map (rows_of kv l ''v'') hist),
          sums_from 0 (map length hist), m), s')"
proof -
  obtain c P where s: "s = (c, P)" by (cases s)
  have "after_step kv digest U {#} hist P0 (c, P)" using serving_after_step [OF assms(1,2)] by (simp add: s)
  from materialize_right [OF this] assms(1,3) show ?thesis unfolding servable_def s by metis
qed

text \<open>C15: the same runs keep the accounting of the pool: every block is free, idle in the prefix cache
  or held by a slot, the count of a cached block is the number of slots that hold it, every slot has
  the blocks its tokens need, and its published blocks are stored under the chain of its prompt.\<close>

theorem serving_keeps_accounting:
  assumes "servable kv digest U P0" "serving kv digest U P0 hist s"
  shows "kv_inv digest s {#} \<and> num_tokens (fst s) = map length hist \<and>
    available (snd s) + card (set_mset (held (fst s))) = num_blocks (snd s)"
proof -
  obtain c P where s: "s = (c, P)" by (cases s)
  have a: "after_step kv digest U {#} hist P0 (c, P)" using serving_after_step [OF assms] by (simp add: s)
  then have inv: "kv_inv digest (c, P) {#}" and "hist_ok U hist c"
    by (simp_all add: after_step_def content_def)
  moreover from this(2) have "num_tokens c = map length hist"
    by (intro nth_equalityI) (auto simp: hist_ok_def batch_size_def)
  ultimately show ?thesis using blocks_conserved kv_invD(2) [OF inv] s by auto
qed

section \<open>A run with a shared prefix\<close>

definition ex_kv :: "int rows" where
  "ex_kv l nm ts = sum_list ts + (if nm = ''k'' then 0 else 1000)"

definition ex_U :: "token list set" where
  "ex_U = {ex_prompt}"

lemma ex_prompts_ok: "prompts_ok ex_digest 2 ex_U"
proof -
  define chain where "chain = projr (compute_block_hashes ex_digest ex_prompt 2)"
  have "succeeds (compute_block_hashes ex_digest ex_prompt 2)" by code_simp
  then have c: "compute_block_hashes ex_digest ex_prompt 2 = Inr chain"
    by (auto simp: chain_def succeeds_iff)
  have len: "length chain = 2" and ne: "fst (chain ! 0) \<noteq> fst (chain ! 1)"
    unfolding chain_def by code_simp+
  have "i = j" if "i < 2" "j < 2" "fst (chain ! i) = fst (chain ! j)" for i j
    using that ne by (auto simp: less_2_cases_iff)
  then show ?thesis using c len by (auto simp: prompts_ok_def ex_U_def)
qed

lemma ex_servable: "servable kv ex_digest ex_U ex_pool"
proof -
  have "pkey ex_pool x = None" for x
    by (simp add: pkey_def ex_pool_sel(3) key_of_def entry_of_def ex_prefix_cache_def)
  then have "pool_right kv ex_digest ex_U ex_pool"
    using ex_prompts_ok by (simp add: pool_right_def keys_known_def stored_right_def ex_pool_sel)
  moreover have "length (layer_kv_shape ex_pool) = 1" by code_simp
  ultimately show ?thesis using ex_pool_inv by (simp add: servable_def ex_pool_sel)
qed

text \<open>The rows of the tokens that follow a history, as a packed step has them.\<close>

definition ex_rows :: "token list list \<Rightarrow> token list list \<Rightarrow> string \<Rightarrow> int list list" where
  "ex_rows hist new nm = map2 (\<lambda>h n. map (\<lambda>i. ex_kv 0 nm (h @ take (Suc i) n)) [0 ..< length n]) hist new"

lemma ex_rows_right:
  assumes "length hist = length new"
  shows "new_rows_right ex_kv id (map2 (@) hist new) (map length new) l
    (ex_rows hist new ''k'') (ex_rows hist new ''v'')"
proof -
  have row: "ex_rows hist new nm ! b ! i = ex_kv 0 nm (take (length (hist ! b) + Suc i) (hist ! b @ new ! b))"
    if "b < length new" "i < length (new ! b)" for b i nm
    using that assms by (simp add: ex_rows_def)
  have "length (ex_rows hist new nm) = length new" "map length (ex_rows hist new nm) = map length new" for nm
    using assms by (auto simp: ex_rows_def intro: nth_equalityI)
  then show ?thesis using assms row by (simp add: new_rows_right_def ex_kv_def)
qed

definition ex_step :: "token list list \<Rightarrow> token list list \<Rightarrow> int kvs \<Rightarrow> int kvs" where
  "ex_step hist new s = snd (step_layers (\<lambda>_ _ _ _ s. (Inr (), s)) ex_digest 0
     \<lparr>tensor_id = 7, tensor_values = sums_from 0 (map length new)\<rparr>
     (\<lambda>_. concat (ex_rows hist new ''k'')) (\<lambda>_. concat (ex_rows hist new ''v'')) s)"

definition ex_step_result :: "token list list \<Rightarrow> token list list \<Rightarrow> int kvs \<Rightarrow> unit res" where
  "ex_step_result hist new s = fst (step_layers (\<lambda>_ _ _ _ s. (Inr (), s)) ex_digest 0
     \<lparr>tensor_id = 7, tensor_values = sums_from 0 (map length new)\<rparr>
     (\<lambda>_. concat (ex_rows hist new ''k'')) (\<lambda>_. concat (ex_rows hist new ''v'')) s)"

definition ex_run1 :: "int kvs" where "ex_run1 = ex_step [[]] [ex_prompt] ex_added"
definition ex_run2 :: "int kvs" where "ex_run2 = snd (add_request_slot ex_digest (Some ex_prompt) ex_run1)"
definition ex_run3 :: "int kvs" where "ex_run3 = ex_step [ex_prompt, [11, 12, 13, 14]] [[20], [15]] ex_run2"

definition ex_hist :: "token list list" where
  "ex_hist = [[11, 12, 13, 14, 15, 20], [11, 12, 13, 14, 15]]"

lemma ex_step_serving:
  assumes "serving ex_kv ex_digest ex_U ex_pool hist s" "length hist = length new" "step_tokens_ok hist new (fst s)"
    "ex_step_result hist new s = Inr ()"
  shows "serving ex_kv ex_digest ex_U ex_pool (map2 (@) hist new) (ex_step hist new s)"
proof (rule serving_step [OF assms(1,3)])
  show "new_rows_right ex_kv (to_dtype ex_pool) (map2 (@) hist new) (map length new) l
      (ex_rows hist new ''k'') (ex_rows hist new ''v'')" for l
    using ex_rows_right [OF assms(2)] by (simp add: ex_pool_sel)
  show "step_layers (\<lambda>_ _ _ _ s. (Inr (), s)) ex_digest 0
      \<lparr>tensor_id = 7, tensor_values = sums_from 0 (map length new)\<rparr>
      (\<lambda>l. concat (ex_rows hist new ''k'')) (\<lambda>l. concat (ex_rows hist new ''v'')) s = (Inr (), ex_step hist new s)"
    using assms(4) by (simp add: ex_step_def ex_step_result_def prod_eq_iff)
qed simp

lemma ex_serving: "serving ex_kv ex_digest ex_U ex_pool ex_hist ex_run3"
proof -
  have U: "ex_prompt \<in> ex_U" by (simp add: ex_U_def)
  note s0 = serving_start [of ex_kv ex_digest ex_U ex_pool 0]
  have l0: "last (num_tokens (fst ex_added)) = 0" by code_simp
  have "serving ex_kv ex_digest ex_U ex_pool [[]] ex_added"
    using serving_add [OF s0 U prod.collapse [symmetric], folded ex_added_def] l0 by simp
  moreover have "step_tokens_ok [[]] [ex_prompt] (fst ex_added)" "ex_step_result [[]] [ex_prompt] ex_added = Inr ()"
    by (simp_all add: step_tokens_ok_def ex_added_eval) code_simp+
  ultimately have s1: "serving ex_kv ex_digest ex_U ex_pool [ex_prompt] ex_run1"
    using ex_step_serving [of "[[]]" ex_added "[ex_prompt]"] by (simp add: ex_run1_def)
  have "last (num_tokens (fst ex_run2)) = 4" by code_simp
  moreover have "take 4 ex_prompt = [11, 12, 13, 14]" by (simp add: ex_prompt_def)
  ultimately have s2: "serving ex_kv ex_digest ex_U ex_pool [ex_prompt, [11, 12, 13, 14]] ex_run2"
    using serving_add [OF s1 U prod.collapse [symmetric], folded ex_run2_def] by simp
  have "batch_size (fst ex_run2) = 2" "slot_prompt_tokens (fst ex_run2) = [ex_prompt, ex_prompt]"
    "ex_step_result [ex_prompt, [11, 12, 13, 14]] [[20], [15]] ex_run2 = Inr ()"
    by code_simp+
  moreover from this have "step_tokens_ok [ex_prompt, [11, 12, 13, 14]] [[20], [15]] (fst ex_run2)"
    by (auto simp: step_tokens_ok_def less_2_cases_iff ex_prompt_def)
  ultimately show ?thesis
    using ex_step_serving [OF s2, of "[[20], [15]]"] by (simp add: ex_run3_def ex_hist_def ex_prompt_def)
qed

text \<open>Both requests hold the two published blocks.\<close>

lemma ex_shared: "take 2 (block_ids (fst ex_run3) ! 0) = take 2 (block_ids (fst ex_run3) ! 1)"
  by code_simp

theorem serving_reads_own_rows_witness:
  "take 2 (block_ids (fst ex_run3) ! 0) = take 2 (block_ids (fst ex_run3) ! 1) \<and>
   (\<exists>m s' vs cu. materialize_packed_kv (\<lambda>_ s. (Inl RuntimeError, s)) 0 0 ex_run3 =
     (Inr ([11, 23, 36, 50, 65, 85, 11, 23, 36, 50, 65], vs, cu, m), s'))"
proof -
  have "concat (map (rows_of ex_kv 0 ''k'') ex_hist) = [11, 23, 36, 50, 65, 85, 11, 23, 36, 50, 65]" by code_simp
  moreover have "0 < num_layers ex_pool" by (simp add: ex_pool_sel)
  ultimately show ?thesis
    using serving_reads_own_rows [OF ex_servable ex_serving, of 0 "\<lambda>_ s. (Inl RuntimeError, s)" 0] ex_shared
    by (metis (no_types))
qed

theorem serving_keeps_accounting_witness:
  "available (snd ex_run3) + card (set_mset (held (fst ex_run3))) = 8 \<and> kv_inv ex_digest ex_run3 {#}"
proof -
  have "num_blocks (snd ex_run3) = 8" by code_simp
  then show ?thesis using serving_keeps_accounting [OF ex_servable ex_serving] by simp
qed

end
