(* ===== verification/Token_Sampler.thy ===== *)
theory Token_Sampler
  imports Infer_Prelude Complex_Main
begin

text \<open>
  \<open>engine/sampler.py\<close> and \<open>engine/device_tokens.py\<close>: how a step turns one logits row per request into
  one token per request, and how the next step takes these tokens from the device. A logits row is
  abstract. Its \<open>argmax\<close> and the random draws from it are torch code and are arguments: \<open>draw S n i\<close>
  is the draw of row \<open>i\<close> in the \<open>n\<close>-th batch that draws, \<open>draw_one\<close> the one of \<open>sample\<close>, and \<open>softmax\<close>, \<open>uniform\<close> and \<open>multinomial\<close> serve speculation.
\<close>

record sampling_params =
  temperature :: rat
  top_k :: int
  top_p :: rat

definition check_sampling_params :: "sampling_params \<Rightarrow> unit res" where
  "check_sampling_params p = first_error
     [ensure (0 \<le> temperature p) ValueError,
      ensure (0 \<le> top_k p) ValueError,
      ensure (0 \<le> top_p p \<and> top_p p \<le> 1) ValueError]"

text \<open>A distribution is the list of the probabilities of the token ids \<open>0, 1, ...\<close>.\<close>

type_synonym dist = "rat list"

record 'lg sampler =
  argmax :: "'lg \<Rightarrow> token"
  draw :: "nat \<Rightarrow> nat \<Rightarrow> 'lg \<Rightarrow> sampling_params \<Rightarrow> token"
  draw_one :: "nat \<Rightarrow> 'lg \<Rightarrow> sampling_params \<Rightarrow> token"
  vocab_size :: nat
  softmax :: "rat \<Rightarrow> 'lg \<Rightarrow> dist"
  uniform :: "nat \<Rightarrow> nat \<Rightarrow> rat"
  multinomial :: "nat \<Rightarrow> dist \<Rightarrow> token"

text \<open>The state of the random number generator is the number of calls that used it.\<close>

definition sample :: "'lg sampler \<Rightarrow> 'lg \<Rightarrow> sampling_params \<Rightarrow> nat \<Rightarrow> token \<times> nat" where
  "sample S row p rng =
     (if temperature p = 0 then (argmax S row, rng) else (draw_one S rng row p, Suc rng))"

definition sample_tokens :: "'lg sampler \<Rightarrow> 'lg list \<Rightarrow> sampling_params list \<Rightarrow> (nat, token list) act" where
  "sample_tokens S rows ps = (\<lambda>rng.
     if length rows \<noteq> length ps then (Inl ValueError, rng)
     else let greedy = map (argmax S) rows in
       if list_all (\<lambda>p. temperature p = 0) ps then (Inr greedy, rng)
       else (Inr (map (\<lambda>i. if temperature (ps ! i) = 0 then greedy ! i else draw S rng i (rows ! i) (ps ! i))
                   [0 ..< length rows]), Suc rng))"

definition sample_batch :: "'lg sampler \<Rightarrow> 'lg list \<Rightarrow> sampling_params list \<Rightarrow> (nat, token list) act" where
  "sample_batch S rows ps = sample_tokens S rows ps"

text \<open>Batched sampling gives each greedy row the token that \<open>sample\<close> gives it alone.\<close>

definition greedy_rows :: "'lg sampler \<Rightarrow> 'lg list \<Rightarrow> sampling_params list \<Rightarrow> token list \<Rightarrow> bool" where
  "greedy_rows S rows ps ts \<longleftrightarrow> length ts = length rows \<and>
     (\<forall>i < length rows. temperature (ps ! i) = 0 \<longrightarrow> ts ! i = argmax S (rows ! i))"

lemma sample_tokens_ok:
  assumes "length rows = length ps"
  shows "\<exists>ts rng'. sample_tokens S rows ps rng = (Inr ts, rng') \<and> greedy_rows S rows ps ts"
  using assms by (simp add: sample_tokens_def greedy_rows_def list_all_iff Let_def)

lemma sample_greedy: "temperature p = 0 \<Longrightarrow> sample S row p rng = (argmax S row, rng)"
  by (simp add: sample_def)

section \<open>Tokens that stay on the device\<close>

record device_tokens =
  dt_source :: "token list"
  dt_rows :: "nat list"

definition device_tokens_init :: "token list \<Rightarrow> nat list \<Rightarrow> device_tokens res" where
  "device_tokens_init source rows =
     (if filter (\<lambda>row. \<not> row < length source) rows = [] then Inr \<lparr>dt_source = source, dt_rows = rows\<rparr>
      else Inl ValueError)"

definition device_gather :: "device_tokens \<Rightarrow> token list" where
  "device_gather d =
     (let count = length (dt_rows d) in
      if list_all (\<lambda>slot. dt_rows d ! slot = slot) [0 ..< count] then take count (dt_source d)
      else map (\<lambda>row. dt_source d ! row) (dt_rows d))"

text \<open>The ids that a forward takes: a list of the host, or rows on the device.\<close>

datatype input_ids = Host_Ids "token list" | Device_Ids device_tokens

text \<open>The view of the leading rows is the gather of these rows.\<close>

lemma device_gather_rows:
  assumes "device_tokens_init source rows = Inr d"
  shows "device_gather d = map (\<lambda>row. source ! row) rows"
proof -
  have d: "dt_source d = source" "dt_rows d = rows" and bound: "\<forall>r \<in> set rows. r < length source"
    using assms by (auto simp: device_tokens_init_def filter_empty_conv split: if_splits)
  have "take (length rows) source = map (\<lambda>row. source ! row) rows" if "\<forall>i < length rows. rows ! i = i"
  proof (rule nth_equalityI)
    have "length rows \<le> length source"
    proof (cases rows)
      case (Cons r rs)
      then have "rows ! (length rows - 1) \<in> set rows" by (intro nth_mem) simp
      with that bound Cons show ?thesis by fastforce
    qed simp
    then show "length (take (length rows) source) = length (map (\<lambda>row. source ! row) rows)" by simp
  qed (use that in simp)
  then show ?thesis by (auto simp: device_gather_def d Let_def list_all_iff)
qed

end
