(* ===== verification/DSpark_Sampling.thy ===== *)
theory DSpark_Sampling
  imports Token_Sampler
begin

text \<open>
  \<open>engine/dspark/sampling.py\<close> and \<open>engine/dspark/proposal.py\<close>: rejection sampling over exact
  rationals. The softmax and the uniform and multinomial draws are those of the sampler.
\<close>

definition prob :: "dist \<Rightarrow> token \<Rightarrow> rat" where
  "prob d t = d ! nat t"

definition greedy_temperature :: rat where
  "greedy_temperature = 1 / 100000"

definition tiny :: rat where
  "tiny = 1 / 100000000"

text \<open>\<open>logits_to_probs\<close>: a one-hot at the argmax when greedy.\<close>

definition one_hot :: "nat \<Rightarrow> token \<Rightarrow> dist" where
  "one_hot vocab t = (replicate vocab 0)[nat t := 1]"

definition logits_to_probs ::
  "'lg sampler \<Rightarrow> rat \<Rightarrow> 'lg list \<Rightarrow> dist list" where
  "logits_to_probs S temp rows =
     (if temp < greedy_temperature then map (\<lambda>row. one_hot (vocab_size S) (argmax S row)) rows
      else map (softmax S temp) rows)"

definition accept_prob :: "dist \<Rightarrow> dist \<Rightarrow> token \<Rightarrow> rat" where
  "accept_prob target draft t = min 1 (prob target t / max (prob draft t) tiny)"

text \<open>\<open>accepted_prefix_length\<close>: the cumulative product stops the count at the first rejection.\<close>

definition accepted_prefix_length :: "dist list \<Rightarrow> dist list \<Rightarrow> token list \<Rightarrow> rat list \<Rightarrow> nat" where
  "accepted_prefix_length target draft proposed us =
     (if proposed = [] then 0
      else length (takeWhile (\<lambda>i. us ! i < accept_prob (target ! i) (draft ! i) (proposed ! i))
             [0 ..< length proposed]))"

definition residual_dist :: "dist \<Rightarrow> dist \<Rightarrow> dist" where
  "residual_dist target draft =
     (let residual = map2 (\<lambda>t d. max 0 (t - d)) target draft;
          residual1 = (if sum_list residual \<le> tiny then target else residual);
          mass = sum_list residual1
      in map (\<lambda>r. r / max mass tiny) residual1)"

text \<open>\<open>confident_prefix_length\<close> over the survival probabilities of one block.\<close>

definition confident_prefix_length :: "rat list \<Rightarrow> nat \<Rightarrow> rat \<Rightarrow> nat" where
  "confident_prefix_length survival block_size threshold =
     (if threshold \<le> 0 then block_size
      else case filter (\<lambda>i. survival ! i < threshold) [0 ..< length survival] of
          [] \<Rightarrow> block_size
        | i # _ \<Rightarrow> i)"

lemma confident_prefix:
  assumes "length survival = block_size" "i < confident_prefix_length survival block_size threshold" "0 < threshold"
  shows "i < block_size \<and> threshold \<le> survival ! i"
proof -
  have "i < length xs \<and> \<not> P i" if "filter P [0 ..< length xs] = ys" "i < (case ys of [] \<Rightarrow> length xs | j # _ \<Rightarrow> j)"
    for P ys and xs :: "rat list"
  proof (cases ys)
    case Nil
    then have "\<forall>j < length xs. \<not> P j" using that(1) by (auto simp: filter_empty_conv)
    with that(2) Nil show ?thesis by simp
  next
    case (Cons j js)
    with that(1) have "filter P [0 ..< length xs] = j # js" by simp
    then obtain us vs where f: "[0 ..< length xs] = us @ j # vs" "\<forall>u \<in> set us. \<not> P u"
      by (auto simp: filter_eq_Cons_iff)
    have l: "length us < length xs" using arg_cong [OF f(1), of length] by simp
    have j: "j = length us" using arg_cong [OF f(1), of "\<lambda>l. l ! length us"] l by simp
    have "i < length us" using that(2) Cons j by simp
    then have "[0 ..< length xs] ! i = us ! i" using f(1) by (simp add: nth_append)
    then have "i = us ! i" using \<open>i < length us\<close> l by simp
    then have "i \<in> set us" using nth_mem [OF \<open>i < length us\<close>] by simp
    with f(2) \<open>i < length us\<close> l show ?thesis by auto
  qed
  from this [of "\<lambda>i. survival ! i < threshold" survival] assms show ?thesis
    by (auto simp: confident_prefix_length_def)
qed

section \<open>Speculative sampling is lossless\<close>

definition distribution :: "dist \<Rightarrow> bool" where
  "distribution d \<longleftrightarrow> (\<forall>x < length d. 0 \<le> d ! x) \<and> (\<Sum>x < length d. d ! x) = 1"

text \<open>The draft entries that the guard value of the ratio changes.\<close>

definition small_entries :: "dist \<Rightarrow> nat set" where
  "small_entries d = {y. y < length d \<and> 0 < d ! y \<and> d ! y < tiny}"

text \<open>What the guard takes from the acceptance of a token.\<close>

definition guard_loss :: "dist \<Rightarrow> dist \<Rightarrow> nat \<Rightarrow> rat" where
  "guard_loss target draft x = min (draft ! x) (target ! x) - draft ! x * accept_prob target draft (int x)"

lemma distribution_le_1: "distribution d \<Longrightarrow> x < length d \<Longrightarrow> 0 \<le> d ! x \<and> d ! x \<le> 1"
  using member_le_sum [of x "{..< length d}" "\<lambda>x. d ! x"] by (auto simp: distribution_def)

lemma guard_loss_bounds:
  assumes "distribution target" "distribution draft" "x < length draft" "length target = length draft"
  shows "0 \<le> guard_loss target draft x" "guard_loss target draft x \<le> (if x \<in> small_entries draft then tiny else 0)"
proof -
  let ?d = "draft ! x" and ?t = "target ! x"
  have n: "0 \<le> ?d" "0 \<le> ?t" "0 < tiny" using assms by (auto simp: distribution_def tiny_def)
  have l: "guard_loss target draft x = min ?d ?t - ?d * min 1 (?t / max ?d tiny)"
    by (simp add: guard_loss_def accept_prob_def prob_def)
  have "?d * min 1 (?t / max ?d tiny) \<le> min ?d ?t"
  proof -
    have "?d * min 1 (?t / max ?d tiny) \<le> ?d" using n by (simp add: mult_left_le)
    moreover have "?d * (?t / max ?d tiny) \<le> ?t"
    proof -
      have "?d / max ?d tiny \<le> 1" using n by (simp add: divide_le_eq)
      then have "?d / max ?d tiny * ?t \<le> 1 * ?t" using n by (intro mult_right_mono)
      then show ?thesis by simp
    qed
    then have "?d * min 1 (?t / max ?d tiny) \<le> ?t" using n by (meson min.cobounded2 mult_left_mono order_trans)
    ultimately show ?thesis by simp
  qed
  then show "0 \<le> guard_loss target draft x" by (simp add: l)
  have "?d * min 1 (?t / max ?d tiny) = min ?d ?t" if "tiny \<le> ?d"
    using that n by (simp add: max_absorb1 min_def field_simps)
  moreover have "0 \<le> ?d * min 1 (?t / max ?d tiny)" using n by simp
  then have "guard_loss target draft x \<le> ?d" unfolding l by linarith
  ultimately show "guard_loss target draft x \<le> (if x \<in> small_entries draft then tiny else 0)"
    using n assms(3) by (cases "tiny \<le> ?d") (auto simp: small_entries_def l)
qed

lemma guard_loss_sum:
  assumes "distribution target" "distribution draft" "length target = length draft"
  shows "(\<Sum>y < length draft. guard_loss target draft y) \<le> of_nat (card (small_entries draft)) * tiny"
    "x < length draft \<Longrightarrow> guard_loss target draft x \<le> (\<Sum>y < length draft. guard_loss target draft y)"
proof -
  have "(\<Sum>y < length draft. guard_loss target draft y) \<le> (\<Sum>y < length draft. if y \<in> small_entries draft then tiny else 0)"
    by (intro sum_mono) (use guard_loss_bounds(2) assms in simp)
  also have "\<dots> = (\<Sum>y \<in> {..< length draft} \<inter> small_entries draft. tiny)"
    by (rule sum.inter_restrict [symmetric]) simp
  also have "{..< length draft} \<inter> small_entries draft = small_entries draft" by (auto simp: small_entries_def)
  finally show "(\<Sum>y < length draft. guard_loss target draft y) \<le> of_nat (card (small_entries draft)) * tiny" by simp
  show "guard_loss target draft x \<le> (\<Sum>y < length draft. guard_loss target draft y)" if "x < length draft"
    by (intro member_le_sum) (use that guard_loss_bounds(1) assms in auto)
qed

lemma residual_mass:
  assumes "distribution target" "distribution draft" "length target = length draft"
  shows "sum_list (map2 (\<lambda>t d. max 0 (t - d)) target draft) = (\<Sum>x < length draft. max 0 (target ! x - draft ! x))"
    "(\<Sum>x < length draft. max 0 (target ! x - draft ! x)) = 1 - (\<Sum>x < length draft. min (draft ! x) (target ! x))"
proof -
  show "sum_list (map2 (\<lambda>t d. max 0 (t - d)) target draft) = (\<Sum>x < length draft. max 0 (target ! x - draft ! x))"
    using assms(3) by (simp add: sum_list_sum_nth atLeast0LessThan)
  have "(\<Sum>x < length draft. max 0 (target ! x - draft ! x)) = (\<Sum>x < length draft. target ! x - min (draft ! x) (target ! x))"
    by (intro sum.cong) (auto simp: max_def min_def)
  also have "\<dots> = 1 - (\<Sum>x < length draft. min (draft ! x) (target ! x))"
    using assms by (simp add: sum_subtractf distribution_def)
  finally show "(\<Sum>x < length draft. max 0 (target ! x - draft ! x)) = 1 - (\<Sum>x < length draft. min (draft ! x) (target ! x))" .
qed

lemma rejected_mass:
  assumes "distribution draft"
  shows "(\<Sum>y < length draft. draft ! y * (1 - accept_prob target draft (int y))) =
    1 - (\<Sum>x < length draft. min (draft ! x) (target ! x)) + (\<Sum>y < length draft. guard_loss target draft y)"
  using assms by (simp add: guard_loss_def distribution_def sum_subtractf right_diff_distrib)

text \<open>A token is emitted when it is drafted and accepted, or when the draft is rejected and the residual
  draw gives it. With \<open>m\<close> the mass of the residual, the sum differs from the target by what the guard
  takes, and when \<open>m\<close> is at most the guard value, by \<open>m\<close> too.\<close>

lemma emission_bound:
  assumes d: "distribution target" "distribution draft" "length target = length draft" and x: "x < length draft"
  defines "k \<equiv> of_nat (card (small_entries draft))" and "m \<equiv> (\<Sum>y < length draft. max 0 (target ! y - draft ! y))"
    and "emitted \<equiv> draft ! x * accept_prob target draft (int x) +
      (\<Sum>y < length draft. draft ! y * (1 - accept_prob target draft (int y))) * residual_dist target draft ! x"
  shows "\<bar>emitted - target ! x\<bar> \<le> (k + 1) * tiny" "tiny < m \<Longrightarrow> \<bar>emitted - target ! x\<bar> \<le> k * tiny"
proof -
  define e where "e = guard_loss target draft x"
  define E where "E = (\<Sum>y < length draft. guard_loss target draft y)"
  define r where "r = max 0 (target ! x - draft ! x)"
  note rm = residual_mass [OF d]
  have e: "0 \<le> e" "e \<le> E" "E \<le> k * tiny"
    using guard_loss_bounds(1) [OF d(1,2) x d(3)] guard_loss_sum(2) [OF d x] guard_loss_sum(1) [OF d]
    by (simp_all add: e_def E_def k_def)
  have m: "0 \<le> m" unfolding m_def by (intro sum_nonneg) simp
  have r: "0 \<le> r" "r \<le> m"
    unfolding m_def r_def using x member_le_sum [of x "{..< length draft}" "\<lambda>y. max 0 (target ! y - draft ! y)"] by simp_all
  have t: "0 \<le> target ! x" "target ! x \<le> 1" using distribution_le_1 [OF d(1)] x d(3) by simp_all
  have "min (draft ! x) (target ! x) = target ! x - r" by (simp add: min_def max_def r_def)
  then have acc: "draft ! x * accept_prob target draft (int x) = target ! x - r - e"
    by (simp add: e_def guard_loss_def)
  have rej: "(\<Sum>y < length draft. draft ! y * (1 - accept_prob target draft (int y))) = m + E"
    using rejected_mass [OF d(2)] rm(2) by (simp add: m_def E_def)
  have em: "emitted - target ! x = (m + E) * residual_dist target draft ! x - r - e"
    unfolding emitted_def rej acc by simp
  have big: "\<bar>emitted - target ! x\<bar> \<le> k * tiny" if "tiny < m"
  proof -
    have pos: "0 < m" using that by (simp add: tiny_def)
    have "residual_dist target draft ! x = r / m"
      using d(3) x that pos by (simp add: residual_dist_def rm(1) Let_def r_def flip: m_def)
    then have "emitted - target ! x = (m + E) * (r / m) - r - e" using em by simp
    moreover have "(m + E) * (r / m) = r + E * (r / m)" using pos by (simp add: field_simps)
    ultimately have eq: "emitted - target ! x = E * (r / m) - e" by simp
    have "0 \<le> r / m" "r / m \<le> 1" using r pos by simp_all
    moreover have "0 \<le> E" using e by linarith
    ultimately have "0 \<le> E * (r / m)" "E * (r / m) \<le> E" using mult_nonneg_nonneg [of E "r / m"] mult_left_le [of "r / m" E] by blast+
    then show ?thesis using e eq by linarith
  qed
  then show "tiny < m \<Longrightarrow> \<bar>emitted - target ! x\<bar> \<le> k * tiny" .
  show "\<bar>emitted - target ! x\<bar> \<le> (k + 1) * tiny"
  proof (cases "tiny < m")
    case True
    then show ?thesis using big by (simp add: distrib_right tiny_def)
  next
    case False
    have s1: "sum_list target = 1" using d(1) by (simp add: distribution_def sum_list_sum_nth atLeast0LessThan)
    have "residual_dist target draft ! x = target ! x"
      using False d(3) x s1 by (simp add: residual_dist_def rm(1) Let_def tiny_def flip: m_def)
    then have eq: "emitted - target ! x = (m + E) * target ! x - r - e" using em by simp
    have "0 \<le> (m + E) * target ! x" "(m + E) * target ! x \<le> m + E" using m e t by (simp_all add: mult_left_le)
    then show ?thesis using eq e r False by (simp add: distrib_right abs_le_iff)
  qed
qed

end
