(* ===== verification/DSpark_Spec.thy ===== *)
theory DSpark_Spec
  imports DSpark_Sampling
begin

text \<open>
  The round math of \<open>engine/dspark/spec.py\<close> that the batch-1 runner and the scheduler share, with the
  drafter's cache (\<open>draft_cache.py\<close>) and backbone (\<open>drafter.py\<close>). The tensor functions of the
  drafter are fields of the record \<open>drafter\<close>. A hidden row, a key row and a value row have type \<open>'c\<close>.
\<close>

section \<open>The drafter's cache\<close>

record 'c draft_cache =
  dc_keys :: "'c list option list"
  dc_values :: "'c list option list"

definition draft_cache_init :: "nat \<Rightarrow> 'c draft_cache" where
  "draft_cache_init n = \<lparr>dc_keys = replicate n None, dc_values = replicate n None\<rparr>"

definition dc_update :: "nat \<Rightarrow> 'c list \<Rightarrow> 'c list \<Rightarrow> ('c draft_cache, 'c list \<times> 'c list) act" where
  "dc_update l ks vs = (\<lambda>d.
     if \<not> l < length (dc_keys d) then (Inl IndexError, d)
     else case (dc_keys d ! l, dc_values d ! l) of
         (None, _) \<Rightarrow>
           (Inr (ks, vs), d\<lparr>dc_keys := (dc_keys d)[l := Some ks], dc_values := (dc_values d)[l := Some vs]\<rparr>)
       | (Some _, None) \<Rightarrow> (Inl AssertionError, d)
       | (Some k, Some v) \<Rightarrow>
           (Inr (k @ ks, v @ vs),
            d\<lparr>dc_keys := (dc_keys d)[l := Some (k @ ks)], dc_values := (dc_values d)[l := Some (v @ vs)]\<rparr>))"

definition dc_seq_length :: "'c draft_cache \<Rightarrow> nat res" where
  "dc_seq_length d =
     (case dc_keys d of [] \<Rightarrow> Inl IndexError | None # _ \<Rightarrow> Inr 0 | Some k # _ \<Rightarrow> Inr (length k))"

text \<open>A layer with keys and no values would fail an assertion: \<open>dc_update\<close> sets both.\<close>

definition dc_truncate :: "int \<Rightarrow> ('c draft_cache, unit) act" where
  "dc_truncate n = (\<lambda>d.
     case dc_seq_length d of Inl e \<Rightarrow> (Inl e, d) | Inr cur \<Rightarrow>
       if n < 0 then (Inl ValueError, d)
       else if int cur < n then (Inl ValueError, d)
       else if n = int cur then (Inr (), d)
       else (Inr (), \<lparr>dc_keys = map (map_option (take (nat n))) (dc_keys d),
                      dc_values = map (map_option (take (nat n))) (dc_values d)\<rparr>))"

text \<open>The layers below \<open>l0\<close> hold \<open>m\<close> rows and the others \<open>n\<close>, keys and values alike.\<close>

fun layer_rows :: "nat \<Rightarrow> 'c list option \<Rightarrow> 'c list option \<Rightarrow> bool" where
  "layer_rows n None None = (n = 0)"
| "layer_rows n (Some k) (Some v) = (length k = n \<and> length v = n)"
| "layer_rows n _ _ = False"

definition dc_partial :: "nat \<Rightarrow> nat \<Rightarrow> nat \<Rightarrow> nat \<Rightarrow> 'c draft_cache \<Rightarrow> bool" where
  "dc_partial layers l0 n m d \<longleftrightarrow> length (dc_keys d) = layers \<and> length (dc_values d) = layers \<and>
     (\<forall>l < layers. layer_rows (if l < l0 then m else n) (dc_keys d ! l) (dc_values d ! l))"

definition dc_rows :: "nat \<Rightarrow> nat \<Rightarrow> 'c draft_cache \<Rightarrow> bool" where
  "dc_rows layers n d \<longleftrightarrow> dc_partial layers 0 n n d"

lemma dc_partial_rows [simp]: "dc_partial layers 0 n m d = dc_rows layers n d" "dc_partial layers layers n m d = dc_rows layers m d"
  by (simp_all add: dc_rows_def dc_partial_def cong: conj_cong)

lemma layer_rows_take: "layer_rows n k v \<Longrightarrow> m \<le> n \<Longrightarrow> layer_rows m (map_option (take m) k) (map_option (take m) v)"
  by (induction n k v rule: layer_rows.induct) auto

lemma dc_rows_init: "dc_rows layers 0 (draft_cache_init layers)"
  by (simp add: dc_rows_def dc_partial_def draft_cache_init_def)

lemma dc_rows_seq_length:
  assumes "dc_rows layers n d" "0 < layers"
  shows "dc_seq_length d = Inr n"
proof -
  have "dc_keys d \<noteq> []" "layer_rows n (dc_keys d ! 0) (dc_values d ! 0)"
    using assms by (auto simp: dc_rows_def dc_partial_def)
  then show ?thesis
    by (cases "dc_keys d"; cases "dc_keys d ! 0"; cases "dc_values d ! 0") (auto simp: dc_seq_length_def)
qed

lemma dc_truncate_ok:
  assumes "dc_rows layers n d" "0 < layers" "m \<le> n"
  shows "\<exists>d'. dc_truncate (int m) d = (Inr (), d') \<and> dc_rows layers m d'"
proof (cases "m = n")
  case True
  then show ?thesis using assms dc_rows_seq_length [OF assms(1,2)] by (simp add: dc_truncate_def)
next
  case False
  let ?d = "\<lparr>dc_keys = map (map_option (take m)) (dc_keys d), dc_values = map (map_option (take m)) (dc_values d)\<rparr>"
  have "dc_truncate (int m) d = (Inr (), ?d)"
    using False assms dc_rows_seq_length [OF assms(1,2)] by (simp add: dc_truncate_def)
  moreover have "dc_rows layers m ?d"
    using assms layer_rows_take [OF _ assms(3)] by (auto simp: dc_rows_def dc_partial_def)
  ultimately show ?thesis by blast
qed

section \<open>The drafter\<close>

record ('lg, 'c) drafter =
  df_block_size :: nat
  mask_token_id :: token
  df_num_layers :: nat
  target_layer_ids :: "nat list"
  confidence_head :: "('c \<Rightarrow> token option \<Rightarrow> rat) option"
  confidence_with_markov :: bool
  markov_bias :: "(token \<Rightarrow> 'lg \<Rightarrow> 'lg) option"
  embed_token :: "token \<Rightarrow> 'c"
  fuse_context :: "'c \<Rightarrow> 'c"
  draft_kv :: "nat \<Rightarrow> nat \<Rightarrow> 'c \<Rightarrow> 'c \<times> 'c"
  draft_layer :: "nat \<Rightarrow> nat list \<Rightarrow> 'c list \<Rightarrow> 'c list \<Rightarrow> 'c list \<Rightarrow> 'c list"
  draft_head :: "'c \<Rightarrow> 'lg"
  sigmoid :: "rat \<Rightarrow> rat"

text \<open>\<open>sample_tokens\<close> of \<open>dspark/sampling.py\<close> on one row. A draw takes one number of the generator.\<close>

definition draw_row :: "'lg sampler \<Rightarrow> rat \<Rightarrow> 'lg \<Rightarrow> nat \<Rightarrow> token \<times> nat" where
  "draw_row S temp row rng =
     (if temp < greedy_temperature then (argmax S row, rng)
      else (multinomial S rng (softmax S temp row), Suc rng))"

fun draw_rows :: "'lg sampler \<Rightarrow> rat \<Rightarrow> 'lg list \<Rightarrow> nat \<Rightarrow> token list \<times> nat" where
  "draw_rows S temp [] rng = ([], rng)"
| "draw_rows S temp (row # rows) rng =
     (let (t, rng1) = draw_row S temp row rng; (ts, rng2) = draw_rows S temp rows rng1 in (t # ts, rng2))"

text \<open>\<open>sample_block_tokens\<close> of the Markov head: the bias of each row comes from the token sampled before it.\<close>

fun sample_block_tokens ::
  "'lg sampler \<Rightarrow> (token \<Rightarrow> 'lg \<Rightarrow> 'lg) \<Rightarrow> rat \<Rightarrow> 'lg list \<Rightarrow> token \<Rightarrow> nat \<Rightarrow> (token list \<times> 'lg list) \<times> nat" where
  "sample_block_tokens S bias temp [] prev rng = (([], []), rng)"
| "sample_block_tokens S bias temp (row # rows) prev rng =
     (let step = bias prev row; (t, rng1) = draw_row S temp step rng;
          ((ts, steps), rng2) = sample_block_tokens S bias temp rows t rng1
      in ((t # ts, step # steps), rng2))"

definition sample_draft_tokens ::
  "'lg sampler \<Rightarrow> ('lg, 'c) drafter \<Rightarrow> 'lg list \<Rightarrow> token \<Rightarrow> rat \<Rightarrow> nat \<Rightarrow> (token list \<times> 'lg list) \<times> nat" where
  "sample_draft_tokens S D rows prev temp rng =
     (if rows = [] then (([], rows), rng)
      else case markov_bias D of
          None \<Rightarrow> (let (ts, rng1) = draw_rows S temp rows rng in ((ts, rows), rng1))
        | Some bias \<Rightarrow> sample_block_tokens S bias temp rows prev rng)"

text \<open>\<open>predict_confidence_step\<close>: the head sees the embedding of the previous token or not.\<close>

definition predict_confidence_step :: "('lg, 'c) drafter \<Rightarrow> 'c list \<Rightarrow> token list \<Rightarrow> rat list option" where
  "predict_confidence_step D hidden prev =
     (case confidence_head D of
        None \<Rightarrow> None
      | Some head \<Rightarrow>
          Some (if confidence_with_markov D then map2 (\<lambda>h t. head h (Some t)) hidden prev
                else map (\<lambda>h. head h None) hidden))"

text \<open>\<open>forward_backbone\<close>: each layer appends the rows of the context and of the block to the cache.\<close>

fun backbone_layers ::
  "('lg, 'c) drafter \<Rightarrow> nat list \<Rightarrow> 'c list \<Rightarrow> nat list \<Rightarrow> 'c list \<Rightarrow> ('c draft_cache, 'c list) act" where
  "backbone_layers D pos ctx [] hidden d = (Inr hidden, d)"
| "backbone_layers D pos ctx (l # ls) hidden d =
     (let kv = map2 (draft_kv D l) pos (ctx @ hidden) in
      case dc_update l (map fst kv) (map snd kv) d of
        (Inl e, d') \<Rightarrow> (Inl e, d')
      | (Inr (ks, vs), d') \<Rightarrow> backbone_layers D pos ctx ls (draft_layer D l pos hidden ks vs) d')"

text \<open>torch refuses rotary positions that do not match the rows.\<close>

definition forward_backbone ::
  "('lg, 'c) drafter \<Rightarrow> token list \<Rightarrow> 'c list \<Rightarrow> nat list \<Rightarrow> ('c draft_cache, 'c list) act" where
  "forward_backbone D ids ctx pos = (\<lambda>d.
     if length pos \<noteq> length ctx + length ids then (Inl RuntimeError, d)
     else backbone_layers D pos (map (fuse_context D) ctx) [0 ..< df_num_layers D] (map (embed_token D) ids) d)"

text \<open>A backbone pass leaves the context and the block in every layer.\<close>

lemma dc_update_partial:
  assumes "dc_partial layers l n (n + length ks) d" "l < layers" "length vs = length ks"
  shows "\<exists>k v d'. dc_update l ks vs d = (Inr (k, v), d') \<and> length k = n + length ks \<and>
    dc_partial layers (Suc l) n (n + length ks) d'"
proof -
  have d: "length (dc_keys d) = layers" "length (dc_values d) = layers" "layer_rows n (dc_keys d ! l) (dc_values d ! l)"
    using assms(1,2) by (auto simp: dc_partial_def)
  have step: "dc_partial layers (Suc l) n (n + length ks)
      (d\<lparr>dc_keys := (dc_keys d)[l := Some k], dc_values := (dc_values d)[l := Some v]\<rparr>)"
    if "length k = n + length ks" "length v = n + length ks" for k v
    using assms(1,2) that unfolding dc_partial_def by (auto simp: nth_list_update less_Suc_eq)
  consider "dc_keys d ! l = None" "dc_values d ! l = None" "n = 0"
    | k v where "dc_keys d ! l = Some k" "dc_values d ! l = Some v" "length k = n" "length v = n"
    using d(3) by (cases "dc_keys d ! l"; cases "dc_values d ! l") auto
  then show ?thesis
  proof cases
    case 1
    then show ?thesis using d assms(2,3) step [of ks vs] by (simp add: dc_update_def)
  next
    case (2 k v)
    then show ?thesis using d assms(2,3) step [of "k @ ks" "v @ vs"] by (simp add: dc_update_def)
  qed
qed

lemma backbone_layers_ok:
  assumes "dc_partial layers l n (n + length pos) d" "l + m = layers"
    "length pos = length ctx + length hidden"
    "\<And>l pos h ks vs. length (draft_layer D l pos h ks vs) = length h"
  shows "\<exists>out d'. backbone_layers D pos ctx [l ..< l + m] hidden d = (Inr out, d') \<and> length out = length hidden \<and>
    dc_partial layers (l + m) n (n + length pos) d'"
  using assms(1-3)
proof (induction m arbitrary: l hidden d)
  case 0
  then show ?case by simp
next
  case (Suc m)
  let ?kv = "map2 (draft_kv D l) pos (ctx @ hidden)"
  have len: "length (map fst ?kv) = length pos" "length (map snd ?kv) = length pos" using Suc.prems(3) by simp_all
  obtain k v d1 where u: "dc_update l (map fst ?kv) (map snd ?kv) d = (Inr (k, v), d1)"
      "dc_partial layers (Suc l) n (n + length pos) d1"
    using dc_update_partial [of layers l n "map fst ?kv" d "map snd ?kv"] Suc.prems len by auto
  have "Suc l + m = layers" using Suc.prems(2) by simp
  moreover have "length pos = length ctx + length (draft_layer D l pos hidden k v)" using Suc.prems(3) assms(4) by simp
  ultimately obtain out d' where "backbone_layers D pos ctx [Suc l ..< Suc l + m] (draft_layer D l pos hidden k v) d1 = (Inr out, d')"
      "length out = length (draft_layer D l pos hidden k v)" "dc_partial layers (Suc l + m) n (n + length pos) d'"
    using Suc.IH [OF u(2)] by blast
  moreover have "[l ..< l + Suc m] = l # [Suc l ..< Suc l + m]" by (simp add: upt_conv_Cons)
  ultimately show ?case using u(1) assms(4) by (simp add: Let_def)
qed

text \<open>\<open>propose_block\<close>: \<open>(tokens, confidence logits, draft probabilities)\<close>. The draw uses the generator.\<close>

type_synonym proposal = "token list \<times> rat list option \<times> dist list"

definition propose_block ::
  "'lg sampler \<Rightarrow> ('lg, 'c) drafter \<Rightarrow> token \<Rightarrow> 'c list \<Rightarrow> nat \<Rightarrow> rat \<Rightarrow> ('c draft_cache \<times> nat, proposal) act" where
  "propose_block S D anchor ctx start temp = (\<lambda>(d, rng).
     let ids = (replicate (df_block_size D) (mask_token_id D))[0 := anchor] in
     case dc_seq_length d of Inl e \<Rightarrow> (Inl e, (d, rng)) | Inr cache_len \<Rightarrow>
     (case forward_backbone D ids ctx [cache_len ..< start + df_block_size D] d of
        (Inl e, d1) \<Rightarrow> (Inl e, (d1, rng))
      | (Inr block, d1) \<Rightarrow>
     (case dc_truncate (int start) d1 of
        (Inl e, d2) \<Rightarrow> (Inl e, (d2, rng))
      | (Inr _, d2) \<Rightarrow>
        (let hidden = take (df_block_size D) block;
             ((sampled, corrected), rng') = sample_draft_tokens S D (map (draft_head D) hidden) (ids ! 0) temp rng;
             probs = logits_to_probs S temp corrected;
             confidence = predict_confidence_step D hidden (take 1 ids @ butlast sampled)
         in (Inr (sampled, confidence, probs), (d2, rng'))))))"

text \<open>\<open>DSparkSpec\<close>: the drafter and the settings of the scheduler.\<close>

record ('lg, 'c) dspark_spec =
  ds_drafter :: "('lg, 'c) drafter"
  confidence_threshold :: rat
  max_spec_prompt_tokens :: int

definition check_dspark_spec :: "('lg, 'c) dspark_spec \<Rightarrow> unit res" where
  "check_dspark_spec K = first_error
     [ensure (0 \<le> confidence_threshold K \<and> confidence_threshold K \<le> 1) ValueError,
      ensure (\<not> (0 < confidence_threshold K \<and> confidence_head (ds_drafter K) = None)) ValueError,
      ensure (1 \<le> max_spec_prompt_tokens K) ValueError]"

definition propose ::
  "'lg sampler \<Rightarrow> ('lg, 'c) dspark_spec \<Rightarrow> token \<Rightarrow> 'c list \<Rightarrow> nat \<Rightarrow> rat \<Rightarrow> ('c draft_cache \<times> nat, proposal) act" where
  "propose S K anchor ctx start temp = (\<lambda>s.
     case propose_block S (ds_drafter K) anchor ctx start temp s of
       (Inl e, s') \<Rightarrow> (Inl e, s')
     | (Inr (tokens, confidence, probs), s') \<Rightarrow>
         (let n = (case confidence of
              None \<Rightarrow> df_block_size (ds_drafter K)
            | Some c \<Rightarrow> confident_prefix_length (map (sigmoid (ds_drafter K)) c) (df_block_size (ds_drafter K))
                          (confidence_threshold K))
          in (Inr (take n tokens, confidence, probs), s')))"

text \<open>One round leaves the drafter's cache at exactly \<open>start\<close> rows, and cannot fail, under (INV).\<close>

lemma propose_block_ok:
  assumes "dc_rows (df_num_layers D) n d" "0 < df_num_layers D" "n + length ctx = start" "0 < df_block_size D"
    "\<And>l pos h ks vs. length (draft_layer D l pos h ks vs) = length h"
  shows "\<exists>p d' rng'. propose_block S D anchor ctx start temp (d, rng) = (Inr p, (d', rng')) \<and>
    dc_rows (df_num_layers D) start d'"
proof -
  let ?ids = "(replicate (df_block_size D) (mask_token_id D))[0 := anchor]"
  let ?pos = "[n ..< start + df_block_size D]"
  have len: "length ?pos = length ctx + df_block_size D" using assms(3) by simp
  have part: "dc_partial (df_num_layers D) 0 n (n + length ?pos) d" using assms(1) by simp
  have lens: "length ?pos = length (map (fuse_context D) ctx) + length (map (embed_token D) ?ids)" using len by simp
  obtain out d1 where b: "backbone_layers D ?pos (map (fuse_context D) ctx) [0 ..< 0 + df_num_layers D]
        (map (embed_token D) ?ids) d = (Inr out, d1)" "dc_rows (df_num_layers D) (n + length ?pos) d1"
    using backbone_layers_ok [OF part _ lens assms(5)] by fastforce
  have "start \<le> n + length ?pos" using assms(3) by simp
  from dc_truncate_ok [OF b(2) assms(2) this] obtain d2 where
    "dc_truncate (int start) d1 = (Inr (), d2)" "dc_rows (df_num_layers D) start d2" by blast
  then show ?thesis
    using b(1) len dc_rows_seq_length [OF assms(1,2)]
    by (simp add: propose_block_def forward_backbone_def Let_def split: prod.splits)
qed

section \<open>Verification\<close>

fun match_prefix :: "token list \<Rightarrow> token list \<Rightarrow> nat" where
  "match_prefix (a # as) (t # ts) = (if a = t then Suc (match_prefix as ts) else 0)"
| "match_prefix _ _ = 0"

definition verify_greedy :: "'lg sampler \<Rightarrow> 'lg list \<Rightarrow> token list \<Rightarrow> (nat \<times> token) res" where
  "verify_greedy S rows offered =
     (let target = map (argmax S) rows; accepted = match_prefix target offered
      in case nth_res target accepted of Inl e \<Rightarrow> Inl e | Inr bonus \<Rightarrow> Inr (accepted, bonus))"

definition verify_sampling ::
  "'lg sampler \<Rightarrow> dist list \<Rightarrow> token list \<Rightarrow> dist list \<Rightarrow> nat \<Rightarrow> (nat \<times> token) \<times> nat" where
  "verify_sampling S target offered draft rng =
     (let n = length offered in
      if offered = [] then ((0, multinomial S rng (last target)), Suc rng)
      else let accepted = accepted_prefix_length (butlast target) (take n draft) offered (map (uniform S rng) [0 ..< n])
        in if accepted < n
           then ((accepted, multinomial S (Suc rng) (residual_dist (target ! accepted) (draft ! accepted))), rng + 2)
           else ((accepted, multinomial S (Suc rng) (last target)), rng + 2))"

definition verify_block ::
  "'lg sampler \<Rightarrow> 'lg list \<Rightarrow> token list \<Rightarrow> dist list \<Rightarrow> rat \<Rightarrow> (nat, nat \<times> token) act" where
  "verify_block S rows offered draft temp = (\<lambda>rng.
     if temp < greedy_temperature then (verify_greedy S rows offered, rng)
     else case verify_sampling S (logits_to_probs S temp rows) offered draft rng of (r, rng') \<Rightarrow> (Inr r, rng'))"

text \<open>A sampling round: the drafts are accepted up to the first whose uniform draw is not below its
  acceptance probability. The token after them is drawn from the residual at that position, or from the
  row after the last draft.\<close>

lemma accepted_prefix_length_eq:
  assumes "\<And>i. i < length proposed \<Longrightarrow> target ! i = target' ! i \<and> draft ! i = draft' ! i"
  shows "accepted_prefix_length target draft proposed us = accepted_prefix_length target' draft' proposed us"
proof -
  have "takeWhile (\<lambda>i. us ! i < accept_prob (target ! i) (draft ! i) (proposed ! i)) [0 ..< length proposed] =
      takeWhile (\<lambda>i. us ! i < accept_prob (target' ! i) (draft' ! i) (proposed ! i)) [0 ..< length proposed]"
    by (rule takeWhile_cong) (use assms in auto)
  then show ?thesis by (simp add: accepted_prefix_length_def)
qed

lemma accepted_prefix_length_spec:
  fixes target draft :: "dist list" and proposed :: "token list" and us :: "rat list"
  defines "a \<equiv> accepted_prefix_length target draft proposed us"
  shows "a \<le> length proposed"
    "i < a \<Longrightarrow> us ! i < accept_prob (target ! i) (draft ! i) (proposed ! i)"
    "a < length proposed \<Longrightarrow> \<not> us ! a < accept_prob (target ! a) (draft ! a) (proposed ! a)"
proof -
  let ?P = "\<lambda>i. us ! i < accept_prob (target ! i) (draft ! i) (proposed ! i)"
  let ?w = "takeWhile ?P [0 ..< length proposed]"
  have a: "a = length ?w" by (simp add: a_def accepted_prefix_length_def)
  have le: "length ?w \<le> length proposed" using length_takeWhile_le [of ?P "[0 ..< length proposed]"] by simp
  then show "a \<le> length proposed" by (simp add: a)
  have at: "?w ! i = i" if "i < length ?w" for i using that le takeWhile_nth [of i ?P "[0 ..< length proposed]"] by simp
  show "?P i" if "i < a"
    using set_takeWhileD [of "?w ! i" ?P] nth_mem [of i ?w] that a at by auto
  show "\<not> ?P a" if "a < length proposed"
    using nth_length_takeWhile [of ?P "[0 ..< length proposed]"] that a by simp
qed

lemma verify_block_sampling:
  assumes temp: "greedy_temperature \<le> temp" and len: "length rows = Suc (length offered)" "length offered \<le> length draft"
    and P: "P = map (softmax S temp) rows"
  shows "\<exists>a bonus. verify_block S rows offered draft temp g = (Inr (a, bonus), if offered = [] then g + 1 else g + 2) \<and>
    a \<le> length offered \<and> (\<forall>i < a. uniform S g i < accept_prob (P ! i) (draft ! i) (offered ! i)) \<and>
    (a < length offered \<longrightarrow> accept_prob (P ! a) (draft ! a) (offered ! a) \<le> uniform S g a \<and>
      bonus = multinomial S (g + 1) (residual_dist (P ! a) (draft ! a))) \<and>
    (a = length offered \<longrightarrow> bonus = multinomial S (if offered = [] then g else g + 1) (P ! a))"
proof -
  let ?n = "length offered"
  let ?us = "map (uniform S g) [0 ..< ?n]"
  have PL: "length P = Suc ?n" using len(1) P by simp
  then have last: "last P = P ! ?n" by (metis diff_Suc_1 last_conv_nth length_0_conv nat.distinct(1))
  have vb: "verify_block S rows offered draft temp g =
      (case verify_sampling S P offered draft g of (r, rng') \<Rightarrow> (Inr r, rng'))"
    using temp by (simp add: verify_block_def logits_to_probs_def P)
  show ?thesis
  proof (cases "offered = []")
    case True
    then show ?thesis using vb last by (simp add: verify_sampling_def)
  next
    case False
    have "accepted_prefix_length (butlast P) (take ?n draft) offered ?us = accepted_prefix_length P draft offered ?us"
      by (rule accepted_prefix_length_eq) (use PL in \<open>simp add: nth_butlast\<close>)
    then show ?thesis
      using vb last False accepted_prefix_length_spec [where target = P and draft = draft and proposed = offered and us = ?us]
      by (auto simp: verify_sampling_def Let_def not_less)
  qed
qed

text \<open>What a greedy round accepts: the drafts up to the first that is not the target's choice.\<close>

lemma match_prefix_spec:
  "match_prefix as ts \<le> length ts" "match_prefix as ts \<le> length as"
  "i < match_prefix as ts \<Longrightarrow> as ! i = ts ! i"
  "match_prefix as ts < length as \<Longrightarrow> match_prefix as ts < length ts \<Longrightarrow>
     as ! match_prefix as ts \<noteq> ts ! match_prefix as ts"
  by (induction as ts arbitrary: i rule: match_prefix.induct) (auto simp: nth_Cons split: nat.splits if_splits)

lemma verify_greedy_ok:
  assumes "length rows = Suc (length offered)"
  shows "\<exists>a. verify_greedy S rows offered = Inr (a, argmax S (rows ! a)) \<and> a \<le> length offered \<and>
    (\<forall>i < a. argmax S (rows ! i) = offered ! i)"
  using match_prefix_spec(1,3) [where as = "map (argmax S) rows" and ts = offered] assms
  by (auto simp: verify_greedy_def Let_def nth_res_def)

section \<open>Statistics\<close>

record dspark_stats =
  acceptance_lengths :: "nat list"
  proposal_lengths :: "nat list"
  accepted_draft_lengths :: "nat list"
  n_target_forwards :: nat
  n_drafter_forwards :: nat
  confidence_observations :: "(rat \<times> bool) list"
  room_clamped_rounds :: nat
  room_clamped_committed :: nat

definition stats_init :: dspark_stats where
  "stats_init = \<lparr>acceptance_lengths = [], proposal_lengths = [], accepted_draft_lengths = [],
     n_target_forwards = 0, n_drafter_forwards = 0, confidence_observations = [],
     room_clamped_rounds = 0, room_clamped_committed = 0\<rparr>"

definition ratio :: "nat \<Rightarrow> nat \<Rightarrow> rat" where
  "ratio a b = (if b = 0 then 0 else of_nat a / of_nat b)"

definition mean_acceptance_length :: "dspark_stats \<Rightarrow> rat" where
  "mean_acceptance_length st = ratio (sum_list (acceptance_lengths st)) (length (acceptance_lengths st))"

definition mean_proposal_length :: "dspark_stats \<Rightarrow> rat" where
  "mean_proposal_length st = ratio (sum_list (proposal_lengths st)) (length (proposal_lengths st))"

text \<open>\<open>_position_counts\<close>: the \<open>strict\<close> zip raises on lists of different lengths.\<close>

definition position_counts :: "nat \<Rightarrow> dspark_stats \<Rightarrow> (nat list \<times> nat list) res" where
  "position_counts block_size st =
     (if length (proposal_lengths st) \<noteq> length (accepted_draft_lengths st) then Inl ValueError
      else Inr (map (\<lambda>p. length (filter (\<lambda>n. p < n) (proposal_lengths st))) [0 ..< block_size],
                map (\<lambda>p. length (filter (\<lambda>n. p < n) (accepted_draft_lengths st))) [0 ..< block_size]))"

definition accept_rates_by_position :: "nat \<Rightarrow> dspark_stats \<Rightarrow> rat option list res" where
  "accept_rates_by_position block_size st =
     (case position_counts block_size st of Inl e \<Rightarrow> Inl e | Inr (offered, survived) \<Rightarrow>
        Inr (map (\<lambda>p. if offered ! p = 0 then None else Some (of_nat (survived ! p) / of_nat (offered ! p)))
               [0 ..< block_size]))"

record spec_summary =
  sm_rounds :: nat
  sm_committed :: nat
  sm_offered :: nat
  sm_accepted :: nat
  sm_drafter_forwards :: nat
  offered_by_position :: "nat list"
  survived_by_position :: "nat list"
  sm_clamped_rounds :: nat
  sm_clamped_committed :: nat

definition summary :: "nat \<Rightarrow> dspark_stats \<Rightarrow> spec_summary res" where
  "summary block_size st =
     (case position_counts block_size st of Inl e \<Rightarrow> Inl e | Inr (offered, survived) \<Rightarrow>
        Inr \<lparr>sm_rounds = length (acceptance_lengths st),
             sm_committed = sum_list (acceptance_lengths st),
             sm_offered = sum_list (proposal_lengths st),
             sm_accepted = sum_list (accepted_draft_lengths st),
             sm_drafter_forwards = n_drafter_forwards st,
             offered_by_position = offered, survived_by_position = survived,
             sm_clamped_rounds = room_clamped_rounds st,
             sm_clamped_committed = room_clamped_committed st\<rparr>)"

definition tau :: "spec_summary \<Rightarrow> rat" where
  "tau s = ratio (sm_committed s) (sm_rounds s)"

definition tau_unclamped :: "spec_summary \<Rightarrow> rat" where
  "tau_unclamped s =
     (let rounds = int (sm_rounds s) - int (sm_clamped_rounds s);
          committed = int (sm_committed s) - int (sm_clamped_committed s)
      in if rounds = 0 then 0 else of_int committed / of_int rounds)"

definition pool_summaries :: "spec_summary list \<Rightarrow> spec_summary res" where
  "pool_summaries ss =
     (case ss of [] \<Rightarrow> Inl ValueError | s0 # _ \<Rightarrow>
        let width = length (offered_by_position s0) in
        if list_ex (\<lambda>s. length (offered_by_position s) \<noteq> width) ss then Inl ValueError
        else if list_ex (\<lambda>s. length (survived_by_position s) < width) ss then Inl IndexError
        else Inr \<lparr>sm_rounds = sum_list (map sm_rounds ss),
             sm_committed = sum_list (map sm_committed ss),
             sm_offered = sum_list (map sm_offered ss),
             sm_accepted = sum_list (map sm_accepted ss),
             sm_drafter_forwards = sum_list (map sm_drafter_forwards ss),
             offered_by_position = map (\<lambda>p. sum_list (map (\<lambda>s. offered_by_position s ! p) ss)) [0 ..< width],
             survived_by_position = map (\<lambda>p. sum_list (map (\<lambda>s. survived_by_position s ! p) ss)) [0 ..< width],
             sm_clamped_rounds = sum_list (map sm_clamped_rounds ss),
             sm_clamped_committed = sum_list (map sm_clamped_committed ss)\<rparr>)"

section \<open>The speculative state of a request\<close>

record 'c spec_state =
  sp_draft_cache :: "'c draft_cache"
  sp_stats :: dspark_stats
  sp_context :: "'c list option"
  context_parts :: "'c list list"
  sp_anchor :: "token option"
  sp_offered :: "token list option"
  sp_draft_probs :: "dist list option"
  sp_confidence :: "rat list option"
  sp_start :: "nat option"
  drafted_for_start :: "nat option"
  sp_room_clamped :: bool

definition spec_state_init :: "('lg, 'c) dspark_spec \<Rightarrow> 'c spec_state" where
  "spec_state_init K =
     \<lparr>sp_draft_cache = draft_cache_init (df_num_layers (ds_drafter K)), sp_stats = stats_init,
      sp_context = None, context_parts = [], sp_anchor = None, sp_offered = None, sp_draft_probs = None,
      sp_confidence = None, sp_start = None, drafted_for_start = None, sp_room_clamped = False\<rparr>"

text \<open>\<open>context_window\<close>: the rows of one request in a packed sink. A row of the sink is already the
  concatenation of the tapped layers in the drafter's order.\<close>

definition context_window :: "'c list \<Rightarrow> nat \<Rightarrow> nat \<Rightarrow> 'c list res" where
  "context_window sink lo hi =
     (let rows = take (hi - lo) (drop lo sink)
      in if length rows = hi - lo then Inr rows else Inl AssertionError)"

end
