(* ===== verification/Request_State.thy ===== *)
theory Request_State
  imports DSpark_Spec
begin

text \<open>
  \<open>scheduler/request_state.py\<close> and the \<open>TextStream\<close> of \<open>engine/tokenizer.py\<close>: the request, its output
  queue, its record in the engine and the handle that the API thread reads.
\<close>

section \<open>Text of a growing token list\<close>

text \<open>\<open>decode\<close> and the streaming decoder are the tokenizers library's. \<open>decode_step\<close> gives the piece of
  text that one more id adds to the ids pushed so far, or None while a character is incomplete.\<close>

record tokenizer =
  tok_encode :: "string \<Rightarrow> token list"
  tok_decode :: "token list \<Rightarrow> string"
  decode_step :: "(token list \<Rightarrow> token \<Rightarrow> string option) option"
  eos_token_id :: token

record text_stream =
  ts_ids :: "token list"
  ts_text :: string

definition text_stream_init :: text_stream where
  "text_stream_init = \<lparr>ts_ids = [], ts_text = []\<rparr>"

fun stream_pieces :: "(token list \<Rightarrow> token \<Rightarrow> string option) \<Rightarrow> token list \<Rightarrow> token list \<Rightarrow> string" where
  "stream_pieces step seen [] = []"
| "stream_pieces step seen (t # ts) =
     (case step seen t of None \<Rightarrow> [] | Some piece \<Rightarrow> piece) @ stream_pieces step (seen @ [t]) ts"

definition push :: "tokenizer \<Rightarrow> token list \<Rightarrow> text_stream \<Rightarrow> string \<times> text_stream" where
  "push T ids ts =
     (let delta = (case decode_step T of
            Some step \<Rightarrow> stream_pieces step (ts_ids ts) ids
          | None \<Rightarrow> drop (length (ts_text ts)) (tok_decode T (ts_ids ts @ ids)))
      in (delta, \<lparr>ts_ids = ts_ids ts @ ids, ts_text = ts_text ts @ delta\<rparr>))"

section \<open>Requests and steps\<close>

record request =
  prompt_text :: string
  sampling :: sampling_params
  max_tokens :: int

datatype finish_reason = Stop | Length | Cancelled

record generation_step =
  gs_text :: string
  gs_finish :: "finish_reason option"
  gs_num_tokens :: nat
  gs_failed :: bool

definition text_step :: "string \<Rightarrow> nat \<Rightarrow> generation_step" where
  "text_step t n = \<lparr>gs_text = t, gs_finish = None, gs_num_tokens = n, gs_failed = False\<rparr>"

definition terminal_step :: "finish_reason \<Rightarrow> generation_step" where
  "terminal_step r = \<lparr>gs_text = [], gs_finish = Some r, gs_num_tokens = 0, gs_failed = False\<rparr>"

record generation_result =
  gr_text :: string
  gr_tokens :: "token list"
  gr_finish :: finish_reason
  gr_prompt_tokens :: nat
  gr_spec_summary :: "spec_summary option"

section \<open>The output queue\<close>

text \<open>\<open>sq_listener\<close>: a reader waits for the event \<open>sq_ready\<close>, which its listener sets.\<close>

record step_queue =
  sq_items :: "generation_step list"
  sq_maxsize :: nat
  sq_listener :: bool
  sq_ready :: bool

definition step_queue_init :: "nat \<Rightarrow> step_queue" where
  "step_queue_init n = \<lparr>sq_items = [], sq_maxsize = n, sq_listener = False, sq_ready = False\<rparr>"

definition set_listener :: "bool \<Rightarrow> step_queue \<Rightarrow> step_queue" where
  "set_listener l q = q\<lparr>sq_listener := l\<rparr>"

definition put_nowait :: "generation_step \<Rightarrow> (step_queue, unit) act" where
  "put_nowait step = (\<lambda>q.
     if 0 < sq_maxsize q \<and> sq_maxsize q \<le> length (sq_items q) then (Inl Queue_Full, q)
     else (Inr (), q\<lparr>sq_items := sq_items q @ [step], sq_ready := sq_ready q \<or> sq_listener q\<rparr>))"

definition get_nowait :: "(step_queue, generation_step) act" where
  "get_nowait = (\<lambda>q. case sq_items q of [] \<Rightarrow> (Inl Queue_Empty, q) | x # xs \<Rightarrow> (Inr x, q\<lparr>sq_items := xs\<rparr>))"

text \<open>\<open>_emit\<close> and the puts of \<open>_finish\<close>: on a full queue the oldest step goes. An exception of the second
  put is suppressed.\<close>

definition put_dropping :: "generation_step \<Rightarrow> step_queue \<Rightarrow> step_queue" where
  "put_dropping step q =
     (case put_nowait step q of
        (Inr _, q') \<Rightarrow> q'
      | (Inl _, q') \<Rightarrow> snd (put_nowait step (snd (get_nowait q'))))"

lemma put_dropping_items:
  assumes "0 < sq_maxsize q" "length (sq_items q) \<le> sq_maxsize q"
  shows "sq_items (put_dropping step q) =
    (if length (sq_items q) < sq_maxsize q then sq_items q else tl (sq_items q)) @ [step]"
    "sq_maxsize (put_dropping step q) = sq_maxsize q"
  using assms by (auto simp: put_dropping_def put_nowait_def get_nowait_def split: list.splits)

section \<open>The request in the engine\<close>

datatype request_state = Waiting | Prefilling | Chunked_Prefilling | Decoding | Done

record ('lg, 'c) running_request =
  rq_request :: request
  output_queue :: step_queue
  cancel_event :: bool
  rq_state :: request_state
  batch_idx :: "nat option"
  prompt_token_ids :: "token list"
  tokens_prefilled :: nat
  tokens_generated :: "token list"
  last_logits :: "'lg option"
  last_text :: string
  rq_stream :: "text_stream option"
  pending_decode_tokens :: "token list option"
  rq_spec :: "'c spec_state option"
  rq_spec_summary :: "spec_summary option"
  rq_finish :: "finish_reason option"

definition running_request_init :: "request \<Rightarrow> nat \<Rightarrow> ('lg, 'c) running_request" where
  "running_request_init r maxsize =
     \<lparr>rq_request = r, output_queue = step_queue_init maxsize, cancel_event = False, rq_state = Waiting,
      batch_idx = None, prompt_token_ids = [], tokens_prefilled = 0, tokens_generated = [],
      last_logits = None, last_text = [], rq_stream = None, pending_decode_tokens = None,
      rq_spec = None, rq_spec_summary = None, rq_finish = None\<rparr>"

definition prefilling :: "('lg, 'c) running_request \<Rightarrow> bool" where
  "prefilling r \<longleftrightarrow> rq_state r = Prefilling \<or> rq_state r = Chunked_Prefilling"

section \<open>The handle\<close>

text \<open>\<open>_take\<close>\<close>

definition take_step :: "generation_step \<Rightarrow> generation_step res" where
  "take_step s = (if gs_failed s then Inl RequestFailedError else Inr s)"

definition cancel :: "('lg, 'c) running_request \<Rightarrow> ('lg, 'c) running_request" where
  "cancel r = r\<lparr>cancel_event := True\<rparr>"

definition build_result :: "string \<Rightarrow> finish_reason \<Rightarrow> ('lg, 'c) running_request \<Rightarrow> generation_result" where
  "build_result t reason r =
     \<lparr>gr_text = t, gr_tokens = tokens_generated r, gr_finish = reason,
      gr_prompt_tokens = length (prompt_token_ids r), gr_spec_summary = rq_spec_summary r\<rparr>"

text \<open>
  What happens around one turn of the loop of \<open>_next_step\<close>: the steps the engine puts before the
  blocking read returns, whether the engine is alive when the handle asks, the steps put between the
  two reads, and whether the deadline has passed at the end.
\<close>

record poll =
  put_before :: "generation_step list"
  engine_alive :: "bool option"
  put_between :: "generation_step list"
  past_deadline :: bool

definition engine_puts :: "generation_step list \<Rightarrow> ('lg, 'c) running_request \<Rightarrow> ('lg, 'c) running_request" where
  "engine_puts steps r = r\<lparr>output_queue := foldl (\<lambda>q s. put_dropping s q) (output_queue r) steps\<rparr>"

text \<open>\<open>_after_empty_poll\<close>: None while the engine can still send a step.\<close>

definition after_empty_poll :: "poll \<Rightarrow> (('lg, 'c) running_request, generation_step option) act" where
  "after_empty_poll p = (\<lambda>r.
     if engine_alive p = None \<or> engine_alive p = Some True then (Inr None, r)
     else case get_nowait (output_queue r) of
         (Inr s, q) \<Rightarrow> (map_sum id Some (take_step s), r\<lparr>output_queue := q\<rparr>)
       | (Inl _, q) \<Rightarrow> (Inl EngineNotRunningError, cancel r))"

text \<open>One turn: a step, an exception, or None to go on.\<close>

definition poll_turn :: "poll \<Rightarrow> (('lg, 'c) running_request, generation_step option) act" where
  "poll_turn p = (\<lambda>r.
     let r1 = engine_puts (put_before p) r in
     case get_nowait (output_queue r1) of
       (Inr s, q) \<Rightarrow> (map_sum id Some (take_step s), r1\<lparr>output_queue := q\<rparr>)
     | (Inl _, _) \<Rightarrow>
         (case after_empty_poll p (engine_puts (put_between p) r1) of
            (Inr None, r2) \<Rightarrow> if past_deadline p then (Inl TimeoutError, r2) else (Inr None, r2)
          | out \<Rightarrow> out))"

text \<open>\<open>_next_step\<close> over the polls that the environment gives; None when they end while it still waits.\<close>

fun next_step :: "poll list \<Rightarrow> ('lg, 'c) running_request
    \<Rightarrow> (generation_step res option \<times> poll list) \<times> ('lg, 'c) running_request" where
  "next_step [] r = ((None, []), r)"
| "next_step (p # ps) r =
     (case poll_turn p r of
        (Inr None, r') \<Rightarrow> next_step ps r'
      | (Inr (Some s), r') \<Rightarrow> ((Some (Inr s), ps), r')
      | (Inl e, r') \<Rightarrow> ((Some (Inl e), ps), r'))"

text \<open>\<open>wait\<close>: the texts up to the terminal step, with one poll at least per step.\<close>

function wait_result :: "string \<Rightarrow> poll list \<Rightarrow> ('lg, 'c) running_request
    \<Rightarrow> generation_result res option \<times> ('lg, 'c) running_request" where
  "wait_result parts ps r =
     (case next_step ps r of
        ((None, _), r') \<Rightarrow> (None, r')
      | ((Some (Inl e), _), r') \<Rightarrow> (Some (Inl e), r')
      | ((Some (Inr s), ps'), r') \<Rightarrow>
          (case gs_finish s of
             Some reason \<Rightarrow> (Some (Inr (build_result parts reason r')), r')
           | None \<Rightarrow> if length ps' < length ps then wait_result (parts @ gs_text s) ps' r' else (None, r')))"
  by pat_completeness auto
termination by (relation "measure (\<lambda>(_, ps, _). length ps)") auto

declare wait_result.simps [simp del]

lemma next_step_shorter: "next_step ps r = ((Some out, ps'), r') \<Longrightarrow> length ps' < length ps"
  by (induction ps r arbitrary: out ps' r' rule: next_step.induct)
    (fastforce split: prod.splits sum.splits option.splits)+

text \<open>So the guard of the recursion always holds.\<close>

lemma wait_result_simp:
  "wait_result parts ps r =
     (case next_step ps r of
        ((None, _), r') \<Rightarrow> (None, r')
      | ((Some (Inl e), _), r') \<Rightarrow> (Some (Inl e), r')
      | ((Some (Inr s), ps'), r') \<Rightarrow>
          (case gs_finish s of
             Some reason \<Rightarrow> (Some (Inr (build_result parts reason r')), r')
           | None \<Rightarrow> wait_result (parts @ gs_text s) ps' r'))"
  by (subst wait_result.simps)
    (auto split: prod.splits option.splits sum.splits dest: next_step_shorter)

end
