(* ===== verification/Scheduler.thy ===== *)
theory Scheduler
  imports Request_State Serving_Runs
begin

text \<open>
  \<open>scheduler/continuous_scheduler.py\<close>: the continuous batching scheduler. Requests live in a store
  \<open>reqs\<close> that maps the identity of a \<open>RunningRequest\<close> to its fields, because the waiting queue, the
  running list, the deferred tokens and the API handles share them. The model's forward pass is a
  field of the configuration. The engine thread runs \<open>engine_turn\<close> over and over; API threads call
  \<open>submit\<close> and \<open>cancel_request\<close> and read the output queues between the turns. Log messages are not kept.
\<close>

section \<open>State\<close>

text \<open>\<open>forward_step_packed\<close> of the runner: inputs, boundaries, offsets, tap, last rows only. It returns the
  logits rows and the tapped rows.\<close>

type_synonym ('v, 'lg, 'c) forward =
  "input_ids \<Rightarrow> nat list \<Rightarrow> nat list \<Rightarrow> bool \<Rightarrow> bool \<Rightarrow> ('v kvs, 'lg list \<times> 'c list) act"

record ('v, 'lg, 'c) sched_config =
  forward_packed :: "('v, 'lg, 'c) forward"
  sc_tokenizer :: tokenizer
  sc_sampler :: "'lg sampler"
  sc_digest :: digest
  supports_taps :: bool
  max_concurrent :: int
  decode_headroom :: int
  chunk_size :: nat
  sc_dspark :: "('lg, 'c) dspark_spec option"
  async_sampling :: bool
  last_rows_only :: bool

record deferred_tokens =
  dt_tokens :: "token list"
  dt_requests :: "nat list"

text \<open>\<open>row_of\<close>: the dictionary from a request to its row.\<close>

definition row_of :: "nat \<Rightarrow> deferred_tokens \<Rightarrow> nat option" where
  "row_of r d = map_of (rev (zip (dt_requests d) [0 ..< length (dt_requests d)])) r"

datatype engine_thread = No_Thread | Alive | Exited

record trace_event =
  te_batch :: nat
  te_phase :: string
  te_total_q :: nat
  te_verify :: nat

record ('v, 'lg, 'c) sched =
  reqs :: "nat \<Rightarrow> ('lg, 'c) running_request"
  next_req :: nat
  waiting :: "nat list"
  running :: "nat list"
  sched_cache :: "'v kvcache option"
  sched_pool :: "'v pool"
  deferred :: "deferred_tokens option"
  pre_forward :: "nat list option"
  rng :: nat
  engine_thread :: engine_thread
  stop_event :: bool
  stopping :: bool
  crashed :: bool
  trace :: "trace_event list option"

text \<open>\<open>__init__\<close>: the store holds no request yet.\<close>

definition blank_request :: request where
  "blank_request = \<lparr>prompt_text = [], sampling = \<lparr>temperature = 0, top_k = 0, top_p = 1\<rparr>, max_tokens = 0\<rparr>"

definition sched_init :: "('v, 'lg, 'c) sched_config \<Rightarrow> 'v pool \<Rightarrow> bool \<Rightarrow> nat \<Rightarrow> ('v, 'lg, 'c) sched res" where
  "sched_init K P traced seed =
     (if sc_dspark K \<noteq> None \<and> pool_prefix_cache P \<noteq> None then Inl ValueError
      else if sc_dspark K \<noteq> None \<and> \<not> supports_taps K then Inl ValueError
      else Inr \<lparr>reqs = (\<lambda>_. running_request_init blank_request 0), next_req = 0, waiting = [], running = [], sched_cache = None,
           sched_pool = P, deferred = None, pre_forward = None, rng = seed, engine_thread = No_Thread,
           stop_event = False, stopping = False, crashed = False,
           trace = (if traced then Some [] else None)\<rparr>)"

section \<open>Small steps\<close>

definition gets :: "('s \<Rightarrow> 'a) \<Rightarrow> ('s, 'a) act" where
  "gets f = (\<lambda>s. (Inr (f s), s))"

definition modify :: "('s \<Rightarrow> 's) \<Rightarrow> ('s, unit) act" where
  "modify f = (\<lambda>s. (Inr (), f s))"

definition lift :: "'a res \<Rightarrow> ('s, 'a) act" where
  "lift r = (\<lambda>s. (r, s))"

definition upd :: "nat \<Rightarrow> (('lg, 'c) running_request \<Rightarrow> ('lg, 'c) running_request)
    \<Rightarrow> ('v, 'lg, 'c) sched \<Rightarrow> ('v, 'lg, 'c) sched" where
  "upd r f s = s\<lparr>reqs := (reqs s)(r := f (reqs s r))\<rparr>"

text \<open>\<open>_emit\<close> and \<open>_finish\<close>\<close>

definition emit :: "generation_step \<Rightarrow> ('lg, 'c) running_request \<Rightarrow> ('lg, 'c) running_request" where
  "emit step rq = rq\<lparr>output_queue := put_dropping step (output_queue rq)\<rparr>"

definition finish_request :: "('v, 'lg, 'c) sched_config \<Rightarrow> finish_reason \<Rightarrow> ('lg, 'c) running_request
    \<Rightarrow> ('lg, 'c) running_request res" where
  "finish_request K reason rq =
     (let fin = (\<lambda>rq. emit (terminal_step reason) (rq\<lparr>rq_finish := Some reason, rq_state := Done\<rparr>)) in
      case rq_spec rq of
        None \<Rightarrow> Inr (fin rq)
      | Some sp \<Rightarrow>
          (case sc_dspark K of None \<Rightarrow> Inl AssertionError | Some D \<Rightarrow>
          (case summary (df_block_size (ds_drafter D)) (sp_stats sp) of
             Inl e \<Rightarrow> Inl e
           | Inr sm \<Rightarrow> Inr (fin (rq\<lparr>rq_spec_summary := Some sm\<rparr>)))))"

definition finish :: "('v, 'lg, 'c) sched_config \<Rightarrow> nat \<Rightarrow> finish_reason \<Rightarrow> (('v, 'lg, 'c) sched, unit) act" where
  "finish K r reason = (\<lambda>s.
     case finish_request K reason (reqs s r) of
       Inl e \<Rightarrow> (Inl e, s)
     | Inr rq \<Rightarrow> (Inr (), upd r (\<lambda>_. rq) s))"

text \<open>\<open>_emit_new_text\<close>\<close>

definition emit_new_text :: "tokenizer \<Rightarrow> nat \<Rightarrow> ('lg, 'c) running_request \<Rightarrow> ('lg, 'c) running_request" where
  "emit_new_text T n rq =
     (let st = (case rq_stream rq of None \<Rightarrow> text_stream_init | Some st \<Rightarrow> st);
          ids = (if n = 0 then tokens_generated rq
                 else drop (length (tokens_generated rq) - n) (tokens_generated rq));
          (delta, st') = push T ids st
      in emit (text_step delta n) (rq\<lparr>rq_stream := Some st', last_text := ts_text st'\<rparr>))"

text \<open>\<open>_consume_token\<close>: whether the request keeps decoding.\<close>

definition consume_token :: "('v, 'lg, 'c) sched_config \<Rightarrow> nat \<Rightarrow> token \<Rightarrow> (('v, 'lg, 'c) sched, bool) act" where
  "consume_token K r t = (\<lambda>s.
     if t = eos_token_id (sc_tokenizer K) then seq (finish K r Stop) (\<lambda>_. ret False) s
     else let s1 = upd r (\<lambda>rq. emit_new_text (sc_tokenizer K) 1
                  (rq\<lparr>tokens_generated := tokens_generated rq @ [t]\<rparr>)) s in
       if max_tokens (rq_request (reqs s1 r)) \<le> int (length (tokens_generated (reqs s1 r)))
       then seq (finish K r Length) (\<lambda>_. ret False) s1
       else (Inr True, s1))"

text \<open>\<open>_cancel_pending\<close>\<close>

definition cancel_pending :: "('v, 'lg, 'c) sched_config \<Rightarrow> (('v, 'lg, 'c) sched, unit) act" where
  "cancel_pending K = (\<lambda>s.
     for_each (\<lambda>r s. if cancel_event (reqs s r) \<and> rq_state (reqs s r) \<noteq> Done
                     then finish K r Cancelled s else (Inr (), s)) (running s) s)"

section \<open>Reaping\<close>

definition slot_key :: "('v, 'lg, 'c) sched \<Rightarrow> nat \<Rightarrow> int" where
  "slot_key s r = (case batch_idx (reqs s r) of None \<Rightarrow> -1 | Some b \<Rightarrow> int b)"

definition shift_after :: "nat \<Rightarrow> ('lg, 'c) running_request \<Rightarrow> ('lg, 'c) running_request" where
  "shift_after b rq = (case batch_idx rq of
     Some b' \<Rightarrow> if b < b' then rq\<lparr>batch_idx := Some (b' - 1)\<rparr> else rq
   | None \<Rightarrow> rq)"

definition shift_survivors :: "nat \<Rightarrow> nat \<Rightarrow> ('v, 'lg, 'c) sched \<Rightarrow> ('v, 'lg, 'c) sched" where
  "shift_survivors r b s =
     s\<lparr>reqs := (\<lambda>r'. if r' \<in> set (running s) \<and> r' \<noteq> r then shift_after b (reqs s r') else reqs s r')\<rparr>"

text \<open>A cache operation on the scheduler's cache and the runner's pool.\<close>

definition on_kvs :: "('v kvs, 'a) act \<Rightarrow> (('v, 'lg, 'c) sched, 'a) act" where
  "on_kvs f = (\<lambda>s. case sched_cache s of
       None \<Rightarrow> (Inl AssertionError, s)
     | Some c \<Rightarrow> (case f (c, sched_pool s) of (r, (c', P')) \<Rightarrow> (r, s\<lparr>sched_cache := Some c', sched_pool := P'\<rparr>)))"

definition reap_one :: "nat \<Rightarrow> (('v, 'lg, 'c) sched, unit) act" where
  "reap_one r = (\<lambda>s.
     seq (case batch_idx (reqs s r) of
            Some b \<Rightarrow>
              (if sched_cache s = None then ret ()
               else seq (on_kvs (remove_request b)) (\<lambda>_. modify (shift_survivors r b)))
          | None \<Rightarrow> ret ())
       (\<lambda>_. modify (\<lambda>s. (upd r (\<lambda>rq. rq\<lparr>rq_spec := None\<rparr>) s)\<lparr>running := remove1 r (running s)\<rparr>)) s)"

definition done_order :: "('v, 'lg, 'c) sched \<Rightarrow> nat list" where
  "done_order s = sort_key (\<lambda>r. - slot_key s r) (filter (\<lambda>r. rq_state (reqs s r) = Done) (running s))"

definition drop_empty_cache :: "('v, 'lg, 'c) sched \<Rightarrow> ('v, 'lg, 'c) sched" where
  "drop_empty_cache s =
     (if running s = [] \<and> sched_cache s \<noteq> None then s\<lparr>sched_cache := None, deferred := None\<rparr> else s)"

definition reap_done :: "(('v, 'lg, 'c) sched, unit) act" where
  "reap_done = (\<lambda>s. seq (for_each reap_one (done_order s)) (\<lambda>_. modify drop_empty_cache) s)"

section \<open>Admission\<close>

definition spec_state_for ::
  "('v, 'lg, 'c) sched_config \<Rightarrow> ('lg, 'c) running_request \<Rightarrow> 'c spec_state option" where
  "spec_state_for K rq =
     (case sc_dspark K of None \<Rightarrow> None | Some D \<Rightarrow>
        let p = sampling (rq_request rq) in
        if 0 < top_k p \<or> top_p p < 1 then None
        else if max_spec_prompt_tokens D < int (length (prompt_token_ids rq)) then None
        else Some (spec_state_init D))"

definition plain_blocks :: "('v, 'lg, 'c) sched_config \<Rightarrow> nat \<Rightarrow> nat \<Rightarrow> int" where
  "plain_blocks K bs n = int (blocks_for bs n) + decode_headroom K"

definition spec_blocks :: "('lg, 'c) dspark_spec \<Rightarrow> nat \<Rightarrow> int" where
  "spec_blocks D bs = int (blocks_for bs (df_block_size (ds_drafter D) + 1)) + 1"

text \<open>The blocks to reserve and whether the request speculates.\<close>

definition admission_plan ::
  "('v, 'lg, 'c) sched_config \<Rightarrow> 'v pool \<Rightarrow> ('lg, 'c) running_request \<Rightarrow> int \<times> 'c spec_state option" where
  "admission_plan K P rq =
     (let plain = plain_blocks K (block_size P) (length (prompt_token_ids rq)) in
      case (spec_state_for K rq, sc_dspark K) of
        (Some sp, Some D) \<Rightarrow>
          (let extra = spec_blocks D (block_size P) in
           if int (num_blocks P) < plain + extra then (plain, None) else (plain + extra, Some sp))
      | _ \<Rightarrow> (plain, None))"

definition available_blocks :: "'v pool \<Rightarrow> nat" where
  "available_blocks P =
     num_free_blocks P + (case pool_prefix_cache P of None \<Rightarrow> 0 | Some pc \<Rightarrow> num_evictable pc)"

datatype admission = Ended | Blocked | Seated

definition seat :: "('v, 'lg, 'c) sched_config \<Rightarrow> nat \<Rightarrow> (('v, 'lg, 'c) sched, unit) act" where
  "seat K r = (\<lambda>s.
     let s1 = (if sched_cache s = None then s\<lparr>sched_cache := Some (kvcache_init 0)\<rparr> else s) in
     seq (on_kvs (add_request_slot (sc_digest K) (Some (prompt_token_ids (reqs s r)))))
       (\<lambda>b s. case sched_cache s of None \<Rightarrow> (Inl AssertionError, s) | Some c \<Rightarrow>
          (case nth_res (num_tokens c) b of
             Inl e \<Rightarrow> (Inl e, upd r (\<lambda>rq. rq\<lparr>batch_idx := Some b\<rparr>) s)
           | Inr n \<Rightarrow>
               (Inr (), (upd r (\<lambda>rq. rq\<lparr>batch_idx := Some b, tokens_prefilled := n, rq_state := Prefilling\<rparr>) s)
                  \<lparr>running := running s @ [r]\<rparr>))) s1)"

text \<open>One turn of the loop of \<open>_admit_waiting\<close>, for a request that has left the waiting queue.\<close>

definition end_on_the_spot :: "('v, 'lg, 'c) sched_config \<Rightarrow> nat \<Rightarrow> finish_reason \<Rightarrow> (('v, 'lg, 'c) sched, admission) act" where
  "end_on_the_spot K r reason =
     seq (finish K r reason) (\<lambda>_ s. (Inr Ended, s\<lparr>running := running s @ [r]\<rparr>))"

definition admit_one :: "('v, 'lg, 'c) sched_config \<Rightarrow> nat \<Rightarrow> (('v, 'lg, 'c) sched, admission) act" where
  "admit_one K r = (\<lambda>s.
     if cancel_event (reqs s r) then end_on_the_spot K r Cancelled s
     else let s1 = upd r (\<lambda>rq. rq\<lparr>prompt_token_ids := tok_encode (sc_tokenizer K) (prompt_text (rq_request rq))\<rparr>) s in
       if prompt_token_ids (reqs s1 r) = [] then end_on_the_spot K r Stop s1
       else let (required, sp) = admission_plan K (sched_pool s1) (reqs s1 r);
                s2 = upd r (\<lambda>rq. rq\<lparr>rq_spec := sp\<rparr>) s1
         in if int (num_blocks (sched_pool s2)) < required then end_on_the_spot K r Cancelled s2
            else if int (available_blocks (sched_pool s2)) < required
              then (Inr Blocked, s2\<lparr>waiting := waiting s2 @ [r]\<rparr>)
              else seq (seat K r) (\<lambda>_. ret Seated) s2)"

fun admit_loop :: "('v, 'lg, 'c) sched_config \<Rightarrow> int \<Rightarrow> nat list \<Rightarrow> (('v, 'lg, 'c) sched, unit) act" where
  "admit_loop K seated [] s = (Inr (), s)"
| "admit_loop K seated (r # rs) s =
     (if \<not> seated < max_concurrent K then (Inr (), s)
      else case admit_one K r (s\<lparr>waiting := rs\<rparr>) of
          (Inl e, s') \<Rightarrow> (Inl e, s')
        | (Inr Blocked, s') \<Rightarrow> (Inr (), s')
        | (Inr Ended, s') \<Rightarrow> admit_loop K seated rs s'
        | (Inr Seated, s') \<Rightarrow> admit_loop K (seated + 1) rs s')"

definition admit_waiting :: "('v, 'lg, 'c) sched_config \<Rightarrow> (('v, 'lg, 'c) sched, unit) act" where
  "admit_waiting K = (\<lambda>s.
     admit_loop K (int (length (filter (\<lambda>r. rq_state (reqs s r) \<noteq> Done) (running s)))) (waiting s) s)"

end
