(* ===== verification/Scheduler_Step.thy ===== *)
theory Scheduler_Step
  imports Scheduler
begin

text \<open>
  One iteration of the scheduler (\<open>_step\<close>): sampling and drafting, the packed forward, verification,
  the asynchronous decode step, the recovery from a forward that ran out of blocks, and the loop and
  life cycle of the engine thread.
\<close>

section \<open>Sampling\<close>

definition defer_sampling ::
  "('v, 'lg, 'c) sched_config \<Rightarrow> nat list \<Rightarrow> 'lg list \<Rightarrow> (('v, 'lg, 'c) sched, deferred_tokens) act" where
  "defer_sampling K rs rows = (\<lambda>s.
     case sample_tokens (sc_sampler K) rows (map (\<lambda>r. sampling (rq_request (reqs s r))) rs) (rng s) of
       (Inl e, g) \<Rightarrow> (Inl e, s\<lparr>rng := g\<rparr>)
     | (Inr ts, g) \<Rightarrow> (Inr \<lparr>dt_tokens = ts, dt_requests = rs\<rparr>, s\<lparr>rng := g\<rparr>))"

text \<open>\<open>_consume_deferred\<close>: the \<open>strict\<close> zip raises on a length mismatch.\<close>

definition consume_deferred :: "('v, 'lg, 'c) sched_config \<Rightarrow> deferred_tokens \<Rightarrow> (('v, 'lg, 'c) sched, unit) act" where
  "consume_deferred K d = (\<lambda>s.
     seq (for_each (\<lambda>(r, t) s.
            if rq_state (reqs s r) = Decoding \<and> pending_decode_tokens (reqs s r) = None
            then seq (consume_token K r t) (\<lambda>_. ret ()) s else (Inr (), s))
          (zip (dt_requests d) (dt_tokens d)))
       (\<lambda>_. lift (ensure (length (dt_requests d) = length (dt_tokens d)) ValueError)) s)"

type_synonym sampled = "nat \<Rightarrow> token list option"

text \<open>The tokens that the decoders feed: pending ones again, or the next one.\<close>

fun feed_decoders ::
  "('v, 'lg, 'c) sched_config \<Rightarrow> (nat \<Rightarrow> token option) \<Rightarrow> nat list \<Rightarrow> sampled \<Rightarrow> (('v, 'lg, 'c) sched, sampled) act" where
  "feed_decoders K next [] fed s = (Inr fed, s)"
| "feed_decoders K next (r # rs) fed s =
     (case pending_decode_tokens (reqs s r) of
        Some ts \<Rightarrow> feed_decoders K next rs (fed(r := Some ts)) s
      | None \<Rightarrow>
          (case next r of None \<Rightarrow> (Inl KeyError, s) | Some t \<Rightarrow>
             (case consume_token K r t s of
                (Inl e, s') \<Rightarrow> (Inl e, s')
              | (Inr False, s') \<Rightarrow> feed_decoders K next rs fed s'
              | (Inr True, s') \<Rightarrow>
                  feed_decoders K next rs (fed(r := Some [t]))
                    (upd r (\<lambda>rq. rq\<lparr>pending_decode_tokens := Some [t]\<rparr>) s'))))"

text \<open>The deferred ids of the fresh decoders; a row past the ids would raise.\<close>

definition deferred_ids :: "deferred_tokens option \<Rightarrow> nat list \<Rightarrow> (nat \<Rightarrow> token option) res" where
  "deferred_ids d fresh =
     (case d of None \<Rightarrow> Inr (\<lambda>_. None) | Some d \<Rightarrow>
        if list_ex (\<lambda>r. case row_of r d of None \<Rightarrow> False | Some i \<Rightarrow> \<not> i < length (dt_tokens d)) fresh then Inl IndexError
        else Inr (\<lambda>r. if r \<in> set fresh then map_option (\<lambda>i. dt_tokens d ! i) (row_of r d) else None))"

definition sample_decoders :: "('v, 'lg, 'c) sched_config \<Rightarrow> (('v, 'lg, 'c) sched, sampled) act" where
  "sample_decoders K = (\<lambda>s.
     let d = deferred s;
         s1 = s\<lparr>deferred := None\<rparr>;
         decoders = filter (\<lambda>r. rq_state (reqs s r) = Decoding \<and> rq_spec (reqs s r) = None) (running s);
         fresh = filter (\<lambda>r. pending_decode_tokens (reqs s r) = None) decoders
     in case deferred_ids d fresh of Inl e \<Rightarrow> (Inl e, s1) | Inr known \<Rightarrow>
       (let to_sample = filter (\<lambda>r. known r = None) fresh in
        if to_sample = [] then feed_decoders K known decoders (\<lambda>_. None) s1
        else if list_ex (\<lambda>r. last_logits (reqs s r) = None) to_sample then (Inl AssertionError, s1)
        else case sample_batch (sc_sampler K) (map (\<lambda>r. the (last_logits (reqs s r))) to_sample)
                    (map (\<lambda>r. sampling (rq_request (reqs s r))) to_sample) (rng s1) of
            (Inl e, g) \<Rightarrow> (Inl e, s1\<lparr>rng := g\<rparr>)
          | (Inr ts, g) \<Rightarrow>
              if length ts \<noteq> length to_sample then (Inl ValueError, s1\<lparr>rng := g\<rparr>)
              else feed_decoders K (known ++ map_of (zip to_sample ts)) decoders (\<lambda>_. None) (s1\<lparr>rng := g\<rparr>)))"

section \<open>Drafting\<close>

text \<open>The first draft of a request: join the context, sample and emit the anchor. Whether it goes on.\<close>

definition start_speculation :: "('v, 'lg, 'c) sched_config \<Rightarrow> nat \<Rightarrow> 'c spec_state \<Rightarrow> (('v, 'lg, 'c) sched, bool) act" where
  "start_speculation K r sp = (\<lambda>s.
     if context_parts sp = [] then (Inl AssertionError, s)
     else let sp1 = sp\<lparr>sp_context := Some (concat (context_parts sp)), context_parts := []\<rparr>;
              s1 = upd r (\<lambda>rq. rq\<lparr>rq_spec := Some sp1\<rparr>) s
       in case last_logits (reqs s r) of None \<Rightarrow> (Inl AssertionError, s1) | Some row \<Rightarrow>
         (let (anchor, g) = sample (sc_sampler K) row (sampling (rq_request (reqs s r))) (rng s1) in
          seq (consume_token K r anchor)
            (\<lambda>goes s. if \<not> goes then (Inr False, s)
               else case (sched_cache s, batch_idx (reqs s r)) of
                   (Some c, Some b) \<Rightarrow>
                     (case nth_res (num_tokens c) b of
                        Inl e \<Rightarrow> (Inl e, s)
                      | Inr n \<Rightarrow> (Inr True, upd r (\<lambda>rq. rq\<lparr>rq_spec :=
                          Some (sp1\<lparr>sp_anchor := Some anchor, sp_start := Some n\<rparr>)\<rparr>) s))
                 | _ \<Rightarrow> (Inl AssertionError, s))
            (s1\<lparr>rng := g\<rparr>)))"

text \<open>A new proposal, with the assertion of (INV) before it and the clamp to the room left after it.\<close>

definition draft_round :: "('v, 'lg, 'c) sched_config \<Rightarrow> ('lg, 'c) dspark_spec \<Rightarrow> nat \<Rightarrow> token \<Rightarrow> 'c list \<Rightarrow> nat
    \<Rightarrow> 'c spec_state \<Rightarrow> (('v, 'lg, 'c) sched, unit) act" where
  "draft_round K D r anchor ctx start sp = (\<lambda>s.
     case dc_seq_length (sp_draft_cache sp) of Inl e \<Rightarrow> (Inl e, s) | Inr n \<Rightarrow>
       if start \<noteq> n + length ctx then (Inl AssertionError, s)
       else let rq = reqs s r;
                room = max_tokens (rq_request rq) - int (length (tokens_generated rq)) in
         (case propose (sc_sampler K) D anchor ctx start (temperature (sampling (rq_request rq))) (sp_draft_cache sp, rng s) of
            (Inl e, (d, g)) \<Rightarrow> (Inl e, upd r (\<lambda>rq. rq\<lparr>rq_spec := Some (sp\<lparr>sp_draft_cache := d\<rparr>)\<rparr>) (s\<lparr>rng := g\<rparr>))
          | (Inr (offered, conf, probs), (d, g)) \<Rightarrow>
              (let kept = take (nat (room - 1)) offered in
               (Inr (), upd r (\<lambda>rq. rq\<lparr>rq_spec := Some (sp\<lparr>sp_draft_cache := d, sp_offered := Some kept,
                    sp_room_clamped := (length kept < length offered), sp_confidence := conf,
                    sp_draft_probs := Some probs, drafted_for_start := Some start,
                    sp_stats := (sp_stats sp)\<lparr>n_drafter_forwards := n_drafter_forwards (sp_stats sp) + 1\<rparr>\<rparr>)\<rparr>)
                  (s\<lparr>rng := g\<rparr>)))))"

text \<open>One request of \<open>_draft_speculators\<close>: None when it finished on its anchor.\<close>

definition draft_one :: "('v, 'lg, 'c) sched_config \<Rightarrow> ('lg, 'c) dspark_spec \<Rightarrow> nat
    \<Rightarrow> (('v, 'lg, 'c) sched, token list option) act" where
  "draft_one K D r = (\<lambda>s.
     case (rq_spec (reqs s r), sched_cache s, batch_idx (reqs s r)) of
       (Some sp0, Some c, Some b) \<Rightarrow>
         seq (if sp_anchor sp0 = None then start_speculation K r sp0 else ret True)
           (\<lambda>goes s. if \<not> goes then (Inr None, s)
              else case rq_spec (reqs s r) of None \<Rightarrow> (Inl AssertionError, s) | Some sp \<Rightarrow>
                (case (sp_start sp, sp_context sp, sp_anchor sp) of
                   (Some start, Some ctx, Some anchor) \<Rightarrow>
                     (case nth_res (num_tokens c) b of Inl e \<Rightarrow> (Inl e, s) | Inr n \<Rightarrow>
                        if start \<noteq> n then (Inl AssertionError, s)
                        else seq (if drafted_for_start sp = Some start \<and> sp_offered sp \<noteq> None then ret ()
                                  else draft_round K D r anchor ctx start sp)
                          (\<lambda>_ s. case rq_spec (reqs s r) of None \<Rightarrow> (Inl AssertionError, s) | Some sp \<Rightarrow>
                             (case sp_offered sp of None \<Rightarrow> (Inl AssertionError, s)
                              | Some offered \<Rightarrow> (Inr (Some (anchor # offered)), s))) s)
                 | _ \<Rightarrow> (Inl AssertionError, s))) s
     | _ \<Rightarrow> (Inl AssertionError, s))"

fun draft_loop :: "('v, 'lg, 'c) sched_config \<Rightarrow> ('lg, 'c) dspark_spec \<Rightarrow> nat list \<Rightarrow> sampled
    \<Rightarrow> (('v, 'lg, 'c) sched, sampled) act" where
  "draft_loop K D [] out s = (Inr out, s)"
| "draft_loop K D (r # rs) out s =
     (case draft_one K D r s of
        (Inl e, s') \<Rightarrow> (Inl e, s')
      | (Inr None, s') \<Rightarrow> draft_loop K D rs out s'
      | (Inr (Some ts), s') \<Rightarrow> draft_loop K D rs (out(r := Some ts)) s')"

definition draft_speculators :: "('v, 'lg, 'c) sched_config \<Rightarrow> sampled \<Rightarrow> (('v, 'lg, 'c) sched, sampled) act" where
  "draft_speculators K fed = (\<lambda>s.
     case sc_dspark K of None \<Rightarrow> (Inr fed, s) | Some D \<Rightarrow>
       draft_loop K D (filter (\<lambda>r. rq_state (reqs s r) = Decoding \<and> rq_spec (reqs s r) \<noteq> None) (running s)) fed s)"

section \<open>The packed forward\<close>

text \<open>What request number \<open>index\<close> of the batch feeds, and the position of its first token.\<close>

definition request_input :: "('v, 'lg, 'c) sched_config \<Rightarrow> sampled \<Rightarrow> nat list \<Rightarrow> nat \<Rightarrow> ('lg, 'c) running_request
    \<Rightarrow> nat \<Rightarrow> (token list \<times> nat) res" where
  "request_input K fed lens index rq r =
     (if batch_idx rq \<noteq> Some index then Inl AssertionError
      else case nth_res lens index of Inl e \<Rightarrow> Inl e | Inr n \<Rightarrow>
        if prefilling rq then
          (let chunk_start = tokens_prefilled rq;
               chunk_end = min (chunk_start + chunk_size K) (length (prompt_token_ids rq));
               chunk = drop chunk_start (take chunk_end (prompt_token_ids rq))
           in if chunk_start \<noteq> n then Inl AssertionError
              else if chunk = [] then Inl AssertionError
              else Inr (chunk, chunk_start))
        else (case fed r of None \<Rightarrow> Inl KeyError | Some ts \<Rightarrow>
                if ts = [] then Inl AssertionError else Inr (ts, n)))"

definition batch_inputs :: "('v, 'lg, 'c) sched_config \<Rightarrow> sampled \<Rightarrow> nat list \<Rightarrow> nat list \<Rightarrow> ('v, 'lg, 'c) sched
    \<Rightarrow> (token list \<times> nat) list res" where
  "batch_inputs K fed lens alive s =
     collect (map (\<lambda>(i, r). request_input K fed lens i (reqs s r) r) (zip [0 ..< length alive] alive))"

text \<open>The forward that request number \<open>index\<close> has run: prefill advances, logits are handed out.\<close>

definition take_logits :: "('v, 'lg, 'c) sched_config \<Rightarrow> nat list \<Rightarrow> nat list \<Rightarrow> 'lg list \<Rightarrow> 'c list option
    \<Rightarrow> nat \<times> nat \<Rightarrow> (('v, 'lg, 'c) sched, unit) act" where
  "take_logits K cu logit_rows rows sink = (\<lambda>(index, r) s.
     let rq = reqs s r; last_pos = logit_rows ! (index + 1) - 1 in
     if prefilling rq then
       (let rq1 = rq\<lparr>tokens_prefilled := tokens_prefilled rq + (cu ! (index + 1) - cu ! index)\<rparr> in
        seq (case rq_spec rq of
               None \<Rightarrow> modify (upd r (\<lambda>_. rq1))
             | Some sp \<Rightarrow>
                 (case (sink, sc_dspark K) of
                    (Some rows, Some D) \<Rightarrow>
                      seq (lift (context_window rows (cu ! index) (cu ! (index + 1))))
                        (\<lambda>w. modify (upd r (\<lambda>_. rq1\<lparr>rq_spec := Some (sp\<lparr>context_parts := context_parts sp @ [w]\<rparr>)\<rparr>)))
                  | _ \<Rightarrow> raise AssertionError))
          (\<lambda>_ s. if tokens_prefilled rq1 = length (prompt_token_ids rq1)
             then (case nth_res rows last_pos of
                 Inl e \<Rightarrow> (Inl e, upd r (\<lambda>rq. rq\<lparr>rq_state := Decoding\<rparr>) s)
               | Inr row \<Rightarrow> (Inr (), upd r (\<lambda>rq. rq\<lparr>rq_state := Decoding, last_logits := Some row\<rparr>) s))
             else (Inr (), upd r (\<lambda>rq. rq\<lparr>rq_state := Chunked_Prefilling\<rparr>) s)) s)
     else if rq_spec rq \<noteq> None then (Inr (), upd r (\<lambda>rq. rq\<lparr>last_logits := None\<rparr>) s)
     else (case nth_res rows last_pos of
         Inl e \<Rightarrow> (Inl e, s)
       | Inr row \<Rightarrow> (Inr (), upd r (\<lambda>rq. rq\<lparr>last_logits := Some row, pending_decode_tokens := None\<rparr>) s)))"

definition defer_after_forward :: "('v, 'lg, 'c) sched_config \<Rightarrow> nat list \<Rightarrow> 'lg list \<Rightarrow> nat list
    \<Rightarrow> (('v, 'lg, 'c) sched, deferred_tokens option) act" where
  "defer_after_forward K alive rows logit_rows = (\<lambda>s.
     let decoders = filter (\<lambda>(i, r). rq_state (reqs s r) = Decoding \<and> rq_spec (reqs s r) = None)
           (zip [0 ..< length alive] alive);
         last_rows = map (\<lambda>(i, r). logit_rows ! (i + 1) - 1) decoders
     in if decoders = [] then (Inr None, s)
        else if last_rows = [0 ..< length alive]
        then seq (defer_sampling K (map snd decoders) (take (length alive) rows)) (\<lambda>d. ret (Some d)) s
        else if list_ex (\<lambda>i. \<not> i < length rows) last_rows then (Inl IndexError, s)
        else seq (defer_sampling K (map snd decoders) (map (\<lambda>i. rows ! i) last_rows)) (\<lambda>d. ret (Some d)) s)"

text \<open>The call of the runner: the slot lengths are saved while it runs.\<close>

definition run_forward :: "('v, 'lg, 'c) sched_config \<Rightarrow> nat list \<Rightarrow> input_ids \<Rightarrow> nat list \<Rightarrow> nat list \<Rightarrow> bool \<Rightarrow> bool
    \<Rightarrow> (('v, 'lg, 'c) sched, 'lg list \<times> 'c list) act" where
  "run_forward K lens ids cu offsets tap last_rows = (\<lambda>s.
     seq (on_kvs (forward_packed K ids cu offsets tap last_rows))
       (\<lambda>out s. (Inr out, s\<lparr>pre_forward := None\<rparr>)) (s\<lparr>pre_forward := Some lens\<rparr>))"

definition packed_forward :: "('v, 'lg, 'c) sched_config \<Rightarrow> nat list \<Rightarrow> sampled
    \<Rightarrow> (('v, 'lg, 'c) sched, 'lg list \<times> nat list \<times> 'c list option) act" where
  "packed_forward K alive fed = (\<lambda>s.
     case sched_cache s of None \<Rightarrow> (Inl AssertionError, s) | Some c \<Rightarrow>
     (case batch_inputs K fed (num_tokens c) alive s of Inl e \<Rightarrow> (Inl e, s) | Inr inputs \<Rightarrow>
       (let cu = sums_from 0 (map (length \<circ> fst) inputs);
            tap = (sc_dspark K \<noteq> None \<and> list_ex (\<lambda>r. rq_spec (reqs s r) \<noteq> None) alive);
            lr = (\<not> tap \<and> last_rows_only K)
        in seq (run_forward K (num_tokens c) (Host_Ids (concat (map fst inputs))) cu (map snd inputs) tap lr)
          (\<lambda>(rows, taps).
            (let sink = (if tap then Some taps else None);
                 logit_rows = (if lr then [0 ..< length alive + 1] else cu)
             in seq (for_each (take_logits K cu logit_rows rows sink) (zip [0 ..< length alive] alive))
               (\<lambda>_. seq (if async_sampling K
                          then seq (defer_after_forward K alive rows logit_rows)
                                 (\<lambda>d. modify (\<lambda>s. s\<lparr>deferred := d\<rparr>))
                          else ret ())
                 (\<lambda>_. ret (rows, cu, sink))))) s)))"

end
