(* ===== verification/Scheduler_Engine.thy ===== *)
theory Scheduler_Engine
  imports Scheduler_Step Serving_Runs
begin

text \<open>
  The rest of one iteration of the scheduler and the engine thread around it: verification of the
  proposals, the asynchronous decode step, \<open>_step\<close>, the recovery from \<open>OutOfMemoryError\<close>, and
  \<open>start\<close>, \<open>stop\<close> and \<open>submit\<close>.
\<close>

section \<open>Verification\<close>

text \<open>The committed tokens that go out: up to the room, and up to the first EOS, which does not.\<close>

definition emitted_tokens :: "token \<Rightarrow> int \<Rightarrow> token list \<Rightarrow> token list \<times> bool" where
  "emitted_tokens eos room committed =
     (let planned = take (nat room) committed; out = takeWhile (\<lambda>t. t \<noteq> eos) planned
      in (out, length out < length planned))"

definition round_stats :: "('lg, 'c) drafter \<Rightarrow> 'c spec_state \<Rightarrow> token list \<Rightarrow> nat \<Rightarrow> dspark_stats res" where
  "round_stats D sp offered accepted =
     (let st = sp_stats sp;
          obs = (case sp_confidence sp of
              None \<Rightarrow> Inr []
            | Some conf \<Rightarrow> if length conf < length offered then Inl IndexError
                else Inr (map (\<lambda>i. (sigmoid D (conf ! i), i < accepted)) [0 ..< length offered]))
      in case obs of Inl e \<Rightarrow> Inl e | Inr obs \<Rightarrow>
        Inr (st\<lparr>confidence_observations := confidence_observations st @ obs,
               proposal_lengths := proposal_lengths st @ [length offered],
               accepted_draft_lengths := accepted_draft_lengths st @ [accepted],
               acceptance_lengths := acceptance_lengths st @ [accepted + 1],
               room_clamped_rounds := room_clamped_rounds st + (if sp_room_clamped sp then 1 else 0),
               room_clamped_committed := room_clamped_committed st +
                 (if sp_room_clamped sp then accepted + 1 else 0)\<rparr>))"

definition verify_one :: "('v, 'lg, 'c) sched_config \<Rightarrow> ('lg, 'c) dspark_spec \<Rightarrow> 'lg list \<Rightarrow> nat list \<Rightarrow> 'c list option
    \<Rightarrow> nat \<times> nat \<Rightarrow> (('v, 'lg, 'c) sched, unit) act" where
  "verify_one K D rows cu sink = (\<lambda>(index, r) s.
     case rq_spec (reqs s r) of None \<Rightarrow> (Inr (), s) | Some sp \<Rightarrow>
     (case sp_offered sp of None \<Rightarrow> (Inr (), s) | Some offered \<Rightarrow>
     (case (sp_start sp, sp_draft_probs sp, batch_idx (reqs s r), sched_cache s) of
        (Some start, Some probs, Some b, Some c) \<Rightarrow>
          (let rq = reqs s r; lo = cu ! index; width = 1 + length offered in
           if cu ! (index + 1) - lo \<noteq> width then (Inl AssertionError, s)
           else case verify_block (sc_sampler K) (take width (drop lo rows)) offered probs
                       (temperature (sampling (rq_request rq))) (rng s) of
               (Inl e, g) \<Rightarrow> (Inl e, s\<lparr>rng := g\<rparr>)
             | (Inr (accepted, bonus), g) \<Rightarrow>
                 (case round_stats (ds_drafter D) sp offered accepted of
                    Inl e \<Rightarrow> (Inl e, s\<lparr>rng := g\<rparr>)
                  | Inr st \<Rightarrow>
                      (let committed = take accepted offered @ [bonus];
                           room = max_tokens (rq_request rq) - int (length (tokens_generated rq));
                           (emitted, hit_eos) = emitted_tokens (eos_token_id (sc_tokenizer K)) room committed;
                           rq1 = rq\<lparr>rq_spec := Some (sp\<lparr>sp_stats := st\<rparr>)\<rparr>;
                           rq2 = (if emitted = [] then rq1
                                  else emit_new_text (sc_tokenizer K) (length emitted)
                                         (rq1\<lparr>tokens_generated := tokens_generated rq @ emitted\<rparr>));
                           s1 = upd r (\<lambda>_. rq2) (s\<lparr>rng := g\<rparr>);
                           new_start = start + length emitted
                       in if hit_eos then finish K r Stop s1
                          else if max_tokens (rq_request rq) \<le> int (length (tokens_generated rq2)) then finish K r Length s1
                          else seq (on_kvs (truncate_to b (int new_start)))
                            (\<lambda>_. case sink of None \<Rightarrow> raise AssertionError | Some taps \<Rightarrow>
                               seq (lift (context_window taps lo (lo + accepted + 1)))
                                 (\<lambda>w. modify (upd r (\<lambda>rq. rq\<lparr>rq_spec := Some (sp\<lparr>sp_stats := st,
                                     sp_context := Some w, sp_anchor := Some bonus, sp_start := Some new_start,
                                     sp_offered := None, sp_draft_probs := None, sp_confidence := None,
                                     drafted_for_start := None, sp_room_clamped := False\<rparr>)\<rparr>)))) s1)))
      | _ \<Rightarrow> (Inl AssertionError, s))))"

definition verify_speculators :: "('v, 'lg, 'c) sched_config \<Rightarrow> nat list \<Rightarrow> 'lg list \<Rightarrow> nat list \<Rightarrow> 'c list option
    \<Rightarrow> (('v, 'lg, 'c) sched, unit) act" where
  "verify_speculators K alive rows cu sink =
     (case sc_dspark K of None \<Rightarrow> ret () | Some D \<Rightarrow>
        for_each (verify_one K D rows cu sink) (zip [0 ..< length alive] alive))"

section \<open>One iteration\<close>

definition in_flight :: "('v, 'lg, 'c) sched \<Rightarrow> nat list" where
  "in_flight s = filter (\<lambda>r. rq_state (reqs s r) \<noteq> Done) (running s)"

definition alive_requests :: "('v, 'lg, 'c) sched \<Rightarrow> nat list" where
  "alive_requests s =
     filter (\<lambda>r. prefilling (reqs s r) \<or> rq_state (reqs s r) = Decoding) (running s)"

definition classify_phase :: "('v, 'lg, 'c) sched \<Rightarrow> nat list \<Rightarrow> string" where
  "classify_phase s alive =
     (if list_all (\<lambda>r. prefilling (reqs s r)) alive then ''prefill''
      else if list_all (\<lambda>r. rq_state (reqs s r) = Decoding) alive then ''decode'' else ''mixed'')"

definition record_step :: "string \<Rightarrow> nat \<Rightarrow> nat \<Rightarrow> nat \<Rightarrow> ('v, 'lg, 'c) sched \<Rightarrow> ('v, 'lg, 'c) sched" where
  "record_step phase batch total_q n_verify s =
     s\<lparr>trace := map_option (\<lambda>es. es @ [\<lparr>te_batch = batch, te_phase = phase, te_total_q = total_q, te_verify = n_verify\<rparr>])
         (trace s)\<rparr>"

definition next_step_is_async :: "('v, 'lg, 'c) sched_config \<Rightarrow> (('v, 'lg, 'c) sched, bool) act" where
  "next_step_is_async K = (\<lambda>s.
     case deferred s of None \<Rightarrow> (Inl AssertionError, s) | Some d \<Rightarrow>
       seq reap_done (\<lambda>_ s.
         let alive = in_flight s in
         if alive = [] then (Inr False, s)
         else if list_ex (\<lambda>r. rq_state (reqs s r) \<noteq> Decoding \<or> rq_spec (reqs s r) \<noteq> None
                  \<or> pending_decode_tokens (reqs s r) \<noteq> None \<or> row_of r d = None) alive then (Inr False, s)
         else (Inr (max_concurrent K \<le> int (length alive) \<or> waiting s = []), s)) s)"

definition async_row :: "('v, 'lg, 'c) sched \<Rightarrow> deferred_tokens \<Rightarrow> nat \<times> nat \<Rightarrow> nat res" where
  "async_row s d = (\<lambda>(index, r).
     if batch_idx (reqs s r) \<noteq> Some index then Inl AssertionError
     else case row_of r d of None \<Rightarrow> Inl AssertionError | Some row \<Rightarrow> Inr row)"

definition async_decode_step :: "('v, 'lg, 'c) sched_config \<Rightarrow> (('v, 'lg, 'c) sched, unit) act" where
  "async_decode_step K = (\<lambda>s.
     case (deferred s, sched_cache s) of
       (Some d, Some c) \<Rightarrow>
         (let alive = in_flight s; lens = num_tokens c; cu = [0 ..< length alive + 1] in
          case collect (map (async_row s d) (zip [0 ..< length alive] alive)) of Inl e \<Rightarrow> (Inl e, s) | Inr rows \<Rightarrow>
          (case device_tokens_init (dt_tokens d) rows of Inl e \<Rightarrow> (Inl e, s\<lparr>pre_forward := Some lens\<rparr>) | Inr ids \<Rightarrow>
             seq (run_forward K lens (Device_Ids ids) cu lens False False)
               (\<lambda>(rows, _). seq (for_each (\<lambda>(i, r) s. case nth_res rows i of Inl e \<Rightarrow> (Inl e, s)
                    | Inr row \<Rightarrow> (Inr (), upd r (\<lambda>rq. rq\<lparr>last_logits := Some row\<rparr>) s)) (zip [0 ..< length alive] alive))
                 (\<lambda>_. seq (defer_sampling K alive (take (length alive) rows))
                   (\<lambda>d'. seq (modify (\<lambda>s. s\<lparr>deferred := Some d'\<rparr>))
                     (\<lambda>_. seq (consume_deferred K d)
                       (\<lambda>_. modify (record_step ''decode'' (length alive) (length alive) 0)))))) s))
     | _ \<Rightarrow> (Inl AssertionError, s))"

definition sync_step :: "('v, 'lg, 'c) sched_config \<Rightarrow> (('v, 'lg, 'c) sched, unit) act" where
  "sync_step K =
     seq (sample_decoders K)
       (\<lambda>fed. seq (draft_speculators K fed)
         (\<lambda>fed. seq reap_done
           (\<lambda>_. seq (admit_waiting K)
             (\<lambda>_. seq reap_done
               (\<lambda>_ s. let alive = alive_requests s in
                 if alive = [] then (Inr (), s)
                 else let phase = classify_phase s alive;
                          n_verify = length (filter (\<lambda>r. case rq_spec (reqs s r) of None \<Rightarrow> False
                            | Some sp \<Rightarrow> sp_offered sp \<noteq> None) alive)
                   in seq (packed_forward K alive fed)
                        (\<lambda>(rows, cu, sink). seq (verify_speculators K alive rows cu sink)
                          (\<lambda>_. modify (record_step phase (length alive) (last cu) n_verify))) s)))))"

definition sched_step :: "('v, 'lg, 'c) sched_config \<Rightarrow> (('v, 'lg, 'c) sched, unit) act" where
  "sched_step K =
     seq (cancel_pending K)
       (\<lambda>_ s. if deferred s = None then sync_step K s
          else seq (next_step_is_async K) (\<lambda>async. if async then async_decode_step K else sync_step K) s)"

section \<open>Recovery\<close>

text \<open>\<open>_roll_back_partial_append\<close>; its loop over the slots is \<open>roll_back\<close>.\<close>

definition roll_back_partial_append :: "(('v, 'lg, 'c) sched, unit) act" where
  "roll_back_partial_append = (\<lambda>s.
     let s1 = s\<lparr>pre_forward := None\<rparr> in
     case (pre_forward s, sched_cache s) of
       (Some snapshot, Some c) \<Rightarrow>
         if length snapshot \<noteq> batch_size c then (Inl AssertionError, s1)
         else on_kvs (roll_back snapshot) s1
     | _ \<Rightarrow> (Inr (), s1))"

definition preemption_victim :: "('v, 'lg, 'c) sched \<Rightarrow> nat option" where
  "preemption_victim s =
     (let prefillers = filter (\<lambda>r. prefilling (reqs s r)) (running s);
          candidates = (if prefillers \<noteq> [] then prefillers
                        else filter (\<lambda>r. rq_state (reqs s r) = Decoding) (running s))
      in if candidates = [] then None else Some (last candidates))"

definition preempt_on_oom :: "('v, 'lg, 'c) sched_config \<Rightarrow> (('v, 'lg, 'c) sched, unit) act" where
  "preempt_on_oom K =
     seq roll_back_partial_append
       (\<lambda>_ s. case preemption_victim s of None \<Rightarrow> (Inr (), s)
          | Some r \<Rightarrow> seq (finish K r Cancelled) (\<lambda>_. reap_done) s)"

section \<open>The engine thread\<close>

text \<open>One turn of \<open>_engine_loop\<close>: an exception other than \<open>OutOfMemoryError\<close>, or one of the recovery,
  ends the thread and marks the crash.\<close>

definition crash :: "('v, 'lg, 'c) sched \<Rightarrow> ('v, 'lg, 'c) sched" where
  "crash s = s\<lparr>crashed := True, engine_thread := Exited\<rparr>"

definition engine_turn :: "('v, 'lg, 'c) sched_config \<Rightarrow> ('v, 'lg, 'c) sched \<Rightarrow> ('v, 'lg, 'c) sched" where
  "engine_turn K s =
     (if stop_event s then s\<lparr>engine_thread := Exited\<rparr>
      else case sched_step K s of
          (Inr _, s') \<Rightarrow> s'
        | (Inl e, s') \<Rightarrow>
            if e = OutOfMemoryError
            then (case preempt_on_oom K s' of (Inr _, s'') \<Rightarrow> s'' | (Inl _, s'') \<Rightarrow> crash s'')
            else crash s')"

definition end_in_flight :: "('v, 'lg, 'c) sched_config \<Rightarrow> bool \<Rightarrow> (('v, 'lg, 'c) sched, unit) act" where
  "end_in_flight K after_crash = (\<lambda>s.
     let leftover = in_flight s @ waiting s; s1 = s\<lparr>deferred := None, waiting := []\<rparr> in
     seq (for_each (\<lambda>r. if after_crash then modify (upd r (\<lambda>rq. rq\<lparr>rq_state := Done\<rparr>)) else finish K r Cancelled) leftover)
       (\<lambda>_ s. case reap_done s of
          (Inr _, s') \<Rightarrow> (Inr (), s')
        | (Inl e, s') \<Rightarrow> if after_crash then (Inr (), s'\<lparr>running := [], sched_cache := None\<rparr>) else (Inl e, s')) s1)"

definition start_engine :: "('v, 'lg, 'c) sched_config \<Rightarrow> (('v, 'lg, 'c) sched, unit) act" where
  "start_engine K = (\<lambda>s.
     if engine_thread s = Alive then (Inr (), s)
     else seq (if crashed s then end_in_flight K True else ret ())
       (\<lambda>_ s. (Inr (), s\<lparr>stop_event := False, crashed := False, engine_thread := Alive\<rparr>)) s)"

text \<open>\<open>stop\<close>: \<open>joined\<close> is whether the thread ended within the timeout. The trace file is not modelled.\<close>

definition stop_engine :: "('v, 'lg, 'c) sched_config \<Rightarrow> bool \<Rightarrow> (('v, 'lg, 'c) sched, unit) act" where
  "stop_engine K joined = (\<lambda>s.
     let s1 = s\<lparr>stop_event := True, stopping := True\<rparr> in
     if engine_thread s1 = No_Thread then (Inr (), s1\<lparr>stopping := False\<rparr>)
     else (case (if joined then end_in_flight K (crashed s1) (s1\<lparr>engine_thread := No_Thread\<rparr>)
                 else (Inr (), s1\<lparr>engine_thread := No_Thread\<rparr>)) of
             (r, s') \<Rightarrow> (r, s'\<lparr>stopping := False\<rparr>)))"

definition default_output_queue_size :: nat where
  "default_output_queue_size = 256"

definition submit :: "request \<Rightarrow> (('v, 'lg, 'c) sched, nat) act" where
  "submit q = (\<lambda>s.
     if engine_thread s \<noteq> Alive then (Inl EngineNotRunningError, s)
     else let r = next_req s in
       (Inr r, s\<lparr>reqs := (reqs s)(r := running_request_init q default_output_queue_size),
                 next_req := r + 1, waiting := waiting s @ [r]\<rparr>))"

definition cancel_request :: "nat \<Rightarrow> ('v, 'lg, 'c) sched \<Rightarrow> ('v, 'lg, 'c) sched" where
  "cancel_request r = upd r cancel"

text \<open>A read of the output queue by the handle.\<close>

definition read_step :: "nat \<Rightarrow> (('v, 'lg, 'c) sched, generation_step) act" where
  "read_step r = (\<lambda>s. case get_nowait (output_queue (reqs s r)) of
     (x, q) \<Rightarrow> (x, upd r (\<lambda>rq. rq\<lparr>output_queue := q\<rparr>) s))"

end
