(* ===== verification/Transformer.thy ===== *)
theory Transformer
  imports Serving_Runs
begin

text \<open>
  The decoder of the Qwen2 and Qwen3 models (\<open>models/qwen/qwen2.py\<close>, \<open>qwen3.py\<close>, \<open>models/blocks/gqa.py\<close>,
  \<open>transformer_block.py\<close>) over a paged cache, with the torch attention of \<open>cache/packed_attention.py\<close>.
  The functions of one row (projections with norm and rotation at a position, the softmax sum over the
  keys a query may see, norms, feed-forward, head) are tensor code and are fields of the record
  \<open>lm\<close>. What is modelled is everything that moves rows between requests, layers and the cache.
\<close>

section \<open>The model\<close>

record ('v, 'lg, 'c) lm =
  lm_layers :: nat
  q_heads :: nat
  kv_heads :: nat
  embed_row :: "token \<Rightarrow> 'c"
  input_norm :: "nat \<Rightarrow> 'c \<Rightarrow> 'c"
  q_row :: "nat \<Rightarrow> nat \<Rightarrow> 'c \<Rightarrow> 'c"
  k_row :: "nat \<Rightarrow> nat \<Rightarrow> 'c \<Rightarrow> 'v"
  v_row :: "nat \<Rightarrow> 'c \<Rightarrow> 'v"
  attend :: "nat \<Rightarrow> 'c \<Rightarrow> ('v \<times> 'v) list \<Rightarrow> 'c"
  o_row :: "nat \<Rightarrow> 'c \<Rightarrow> 'c"
  post_norm :: "nat \<Rightarrow> 'c \<Rightarrow> 'c"
  mlp_row :: "nat \<Rightarrow> 'c \<Rightarrow> 'c"
  add_rows :: "'c \<Rightarrow> 'c \<Rightarrow> 'c"
  final_norm :: "'c \<Rightarrow> 'c"
  head_row :: "'c \<Rightarrow> 'lg"

section \<open>Attention\<close>

text \<open>The window of a layer; \<open>None\<close> is full causal attention.\<close>

definition window_of :: "attn_spec \<Rightarrow> int option" where
  "window_of a = (case a of Sliding w \<Rightarrow> Some w | _ \<Rightarrow> None)"

text \<open>Whether the query at position \<open>q\<close> may see the key at position \<open>j\<close>.\<close>

definition visible :: "int option \<Rightarrow> nat \<Rightarrow> nat \<Rightarrow> bool" where
  "visible window q j \<longleftrightarrow> j \<le> q \<and> (case window of None \<Rightarrow> True | Some w \<Rightarrow> int q - w + 1 \<le> int j)"

text \<open>The keys and values that \<open>masked_fill\<close> leaves to a query.\<close>

definition kept_rows :: "int option \<Rightarrow> nat \<Rightarrow> 'v list \<Rightarrow> 'v list \<Rightarrow> ('v \<times> 'v) list" where
  "kept_rows window q ks vs = map (\<lambda>j. (ks ! j, vs ! j)) (filter (visible window q) [0 ..< length ks])"

definition attend_request :: "('v, 'lg, 'c) lm \<Rightarrow> nat \<Rightarrow> int option \<Rightarrow> 'c list \<Rightarrow> 'v list \<Rightarrow> 'v list \<Rightarrow> 'c list res" where
  "attend_request M l window qs ks vs =
     (if length ks < length qs then Inl ValueError
      else Inr (map (\<lambda>i. attend M l (qs ! i) (kept_rows window (length ks - length qs + i) ks vs)) [0 ..< length qs]))"

definition slice :: "nat \<Rightarrow> nat \<Rightarrow> 'a list \<Rightarrow> 'a list" where
  "slice a b xs = take (b - a) (drop a xs)"

text \<open>\<open>packed_attention_torch\<close> without a block mask. The request slices tile the output.\<close>

definition packed_attention_torch ::
  "('v, 'lg, 'c) lm \<Rightarrow> nat \<Rightarrow> int option \<Rightarrow> 'c list \<Rightarrow> 'v list \<Rightarrow> 'v list \<Rightarrow> nat list \<Rightarrow> nat list \<Rightarrow> 'c list res" where
  "packed_attention_torch M l window qs ks vs cu_q cu_k =
     (if q_heads M mod kv_heads M \<noteq> 0 then Inl ValueError
      else if length cu_k \<noteq> length cu_q then Inl ValueError
      else map_sum id concat (collect (map (\<lambda>b.
             attend_request M l window (slice (cu_q ! b) (cu_q ! (b + 1)) qs)
               (slice (cu_k ! b) (cu_k ! (b + 1)) ks) (slice (cu_k ! b) (cu_k ! (b + 1)) vs))
             [0 ..< length cu_q - 1])))"

text \<open>What the cache operations take besides the rows: the compressed paths, the digest, the device.\<close>

record 'v kv_env =
  env_qwrite :: "'v qwriter"
  env_qread :: "nat \<Rightarrow> ('v kvs, 'v packed_kv) act"
  env_digest :: digest
  env_device :: nat

text \<open>\<open>packed_attention_forward\<close> on the torch backend.\<close>

definition packed_attention_forward ::
  "('v, 'lg, 'c) lm \<Rightarrow> 'v kv_env \<Rightarrow> nat \<Rightarrow> cu_tensor \<Rightarrow> 'c list \<Rightarrow> ('v kvs, 'c list) act" where
  "packed_attention_forward M E l t qs = (\<lambda>(c, P).
     case nth_res (layer_attention P) l of Inl e \<Rightarrow> (Inl e, (c, P)) | Inr spec \<Rightarrow>
       seq (materialize_packed_kv (env_qread E) (env_device E) l)
         (\<lambda>(ks, vs, _, _). seq (on_cache (\<lambda>c. case cu_seqlens_q_list t c of (cu, c') \<Rightarrow> (Inr (cu, cu_seqlens_k_list c'), c')))
           (\<lambda>(cu_q, cu_k) s. (packed_attention_torch M l (window_of spec) qs ks vs cu_q cu_k, s))) (c, P))"

section \<open>The decoder\<close>

text \<open>\<open>GroupedQueryAttention.forward\<close> on the PyTorch path.\<close>

definition gqa_forward ::
  "('v, 'lg, 'c) lm \<Rightarrow> 'v kv_env \<Rightarrow> nat \<Rightarrow> cu_tensor \<Rightarrow> nat list \<Rightarrow> 'c list \<Rightarrow> ('v kvs, 'c list) act" where
  "gqa_forward M E l t pos xs =
     seq (append_kv_packed (env_qwrite E) (env_digest E) (env_device E) (map2 (k_row M l) pos xs) (map (v_row M l) xs) t l)
       (\<lambda>_. seq (packed_attention_forward M E l t (map2 (q_row M l) pos xs))
         (\<lambda>out. ret (map (o_row M l) out)))"

text \<open>\<open>RMSNorm.forward\<close> with a residual: the norm of the sum, and the sum.\<close>

definition add_norm :: "('v, 'lg, 'c) lm \<Rightarrow> ('c \<Rightarrow> 'c) \<Rightarrow> 'c list \<Rightarrow> 'c list option \<Rightarrow> 'c list \<times> 'c list" where
  "add_norm M norm xs residual =
     (case residual of
        None \<Rightarrow> (map norm xs, xs)
      | Some r \<Rightarrow> (let summed = map2 (add_rows M) r xs in (map norm summed, summed)))"

text \<open>\<open>TransformerBlock.forward\<close> with \<open>defer_add\<close>.\<close>

definition block_forward ::
  "('v, 'lg, 'c) lm \<Rightarrow> 'v kv_env \<Rightarrow> nat \<Rightarrow> cu_tensor \<Rightarrow> nat list \<Rightarrow> 'c list \<Rightarrow> 'c list option
    \<Rightarrow> ('v kvs, 'c list \<times> 'c list) act" where
  "block_forward M E l t pos xs residual =
     (let (ys, res1) = add_norm M (input_norm M l) xs residual in
      seq (gqa_forward M E l t pos ys)
        (\<lambda>attn. let (zs, res2) = add_norm M (post_norm M l) attn (Some res1)
                in ret (map (mlp_row M l) zs, res2)))"

text \<open>The loop of \<open>run_decoder_layers\<close>; \<open>sink\<close> collects the outputs of the tapped layers.\<close>

fun layer_loop ::
  "('v, 'lg, 'c) lm \<Rightarrow> 'v kv_env \<Rightarrow> cu_tensor \<Rightarrow> nat list \<Rightarrow> nat set \<Rightarrow> nat list \<Rightarrow> 'c list \<Rightarrow> 'c list option
    \<Rightarrow> (nat \<rightharpoonup> 'c list) \<Rightarrow> ('v kvs, 'c list \<times> 'c list option \<times> (nat \<rightharpoonup> 'c list)) act" where
  "layer_loop M E t pos taps [] xs residual sink s = (Inr (xs, residual, sink), s)"
| "layer_loop M E t pos taps (l # ls) xs residual sink s =
     (case block_forward M E l t pos xs residual s of
        (Inl e, s') \<Rightarrow> (Inl e, s')
      | (Inr (ys, res), s') \<Rightarrow>
          layer_loop M E t pos taps ls ys (Some res)
            (if l \<in> taps then sink(l := Some (map2 (add_rows M) res ys)) else sink) s')"

definition run_decoder_layers ::
  "('v, 'lg, 'c) lm \<Rightarrow> 'v kv_env \<Rightarrow> cu_tensor \<Rightarrow> nat list \<Rightarrow> nat set \<Rightarrow> 'c list
    \<Rightarrow> ('v kvs, 'c list \<times> (nat \<rightharpoonup> 'c list)) act" where
  "run_decoder_layers M E t pos taps xs =
     seq (layer_loop M E t pos taps [0 ..< lm_layers M] xs None Map.empty)
       (\<lambda>(ys, residual, sink). ret (fst (add_norm M (final_norm M) ys residual), sink))"

text \<open>\<open>forward\<close> of the causal LM; \<open>rows\<close> selects packed rows for the head. torch refuses position rows
  that do not match the tokens (a single row, which it would broadcast, included).\<close>

definition lm_forward ::
  "('v, 'lg, 'c) lm \<Rightarrow> 'v kv_env \<Rightarrow> token list \<Rightarrow> nat list \<Rightarrow> cu_tensor \<Rightarrow> nat set \<Rightarrow> int list option
    \<Rightarrow> ('v kvs, 'lg list \<times> (nat \<rightharpoonup> 'c list)) act" where
  "lm_forward M E ids pos t taps rows =
     (if length pos \<noteq> length ids then raise RuntimeError
      else seq (run_decoder_layers M E t pos taps (map (embed_row M) ids))
        (\<lambda>(xs, sink). case rows of
             None \<Rightarrow> ret (map (head_row M) xs, sink)
           | Some is \<Rightarrow> if list_ex (\<lambda>i. \<not> (0 \<le> i \<and> i < int (length xs))) is then raise IndexError
                        else ret (map (\<lambda>i. head_row M (xs ! nat i)) is, sink)))"

section \<open>One request alone, without a cache\<close>

text \<open>
  The reference: the rows of a token list after \<open>l\<close> layers, each layer \<open>x + attention(norm x)\<close> and then
  \<open>x + mlp(norm x)\<close> over all positions at once. \<open>cast\<close> is the conversion of keys and values to the
  storage type of the pool.
\<close>

definition layer_keys :: "('v, 'lg, 'c) lm \<Rightarrow> ('v \<Rightarrow> 'v) \<Rightarrow> nat \<Rightarrow> 'c list \<Rightarrow> 'v list" where
  "layer_keys M cast l xs = map (\<lambda>i. cast (k_row M l i (input_norm M l (xs ! i)))) [0 ..< length xs]"

definition layer_values :: "('v, 'lg, 'c) lm \<Rightarrow> ('v \<Rightarrow> 'v) \<Rightarrow> nat \<Rightarrow> 'c list \<Rightarrow> 'v list" where
  "layer_values M cast l xs = map (\<lambda>x. cast (v_row M l (input_norm M l x))) xs"

definition layer_row :: "('v, 'lg, 'c) lm \<Rightarrow> int option \<Rightarrow> nat \<Rightarrow> 'v list \<Rightarrow> 'v list \<Rightarrow> nat \<Rightarrow> 'c \<Rightarrow> 'c" where
  "layer_row M w l ks vs i x =
     (let r = add_rows M x (o_row M l (attend M l (q_row M l i (input_norm M l x)) (kept_rows w i ks vs)))
      in add_rows M r (mlp_row M l (post_norm M l r)))"

fun dense :: "('v, 'lg, 'c) lm \<Rightarrow> ('v \<Rightarrow> 'v) \<Rightarrow> (nat \<Rightarrow> int option) \<Rightarrow> nat \<Rightarrow> token list \<Rightarrow> 'c list" where
  "dense M cast win 0 ts = map (embed_row M) ts"
| "dense M cast win (Suc l) ts =
     (let xs = dense M cast win l ts in
      map (\<lambda>i. layer_row M (win l) l (layer_keys M cast l xs) (layer_values M cast l xs) i (xs ! i)) [0 ..< length xs])"

definition dense_logits :: "('v, 'lg, 'c) lm \<Rightarrow> ('v \<Rightarrow> 'v) \<Rightarrow> (nat \<Rightarrow> int option) \<Rightarrow> token list \<Rightarrow> 'lg list" where
  "dense_logits M cast win ts = map (\<lambda>x. head_row M (final_norm M x)) (dense M cast win (lm_layers M) ts)"

lemma length_dense [simp]: "length (dense M cast win l ts) = length ts"
  by (induction l) (simp_all add: Let_def)

text \<open>Causality: the rows of a prefix are the first rows of the whole.\<close>

lemma kept_rows_take:
  assumes "q < n" "n \<le> length ks" "length vs = length ks"
  shows "kept_rows w q (take n ks) (take n vs) = kept_rows w q ks vs"
proof -
  have "filter (visible w q) [0 ..< length ks] = filter (visible w q) ([0 ..< n] @ [n ..< length ks])"
    using assms(2) by (metis le_add_diff_inverse plus_nat.add_0 upt_add_eq_append zero_le)
  moreover have "filter (visible w q) [n ..< length ks] = []"
    using assms(1) by (auto simp: filter_empty_conv visible_def)
  ultimately have f: "filter (visible w q) [0 ..< length ks] = filter (visible w q) [0 ..< n]" by simp
  show ?thesis unfolding kept_rows_def f using assms(1,2,3) by (auto simp: visible_def)
qed

lemma dense_take: "n \<le> length ts \<Longrightarrow> dense M cast win l (take n ts) = take n (dense M cast win l ts)"
proof (induction l)
  case 0
  then show ?case by (simp add: take_map)
next
  case (Suc l)
  let ?xs = "dense M cast win l ts"
  have ks: "layer_keys M cast l (take n ?xs) = take n (layer_keys M cast l ?xs)"
    using Suc.prems by (intro nth_equalityI) (auto simp: layer_keys_def)
  have vs: "layer_values M cast l (take n ?xs) = take n (layer_values M cast l ?xs)"
    by (simp add: layer_values_def take_map)
  have row: "layer_row M w l (take n (layer_keys M cast l ?xs)) (take n (layer_values M cast l ?xs)) i x =
      layer_row M w l (layer_keys M cast l ?xs) (layer_values M cast l ?xs) i x" if "i < n" for w i x
    unfolding layer_row_def
    by (subst kept_rows_take [OF that]) (use Suc.prems in \<open>simp_all add: layer_keys_def layer_values_def\<close>)
  show ?case
    using Suc by (intro nth_equalityI) (simp_all add: Let_def ks vs row)
qed

lemma dense_nth: "i < n \<Longrightarrow> n \<le> length ts \<Longrightarrow> dense M cast win l (take n ts) ! i = dense M cast win l ts ! i"
  by (simp add: dense_take)

end
