(* ===== verification/Packed_Transformer.thy ===== *)
theory Packed_Transformer
  imports Transformer
begin

text \<open>
  The packed forward over the paged cache computes, for every request in the batch, the rows of that
  request alone: batching, chunking, paging and prefix sharing do not change a logit.
\<close>

section \<open>Packed lists\<close>

text \<open>The pairs of a slot and a position that a step adds, in packed order.\<close>

definition packed_parts :: "token list list \<Rightarrow> token list list \<Rightarrow> (nat \<Rightarrow> nat \<Rightarrow> 'a) \<Rightarrow> 'a list list" where
  "packed_parts hist new f =
     map (\<lambda>b. map (f b) [length (hist ! b) ..< length (hist ! b) + length (new ! b)]) [0 ..< length new]"

definition packed :: "token list list \<Rightarrow> token list list \<Rightarrow> (nat \<Rightarrow> nat \<Rightarrow> 'a) \<Rightarrow> 'a list" where
  "packed hist new f = concat (packed_parts hist new f)"

lemma packed_pairs: "packed hist new f = map (\<lambda>(b, i). f b i) (packed hist new Pair)"
  by (simp add: packed_def packed_parts_def map_concat comp_def)

lemma packed_map: "map g (packed hist new f) = packed hist new (\<lambda>b i. g (f b i))"
  by (simp add: packed_def packed_parts_def map_concat comp_def)

lemma packed_map2: "map2 g (packed hist new f) (packed hist new h) = packed hist new (\<lambda>b i. g (f b i) (h b i))"
proof -
  have "map2 g (map u xs) (map v xs) = map (\<lambda>x. g (u x) (v x)) xs" for u v and xs :: "(nat \<times> nat) list"
    by (induction xs) auto
  then show ?thesis
    unfolding packed_pairs [of hist new f] packed_pairs [of hist new h] packed_pairs [of hist new "\<lambda>b i. g (f b i) (h b i)"]
    by (simp add: case_prod_unfold)
qed

lemma packed_parts_cong:
  assumes "\<And>b i. b < length new \<Longrightarrow> length (hist ! b) \<le> i \<Longrightarrow> i < length (hist ! b) + length (new ! b) \<Longrightarrow> f b i = g b i"
  shows "packed_parts hist new f = packed_parts hist new g"
  using assms by (auto simp: packed_parts_def)

lemmas packed_cong = packed_parts_cong [THEN arg_cong [where f = concat], folded packed_def]

lemma packed_parts_lengths [simp]:
  "length (packed_parts hist new f) = length new" "map length (packed_parts hist new f) = map length new"
  "b < length new \<Longrightarrow> packed_parts hist new f ! b = map (f b) [length (hist ! b) ..< length (hist ! b) + length (new ! b)]"
  by (auto simp: packed_parts_def intro: nth_equalityI)

lemma length_packed: "length (packed hist new f) = sum_list (map length new)"
  by (simp add: packed_def length_concat)

lemma packed_tokens:
  "length hist = length new \<Longrightarrow> packed hist new (\<lambda>b i. (map2 (@) hist new ! b) ! i) = concat new"
proof -
  assume l: "length hist = length new"
  have "packed_parts hist new (\<lambda>b i. (map2 (@) hist new ! b) ! i) = new"
    using l by (intro nth_equalityI) (auto intro!: nth_equalityI simp: packed_parts_def nth_append)
  then show ?thesis by (simp add: packed_def)
qed

lemma slice_concat:
  assumes "b < length xss"
  shows "slice (sums_from 0 (map length xss) ! b) (sums_from 0 (map length xss) ! Suc b) (concat xss) = xss ! b"
proof -
  let ?a = "sum_list (map length (take b xss))"
  have "concat xss = concat (take b xss) @ xss ! b @ concat (drop (Suc b) xss)"
    using assms by (metis append_Cons append_Nil concat.simps(2) concat_append id_take_nth_drop)
  moreover have "length (concat (take b xss)) = ?a" by (simp add: length_concat)
  moreover have "sums_from 0 (map length xss) ! b = ?a" "sums_from 0 (map length xss) ! Suc b = ?a + length (xss ! b)"
    using assms by (simp_all add: nth_sums_from take_map take_Suc_conv_app_nth)
  ultimately show ?thesis by (simp add: slice_def)
qed

lemma slice_concat_map:
  assumes "b < length xss" "\<And>xs. length (f xs) = length xs"
  shows "slice (sums_from 0 (map length xss) ! b) (sums_from 0 (map length xss) ! Suc b) (concat (map f xss)) = f (xss ! b)"
proof -
  have "map length (map f xss) = map length xss" using assms(2) by simp
  with slice_concat [of b "map f xss"] assms(1) show ?thesis by (simp del: map_map)
qed

lemma collect_Inr: "(\<And>x. x \<in> set xs \<Longrightarrow> f x = Inr (g x)) \<Longrightarrow> collect (map f xs) = Inr (map g xs)"
  by (induction xs) auto

section \<open>The rows of the model\<close>

text \<open>The row that layer \<open>l\<close> stores for the last token of a prefix.\<close>

definition lm_kv :: "('v, 'lg, 'c) lm \<Rightarrow> ('v \<Rightarrow> 'v) \<Rightarrow> (nat \<Rightarrow> int option) \<Rightarrow> 'v rows" where
  "lm_kv M cast win l nm p =
     (let i = length p - 1; y = input_norm M l (dense M cast win l p ! i)
      in if nm = ''k'' then cast (k_row M l i y) else cast (v_row M l y))"

lemma lm_kv_prefix:
  assumes "i < length ts"
  shows "lm_kv M cast win l ''k'' (take (Suc i) ts) = cast (k_row M l i (input_norm M l (dense M cast win l ts ! i)))"
    "lm_kv M cast win l ''v'' (take (Suc i) ts) = cast (v_row M l (input_norm M l (dense M cast win l ts ! i)))"
  using assms dense_nth [of i "Suc i" ts M cast win l] by (simp_all add: lm_kv_def Let_def)

lemma rows_of_lm:
  "rows_of (lm_kv M cast win) l ''k'' ts = layer_keys M cast l (dense M cast win l ts)"
  "rows_of (lm_kv M cast win) l ''v'' ts = layer_values M cast l (dense M cast win l ts)"
  by (auto simp: rows_of_def layer_keys_def layer_values_def lm_kv_prefix intro: nth_equalityI)

text \<open>A model and a pool that fit: plain K/V storage, one layer spec and shape per layer.\<close>

definition lm_window :: "'v pool \<Rightarrow> nat \<Rightarrow> int option" where
  "lm_window P l = window_of (layer_attention P ! l)"

definition lm_fits :: "('v, 'lg, 'c) lm \<Rightarrow> 'v pool \<Rightarrow> bool" where
  "lm_fits M P \<longleftrightarrow> lm_layers M = num_layers P \<and> 0 < num_layers P \<and> kv_quant P = None \<and>
     is_legacy_kv_layout P \<and> length (layer_kv_shape P) = num_layers P \<and>
     length (layer_attention P) = num_layers P \<and> q_heads M mod kv_heads M = 0"

lemma lm_fitsD:
  assumes "lm_fits M P"
  shows "kv_quant P = None" "is_legacy_kv_layout P" "0 < num_layers P" "lm_layers M = num_layers P"
    "length (layer_kv_shape P) = num_layers P" "length (layer_attention P) = num_layers P"
    "q_heads M mod kv_heads M = 0"
  using assms by (simp_all add: lm_fits_def)

abbreviation lm_dense :: "('v, 'lg, 'c) lm \<Rightarrow> 'v pool \<Rightarrow> nat \<Rightarrow> token list \<Rightarrow> 'c list" where
  "lm_dense M P \<equiv> dense M (to_dtype P) (lm_window P)"

abbreviation lm_rows :: "('v, 'lg, 'c) lm \<Rightarrow> 'v pool \<Rightarrow> 'v rows" where
  "lm_rows M P \<equiv> lm_kv M (to_dtype P) (lm_window P)"

text \<open>The rows of a step at layer \<open>l\<close>, for the slots with the histories \<open>hist\<close> and the new tokens.\<close>

definition step_rows :: "('v, 'lg, 'c) lm \<Rightarrow> 'v pool \<Rightarrow> token list list \<Rightarrow> token list list \<Rightarrow> nat \<Rightarrow> nat \<Rightarrow> nat \<Rightarrow> 'c" where
  "step_rows M P hist new l b i = lm_dense M P l (map2 (@) hist new ! b) ! i"

lemma new_rows_lm:
  assumes "length hist = length new"
  shows "new_rows_right (lm_rows M P) (to_dtype P) (map2 (@) hist new) (map length new) l
    (packed_parts hist new (\<lambda>b i. k_row M l i (input_norm M l (step_rows M P hist new l b i))))
    (packed_parts hist new (\<lambda>b i. v_row M l (input_norm M l (step_rows M P hist new l b i))))"
proof -
  let ?T = "\<lambda>b. hist ! b @ new ! b"
  have "lm_rows M P l ''k'' (hist ! b @ take (Suc i) (new ! b)) =
      to_dtype P (k_row M l (length (hist ! b) + i) (input_norm M l (lm_dense M P l (?T b) ! (length (hist ! b) + i))))"
    "lm_rows M P l ''v'' (hist ! b @ take (Suc i) (new ! b)) =
      to_dtype P (v_row M l (input_norm M l (lm_dense M P l (?T b) ! (length (hist ! b) + i))))"
    if "i < length (new ! b)" for b i
    using lm_kv_prefix [of "length (hist ! b) + i" "?T b"] that by simp_all
  then show ?thesis unfolding new_rows_right_def using assms by (auto simp: step_rows_def)
qed

section \<open>One layer\<close>

lemma attention_rows:
  assumes m: "layer_state (lm_rows M P0) digest U R t (map length new) (map2 (@) hist new) P0 n s"
    and l: "l < n" "n \<le> num_layers P0" and fits: "lm_fits M P0" and lens: "length hist = length new"
    and t: "tensor_values t = sums_from 0 (map length new)"
  shows "\<exists>s'. packed_attention_forward M E l t (packed hist new q) s =
      (Inr (packed hist new (\<lambda>b i. attend M l (q b i) (kept_rows (lm_window P0 l) i
         (layer_keys M (to_dtype P0) l (lm_dense M P0 l (map2 (@) hist new ! b)))
         (layer_values M (to_dtype P0) l (lm_dense M P0 l (map2 (@) hist new ! b)))))), s') \<and>
    layer_state (lm_rows M P0) digest U R t (map length new) (map2 (@) hist new) P0 n s'"
proof -
  let ?hist = "map2 (@) hist new" and ?kv = "lm_rows M P0"
  let ?K = "\<lambda>b. layer_keys M (to_dtype P0) l (lm_dense M P0 l (?hist ! b))"
  let ?V = "\<lambda>b. layer_values M (to_dtype P0) l (lm_dense M P0 l (?hist ! b))"
  let ?A = "\<lambda>b i. attend M l (q b i) (kept_rows (lm_window P0 l) i (?K b) (?V b))"
  have q: "kv_quant P0 = None" "is_legacy_kv_layout P0" "l < length (layer_kv_shape P0)"
    using fits l by (simp_all add: lm_fits_def)
  obtain c P where s: "s = (c, P)" by (cases s)
  have cfg: "pool_cfg P = pool_cfg P0"
    using m by (auto simp: layer_state_def s after_step_def mid_step_def split: if_splits)
  have win: "nth_res (layer_attention P) l = Inr (layer_attention P0 ! l)"
    using pool_cfgD(8) [OF cfg] fits l by (simp add: lm_fits_def nth_res_def)
  obtain mx s1 where r: "materialize_packed_kv (env_qread E) (env_device E) l s =
      (Inr (concat (map (rows_of ?kv l ''k'') ?hist), concat (map (rows_of ?kv l ''v'') ?hist),
            sums_from 0 (map length ?hist), mx), s1)" "layer_state ?kv digest U R t (map length new) ?hist P0 n s1"
    using read_layer [OF m q(1,2) l q(3)] by blast
  obtain c1 P1 where s1: "s1 = (c1, P1)" by (cases s1)
  have st: "static_step c1 = None" "cu_read t c1" "num_tokens c1 = map length ?hist" "index_ok (block_size P0) c1"
    using r(2) by (auto simp: layer_state_def s1 after_step_def mid_step_def split: if_splits)
  obtain c2 where c2: "cu_seqlens_q_list t c1 = (tensor_values t, c2)" "cu_read t c2"
      "c2 = c1\<lparr>step_cu_tensor := step_cu_tensor c2, step_cu_list := step_cu_list c2\<rparr>"
    using cu_seqlens_q_list_ok [OF st(1,2)] by blast
  have sel: "same_content c1 c2" "same_layout c1 c2" "write_index c2 = write_index c1"
      "gather_index c2 = gather_index c1" "page_index_cache c2 = page_index_cache c1"
    by (subst c2(3), simp add: same_content_def same_layout_def)+
  have ix: "index_ok (block_size P0) c2" by (rule index_ok_cong [OF st(4) sel(2-5)])
  have keep: "layer_state ?kv digest U R t (map length new) ?hist P0 n (c2, P1)"
    by (rule content_kept(3) [OF sel(1) ix c2(2) r(2) [unfolded s1]])
  have cu: "cu_seqlens_k_list c2 = sums_from 0 (map length ?hist)"
    using sel(2) st(3) by (simp add: same_layout_def cu_seqlens_k_list_def)
  have len: "length ?hist = length new" using lens by simp
  have slot: "attend_request M l (lm_window P0 l) (packed_parts hist new q ! b) (?K b) (?V b) =
      Inr (packed_parts hist new ?A ! b)" if b: "b < length new" for b
    using b lens by (auto simp: attend_request_def layer_keys_def intro!: nth_equalityI)
  have "packed_attention_torch M l (lm_window P0 l) (packed hist new q) (concat (map (rows_of ?kv l ''k'') ?hist))
      (concat (map (rows_of ?kv l ''v'') ?hist)) (tensor_values t) (sums_from 0 (map length ?hist)) =
      Inr (packed hist new ?A)"
  proof -
    have k: "slice (sums_from 0 (map length ?hist) ! b) (sums_from 0 (map length ?hist) ! Suc b)
        (concat (map (rows_of ?kv l nm) ?hist)) = rows_of ?kv l nm (?hist ! b)" if "b < length new" for b nm
      by (rule slice_concat_map) (use that len in \<open>simp_all add: rows_of_def\<close>)
    have qs: "slice (sums_from 0 (map length new) ! b) (sums_from 0 (map length new) ! Suc b) (packed hist new q) =
        packed_parts hist new q ! b" if "b < length new" for b
      using slice_concat [of b "packed_parts hist new q"] that by (simp add: packed_def)
    have "collect (map (\<lambda>b. attend_request M l (lm_window P0 l)
          (slice (tensor_values t ! b) (tensor_values t ! (b + 1)) (packed hist new q))
          (slice (sums_from 0 (map length ?hist) ! b) (sums_from 0 (map length ?hist) ! (b + 1)) (concat (map (rows_of ?kv l ''k'') ?hist)))
          (slice (sums_from 0 (map length ?hist) ! b) (sums_from 0 (map length ?hist) ! (b + 1)) (concat (map (rows_of ?kv l ''v'') ?hist))))
          [0 ..< length new]) = Inr (map (\<lambda>b. packed_parts hist new ?A ! b) [0 ..< length new])"
      by (rule collect_Inr) (use k qs slot t in \<open>simp add: rows_of_lm\<close>)
    also have "map (\<lambda>b. packed_parts hist new ?A ! b) [0 ..< length new] = packed_parts hist new ?A"
      by (intro nth_equalityI) simp_all
    finally show ?thesis using fits t len by (simp add: packed_attention_torch_def lm_fits_def packed_def)
  qed
  then have "packed_attention_forward M E l t (packed hist new q) s = (Inr (packed hist new ?A), (c2, P1))"
    using win r(1) c2(1) cu by (simp add: packed_attention_forward_def s s1 seq_def on_cache_def lm_window_def nth_res_def)
  with keep show ?thesis by blast
qed

text \<open>A block over the packed rows. The residual is kept apart until the norm that adds it.\<close>

definition residual_sum :: "('v, 'lg, 'c) lm \<Rightarrow> 'c list \<Rightarrow> 'c list option \<Rightarrow> 'c list" where
  "residual_sum M xs residual = (case residual of None \<Rightarrow> xs | Some r \<Rightarrow> map2 (add_rows M) r xs)"

lemma add_norm_sum: "add_norm M norm xs residual = (map norm (residual_sum M xs residual), residual_sum M xs residual)"
  by (simp add: add_norm_def residual_sum_def split: option.splits)

lemma step_rows_Suc:
  assumes "b < length new" "i < length (map2 (@) hist new ! b)"
  shows "step_rows M P hist new (Suc l) b i = layer_row M (lm_window P l) l
    (layer_keys M (to_dtype P) l (lm_dense M P l (map2 (@) hist new ! b)))
    (layer_values M (to_dtype P) l (lm_dense M P l (map2 (@) hist new ! b))) i (step_rows M P hist new l b i)"
  using assms by (simp add: step_rows_def Let_def)

lemma block_rows:
  assumes app: "append_kv_packed (env_qwrite E) (env_digest E) (env_device E)
      (packed hist new (\<lambda>b i. k_row M l i (input_norm M l (step_rows M P0 hist new l b i))))
      (packed hist new (\<lambda>b i. v_row M l (input_norm M l (step_rows M P0 hist new l b i)))) t l s = (Inr (), s1)"
    and m: "layer_state (lm_rows M P0) digest U R t (map length new) (map2 (@) hist new) P0 (Suc l) s1"
    and l: "l < num_layers P0" and fits: "lm_fits M P0" and lens: "length hist = length new"
    and t: "tensor_values t = sums_from 0 (map length new)"
    and xs: "residual_sum M xs residual = packed hist new (step_rows M P0 hist new l)"
  shows "\<exists>ys res s'. block_forward M E l t (packed hist new (\<lambda>b i. i)) xs residual s = (Inr (ys, res), s') \<and>
    map2 (add_rows M) res ys = packed hist new (step_rows M P0 hist new (Suc l)) \<and>
    layer_state (lm_rows M P0) digest U R t (map length new) (map2 (@) hist new) P0 (Suc l) s'"
proof -
  let ?X = "step_rows M P0 hist new l" and ?H = "map2 (@) hist new"
  let ?K = "\<lambda>b. layer_keys M (to_dtype P0) l (lm_dense M P0 l (?H ! b))"
  let ?V = "\<lambda>b. layer_values M (to_dtype P0) l (lm_dense M P0 l (?H ! b))"
  let ?A = "\<lambda>b i. attend M l (q_row M l i (input_norm M l (?X b i))) (kept_rows (lm_window P0 l) i (?K b) (?V b))"
  let ?R = "\<lambda>b i. add_rows M (?X b i) (o_row M l (?A b i))"
  obtain s2 where a: "packed_attention_forward M E l t
        (packed hist new (\<lambda>b i. q_row M l i (input_norm M l (?X b i)))) s1 = (Inr (packed hist new ?A), s2)"
      "layer_state (lm_rows M P0) digest U R t (map length new) ?H P0 (Suc l) s2"
    using attention_rows [OF m lessI _ fits lens t, of E "\<lambda>b i. q_row M l i (input_norm M l (?X b i))"] l by auto
  have "gqa_forward M E l t (packed hist new (\<lambda>b i. i)) (packed hist new (\<lambda>b i. input_norm M l (?X b i))) s =
      (Inr (packed hist new (\<lambda>b i. o_row M l (?A b i))), s2)"
    using app a(1) by (simp add: gqa_forward_def seq_def ret_def packed_map packed_map2)
  then have "block_forward M E l t (packed hist new (\<lambda>b i. i)) xs residual s =
      (Inr (packed hist new (\<lambda>b i. mlp_row M l (post_norm M l (?R b i))), packed hist new ?R), s2)"
    unfolding block_forward_def add_norm_sum xs packed_map
    by (simp add: seq_def ret_def residual_sum_def packed_map2 packed_map del: map_map)
  moreover have "map2 (add_rows M) (packed hist new ?R) (packed hist new (\<lambda>b i. mlp_row M l (post_norm M l (?R b i)))) =
      packed hist new (step_rows M P0 hist new (Suc l))"
    unfolding packed_map2
    by (rule packed_cong) (use lens in \<open>simp add: step_rows_Suc layer_row_def Let_def\<close>)
  ultimately show ?thesis using a(2) by blast
qed

section \<open>The whole forward\<close>

text \<open>The rows that the tapped layers leave in the sink.\<close>

definition sink_rows :: "('v, 'lg, 'c) lm \<Rightarrow> 'v pool \<Rightarrow> token list list \<Rightarrow> token list list \<Rightarrow> nat set \<Rightarrow> nat \<Rightarrow> nat \<rightharpoonup> 'c list" where
  "sink_rows M P hist new taps n l = (if l < n \<and> l \<in> taps then Some (packed hist new (step_rows M P hist new (Suc l))) else None)"

lemma sink_rows_Suc:
  "sink_rows M P hist new taps (Suc n) =
     (if n \<in> taps then (sink_rows M P hist new taps n)(n := Some (packed hist new (step_rows M P hist new (Suc n))))
      else sink_rows M P hist new taps n)"
  by (auto simp: sink_rows_def fun_eq_iff less_Suc_eq)

lemma layers_rows:
  assumes m: "layer_state (lm_rows M P0) digest U R t (map length new) (map2 (@) hist new) P0 l s"
    and l: "0 < l" "l + k = num_layers P0" and fits: "lm_fits M P0" and lens: "length hist = length new"
    and t: "tensor_values t = sums_from 0 (map length new)" and E: "env_digest E = digest"
    and xs: "residual_sum M xs residual = packed hist new (step_rows M P0 hist new l)"
  shows "\<exists>ys res s'. layer_loop M E t (packed hist new (\<lambda>b i. i)) taps [l ..< l + k] xs residual
        (sink_rows M P0 hist new taps l) s = (Inr (ys, res, sink_rows M P0 hist new taps (num_layers P0)), s') \<and>
    residual_sum M ys res = packed hist new (step_rows M P0 hist new (num_layers P0)) \<and>
    layer_state (lm_rows M P0) digest U R t (map length new) (map2 (@) hist new) P0 (num_layers P0) s'"
  using m l xs
proof (induction k arbitrary: l xs residual s)
  case 0
  then show ?case by auto
next
  case (Suc k)
  have l: "l < num_layers P0" using Suc.prems by simp
  note q = lm_fitsD [OF fits]
  obtain s1 where s1: "append_kv_packed (env_qwrite E) (env_digest E) (env_device E)
      (packed hist new (\<lambda>b i. k_row M l i (input_norm M l (step_rows M P0 hist new l b i))))
      (packed hist new (\<lambda>b i. v_row M l (input_norm M l (step_rows M P0 hist new l b i)))) t l s = (Inr (), s1)"
      "layer_state (lm_rows M P0) digest U R t (map length new) (map2 (@) hist new) P0 (Suc l) s1"
    unfolding E packed_def
    using append_next_layer [OF Suc.prems(1,2) l q(1,2) t new_rows_lm [OF lens], of "env_qwrite E" "env_device E"]
    by blast
  obtain ys res s2 where b: "block_forward M E l t (packed hist new (\<lambda>b i. i)) xs residual s = (Inr (ys, res), s2)"
      "map2 (add_rows M) res ys = packed hist new (step_rows M P0 hist new (Suc l))"
      "layer_state (lm_rows M P0) digest U R t (map length new) (map2 (@) hist new) P0 (Suc l) s2"
    using block_rows [OF s1 l fits lens t Suc.prems(4)] by blast
  have rs: "residual_sum M ys (Some res) = packed hist new (step_rows M P0 hist new (Suc l))"
    using b(2) by (simp add: residual_sum_def)
  have upt: "[l ..< l + Suc k] = l # [Suc l ..< Suc l + k]" by (simp add: upt_conv_Cons del: upt_Suc)
  have sink: "(if l \<in> taps then (sink_rows M P0 hist new taps l)(l := Some (map2 (add_rows M) res ys))
      else sink_rows M P0 hist new taps l) = sink_rows M P0 hist new taps (Suc l)"
    by (simp add: sink_rows_Suc b(2))
  show ?case
    unfolding upt layer_loop.simps b(1) sum.case prod.case sink
    by (rule Suc.IH [OF b(3) _ _ rs]) (use Suc.prems(3) in simp_all)
qed

text \<open>A forward whose blocks the pool can give: the logits of each request alone.\<close>

lemma decoder_rows:
  assumes a: "after_step (lm_rows M P0) digest U R hist P0 (c, P)" and fits: "lm_fits M P0"
    and tok: "step_tokens_ok hist new c" and t: "tensor_values t = sums_from 0 (map length new)"
    and av: "total_need (block_size P) (tensor_values t) c 0 \<le> available P" and E: "env_digest E = digest"
  shows "\<exists>s'. run_decoder_layers M E t (packed hist new (\<lambda>b i. i)) taps (map (embed_row M) (concat new)) (c, P) =
      (Inr (packed hist new (\<lambda>b i. final_norm M (step_rows M P0 hist new (num_layers P0) b i)),
            sink_rows M P0 hist new taps (num_layers P0)), s') \<and>
    after_step (lm_rows M P0) digest U R (map2 (@) hist new) P0 s'"
proof -
  have cfg: "pool_cfg P = pool_cfg P0" using a by (simp add: after_step_def)
  note cf = pool_cfgD [OF cfg] and q = lm_fitsD [OF fits]
  have eqs: "lm_window P = lm_window P0" "to_dtype P = to_dtype P0" using cf by (simp_all add: lm_window_def fun_eq_iff)
  have lens: "length hist = length new"
    using a tok by (simp add: after_step_def content_def hist_ok_def step_tokens_ok_def)
  have change: "layer_state kv digest U R t ks h P n s \<longleftrightarrow> layer_state kv digest U R t ks h P0 n s" for kv ks h n s
    using cf cfg by (simp add: layer_state_def after_step_def mid_step_def)
  have xs: "residual_sum M (map (embed_row M) (concat new)) None = packed hist new (step_rows M P0 hist new 0)"
  proof -
    have "map (embed_row M) (concat new) = packed hist new (\<lambda>b i. embed_row M (map2 (@) hist new ! b ! i))"
      using packed_tokens [OF lens] packed_map by metis
    also have "\<dots> = packed hist new (step_rows M P0 hist new 0)"
      by (rule packed_cong) (use lens in \<open>simp add: step_rows_def nth_append\<close>)
    finally show ?thesis by (simp add: residual_sum_def)
  qed
  obtain s1 where s1: "append_kv_packed (env_qwrite E) (env_digest E) (env_device E)
      (packed hist new (\<lambda>b i. k_row M 0 i (input_norm M 0 (step_rows M P0 hist new 0 b i))))
      (packed hist new (\<lambda>b i. v_row M 0 (input_norm M 0 (step_rows M P0 hist new 0 b i)))) t 0 (c, P) = (Inr (), s1)"
      "layer_state (lm_rows M P0) digest U R t (map length new) (map2 (@) hist new) P0 (Suc 0) s1"
  proof -
    have pre: "kv_inv digest (c, P) R" "static_step c = None" "content (lm_rows M P0) digest U hist (c, P)"
      "kv_quant P = None" "is_legacy_kv_layout P" "0 < num_layers P" using a q cf by (simp_all add: after_step_def)
    note new_rows_lm [OF lens, of M P0 0]
    then have "new_rows_right (lm_rows M P0) (to_dtype P) (map2 (@) hist new) (map length new) 0
        (packed_parts hist new (\<lambda>b i. k_row M 0 i (input_norm M 0 (step_rows M P0 hist new 0 b i))))
        (packed_parts hist new (\<lambda>b i. v_row M 0 (input_norm M 0 (step_rows M P0 hist new 0 b i))))"
      unfolding eqs(2) .
    from append_first_layer [OF pre tok t av this, of "env_qwrite E" "env_device E"] show ?thesis
      using that unfolding E packed_def change by blast
  qed
  obtain ys res s2 where b: "block_forward M E 0 t (packed hist new (\<lambda>b i. i)) (map (embed_row M) (concat new)) None (c, P) =
        (Inr (ys, res), s2)" "map2 (add_rows M) res ys = packed hist new (step_rows M P0 hist new (Suc 0))"
      "layer_state (lm_rows M P0) digest U R t (map length new) (map2 (@) hist new) P0 (Suc 0) s2"
    using block_rows [OF s1 _ fits lens t xs] q by blast
  have rs: "residual_sum M ys (Some res) = packed hist new (step_rows M P0 hist new (Suc 0))"
    using b(2) by (simp add: residual_sum_def)
  obtain zs res' s3 where z: "layer_loop M E t (packed hist new (\<lambda>b i. i)) taps [Suc 0 ..< Suc 0 + (num_layers P0 - 1)] ys (Some res)
        (sink_rows M P0 hist new taps (Suc 0)) s2 = (Inr (zs, res', sink_rows M P0 hist new taps (num_layers P0)), s3)"
      "residual_sum M zs res' = packed hist new (step_rows M P0 hist new (num_layers P0))"
      "layer_state (lm_rows M P0) digest U R t (map length new) (map2 (@) hist new) P0 (num_layers P0) s3"
    using layers_rows [OF b(3) _ _ fits lens t E rs, of "num_layers P0 - 1" taps] q by auto
  have upt: "[0 ..< lm_layers M] = 0 # [Suc 0 ..< Suc 0 + (num_layers P0 - 1)]"
    using q by (simp add: upt_conv_Cons)
  have sink: "(if 0 \<in> taps then [0 \<mapsto> map2 (add_rows M) res ys] else Map.empty) = sink_rows M P0 hist new taps (Suc 0)"
    by (simp add: sink_rows_Suc b(2)) (simp add: sink_rows_def fun_eq_iff)
  have "layer_loop M E t (packed hist new (\<lambda>b i. i)) taps [0 ..< lm_layers M] (map (embed_row M) (concat new)) None Map.empty (c, P) =
      (Inr (zs, res', sink_rows M P0 hist new taps (num_layers P0)), s3)"
    unfolding upt using b(1) z(1) sink by simp
  then show ?thesis
    using z(2,3) by (simp add: run_decoder_layers_def seq_def ret_def add_norm_sum packed_map layer_state_def)
qed

end
