(* ===== verification/Model_Runner.thy ===== *)
theory Model_Runner
  imports Packed_Transformer Token_Sampler
begin

text \<open>
  \<open>ModelRunner\<close> of \<open>engine/model_runner.py\<close>: the packed forward that the scheduler calls, its convenience
  wrappers, and what it returns over a paged cache. The captured CUDA graphs are arguments. The
  theorems are about a runner without graphs.
\<close>

section \<open>The runner\<close>

record ('v, 'lg, 'c) runner =
  rn_model :: "('v, 'lg, 'c) lm"
  rn_env :: "'v kv_env"
  rn_selects_rows :: bool
  rn_tensor_id :: nat
  rn_decode_graph :: "((nat list \<Rightarrow> bool) \<times> (input_ids \<Rightarrow> nat list \<Rightarrow> ('v kvs, 'lg list) act)) option"
  rn_prefill_graph :: "((nat list \<Rightarrow> bool) \<times> (token list \<Rightarrow> nat list \<Rightarrow> nat list \<Rightarrow> ('v kvs, 'lg list) act)) option"

definition input_tokens :: "input_ids \<Rightarrow> token list" where
  "input_tokens ids = (case ids of Host_Ids ts \<Rightarrow> ts | Device_Ids d \<Rightarrow> device_gather d)"

definition device_count_ok :: "input_ids \<Rightarrow> nat \<Rightarrow> bool" where
  "device_count_ok ids n = (case ids of Host_Ids _ \<Rightarrow> True | Device_Ids d \<Rightarrow> length (dt_rows d) = n)"

text \<open>The position ids: they start again for each request.\<close>

definition position_ids :: "nat list \<Rightarrow> nat list \<Rightarrow> nat \<Rightarrow> nat list" where
  "position_ids cu offsets n =
     concat (map (\<lambda>b. [offsets ! b ..< offsets ! b + (cu ! (b + 1) - cu ! b)]) [0 ..< n])"

definition last_row_ids :: "nat list \<Rightarrow> nat \<Rightarrow> int list" where
  "last_row_ids cu n = map (\<lambda>b. int (cu ! (b + 1)) - 1) [0 ..< n]"

text \<open>The part of \<open>forward_step_packed\<close> that runs the model itself.\<close>

definition eager_forward ::
  "('v, 'lg, 'c) runner \<Rightarrow> token list \<Rightarrow> nat list \<Rightarrow> nat list \<Rightarrow> nat set option \<Rightarrow> bool
    \<Rightarrow> ('v kvs, 'lg list \<times> (nat \<rightharpoonup> 'c list)) act" where
  "eager_forward N ids cu offsets taps last_rows = (\<lambda>(c, P).
     let pos = position_ids cu offsets (batch_size c);
         t = \<lparr>tensor_id = rn_tensor_id N, tensor_values = cu\<rparr>;
         tap_set = (case taps of None \<Rightarrow> {} | Some ls \<Rightarrow> ls);
         last_ids = last_row_ids cu (batch_size c)
     in if \<not> last_rows then lm_forward (rn_model N) (rn_env N) ids pos t tap_set None (c, P)
        else if rn_selects_rows N then lm_forward (rn_model N) (rn_env N) ids pos t tap_set (Some last_ids) (c, P)
        else seq (lm_forward (rn_model N) (rn_env N) ids pos t tap_set None)
          (\<lambda>(rows, sink). if list_ex (\<lambda>i. \<not> (0 \<le> i \<and> i < int (length rows))) last_ids then raise IndexError
             else ret (map (\<lambda>i. rows ! nat i) last_ids, sink)) (c, P))"

definition prefill_or_eager ::
  "('v, 'lg, 'c) runner \<Rightarrow> input_ids \<Rightarrow> nat list \<Rightarrow> nat list \<Rightarrow> nat set option \<Rightarrow> bool
    \<Rightarrow> ('v kvs, 'lg list \<times> (nat \<rightharpoonup> 'c list)) act" where
  "prefill_or_eager N ids cu offsets taps last_rows =
     (case (rn_prefill_graph N, ids) of
        (Some (accepts, replay), Host_Ids ts) \<Rightarrow>
          if last_rows \<and> taps = None \<and> accepts cu then seq (replay ts cu offsets) (\<lambda>rows. ret (rows, Map.empty))
          else eager_forward N ts cu offsets taps last_rows
      | _ \<Rightarrow> eager_forward N (input_tokens ids) cu offsets taps last_rows)"

definition forward_step_packed ::
  "('v, 'lg, 'c) runner \<Rightarrow> input_ids \<Rightarrow> nat list \<Rightarrow> nat list \<Rightarrow> nat set option \<Rightarrow> bool
    \<Rightarrow> ('v kvs, 'lg list \<times> (nat \<rightharpoonup> 'c list)) act" where
  "forward_step_packed N ids cu offsets taps last_rows = (\<lambda>(c, P).
     if length offsets \<noteq> batch_size c then (Inl ValueError, (c, P))
     else if length cu \<noteq> batch_size c + 1 then (Inl ValueError, (c, P))
     else if \<not> device_count_ok ids (batch_size c) then (Inl ValueError, (c, P))
     else case rn_decode_graph N of
         Some (accepts, replay) \<Rightarrow>
           if taps = None \<and> accepts cu then seq (replay ids offsets) (\<lambda>rows. ret (rows, Map.empty)) (c, P)
           else prefill_or_eager N ids cu offsets taps last_rows (c, P)
       | None \<Rightarrow> prefill_or_eager N ids cu offsets taps last_rows (c, P))"

section \<open>The wrappers\<close>

definition forward_step ::
  "('v, 'lg, 'c) runner \<Rightarrow> token list \<Rightarrow> nat list \<Rightarrow> nat list \<Rightarrow> ('v kvs, 'lg list) act" where
  "forward_step N ids cu offsets =
     seq (forward_step_packed N (Host_Ids ids) cu offsets None True)
       (\<lambda>(rows, _) (c, P). (collect (map (nth_res rows) [0 ..< batch_size c]), (c, P)))"

definition prefill_chunk :: "('v, 'lg, 'c) runner \<Rightarrow> token list \<Rightarrow> nat \<Rightarrow> ('v kvs, 'lg) act" where
  "prefill_chunk N chunk offset = (\<lambda>(c, P).
     if batch_size c \<noteq> 1 then (Inl ValueError, (c, P))
     else seq (forward_step N chunk [0, length chunk] [offset]) (\<lambda>rows s. (nth_res rows 0, s)) (c, P))"

text \<open>\<open>prefill\<close> makes its own cache on the runner's pool.\<close>

definition prefill :: "('v, 'lg, 'c) runner \<Rightarrow> token list \<Rightarrow> 'v pool \<Rightarrow> 'lg res \<times> 'v kvs" where
  "prefill N prompt P =
     seq (add_request_slot (env_digest (rn_env N)) None) (\<lambda>_. prefill_chunk N prompt 0) (kvcache_init 0, P)"

definition decode_batch :: "('v, 'lg, 'c) runner \<Rightarrow> token list \<Rightarrow> ('v kvs, 'lg list) act" where
  "decode_batch N last_tokens = (\<lambda>(c, P).
     if length last_tokens \<noteq> batch_size c then (Inl ValueError, (c, P))
     else forward_step N last_tokens [0 ..< batch_size c + 1] (num_tokens c) (c, P))"

definition decode :: "('v, 'lg, 'c) runner \<Rightarrow> token \<Rightarrow> ('v kvs, 'lg) act" where
  "decode N last_token = seq (decode_batch N [last_token]) (\<lambda>rows s. (nth_res rows 0, s))"

section \<open>What a forward returns\<close>

lemma position_ids_packed:
  "length hist = length new \<Longrightarrow>
     position_ids (sums_from 0 (map length new)) (map length hist) (length new) = packed hist new (\<lambda>b i. i)"
  by (auto simp: position_ids_def packed_def packed_parts_def nth_sums_from take_Suc_conv_app_nth intro!: arg_cong [where f = concat])

text \<open>The last packed row of a request.\<close>

lemma packed_last:
  assumes "b < length new" "new ! b \<noteq> []"
  shows "packed hist new f ! (sums_from 0 (map length new) ! Suc b - 1) = f b (length (hist ! b) + length (new ! b) - 1)"
    "0 < sums_from 0 (map length new) ! Suc b" "sums_from 0 (map length new) ! Suc b \<le> length (packed hist new f)"
proof -
  let ?a = "sums_from 0 (map length new) ! b" and ?b = "sums_from 0 (map length new) ! Suc b" and ?k = "length (new ! b)"
  have ab: "?b = ?a + ?k" using assms(1) by (simp add: nth_sums_from take_Suc_conv_app_nth)
  have k: "0 < ?k" using assms(2) by simp
  have part: "slice ?a ?b (packed hist new f) = packed_parts hist new f ! b"
    using slice_concat [of b "packed_parts hist new f"] assms(1) by (simp add: packed_def)
  then have s: "take ?k (drop ?a (packed hist new f)) = packed_parts hist new f ! b" by (simp add: slice_def ab)
  from arg_cong [OF this, of length] have "min (length (packed hist new f) - ?a) ?k = ?k" using assms(1) by simp
  then have "?k \<le> length (packed hist new f) - ?a" by (metis min.cobounded1)
  then have "?a + ?k \<le> length (packed hist new f)" using k by linarith
  moreover have "packed hist new f ! (?a + (?k - 1)) = take ?k (drop ?a (packed hist new f)) ! (?k - 1)"
    using k calculation by simp
  ultimately show "packed hist new f ! (?b - 1) = f b (length (hist ! b) + ?k - 1)" "0 < ?b" "?b \<le> length (packed hist new f)"
    using s k assms(1) by (simp_all add: ab)
qed

definition lm_logits :: "('v, 'lg, 'c) lm \<Rightarrow> 'v pool \<Rightarrow> token list \<Rightarrow> 'lg list" where
  "lm_logits M P ts = dense_logits M (to_dtype P) (lm_window P) ts"

definition next_logits :: "('v, 'lg, 'c) lm \<Rightarrow> 'v pool \<Rightarrow> token list \<Rightarrow> 'lg" where
  "next_logits M P ts = last (lm_logits M P ts)"

lemma length_lm_logits [simp]: "length (lm_logits M P ts) = length ts"
  by (simp add: lm_logits_def dense_logits_def)

lemma lm_logits_nth:
  assumes "i < length ts"
  shows "next_logits M P (take (Suc i) ts) = lm_logits M P ts ! i"
proof -
  have l: "length (lm_logits M P (take (Suc i) ts)) = Suc i" using assms by simp
  then have "lm_logits M P (take (Suc i) ts) \<noteq> []" by (metis length_0_conv nat.distinct(1))
  then have "next_logits M P (take (Suc i) ts) = lm_logits M P (take (Suc i) ts) ! i"
    unfolding next_logits_def by (subst last_conv_nth) (simp_all only: l diff_Suc_1 simp_thms)
  also have "\<dots> = lm_logits M P ts ! i"
    using assms dense_nth [of i "Suc i" ts M "to_dtype P" "lm_window P" "lm_layers M"]
    by (simp add: lm_logits_def dense_logits_def)
  finally show ?thesis .
qed

lemma packed_logits:
  assumes "lm_fits M P" "length hist = length new"
  shows "map (head_row M) (packed hist new (\<lambda>b i. final_norm M (step_rows M P hist new (num_layers P) b i))) =
    packed hist new (\<lambda>b i. next_logits M P (take (Suc i) (hist ! b @ new ! b)))"
  unfolding packed_map
proof (rule packed_cong)
  fix b i assume b: "b < length new" "i < length (hist ! b) + length (new ! b)"
  then show "head_row M (final_norm M (step_rows M P hist new (num_layers P) b i)) =
      next_logits M P (take (Suc i) (hist ! b @ new ! b))"
    using assms lm_fitsD(4) [OF assms(1)] lm_logits_nth [of i "hist ! b @ new ! b" M P]
    by (simp add: step_rows_def lm_logits_def dense_logits_def)
qed

section \<open>The forward of a step\<close>

text \<open>A runner that fits its pool: no captured graph, the digest of the cache.\<close>

definition runner_fits :: "('v, 'lg, 'c) runner \<Rightarrow> digest \<Rightarrow> 'v pool \<Rightarrow> bool" where
  "runner_fits N digest P \<longleftrightarrow> lm_fits (rn_model N) P \<and> env_digest (rn_env N) = digest \<and>
     rn_decode_graph N = None \<and> rn_prefill_graph N = None"

text \<open>The logits rows of a step: all of them, or the last of each request.\<close>

definition step_logits :: "('v, 'lg, 'c) lm \<Rightarrow> 'v pool \<Rightarrow> token list list \<Rightarrow> token list list \<Rightarrow> bool \<Rightarrow> 'lg list" where
  "step_logits M P hist new last_rows =
     (if last_rows then map (\<lambda>b. next_logits M P (hist ! b @ new ! b)) [0 ..< length new]
      else packed hist new (\<lambda>b i. next_logits M P (take (Suc i) (hist ! b @ new ! b))))"

lemma pick_last_rows:
  assumes "[] \<notin> set new" "length hist = length new"
    and rows: "rows = packed hist new (\<lambda>b i. next_logits M P (take (Suc i) (hist ! b @ new ! b)))"
  shows "list_ex (\<lambda>i. \<not> (0 \<le> i \<and> i < int (length rows))) (last_row_ids (sums_from 0 (map length new)) (length new)) = False"
    "map (\<lambda>i. rows ! nat i) (last_row_ids (sums_from 0 (map length new)) (length new)) = step_logits M P hist new True"
proof -
  let ?cu = "sums_from 0 (map length new)"
  have b: "0 < ?cu ! Suc b \<and> ?cu ! Suc b \<le> length rows \<and> rows ! (?cu ! Suc b - 1) = next_logits M P (hist ! b @ new ! b)"
    if "b < length new" for b
  proof -
    have ne: "new ! b \<noteq> []" using assms(1) that by (metis nth_mem)
    have "take (Suc (length (hist ! b) + length (new ! b) - 1)) (hist ! b @ new ! b) = hist ! b @ new ! b"
      using ne by simp
    then show ?thesis
      unfolding rows packed_last(1) [OF that ne] using packed_last(2) [OF that ne] packed_last(3) [OF that ne] by metis
  qed
  then have at: "0 \<le> int (?cu ! Suc b) - 1 \<and> int (?cu ! Suc b) - 1 < int (length rows)"
      "nat (int (?cu ! Suc b) - 1) = ?cu ! Suc b - 1" if "b < length new" for b
    using that by (smt (verit) of_nat_0_less_iff of_nat_le_iff, simp add: nat_diff_distrib')
  then show "list_ex (\<lambda>i. \<not> (0 \<le> i \<and> i < int (length rows))) (last_row_ids ?cu (length new)) = False"
    by (auto simp: list_ex_iff last_row_ids_def)
  from b at(2) show "map (\<lambda>i. rows ! nat i) (last_row_ids ?cu (length new)) = step_logits M P hist new True"
    by (simp add: last_row_ids_def step_logits_def)
qed

lemma eager_rows:
  assumes a: "after_step (lm_rows (rn_model N) P0) digest U R hist P0 (c, P)" and fits: "runner_fits N digest P0"
    and tok: "step_tokens_ok hist new c" and ne: "[] \<notin> set new"
    and av: "total_need (block_size P) (sums_from 0 (map length new)) c 0 \<le> available P"
  shows "\<exists>s'. eager_forward N (concat new) (sums_from 0 (map length new)) (map length hist) taps last_rows (c, P) =
      (Inr (step_logits (rn_model N) P0 hist new last_rows,
            sink_rows (rn_model N) P0 hist new (case taps of None \<Rightarrow> {} | Some ls \<Rightarrow> ls) (num_layers P0)), s') \<and>
    after_step (lm_rows (rn_model N) P0) digest U R (map2 (@) hist new) P0 s'"
proof -
  let ?M = "rn_model N" and ?cu = "sums_from 0 (map length new)"
  let ?t = "\<lparr>tensor_id = rn_tensor_id N, tensor_values = ?cu\<rparr>" and ?ls = "case taps of None \<Rightarrow> {} | Some ls \<Rightarrow> ls"
  let ?rows = "packed hist new (\<lambda>b i. next_logits ?M P0 (take (Suc i) (hist ! b @ new ! b)))"
  have f: "lm_fits ?M P0" "env_digest (rn_env N) = digest" using fits by (simp_all add: runner_fits_def)
  have lens: "length hist = length new" "batch_size c = length new"
    using a tok by (simp_all add: after_step_def content_def hist_ok_def step_tokens_ok_def)
  obtain s' where d: "run_decoder_layers ?M (rn_env N) ?t (packed hist new (\<lambda>b i. i)) ?ls (map (embed_row ?M) (concat new)) (c, P) =
        (Inr (packed hist new (\<lambda>b i. final_norm ?M (step_rows ?M P0 hist new (num_layers P0) b i)),
              sink_rows ?M P0 hist new ?ls (num_layers P0)), s')"
      "after_step (lm_rows ?M P0) digest U R (map2 (@) hist new) P0 s'"
    using decoder_rows [OF a f(1) tok, of ?t "rn_env N" ?ls] av f(2) by auto
  have pos: "position_ids ?cu (map length hist) (batch_size c) = packed hist new (\<lambda>b i. i)"
    using position_ids_packed lens by metis
  have len: "length (packed hist new (\<lambda>b i. i)) = length (concat new)" by (simp add: length_packed length_concat)
  note rows = packed_logits [OF f(1) lens(1)]
  have at: "head_row ?M (packed hist new (\<lambda>b i. final_norm ?M (step_rows ?M P0 hist new (num_layers P0) b i)) ! i) = ?rows ! i"
    if "i < length ?rows" for i
    using arg_cong [OF rows, of "\<lambda>l. l ! i"] that by (simp add: length_packed)
  have all: "lm_forward ?M (rn_env N) (concat new) (packed hist new (\<lambda>b i. i)) ?t ?ls None (c, P) =
      (Inr (?rows, sink_rows ?M P0 hist new ?ls (num_layers P0)), s')"
    using d(1) rows len by (simp add: lm_forward_def seq_def ret_def)
  note pick = pick_last_rows [OF ne lens(1) refl, of ?M P0]
  have some: "lm_forward ?M (rn_env N) (concat new) (packed hist new (\<lambda>b i. i)) ?t ?ls
      (Some (last_row_ids ?cu (length new))) (c, P) =
      (Inr (step_logits ?M P0 hist new True, sink_rows ?M P0 hist new ?ls (num_layers P0)), s')"
  proof -
    have "map (\<lambda>i. head_row ?M (packed hist new (\<lambda>b i. final_norm ?M (step_rows ?M P0 hist new (num_layers P0) b i)) ! nat i))
        (last_row_ids ?cu (length new)) = step_logits ?M P0 hist new True"
      unfolding pick(2) [symmetric]
      by (rule map_cong [OF refl]) (use pick(1) in \<open>auto simp: list_ex_iff intro!: at simp del: take_append\<close>)
    then show ?thesis using d(1) len pick(1) by (simp add: lm_forward_def seq_def ret_def length_packed)
  qed
  show ?thesis
    using d(2) all some pick lens pos
    by (cases "last_rows"; cases "rn_selects_rows N")
      (simp_all add: eager_forward_def Let_def seq_def ret_def step_logits_def)
qed

text \<open>A step that needs more blocks than the pool can give fails in layer 0 and can be rolled back.\<close>

lemma eager_oom:
  assumes a: "after_step kv digest U R hist P0 (c, P)" and fits: "runner_fits N digest P0"
    and lens: "length new = batch_size c"
    and oom: "available P < total_need (block_size P) (sums_from 0 (map length new)) c 0"
  shows "\<exists>s1 s2. eager_forward N (concat new) (sums_from 0 (map length new)) (map length hist) taps last_rows (c, P) =
      (Inl OutOfMemoryError, s1) \<and> batch_size (fst s1) = batch_size c \<and>
    roll_back (num_tokens c) s1 = (Inr (), s2) \<and> after_step kv digest U R hist P0 s2 \<and> half_grown digest R (c, P) s1"
proof -
  let ?M = "rn_model N" and ?cu = "sums_from 0 (map length new)"
  let ?t = "\<lparr>tensor_id = rn_tensor_id N, tensor_values = ?cu\<rparr>"
  have f: "lm_fits ?M P0" "env_digest (rn_env N) = digest" using fits by (simp_all add: runner_fits_def)
  have hist: "length hist = length new" using a lens by (simp add: after_step_def content_def hist_ok_def)
  let ?ks = "map2 (k_row ?M 0) (packed hist new (\<lambda>b i. i)) (map (input_norm ?M 0) (map (embed_row ?M) (concat new)))"
  let ?vs = "map (v_row ?M 0) (map (input_norm ?M 0) (map (embed_row ?M) (concat new)))"
  obtain s1 s2 where o: "append_kv_packed (env_qwrite (rn_env N)) digest (env_device (rn_env N)) ?ks ?vs ?t 0 (c, P) = (Inl OutOfMemoryError, s1)"
      "batch_size (fst s1) = batch_size c" "roll_back (num_tokens c) s1 = (Inr (), s2)" "after_step kv digest U R hist P0 s2"
      "half_grown digest R (c, P) s1"
    using oom_append [OF a, of ?t "env_qwrite (rn_env N)" "env_device (rn_env N)" ?ks ?vs] oom lens
    unfolding cu_tensor.simps by auto
  have pos: "position_ids ?cu (map length hist) (batch_size c) = packed hist new (\<lambda>b i. i)"
    using position_ids_packed hist lens by metis
  have len: "length (packed hist new (\<lambda>b i. i)) = length (concat new)" by (simp add: length_packed length_concat)
  have layers: "[0 ..< lm_layers ?M] = 0 # [Suc 0 ..< lm_layers ?M]"
    using lm_fitsD(3,4) [OF f(1)] by (simp add: upt_conv_Cons)
  have "block_forward ?M (rn_env N) 0 ?t (packed hist new (\<lambda>b i. i)) (map (embed_row ?M) (concat new)) None (c, P) =
      (Inl OutOfMemoryError, s1)"
    using o(1) f(2) by (simp add: block_forward_def add_norm_def gqa_forward_def seq_def del: map_map)
  then have "run_decoder_layers ?M (rn_env N) ?t (packed hist new (\<lambda>b i. i)) taps' (map (embed_row ?M) (concat new)) (c, P) =
      (Inl OutOfMemoryError, s1)" for taps'
    unfolding run_decoder_layers_def layers by (simp add: seq_def)
  then have "lm_forward ?M (rn_env N) (concat new) (packed hist new (\<lambda>b i. i)) ?t taps' rows (c, P) =
      (Inl OutOfMemoryError, s1)" for taps' rows
    using len by (simp add: lm_forward_def seq_def)
  then show ?thesis using o(2-5) pos
    by (intro exI [of _ s1] exI [of _ s2]) (simp add: eager_forward_def seq_def Let_def)
qed

text \<open>
  The contract of the packed forward. A batch of slots with the histories \<open>hist\<close> that feeds the tokens
  \<open>new\<close> gets the logits of each request alone and keeps the content of the cache, or raises
  \<open>OutOfMemoryError\<close> and the rollback undoes it.
\<close>

lemma forward_step_packed_ok:
  assumes a: "after_step (lm_rows (rn_model N) P0) digest U R hist P0 (c, P)" and fits: "runner_fits N digest P0"
    and tok: "step_tokens_ok hist new c" and ne: "[] \<notin> set new"
    and ids: "input_tokens ids = concat new" "device_count_ok ids (length new)"
  shows "(\<exists>s'. forward_step_packed N ids (sums_from 0 (map length new)) (map length hist) taps last_rows (c, P) =
        (Inr (step_logits (rn_model N) P0 hist new last_rows,
              sink_rows (rn_model N) P0 hist new (case taps of None \<Rightarrow> {} | Some ls \<Rightarrow> ls) (num_layers P0)), s') \<and>
      after_step (lm_rows (rn_model N) P0) digest U R (map2 (@) hist new) P0 s') \<or>
    (\<exists>s1 s2. forward_step_packed N ids (sums_from 0 (map length new)) (map length hist) taps last_rows (c, P) =
        (Inl OutOfMemoryError, s1) \<and> batch_size (fst s1) = batch_size c \<and>
      roll_back (num_tokens c) s1 = (Inr (), s2) \<and>
      after_step (lm_rows (rn_model N) P0) digest U R hist P0 s2 \<and> half_grown digest R (c, P) s1)"
proof -
  let ?cu = "sums_from 0 (map length new)"
  have lens: "length hist = length new" "batch_size c = length new"
    using a tok by (simp_all add: after_step_def content_def hist_ok_def step_tokens_ok_def)
  have "forward_step_packed N ids ?cu (map length hist) taps last_rows (c, P) =
      eager_forward N (concat new) ?cu (map length hist) taps last_rows (c, P)"
    using fits ids lens
    by (simp add: forward_step_packed_def prefill_or_eager_def runner_fits_def)
  then show ?thesis
    using eager_rows [OF a fits tok ne, of taps last_rows] eager_oom [OF a fits, of new taps last_rows] lens
    by (cases "total_need (block_size P) ?cu c 0 \<le> available P") auto
qed

end
