(* ===== verification/Slot_Prompts.thy ===== *)
theory Slot_Prompts
  imports Model_Runner
begin

text \<open>
  A frame of the forward: no operation of a step over an uncompressed pool changes which prompt a slot
  belongs to, whether it returns or raises.
\<close>

named_theorems keeps

definition plain_frame :: "token list list \<Rightarrow> 'v kvs \<Rightarrow> bool" where
  "plain_frame ps s \<longleftrightarrow> kv_quant (snd s) = None \<and> static_step (fst s) = None \<and> slot_prompt_tokens (fst s) = ps"

definition keeps_frame :: "('v kvs, 'a) act \<Rightarrow> bool" where
  "keeps_frame m \<longleftrightarrow> (\<forall>ps s. plain_frame ps s \<longrightarrow> plain_frame ps (snd (m s)))"

lemma keeps_frameI: "(\<And>c P. kv_quant P = None \<Longrightarrow> static_step c = None \<Longrightarrow> plain_frame (slot_prompt_tokens c) (snd (m (c, P)))) \<Longrightarrow> keeps_frame m"
  by (auto simp: keeps_frame_def plain_frame_def)

lemma keeps_frameD: "keeps_frame m \<Longrightarrow> plain_frame ps s \<Longrightarrow> m s = (r, s') \<Longrightarrow> plain_frame ps s'"
  unfolding keeps_frame_def by (metis snd_conv)

lemma keeps_seq [keeps]: "keeps_frame m \<Longrightarrow> (\<And>x. keeps_frame (f x)) \<Longrightarrow> keeps_frame (seq m f)"
  by (auto simp: keeps_frame_def seq_def split: prod.splits sum.splits) (metis snd_conv)+

lemma keeps_ret [keeps]: "keeps_frame (ret x)" "keeps_frame (raise e)"
  by (auto simp: keeps_frame_def ret_def raise_def)

lemma keeps_for_each [keeps]: "(\<And>x. keeps_frame (f x)) \<Longrightarrow> keeps_frame (for_each f xs)"
proof (induction xs)
  case (Cons x xs)
  then show ?case by (auto simp: keeps_frame_def split: prod.splits sum.splits) (metis snd_conv)+
qed (simp add: keeps_frame_def)

lemma keeps_split: "(\<And>c P. keeps_frame (m c P)) \<Longrightarrow> keeps_frame (\<lambda>(c, P). m c P (c, P))"
  by (auto simp: keeps_frame_def)

lemma keeps_if [keeps]: "keeps_frame m \<Longrightarrow> keeps_frame n \<Longrightarrow> keeps_frame (if b then m else n)"
  by simp

section \<open>The pool\<close>

lemma allocate_quant: "allocate P = (r, P') \<Longrightarrow> kv_quant P' = kv_quant P"
  by (auto simp: allocate_def split: list.splits option.splits prod.splits sum.splits if_splits)

lemma grow_quant: "grow allocate n ids P = (r, ids', P') \<Longrightarrow> kv_quant P' = kv_quant P"
  by (induction n arbitrary: ids P r ids' P') (auto split: prod.splits sum.splits dest: allocate_quant)

lemma free_quant: "free b P = (r, P') \<Longrightarrow> kv_quant P' = kv_quant P"
  by (auto simp: free_def split: list.splits option.splits prod.splits sum.splits if_splits)

lemma put_rows_quant [simp]: "kv_quant (put_rows l nm idx rows P) = kv_quant P"
  by (induction l nm idx rows P rule: put_rows.induct) (simp_all add: put_row_def)

lemma index_put_quant: "index_put l nm idx rows P = (r, P') \<Longrightarrow> kv_quant P' = kv_quant P"
  by (auto simp: index_put_def split: if_splits)

definition slot_frame :: "'v kvcache \<Rightarrow> token list list \<times> static_step option" where
  "slot_frame c = (slot_prompt_tokens c, static_step c)"

lemma keeps_on_pool [keeps]: "(\<And>P r P'. f P = (r, P') \<Longrightarrow> kv_quant P' = kv_quant P) \<Longrightarrow> keeps_frame (on_pool f)"
  by (rule keeps_frameI) (auto simp: plain_frame_def on_pool_def split: prod.splits)

lemma keeps_on_cache [keeps]:
  "(\<And>c r c'. f c = (r, c') \<Longrightarrow> slot_frame c' = slot_frame c) \<Longrightarrow> keeps_frame (on_cache f)"
  by (rule keeps_frameI) (fastforce simp: plain_frame_def slot_frame_def on_cache_def split: prod.splits)

section \<open>The operations of a step\<close>

lemma keeps_reserve_slot [keeps]: "keeps_frame (reserve_slot cu b)"
  by (rule keeps_frameI) (auto simp: plain_frame_def reserve_slot_def Let_def split: prod.splits sum.splits dest: grow_quant)

lemma keeps_reserve [keeps]: "keeps_frame (reserve_new_tokens t)"
proof (rule keeps_frameI)
  fix c :: "'a kvcache" and P :: "'a pool" assume q: "kv_quant P = None" "static_step c = None"
  obtain cu c1 where r: "read_cu_seqlens_q t (layout_changed c) = (cu, c1)" by (metis surj_pair)
  then have "plain_frame (slot_prompt_tokens c) (c1, P)"
    using q by (auto simp: plain_frame_def read_cu_seqlens_q_def layout_changed_def)
  moreover have "keeps_frame (for_each (reserve_slot cu :: nat \<Rightarrow> ('a kvs, unit) act) [0 ..< batch_size c1])" by (intro keeps)
  ultimately show "plain_frame (slot_prompt_tokens c) (snd (reserve_new_tokens t (c, P)))"
    unfolding reserve_new_tokens_def keeps_frame_def by (simp add: r)
qed

lemma cu_seqlens_prompts: "cu_seqlens_q_list t c = (cu, c') \<Longrightarrow> slot_frame c' = slot_frame c"
  by (auto simp: slot_frame_def cu_seqlens_q_list_def read_cu_seqlens_q_def split: option.splits if_splits)

lemma step_write_index_prompts: "step_write_index bs cu dev c = (r, c') \<Longrightarrow> slot_frame c' = slot_frame c"
  by (auto simp: slot_frame_def step_write_index_def Let_def split: option.splits sum.splits if_splits)

lemma write_cells_prompts: "write_cells bs dev t c = (r, c') \<Longrightarrow> slot_frame c' = slot_frame c"
  by (auto simp: write_cells_def split: prod.splits sum.splits dest!: cu_seqlens_prompts step_write_index_prompts)

lemma put_kv_quant: "put_kv l idx ks vs P = (r, P') \<Longrightarrow> kv_quant P' = kv_quant P"
  by (auto simp: put_kv_def seq_def split: prod.splits sum.splits dest!: index_put_quant)

lemma keeps_write_packed [keeps]: "keeps_frame (write_packed_kv qwrite dev l ks vs t)"
proof (rule keeps_frameI)
  fix c :: "'a kvcache" and P :: "'a pool" assume q: "kv_quant P = None" "static_step c = None"
  have k: "keeps_frame (seq (on_cache (write_cells (block_size P) dev t))
      (\<lambda>(cu, idx). on_pool (put_kv l idx (slice_rows cu ks) (slice_rows cu vs))))"
    unfolding split_def by (intro keeps) (auto dest: write_cells_prompts put_kv_quant)
  have "plain_frame (slot_prompt_tokens c) (c, P)" using q by (simp add: plain_frame_def)
  with k q show "plain_frame (slot_prompt_tokens c) (snd (write_packed_kv qwrite dev l ks vs t (c, P)))"
    unfolding keeps_frame_def by (auto simp: write_packed_kv_def write_packed_kv_uncompressed_def split: sum.splits)
qed

lemma publish_blocks_frame:
  "publish_blocks digest b is parent (c, P) = (r, (c', P')) \<Longrightarrow>
     kv_quant P' = kv_quant P \<and> slot_frame c' = slot_frame c"
  by (induction "is" arbitrary: parent c P)
    (fastforce simp: slot_frame_def Let_def layout_changed_def split: option.splits sum.splits prod.splits if_splits dest!: free_quant)+

lemma keeps_publish_filled [keeps]: "keeps_frame (publish_filled_blocks digest b)"
  by (rule keeps_frameI)
    (auto simp: publish_filled_blocks_def plain_frame_def slot_frame_def Let_def split: prod.splits sum.splits dest!: publish_blocks_frame)

lemma keeps_publish_step [keeps]: "keeps_frame (publish_step digest l)"
proof (rule keeps_frameI)
  fix c :: "'a kvcache" and P :: "'a pool" assume q: "kv_quant P = None" "static_step c = None"
  have "keeps_frame (for_each (publish_filled_blocks digest :: nat \<Rightarrow> ('a kvs, unit) act) bs)" for bs by (intro keeps)
  then show "plain_frame (slot_prompt_tokens c) (snd (publish_step digest l (c, P)))"
    using q by (auto simp: publish_step_def publish_all_def keeps_frame_def plain_frame_def)
qed

lemma keeps_append [keeps]: "keeps_frame (append_kv_packed qwrite digest dev ks vs t l)"
proof (rule keeps_frameI)
  fix c :: "'a kvcache" and P :: "'a pool" assume q: "kv_quant P = None" "static_step c = None"
  have "keeps_frame (seq (if l = 0 then reserve_new_tokens t else ret ())
      (\<lambda>_. seq (write_packed_kv qwrite dev l ks vs t) (\<lambda>_. publish_step digest l)))"
    by (intro keeps)
  then show "plain_frame (slot_prompt_tokens c) (snd (append_kv_packed qwrite digest dev ks vs t l (c, P)))" using q
    by (auto simp: append_kv_packed_def keeps_frame_def plain_frame_def split: sum.splits)
qed

section \<open>The forward\<close>

lemma step_gather_index_prompts: "step_gather_index bs dev c = (r, c') \<Longrightarrow> slot_frame c' = slot_frame c"
  by (auto simp: slot_frame_def step_gather_index_def Let_def split: option.splits sum.splits if_splits)

lemma keeps_materialize [keeps]: "keeps_frame (materialize_packed_kv qread dev l)"
proof (rule keeps_frameI)
  fix c :: "'a kvcache" and P :: "'a pool" assume q: "kv_quant P = None" "static_step c = None"
  have g: "keeps_frame (on_cache (step_gather_index (block_size P) dev) :: ('a kvs, _) act)"
    by (intro keeps) (rule step_gather_index_prompts)
  have p: "plain_frame (slot_prompt_tokens c) (c, P)" using q by (simp add: plain_frame_def)
  show "plain_frame (slot_prompt_tokens c) (snd (materialize_packed_kv qread dev l (c, P)))"
    using q p keeps_frameD [OF g p] unfolding materialize_packed_kv_def seq_def
    by (auto split: sum.splits prod.splits)
qed

lemma keeps_attention [keeps]: "keeps_frame (packed_attention_forward M E l t qs)"
proof (rule keeps_frameI)
  fix c :: "'a kvcache" and P :: "'a pool" assume q: "kv_quant P = None" "static_step c = None"
  have cu: "slot_frame (snd (cu_seqlens_q_list t c)) = slot_frame c" for c :: "'a kvcache"
    by (metis cu_seqlens_prompts surjective_pairing)
  have "keeps_frame (seq (materialize_packed_kv (env_qread E) (env_device E) l)
      (\<lambda>(ks, vs, _, _). seq (on_cache (\<lambda>c. case cu_seqlens_q_list t c of (cu, c') \<Rightarrow> (Inr (cu, cu_seqlens_k_list c'), c')))
        (\<lambda>(cu_q, cu_k) s. (packed_attention_torch M l w qs ks vs cu_q cu_k, s))))" for w
    unfolding split_def by (intro keeps) (use cu in \<open>auto simp: keeps_frame_def\<close>)
  moreover have "plain_frame (slot_prompt_tokens c) (c, P)" using q by (simp add: plain_frame_def)
  ultimately show "plain_frame (slot_prompt_tokens c) (snd (packed_attention_forward M E l t qs (c, P)))"
    unfolding keeps_frame_def by (auto simp: packed_attention_forward_def split: sum.splits)
qed

lemma keeps_block [keeps]: "keeps_frame (block_forward M E l t pos xs residual)"
  unfolding block_forward_def gqa_forward_def Let_def split_def by (intro keeps)

lemma keeps_layer_loop [keeps]: "keeps_frame (layer_loop M E t pos taps ls xs residual sink)"
proof (induction ls arbitrary: xs residual sink)
  case (Cons l ls)
  show ?case
    using keeps_block [of M E l t pos xs residual] Cons
    by (auto simp: keeps_frame_def split: prod.splits sum.splits) (metis snd_conv)+
qed (simp add: keeps_frame_def)

lemma keeps_lm [keeps]: "keeps_frame (lm_forward M E ids pos t taps rows)"
proof -
  have "keeps_frame (case rows of None \<Rightarrow> ret (f x) | Some is \<Rightarrow> if b is x then raise IndexError else ret (g is x))"
    for f g b and x :: 'y
    by (auto simp: keeps_frame_def ret_def raise_def split: option.splits)
  then show ?thesis
    unfolding lm_forward_def run_decoder_layers_def split_def by (intro keeps)
qed

lemma keeps_eager [keeps]: "keeps_frame (eager_forward N ids cu offsets taps last_rows)"
proof (rule keeps_frameI)
  fix c :: "'a kvcache" and P :: "'a pool" assume q: "kv_quant P = None" "static_step c = None"
  have "keeps_frame (lm_forward M E ids pos t taps' rows)"
    "keeps_frame (seq (lm_forward M E ids pos t taps' rows) (\<lambda>x. if b x then raise IndexError else ret (f x)))"
    for M :: "('a, 'b, 'c) lm" and E pos t taps' rows and f :: "'b list \<times> (nat \<rightharpoonup> 'c list) \<Rightarrow> 'b list \<times> (nat \<rightharpoonup> 'c list)" and b
    by (intro keeps)+
  moreover have "plain_frame (slot_prompt_tokens c) (c, P)" using q by (simp add: plain_frame_def)
  ultimately show "plain_frame (slot_prompt_tokens c) (snd (eager_forward N ids cu offsets taps last_rows (c, P)))"
    unfolding eager_forward_def Let_def split_def keeps_frame_def by simp
qed

lemma keeps_truncate: "keeps_frame (truncate_to b n)"
proof (rule keeps_frameI)
  fix c :: "'a kvcache" and P :: "'a pool" assume q: "kv_quant P = None" "static_step c = None"
  have "kv_quant P' = kv_quant P1" if "for_each free xs P1 = (r, P')" for xs r and P1 P' :: "'a pool"
    using that by (induction xs arbitrary: P1) (auto split: prod.splits sum.splits dest: free_quant)
  then show "plain_frame (slot_prompt_tokens c) (snd (truncate_to b n (c, P)))"
    using q by (auto simp: truncate_to_def Let_def plain_frame_def layout_changed_def split: if_splits sum.splits prod.splits)
qed

lemma keeps_roll_back [keeps]: "keeps_frame (roll_back ns)"
  unfolding roll_back_def by (intro keeps keeps_truncate)

text \<open>The contract of the packed forward, with the prompts of the slots.\<close>

lemma forward_keeps_prompts:
  assumes "runner_fits N digest P0" "kv_quant P = None" "static_step c = None"
    "forward_step_packed N ids cu offsets taps last_rows (c, P) = (r, s')"
  shows "plain_frame (slot_prompt_tokens c) s'"
proof -
  have p: "plain_frame (slot_prompt_tokens c) (c, P)" using assms(2,3) by (simp add: plain_frame_def)
  have e: "plain_frame (slot_prompt_tokens c) (snd (eager_forward N ts cu offsets taps last_rows (c, P)))" for ts
    using keeps_eager p unfolding keeps_frame_def by blast
  have "snd (forward_step_packed N ids cu offsets taps last_rows (c, P)) = s'" using assms(4) by simp
  with p e assms(1) show ?thesis
    unfolding forward_step_packed_def prefill_or_eager_def runner_fits_def by (auto split: if_splits)
qed

end
