(* ===== verification/Engine_Contracts.thy ===== *)
theory Engine_Contracts
  imports Scheduler_Engine Slot_Prompts
begin

text \<open>
  What the scheduler needs of the cache and of the runner, as two interfaces, and the proof that the
  paged cache and the packed forward of the decoder provide them.
\<close>

section \<open>The interfaces\<close>

text \<open>A slot is the pair of its prompt and its history.\<close>

type_synonym slot = "token list \<times> token list"

definition add_tokens :: "slot list \<Rightarrow> token list list \<Rightarrow> slot list" where
  "add_tokens sl new = map2 (\<lambda>(p, h) n. (p, h @ n)) sl new"

text \<open>The new tokens of a slot follow its prompt while the history is inside it.\<close>

definition follows_prompt :: "slot \<Rightarrow> token list \<Rightarrow> bool" where
  "follows_prompt x n \<longleftrightarrow> take (length (fst x)) (snd x @ n) = take (length (snd x @ n)) (fst x)"

locale slot_store =
  fixes ok :: "slot list \<Rightarrow> 'v kvs \<Rightarrow> bool"
    and idle :: "'v pool \<Rightarrow> bool"
    and digest :: digest
    and U :: "token list set"
  assumes start: "idle P \<Longrightarrow> ok [] (kvcache_init 0, P)"
    and stop: "ok [] (c, P) \<Longrightarrow> idle P"
    and all_free: "idle P \<Longrightarrow> available_blocks P = num_blocks P"
    and lens: "ok sl s \<Longrightarrow> num_tokens (fst s) = map (length \<circ> snd) sl"
    and join: "ok sl s \<Longrightarrow> prompt \<in> U \<Longrightarrow> prompt \<noteq> [] \<Longrightarrow>
      \<exists>n s'. add_request_slot digest (Some prompt) s = (Inr (length sl), s') \<and> n < length prompt \<and>
        ok (sl @ [(prompt, take n prompt)]) s'"
    and leave: "ok sl s \<Longrightarrow> b < length sl \<Longrightarrow> \<exists>s'. remove_request b s = (Inr (), s') \<and> ok (remove_at b sl) s'"
begin

lemma batch: "ok sl s \<Longrightarrow> batch_size (fst s) = length sl"
  using lens [of sl s] by (simp add: batch_size_def)

end

text \<open>The packed forward on top: one row of logits per request, each the \<open>target\<close> of its own tokens,
  or an error that a rollback undoes.\<close>

definition request_rows :: "(token list \<Rightarrow> 'lg) \<Rightarrow> slot list \<Rightarrow> token list list \<Rightarrow> bool \<Rightarrow> 'lg list \<Rightarrow> bool" where
  "request_rows target sl new last_rows rows \<longleftrightarrow>
     length rows = (if last_rows then length new else sum_list (map length new)) \<and>
     (\<forall>b < length new. rows ! ((if last_rows then Suc b else sums_from 0 (map length new) ! Suc b) - 1) =
        target (snd (sl ! b) @ new ! b))"

locale batch_runner = slot_store +
  fixes forward :: "('v, 'lg, 'c) forward"
    and target :: "token list \<Rightarrow> 'lg"
  assumes forward: "ok sl s \<Longrightarrow> length new = length sl \<Longrightarrow> [] \<notin> set new \<Longrightarrow>
    (\<And>b. b < length sl \<Longrightarrow> follows_prompt (sl ! b) (new ! b)) \<Longrightarrow>
    input_tokens ids = concat new \<Longrightarrow> device_count_ok ids (length new) \<Longrightarrow>
    (\<exists>rows taps s'. forward ids (sums_from 0 (map length new)) (map (length \<circ> snd) sl) False last_rows s = (Inr (rows, taps), s') \<and>
       request_rows target sl new last_rows rows \<and> ok (add_tokens sl new) s') \<or>
    (\<exists>s1 s2. forward ids (sums_from 0 (map length new)) (map (length \<circ> snd) sl) False last_rows s = (Inl OutOfMemoryError, s1) \<and>
       batch_size (fst s1) = length sl \<and> roll_back (map (length \<circ> snd) sl) s1 = (Inr (), s2) \<and> ok sl s2)"

section \<open>The paged cache as a slot store\<close>

definition slots_ok ::
  "('v, 'lg, 'c) runner \<Rightarrow> 'v pool \<Rightarrow> digest \<Rightarrow> token list set \<Rightarrow> slot list \<Rightarrow> 'v kvs \<Rightarrow> bool" where
  "slots_ok N P0 digest U sl s \<longleftrightarrow> runner_fits N digest P0 \<and>
     after_step (lm_rows (rn_model N) P0) digest U {#} (map snd sl) P0 s \<and> slot_prompt_tokens (fst s) = map fst sl"

definition idle_pool :: "('v, 'lg, 'c) runner \<Rightarrow> 'v pool \<Rightarrow> digest \<Rightarrow> token list set \<Rightarrow> 'v pool \<Rightarrow> bool" where
  "idle_pool N P0 digest U P \<longleftrightarrow> slots_ok N P0 digest U [] (kvcache_init 0, P)"

lemma after_step_empty:
  assumes "after_step kv digest U {#} [] P0 (c, P)"
  shows "after_step kv digest U {#} [] P0 (kvcache_init i, P)"
proof -
  have inv: "kv_inv digest (c, P) {#}" "num_tokens c = []"
    using assms by (simp_all add: after_step_def content_def hist_ok_def batch_size_def)
  then have "block_ids c = []" "slot_prompt_tokens c = []" "slot_num_published c = []" "slot_parent_hash c = []"
    by (simp_all add: kv_inv_def aligned_def batch_size_def)
  then have "kv_inv digest (kvcache_init i, P) {#}"
    by (intro kv_inv_cong [OF inv(1)]) (simp_all add: kvcache_init_def inv(2))
  then show ?thesis
    using assms by (simp add: after_step_def content_def hist_ok_def batch_size_def kvcache_init_def index_ok_def layer_right_def)
qed

lemma slots_lens: "slots_ok N P0 digest U sl s \<Longrightarrow> num_tokens (fst s) = map (length \<circ> snd) sl"
  by (auto simp: slots_ok_def after_step_def content_def hist_ok_def batch_size_def intro!: nth_equalityI)

lemma slots_join:
  assumes ok: "slots_ok N P0 digest U sl s" and p: "prompt \<in> U" "prompt \<noteq> []"
  shows "\<exists>n s'. add_request_slot digest (Some prompt) s = (Inr (length sl), s') \<and> n < length prompt \<and>
    slots_ok N P0 digest U (sl @ [(prompt, take n prompt)]) s'"
proof -
  obtain c P where s: "s = (c, P)" by (cases s)
  note ok' = ok [unfolded slots_ok_def s fst_conv]
  have a: "after_step (lm_rows (rn_model N) P0) digest U {#} (map snd sl) P0 (c, P)" using ok' by blast
  have inv: "kv_inv digest (c, P) {#}" and pok: "prompts_ok digest (block_size P) U"
    using a by (simp_all add: after_step_def content_def pool_right_def)
  obtain r s' ids where add: "add_request_slot digest (Some prompt) (c, P) = (r, s')"
      "slot_added digest (Some prompt) (c, P) r s' ids"
    using add_request_slot_ok [OF inv] by blast
  obtain c' P' where s': "s' = (c', P')" by (cases s')
  note add' = add(2) [unfolded slot_added_def fst_conv snd_conv prompt_of_def option.case s']
  have "succeeds (compute_block_hashes digest prompt (block_size P))" using pok p(1) by (simp add: prompts_ok_def)
  then have r: "r = Inr (batch_size c)" using add' by blast
  have n: "last (num_tokens c') = length ids * block_size P" "length ids * block_size P < length prompt"
    using add' p(2) by auto
  have b: "batch_size c = length sl" using slots_lens [OF ok] s by (simp add: batch_size_def)
  from add_request_right [OF a p(1), of r c' P'] add(1) s'
  have "after_step (lm_rows (rn_model N) P0) digest U {#} (map snd sl @ [take (length ids * block_size P) prompt]) P0 s'"
    by (simp add: n)
  then have "slots_ok N P0 digest U (sl @ [(prompt, take (length ids * block_size P) prompt)]) s'"
    using ok' add' by (simp add: slots_ok_def s')
  then show ?thesis using add(1) r b n(2) s
    by (intro exI [of _ "length ids * block_size P"] exI [of _ s']) simp
qed

lemma slots_leave:
  assumes ok: "slots_ok N P0 digest U sl s" and b: "b < length sl"
  shows "\<exists>s'. remove_request b s = (Inr (), s') \<and> slots_ok N P0 digest U (remove_at b sl) s'"
proof -
  obtain c P where s: "s = (c, P)" by (cases s)
  note ok' = ok [unfolded slots_ok_def s fst_conv]
  have bb: "b < batch_size c" using slots_lens [OF ok] b s by (simp add: batch_size_def)
  have a: "after_step (lm_rows (rn_model N) P0) digest U {#} (map snd sl) P0 (c, P)" using ok' by blast
  have inv: "kv_inv digest (c, P) {#}" using a by (simp add: after_step_def)
  obtain s' where r: "remove_request b (c, P) = (Inr (), s')"
      "after_step (lm_rows (rn_model N) P0) digest U {#} (remove_at b (map snd sl)) P0 s'"
    using remove_right [OF a bb] by blast
  have "slot_prompt_tokens (fst s') = remove_at b (slot_prompt_tokens c)"
    using r(1) by (auto simp: remove_request_def Let_def layout_changed_def split: if_splits sum.splits prod.splits)
  moreover have "map f (remove_at b sl) = remove_at b (map f sl)" for f :: "slot \<Rightarrow> token list"
    by (simp add: remove_at_def take_map drop_map)
  ultimately show ?thesis using r ok' s by (simp add: slots_ok_def)
qed

lemma idle_all_free:
  assumes "idle_pool N P0 digest U P"
  shows "available_blocks P = num_blocks P"
proof -
  have "kv_inv digest (kvcache_init 0, P) {#}" using assms by (simp add: idle_pool_def slots_ok_def after_step_def)
  from blocks_conserved [OF kv_invD(2) [OF this]] show ?thesis
    by (simp add: held_def kvcache_init_def available_def num_idle_def available_blocks_def)
qed

interpretation paged: slot_store "slots_ok N P0 digest U" "idle_pool N P0 digest U" digest U for N P0 digest U
proof
  show "slots_ok N P0 digest U [] (kvcache_init 0, P)" if "idle_pool N P0 digest U P" for P
    using that by (simp add: idle_pool_def)
  show "idle_pool N P0 digest U P" if "slots_ok N P0 digest U [] (c, P)" for c P
    using that after_step_empty by (auto simp: idle_pool_def slots_ok_def kvcache_init_def)
qed (fact idle_all_free slots_lens slots_join slots_leave)+

section \<open>The packed forward as a batch runner\<close>

text \<open>The runner as the scheduler calls it: the rows of the tapped layers side by side.\<close>

definition tap_rows :: "nat list \<Rightarrow> (nat \<rightharpoonup> 'c list) \<Rightarrow> nat \<Rightarrow> 'c list list" where
  "tap_rows taps sink n = map (\<lambda>i. map (\<lambda>l. the (sink l) ! i) taps) [0 ..< n]"

definition sched_forward :: "('v, 'lg, 'c) runner \<Rightarrow> nat list \<Rightarrow> ('v, 'lg, 'c list) forward" where
  "sched_forward N taps ids cu offsets tap last_rows =
     seq (forward_step_packed N ids cu offsets (if tap then Some (set taps) else None) last_rows)
       (\<lambda>(rows, sink). ret (rows, if tap then tap_rows taps sink (last cu) else []))"

lemma step_logits_rows:
  assumes "[] \<notin> set new" "length new = length sl"
  shows "request_rows (next_logits M P) sl new last_rows (step_logits M P (map snd sl) new last_rows)"
proof -
  have "packed (map snd sl) new (\<lambda>b i. next_logits M P (take (Suc i) (map snd sl ! b @ new ! b)))
      ! (sums_from 0 (map length new) ! Suc b - 1) = next_logits M P (snd (sl ! b) @ new ! b)" if "b < length new" for b
  proof -
    have ne: "new ! b \<noteq> []" using assms(1) that by (metis nth_mem)
    then have "take (Suc (length (map snd sl ! b) + length (new ! b) - 1)) (map snd sl ! b @ new ! b) = map snd sl ! b @ new ! b"
      by simp
    then show ?thesis unfolding packed_last(1) [OF that ne] using that assms(2) by simp
  qed
  then show ?thesis using assms(2) by (simp add: request_rows_def step_logits_def length_packed)
qed

lemma slots_forward:
  assumes ok: "slots_ok N P0 digest U sl s" and len: "length new = length sl" and ne: "[] \<notin> set new"
    and fp: "\<And>b. b < length sl \<Longrightarrow> follows_prompt (sl ! b) (new ! b)"
    and ids: "input_tokens ids = concat new" "device_count_ok ids (length new)"
  shows "(\<exists>rows taps s'. sched_forward N tp ids (sums_from 0 (map length new)) (map (length \<circ> snd) sl) False last_rows s =
       (Inr (rows, taps), s') \<and> request_rows (next_logits (rn_model N) P0) sl new last_rows rows \<and>
       slots_ok N P0 digest U (add_tokens sl new) s') \<or>
    (\<exists>s1 s2. sched_forward N tp ids (sums_from 0 (map length new)) (map (length \<circ> snd) sl) False last_rows s =
       (Inl OutOfMemoryError, s1) \<and> batch_size (fst s1) = length sl \<and>
       roll_back (map (length \<circ> snd) sl) s1 = (Inr (), s2) \<and> slots_ok N P0 digest U sl s2)"
proof -
  let ?cu = "sums_from 0 (map length new)" and ?hist = "map snd sl"
  let ?f = "forward_step_packed N ids ?cu (map length ?hist) None last_rows"
  obtain c P where s: "s = (c, P)" by (cases s)
  note ok' = ok [unfolded slots_ok_def s fst_conv]
  have a: "after_step (lm_rows (rn_model N) P0) digest U {#} ?hist P0 (c, P)" and fits: "runner_fits N digest P0" using ok' by blast+
  have b: "batch_size c = length sl" "num_tokens c = map length ?hist" using slots_lens [OF ok] s by (simp_all add: batch_size_def)
  have tok: "step_tokens_ok ?hist new c"
    using fp ok' len b(1) by (simp add: step_tokens_ok_def follows_prompt_def)
  have "kv_quant P0 = None" using fits by (simp add: runner_fits_def lm_fits_def)
  then have q: "kv_quant P = None" "static_step c = None"
    using a pool_cfgD [of P P0] by (auto simp: after_step_def)
  note keep = forward_keeps_prompts [OF fits q, of ids ?cu "map length ?hist" None last_rows]
  have add: "map snd (add_tokens sl new) = map2 (@) ?hist new" "map fst (add_tokens sl new) = map fst sl"
    using len by (auto simp: add_tokens_def intro!: nth_equalityI split: prod.splits)
  from forward_step_packed_ok [OF a fits tok ne ids, of None last_rows] show ?thesis
  proof (elim disjE exE conjE)
    fix s' assume f: "?f (c, P) = (Inr (step_logits (rn_model N) P0 ?hist new last_rows,
        sink_rows (rn_model N) P0 ?hist new (case None of None \<Rightarrow> {} | Some ls \<Rightarrow> ls) (num_layers P0)), s')"
      and a': "after_step (lm_rows (rn_model N) P0) digest U {#} (map2 (@) ?hist new) P0 s'"
    have "slot_prompt_tokens (fst s') = map fst sl" using keep [OF f] ok' by (simp add: plain_frame_def)
    then have "slots_ok N P0 digest U (add_tokens sl new) s'" using a' fits add by (simp add: slots_ok_def)
    then show ?thesis using f s step_logits_rows [OF ne len, of "rn_model N" P0 last_rows]
      by (intro disjI1) (simp add: sched_forward_def seq_def ret_def)
  next
    fix s1 s2 assume f: "?f (c, P) = (Inl OutOfMemoryError, s1)" "batch_size (fst s1) = batch_size c"
      and r: "roll_back (num_tokens c) s1 = (Inr (), s2)" and a': "after_step (lm_rows (rn_model N) P0) digest U {#} ?hist P0 s2"
      and "half_grown digest {#} (c, P) s1"
    have "plain_frame (slot_prompt_tokens c) s2"
      using keeps_frameD [OF keeps_roll_back keep [OF f(1)] r] .
    then have "slots_ok N P0 digest U sl s2" using a' fits ok' by (simp add: slots_ok_def plain_frame_def)
    then show ?thesis using f r s b by (intro disjI2 exI [of _ s1] exI [of _ s2]) (simp add: sched_forward_def seq_def)
  qed
qed

interpretation packed: batch_runner "slots_ok N P0 digest U" "idle_pool N P0 digest U" digest U
    "sched_forward N taps" "next_logits (rn_model N) P0" for N P0 digest U taps
  by unfold_locales (fact slots_forward)

end
