(* ===== verification/Scheduler_Invariant.thy ===== *)
theory Scheduler_Invariant
  imports Engine_Contracts
begin

text \<open>
  The invariant of the scheduler without speculation: which requests run, what their slots hold and what
  they have produced, and the effect of finishing and reaping on it.
\<close>

section \<open>The reference: greedy decoding of one request alone\<close>

fun greedy_generate :: "('lg \<Rightarrow> token) \<Rightarrow> (token list \<Rightarrow> 'lg) \<Rightarrow> token \<Rightarrow> token list \<Rightarrow> nat \<Rightarrow> token list" where
  "greedy_generate pick target eos p 0 = []"
| "greedy_generate pick target eos p (Suc n) =
     (let t = pick (target p) in if t = eos then [] else t # greedy_generate pick target eos (p @ [t]) n)"

definition greedy_run :: "('lg \<Rightarrow> token) \<Rightarrow> (token list \<Rightarrow> 'lg) \<Rightarrow> token list \<Rightarrow> token list \<Rightarrow> bool" where
  "greedy_run pick target p ts \<longleftrightarrow> (\<forall>i < length ts. ts ! i = pick (target (p @ take i ts)))"

lemma greedy_run_Nil [simp]: "greedy_run pick target p []"
  by (simp add: greedy_run_def)

lemma greedy_run_snoc:
  "greedy_run pick target p (ts @ [t]) \<longleftrightarrow> greedy_run pick target p ts \<and> t = pick (target (p @ ts))"
  by (auto simp: greedy_run_def nth_append less_Suc_eq)

lemma greedy_run_Cons:
  "greedy_run pick target p (t # ts) \<longleftrightarrow> t = pick (target p) \<and> greedy_run pick target (p @ [t]) ts"
  by (simp add: greedy_run_def All_less_Suc2)

text \<open>A greedy run without EOS is a prefix of the reference; it is all of it at EOS or at the limit.\<close>

lemma greedy_run_generate:
  assumes "greedy_run pick target p ts" "eos \<notin> set ts" "length ts \<le> n"
  shows "take (length ts) (greedy_generate pick target eos p n) = ts"
    "length ts = n \<or> pick (target (p @ ts)) = eos \<Longrightarrow> greedy_generate pick target eos p n = ts"
proof -
  have "take (length ts) (greedy_generate pick target eos p n) = ts \<and>
      (length ts = n \<or> pick (target (p @ ts)) = eos \<longrightarrow> greedy_generate pick target eos p n = ts)"
    using assms
  proof (induction ts arbitrary: p n)
    case Nil
    then show ?case by (cases n) auto
  next
    case (Cons t ts)
    then obtain m where n: "n = Suc m" by (cases n) auto
    from Cons.prems have "t = pick (target p)" "greedy_run pick target (p @ [t]) ts" "t \<noteq> eos"
      by (auto simp: greedy_run_Cons)
    then show ?case using Cons.IH [of "p @ [t]" m] Cons.prems n by (auto simp: Let_def)
  qed
  then show "take (length ts) (greedy_generate pick target eos p n) = ts"
    "length ts = n \<or> pick (target (p @ ts)) = eos \<Longrightarrow> greedy_generate pick target eos p n = ts" by blast+
qed

section \<open>One request\<close>

definition tok_prompt :: "('v, 'lg, 'c) sched_config \<Rightarrow> ('lg, 'c) running_request \<Rightarrow> token list" where
  "tok_prompt K rq = tok_encode (sc_tokenizer K) (prompt_text (rq_request rq))"

definition is_greedy :: "('lg, 'c) running_request \<Rightarrow> bool" where
  "is_greedy rq \<longleftrightarrow> temperature (sampling (rq_request rq)) = 0"

definition has_room :: "('lg, 'c) running_request \<Rightarrow> bool" where
  "has_room rq \<longleftrightarrow> int (length (tokens_generated rq)) < max 1 (max_tokens (rq_request rq))"

definition output_right :: "(token list \<Rightarrow> 'lg) \<Rightarrow> ('v, 'lg, 'c) sched_config \<Rightarrow> ('lg, 'c) running_request \<Rightarrow> bool" where
  "output_right target K rq \<longleftrightarrow> eos_token_id (sc_tokenizer K) \<notin> set (tokens_generated rq) \<and>
     (is_greedy rq \<longrightarrow> greedy_run (argmax (sc_sampler K)) target (tok_prompt K rq) (tokens_generated rq))"

text \<open>The text of a request is what the stream gives for its tokens, one by one.\<close>

definition token_stream :: "tokenizer \<Rightarrow> token list \<Rightarrow> text_stream" where
  "token_stream T ts = foldl (\<lambda>st t. snd (push T [t] st)) text_stream_init ts"

definition text_right :: "('v, 'lg, 'c) sched_config \<Rightarrow> ('lg, 'c) running_request \<Rightarrow> bool" where
  "text_right K rq \<longleftrightarrow>
     (case rq_stream rq of None \<Rightarrow> tokens_generated rq = []
      | Some st \<Rightarrow> st = token_stream (sc_tokenizer K) (tokens_generated rq)) \<and>
     last_text rq = ts_text (token_stream (sc_tokenizer K) (tokens_generated rq))"

text \<open>The output queue is bounded; a terminal step is last, and only a finished request has one.\<close>

definition queue_right :: "('lg, 'c) running_request \<Rightarrow> bool" where
  "queue_right rq \<longleftrightarrow> sq_maxsize (output_queue rq) = default_output_queue_size \<and>
     length (sq_items (output_queue rq)) \<le> default_output_queue_size \<and>
     (\<forall>x \<in> set (butlast (sq_items (output_queue rq))). gs_finish x = None) \<and>
     (sq_items (output_queue rq) \<noteq> [] \<longrightarrow> gs_finish (last (sq_items (output_queue rq))) = rq_finish rq)"

definition stopped_right :: "(token list \<Rightarrow> 'lg) \<Rightarrow> ('v, 'lg, 'c) sched_config \<Rightarrow> ('lg, 'c) running_request \<Rightarrow> finish_reason \<Rightarrow> bool" where
  "stopped_right target K rq reason \<longleftrightarrow>
     (case reason of
        Stop \<Rightarrow> has_room rq \<and> (is_greedy rq \<and> tok_prompt K rq \<noteq> [] \<longrightarrow>
          argmax (sc_sampler K) (target (tok_prompt K rq @ tokens_generated rq)) = eos_token_id (sc_tokenizer K))
      | Length \<Rightarrow> int (length (tokens_generated rq)) = max 1 (max_tokens (rq_request rq))
      | Cancelled \<Rightarrow> has_room rq)"

definition state_right :: "(token list \<Rightarrow> 'lg) \<Rightarrow> ('v, 'lg, 'c) sched_config \<Rightarrow> ('lg, 'c) running_request \<Rightarrow> bool" where
  "state_right target K rq \<longleftrightarrow>
     (case rq_state rq of
        Waiting \<Rightarrow> batch_idx rq = None \<and> tokens_generated rq = [] \<and> pending_decode_tokens rq = None \<and> rq_finish rq = None
      | Decoding \<Rightarrow> prompt_token_ids rq = tok_prompt K rq \<and> rq_finish rq = None \<and> has_room rq \<and>
          (case pending_decode_tokens rq of
             None \<Rightarrow> last_logits rq = Some (target (tok_prompt K rq @ tokens_generated rq))
           | Some ts \<Rightarrow> tokens_generated rq \<noteq> [] \<and> ts = [last (tokens_generated rq)])
      | Done \<Rightarrow> (\<exists>reason. rq_finish rq = Some reason \<and> stopped_right target K rq reason)
      | _ \<Rightarrow> prompt_token_ids rq = tok_prompt K rq \<and> tokens_prefilled rq < length (tok_prompt K rq) \<and>
          tokens_generated rq = [] \<and> pending_decode_tokens rq = None \<and> rq_finish rq = None)"

definition request_right ::
  "token list set \<Rightarrow> (token list \<Rightarrow> 'lg) \<Rightarrow> ('v, 'lg, 'c) sched_config \<Rightarrow> ('lg, 'c) running_request \<Rightarrow> bool" where
  "request_right U target K rq \<longleftrightarrow> rq_spec rq = None \<and> tok_prompt K rq \<in> U \<and>
     output_right target K rq \<and> text_right K rq \<and> queue_right rq \<and> state_right target K rq"

text \<open>What the generated tokens and their output depend on.\<close>

definition same_output :: "('lg, 'c) running_request \<Rightarrow> ('lg, 'c) running_request \<Rightarrow> bool" where
  "same_output rq rq' \<longleftrightarrow> rq_request rq' = rq_request rq \<and> rq_spec rq' = rq_spec rq \<and> cancel_event rq' = cancel_event rq \<and>
     tokens_generated rq' = tokens_generated rq \<and> rq_stream rq' = rq_stream rq \<and> last_text rq' = last_text rq \<and>
     output_queue rq' = output_queue rq \<and> rq_finish rq' = rq_finish rq"

lemma same_outputD:
  assumes "same_output rq rq'"
  shows "text_right K rq' = text_right K rq" "queue_right rq' = queue_right rq" "tok_prompt K rq' = tok_prompt K rq"
    "output_right target K rq' = output_right target K rq" "has_room rq' = has_room rq" "is_greedy rq' = is_greedy rq"
    "request_right U target K rq' \<longleftrightarrow>
       rq_spec rq = None \<and> tok_prompt K rq \<in> U \<and> output_right target K rq \<and> text_right K rq \<and> queue_right rq \<and> state_right target K rq'"
  using assms
  by (simp_all add: same_output_def text_right_def queue_right_def tok_prompt_def output_right_def has_room_def
      is_greedy_def request_right_def cong: option.case_cong)

section \<open>The whole scheduler\<close>

text \<open>The tokens of a slot: what was prefilled, or the prompt and what was fed back.\<close>

definition fed_tokens :: "('lg, 'c) running_request \<Rightarrow> token list" where
  "fed_tokens rq =
     (case pending_decode_tokens rq of None \<Rightarrow> tokens_generated rq | Some _ \<Rightarrow> butlast (tokens_generated rq))"

definition slot_history :: "('lg, 'c) running_request \<Rightarrow> token list" where
  "slot_history rq =
     (if prefilling rq then take (tokens_prefilled rq) (prompt_token_ids rq) else prompt_token_ids rq @ fed_tokens rq)"

definition slot_right :: "('lg, 'c) running_request \<Rightarrow> nat \<Rightarrow> slot \<Rightarrow> bool" where
  "slot_right rq i x \<longleftrightarrow> batch_idx rq = Some i \<and> fst x = prompt_token_ids rq \<and>
     (rq_state rq \<noteq> Done \<longrightarrow> snd x = slot_history rq)"

definition slots :: "('v, 'lg, 'c) sched \<Rightarrow> nat list" where
  "slots s = filter (\<lambda>r. batch_idx (reqs s r) \<noteq> None) (running s)"

definition cache_right :: "(slot list \<Rightarrow> 'v kvs \<Rightarrow> bool) \<Rightarrow> ('v pool \<Rightarrow> bool) \<Rightarrow> ('v, 'lg, 'c) sched \<Rightarrow> bool" where
  "cache_right ok idle s \<longleftrightarrow>
     (case sched_cache s of
        None \<Rightarrow> slots s = [] \<and> idle (sched_pool s)
      | Some c \<Rightarrow> \<exists>sl. ok sl (c, sched_pool s) \<and> length sl = length (slots s) \<and>
          (\<forall>i < length sl. slot_right (reqs s (slots s ! i)) i (sl ! i)))"

lemma cache_rightI:
  assumes "sched_cache s = Some c" "ok sl (c, sched_pool s)" "length sl = length (slots s)"
    "\<And>i. i < length sl \<Longrightarrow> slot_right (reqs s (slots s ! i)) i (sl ! i)"
  shows "cache_right ok idle s"
  using assms by (auto simp: cache_right_def)

lemma cache_rightE:
  assumes "cache_right ok idle s" "sched_cache s = Some c"
  obtains sl where "ok sl (c, sched_pool s)" "length sl = length (slots s)"
    "\<And>i. i < length sl \<Longrightarrow> slot_right (reqs s (slots s ! i)) i (sl ! i)"
  using assms by (auto simp: cache_right_def)

text \<open>A deferred token of a greedy decoder is the choice its logits make.\<close>

definition deferred_right :: "('v, 'lg, 'c) sched_config \<Rightarrow> ('v, 'lg, 'c) sched \<Rightarrow> deferred_tokens \<Rightarrow> bool" where
  "deferred_right K s d \<longleftrightarrow> length (dt_tokens d) = length (dt_requests d) \<and> distinct (dt_requests d) \<and>
     (\<forall>i < length (dt_requests d). let rq = reqs s (dt_requests d ! i) in
        dt_requests d ! i < next_req s \<and>
        (rq_state rq = Decoding \<and> pending_decode_tokens rq = None \<and> is_greedy rq \<longrightarrow>
           (\<exists>row. last_logits rq = Some row \<and> dt_tokens d ! i = argmax (sc_sampler K) row)))"

definition queues_right :: "('v, 'lg, 'c) sched \<Rightarrow> bool" where
  "queues_right s \<longleftrightarrow> distinct (running s @ waiting s) \<and>
     (\<forall>r \<in> set (running s @ waiting s). r < next_req s) \<and>
     (\<forall>r < next_req s. rq_state (reqs s r) = Waiting \<longleftrightarrow> r \<in> set (waiting s)) \<and>
     (\<forall>r < next_req s. rq_state (reqs s r) \<noteq> Waiting \<and> rq_state (reqs s r) \<noteq> Done \<longrightarrow>
        r \<in> set (running s) \<and> batch_idx (reqs s r) \<noteq> None)"

definition sched_inv ::
  "(slot list \<Rightarrow> 'v kvs \<Rightarrow> bool) \<Rightarrow> ('v pool \<Rightarrow> bool) \<Rightarrow> token list set \<Rightarrow> (token list \<Rightarrow> 'lg)
    \<Rightarrow> ('v, 'lg, 'c) sched_config \<Rightarrow> ('v, 'lg, 'c) sched \<Rightarrow> bool" where
  "sched_inv ok idle U target K s \<longleftrightarrow> queues_right s \<and>
     (\<forall>r < next_req s. request_right U target K (reqs s r)) \<and> cache_right ok idle s \<and>
     (\<forall>d. deferred s = Some d \<longrightarrow> deferred_right K s d) \<and> pre_forward s = None"

text \<open>The configuration: no speculation, chunks that are not empty.\<close>

definition plain_config :: "('v, 'lg, 'c) forward \<Rightarrow> digest \<Rightarrow> ('v, 'lg, 'c) sched_config \<Rightarrow> bool" where
  "plain_config forward digest K \<longleftrightarrow> sc_dspark K = None \<and> forward_packed K = forward \<and>
     sc_digest K = digest \<and> 0 < chunk_size K"

lemma sched_invD:
  assumes "sched_inv ok idle U target K s"
  shows "distinct (running s @ waiting s)" "r \<in> set (running s) \<Longrightarrow> r < next_req s"
    "r \<in> set (waiting s) \<Longrightarrow> r < next_req s" "r < next_req s \<Longrightarrow> request_right U target K (reqs s r)"
    "r < next_req s \<Longrightarrow> rq_state (reqs s r) = Waiting \<longleftrightarrow> r \<in> set (waiting s)"
    "r < next_req s \<Longrightarrow> rq_state (reqs s r) \<noteq> Waiting \<Longrightarrow> rq_state (reqs s r) \<noteq> Done \<Longrightarrow>
      r \<in> set (running s) \<and> batch_idx (reqs s r) \<noteq> None"
    "cache_right ok idle s" "deferred s = Some d \<Longrightarrow> deferred_right K s d" "pre_forward s = None" "queues_right s"
proof -
  have q: "queues_right s" and rest: "\<forall>r < next_req s. request_right U target K (reqs s r)" "cache_right ok idle s"
      "\<forall>d. deferred s = Some d \<longrightarrow> deferred_right K s d" "pre_forward s = None"
    using assms unfolding sched_inv_def by blast+
  have q': "distinct (running s @ waiting s)" "\<forall>r \<in> set (running s @ waiting s). r < next_req s"
      "\<forall>r < next_req s. rq_state (reqs s r) = Waiting \<longleftrightarrow> r \<in> set (waiting s)"
      "\<forall>r < next_req s. rq_state (reqs s r) \<noteq> Waiting \<and> rq_state (reqs s r) \<noteq> Done \<longrightarrow>
        r \<in> set (running s) \<and> batch_idx (reqs s r) \<noteq> None"
    using q unfolding queues_right_def by blast+
  show "r \<in> set (running s) \<Longrightarrow> r < next_req s" "r \<in> set (waiting s) \<Longrightarrow> r < next_req s" using q'(2) by simp_all
  show "distinct (running s @ waiting s)" "queues_right s" "pre_forward s = None" "cache_right ok idle s" by fact+
  show "r < next_req s \<Longrightarrow> rq_state (reqs s r) = Waiting \<longleftrightarrow> r \<in> set (waiting s)" using q'(3) by blast
  show "r < next_req s \<Longrightarrow> request_right U target K (reqs s r)" using rest(1) by blast
  show "r < next_req s \<Longrightarrow> rq_state (reqs s r) \<noteq> Waiting \<Longrightarrow> rq_state (reqs s r) \<noteq> Done \<Longrightarrow>
      r \<in> set (running s) \<and> batch_idx (reqs s r) \<noteq> None" using q'(4) by blast
  show "deferred s = Some d \<Longrightarrow> deferred_right K s d" using rest(3) by blast
qed

section \<open>Updating one request\<close>

lemma reqs_upd [simp]: "reqs (upd r f s) r' = (if r' = r then f (reqs s r) else reqs s r')"
  by (simp add: upd_def)

lemma upd_simps [simp]:
  "running (upd r f s) = running s" "waiting (upd r f s) = waiting s" "next_req (upd r f s) = next_req s"
  "sched_cache (upd r f s) = sched_cache s" "sched_pool (upd r f s) = sched_pool s"
  "deferred (upd r f s) = deferred s" "pre_forward (upd r f s) = pre_forward s" "rng (upd r f s) = rng s"
  "engine_thread (upd r f s) = engine_thread s" "crashed (upd r f s) = crashed s"
  "stop_event (upd r f s) = stop_event s" "trace (upd r f s) = trace s" "stopping (upd r f s) = stopping s"
  by (simp_all add: upd_def)

text \<open>What a step may change in a running request: its slot stays what it was.\<close>

definition same_slot :: "('lg, 'c) running_request \<Rightarrow> ('lg, 'c) running_request \<Rightarrow> bool" where
  "same_slot rq rq' \<longleftrightarrow> batch_idx rq' = batch_idx rq \<and> prompt_token_ids rq' = prompt_token_ids rq \<and>
     rq_request rq' = rq_request rq \<and> rq_state rq' \<noteq> Waiting \<and>
     (rq_state rq' \<noteq> Done \<longrightarrow> rq_state rq \<noteq> Done \<and> slot_history rq' = slot_history rq) \<and>
     (rq_state rq' = Decoding \<and> pending_decode_tokens rq' = None \<longrightarrow>
        rq_state rq = Decoding \<and> pending_decode_tokens rq = None \<and> last_logits rq' = last_logits rq)"

lemma slots_upd: "batch_idx (f (reqs s r)) = batch_idx (reqs s r) \<Longrightarrow> slots (upd r f s) = slots s"
  unfolding slots_def upd_simps by (rule filter_cong) auto

lemma inv_upd:
  assumes inv: "sched_inv ok idle U target K s" and r: "r \<in> set (running s)"
    and rq: "request_right U target K (f (reqs s r))" and same: "same_slot (reqs s r) (f (reqs s r))"
  shows "sched_inv ok idle U target K (upd r f s)"
proof -
  note i = sched_invD [OF inv]
  have st: "rq_state (reqs s r) \<noteq> Waiting" using i(1) i(5) [OF i(2) [OF r]] r by auto
  have bi: "batch_idx (f (reqs s r)) = batch_idx (reqs s r)" using same by (simp add: same_slot_def)
  have w: "r \<notin> set (waiting s)" using i(1) r by auto
  have rq': "rq_state (f (reqs s r)) \<noteq> Waiting" "rq_state (f (reqs s r)) \<noteq> Done \<Longrightarrow> rq_state (reqs s r) \<noteq> Done"
    using same by (simp_all add: same_slot_def)
  have "queues_right (upd r f s)"
    unfolding queues_right_def upd_simps
  proof (intro conjI allI impI)
    show "distinct (running s @ waiting s)" "\<forall>r \<in> set (running s @ waiting s). r < next_req s"
      using i(1,2,3) by auto
  next
    fix r' assume r': "r' < next_req s"
    show "rq_state (reqs (upd r f s) r') = Waiting \<longleftrightarrow> r' \<in> set (waiting s)"
      using i(5) [OF r'] w rq'(1) by (cases "r' = r") simp_all
    assume "rq_state (reqs (upd r f s) r') \<noteq> Waiting \<and> rq_state (reqs (upd r f s) r') \<noteq> Done"
    then have "r' \<in> set (running s) \<and> batch_idx (reqs s r') \<noteq> None"
      using i(6) [OF r'] rq'(2) st by (cases "r' = r") simp_all
    then show "r' \<in> set (running s)" "batch_idx (reqs (upd r f s) r') \<noteq> None" using bi by auto
  qed
  moreover have "cache_right ok idle (upd r f s)"
  proof (cases "sched_cache s")
    case None
    then show ?thesis using i(7) slots_upd [of f s r] bi by (simp add: cache_right_def)
  next
    case (Some c)
    then obtain sl where sl: "ok sl (c, sched_pool s)" "length sl = length (slots s)"
        "\<And>i. i < length sl \<Longrightarrow> slot_right (reqs s (slots s ! i)) i (sl ! i)"
      using i(7) by (auto simp: cache_right_def)
    have "slot_right (reqs (upd r f s) (slots s ! i)) i (sl ! i)" if "i < length sl" for i
      using sl(3) [OF that] same by (auto simp: slot_right_def same_slot_def)
    then show ?thesis using sl(1,2) Some slots_upd [of f s r] bi
      unfolding cache_right_def upd_simps by (auto intro!: exI [of _ sl] simp del: reqs_upd)
  qed
  moreover have "deferred_right K (upd r f s) d" if "deferred s = Some d" for d
    using i(8) [OF that] same unfolding deferred_right_def same_slot_def is_greedy_def Let_def by auto
  moreover have "request_right U target K (reqs (upd r f s) r')" if "r' < next_req s" for r'
    using i(4) [OF that] rq by simp
  ultimately show ?thesis using i(9) unfolding sched_inv_def by simp
qed

section \<open>Finishing\<close>

lemma put_dropping_queue:
  assumes "0 < sq_maxsize q" "length (sq_items q) \<le> sq_maxsize q" "\<forall>x \<in> set (sq_items q). gs_finish x = None"
  shows "sq_maxsize (put_dropping x q) = sq_maxsize q" "length (sq_items (put_dropping x q)) \<le> sq_maxsize q"
    "\<forall>y \<in> set (butlast (sq_items (put_dropping x q))). gs_finish y = None"
    "sq_items (put_dropping x q) \<noteq> []" "last (sq_items (put_dropping x q)) = x"
proof -
  have "set (tl (sq_items q)) \<subseteq> set (sq_items q)" by (cases "sq_items q") auto
  then show "sq_maxsize (put_dropping x q) = sq_maxsize q" "length (sq_items (put_dropping x q)) \<le> sq_maxsize q"
    "\<forall>y \<in> set (butlast (sq_items (put_dropping x q))). gs_finish y = None"
    "sq_items (put_dropping x q) \<noteq> []" "last (sq_items (put_dropping x q)) = x"
    using assms put_dropping_items [OF assms(1,2), of x] by (auto simp: butlast_append)
qed

lemma queue_right_put:
  assumes "queue_right rq" "rq_finish rq = None" "gs_finish x = f"
  shows "queue_right (rq\<lparr>output_queue := put_dropping x (output_queue rq), rq_finish := f\<rparr>)"
proof -
  let ?q = "output_queue rq"
  have "\<forall>x \<in> set (sq_items ?q). gs_finish x = None"
  proof (cases "sq_items ?q" rule: rev_cases)
    case (snoc ys y)
    then show ?thesis using assms by (auto simp: queue_right_def)
  qed simp
  from put_dropping_queue [OF _ _ this, of x] assms show ?thesis
    by (simp add: queue_right_def default_output_queue_size_def)
qed

definition finished :: "finish_reason \<Rightarrow> ('lg, 'c) running_request \<Rightarrow> ('lg, 'c) running_request" where
  "finished reason rq = emit (terminal_step reason) (rq\<lparr>rq_finish := Some reason, rq_state := Done\<rparr>)"

lemma finished_sel [simp]:
  "rq_request (finished f rq) = rq_request rq" "rq_state (finished f rq) = Done" "rq_finish (finished f rq) = Some f"
  "batch_idx (finished f rq) = batch_idx rq" "prompt_token_ids (finished f rq) = prompt_token_ids rq"
  "tokens_generated (finished f rq) = tokens_generated rq" "rq_spec (finished f rq) = rq_spec rq"
  "rq_stream (finished f rq) = rq_stream rq" "last_text (finished f rq) = last_text rq"
  "pending_decode_tokens (finished f rq) = pending_decode_tokens rq" "last_logits (finished f rq) = last_logits rq"
  "cancel_event (finished f rq) = cancel_event rq"
  by (simp_all add: finished_def emit_def)

lemma finished_right [simp]:
  "text_right K (finished f rq) = text_right K rq" "output_right target K (finished f rq) = output_right target K rq"
  "tok_prompt K (finished f rq) = tok_prompt K rq"
  by (simp_all add: text_right_def output_right_def is_greedy_def tok_prompt_def split: option.splits)

lemma finish_plain: "rq_spec (reqs s r) = None \<Longrightarrow> finish K r reason s = (Inr (), upd r (finished reason) s)"
  by (simp add: finish_def finish_request_def finished_def upd_def Let_def)

lemma request_finished:
  assumes "request_right U target K rq" "rq_state rq \<noteq> Done" "stopped_right target K rq reason"
  shows "request_right U target K (finished reason rq)" "same_slot rq (finished reason rq)"
proof -
  have fin: "rq_finish rq = None"
    using assms(1,2) by (auto simp: request_right_def state_right_def split: request_state.splits)
  have "queue_right (rq\<lparr>output_queue := put_dropping (terminal_step reason) (output_queue rq), rq_finish := Some reason\<rparr>)"
    by (rule queue_right_put) (use assms fin in \<open>simp_all add: request_right_def terminal_step_def\<close>)
  then have q: "queue_right (finished reason rq)" by (simp add: queue_right_def finished_def emit_def)
  have "stopped_right target K (finished reason rq) reason"
    using assms(3) by (cases reason) (simp_all add: stopped_right_def has_room_def is_greedy_def tok_prompt_def)
  with q show "request_right U target K (finished reason rq)"
    using assms(1) by (simp add: request_right_def state_right_def)
  show "same_slot rq (finished reason rq)" by (simp add: same_slot_def)
qed

lemma inv_finish:
  assumes inv: "sched_inv ok idle U target K s" and r: "r \<in> set (running s)"
    and st: "rq_state (reqs s r) \<noteq> Done" "stopped_right target K (reqs s r) reason"
  shows "finish K r reason s = (Inr (), upd r (finished reason) s)"
    "sched_inv ok idle U target K (upd r (finished reason) s)"
proof -
  have rr: "request_right U target K (reqs s r)" using sched_invD(2,4) [OF inv] r by blast
  show "finish K r reason s = (Inr (), upd r (finished reason) s)"
    by (rule finish_plain) (use rr in \<open>simp add: request_right_def\<close>)
  show "sched_inv ok idle U target K (upd r (finished reason) s)"
    by (rule inv_upd [OF inv r]) (use request_finished [OF rr st] in blast)+
qed

lemma alive_room:
  assumes "request_right U target K rq" "rq_state rq \<noteq> Done"
  shows "has_room rq"
  using assms by (auto simp: request_right_def state_right_def has_room_def split: request_state.splits)

lemma stopped_cancelled: "stopped_right target K rq Cancelled \<longleftrightarrow> has_room rq"
  by (simp add: stopped_right_def)

end
