(* ===== verification/Scheduler_Slots.thy ===== *)
theory Scheduler_Slots
  imports Scheduler_Invariant "HOL-Library.Sublist"
begin

text \<open>
  Cancelling, reaping and admission keep the invariant of the scheduler over any slot store.
\<close>

section \<open>What a step never takes back\<close>

text \<open>The work left of a request: what it can still prefill and generate. Every step that a request takes
  part in lowers it, and it is 0 when the request is done.\<close>

definition tokens_left :: "('lg, 'c) running_request \<Rightarrow> nat" where
  "tokens_left rq = nat (max 1 (max_tokens (rq_request rq))) - length (tokens_generated rq)"

definition work :: "('v, 'lg, 'c) sched_config \<Rightarrow> ('lg, 'c) running_request \<Rightarrow> nat" where
  "work K rq =
     (case rq_state rq of
        Done \<Rightarrow> 0
      | Waiting \<Rightarrow> 2 * tokens_left rq + length (tok_prompt K rq) + 2
      | Decoding \<Rightarrow> 2 * tokens_left rq + (if pending_decode_tokens rq = None then 0 else 1)
      | _ \<Rightarrow> 2 * tokens_left rq + (length (prompt_token_ids rq) - tokens_prefilled rq) + 1)"

text \<open>The steps that a request has put on its output queue: one per token, with the piece of text that the
  stream gives for it, and the terminal step.\<close>

definition token_steps :: "tokenizer \<Rightarrow> token list \<Rightarrow> generation_step list" where
  "token_steps T ts = map (\<lambda>i. text_step (fst (push T [ts ! i] (token_stream T (take i ts)))) 1) [0..<length ts]"

definition sent_steps :: "('v, 'lg, 'c) sched_config \<Rightarrow> ('lg, 'c) running_request \<Rightarrow> generation_step list" where
  "sent_steps K rq = token_steps (sc_tokenizer K) (tokens_generated rq) @
     (if rq_state rq = Done then [terminal_step (the (rq_finish rq))] else [])"

definition sends ::
  "('v, 'lg, 'c) sched_config \<Rightarrow> ('lg, 'c) running_request \<Rightarrow> ('lg, 'c) running_request \<Rightarrow> bool" where
  "sends K rq rq' \<longleftrightarrow> (\<exists>steps. sent_steps K rq' = sent_steps K rq @ steps \<and>
     output_queue rq' = foldl (\<lambda>q step. put_dropping step q) (output_queue rq) steps)"

lemma token_steps_snoc:
  "token_steps T (ts @ [t]) = token_steps T ts @ [text_step (fst (push T [t] (token_stream T ts))) 1]"
  by (simp add: token_steps_def nth_append)

lemma sends_same [simp]:
  assumes "output_queue rq' = output_queue rq" "tokens_generated rq' = tokens_generated rq" "rq_finish rq' = rq_finish rq"
    and "rq_state rq' = Done \<longleftrightarrow> rq_state rq = Done"
  shows "sends K rq rq'"
  using assms by (simp add: sends_def sent_steps_def)

lemma sends_trans: "sends K a b \<Longrightarrow> sends K b c \<Longrightarrow> sends K a c"
  unfolding sends_def by (metis append.assoc foldl_append)

lemmas sends_then_same = sends_trans [OF _ sends_same]

lemma sends_finished [simp]: "rq_state rq \<noteq> Done \<Longrightarrow> sends K rq (finished f rq)"
  by (simp add: sends_def sent_steps_def) (simp add: finished_def emit_def)

definition later_request ::
  "('v, 'lg, 'c) sched_config \<Rightarrow> ('lg, 'c) running_request \<Rightarrow> ('lg, 'c) running_request \<Rightarrow> bool" where
  "later_request K rq rq' \<longleftrightarrow> rq_request rq' = rq_request rq \<and> cancel_event rq' = cancel_event rq \<and>
     prefix (tokens_generated rq) (tokens_generated rq') \<and> sends K rq rq' \<and>
     (rq_state rq = Done \<longrightarrow> rq_state rq' = Done \<and> tokens_generated rq' = tokens_generated rq \<and> rq_finish rq' = rq_finish rq) \<and>
     work K rq' \<le> work K rq"

definition engine_fields :: "('v, 'lg, 'c) sched \<Rightarrow> nat \<times> engine_thread \<times> bool \<times> bool \<times> bool" where
  "engine_fields s = (next_req s, engine_thread s, stop_event s, stopping s, crashed s)"

definition later :: "('v, 'lg, 'c) sched_config \<Rightarrow> ('v, 'lg, 'c) sched \<Rightarrow> ('v, 'lg, 'c) sched \<Rightarrow> bool" where
  "later K s s' \<longleftrightarrow> engine_fields s' = engine_fields s \<and> (\<forall>r. later_request K (reqs s r) (reqs s' r))"

lemma later_refl [simp]: "later_request K rq rq" "later K s s"
  by (simp_all add: later_def later_request_def)

lemma later_request_trans: "later_request K a b \<Longrightarrow> later_request K b c \<Longrightarrow> later_request K a c"
  unfolding later_request_def by (auto intro: prefix_order.trans le_trans sends_trans)

lemma later_trans [trans]: "later K s s' \<Longrightarrow> later K s' s'' \<Longrightarrow> later K s s''"
  using later_request_trans unfolding later_def by metis

lemma later_upd: "later_request K (reqs s r) (f (reqs s r)) \<Longrightarrow> later K s (upd r f s)"
  by (simp add: later_def engine_fields_def upd_def)

lemma later_finished [simp]: "rq_state rq \<noteq> Done \<Longrightarrow> later_request K rq (finished f rq)"
  by (simp add: later_request_def work_def)

lemma has_room_left: "has_room rq \<longleftrightarrow> 0 < tokens_left rq"
  by (auto simp: has_room_def tokens_left_def)

lemma work_alive: "request_right U target K rq \<Longrightarrow> rq_state rq \<noteq> Done \<Longrightarrow> 0 < work K rq"
  using alive_room [of U target K rq] by (cases "rq_state rq") (simp_all add: work_def has_room_left)

lemma later_fields: "later K s s' \<Longrightarrow> next_req s' = next_req s"
  by (simp add: later_def engine_fields_def)

text \<open>Loops over requests: the body returns and keeps a property.\<close>

lemma for_each_keeps:
  assumes "I s" "\<And>x s. x \<in> set xs \<Longrightarrow> I s \<Longrightarrow> \<exists>s'. f x s = (Inr (), s') \<and> I s'"
  shows "\<exists>s'. for_each f xs s = (Inr (), s') \<and> I s'"
  using assms
proof (induction xs arbitrary: s)
  case (Cons x xs)
  obtain s1 where "f x s = (Inr (), s1)" "I s1" using Cons.prems(2) [OF list.set_intros(1) Cons.prems(1)] by blast
  then show ?case using Cons.IH [of s1] Cons.prems(2) by auto
qed simp

section \<open>Cancelling\<close>

lemma cancel_pending_ok:
  assumes inv: "sched_inv ok idle U target K s"
  shows "\<exists>s'. cancel_pending K s = (Inr (), s') \<and> sched_inv ok idle U target K s' \<and> later K s s' \<and>
    running s' = running s \<and> waiting s' = waiting s \<and> deferred s' = deferred s"
proof -
  let ?I = "\<lambda>s'. sched_inv ok idle U target K s' \<and> later K s s' \<and> running s' = running s \<and> waiting s' = waiting s \<and>
    deferred s' = deferred s"
  have "\<exists>s'. for_each (\<lambda>r s. if cancel_event (reqs s r) \<and> rq_state (reqs s r) \<noteq> Done
        then finish K r Cancelled s else (Inr (), s)) (running s) s = (Inr (), s') \<and> ?I s'"
  proof (rule for_each_keeps)
    show "?I s" using inv by simp
    fix r s1 assume r: "r \<in> set (running s)" and I: "?I s1"
    show "\<exists>s'. (if cancel_event (reqs s1 r) \<and> rq_state (reqs s1 r) \<noteq> Done then finish K r Cancelled s1 else (Inr (), s1)) =
        (Inr (), s') \<and> ?I s'"
    proof (cases "cancel_event (reqs s1 r) \<and> rq_state (reqs s1 r) \<noteq> Done")
      case True
      have r1: "r \<in> set (running s1)" using r I by simp
      have "request_right U target K (reqs s1 r)" using sched_invD(2,4) I r1 by metis
      then have "stopped_right target K (reqs s1 r) Cancelled" using True alive_room by (metis stopped_cancelled)
      then show ?thesis
        using inv_finish [OF conjunct1 [OF I] r1] True I later_trans [OF _ later_upd [of K s1 r "finished Cancelled"]]
        by auto
    qed (use I in auto)
  qed
  then show ?thesis by (simp add: cancel_pending_def)
qed

section \<open>Reaping\<close>

lemma remove1_index: "distinct xs \<Longrightarrow> i < length xs \<Longrightarrow> remove1 (xs ! i) xs = remove_at i xs"
proof (induction xs arbitrary: i)
  case (Cons x xs)
  then show ?case by (cases i) (auto simp: remove_at_def)
qed simp

lemma shift_after_sel [simp]:
  "rq_request (shift_after b rq) = rq_request rq" "rq_state (shift_after b rq) = rq_state rq"
  "rq_finish (shift_after b rq) = rq_finish rq" "prompt_token_ids (shift_after b rq) = prompt_token_ids rq"
  "tokens_generated (shift_after b rq) = tokens_generated rq" "rq_spec (shift_after b rq) = rq_spec rq"
  "rq_stream (shift_after b rq) = rq_stream rq" "last_text (shift_after b rq) = last_text rq"
  "pending_decode_tokens (shift_after b rq) = pending_decode_tokens rq" "last_logits (shift_after b rq) = last_logits rq"
  "cancel_event (shift_after b rq) = cancel_event rq" "output_queue (shift_after b rq) = output_queue rq"
  "tokens_prefilled (shift_after b rq) = tokens_prefilled rq"
  "batch_idx (shift_after b rq) = None \<longleftrightarrow> batch_idx rq = None"
  by (auto simp: shift_after_def split: option.splits)

lemma right_batch_idx [simp]:
  "text_right K (rq\<lparr>batch_idx := b\<rparr>) = text_right K rq" "output_right target K (rq\<lparr>batch_idx := b\<rparr>) = output_right target K rq"
  "queue_right (rq\<lparr>batch_idx := b\<rparr>) = queue_right rq" "has_room (rq\<lparr>batch_idx := b\<rparr>) = has_room rq"
  "tok_prompt K (rq\<lparr>batch_idx := b\<rparr>) = tok_prompt K rq" "is_greedy (rq\<lparr>batch_idx := b\<rparr>) = is_greedy rq"
  by (simp_all add: text_right_def output_right_def queue_right_def has_room_def tok_prompt_def is_greedy_def
      cong: option.case_cong)

lemma stopped_batch_idx [simp]: "stopped_right target K (rq\<lparr>batch_idx := b\<rparr>) f = stopped_right target K rq f"
  by (cases f) (simp_all add: stopped_right_def)

text \<open>Two requests that differ in their slot index only.\<close>

definition same_but_slot :: "('lg, 'c) running_request \<Rightarrow> ('lg, 'c) running_request \<Rightarrow> bool" where
  "same_but_slot rq rq' \<longleftrightarrow> (\<exists>b. rq' = rq\<lparr>batch_idx := b\<rparr>) \<and> (batch_idx rq' = None \<longleftrightarrow> batch_idx rq = None)"

lemma same_but_slot_refl [simp]: "same_but_slot rq rq"
  by (simp add: same_but_slot_def) (metis running_request.surjective running_request.update_convs(5))

lemma same_but_slot_trans: "same_but_slot a b \<Longrightarrow> same_but_slot b c \<Longrightarrow> same_but_slot a c"
  by (auto simp: same_but_slot_def)

lemma same_but_slotD:
  assumes "same_but_slot rq rq'"
  shows "rq_request rq' = rq_request rq" "rq_state rq' = rq_state rq" "rq_finish rq' = rq_finish rq"
    "prompt_token_ids rq' = prompt_token_ids rq" "tokens_generated rq' = tokens_generated rq" "rq_spec rq' = rq_spec rq"
    "pending_decode_tokens rq' = pending_decode_tokens rq" "last_logits rq' = last_logits rq"
    "cancel_event rq' = cancel_event rq" "slot_history rq' = slot_history rq" "later_request K rq rq'"
    "request_right U target K rq' = request_right U target K rq" "batch_idx rq' = None \<longleftrightarrow> batch_idx rq = None"
    "prefilling rq' = prefilling rq" "output_queue rq' = output_queue rq"
proof -
  obtain b where b: "rq' = rq\<lparr>batch_idx := b\<rparr>" "b = None \<longleftrightarrow> batch_idx rq = None"
    using assms by (auto simp: same_but_slot_def)
  show "request_right U target K rq' = request_right U target K rq"
    using b(2) by (cases "rq_state rq") (simp_all add: b(1) request_right_def state_right_def cong: option.case_cong)
  have "slot_history rq' = slot_history rq"
    by (simp add: b(1) slot_history_def fed_tokens_def prefilling_def cong: option.case_cong)
  moreover have "work K rq' = work K rq" by (simp add: b(1) work_def tokens_left_def cong: request_state.case_cong)
  ultimately show "rq_request rq' = rq_request rq" "rq_state rq' = rq_state rq" "rq_finish rq' = rq_finish rq"
    "prompt_token_ids rq' = prompt_token_ids rq" "tokens_generated rq' = tokens_generated rq" "rq_spec rq' = rq_spec rq"
    "pending_decode_tokens rq' = pending_decode_tokens rq" "last_logits rq' = last_logits rq"
    "cancel_event rq' = cancel_event rq" "slot_history rq' = slot_history rq" "later_request K rq rq'"
    "batch_idx rq' = None \<longleftrightarrow> batch_idx rq = None" "prefilling rq' = prefilling rq" "output_queue rq' = output_queue rq"
    using b(2) by (simp_all add: b(1) later_request_def prefilling_def)
qed

lemma same_but_slot_shift: "same_but_slot rq (shift_after b rq)"
  by (auto simp: same_but_slot_def shift_after_def split: option.splits)
    (metis running_request.surjective running_request.update_convs(5))+

lemma cache_right_cong:
  assumes "cache_right ok idle s" "sched_cache s' = sched_cache s" "sched_pool s' = sched_pool s" "slots s' = slots s"
    and "\<And>r i x. r \<in> set (slots s) \<Longrightarrow> slot_right (reqs s r) i x \<Longrightarrow> slot_right (reqs s' r) i x"
  shows "cache_right ok idle s'"
proof (cases "sched_cache s")
  case None
  then show ?thesis using assms(1-4) by (simp add: cache_right_def)
next
  case (Some c)
  then obtain sl where sl: "ok sl (c, sched_pool s)" "length sl = length (slots s)"
      "\<And>i. i < length sl \<Longrightarrow> slot_right (reqs s (slots s ! i)) i (sl ! i)"
    using assms(1) by (auto simp: cache_right_def)
  moreover have "slot_right (reqs s' (slots s ! i)) i (sl ! i)" if "i < length sl" for i
    using assms(5) [OF nth_mem sl(3) [OF that]] that sl(2) by simp
  ultimately show ?thesis using assms(2-4) Some by (auto simp: cache_right_def)
qed

text \<open>The invariant after a change that leaves each request but its slot index, and the cache right.\<close>

lemma inv_same_but_slot:
  assumes inv: "sched_inv ok idle U target K s"
    and same: "\<And>r. same_but_slot (reqs s r) (reqs s' r)"
    and q: "waiting s' = waiting s" "next_req s' = next_req s" "pre_forward s' = pre_forward s"
    and run: "distinct (running s')" "set (running s') \<subseteq> set (running s)"
      "\<And>r. r \<in> set (running s) \<Longrightarrow> rq_state (reqs s r) \<noteq> Done \<Longrightarrow> r \<in> set (running s')"
    and cache: "cache_right ok idle s'" and d: "deferred s' = deferred s \<or> deferred s' = None"
  shows "sched_inv ok idle U target K s'"
proof -
  note i = sched_invD [OF inv] and sd = same_but_slotD [OF same]
  have "queues_right s'"
    unfolding queues_right_def q sd
  proof (intro conjI ballI allI impI)
    show "distinct (running s' @ waiting s)" using i(1) run(1,2) by auto
    show "r < next_req s" if "r \<in> set (running s' @ waiting s)" for r using i(2,3) run(2) that by auto
    show "rq_state (reqs s r) = Waiting \<longleftrightarrow> r \<in> set (waiting s)" if "r < next_req s" for r using i(5) [OF that] .
    fix r assume r: "r < next_req s" "rq_state (reqs s r) \<noteq> Waiting \<and> rq_state (reqs s r) \<noteq> Done"
    then have "r \<in> set (running s)" "batch_idx (reqs s r) \<noteq> None" using i(6) [OF r(1)] by blast+
    then show "r \<in> set (running s')" "batch_idx (reqs s r) \<noteq> None" using run(3) r(2) by simp_all
  qed
  moreover have "deferred_right K s' d'" if "deferred s' = Some d'" for d'
    using i(8) [of d'] d that sd(1,2,7,8) unfolding deferred_right_def Let_def q is_greedy_def by auto
  moreover have "request_right U target K (reqs s' r)" if "r < next_req s" for r
    using i(4) [OF that] same_but_slotD(12) [OF same] by metis
  ultimately show ?thesis using i(9) cache q unfolding sched_inv_def by simp
qed

context slot_store begin

lemma idle_running:
  assumes "sched_inv ok idle U target K s" "running s = []"
  shows "idle (sched_pool s)"
  using sched_invD(7) [OF assms(1)] assms(2) stop by (auto simp: cache_right_def slots_def split: option.splits)

lemma reap_one_ok:
  assumes inv: "sched_inv ok idle U target K s" and r: "r \<in> set (running s)" and fin: "rq_state (reqs s r) = Done"
  shows "\<exists>s'. reap_one r s = (Inr (), s') \<and> sched_inv ok idle U target K s' \<and>
    running s' = remove1 r (running s) \<and> waiting s' = waiting s \<and> deferred s' = deferred s \<and>
    engine_fields s' = engine_fields s \<and> (\<forall>r. same_but_slot (reqs s r) (reqs s' r))"
proof -
  note i = sched_invD [OF inv]
  have spec: "rq_spec (reqs s r) = None" using i(4) [OF i(2) [OF r]] by (simp add: request_right_def)
  have drun: "distinct (running s)" using i(1) by simp
  show ?thesis
  proof (cases "batch_idx (reqs s r)")
    case None
    define s' where "s' = (upd r (\<lambda>rq. rq\<lparr>rq_spec := None\<rparr>) s)\<lparr>running := remove1 r (running s)\<rparr>"
    have same: "reqs s' = reqs s" using spec by (auto simp: fun_eq_iff s'_def)
    have sel: "running s' = remove1 r (running s)" "waiting s' = waiting s" "sched_cache s' = sched_cache s"
        "sched_pool s' = sched_pool s" "deferred s' = deferred s" "engine_fields s' = engine_fields s"
        "next_req s' = next_req s" "pre_forward s' = pre_forward s"
      by (simp_all add: s'_def engine_fields_def)
    have "slots s' = slots s"
      using None drun unfolding slots_def same sel by (simp add: filter_remove1 remove1_idem)
    then have "cache_right ok idle s'" by (intro cache_right_cong [OF i(7)]) (simp_all add: sel same)
    then have "sched_inv ok idle U target K s'"
      by (intro inv_same_but_slot [OF inv]) (use drun fin set_remove1_subset sel same in \<open>auto simp: in_set_remove1\<close>)
    moreover have "reap_one r s = (Inr (), s')" using None by (simp add: reap_one_def seq_def ret_def modify_def s'_def)
    ultimately show ?thesis using same sel by auto
  next
    case (Some b)
    have dslots: "distinct (slots s)" using drun by (simp add: slots_def)
    have rs: "r \<in> set (slots s)" using r Some by (simp add: slots_def)
    then obtain c sl where c: "sched_cache s = Some c" "ok sl (c, sched_pool s)" "length sl = length (slots s)"
        "\<And>i. i < length sl \<Longrightarrow> slot_right (reqs s (slots s ! i)) i (sl ! i)"
      using i(7) by (cases "sched_cache s") (auto simp: cache_right_def)
    obtain j where j: "j < length (slots s)" "slots s ! j = r" using rs by (metis in_set_conv_nth)
    then have b: "b < length sl" "slots s ! b = r" using c(3) c(4) [of j] Some by (auto simp: slot_right_def)
    obtain c' P' where rem: "remove_request b (c, sched_pool s) = (Inr (), (c', P'))" "ok (remove_at b sl) (c', P')"
      using leave [OF c(2) b(1)] by fastforce
    define s' where "s' = (upd r (\<lambda>rq. rq\<lparr>rq_spec := None\<rparr>) (shift_survivors r b (s\<lparr>sched_cache := Some c', sched_pool := P'\<rparr>)))
      \<lparr>running := remove1 r (running s)\<rparr>"
    have eq: "reap_one r s = (Inr (), s')"
      using Some c(1) rem(1)
      by (simp add: reap_one_def seq_def ret_def modify_def on_kvs_def s'_def shift_survivors_def upd_def)
    have reqs: "reqs s' x = (if x \<in> set (running s) \<and> x \<noteq> r then shift_after b (reqs s x) else reqs s x)" for x
      using spec by (auto simp: s'_def shift_survivors_def)
    have sel: "running s' = remove1 r (running s)" "waiting s' = waiting s" "sched_cache s' = Some c'"
        "sched_pool s' = P'" "deferred s' = deferred s" "engine_fields s' = engine_fields s"
        "next_req s' = next_req s" "pre_forward s' = pre_forward s"
      by (simp_all add: s'_def engine_fields_def shift_survivors_def)
    have same: "same_but_slot (reqs s x) (reqs s' x)" for x
      by (simp add: reqs same_but_slot_shift)
    have "slots s' = filter (\<lambda>x. batch_idx (reqs s x) \<noteq> None) (remove1 r (running s))"
      unfolding slots_def by (rule filter_cong) (use same_but_slotD(13) [OF same] in \<open>auto simp: sel\<close>)
    also have "\<dots> = remove1 r (slots s)" by (simp add: slots_def filter_remove1)
    finally have slots: "slots s' = remove_at b (slots s)"
      using remove1_index [OF dslots, of b] b c(3) by simp
    have "slot_right (reqs s' (slots s' ! k)) k (remove_at b sl ! k)" if k: "k < length (remove_at b sl)" for k
    proof -
      define j where "j = (if k < b then k else Suc k)"
      have jl: "j < length sl" "j \<noteq> b" using k b(1) by (auto simp: j_def)
      have at: "slots s' ! k = slots s ! j" "remove_at b sl ! k = sl ! j"
        using k b(1) c(3) by (simp_all add: slots j_def nth_remove_at)
      have ne: "slots s ! j \<noteq> r" using dslots jl b c(3) by (metis nth_eq_iff_index_eq)
      have "slots s ! j \<in> set (slots s)" using jl c(3) by simp
      then have "slots s ! j \<in> set (running s)" by (simp add: slots_def)
      then have "reqs s' (slots s ! j) = shift_after b (reqs s (slots s ! j))" using ne by (simp add: reqs)
      moreover have "batch_idx (reqs s (slots s ! j)) = Some j" using c(4) [OF jl(1)] by (simp add: slot_right_def)
      then have "batch_idx (shift_after b (reqs s (slots s ! j))) = Some k"
        using jl(2) by (auto simp: shift_after_def j_def split: if_splits)
      ultimately show ?thesis using c(4) [OF jl(1)]
        unfolding at by (simp add: slot_right_def same_but_slotD(10) [OF same_but_slot_shift])
    qed
    then have "cache_right ok idle s'"
      using rem(2) c(3) b(1) slots unfolding cache_right_def sel by (auto intro!: exI [of _ "remove_at b sl"])
    then have "sched_inv ok idle U target K s'"
      by (intro inv_same_but_slot [OF inv same]) (use drun fin set_remove1_subset in \<open>auto simp: in_set_remove1 sel\<close>)
    then show ?thesis using eq same sel by auto
  qed
qed

lemma reap_done_ok:
  assumes inv: "sched_inv ok idle U target K s"
  shows "\<exists>s'. reap_done s = (Inr (), s') \<and> sched_inv ok idle U target K s' \<and>
    running s' = filter (\<lambda>r. rq_state (reqs s r) \<noteq> Done) (running s) \<and> waiting s' = waiting s \<and>
    (deferred s' = deferred s \<or> deferred s' = None) \<and>
    engine_fields s' = engine_fields s \<and> (\<forall>r. same_but_slot (reqs s r) (reqs s' r)) \<and>
    (running s' = [] \<longrightarrow> sched_cache s' = None) \<and> (running s' \<noteq> [] \<longrightarrow> deferred s' = deferred s)"
proof -
  let ?done = "filter (\<lambda>r. rq_state (reqs s r) = Done) (running s)"
  have d: "set (done_order s) = set ?done" "distinct (done_order s)"
    using sched_invD(1) [OF inv] by (simp_all add: done_order_def)
  define I where "I = (\<lambda>gone s1. sched_inv ok idle U target K s1 \<and> waiting s1 = waiting s \<and> deferred s1 = deferred s \<and>
    running s1 = filter (\<lambda>r. r \<notin> set gone) (running s) \<and>
    engine_fields s1 = engine_fields s \<and> (\<forall>r. same_but_slot (reqs s r) (reqs s1 r)))"
  have "\<exists>s1. for_each reap_one xs s0 = (Inr (), s1) \<and> I (gone @ xs) s1"
    if "I gone s0" "distinct (gone @ xs)" "set (gone @ xs) \<subseteq> set ?done" for gone xs s0
    using that
  proof (induction xs arbitrary: gone s0)
    case (Cons x xs)
    note I = Cons.prems(1) [unfolded I_def]
    have x: "x \<in> set (running s0)" "rq_state (reqs s0 x) = Done"
      using I Cons.prems(2,3) same_but_slotD(2) [of "reqs s x" "reqs s0 x"] by auto
    obtain s1 where s1: "reap_one x s0 = (Inr (), s1)" "sched_inv ok idle U target K s1"
        "running s1 = remove1 x (running s0)" "waiting s1 = waiting s0" "deferred s1 = deferred s0"
        "engine_fields s1 = engine_fields s0" "\<And>r. same_but_slot (reqs s0 r) (reqs s1 r)"
      using reap_one_ok [OF conjunct1 [OF I] x] by blast
    have "distinct (running s)" using sched_invD(1) [OF inv] by simp
    then have "running s1 = filter (\<lambda>r. r \<notin> set (gone @ [x])) (running s)"
      using s1(3) I by (simp add: distinct_remove1_removeAll removeAll_filter_not_eq) (metis (mono_tags, lifting))
    then have "I (gone @ [x]) s1" using s1 I same_but_slot_trans unfolding I_def by metis
    from Cons.IH [OF this] Cons.prems(2,3) s1(1) show ?case by auto
  qed simp
  from this [of "[]" s "done_order s"] d inv obtain s1 where s1: "for_each reap_one (done_order s) s = (Inr (), s1)" "I (done_order s) s1"
    by (auto simp: I_def)
  have run: "running s1 = filter (\<lambda>r. rq_state (reqs s r) \<noteq> Done) (running s)"
    using s1(2) d(1) unfolding I_def by (auto intro: filter_cong)
  let ?s = "drop_empty_cache s1"
  have eq: "reap_done s = (Inr (), ?s)" using s1(1) by (simp add: reap_done_def seq_def modify_def)
  show ?thesis
  proof (cases "running s1 = [] \<and> sched_cache s1 \<noteq> None")
    case False
    then have "?s = s1" by (auto simp: drop_empty_cache_def)
    then show ?thesis using eq s1(2) run False unfolding I_def by metis
  next
    case True
    then have s: "?s = s1\<lparr>sched_cache := None, deferred := None\<rparr>" by (simp add: drop_empty_cache_def)
    have I: "sched_inv ok idle U target K s1" using s1(2) by (simp add: I_def)
    obtain c where c: "sched_cache s1 = Some c" using True by blast
    then have "ok [] (c, sched_pool s1)"
      using sched_invD(7) [OF I] True by (auto simp: cache_right_def slots_def)
    then have "cache_right ok idle ?s" using stop True by (simp add: cache_right_def s slots_def)
    then have "sched_inv ok idle U target K ?s"
      by (intro inv_same_but_slot [OF I]) (use True sched_invD(1) [OF I] in \<open>simp_all add: s\<close>)
    then show ?thesis using eq s1(2) run True unfolding I_def by (auto simp: s engine_fields_def)
  qed
qed

end

end
