(* ===== verification/Scheduler_Admission.thy ===== *)
theory Scheduler_Admission
  imports Scheduler_Slots
begin

text \<open>
  Admission keeps the invariant: a waiting request is ended on the spot, put back, or gets a slot that
  starts with the cached part of its prompt.
\<close>

lemma queue_items_waiting:
  "request_right U target K rq \<Longrightarrow> rq_state rq = Waiting \<Longrightarrow> stopped_right target K rq Cancelled"
  by (simp add: request_right_def state_right_def stopped_cancelled has_room_def)

text \<open>A request moves from the head of the waiting queue to the end of the running list.\<close>

lemma inv_join:
  assumes inv: "sched_inv ok idle U target K s" and w: "waiting s = r # rs"
    and s': "reqs s' = (reqs s)(r := rq)" "running s' = running s @ [r]" "waiting s' = rs"
      "next_req s' = next_req s" "deferred s' = deferred s" "pre_forward s' = pre_forward s"
    and rq: "request_right U target K rq" "rq_state rq \<noteq> Waiting" "rq_state rq \<noteq> Decoding"
      "rq_state rq \<noteq> Done \<Longrightarrow> batch_idx rq \<noteq> None"
    and cache: "cache_right ok idle s'"
  shows "sched_inv ok idle U target K s'"
proof -
  note i = sched_invD [OF inv]
  have r: "r < next_req s" "r \<notin> set rs" "r \<notin> set (running s)" using i(1,3) w by auto
  have "queues_right s'"
    unfolding queues_right_def s'
  proof (intro conjI ballI allI impI)
    show "distinct ((running s @ [r]) @ rs)" using i(1) w by auto
    show "x < next_req s" if "x \<in> set ((running s @ [r]) @ rs)" for x using i(2,3) w that by auto
    show "rq_state (((reqs s)(r := rq)) x) = Waiting \<longleftrightarrow> x \<in> set rs" if "x < next_req s" for x
      using i(5) [OF that] rq(2) r w by auto
    fix x assume x: "x < next_req s" "rq_state (((reqs s)(r := rq)) x) \<noteq> Waiting \<and> rq_state (((reqs s)(r := rq)) x) \<noteq> Done"
    then show "x \<in> set (running s @ [r])" "batch_idx (((reqs s)(r := rq)) x) \<noteq> None"
      using i(6) [OF x(1)] rq(4) by (auto split: if_splits)
  qed
  moreover have "deferred_right K s' d" if "deferred s = Some d" for d
    using i(8) [OF that] rq(3) unfolding deferred_right_def s' Let_def by auto
  moreover have "request_right U target K (reqs s' x)" if "x < next_req s" for x
    using i(4) [OF that] rq(1) s'(1) by simp
  ultimately show ?thesis using i(9) cache s' unfolding sched_inv_def by simp
qed

text \<open>A request that stays in the waiting queue, wherever it goes in it.\<close>

lemma inv_requeue:
  assumes inv: "sched_inv ok idle U target K s" and r: "r \<in> set (waiting s)"
    and s': "reqs s' = (reqs s)(r := rq)" "running s' = running s" "set (waiting s') = set (waiting s)" "distinct (waiting s')"
      "next_req s' = next_req s" "deferred s' = deferred s" "pre_forward s' = pre_forward s"
      "sched_cache s' = sched_cache s" "sched_pool s' = sched_pool s"
    and rq: "request_right U target K rq" "rq_state rq = Waiting"
  shows "sched_inv ok idle U target K s'"
proof -
  note i = sched_invD [OF inv]
  have rr: "r < next_req s" "r \<notin> set (running s)" "rq_state (reqs s r) = Waiting"
    using i(1,3) i(5) [OF i(3) [OF r]] r by auto
  have "queues_right s'"
    unfolding queues_right_def s'
  proof (intro conjI ballI allI impI)
    show "distinct (running s @ waiting s')" using i(1) s'(3,4) by auto
    show "x < next_req s" if "x \<in> set (running s @ waiting s')" for x using i(2,3) s'(3) that by auto
    show "rq_state (((reqs s)(r := rq)) x) = Waiting \<longleftrightarrow> x \<in> set (waiting s)" if "x < next_req s" for x
      using i(5) [OF that] rq(2) r by auto
    fix x assume x: "x < next_req s" "rq_state (((reqs s)(r := rq)) x) \<noteq> Waiting \<and> rq_state (((reqs s)(r := rq)) x) \<noteq> Done"
    then show "x \<in> set (running s)" "batch_idx (((reqs s)(r := rq)) x) \<noteq> None"
      using i(6) [OF x(1)] rq(2) by (auto split: if_splits)
  qed
  moreover have "slots s' = slots s"
    unfolding slots_def s' by (rule filter_cong) (use rr(2) in auto)
  then have "cache_right ok idle s'"
    by (intro cache_right_cong [OF i(7)]) (use rr(2) s' in \<open>auto simp: slots_def\<close>)
  moreover have "deferred_right K s' d" if "deferred s = Some d" for d
    using i(8) [OF that] rq(2) unfolding deferred_right_def s' Let_def by auto
  moreover have "request_right U target K (reqs s' x)" if "x < next_req s" for x
    using i(4) [OF that] rq(1) s'(1) by simp
  ultimately show ?thesis using i(9) s' unfolding sched_inv_def by simp
qed

text \<open>The request with its prompt encoded.\<close>

definition encoded :: "('v, 'lg, 'c) sched_config \<Rightarrow> ('lg, 'c) running_request \<Rightarrow> ('lg, 'c) running_request" where
  "encoded K rq = rq\<lparr>prompt_token_ids := tok_prompt K rq, rq_spec := None\<rparr>"

lemma encoded_right:
  assumes "request_right U target K rq" "rq_state rq = Waiting"
  shows "request_right U target K (encoded K rq)" "rq_state (encoded K rq) = Waiting"
    "batch_idx (encoded K rq) = None" "tokens_generated (encoded K rq) = []" "tok_prompt K (encoded K rq) = tok_prompt K rq"
    "prompt_token_ids (encoded K rq) = tok_prompt K rq" "later_request K rq (encoded K rq)"
proof -
  have "same_output rq (encoded K rq)" using assms by (simp add: same_output_def encoded_def request_right_def)
  note eq = same_outputD [OF this]
  show "request_right U target K (encoded K rq)"
    using assms unfolding eq by (simp add: request_right_def state_right_def encoded_def)
  show "rq_state (encoded K rq) = Waiting" "batch_idx (encoded K rq) = None" "tokens_generated (encoded K rq) = []"
    "tok_prompt K (encoded K rq) = tok_prompt K rq" "prompt_token_ids (encoded K rq) = tok_prompt K rq"
    "later_request K rq (encoded K rq)"
    using assms eq(3) [of K]
    by (simp_all add: encoded_def request_right_def state_right_def later_request_def work_def tokens_left_def)
qed

text \<open>What admission does to the rest of the scheduler.\<close>

definition admitted :: "('v, 'lg, 'c) sched_config \<Rightarrow> ('v, 'lg, 'c) sched \<Rightarrow> nat list \<Rightarrow> nat list \<Rightarrow> ('v, 'lg, 'c) sched \<Rightarrow> bool" where
  "admitted K s new ws s' \<longleftrightarrow> later K s s' \<and> deferred s' = deferred s \<and> running s' = running s @ new \<and> waiting s' = ws \<and>
     (\<forall>r \<in> set (running s). reqs s' r = reqs s r) \<and>
     set ws \<subseteq> set (waiting s) \<and>
     (\<forall>r \<in> set new. r \<in> set (waiting s) \<and> rq_state (reqs s' r) \<noteq> Decoding \<and> work K (reqs s' r) < work K (reqs s r))"

lemma admitted_none: "admitted K s [] (waiting s) s"
  by (simp add: admitted_def)

lemma admitted_trans:
  assumes a: "admitted K s new ws s1" and b: "admitted K s1 new' ws' s'"
  shows "admitted K s (new @ new') ws' s'"
proof -
  have l: "later K s s1" "later K s1 s'" using a b by (simp_all add: admitted_def)
  then have "work K (reqs s1 r) \<le> work K (reqs s r)" for r by (simp add: later_def later_request_def)
  then have "work K (reqs s' r) < work K (reqs s r)" if "r \<in> set new'" for r
    using b that by (auto simp: admitted_def intro: less_le_trans)
  then show ?thesis using a b later_trans [OF l] by (auto simp: admitted_def)
qed

context slot_store begin

lemma ended_ok:
  assumes inv: "sched_inv ok idle U target K s" and w: "waiting s = r # rs"
    and rq: "request_right U target K rq" "rq_state rq = Waiting" "batch_idx rq = None" "stopped_right target K rq reason"
      "later_request K (reqs s r) rq"
  shows "\<exists>s'. end_on_the_spot K r reason ((upd r (\<lambda>_. rq) s)\<lparr>waiting := rs\<rparr>) = (Inr Ended, s') \<and>
    sched_inv ok idle U target K s' \<and> admitted K s [r] rs s'"
proof -
  define s' where "s' = (upd r (finished reason) (upd r (\<lambda>_. rq) s))\<lparr>waiting := rs, running := running s @ [r]\<rparr>"
  have sel: "reqs s' = (reqs s)(r := finished reason rq)" "running s' = running s @ [r]" "waiting s' = rs"
      "next_req s' = next_req s" "deferred s' = deferred s" "pre_forward s' = pre_forward s"
      "sched_cache s' = sched_cache s" "sched_pool s' = sched_pool s" "engine_fields s' = engine_fields s"
    by (auto simp: s'_def fun_eq_iff engine_fields_def)
  have fin: "request_right U target K (finished reason rq)" using request_finished [OF rq(1) _ rq(4)] rq(2) by simp
  have spec: "rq_spec rq = None" using rq(1) by (simp add: request_right_def)
  have run: "r \<notin> set (running s)" using sched_invD(1) [OF inv] w by auto
  have eq: "end_on_the_spot K r reason ((upd r (\<lambda>_. rq) s)\<lparr>waiting := rs\<rparr>) = (Inr Ended, s')"
  proof -
    have "finish K r reason ((upd r (\<lambda>_. rq) s)\<lparr>waiting := rs\<rparr>) =
        (Inr (), upd r (finished reason) ((upd r (\<lambda>_. rq) s)\<lparr>waiting := rs\<rparr>))"
      by (rule finish_plain) (use spec in simp)
    then show ?thesis by (simp add: end_on_the_spot_def seq_def s'_def upd_def)
  qed
  have "slots s' = slots s"
    using run rq(3) unfolding slots_def sel by (auto intro: filter_cong)
  then have "cache_right ok idle s'"
    by (intro cache_right_cong [OF sched_invD(7) [OF inv]]) (use run sel in \<open>auto simp: slots_def\<close>)
  then have "sched_inv ok idle U target K s'"
    by (intro inv_join [OF inv w sel(1-6) fin]) (use rq(3) in simp_all)
  moreover have "later_request K (reqs s r) (finished reason rq)"
    using rq(2,5) later_finished later_request_trans by fastforce
  moreover have "work K (finished reason rq) < work K (reqs s r)"
  proof -
    have n: "r < next_req s" "rq_state (reqs s r) = Waiting" using sched_invD(3,5) [OF inv, of r] w by auto
    show ?thesis using work_alive [OF sched_invD(4) [OF inv n(1)]] n(2) by (simp add: work_def [of K "finished reason rq"])
  qed
  ultimately show ?thesis
    using eq sel run w by (auto simp: admitted_def later_def)
qed

lemma seat_ok:
  assumes inv: "sched_inv ok idle U target K s" and w: "waiting s = r # rs"
    and rq: "request_right U target K rq" "rq_state rq = Waiting" "later_request K (reqs s r) rq"
      "prompt_token_ids rq = tok_prompt K rq" "tok_prompt K rq \<noteq> []" and K: "sc_digest K = digest"
  shows "\<exists>s'. seat K r ((upd r (\<lambda>_. rq) s)\<lparr>waiting := rs\<rparr>) = (Inr (), s') \<and>
    sched_inv ok idle U target K s' \<and> admitted K s [r] rs s'"
proof -
  have U: "tok_prompt K rq \<in> U" using rq(1) by (simp add: request_right_def)
  have run: "r \<notin> set (running s)" using sched_invD(1) [OF inv] w by auto
  define c where "c = (case sched_cache s of None \<Rightarrow> kvcache_init 0 | Some c \<Rightarrow> c)"
  obtain sl where sl: "ok sl (c, sched_pool s)" "length sl = length (slots s)"
      "\<And>i. i < length sl \<Longrightarrow> slot_right (reqs s (slots s ! i)) i (sl ! i)"
  proof (cases "sched_cache s")
    case None
    then have "ok [] (c, sched_pool s)" "slots s = []"
      using sched_invD(7) [OF inv] start by (simp_all add: cache_right_def c_def)
    then show ?thesis using that [of "[]"] by simp
  next
    case (Some c')
    then show ?thesis using sched_invD(7) [OF inv] that by (auto simp: cache_right_def c_def)
  qed
  obtain n c' P' where add: "add_request_slot digest (Some (tok_prompt K rq)) (c, sched_pool s) = (Inr (length sl), (c', P'))"
      "n < length (tok_prompt K rq)" "ok (sl @ [(tok_prompt K rq, take n (tok_prompt K rq))]) (c', P')"
    using join [OF sl(1) U rq(5)] by fastforce
  have n: "num_tokens c' ! length sl = n" "length sl < length (num_tokens c')"
    using lens [OF add(3)] add(2) by (simp_all add: nth_append)
  define rq' where "rq' = rq\<lparr>batch_idx := Some (length sl), tokens_prefilled := n, rq_state := Prefilling\<rparr>"
  define s' where "s' = s\<lparr>reqs := (reqs s)(r := rq'), waiting := rs, running := running s @ [r],
    sched_cache := Some c', sched_pool := P'\<rparr>"
  have sel: "reqs s' = (reqs s)(r := rq')" "running s' = running s @ [r]" "waiting s' = rs"
      "next_req s' = next_req s" "deferred s' = deferred s" "pre_forward s' = pre_forward s"
      "sched_cache s' = Some c'" "sched_pool s' = P'" "engine_fields s' = engine_fields s"
    by (simp_all add: s'_def engine_fields_def)
  have eq: "seat K r ((upd r (\<lambda>_. rq) s)\<lparr>waiting := rs\<rparr>) = (Inr (), s')"
    using add(1) n rq(4)
    by (cases "sched_cache s")
      (simp_all add: seat_def seq_def on_kvs_def c_def upd_def nth_res_def s'_def rq'_def K)
  have "same_output rq rq'" by (simp add: same_output_def rq'_def)
  note eq' = same_outputD [OF this]
  have right: "request_right U target K rq'"
    using rq(1,2,4) add(2) unfolding eq' by (simp add: rq'_def request_right_def state_right_def tok_prompt_def)
  have slots: "slots s' = slots s @ [r]"
    using run unfolding slots_def sel by (auto simp: rq'_def intro: filter_cong)
  have "slot_right (reqs s' (slots s' ! i)) i ((sl @ [(tok_prompt K rq, take n (tok_prompt K rq))]) ! i)"
    if "i < Suc (length sl)" for i
  proof (cases "i < length sl")
    case True
    then have "slots s ! i \<in> set (slots s)" using sl(2) by simp
    then have "slots s ! i \<noteq> r" using run by (auto simp: slots_def)
    then show ?thesis using True sl(2,3) by (simp add: slots sel nth_append)
  next
    case False
    then have "i = length sl" using that by simp
    then show ?thesis using sl(2) rq(4)
      by (simp add: slots sel nth_append slot_right_def rq'_def slot_history_def prefilling_def)
  qed
  then have "cache_right ok idle s'"
    using add(3) sl(2)
    by (intro cache_rightI [where sl = "sl @ [(tok_prompt K rq, take n (tok_prompt K rq))]", OF sel(7)]) (simp_all add: sel slots)
  then have "sched_inv ok idle U target K s'"
    by (intro inv_join [OF inv w sel(1-6) right]) (simp_all add: rq'_def)
  moreover have left: "work K rq' < work K rq"
    using rq(2,4) add(2) by (simp add: rq'_def work_def tokens_left_def)
  moreover have "later_request K (reqs s r) rq'" "work K rq' < work K (reqs s r)"
    using rq(2,3) left sends_then_same [of K "reqs s r" rq rq'] by (simp_all add: rq'_def later_request_def)
  ultimately show ?thesis using eq sel run w by (auto simp: admitted_def later_def rq'_def)
qed

text \<open>One turn of the admission loop.\<close>

lemma admit_one_ok:
  assumes inv: "sched_inv ok idle U target K s" and w: "waiting s = r # rs"
    and K: "sc_digest K = digest" "sc_dspark K = None"
  shows "\<exists>a s'. admit_one K r (s\<lparr>waiting := rs\<rparr>) = (Inr a, s') \<and> sched_inv ok idle U target K s' \<and>
    (if a = Blocked then admitted K s [] (rs @ [r]) s' else admitted K s [r] rs s') \<and> (running s = [] \<longrightarrow> a \<noteq> Blocked)"
proof -
  let ?rq = "reqs s r" and ?enc = "encoded K (reqs s r)"
  have rn: "r < next_req s" "rq_state ?rq = Waiting" using sched_invD(3,5) [OF inv, of r] w by auto
  have right: "request_right U target K ?rq" using sched_invD(4) [OF inv rn(1)] .
  note enc = encoded_right [OF right rn(2)]
  have bi: "batch_idx ?rq = None" using right rn(2) by (simp add: request_right_def state_right_def)
  have drop: "(upd r (\<lambda>_. reqs s r) s)\<lparr>waiting := rs\<rparr> = s\<lparr>waiting := rs\<rparr>" by (simp add: upd_def)
  have spec: "rq_spec ?rq = None" "rq_spec ?enc = None" using right by (simp_all add: request_right_def encoded_def)
  have no_spec: "rq\<lparr>rq_spec := None\<rparr> = rq" if "rq_spec rq = None" for rq :: "('lg, 'c) running_request"
    using that by (cases rq) simp
  let ?s1 = "(upd r (\<lambda>_. ?enc) s)\<lparr>waiting := rs\<rparr>"
  have enc': "?rq\<lparr>prompt_token_ids := tok_encode (sc_tokenizer K) (prompt_text (rq_request ?rq))\<rparr> = ?enc"
    using no_spec [of "?rq\<lparr>prompt_token_ids := tok_prompt K ?rq\<rparr>"] spec by (simp add: encoded_def tok_prompt_def)
  have s1: "upd r (\<lambda>rq. rq\<lparr>prompt_token_ids := tok_encode (sc_tokenizer K) (prompt_text (rq_request rq))\<rparr>) (s\<lparr>waiting := rs\<rparr>) = ?s1"
      "upd r (\<lambda>rq. rq\<lparr>rq_spec := None\<rparr>) ?s1 = ?s1"
    using no_spec [OF spec(2)] by (simp_all add: upd_def enc')
  define need where "need = plain_blocks K (block_size (sched_pool s)) (length (tok_prompt K ?rq))"
  have plan: "admission_plan K (sched_pool ?s1) (reqs ?s1 r) = (need, None)"
    using K(2) enc(6) by (simp add: admission_plan_def spec_state_for_def need_def)
  have room: "stopped_right target K ?rq Cancelled" "stopped_right target K ?enc Cancelled"
    using alive_room [OF right] alive_room [OF enc(1)] rn(2) enc(2) by (simp_all add: stopped_cancelled)
  have one: "admit_one K r (s\<lparr>waiting := rs\<rparr>) =
      (if cancel_event ?rq then end_on_the_spot K r Cancelled (s\<lparr>waiting := rs\<rparr>)
       else if tok_prompt K ?rq = [] then end_on_the_spot K r Stop ?s1
       else if int (num_blocks (sched_pool s)) < need then end_on_the_spot K r Cancelled ?s1
       else if int (available_blocks (sched_pool s)) < need then (Inr Blocked, ?s1\<lparr>waiting := rs @ [r]\<rparr>)
       else seq (seat K r) (\<lambda>_. ret Seated) ?s1)"
    unfolding admit_one_def s1(1) Let_def plan prod.case s1(2) using enc(6) by simp
  consider "cancel_event ?rq" | "\<not> cancel_event ?rq" "tok_prompt K ?rq = []"
    | "\<not> cancel_event ?rq" "tok_prompt K ?rq \<noteq> []" "int (num_blocks (sched_pool s)) < need"
    | "\<not> cancel_event ?rq" "tok_prompt K ?rq \<noteq> []" "\<not> int (num_blocks (sched_pool s)) < need"
      "int (available_blocks (sched_pool s)) < need"
    | "\<not> cancel_event ?rq" "tok_prompt K ?rq \<noteq> []" "\<not> int (num_blocks (sched_pool s)) < need"
      "\<not> int (available_blocks (sched_pool s)) < need" by blast
  then show ?thesis
  proof cases
    case 1
    then show ?thesis using ended_ok [OF inv w right rn(2) bi room(1)] unfolding one drop by auto
  next
    case 2
    have stop: "stopped_right target K ?enc Stop"
      using 2 room(2) enc(5) by (simp add: stopped_right_def)
    show ?thesis using ended_ok [OF inv w enc(1,2,3) stop enc(7)] 2 unfolding one by auto
  next
    case 3
    then show ?thesis using ended_ok [OF inv w enc(1,2,3) room(2) enc(7)] unfolding one by auto
  next
    case 4
    let ?s2 = "?s1\<lparr>waiting := rs @ [r]\<rparr>"
    have "sched_inv ok idle U target K ?s2"
      by (rule inv_requeue [OF inv, of r _ ?enc]) (use w enc(1,2) sched_invD(1) [OF inv] in \<open>simp_all add: upd_def\<close>)
    moreover have "admitted K s [] (rs @ [r]) ?s2"
      using sched_invD(1) [OF inv] w enc(7) by (auto simp: admitted_def later_def engine_fields_def)
    moreover have "running s \<noteq> []" using 4 idle_running [OF inv] all_free by fastforce
    ultimately show ?thesis using 4 unfolding one by auto
  next
    case 5
    have "prompt_token_ids ?enc = tok_prompt K ?enc" "tok_prompt K ?enc \<noteq> []" using enc(5,6) 5(2) by simp_all
    from seat_ok [OF inv w enc(1,2,7) this K(1)] show ?thesis
      using 5 unfolding one by (auto simp: seq_def ret_def)
  qed
qed

text \<open>The whole loop: with nothing running, the first request that may enter does not stay in the queue.\<close>

lemma admit_loop_ok:
  assumes "sched_inv ok idle U target K s" "waiting s = rs" "sc_digest K = digest" "sc_dspark K = None"
  shows "\<exists>s' new. admit_loop K n rs s = (Inr (), s') \<and> sched_inv ok idle U target K s' \<and> admitted K s new (waiting s') s' \<and>
    (running s = [] \<and> rs \<noteq> [] \<and> n < max_concurrent K \<longrightarrow> new \<noteq> [])"
  using assms
proof (induction rs arbitrary: s n)
  case Nil
  then show ?case using admitted_none [of K s] by (intro exI [of _ s] exI [of _ "[]"]) simp
next
  case (Cons r rs)
  obtain a s1 where one: "admit_one K r (s\<lparr>waiting := rs\<rparr>) = (Inr a, s1)" "sched_inv ok idle U target K s1"
      "if a = Blocked then admitted K s [] (rs @ [r]) s1 else admitted K s [r] rs s1" "running s = [] \<longrightarrow> a \<noteq> Blocked"
    using admit_one_ok [OF Cons.prems] by blast
  consider "\<not> n < max_concurrent K" | "n < max_concurrent K" "a = Blocked" | "n < max_concurrent K" "a \<noteq> Blocked" by blast
  then show ?case
  proof cases
    case 1
    then show ?thesis using Cons.prems(1) admitted_none [of K s] by (intro exI [of _ s] exI [of _ "[]"]) simp
  next
    case 2
    then show ?thesis using one by (intro exI [of _ s1] exI [of _ "[]"]) (auto simp: admitted_def)
  next
    case 3
    let ?m = "if a = Ended then n else n + 1"
    have ad: "admitted K s [r] rs s1" using one(3) 3(2) by simp
    then obtain s' new where loop: "admit_loop K ?m rs s1 = (Inr (), s')" "sched_inv ok idle U target K s'"
        "admitted K s1 new (waiting s') s'"
      using Cons.IH [OF one(2) _ Cons.prems(3,4), of ?m] by (auto simp: admitted_def)
    have "admit_loop K n (r # rs) s = (Inr (), s')"
      using 3 one(1) loop(1) by (cases a) simp_all
    then show ?thesis
      using loop(2) admitted_trans [OF ad loop(3)] by (intro exI [of _ s'] exI [of _ "r # new"]) simp
  qed
qed

lemma admit_waiting_ok:
  assumes inv: "sched_inv ok idle U target K s" and K: "sc_digest K = digest" "sc_dspark K = None"
  shows "\<exists>s' new. admit_waiting K s = (Inr (), s') \<and> sched_inv ok idle U target K s' \<and> admitted K s new (waiting s') s' \<and>
    (running s = [] \<and> waiting s \<noteq> [] \<and> 0 < max_concurrent K \<longrightarrow> new \<noteq> [])"
proof -
  obtain s' new where "admit_waiting K s = (Inr (), s')" "sched_inv ok idle U target K s'" "admitted K s new (waiting s') s'"
      "running s = [] \<and> waiting s \<noteq> [] \<and> int (length (filter (\<lambda>r. rq_state (reqs s r) \<noteq> Done) (running s))) < max_concurrent K \<longrightarrow> new \<noteq> []"
    using admit_loop_ok [OF inv refl K] unfolding admit_waiting_def by blast
  then show ?thesis by auto
qed

end

end
