(* ===== verification/Scheduler_Sampling.thy ===== *)
theory Scheduler_Sampling
  imports Scheduler_Admission
begin

text \<open>
  The next token of every decoder: a greedy one takes the choice of its logits, the text stream and the
  output queue follow, and the request goes on or finishes for the right reason.
\<close>

section \<open>Consuming one token\<close>

definition consumed :: "('v, 'lg, 'c) sched_config \<Rightarrow> token \<Rightarrow> ('lg, 'c) running_request \<Rightarrow> ('lg, 'c) running_request" where
  "consumed K t rq = emit_new_text (sc_tokenizer K) 1 (rq\<lparr>tokens_generated := tokens_generated rq @ [t]\<rparr>)"

lemma consumed_sel [simp]:
  "rq_request (consumed K t rq) = rq_request rq" "rq_state (consumed K t rq) = rq_state rq"
  "rq_finish (consumed K t rq) = rq_finish rq" "batch_idx (consumed K t rq) = batch_idx rq"
  "prompt_token_ids (consumed K t rq) = prompt_token_ids rq" "rq_spec (consumed K t rq) = rq_spec rq"
  "tokens_generated (consumed K t rq) = tokens_generated rq @ [t]" "last_logits (consumed K t rq) = last_logits rq"
  "pending_decode_tokens (consumed K t rq) = pending_decode_tokens rq" "cancel_event (consumed K t rq) = cancel_event rq"
  "tokens_prefilled (consumed K t rq) = tokens_prefilled rq"
  "tok_prompt K (consumed K t rq) = tok_prompt K rq" "is_greedy (consumed K t rq) = is_greedy rq"
  by (simp_all add: consumed_def emit_new_text_def emit_def Let_def tok_prompt_def is_greedy_def split: prod.split)

lemma tokens_left_frame [simp]:
  "tokens_left (consumed K t rq) = tokens_left rq - 1" "tokens_left (rq\<lparr>pending_decode_tokens := p\<rparr>) = tokens_left rq"
  "tokens_left (rq\<lparr>last_logits := l\<rparr>) = tokens_left rq"
  by (simp_all add: tokens_left_def)

text \<open>What the consumed token does: it is EOS, it is the last one, or the request goes on.\<close>

definition after_token :: "('v, 'lg, 'c) sched_config \<Rightarrow> token \<Rightarrow> ('lg, 'c) running_request \<Rightarrow> ('lg, 'c) running_request" where
  "after_token K t rq =
     (if t = eos_token_id (sc_tokenizer K) then finished Stop rq
      else if max_tokens (rq_request rq) \<le> int (length (tokens_generated rq) + 1) then finished Length (consumed K t rq)
      else consumed K t rq)"

definition goes_on :: "('v, 'lg, 'c) sched_config \<Rightarrow> token \<Rightarrow> ('lg, 'c) running_request \<Rightarrow> bool" where
  "goes_on K t rq \<longleftrightarrow> t \<noteq> eos_token_id (sc_tokenizer K) \<and> int (length (tokens_generated rq) + 1) < max_tokens (rq_request rq)"

lemma upd_upd [simp]: "upd r f (upd r g s) = upd r (\<lambda>rq. f (g rq)) s"
  by (simp add: upd_def)

lemma consume_token_plain:
  assumes "rq_spec (reqs s r) = None"
  shows "consume_token K r t s = (Inr (goes_on K t (reqs s r)), upd r (after_token K t) s)"
  using assms finish_plain [of s r K Stop]
    finish_plain [of "upd r (\<lambda>rq. emit_new_text (sc_tokenizer K) 1 (rq\<lparr>tokens_generated := tokens_generated rq @ [t]\<rparr>)) s" r K Length]
    consumed_sel [of K t "reqs s r", unfolded consumed_def]
  by (simp add: consume_token_def seq_def ret_def goes_on_def after_token_def consumed_def Let_def upd_def)

lemma consumed_text:
  assumes "text_right K rq"
  shows "text_right K (consumed K t rq)"
  using assms
  by (auto simp: text_right_def token_stream_def consumed_def emit_new_text_def emit_def Let_def split: option.splits prod.splits)

lemma consumed_queue:
  assumes "queue_right rq" "rq_finish rq = None"
  shows "queue_right (consumed K t rq)"
proof -
  obtain delta st where p: "push (sc_tokenizer K) [t] (case rq_stream rq of None \<Rightarrow> text_stream_init | Some st \<Rightarrow> st) = (delta, st)"
    by (cases "push (sc_tokenizer K) [t] (case rq_stream rq of None \<Rightarrow> text_stream_init | Some st \<Rightarrow> st)")
  have x: "output_queue (consumed K t rq) = put_dropping (text_step delta 1) (output_queue rq)" "gs_finish (text_step delta 1) = None"
    by (simp_all add: consumed_def emit_new_text_def emit_def text_step_def p)
  show ?thesis using queue_right_put [OF assms x(2)] assms(2) by (simp add: queue_right_def x(1))
qed

text \<open>The step of the consumed token is the one its stream gives.\<close>

lemma consumed_sends:
  assumes "text_right K rq" "rq_state rq \<noteq> Done"
  shows "sends K rq (consumed K t rq)"
proof -
  have "(case rq_stream rq of None \<Rightarrow> text_stream_init | Some st \<Rightarrow> st) = token_stream (sc_tokenizer K) (tokens_generated rq)"
    using assms(1) by (auto simp: text_right_def token_stream_def split: option.splits)
  then have "output_queue (consumed K t rq) =
      put_dropping (text_step (fst (push (sc_tokenizer K) [t] (token_stream (sc_tokenizer K) (tokens_generated rq)))) 1) (output_queue rq)"
    by (simp add: consumed_def emit_new_text_def emit_def split: prod.split)
  then show ?thesis using assms(2) by (simp add: sends_def sent_steps_def token_steps_snoc)
qed

text \<open>A token for a decoder: any for a sampled request, the choice of the target for a greedy one.\<close>

definition right_choice :: "(token list \<Rightarrow> 'lg) \<Rightarrow> ('v, 'lg, 'c) sched_config \<Rightarrow> ('lg, 'c) running_request \<Rightarrow> token \<Rightarrow> bool" where
  "right_choice target K rq t \<longleftrightarrow>
     (is_greedy rq \<longrightarrow> t = argmax (sc_sampler K) (target (tok_prompt K rq @ tokens_generated rq)))"

lemma consumed_output:
  assumes "output_right target K rq" "t \<noteq> eos_token_id (sc_tokenizer K)" "right_choice target K rq t"
  shows "output_right target K (consumed K t rq)"
  using assms by (auto simp: output_right_def greedy_run_snoc right_choice_def)

text \<open>The request after its token, whose state is given by the caller for the request that goes on.\<close>

lemma after_token_right:
  assumes rq: "request_right U target K rq" "rq_state rq = Decoding" "has_room rq"
    and t: "right_choice target K rq t"
  shows "\<not> goes_on K t rq \<Longrightarrow> request_right U target K (after_token K t rq) \<and> rq_state (after_token K t rq) = Done"
    "goes_on K t rq \<Longrightarrow> after_token K t rq = consumed K t rq \<and> has_room (consumed K t rq)"
    "goes_on K t rq \<Longrightarrow> same_output (consumed K t rq) rq' \<Longrightarrow> state_right target K rq' \<Longrightarrow> request_right U target K rq'"
    "later_request K rq (after_token K t rq)"
proof -
  note r = rq(1) [unfolded request_right_def]
  have fin: "rq_finish rq = None" using r rq(2) by (simp add: state_right_def)
  have more: "output_right target K (consumed K t rq) \<and> text_right K (consumed K t rq) \<and> queue_right (consumed K t rq)"
    if "t \<noteq> eos_token_id (sc_tokenizer K)"
    using r t that fin consumed_output consumed_text consumed_queue by blast
  have stop: "stopped_right target K rq Stop" if "t = eos_token_id (sc_tokenizer K)"
    using t rq(3) that by (auto simp: stopped_right_def right_choice_def)
  have full: "request_right U target K (finished Length (consumed K t rq))"
    if "t \<noteq> eos_token_id (sc_tokenizer K)" "max_tokens (rq_request rq) \<le> int (length (tokens_generated rq) + 1)"
  proof -
    have "queue_right ((consumed K t rq)\<lparr>output_queue := put_dropping (terminal_step Length) (output_queue (consumed K t rq)),
        rq_finish := Some Length\<rparr>)"
      by (rule queue_right_put) (use more [OF that(1)] fin in \<open>simp_all add: terminal_step_def\<close>)
    then have q: "queue_right (finished Length (consumed K t rq))" by (simp add: queue_right_def finished_def emit_def)
    have "stopped_right target K (finished Length (consumed K t rq)) Length"
      using that(2) rq(3) by (simp add: stopped_right_def has_room_def)
    then show ?thesis using q r more [OF that(1)] by (simp add: request_right_def state_right_def)
  qed
  show "\<not> goes_on K t rq \<Longrightarrow> request_right U target K (after_token K t rq) \<and> rq_state (after_token K t rq) = Done"
    using full stop request_finished(1) [OF rq(1)] rq(2) by (auto simp: goes_on_def after_token_def)
  show "goes_on K t rq \<Longrightarrow> after_token K t rq = consumed K t rq \<and> has_room (consumed K t rq)"
    by (auto simp: goes_on_def after_token_def has_room_def)
  show "goes_on K t rq \<Longrightarrow> same_output (consumed K t rq) rq' \<Longrightarrow> state_right target K rq' \<Longrightarrow> request_right U target K rq'"
    using more r by (simp add: same_outputD(7) goes_on_def)
  have "sends K rq (consumed K t rq)" by (rule consumed_sends) (use rq(2) r in simp_all)
  then have "sends K rq (after_token K t rq)"
    using sends_trans [OF _ sends_finished [of "consumed K t rq" K Length]] rq(2) by (simp add: after_token_def)
  then show "later_request K rq (after_token K t rq)"
    using rq(2) by (simp add: after_token_def later_request_def work_def)
qed

section \<open>The decoders of a synchronous step\<close>

definition fed_right :: "('v, 'lg, 'c) sched \<Rightarrow> sampled \<Rightarrow> nat \<Rightarrow> bool" where
  "fed_right s fed r \<longleftrightarrow> rq_state (reqs s r) = Done \<or>
     (rq_state (reqs s r) = Decoding \<and> fed r \<noteq> None \<and> fed r = pending_decode_tokens (reqs s r))"

text \<open>One fresh decoder gets its token.\<close>

lemma feed_one_ok:
  assumes inv: "sched_inv ok idle U target K s" and r: "r \<in> set (running s)"
    and st: "rq_state (reqs s r) = Decoding" "pending_decode_tokens (reqs s r) = None"
    and t: "right_choice target K (reqs s r) t"
    and rq': "rq' = (if goes_on K t (reqs s r) then (consumed K t (reqs s r))\<lparr>pending_decode_tokens := Some [t]\<rparr>
      else after_token K t (reqs s r))"
  shows "sched_inv ok idle U target K (upd r (\<lambda>_. rq') s)" "later K s (upd r (\<lambda>_. rq') s)"
proof -
  let ?rq = "reqs s r"
  have right: "request_right U target K ?rq" using sched_invD(2,4) [OF inv] r by blast
  have room: "has_room ?rq" using alive_room [OF right] st(1) by simp
  note a = after_token_right [OF right st(1) room t]
  have l: "later_request K ?rq rq'"
  proof -
    have "Suc (2 * (tokens_left ?rq - Suc 0)) \<le> 2 * tokens_left ?rq"
      using room by (cases "tokens_left ?rq") (simp_all add: has_room_left)
    moreover have "sends K ?rq (consumed K t ?rq)" by (rule consumed_sends) (use st right in \<open>simp_all add: request_right_def\<close>)
    then have "sends K ?rq ((consumed K t ?rq)\<lparr>pending_decode_tokens := Some [t]\<rparr>)" by (rule sends_then_same) simp_all
    ultimately show ?thesis using st by (simp add: rq' a(4)) (simp add: later_request_def work_def)
  qed
  have "request_right U target K rq' \<and> same_slot ?rq rq'"
  proof (cases "goes_on K t ?rq")
    case True
    have "same_output (consumed K t ?rq) rq'" using True by (simp add: rq' same_output_def)
    moreover have "state_right target K rq'"
      using right st(1) a(2) [OF True] True by (simp add: rq' request_right_def state_right_def has_room_def tok_prompt_def)
    moreover have "same_slot ?rq rq'"
      using True st by (simp add: rq' same_slot_def slot_history_def fed_tokens_def prefilling_def)
    ultimately show ?thesis using a(3) [OF True] by blast
  next
    case False
    then have eq: "rq' = after_token K t ?rq" and st': "rq_state rq' = Done" using a(1) by (simp_all add: rq')
    have "same_slot ?rq rq'" using st' unfolding eq by (simp add: same_slot_def after_token_def split: if_splits)
    then show ?thesis using a(1) [OF False] eq by simp
  qed
  then show "sched_inv ok idle U target K (upd r (\<lambda>_. rq') s)" "later K s (upd r (\<lambda>_. rq') s)"
    using inv_upd [OF inv r, of "\<lambda>_. rq'"] later_upd [of K s r "\<lambda>_. rq'"] l by simp_all
qed

lemma feed_decoders_ok:
  assumes "sched_inv ok idle U target K s" "distinct rs" "set rs \<subseteq> set (running s)"
    "\<And>r. r \<in> set rs \<Longrightarrow> rq_state (reqs s r) = Decoding"
    "\<And>r. r \<in> set rs \<Longrightarrow> pending_decode_tokens (reqs s r) = None \<Longrightarrow> \<exists>t. next r = Some t \<and> right_choice target K (reqs s r) t"
  shows "\<exists>fed' s'. feed_decoders K next rs fed s = (Inr fed', s') \<and> sched_inv ok idle U target K s' \<and> later K s s' \<and>
    running s' = running s \<and> waiting s' = waiting s \<and> deferred s' = deferred s \<and>
    (\<forall>x. x \<notin> set rs \<longrightarrow> reqs s' x = reqs s x \<and> fed' x = fed x) \<and> (\<forall>r \<in> set rs. fed_right s' fed' r)"
  using assms
proof (induction rs arbitrary: fed s)
  case (Cons r rs)
  let ?rq = "reqs s r"
  have r: "r \<in> set (running s)" "r \<notin> set rs" "rq_state ?rq = Decoding" using Cons.prems by auto
  obtain fed1 s1 where one: "feed_decoders K next (r # rs) fed s = feed_decoders K next rs fed1 s1"
      "sched_inv ok idle U target K s1" "later K s s1" "running s1 = running s" "waiting s1 = waiting s" "deferred s1 = deferred s"
      "\<And>x. x \<noteq> r \<Longrightarrow> reqs s1 x = reqs s x \<and> fed1 x = fed x" "fed_right s1 fed1 r"
  proof (cases "pending_decode_tokens ?rq")
    case (Some ts)
    then show ?thesis using that [of "fed(r := Some ts)" s] Cons.prems(1) r by (simp add: fed_right_def)
  next
    case None
    then obtain t where t: "next r = Some t" "right_choice target K ?rq t" using Cons.prems(5) by auto
    have right: "request_right U target K ?rq" using sched_invD(2,4) [OF Cons.prems(1)] r by blast
    define rq' where "rq' = (if goes_on K t ?rq then (consumed K t ?rq)\<lparr>pending_decode_tokens := Some [t]\<rparr>
      else after_token K t ?rq)"
    have room: "has_room ?rq" using alive_room [OF right] r(3) by simp
    note f = feed_one_ok [OF Cons.prems(1) r(1,3) None t(2) rq'_def] and a = after_token_right [OF right r(3) room t(2)]
    have c: "consume_token K r t s = (Inr (goes_on K t ?rq), upd r (after_token K t) s)"
      by (rule consume_token_plain) (use right in \<open>simp add: request_right_def\<close>)
    have "feed_decoders K next (r # rs) fed s = feed_decoders K next rs
        (if goes_on K t ?rq then fed(r := Some [t]) else fed) (upd r (\<lambda>_. rq') s)"
      using None t(1) c a(2) by (auto simp: rq'_def upd_def)
    then show ?thesis
      using that [OF _ f] r(3) a(1) by (auto simp: fed_right_def rq'_def)
  qed
  have "\<exists>fed' s'. feed_decoders K next rs fed1 s1 = (Inr fed', s') \<and> sched_inv ok idle U target K s' \<and> later K s1 s' \<and>
    running s' = running s1 \<and> waiting s' = waiting s1 \<and> deferred s' = deferred s1 \<and>
    (\<forall>x. x \<notin> set rs \<longrightarrow> reqs s' x = reqs s1 x \<and> fed' x = fed1 x) \<and> (\<forall>r \<in> set rs. fed_right s' fed' r)"
  proof (rule Cons.IH [OF one(2)])
    fix x assume "x \<in> set rs"
    then have "x \<noteq> r" using r(2) by blast
    then show "rq_state (reqs s1 x) = Decoding" "pending_decode_tokens (reqs s1 x) = None \<Longrightarrow>
        \<exists>t. next x = Some t \<and> right_choice target K (reqs s1 x) t"
      using one(7) [of x] Cons.prems(4,5) [of x] \<open>x \<in> set rs\<close> by simp_all
  qed (use Cons.prems one(4) in auto)
  then obtain fed' s' where rest: "feed_decoders K next rs fed1 s1 = (Inr fed', s')" "sched_inv ok idle U target K s'"
      "later K s1 s'" "running s' = running s1" "waiting s' = waiting s1" "deferred s' = deferred s1"
      "\<And>x. x \<notin> set rs \<Longrightarrow> reqs s' x = reqs s1 x \<and> fed' x = fed1 x" "\<And>r. r \<in> set rs \<Longrightarrow> fed_right s' fed' r"
    by blast
  have "fed_right s' fed' r" using one(8) rest(7) [OF r(2)] by (simp add: fed_right_def)
  then show ?case
    using one rest later_trans [OF one(3) rest(3)] by (intro exI [of _ fed'] exI [of _ s']) auto
qed auto

text \<open>Fields that the invariant does not read, and a new deferred batch.\<close>

lemma parts_unread [simp]:
  "queues_right (s\<lparr>rng := g\<rparr>) = queues_right s" "cache_right ok idle (s\<lparr>rng := g\<rparr>) = cache_right ok idle s"
  "deferred_right K (s\<lparr>rng := g\<rparr>) d = deferred_right K s d"
  "queues_right (s\<lparr>trace := tr\<rparr>) = queues_right s" "cache_right ok idle (s\<lparr>trace := tr\<rparr>) = cache_right ok idle s"
  "deferred_right K (s\<lparr>trace := tr\<rparr>) d = deferred_right K s d"
  "queues_right (s\<lparr>deferred := x\<rparr>) = queues_right s" "cache_right ok idle (s\<lparr>deferred := x\<rparr>) = cache_right ok idle s"
  "deferred_right K (s\<lparr>deferred := x\<rparr>) d = deferred_right K s d"
  by (simp_all add: queues_right_def cache_right_def slots_def deferred_right_def cong: option.case_cong)

lemma inv_unread [simp]:
  "sched_inv ok idle U target K (s\<lparr>rng := g\<rparr>) = sched_inv ok idle U target K s"
  "sched_inv ok idle U target K (s\<lparr>trace := tr\<rparr>) = sched_inv ok idle U target K s"
  by (simp_all add: sched_inv_def)

lemma inv_deferred:
  assumes "sched_inv ok idle U target K s" "\<And>d. x = Some d \<Longrightarrow> deferred_right K s d"
  shows "sched_inv ok idle U target K (s\<lparr>deferred := x\<rparr>)"
  using assms by (simp add: sched_inv_def)

text \<open>The rows of a deferred batch.\<close>

lemma row_of_Some:
  assumes "distinct (dt_requests d)"
  shows "row_of r d = Some i \<longleftrightarrow> i < length (dt_requests d) \<and> dt_requests d ! i = r"
proof -
  let ?xs = "dt_requests d"
  have "row_of r d = Some i \<longleftrightarrow> (r, i) \<in> set (rev (zip ?xs [0 ..< length ?xs]))"
    unfolding row_of_def by (rule map_of_eq_Some_iff) (use assms in \<open>simp add: rev_map [symmetric]\<close>)
  also have "\<dots> \<longleftrightarrow> i < length ?xs \<and> ?xs ! i = r" by (auto simp: set_zip)
  finally show ?thesis .
qed

lemma deferred_choice:
  assumes inv: "sched_inv ok idle U target K s" and d: "deferred s = Some d" and i: "i < length (dt_requests d)"
    and st: "rq_state (reqs s (dt_requests d ! i)) = Decoding" "pending_decode_tokens (reqs s (dt_requests d ! i)) = None"
  shows "right_choice target K (reqs s (dt_requests d ! i)) (dt_tokens d ! i)"
proof -
  let ?rq = "reqs s (dt_requests d ! i)"
  have dr: "dt_requests d ! i < next_req s"
      "is_greedy ?rq \<Longrightarrow> \<exists>row. last_logits ?rq = Some row \<and> dt_tokens d ! i = argmax (sc_sampler K) row"
    using sched_invD(8) [OF inv d] i st by (auto simp: deferred_right_def Let_def)
  have "last_logits ?rq = Some (target (tok_prompt K ?rq @ tokens_generated ?rq))"
    using sched_invD(4) [OF inv dr(1)] st by (simp add: request_right_def state_right_def)
  then show ?thesis using dr(2) by (auto simp: right_choice_def)
qed

lemma sample_decoders_ok:
  assumes inv: "sched_inv ok idle U target K s"
  shows "\<exists>fed s'. sample_decoders K s = (Inr fed, s') \<and> sched_inv ok idle U target K s' \<and> later K s s' \<and>
    running s' = running s \<and> waiting s' = waiting s \<and> deferred s' = None \<and>
    (\<forall>r \<in> set (running s'). rq_state (reqs s' r) = Decoding \<longrightarrow> fed_right s' fed r)"
proof -
  define s1 where "s1 = s\<lparr>deferred := None\<rparr>"
  define decoders where "decoders = filter (\<lambda>r. rq_state (reqs s r) = Decoding \<and> rq_spec (reqs s r) = None) (running s)"
  define fresh where "fresh = filter (\<lambda>r. pending_decode_tokens (reqs s r) = None) decoders"
  have right: "request_right U target K (reqs s r)" if "r \<in> set (running s)" for r
    using sched_invD(2,4) [OF inv] that by blast
  have dec: "r \<in> set decoders \<longleftrightarrow> r \<in> set (running s) \<and> rq_state (reqs s r) = Decoding" for r
    using right by (auto simp: decoders_def request_right_def)
  have logits: "last_logits (reqs s r) = Some (target (tok_prompt K (reqs s r) @ tokens_generated (reqs s r)))"
    if "r \<in> set fresh" for r
    using that right [of r] dec [of r] by (simp add: fresh_def request_right_def state_right_def)
  have inv1: "sched_inv ok idle U target K s1" unfolding s1_def by (rule inv_deferred [OF inv]) simp
  have drun: "distinct decoders" using sched_invD(1) [OF inv] by (simp add: decoders_def)
  have finish: ?thesis
    if eq: "sample_decoders K s = feed_decoders K nx decoders (\<lambda>_. None) (s1\<lparr>rng := g\<rparr>)"
      and nx: "\<And>r. r \<in> set fresh \<Longrightarrow> \<exists>t. nx r = Some t \<and> right_choice target K (reqs s r) t" for nx g
  proof -
    have "\<exists>fed' s'. feed_decoders K nx decoders (\<lambda>_. None) (s1\<lparr>rng := g\<rparr>) = (Inr fed', s') \<and> sched_inv ok idle U target K s' \<and>
        later K (s1\<lparr>rng := g\<rparr>) s' \<and> running s' = running (s1\<lparr>rng := g\<rparr>) \<and> waiting s' = waiting (s1\<lparr>rng := g\<rparr>) \<and>
        deferred s' = deferred (s1\<lparr>rng := g\<rparr>) \<and>
        (\<forall>x. x \<notin> set decoders \<longrightarrow> reqs s' x = reqs (s1\<lparr>rng := g\<rparr>) x \<and> fed' x = None) \<and> (\<forall>r \<in> set decoders. fed_right s' fed' r)"
      by (rule feed_decoders_ok) (use inv1 drun dec nx in \<open>auto simp: s1_def fresh_def\<close>)
    then obtain fed' s' where f: "feed_decoders K nx decoders (\<lambda>_. None) (s1\<lparr>rng := g\<rparr>) = (Inr fed', s')"
        "sched_inv ok idle U target K s'" "later K (s1\<lparr>rng := g\<rparr>) s'" "running s' = running s" "waiting s' = waiting s"
        "deferred s' = None" "\<And>x. x \<notin> set decoders \<Longrightarrow> reqs s' x = reqs s x" "\<And>r. r \<in> set decoders \<Longrightarrow> fed_right s' fed' r"
      by (auto simp: s1_def)
    have "later K s s'" using f(3) by (simp add: later_def engine_fields_def s1_def)
    moreover have "fed_right s' fed' r" if "r \<in> set (running s')" "rq_state (reqs s' r) = Decoding" for r
      using f(7) [of r] f(8) [of r] dec [of r] that f(4) by (cases "r \<in> set decoders") simp_all
    ultimately show ?thesis using eq f by auto
  qed
  define known where "known = (case deferred s of None \<Rightarrow> (\<lambda>_. None)
    | Some d \<Rightarrow> (\<lambda>r. if r \<in> set fresh then map_option (\<lambda>i. dt_tokens d ! i) (row_of r d) else None))"
  have ids: "deferred_ids (deferred s) fresh = Inr known"
  proof (cases "deferred s")
    case (Some d)
    then show ?thesis
      using sched_invD(8) [OF inv Some] row_of_Some [of d]
      by (auto simp: deferred_ids_def known_def deferred_right_def list_ex_iff split: option.splits)
  qed (simp add: deferred_ids_def known_def)
  have choice: "right_choice target K (reqs s r) t" if rt: "r \<in> set fresh" "known r = Some t" for r t
  proof (cases "deferred s")
    case (Some d)
    then obtain i where i: "row_of r d = Some i" "t = dt_tokens d ! i" using rt by (auto simp: known_def)
      moreover have "distinct (dt_requests d)" using sched_invD(8) [OF inv Some] by (simp add: deferred_right_def)
      ultimately have i: "i < length (dt_requests d)" "dt_requests d ! i = r" "t = dt_tokens d ! i"
        using row_of_Some by simp_all
      then show ?thesis using deferred_choice [OF inv Some i(1)] rt(1) dec by (simp add: fresh_def)
  qed (use rt in \<open>simp add: known_def\<close>)
  define to_sample where "to_sample = filter (\<lambda>r. known r = None) fresh"
  have sd: "sample_decoders K s = (if to_sample = [] then feed_decoders K known decoders (\<lambda>_. None) s1
      else case sample_batch (sc_sampler K) (map (\<lambda>r. the (last_logits (reqs s r))) to_sample)
                    (map (\<lambda>r. sampling (rq_request (reqs s r))) to_sample) (rng s1) of
            (Inl e, g) \<Rightarrow> (Inl e, s1\<lparr>rng := g\<rparr>)
          | (Inr ts, g) \<Rightarrow>
              if length ts \<noteq> length to_sample then (Inl ValueError, s1\<lparr>rng := g\<rparr>)
              else feed_decoders K (known ++ map_of (zip to_sample ts)) decoders (\<lambda>_. None) (s1\<lparr>rng := g\<rparr>))"
  proof -
    have "list_ex (\<lambda>r. last_logits (reqs s r) = None) to_sample = False"
      using logits by (auto simp: list_ex_iff to_sample_def)
    then show ?thesis
      unfolding sample_decoders_def Let_def s1_def [symmetric] decoders_def [symmetric] fresh_def [symmetric] ids sum.case
        to_sample_def [symmetric] by simp
  qed
  show ?thesis
  proof (cases "to_sample = []")
    case True
    then have "\<exists>t. known r = Some t" if "r \<in> set fresh" for r using that by (auto simp: to_sample_def filter_empty_conv)
    then show ?thesis using finish [of known "rng s1"] sd True choice by fastforce
  next
    case False
    let ?ps = "map (\<lambda>r. sampling (rq_request (reqs s r))) to_sample"
    let ?rows = "map (\<lambda>r. the (last_logits (reqs s r))) to_sample"
    obtain ts g where ts: "sample_batch (sc_sampler K) ?rows ?ps (rng s1) = (Inr ts, g)" "greedy_rows (sc_sampler K) ?rows ?ps ts"
      using sample_tokens_ok [of ?rows ?ps "sc_sampler K" "rng s1"] by (auto simp: sample_batch_def)
    have len: "length ts = length to_sample" using ts(2) by (simp add: greedy_rows_def)
    have dts: "distinct to_sample" using drun by (simp add: to_sample_def fresh_def)
    have "\<exists>t. (known ++ map_of (zip to_sample ts)) r = Some t \<and> right_choice target K (reqs s r) t" if r: "r \<in> set fresh" for r
    proof (cases "r \<in> set to_sample")
      case True
      then obtain i where i: "i < length to_sample" "to_sample ! i = r" by (metis in_set_conv_nth)
      have "map_of (zip to_sample ts) r = Some (ts ! i)"
        using i len dts map_of_zip_nth [of to_sample ts i] by simp
      moreover have "is_greedy (reqs s r) \<Longrightarrow> ts ! i = argmax (sc_sampler K) (the (last_logits (reqs s r)))"
        using ts(2) i by (auto simp: greedy_rows_def is_greedy_def)
      ultimately show ?thesis using logits [OF r] by (auto simp: right_choice_def)
    next
      case False
      then have "map_of (zip to_sample ts) r = None" using len by (simp add: map_of_zip_is_None)
      moreover obtain t where "known r = Some t" using False r by (auto simp: to_sample_def)
      ultimately show ?thesis using choice [OF r] by (auto simp: map_add_def)
    qed
    moreover have "sample_decoders K s = feed_decoders K (known ++ map_of (zip to_sample ts)) decoders (\<lambda>_. None) (s1\<lparr>rng := g\<rparr>)"
      using False by (simp add: sd ts(1) len)
    ultimately show ?thesis using finish by blast
  qed
qed

end
