(* ===== verification/Scheduler_Forward.thy ===== *)
theory Scheduler_Forward
  imports Scheduler_Sampling
begin

text \<open>
  The forward of a step over any batch runner: what every request feeds, what it gets back, and the
  invariant after it, or the state that an \<open>OutOfMemoryError\<close> leaves behind.
\<close>

section \<open>Updating many requests\<close>

definition upd_all :: "nat list \<Rightarrow> (nat \<Rightarrow> ('lg, 'c) running_request) \<Rightarrow> ('v, 'lg, 'c) sched \<Rightarrow> ('v, 'lg, 'c) sched" where
  "upd_all rs g s = s\<lparr>reqs := (\<lambda>r. if r \<in> set rs then g r else reqs s r)\<rparr>"

lemma for_each_upd_all:
  assumes "distinct (map key xs)"
    and "\<And>x R. x \<in> set xs \<Longrightarrow> R (key x) = reqs s (key x) \<Longrightarrow>
      F x (s\<lparr>reqs := R\<rparr>) = (Inr (), upd (key x) (\<lambda>_. g (key x)) (s\<lparr>reqs := R\<rparr>))"
  shows "for_each F xs s = (Inr (), upd_all (map key xs) g s)"
  using assms
proof (induction xs arbitrary: s)
  case Nil
  then show ?case by (simp add: upd_all_def)
next
  case (Cons x xs)
  let ?s = "upd (key x) (\<lambda>_. g (key x)) s"
  have one: "F x s = (Inr (), ?s)" using Cons.prems(2) [of x "reqs s"] by simp
  have "for_each F xs ?s = (Inr (), upd_all (map key xs) g ?s)"
  proof (rule Cons.IH)
    fix y R assume y: "y \<in> set xs" "R (key y) = reqs ?s (key y)"
    have "key x \<notin> key ` set xs" using Cons.prems(1) by simp
    then have "key y \<noteq> key x" using y(1) by (metis imageI)
    then show "F y (?s\<lparr>reqs := R\<rparr>) = (Inr (), upd (key y) (\<lambda>_. g (key y)) (?s\<lparr>reqs := R\<rparr>))"
      using Cons.prems(2) [of y R] y by (simp add: upd_def)
  qed (use Cons.prems(1) in simp)
  then show ?case using one by (simp add: upd_all_def upd_def fun_eq_iff)
qed

lemma zip_index_map [simp]: "map snd (zip [0 ..< length xs] xs) = xs"
  by simp

lemma in_zip_index: "x \<in> set (zip [0 ..< length xs] xs) \<longleftrightarrow> (\<exists>i < length xs. x = (i, xs ! i))"
  by (auto simp: set_zip) (metis add_0 nth_upt diff_zero length_upt)

lemma take_drop_take: "m \<le> e \<Longrightarrow> take m p @ drop m (take e p) = take e p"
  by (metis append_take_drop_id min.absorb1 take_take)

section \<open>What a request feeds and gets\<close>

definition step_input :: "('v, 'lg, 'c) sched_config \<Rightarrow> ('lg, 'c) running_request \<Rightarrow> token list" where
  "step_input K rq =
     (if prefilling rq
      then drop (tokens_prefilled rq) (take (min (tokens_prefilled rq + chunk_size K) (length (prompt_token_ids rq))) (prompt_token_ids rq))
      else the (pending_decode_tokens rq))"

definition after_forward :: "nat \<Rightarrow> 'lg \<Rightarrow> ('lg, 'c) running_request \<Rightarrow> ('lg, 'c) running_request" where
  "after_forward n row rq =
     (if prefilling rq then
        (if tokens_prefilled rq + n = length (prompt_token_ids rq)
         then rq\<lparr>tokens_prefilled := tokens_prefilled rq + n, rq_state := Decoding, last_logits := Some row\<rparr>
         else rq\<lparr>tokens_prefilled := tokens_prefilled rq + n, rq_state := Chunked_Prefilling\<rparr>)
      else rq\<lparr>last_logits := Some row, pending_decode_tokens := None\<rparr>)"

lemma after_forward_sel [simp]:
  "rq_request (after_forward n row rq) = rq_request rq" "rq_spec (after_forward n row rq) = rq_spec rq"
  "batch_idx (after_forward n row rq) = batch_idx rq" "prompt_token_ids (after_forward n row rq) = prompt_token_ids rq"
  "tokens_generated (after_forward n row rq) = tokens_generated rq" "rq_finish (after_forward n row rq) = rq_finish rq"
  "same_output rq (after_forward n row rq)"
  by (simp_all add: after_forward_def same_output_def)

text \<open>A request that can take part in a forward.\<close>

definition ready :: "('lg, 'c) running_request \<Rightarrow> bool" where
  "ready rq \<longleftrightarrow> prefilling rq \<or> rq_state rq = Decoding \<and> pending_decode_tokens rq \<noteq> None"

lemma step_input_right:
  assumes rq: "request_right U target K rq" "ready rq" and x: "slot_right rq i x" and chunk: "0 < chunk_size K"
  shows "step_input K rq \<noteq> []" "follows_prompt x (step_input K rq)"
    "prefilling rq \<Longrightarrow> tokens_prefilled rq = length (snd x)"
proof -
  have h: "fst x = prompt_token_ids rq" "snd x = slot_history rq"
    using x rq(2) by (auto simp: slot_right_def ready_def prefilling_def)
  have "step_input K rq \<noteq> [] \<and> follows_prompt x (step_input K rq) \<and> (prefilling rq \<longrightarrow> tokens_prefilled rq = length (snd x))"
  proof (cases "prefilling rq")
    case True
    let ?m = "tokens_prefilled rq" and ?e = "min (tokens_prefilled rq + chunk_size K) (length (prompt_token_ids rq))"
    have m: "?m < length (prompt_token_ids rq)"
      using rq(1) True by (auto simp: request_right_def state_right_def prefilling_def)
    have "take ?m (prompt_token_ids rq) @ drop ?m (take ?e (prompt_token_ids rq)) = take ?e (prompt_token_ids rq)"
      by (rule take_drop_take) (use m in simp)
    then show ?thesis using True m chunk
      by (simp add: step_input_def follows_prompt_def h slot_history_def)
  next
    case False
    then obtain ts where ts: "rq_state rq = Decoding" "pending_decode_tokens rq = Some ts"
      using rq(2) by (auto simp: ready_def)
    then have "ts \<noteq> []" using rq(1) by (auto simp: request_right_def state_right_def)
    then show ?thesis using False ts by (simp add: step_input_def follows_prompt_def h slot_history_def)
  qed
  then show "step_input K rq \<noteq> []" "follows_prompt x (step_input K rq)"
    "prefilling rq \<Longrightarrow> tokens_prefilled rq = length (snd x)" by blast+
qed

lemma after_forward_right:
  assumes rq: "request_right U target K rq" "ready rq" and x: "slot_right rq i x" and chunk: "0 < chunk_size K"
    and row: "row = target (snd x @ step_input K rq)"
    and rq': "rq' = after_forward (length (step_input K rq)) row rq"
  shows "request_right U target K rq'" "slot_right rq' i (fst x, snd x @ step_input K rq)"
    "rq_state rq' \<noteq> Waiting" "rq_state rq' \<noteq> Done" "later_request K rq rq'" "work K rq' < work K rq"
    "rq_state rq' = Decoding \<Longrightarrow> last_logits rq' = Some row \<and> pending_decode_tokens rq' = None"
proof -
  have h: "fst x = prompt_token_ids rq" "snd x = slot_history rq" "batch_idx rq = Some i" "rq_state rq \<noteq> Done"
    using x rq(2) by (auto simp: slot_right_def ready_def prefilling_def)
  have same: "same_output rq rq'" by (simp add: rq')
  note sD = same_outputD [OF same]
  have room: "has_room rq" using alive_room [OF rq(1) h(4)] .
  have left: "tokens_left rq' = tokens_left rq" using same by (simp add: tokens_left_def same_output_def)
  have "state_right target K rq' \<and> slot_history rq' = snd x @ step_input K rq \<and> rq_state rq' \<noteq> Waiting \<and> rq_state rq' \<noteq> Done \<and>
    work K rq' < work K rq \<and>
    (rq_state rq' = Decoding \<longrightarrow> last_logits rq' = Some row \<and> pending_decode_tokens rq' = None)"
  proof (cases "prefilling rq")
    case True
    let ?m = "tokens_prefilled rq" and ?p = "prompt_token_ids rq"
    define e where "e = min (?m + chunk_size K) (length ?p)"
    have st: "?p = tok_prompt K rq" "?m < length ?p" "tokens_generated rq = []" "pending_decode_tokens rq = None" "rq_finish rq = None"
      using rq(1) True by (auto simp: request_right_def state_right_def prefilling_def)
    have inp: "step_input K rq = drop ?m (take e ?p)" using True by (simp add: step_input_def e_def)
    have el: "?m \<le> e" "e \<le> length ?p" "?m + length (step_input K rq) = e" "?m < e" using st(2) chunk by (simp_all add: inp e_def)
    have w: "work K rq = 2 * tokens_left rq + (length ?p - ?m) + 1" using True by (auto simp: work_def prefilling_def)
    have hist: "snd x @ step_input K rq = take e ?p"
      using True take_drop_take [OF el(1)] by (simp add: inp h(2) slot_history_def)
    have eq: "rq' = (if e = length ?p then rq\<lparr>tokens_prefilled := e, rq_state := Decoding, last_logits := Some row\<rparr>
        else rq\<lparr>tokens_prefilled := e, rq_state := Chunked_Prefilling\<rparr>)"
      by (simp add: rq' after_forward_def True el(3))
    have sel: "prompt_token_ids rq' = ?p" "tokens_generated rq' = []" "pending_decode_tokens rq' = None" "rq_finish rq' = None"
        "tokens_prefilled rq' = e"
      using st by (simp_all add: eq)
    show ?thesis
    proof (cases "e = length ?p")
      case e': True
      then have "rq_state rq' = Decoding" "last_logits rq' = Some row" by (simp_all add: eq)
      then show ?thesis using e' sel hist row room st(1) sD(3) [of K] sD(5) w left el(4)
        by (simp add: work_def [of K rq'] state_right_def slot_history_def prefilling_def fed_tokens_def)
    next
      case False
      then have "rq_state rq' = Chunked_Prefilling" by (simp add: eq)
      then show ?thesis using False el(2,4) sel hist st(1) sD(3) [of K] w left
        by (simp add: work_def [of K rq'] state_right_def slot_history_def prefilling_def)
    qed
  next
    case False
    then obtain ts where ts: "rq_state rq = Decoding" "pending_decode_tokens rq = Some ts"
      using rq(2) by (auto simp: ready_def)
    then have st: "prompt_token_ids rq = tok_prompt K rq" "rq_finish rq = None" "tokens_generated rq \<noteq> []" "ts = [last (tokens_generated rq)]"
      using rq(1) by (auto simp: request_right_def state_right_def)
    then have "snd x @ step_input K rq = prompt_token_ids rq @ tokens_generated rq"
      using False ts by (simp add: h(2) slot_history_def fed_tokens_def step_input_def)
    moreover have "rq_state rq' = Decoding" "last_logits rq' = Some row" "pending_decode_tokens rq' = None"
        "prompt_token_ids rq' = prompt_token_ids rq" "tokens_generated rq' = tokens_generated rq" "rq_finish rq' = None"
      using False ts st by (simp_all add: rq' after_forward_def)
    ultimately show ?thesis using st row room sD(3) [of K] sD(5) ts left
      by (simp add: work_def state_right_def slot_history_def prefilling_def fed_tokens_def)
  qed
  moreover have "batch_idx rq' = batch_idx rq" "prompt_token_ids rq' = prompt_token_ids rq" by (simp_all add: rq')
  moreover have "state_right target K rq' \<Longrightarrow> request_right U target K rq'"
    unfolding sD(7) using rq(1) by (simp add: request_right_def)
  moreover have "sends K rq rq'" if "rq_state rq' \<noteq> Done"
    by (rule sends_same) (use same h(4) that in \<open>simp_all add: same_output_def\<close>)
  then have "work K rq' < work K rq \<Longrightarrow> rq_state rq' \<noteq> Done \<Longrightarrow> later_request K rq rq'"
    using same h(4) by (simp add: later_request_def same_output_def)
  ultimately show "request_right U target K rq'" "slot_right rq' i (fst x, snd x @ step_input K rq)"
    "rq_state rq' \<noteq> Waiting" "rq_state rq' \<noteq> Done" "later_request K rq rq'" "work K rq' < work K rq"
    "rq_state rq' = Decoding \<Longrightarrow> last_logits rq' = Some row \<and> pending_decode_tokens rq' = None"
    using h by (simp_all add: slot_right_def)
qed

section \<open>The batch\<close>

text \<open>After a reap no request of the running list is done, and the running list is the batch.\<close>

definition reaped :: "('v, 'lg, 'c) sched \<Rightarrow> bool" where
  "reaped s \<longleftrightarrow> (\<forall>r \<in> set (running s). rq_state (reqs s r) \<noteq> Done)"

lemma reaped_slots:
  assumes inv: "sched_inv ok idle U target K s" and "reaped s"
  shows "slots s = running s" "in_flight s = running s" "alive_requests s = running s"
proof -
  note i = sched_invD [OF inv]
  have st: "rq_state (reqs s r) \<noteq> Waiting \<and> rq_state (reqs s r) \<noteq> Done \<and> batch_idx (reqs s r) \<noteq> None"
    if r: "r \<in> set (running s)" for r
  proof -
    have w: "rq_state (reqs s r) \<noteq> Waiting" using i(1) i(5) [OF i(2) [OF r]] r by auto
    moreover have "rq_state (reqs s r) \<noteq> Done" using assms(2) r by (simp add: reaped_def)
    ultimately show ?thesis using i(6) [OF i(2) [OF r]] by blast
  qed
  show "slots s = running s" "in_flight s = running s"
    using st by (simp_all add: slots_def in_flight_def filter_id_conv)
  have "prefilling (reqs s r) \<or> rq_state (reqs s r) = Decoding" if "r \<in> set (running s)" for r
    using st [OF that] by (cases "rq_state (reqs s r)") (simp_all add: prefilling_def)
  then show "alive_requests s = running s" by (simp add: alive_requests_def filter_id_conv)
qed

lemma reaped_victim:
  assumes "sched_inv ok idle U target K s" "reaped s" "running s \<noteq> []"
  shows "preemption_victim s \<noteq> None"
proof -
  obtain r where r: "r \<in> set (running s)" using assms(3) by (cases "running s") auto
  then have "r \<in> set (alive_requests s)" using reaped_slots(3) [OF assms(1,2)] by simp
  then have "prefilling (reqs s r) \<or> rq_state (reqs s r) = Decoding" by (simp add: alive_requests_def)
  then show ?thesis using r by (auto simp: preemption_victim_def Let_def filter_empty_conv)
qed

text \<open>The invariant after every request of the batch has changed with its slot.\<close>

lemma inv_batch:
  assumes inv: "sched_inv ok idle U target K s" and run: "slots s = running s"
    and s': "\<And>r. reqs s' r = (if r \<in> set (running s) then g r else reqs s r)" "running s' = running s" "waiting s' = waiting s"
      "next_req s' = next_req s" "pre_forward s' = None" "sched_cache s' = Some c" "sched_pool s' = P"
    and sl: "ok sl (c, P)" "length sl = length (running s)"
    and g: "\<And>i. i < length sl \<Longrightarrow> request_right U target K (g (running s ! i)) \<and> slot_right (g (running s ! i)) i (sl ! i) \<and>
      rq_state (g (running s ! i)) \<noteq> Waiting"
    and d: "\<And>d. deferred s' = Some d \<Longrightarrow> deferred_right K s' d"
  shows "sched_inv ok idle U target K s'"
proof -
  note i = sched_invD [OF inv]
  have gi: "request_right U target K (g r) \<and> batch_idx (g r) \<noteq> None \<and> rq_state (g r) \<noteq> Waiting" if "r \<in> set (running s)" for r
    using g that sl(2) by (auto simp: in_set_conv_nth slot_right_def)
  have "queues_right s'"
    unfolding queues_right_def s'
  proof (intro conjI ballI allI impI)
    show "distinct (running s @ waiting s)" by (rule i(1))
    show "r < next_req s" if "r \<in> set (running s @ waiting s)" for r using i(2,3) that by auto
    fix r assume r: "r < next_req s"
    show "rq_state (if r \<in> set (running s) then g r else reqs s r) = Waiting \<longleftrightarrow> r \<in> set (waiting s)"
      using i(1) i(5) [OF r] gi by auto
    assume "rq_state (if r \<in> set (running s) then g r else reqs s r) \<noteq> Waiting \<and>
      rq_state (if r \<in> set (running s) then g r else reqs s r) \<noteq> Done"
    then show "r \<in> set (running s)" "batch_idx (if r \<in> set (running s) then g r else reqs s r) \<noteq> None"
      using i(6) [OF r] gi by (auto split: if_splits)
  qed
  moreover have "slots s' = running s" using gi by (simp add: slots_def s' filter_id_conv)
  then have "cache_right ok idle s'"
    by (intro cache_rightI [where sl = sl, OF s'(6)]) (use sl g in \<open>simp_all add: s'\<close>)
  moreover have "request_right U target K (reqs s' r)" if "r < next_req s" for r
    using i(4) [OF that] gi by (simp add: s'(1))
  ultimately show ?thesis using d s'(4,5) by (simp add: sched_inv_def)
qed

text \<open>The state that an \<open>OutOfMemoryError\<close> of a forward leaves: rolled back, it is right again.\<close>

definition oom_state ::
  "(slot list \<Rightarrow> 'v kvs \<Rightarrow> bool) \<Rightarrow> ('v pool \<Rightarrow> bool) \<Rightarrow> token list set \<Rightarrow> (token list \<Rightarrow> 'lg) \<Rightarrow> ('v, 'lg, 'c) sched_config
    \<Rightarrow> ('v, 'lg, 'c) sched \<Rightarrow> bool" where
  "oom_state ok idle U target K s \<longleftrightarrow> preemption_victim s \<noteq> None \<and> (\<exists>lens c c' P'. pre_forward s = Some lens \<and> sched_cache s = Some c \<and>
     length lens = batch_size c \<and> roll_back lens (c, sched_pool s) = (Inr (), (c', P')) \<and>
     sched_inv ok idle U target K (s\<lparr>pre_forward := None, sched_cache := Some c', sched_pool := P'\<rparr>))"

section \<open>Deferred sampling\<close>

lemma defer_sampling_ok:
  assumes "length rows = length rs" "distinct rs"
    and "\<And>j. j < length rs \<Longrightarrow> rs ! j < next_req s \<and> last_logits (reqs s (rs ! j)) = Some (rows ! j)"
  shows "\<exists>d g. defer_sampling K rs rows s = (Inr d, s\<lparr>rng := g\<rparr>) \<and> deferred_right K s d \<and> dt_requests d = rs"
proof -
  let ?ps = "map (\<lambda>r. sampling (rq_request (reqs s r))) rs"
  obtain ts g where t: "sample_tokens (sc_sampler K) rows ?ps (rng s) = (Inr ts, g)" "greedy_rows (sc_sampler K) rows ?ps ts"
    using sample_tokens_ok [of rows ?ps "sc_sampler K" "rng s"] assms(1) by auto
  have "deferred_right K s \<lparr>dt_tokens = ts, dt_requests = rs\<rparr>"
    using t(2) assms by (auto simp: deferred_right_def greedy_rows_def is_greedy_def Let_def)
  then show ?thesis using t(1)
    by (intro exI [of _ "\<lparr>dt_tokens = ts, dt_requests = rs\<rparr>"] exI [of _ g]) (simp add: defer_sampling_def)
qed

lemma defer_after_forward_ok:
  assumes inv: "sched_inv ok idle U target K s"
    and rows: "\<And>i. i < length (running s) \<Longrightarrow> rq_state (reqs s (running s ! i)) = Decoding \<Longrightarrow>
      logit_rows ! (i + 1) - 1 < length rows \<and> last_logits (reqs s (running s ! i)) = Some (rows ! (logit_rows ! (i + 1) - 1))"
  shows "\<exists>d g. defer_after_forward K (running s) rows logit_rows s = (Inr d, s\<lparr>rng := g\<rparr>) \<and>
    (\<forall>d'. d = Some d' \<longrightarrow> deferred_right K s d')"
proof -
  let ?n = "length (running s)" and ?z = "zip [0 ..< length (running s)] (running s)"
  define decoders where "decoders = filter (\<lambda>(i, r). rq_state (reqs s r) = Decoding \<and> rq_spec (reqs s r) = None) ?z"
  define last_rows where "last_rows = map (\<lambda>(i, r). logit_rows ! (i + 1) - 1) decoders"
  have dec: "fst x < ?n \<and> snd x = running s ! fst x \<and> rq_state (reqs s (running s ! fst x)) = Decoding" if "x \<in> set decoders" for x
    using that in_zip_index [of x "running s"] by (auto simp: decoders_def)
  have at: "rs \<in> set decoders \<Longrightarrow> logit_rows ! (fst rs + 1) - 1 < length rows" for rs
    using dec [of rs] rows [of "fst rs"] by simp
  have bound: "\<forall>i \<in> set last_rows. i < length rows" using at by (auto simp: last_rows_def)
  have "distinct (map snd ?z)" using sched_invD(1) [OF inv] by simp
  then have dist: "distinct (map snd decoders)" unfolding decoders_def by (rule distinct_map_filter)
  have "\<exists>d g. defer_sampling K (map snd decoders) (map ((!) rows) last_rows) s = (Inr d, s\<lparr>rng := g\<rparr>) \<and> deferred_right K s d \<and>
      dt_requests d = map snd decoders"
  proof (rule defer_sampling_ok [OF _ dist])
    fix j assume j: "j < length (map snd decoders)"
    then have d: "decoders ! j \<in> set decoders" by simp
    have m: "running s ! fst (decoders ! j) \<in> set (running s)" using dec [OF d] by simp
    show "map snd decoders ! j < next_req s \<and> last_logits (reqs s (map snd decoders ! j)) = Some (map ((!) rows) last_rows ! j)"
      using j dec [OF d] rows [of "fst (decoders ! j)"] sched_invD(2) [OF inv m]
      by (simp add: last_rows_def split_beta)
  qed (simp add: last_rows_def)
  then obtain d g where d: "defer_sampling K (map snd decoders) (map ((!) rows) last_rows) s = (Inr d, s\<lparr>rng := g\<rparr>)" "deferred_right K s d"
    by blast
  have front: "take ?n rows = map ((!) rows) last_rows" if "last_rows = [0 ..< ?n]"
  proof -
    have "?n \<le> length rows" using bound unfolding that by (cases ?n) auto
    then show ?thesis unfolding that by (intro nth_equalityI) simp_all
  qed
  show ?thesis
  proof (cases "decoders = []")
    case True
    then show ?thesis
      by (simp add: defer_after_forward_def decoders_def [symmetric]) (metis sched.surjective sched.update_convs(9))
  next
    case False
    have "list_ex (\<lambda>i. \<not> i < length rows) last_rows = False" using bound by (auto simp: list_ex_iff)
    then have "defer_after_forward K (running s) rows logit_rows s =
        seq (defer_sampling K (map snd decoders) (map ((!) rows) last_rows)) (\<lambda>d. ret (Some d)) s"
      using False front unfolding defer_after_forward_def Let_def decoders_def [symmetric] last_rows_def [symmetric] by simp
    then show ?thesis using d by (auto simp: seq_def ret_def)
  qed
qed

section \<open>The synchronous forward\<close>

text \<open>What a forward step does: it returns in a state that is right, or runs out of blocks in one that rolls back.\<close>

definition step_right ::
  "(slot list \<Rightarrow> 'v kvs \<Rightarrow> bool) \<Rightarrow> ('v pool \<Rightarrow> bool) \<Rightarrow> token list set \<Rightarrow> (token list \<Rightarrow> 'lg) \<Rightarrow> ('v, 'lg, 'c) sched_config
    \<Rightarrow> ('v, 'lg, 'c) sched \<Rightarrow> 'a res \<times> ('v, 'lg, 'c) sched \<Rightarrow> bool" where
  "step_right ok idle U target K s out \<longleftrightarrow> later K s (snd out) \<and>
     (case fst out of
        Inr _ \<Rightarrow> sched_inv ok idle U target K (snd out)
      | Inl e \<Rightarrow> e = OutOfMemoryError \<and> oom_state ok idle U target K (snd out))"

text \<open>A step that returns has lowered the work of some request.\<close>

definition progress :: "('v, 'lg, 'c) sched_config \<Rightarrow> ('v, 'lg, 'c) sched \<Rightarrow> ('v, 'lg, 'c) sched \<Rightarrow> bool" where
  "progress K s s' \<longleftrightarrow> (\<exists>r < next_req s. work K (reqs s' r) < work K (reqs s r))"

definition step_works ::
  "('v, 'lg, 'c) sched_config \<Rightarrow> ('v, 'lg, 'c) sched \<Rightarrow> 'a res \<times> ('v, 'lg, 'c) sched \<Rightarrow> bool" where
  "step_works K s out \<longleftrightarrow> (\<forall>x. fst out = Inr x \<longrightarrow> progress K s (snd out))"

lemma batch_inputs_ok:
  assumes inv: "sched_inv ok idle U target K s" and chunk: "0 < chunk_size K"
    and sl: "length sl = length (running s)" "lens = map (length \<circ> snd) sl"
      "\<And>i. i < length sl \<Longrightarrow> slot_right (reqs s (running s ! i)) i (sl ! i)"
    and ready: "\<And>r. r \<in> set (running s) \<Longrightarrow> ready (reqs s r)"
    and fed: "\<And>r. r \<in> set (running s) \<Longrightarrow> \<not> prefilling (reqs s r) \<Longrightarrow> fed r = pending_decode_tokens (reqs s r)"
  shows "batch_inputs K fed lens (running s) s =
    Inr (map (\<lambda>(i, r). (step_input K (reqs s r), length (snd (sl ! i)))) (zip [0 ..< length (running s)] (running s)))"
proof -
  have "(case x of (i, r) \<Rightarrow> request_input K fed lens i (reqs s r) r) =
      Inr (case x of (i, r) \<Rightarrow> (step_input K (reqs s r), length (snd (sl ! i))))"
    if x: "x \<in> set (zip [0 ..< length (running s)] (running s))" for x
  proof -
    obtain i where i: "i < length (running s)" "x = (i, running s ! i)" using x by (auto simp: in_zip_index)
    let ?rq = "reqs s (running s ! i)"
    have r: "running s ! i \<in> set (running s)" using i by simp
    have right: "request_right U target K ?rq" using sched_invD(2,4) [OF inv] r by blast
    have slot: "slot_right ?rq i (sl ! i)" using sl(1,3) i by simp
    note inp = step_input_right [OF right ready [OF r] slot chunk]
    have b: "batch_idx ?rq = Some i" using slot by (simp add: slot_right_def)
    have n: "nth_res lens i = Inr (length (snd (sl ! i)))" using i sl(1,2) by (simp add: nth_res_def)
    show ?thesis
    proof (cases "prefilling ?rq")
      case True
      then show ?thesis using b n inp(1,3) by (simp add: i(2) request_input_def step_input_def Let_def del: nth_res_Inr)
    next
      case False
      then obtain ts where "pending_decode_tokens ?rq = Some ts" using ready [OF r] by (auto simp: ready_def)
      then show ?thesis using False b n inp(1) fed [OF r] by (simp add: i(2) request_input_def step_input_def del: nth_res_Inr)
    qed
  qed
  then show ?thesis unfolding batch_inputs_def by (rule collect_Inr)
qed

text \<open>The logits row of request \<open>i\<close>.\<close>

lemma row_at:
  assumes rows: "request_rows target sl new lr rows" and i: "i < length new" and ne: "[] \<notin> set new"
    and lro: "logit_rows = (if lr then [0 ..< length new + 1] else sums_from 0 (map length new))"
  shows "logit_rows ! (i + 1) - 1 < length rows" "rows ! (logit_rows ! (i + 1) - 1) = target (snd (sl ! i) @ new ! i)"
proof -
  show "rows ! (logit_rows ! (i + 1) - 1) = target (snd (sl ! i) @ new ! i)"
    using rows i unfolding request_rows_def lro by (auto simp del: upt_Suc)
  have "0 < length (new ! i)" using ne i by (metis length_greater_0_conv nth_mem)
  moreover have "sum_list (map length (take (Suc i) new)) \<le> sum_list (map length new)"
    by (metis append_take_drop_id le_add1 map_append sum_list_append)
  moreover have "sums_from 0 (map length new) ! (i + 1) = sum_list (map length (take (Suc i) new))"
    using i by (simp add: nth_sums_from take_map)
  moreover have "length (new ! i) \<le> sum_list (map length (take (Suc i) new))" using i by (simp add: take_Suc_conv_app_nth)
  ultimately have "sums_from 0 (map length new) ! (i + 1) - 1 < sum_list (map length new)" by linarith
  then show "logit_rows ! (i + 1) - 1 < length rows"
    using rows i unfolding request_rows_def lro by (simp del: upt_Suc)
qed

lemma take_logits_plain:
  assumes "rq_spec (reqs s r) = None" "cu ! (i + 1) - cu ! i = n"
    and "logit_rows ! (i + 1) - 1 < length rows" "rows ! (logit_rows ! (i + 1) - 1) = row"
  shows "take_logits K cu logit_rows rows None (i, r) s = (Inr (), upd r (\<lambda>_. after_forward n row (reqs s r)) s)"
  using assms
  by (simp add: take_logits_def after_forward_def seq_def modify_def nth_res_def Let_def)
    (auto simp: upd_def)

context batch_runner begin

text \<open>The call of the runner for a reaped batch.\<close>

lemma run_forward_ok:
  assumes inv: "sched_inv ok idle U target K s" and re: "reaped s" and ne: "running s \<noteq> []" and K: "plain_config forward digest K"
    and c: "sched_cache s = Some c" "ok sl (c, sched_pool s)" "length sl = length (running s)"
      "\<And>i. i < length sl \<Longrightarrow> slot_right (reqs s (running s ! i)) i (sl ! i)"
    and new: "length new = length sl" "[] \<notin> set new" "\<And>b. b < length sl \<Longrightarrow> follows_prompt (sl ! b) (new ! b)"
    and ids: "input_tokens ids = concat new" "device_count_ok ids (length new)"
  shows "(\<exists>rows taps c' P'. run_forward K (num_tokens c) ids (sums_from 0 (map length new)) (map (length \<circ> snd) sl) False lr s =
        (Inr (rows, taps), s\<lparr>sched_cache := Some c', sched_pool := P', pre_forward := None\<rparr>) \<and>
        request_rows target sl new lr rows \<and> ok (add_tokens sl new) (c', P')) \<or>
    (\<exists>s'. run_forward K (num_tokens c) ids (sums_from 0 (map length new)) (map (length \<circ> snd) sl) False lr s =
        (Inl OutOfMemoryError, s') \<and> oom_state ok idle U target K s' \<and> later K s s' \<and> reqs s' = reqs s \<and>
        running s' = running s \<and> waiting s' = waiting s)"
proof -
  have K': "forward_packed K = forward" using K by (simp add: plain_config_def)
  have n: "num_tokens c = map (length \<circ> snd) sl" using lens [OF c(2)] by simp
  let ?f = "forward ids (sums_from 0 (map length new)) (map (length \<circ> snd) sl) False lr (c, sched_pool s)"
  have "(\<exists>rows taps s'. ?f = (Inr (rows, taps), s') \<and> request_rows target sl new lr rows \<and> ok (add_tokens sl new) s') \<or>
      (\<exists>s1 s2. ?f = (Inl OutOfMemoryError, s1) \<and> batch_size (fst s1) = length sl \<and>
        roll_back (map (length \<circ> snd) sl) s1 = (Inr (), s2) \<and> ok sl s2)"
    by (rule forward [OF c(2) new(1,2) _ ids]) (rule new(3))
  then show ?thesis
  proof (elim disjE exE conjE)
    fix rows taps s' assume f: "?f =
        (Inr (rows, taps), s')" "request_rows target sl new lr rows" "ok (add_tokens sl new) s'"
    then show ?thesis
      using c(1) by (cases s', intro disjI1) (auto simp: run_forward_def on_kvs_def seq_def K')
  next
    fix s1 s2 assume f: "?f =
        (Inl OutOfMemoryError, s1)" "batch_size (fst s1) = length sl" "roll_back (map (length \<circ> snd) sl) s1 = (Inr (), s2)" "ok sl s2"
    obtain c1 P1 c2 P2 where s1: "s1 = (c1, P1)" "s2 = (c2, P2)" by (cases s1, cases s2)
    let ?s = "s\<lparr>pre_forward := Some (num_tokens c), sched_cache := Some c1, sched_pool := P1\<rparr>"
    have "sched_inv ok idle U target K (s\<lparr>pre_forward := None, sched_cache := Some c2, sched_pool := P2\<rparr>)"
    proof (rule inv_batch [where g = "reqs s" and sl = sl, OF inv reaped_slots(1) [OF inv re]])
      show "request_right U target K (reqs s (running s ! i)) \<and> slot_right (reqs s (running s ! i)) i (sl ! i) \<and>
          rq_state (reqs s (running s ! i)) \<noteq> Waiting" if i: "i < length sl" for i
      proof -
        have r: "running s ! i \<in> set (running s)" using i c(3) by simp
        then have "rq_state (reqs s (running s ! i)) \<noteq> Waiting"
          using sched_invD(1) [OF inv] sched_invD(5) [OF inv sched_invD(2) [OF inv r]] by auto
        then show ?thesis using c(4) [OF i] sched_invD(4) [OF inv sched_invD(2) [OF inv r]] by blast
      qed
      show "deferred_right K (s\<lparr>pre_forward := None, sched_cache := Some c2, sched_pool := P2\<rparr>) d"
        if "deferred (s\<lparr>pre_forward := None, sched_cache := Some c2, sched_pool := P2\<rparr>) = Some d" for d
        using sched_invD(8) [OF inv, of d] that by (simp add: deferred_right_def)
    qed (use f(4) s1 c(3) in simp_all)
    moreover have "preemption_victim ?s = preemption_victim s" by (simp add: preemption_victim_def Let_def)
    ultimately have "oom_state ok idle U target K ?s"
      unfolding oom_state_def using f(2,3) n s1 reaped_victim [OF inv re ne]
      by (intro conjI exI [of _ "num_tokens c"] exI [of _ c1] exI [of _ c2] exI [of _ P2]) simp_all
    moreover have "run_forward K (num_tokens c) ids (sums_from 0 (map length new)) (map (length \<circ> snd) sl) False lr s =
        (Inl OutOfMemoryError, ?s)"
      using f(1) c(1) s1 by (simp add: run_forward_def on_kvs_def seq_def K')
    ultimately show ?thesis by (intro disjI2 exI [of _ ?s]) (simp add: later_def engine_fields_def)
  qed
qed

lemma packed_forward_ok:
  assumes inv: "sched_inv ok idle U target K s" and re: "reaped s" and ne: "running s \<noteq> []" and d: "deferred s = None"
    and K: "plain_config forward digest K"
    and fed: "\<And>r. r \<in> set (running s) \<Longrightarrow> rq_state (reqs s r) = Decoding \<Longrightarrow> fed_right s fed r"
  shows "step_right ok idle U target K s (packed_forward K (running s) fed s) \<and>
    step_works K s (packed_forward K (running s) fed s)"
proof -
  have K': "sc_dspark K = None" "0 < chunk_size K" using K by (simp_all add: plain_config_def)
  note run = reaped_slots [OF inv re]
  obtain c where c: "sched_cache s = Some c"
    using sched_invD(7) [OF inv] run(1) ne by (cases "sched_cache s") (auto simp: cache_right_def)
  obtain sl where sl: "ok sl (c, sched_pool s)" "length sl = length (running s)"
      "\<And>i. i < length sl \<Longrightarrow> slot_right (reqs s (running s ! i)) i (sl ! i)"
    using cache_rightE [OF sched_invD(7) [OF inv] c] run(1) by metis
  have right: "request_right U target K (reqs s r)" if "r \<in> set (running s)" for r
    using sched_invD(2,4) [OF inv] that by blast
  have rdy: "ready (reqs s r)" and feds: "\<not> prefilling (reqs s r) \<Longrightarrow> fed r = pending_decode_tokens (reqs s r)"
    if r: "r \<in> set (running s)" for r
  proof -
    have "prefilling (reqs s r) \<or> rq_state (reqs s r) = Decoding"
      using run(3) r unfolding alive_requests_def by (simp add: filter_id_conv)
    moreover have "pending_decode_tokens (reqs s r) \<noteq> None \<and> fed r = pending_decode_tokens (reqs s r)" if "rq_state (reqs s r) = Decoding"
      using fed [OF r that] that unfolding fed_right_def by (metis request_state.distinct)
    ultimately show "ready (reqs s r)" "\<not> prefilling (reqs s r) \<Longrightarrow> fed r = pending_decode_tokens (reqs s r)"
      by (auto simp: ready_def)
  qed
  have n: "num_tokens c = map (length \<circ> snd) sl" using lens [OF sl(1)] by simp
  define new where "new = map (\<lambda>r. step_input K (reqs s r)) (running s)"
  let ?z = "zip [0 ..< length (running s)] (running s)"
  let ?inputs = "map (\<lambda>(i, r). (step_input K (reqs s r), length (snd (sl ! i)))) ?z"
  have inputs: "batch_inputs K fed (num_tokens c) (running s) s = Inr ?inputs"
    using batch_inputs_ok [OF inv K'(2) sl(2) n sl(3)] rdy feds by blast
  have parts: "map fst ?inputs = new" "map snd ?inputs = map (length \<circ> snd) sl" "map (length \<circ> fst) ?inputs = map length new"
    using sl(2) by (auto simp: new_def intro!: nth_equalityI)
  have len: "length new = length sl" by (simp add: new_def sl(2))
  have inp: "step_input K (reqs s (running s ! i)) \<noteq> []" "follows_prompt (sl ! i) (step_input K (reqs s (running s ! i)))"
    if "i < length sl" for i
    using step_input_right [OF right rdy sl(3) [OF that] K'(2)] that sl(2) by simp_all
  have nne: "[] \<notin> set new" using inp(1) sl(2) by (fastforce simp: new_def in_set_conv_nth)
  have fp: "follows_prompt (sl ! b) (new ! b)" if "b < length sl" for b using inp(2) [OF that] that sl(2) by (simp add: new_def)
  let ?lr = "last_rows_only K" and ?cu = "sums_from 0 (map length new)"
  let ?ids = "Host_Ids (concat new)"
  define lo where "lo = (if last_rows_only K then [0 ..< length (running s) + 1] else sums_from 0 (map length new))"
  have lro: "lo = (if last_rows_only K then [0 ..< length new + 1] else sums_from 0 (map length new))"
    using len sl(2) by (simp add: lo_def)
  have pf: "packed_forward K (running s) fed s =
      seq (run_forward K (num_tokens c) ?ids ?cu (map (length \<circ> snd) sl) False ?lr)
        (\<lambda>(rows, taps). seq (for_each (take_logits K ?cu lo rows None) ?z)
          (\<lambda>_. seq (if async_sampling K then seq (defer_after_forward K (running s) rows lo) (\<lambda>d. modify (\<lambda>s. s\<lparr>deferred := d\<rparr>)) else ret ())
            (\<lambda>_. ret (rows, ?cu, None)))) s"
    unfolding packed_forward_def c option.case inputs sum.case Let_def parts lo_def
    by (simp add: K'(1) parts cong: if_cong del: map_map upt_Suc)
  let ?rf = "run_forward K (num_tokens c) ?ids ?cu (map (length \<circ> snd) sl) False ?lr s"
  have "(\<exists>rows taps c' P'. ?rf = (Inr (rows, taps), s\<lparr>sched_cache := Some c', sched_pool := P', pre_forward := None\<rparr>) \<and>
        request_rows target sl new ?lr rows \<and> ok (add_tokens sl new) (c', P')) \<or>
      (\<exists>s'. ?rf = (Inl OutOfMemoryError, s') \<and> oom_state ok idle U target K s' \<and> later K s s' \<and> reqs s' = reqs s \<and>
        running s' = running s \<and> waiting s' = waiting s)"
    by (rule run_forward_ok [OF inv re ne K c sl len nne fp]) (simp_all add: input_tokens_def device_count_ok_def)
  then show ?thesis
  proof (elim disjE exE conjE)
    fix s' assume "?rf = (Inl OutOfMemoryError, s')" "oom_state ok idle U target K s'" "later K s s'"
    then show ?thesis by (simp add: pf seq_def step_right_def step_works_def)
  next
    fix rows taps c' P' assume f: "?rf = (Inr (rows, taps), s\<lparr>sched_cache := Some c', sched_pool := P', pre_forward := None\<rparr>)"
      and rr: "request_rows target sl new ?lr rows" and ok': "ok (add_tokens sl new) (c', P')"
    define s1 where "s1 = s\<lparr>sched_cache := Some c', sched_pool := P', pre_forward := None\<rparr>"
    define g where "g = (\<lambda>r. let i = the (batch_idx (reqs s r)) in after_forward (length (new ! i)) (rows ! (lo ! (i + 1) - 1)) (reqs s r))"
    have at: "lo ! (i + 1) - 1 < length rows" "rows ! (lo ! (i + 1) - 1) = target (snd (sl ! i) @ new ! i)" if "i < length sl" for i
      using row_at [OF rr _ nne lro, of i] that len by simp_all
    have gi: "g (running s ! i) = after_forward (length (new ! i)) (rows ! (lo ! (i + 1) - 1)) (reqs s (running s ! i))"
      if "i < length sl" for i
      using sl(3) [OF that] by (simp add: g_def slot_right_def)
    have newi: "new ! i = step_input K (reqs s (running s ! i))" if "i < length sl" for i using that sl(2) by (simp add: new_def)
    have loop: "for_each (take_logits K ?cu lo rows None) ?z s1 = (Inr (), upd_all (map snd ?z) g s1)"
    proof (rule for_each_upd_all)
      show "distinct (map snd ?z)" using sched_invD(1) [OF inv] by simp
      fix x R assume x: "x \<in> set ?z" and R: "R (snd x) = reqs s1 (snd x)"
      obtain i where i: "i < length (running s)" "x = (i, running s ! i)" using x by (auto simp: in_zip_index)
      have "take_logits K ?cu lo rows None (i, running s ! i) (s1\<lparr>reqs := R\<rparr>) =
          (Inr (), upd (running s ! i) (\<lambda>_. after_forward (length (new ! i)) (rows ! (lo ! (i + 1) - 1))
            (reqs (s1\<lparr>reqs := R\<rparr>) (running s ! i))) (s1\<lparr>reqs := R\<rparr>))"
        by (rule take_logits_plain)
          (use R i right [of "running s ! i"] at(1) sums_from_diff [of i "map length new" 0] sl(2) len
            in \<open>simp_all add: s1_def request_right_def\<close>)
      then show "take_logits K ?cu lo rows None x (s1\<lparr>reqs := R\<rparr>) = (Inr (), upd (snd x) (\<lambda>_. g (snd x)) (s1\<lparr>reqs := R\<rparr>))"
        using R i gi [of i] sl(2) by (simp add: s1_def)
    qed
    define s2 where "s2 = upd_all (running s) g s1"
    have g: "request_right U target K (g (running s ! i)) \<and> slot_right (g (running s ! i)) i (add_tokens sl new ! i) \<and>
        rq_state (g (running s ! i)) \<noteq> Waiting \<and> later_request K (reqs s (running s ! i)) (g (running s ! i)) \<and>
        work K (g (running s ! i)) < work K (reqs s (running s ! i)) \<and>
        (rq_state (g (running s ! i)) = Decoding \<longrightarrow> last_logits (g (running s ! i)) = Some (rows ! (lo ! (i + 1) - 1)))"
      if i: "i < length sl" for i
    proof -
      have r: "running s ! i \<in> set (running s)" using i sl(2) by simp
      have row: "rows ! (lo ! (i + 1) - 1) = target (snd (sl ! i) @ step_input K (reqs s (running s ! i)))"
        using at(2) [OF i] newi [OF i] by simp
      have eq: "g (running s ! i) = after_forward (length (step_input K (reqs s (running s ! i)))) (rows ! (lo ! (i + 1) - 1)) (reqs s (running s ! i))"
        using gi [OF i] newi [OF i] by simp
      have "add_tokens sl new ! i = (fst (sl ! i), snd (sl ! i) @ step_input K (reqs s (running s ! i)))"
        using i len newi [OF i] by (simp add: add_tokens_def split_beta)
      then show ?thesis
        using after_forward_right [OF right [OF r] rdy [OF r] sl(3) [OF i] K'(2) row eq] by simp
    qed
    have sel: "reqs s2 r = (if r \<in> set (running s) then g r else reqs s r)" "running s2 = running s" "waiting s2 = waiting s"
        "next_req s2 = next_req s" "pre_forward s2 = None" "sched_cache s2 = Some c'" "sched_pool s2 = P'" "deferred s2 = None"
        "engine_fields s2 = engine_fields s" for r
      using d by (simp_all add: s2_def s1_def upd_all_def engine_fields_def)
    have inv2: "sched_inv ok idle U target K s2"
      by (rule inv_batch [OF inv run(1) sel(1-7) ok']) (use g len sl(2) sel(8) in \<open>simp_all add: add_tokens_def\<close>)
    have "later_request K (reqs s r) (g r)" if "r \<in> set (running s)" for r
      using g that sl(2) by (auto simp: in_set_conv_nth)
    then have l2: "later K s s2" using sel by (simp add: later_def)
    have pr: "work K (reqs s2 (running s ! 0)) < work K (reqs s (running s ! 0))" "running s ! 0 < next_req s"
      using g [of 0] ne sl(2) sched_invD(2) [OF inv, of "running s ! 0"] by (simp_all add: sel(1))
    show ?thesis
    proof (cases "async_sampling K")
      case False
      then show ?thesis using inv2 l2 f loop pr
        by (auto simp: pf seq_def ret_def step_right_def step_works_def progress_def s1_def [symmetric] s2_def [symmetric])
    next
      case True
      obtain d' gr where d': "defer_after_forward K (running s2) rows lo s2 = (Inr d', s2\<lparr>rng := gr\<rparr>)"
          "\<And>d. d' = Some d \<Longrightarrow> deferred_right K s2 d"
        using defer_after_forward_ok [where K = K and logit_rows = lo and rows = rows, OF inv2] g at(1) sl(2) sel(1,2) by fastforce
      have "sched_inv ok idle U target K (s2\<lparr>rng := gr, deferred := d'\<rparr>)"
        by (rule inv_deferred) (use inv2 d'(2) in simp_all)
      moreover have "later K s (s2\<lparr>rng := gr, deferred := d'\<rparr>)" using l2 by (simp add: later_def engine_fields_def)
      ultimately show ?thesis using True f loop d'(1) sel(2) pr
        by (auto simp: pf seq_def ret_def modify_def step_right_def step_works_def progress_def s1_def [symmetric] s2_def [symmetric])
    qed
  qed
qed

end

end
