(* ===== verification/Scheduler_Turn.thy ===== *)
theory Scheduler_Turn
  imports Scheduler_Forward
begin

text \<open>
  One turn of the engine: the synchronous and the asynchronous step, the recovery from a forward that ran
  out of blocks, and the turn as a whole, which never crashes.
\<close>

text \<open>The life cycle fields are not read by the invariant.\<close>

lemma parts_flags [simp]:
  "queues_right (s\<lparr>engine_thread := x\<rparr>) = queues_right s" "cache_right ok idle (s\<lparr>engine_thread := x\<rparr>) = cache_right ok idle s"
  "deferred_right K (s\<lparr>engine_thread := x\<rparr>) d = deferred_right K s d"
  "queues_right (s\<lparr>stop_event := b\<rparr>) = queues_right s" "cache_right ok idle (s\<lparr>stop_event := b\<rparr>) = cache_right ok idle s"
  "deferred_right K (s\<lparr>stop_event := b\<rparr>) d = deferred_right K s d"
  "queues_right (s\<lparr>stopping := b\<rparr>) = queues_right s" "cache_right ok idle (s\<lparr>stopping := b\<rparr>) = cache_right ok idle s"
  "deferred_right K (s\<lparr>stopping := b\<rparr>) d = deferred_right K s d"
  "queues_right (s\<lparr>crashed := b\<rparr>) = queues_right s" "cache_right ok idle (s\<lparr>crashed := b\<rparr>) = cache_right ok idle s"
  "deferred_right K (s\<lparr>crashed := b\<rparr>) d = deferred_right K s d"
  by (simp_all add: queues_right_def cache_right_def slots_def deferred_right_def cong: option.case_cong)

lemma inv_flags [simp]:
  "sched_inv ok idle U target K (s\<lparr>engine_thread := x\<rparr>) = sched_inv ok idle U target K s"
  "sched_inv ok idle U target K (s\<lparr>stop_event := b\<rparr>) = sched_inv ok idle U target K s"
  "sched_inv ok idle U target K (s\<lparr>stopping := b\<rparr>) = sched_inv ok idle U target K s"
  "sched_inv ok idle U target K (s\<lparr>crashed := b\<rparr>) = sched_inv ok idle U target K s"
  by (simp_all add: sched_inv_def)

section \<open>Composing steps\<close>

lemma step_right_later:
  "later K s s1 \<Longrightarrow> step_right ok idle U target K s1 out \<Longrightarrow> step_right ok idle U target K s out"
  using later_trans unfolding step_right_def by blast

lemma progress_later:
  assumes "later K s s1" "later K s1 s2" "progress K s s1 \<or> progress K s1 s2"
  shows "progress K s s2"
proof -
  have "work K (reqs s1 r) \<le> work K (reqs s r)" "work K (reqs s2 r) \<le> work K (reqs s1 r)" for r
    using assms(1,2) by (simp_all add: later_def later_request_def)
  then show ?thesis using assms(3) later_fields [OF assms(1)] unfolding progress_def
    by (metis le_less_trans less_le_trans)
qed

lemma step_works_later:
  assumes "later K s s1" "step_right ok idle U target K s1 out" "progress K s s1 \<or> step_works K s1 out"
  shows "step_works K s out"
  using assms progress_later unfolding step_works_def step_right_def by blast

text \<open>A request that is not done.\<close>

definition busy :: "('v, 'lg, 'c) sched \<Rightarrow> bool" where
  "busy s \<longleftrightarrow> (\<exists>r < next_req s. rq_state (reqs s r) \<noteq> Done)"

lemma progress_Done:
  assumes "sched_inv ok idle U target K s" "r < next_req s" "rq_state (reqs s r) \<noteq> Done" "rq_state (reqs s' r) = Done"
  shows "progress K s s'"
proof -
  have "work K (reqs s' r) = 0" using assms(4) by (simp add: work_def)
  then show ?thesis using work_alive [OF sched_invD(4) [OF assms(1,2)] assms(3)] assms(2) by (auto simp: progress_def)
qed

lemma busy_later:
  assumes "sched_inv ok idle U target K s" "busy s" "later K s s'"
  shows "progress K s s' \<or> busy s'"
  using assms progress_Done [OF assms(1)] later_fields [OF assms(3)] unfolding busy_def by metis

text \<open>A step whose last action is the trace.\<close>

lemma step_recorded:
  assumes "step_right ok idle U target K s (f s)" "step_works K s (f s)"
  shows "step_right ok idle U target K s (seq f (\<lambda>x. modify (record_step p b (q x) v)) s)"
    "step_works K s (seq f (\<lambda>x. modify (record_step p b (q x) v)) s)"
  using assms
  by (cases "f s"; cases "fst (f s)";
      simp add: seq_def modify_def record_step_def step_right_def step_works_def later_def engine_fields_def progress_def)+

lemma later_same_but_slot:
  assumes "engine_fields s' = engine_fields s" "\<forall>r. same_but_slot (reqs s r) (reqs s' r)"
  shows "later K s s'"
  using assms same_but_slotD(11) unfolding later_def by blast

section \<open>The synchronous step\<close>

definition all_fed :: "('v, 'lg, 'c) sched \<Rightarrow> sampled \<Rightarrow> bool" where
  "all_fed s fed \<longleftrightarrow> (\<forall>r \<in> set (running s). rq_state (reqs s r) = Decoding \<longrightarrow> fed_right s fed r)"

lemma fed_same_but_slot:
  assumes "all_fed s fed" "set (running s') \<subseteq> set (running s)" "\<forall>r. same_but_slot (reqs s r) (reqs s' r)"
  shows "all_fed s' fed"
  using assms same_but_slotD(2,7) unfolding all_fed_def fed_right_def by (metis subsetD)

lemma fed_admitted:
  assumes "all_fed s fed" "running s' = running s @ new" "\<forall>r \<in> set (running s). reqs s' r = reqs s r"
    "\<forall>r \<in> set new. rq_state (reqs s' r) \<noteq> Decoding"
  shows "all_fed s' fed"
  using assms by (auto simp: all_fed_def fed_right_def)

section \<open>The asynchronous step\<close>

text \<open>What an asynchronous step makes of a decoder: its old token is consumed and its new logits are there.\<close>

definition after_async :: "('v, 'lg, 'c) sched_config \<Rightarrow> token \<Rightarrow> 'lg \<Rightarrow> ('lg, 'c) running_request \<Rightarrow> ('lg, 'c) running_request" where
  "after_async K t row rq = after_token K t (rq\<lparr>last_logits := Some row\<rparr>)"

lemma after_async_eq:
  fixes rq :: "('lg, 'c) running_request"
  shows "after_async K t row rq = (after_token K t rq)\<lparr>last_logits := Some row\<rparr>"
proof -
  have c: "consumed K t (rq\<lparr>last_logits := Some row\<rparr>) = (consumed K t rq)\<lparr>last_logits := Some row\<rparr>"
    by (simp add: consumed_def emit_new_text_def emit_def Let_def split: prod.split)
  have f: "finished x (rq\<lparr>last_logits := Some row\<rparr>) = (finished x rq)\<lparr>last_logits := Some row\<rparr>"
    for x and rq :: "('lg, 'c) running_request" and row
    by (simp add: finished_def emit_def)
  show ?thesis by (simp add: after_async_def after_token_def c f)
qed

lemma work_logits [simp]: "work K (rq\<lparr>last_logits := l\<rparr>) = work K rq"
  by (simp add: work_def tok_prompt_def cong: request_state.case_cong)

lemma after_async_right:
  assumes rq: "request_right U target K rq" "rq_state rq = Decoding" "pending_decode_tokens rq = None"
    and t: "right_choice target K rq t" and x: "slot_right rq i x" and row: "row = target (snd x @ [t])"
    and rq': "rq' = after_async K t row rq"
  shows "request_right U target K rq'" "slot_right rq' i (fst x, snd x @ [t])" "rq_state rq' \<noteq> Waiting"
    "later_request K rq rq'" "last_logits rq' = Some row" "is_greedy rq' = is_greedy rq" "work K rq' < work K rq"
proof -
  have room: "has_room rq" using alive_room [OF rq(1)] rq(2) by simp
  note a = after_token_right [OF rq(1,2) room t]
  have eq: "rq' = (after_token K t rq)\<lparr>last_logits := Some row\<rparr>" by (simp add: rq' after_async_eq)
  have same: "same_output (after_token K t rq) rq'" by (simp add: eq same_output_def)
  note sD = same_outputD [OF same]
  have sel: "batch_idx rq' = batch_idx rq" "prompt_token_ids rq' = prompt_token_ids rq" "rq_request rq' = rq_request rq"
    by (simp_all add: eq after_token_def)
  have prompt: "prompt_token_ids rq = tok_prompt K rq" "rq_finish rq = None" using rq(1,2) by (simp_all add: request_right_def state_right_def)
  have hist: "snd x = prompt_token_ids rq @ tokens_generated rq"
    using x rq(2,3) by (simp add: slot_right_def slot_history_def prefilling_def fed_tokens_def)
  have "request_right U target K rq' \<and> rq_state rq' \<noteq> Waiting \<and>
    (rq_state rq' \<noteq> Done \<longrightarrow> slot_history rq' = snd x @ [t])"
  proof (cases "goes_on K t rq")
    case True
    have eq': "rq' = (consumed K t rq)\<lparr>last_logits := Some row\<rparr>" using a(2) [OF True] eq by simp
    have "state_right target K rq'"
      using a(2) [OF True] rq(2,3) prompt hist row
      by (simp add: eq' state_right_def has_room_def tok_prompt_def)
    moreover have "same_output (consumed K t rq) rq'" by (simp add: eq' same_output_def)
    moreover have "slot_history rq' = snd x @ [t]"
      using rq(2,3) hist by (simp add: eq' slot_history_def prefilling_def fed_tokens_def)
    ultimately show ?thesis using a(3) [OF True] rq(2) by (simp add: eq')
  next
    case False
    note r = a(1) [OF False]
    have st: "rq_state rq' = Done" "rq_finish rq' = rq_finish (after_token K t rq)"
        "tokens_generated rq' = tokens_generated (after_token K t rq)" "rq_request rq' = rq_request (after_token K t rq)"
      using r by (simp_all add: eq)
    have "stopped_right target K rq' f = stopped_right target K (after_token K t rq) f" for f
      using sD(3) [of K] sD(5,6) st by (cases f) (simp_all add: stopped_right_def)
    then have "state_right target K rq'"
      using r st by (auto simp: request_right_def state_right_def)
    then have "request_right U target K rq'" unfolding sD(7) using r by (simp add: request_right_def)
    then show ?thesis using st by simp
  qed
  then show "request_right U target K rq'" "slot_right rq' i (fst x, snd x @ [t])" "rq_state rq' \<noteq> Waiting"
    using x sel by (simp_all add: slot_right_def)
  have "sends K rq (after_token K t rq)" using a(4) by (simp add: later_request_def)
  then have "sends K rq rq'" by (rule sends_then_same) (simp_all add: eq)
  then show "later_request K rq rq'" using a(4) by (simp add: eq later_request_def)
  show "last_logits rq' = Some row" by (simp add: eq)
  have "Suc (2 * (tokens_left rq - Suc 0)) \<le> 2 * tokens_left rq" using room by (cases "tokens_left rq") (simp_all add: has_room_left)
  then have "work K (after_token K t rq) < work K rq"
    using rq(2,3) room by (simp add: after_token_def work_def has_room_left)
  then show "work K rq' < work K rq" by (simp add: eq)
  show "is_greedy rq' = is_greedy rq" using sel(3) by (simp add: is_greedy_def)
qed

text \<open>The old tokens are consumed, each by its decoder.\<close>

lemma consume_deferred_ok:
  fixes s :: "('v, 'lg, 'c) sched"
  assumes d: "length (dt_tokens d) = length (dt_requests d)" "distinct (dt_requests d)"
    and spec: "\<And>r. r \<in> set (dt_requests d) \<Longrightarrow> rq_spec (reqs s r) = None"
  shows "consume_deferred K d s = (Inr (), upd_all (dt_requests d)
    (\<lambda>r. if rq_state (reqs s r) = Decoding \<and> pending_decode_tokens (reqs s r) = None
      then after_token K (dt_tokens d ! the (row_of r d)) (reqs s r) else reqs s r) s)"
proof -
  define g where "g = (\<lambda>r. if rq_state (reqs s r) = Decoding \<and> pending_decode_tokens (reqs s r) = None
      then after_token K (dt_tokens d ! the (row_of r d)) (reqs s r) else reqs s r)"
  define F where "F = (\<lambda>(r, t) s. if rq_state (reqs s r) = Decoding \<and> pending_decode_tokens (reqs s r) = None
      then seq (consume_token K r t) (\<lambda>_. ret ()) s else (Inr (), s :: ('v, 'lg, 'c) sched))"
  have "for_each F (zip (dt_requests d) (dt_tokens d)) s =
      (Inr (), upd_all (map fst (zip (dt_requests d) (dt_tokens d))) g s)"
  proof (rule for_each_upd_all)
    show "distinct (map fst (zip (dt_requests d) (dt_tokens d)))" using d by simp
    fix x R assume x: "x \<in> set (zip (dt_requests d) (dt_tokens d))" and R: "R (fst x) = reqs s (fst x)"
    obtain i where i: "i < length (dt_requests d)" "x = (dt_requests d ! i, dt_tokens d ! i)"
      using x d(1) by (auto simp: set_zip)
    have row: "row_of (dt_requests d ! i) d = Some i" using i(1) row_of_Some [OF d(2)] by simp
    have sp: "rq_spec (reqs (s\<lparr>reqs := R\<rparr>) (dt_requests d ! i)) = None" using spec [of "dt_requests d ! i"] R i by simp
    have "R(dt_requests d ! i := reqs s (dt_requests d ! i)) = R" using R i by (simp add: fun_upd_idem)
    then show "F x (s\<lparr>reqs := R\<rparr>) = (Inr (), upd (fst x) (\<lambda>_. g (fst x)) (s\<lparr>reqs := R\<rparr>))"
      using R i row consume_token_plain [OF sp, of K "dt_tokens d ! i"] by (auto simp: F_def g_def seq_def ret_def upd_def)
  qed
  then show ?thesis using d(1) by (simp add: consume_deferred_def F_def [symmetric] seq_def lift_def g_def)
qed

lemma sums_from_ones: "sums_from a (map length (map (\<lambda>r. [f r]) xs)) = [a ..< a + length xs + 1]"
  by (induction xs arbitrary: a) (simp_all add: upt_rec)

context batch_runner begin

lemma reap_reaped:
  assumes "sched_inv ok idle U target K s"
  shows "\<exists>s'. reap_done s = (Inr (), s') \<and> sched_inv ok idle U target K s' \<and> reaped s' \<and> later K s s' \<and>
    set (running s') \<subseteq> set (running s) \<and> (\<forall>r. same_but_slot (reqs s r) (reqs s' r)) \<and>
    (deferred s = None \<longrightarrow> deferred s' = None) \<and> (running s' \<noteq> [] \<longrightarrow> deferred s' = deferred s) \<and> waiting s' = waiting s \<and>
    (\<forall>r \<in> set (running s). rq_state (reqs s r) \<noteq> Done \<longrightarrow> r \<in> set (running s'))"
proof -
  obtain s' where r: "reap_done s = (Inr (), s')" "sched_inv ok idle U target K s'"
      "running s' = filter (\<lambda>r. rq_state (reqs s r) \<noteq> Done) (running s)" "waiting s' = waiting s"
      "deferred s' = deferred s \<or> deferred s' = None" "engine_fields s' = engine_fields s"
      "\<forall>r. same_but_slot (reqs s r) (reqs s' r)" "running s' \<noteq> [] \<longrightarrow> deferred s' = deferred s"
    using reap_done_ok [OF assms] by blast
  have "reaped s'" using r(3) same_but_slotD(2) [OF spec [OF r(7)]] by (simp add: reaped_def)
  then show ?thesis using r later_same_but_slot [OF r(6,7)] by auto
qed

lemma sync_step_ok:
  assumes inv: "sched_inv ok idle U target K s" and K: "plain_config forward digest K"
  shows "step_right ok idle U target K s (sync_step K s) \<and> (busy s \<and> 0 < max_concurrent K \<longrightarrow> step_works K s (sync_step K s))"
proof -
  have K': "sc_dspark K = None" "sc_digest K = digest" using K by (simp_all add: plain_config_def)
  obtain fed s1 where s1: "sample_decoders K s = (Inr fed, s1)" "sched_inv ok idle U target K s1" "later K s s1" "deferred s1 = None"
      "all_fed s1 fed" "waiting s1 = waiting s"
    using sample_decoders_ok [OF inv] unfolding all_fed_def by blast
  obtain s2 where s2: "reap_done s1 = (Inr (), s2)" "sched_inv ok idle U target K s2" "later K s1 s2" "deferred s2 = None"
      "all_fed s2 fed" "waiting s2 = waiting s" "reaped s2"
  proof -
    obtain t where t: "reap_done s1 = (Inr (), t)" "sched_inv ok idle U target K t" "reaped t" "later K s1 t"
        "set (running t) \<subseteq> set (running s1)" "\<forall>r. same_but_slot (reqs s1 r) (reqs t r)" "deferred s1 = None \<longrightarrow> deferred t = None" "waiting t = waiting s1"
      using reap_reaped [OF s1(2)] by (elim exE conjE) simp
    show thesis by (rule that [OF t(1,2,4) _ fed_same_but_slot [OF s1(5) t(5,6)] _ t(3)]) (use t(7,8) s1(4,6) in simp_all)
  qed
  obtain s3 new where s3: "admit_waiting K s2 = (Inr (), s3)" "sched_inv ok idle U target K s3" "admitted K s2 new (waiting s3) s3"
      "running s2 = [] \<and> waiting s2 \<noteq> [] \<and> 0 < max_concurrent K \<longrightarrow> new \<noteq> []"
    using admit_waiting_ok [OF s2(2) K'(2,1)] by blast
  have s3': "later K s2 s3" "deferred s3 = None" "all_fed s3 fed" "set (waiting s3) \<subseteq> set (waiting s)"
    using s3(3) fed_admitted [OF s2(5), of s3 new] s2(4,6) by (auto simp: admitted_def)
  obtain s4 where s4: "reap_done s3 = (Inr (), s4)" "sched_inv ok idle U target K s4" "later K s3 s4" "deferred s4 = None"
      "all_fed s4 fed" "reaped s4" "waiting s4 = waiting s3"
      "\<forall>r \<in> set (running s3). rq_state (reqs s3 r) \<noteq> Done \<longrightarrow> r \<in> set (running s4)"
  proof -
    obtain t where t: "reap_done s3 = (Inr (), t)" "sched_inv ok idle U target K t" "reaped t" "later K s3 t"
        "set (running t) \<subseteq> set (running s3)" "\<forall>r. same_but_slot (reqs s3 r) (reqs t r)" "deferred s3 = None \<longrightarrow> deferred t = None" "waiting t = waiting s3"
        "\<forall>r \<in> set (running s3). rq_state (reqs s3 r) \<noteq> Done \<longrightarrow> r \<in> set (running t)"
      using reap_reaped [OF s3(2)] by (elim exE conjE) simp
    show thesis by (rule that [OF t(1,2,4) _ fed_same_but_slot [OF s3'(3) t(5,6)] t(3,8,9)]) (use t(7) s3'(2) in simp)
  qed
  have l2: "later K s s2" and l: "later K s s4" using s1(3) s2(3) s3'(1) s4(3) later_trans by blast+
  note alive = reaped_slots(3) [OF s4(2,6)]
  show ?thesis
  proof (cases "running s4 = []")
    case True
    have "progress K s s4" if b: "busy s" "0 < max_concurrent K"
    proof -
      have "running s2 = []"
      proof (rule ccontr)
        assume "running s2 \<noteq> []"
        then obtain r where r: "r \<in> set (running s2)" by (cases "running s2") auto
        then have "reqs s3 r = reqs s2 r" "r \<in> set (running s3)" using s3(3) by (auto simp: admitted_def)
        then have "r \<in> set (running s4)" using r s2(7) s4(8) by (simp add: reaped_def)
        then show False using True by simp
      qed
      then consider "waiting s = []" | "new \<noteq> []" using s3(4) s2(6) b(2) by auto
      then show ?thesis
      proof cases
        case 1
        obtain r where r: "r < next_req s" "rq_state (reqs s r) \<noteq> Done" using b(1) by (auto simp: busy_def)
        have "waiting s4 = []" using 1 s3'(4) s4(7) by simp
        then have "rq_state (reqs s4 r) = Done"
          using sched_invD(5,6) [OF s4(2), of r] True r(1) later_fields [OF l] by auto
        then show ?thesis by (rule progress_Done [OF inv r])
      next
        case 2
        then obtain r where r: "r \<in> set new" by (cases new) auto
        then have "work K (reqs s3 r) < work K (reqs s2 r)" "r \<in> set (waiting s2)" using s3(3) by (auto simp: admitted_def)
        then have "progress K s2 s3" using sched_invD(3) [OF s2(2)] by (auto simp: progress_def)
        then show ?thesis using progress_later l2 s3'(1) s4(3) later_trans by metis
      qed
    qed
    moreover have "sync_step K s = (Inr (), s4)"
      using True by (simp add: sync_step_def seq_def draft_speculators_def K'(1) s1(1) s2(1) s3(1) s4(1) alive)
    ultimately show ?thesis using s4(2) l by (simp add: step_right_def step_works_def)
  next
    case False
    have pf: "step_right ok idle U target K s4 (packed_forward K (running s4) fed s4) \<and>
        step_works K s4 (packed_forward K (running s4) fed s4)"
      by (rule packed_forward_ok [OF s4(2,6) False s4(4) K]) (use s4(5) in \<open>simp add: all_fed_def\<close>)
    have "sync_step K s = seq (packed_forward K (running s4) fed) (\<lambda>x. modify (record_step (classify_phase s4 (running s4))
        (length (running s4)) (last (fst (snd x)))
        (length (filter (\<lambda>r. case rq_spec (reqs s4 r) of None \<Rightarrow> False | Some sp \<Rightarrow> sp_offered sp \<noteq> None) (running s4))))) s4"
      using False
      by (simp add: sync_step_def seq_def ret_def draft_speculators_def verify_speculators_def K'(1) s1(1) s2(1) s3(1) s4(1)
          alive Let_def split: sum.split prod.split)
    then have "step_right ok idle U target K s4 (sync_step K s)" "step_works K s4 (sync_step K s)"
      using step_recorded [where f = "packed_forward K (running s4) fed", OF conjunct1 [OF pf] conjunct2 [OF pf]] by simp_all
    then show ?thesis using step_right_later [OF l] step_works_later [OF l] by blast
  qed
qed

lemma async_decode_step_ok:
  assumes inv: "sched_inv ok idle U target K s" and re: "reaped s" and ne: "running s \<noteq> []" and d: "deferred s = Some d"
    and K: "plain_config forward digest K"
    and dec: "\<And>r. r \<in> set (running s) \<Longrightarrow>
      rq_state (reqs s r) = Decoding \<and> pending_decode_tokens (reqs s r) = None \<and> row_of r d \<noteq> None"
  shows "step_right ok idle U target K s (async_decode_step K s) \<and> step_works K s (async_decode_step K s)"
proof -
  note run = reaped_slots [OF inv re]
  let ?n = "length (running s)" and ?z = "zip [0 ..< length (running s)] (running s)"
  obtain c where c: "sched_cache s = Some c"
    using sched_invD(7) [OF inv] run(1) ne by (cases "sched_cache s") (auto simp: cache_right_def)
  obtain sl where sl: "ok sl (c, sched_pool s)" "length sl = ?n"
      "\<And>i. i < length sl \<Longrightarrow> slot_right (reqs s (running s ! i)) i (sl ! i)"
    using cache_rightE [OF sched_invD(7) [OF inv] c] run(1) by metis
  have right: "request_right U target K (reqs s r)" if "r \<in> set (running s)" for r
    using sched_invD(2,4) [OF inv] that by blast
  have dr: "length (dt_tokens d) = length (dt_requests d)" "distinct (dt_requests d)"
      "\<And>r. r \<in> set (dt_requests d) \<Longrightarrow> r < next_req s"
    using sched_invD(8) [OF inv d] by (auto simp: deferred_right_def Let_def in_set_conv_nth)
  define tok where "tok = (\<lambda>r. dt_tokens d ! the (row_of r d))"
  have rowr: "the (row_of r d) < length (dt_requests d)" "dt_requests d ! the (row_of r d) = r" if r: "r \<in> set (running s)" for r
  proof -
    obtain i where "row_of r d = Some i" using dec [OF r] by blast
    then show "the (row_of r d) < length (dt_requests d)" "dt_requests d ! the (row_of r d) = r"
      using row_of_Some [OF dr(2), of r i] by simp_all
  qed
  have choice: "right_choice target K (reqs s r) (tok r)" if "r \<in> set (running s)" for r
    using deferred_choice [OF inv d rowr(1) [OF that]] rowr(2) [OF that] dec [OF that] by (simp add: tok_def)
  define new where "new = map (\<lambda>r. [tok r]) (running s)"
  define ids where "ids = \<lparr>dt_source = dt_tokens d, dt_rows = map (\<lambda>r. the (row_of r d)) (running s)\<rparr>"
  have b: "batch_idx (reqs s (running s ! i)) = Some i" if "i < ?n" for i using sl(2,3) that by (simp add: slot_right_def)
  have has_row: "row_of (running s ! i) d \<noteq> None" if "i < ?n" for i using dec that by simp
  have "collect (map (async_row s d) ?z) = Inr (map (\<lambda>x. the (row_of (snd x) d)) ?z)"
    by (rule collect_Inr) (use b has_row in \<open>auto simp: in_zip_index async_row_def split: option.split\<close>)
  also have "map (\<lambda>x. the (row_of (snd x) d)) ?z = dt_rows ids"
    by (rule nth_equalityI) (simp_all add: ids_def)
  finally have rows: "collect (map (async_row s d) ?z) = Inr (dt_rows ids)" .
  have dti: "device_tokens_init (dt_tokens d) (dt_rows ids) = Inr ids"
    using rowr(1) dr(1) by (auto simp: device_tokens_init_def ids_def filter_empty_conv)
  have gather: "device_gather ids = concat new"
    using device_gather_rows [OF dti] by (simp add: ids_def new_def tok_def comp_def)
  have cu: "[0 ..< ?n + 1] = sums_from 0 (map length new)" unfolding new_def sums_from_ones by simp
  have n: "num_tokens c = map (length \<circ> snd) sl" using lens [OF sl(1)] by simp
  have len: "length new = length sl" "[] \<notin> set new" by (auto simp: new_def sl(2))
  have hist: "snd (sl ! i) = prompt_token_ids (reqs s (running s ! i)) @ tokens_generated (reqs s (running s ! i))"
      "fst (sl ! i) = prompt_token_ids (reqs s (running s ! i))" if "i < length sl" for i
    using sl(2,3) that dec [of "running s ! i"] by (simp_all add: slot_right_def slot_history_def prefilling_def fed_tokens_def)
  have fp: "follows_prompt (sl ! i) (new ! i)" if "i < length sl" for i
    using hist [OF that] by (simp add: follows_prompt_def)
  let ?rf = "run_forward K (num_tokens c) (Device_Ids ids) [0 ..< ?n + 1] (num_tokens c) False False s"
  define tail where "tail = (\<lambda>rows. seq (for_each (\<lambda>(i, r) s. case nth_res rows i of Inl e \<Rightarrow> (Inl e, s)
        | Inr row \<Rightarrow> (Inr (), upd r (\<lambda>rq. rq\<lparr>last_logits := Some row\<rparr>) s)) ?z)
      (\<lambda>_. seq (defer_sampling K (running s) (take ?n rows))
        (\<lambda>d'. seq (modify (\<lambda>s. s\<lparr>deferred := Some d'\<rparr>))
          (\<lambda>_. seq (consume_deferred K d) (\<lambda>_. modify (record_step ''decode'' ?n ?n 0))))))"
  have step: "async_decode_step K s = (case ?rf of (Inl e, s') \<Rightarrow> (Inl e, s') | (Inr (rows, taps), s') \<Rightarrow> tail rows s')"
    unfolding async_decode_step_def d c option.case prod.case Let_def run(2) rows sum.case dti tail_def
    by (simp add: seq_def split: sum.split prod.split)
  have "(\<exists>rows taps c' P'. ?rf = (Inr (rows, taps), s\<lparr>sched_cache := Some c', sched_pool := P', pre_forward := None\<rparr>) \<and>
        request_rows target sl new False rows \<and> ok (add_tokens sl new) (c', P')) \<or>
      (\<exists>s'. ?rf = (Inl OutOfMemoryError, s') \<and> oom_state ok idle U target K s' \<and> later K s s' \<and> reqs s' = reqs s \<and>
        running s' = running s \<and> waiting s' = waiting s)"
    unfolding cu n
    by (rule run_forward_ok [OF inv re ne K c sl len fp, unfolded n])
      (simp_all add: input_tokens_def device_count_ok_def gather, simp add: ids_def new_def)
  then show ?thesis
  proof (elim disjE exE conjE)
    fix s' assume "?rf = (Inl OutOfMemoryError, s')" "oom_state ok idle U target K s'" "later K s s'"
    then show ?thesis by (simp add: step step_right_def step_works_def)
  next
    fix rows taps c' P' assume f: "?rf = (Inr (rows, taps), s\<lparr>sched_cache := Some c', sched_pool := P', pre_forward := None\<rparr>)"
      and rr: "request_rows target sl new False rows" and ok': "ok (add_tokens sl new) (c', P')"
    define s1 where "s1 = s\<lparr>sched_cache := Some c', sched_pool := P', pre_forward := None\<rparr>"
    have rl: "length rows = ?n" using rr by (simp add: request_rows_def new_def comp_def sum_list_triv)
    have at: "rows ! i = target (snd (sl ! i) @ new ! i)" if "i < ?n" for i
      using rr that len(1) sl(2) unfolding request_rows_def cu [symmetric] by (simp del: upt_Suc)
    define g1 where "g1 = (\<lambda>r. (reqs s r)\<lparr>last_logits := Some (rows ! the (batch_idx (reqs s r)))\<rparr>)"
    define s2 where "s2 = upd_all (running s) g1 s1"
    have loop: "for_each (\<lambda>(i, r) s. case nth_res rows i of Inl e \<Rightarrow> (Inl e, s)
        | Inr row \<Rightarrow> (Inr (), upd r (\<lambda>rq. rq\<lparr>last_logits := Some row\<rparr>) s)) ?z s1 = (Inr (), upd_all (map snd ?z) g1 s1)"
    proof (rule for_each_upd_all)
      show "distinct (map snd ?z)" using sched_invD(1) [OF inv] by simp
      fix x R assume x: "x \<in> set ?z" and R: "R (snd x) = reqs s1 (snd x)"
      obtain i where i: "i < ?n" "x = (i, running s ! i)" using x by (auto simp: in_zip_index)
      have "nth_res rows i = Inr (rows ! i)" using i rl by simp
      then show "(case x of (i, r) \<Rightarrow> \<lambda>s. case nth_res rows i of Inl e \<Rightarrow> (Inl e, s)
          | Inr row \<Rightarrow> (Inr (), upd r (\<lambda>rq. rq\<lparr>last_logits := Some row\<rparr>) s)) (s1\<lparr>reqs := R\<rparr>) =
          (Inr (), upd (snd x) (\<lambda>_. g1 (snd x)) (s1\<lparr>reqs := R\<rparr>))"
        using R i b [OF i(1)] by (simp add: g1_def s1_def upd_def del: nth_res_Inr)
    qed
    have sel2: "reqs s2 r = (if r \<in> set (running s) then g1 r else reqs s r)" "next_req s2 = next_req s" for r
      by (simp_all add: s2_def s1_def upd_all_def)
    obtain d' gr where d': "defer_sampling K (running s) (take ?n rows) s2 = (Inr d', s2\<lparr>rng := gr\<rparr>)" "deferred_right K s2 d'"
        "dt_requests d' = running s"
    proof -
      have "running s ! j < next_req s2 \<and> last_logits (reqs s2 (running s ! j)) = Some (take ?n rows ! j)" if "j < ?n" for j
        using that b [OF that] sched_invD(2) [OF inv, of "running s ! j"] by (simp add: sel2 g1_def)
      then show ?thesis
        using defer_sampling_ok [of "take ?n rows" "running s" s2 K] sched_invD(1) [OF inv] rl that by auto
    qed
    define s3 where "s3 = s2\<lparr>rng := gr, deferred := Some d'\<rparr>"
    have req3: "reqs s3 r = (if r \<in> set (running s) then g1 r else reqs s r)" for r by (simp add: s3_def sel2)
    define G where "G = (\<lambda>r. if rq_state (reqs s3 r) = Decoding \<and> pending_decode_tokens (reqs s3 r) = None
      then after_token K (dt_tokens d ! the (row_of r d)) (reqs s3 r) else reqs s3 r)"
    define s4 where "s4 = upd_all (dt_requests d) G s3"
    have c4: "consume_deferred K d s3 = (Inr (), s4)"
      unfolding s4_def G_def
      by (rule consume_deferred_ok [OF dr(1,2)])
        (use dr(3) sched_invD(4) [OF inv] in \<open>simp add: req3 g1_def request_right_def\<close>)
    define g where "g = (\<lambda>r. after_async K (tok r) (rows ! the (batch_idx (reqs s r))) (reqs s r))"
    have req4: "reqs s4 r = (if r \<in> set (running s) then g r else reqs s r)" for r
    proof (cases "r \<in> set (running s)")
      case True
      then have "r \<in> set (dt_requests d)" using rowr [OF True] by (metis nth_mem)
      then show ?thesis using True dec [OF True]
        by (simp add: s4_def upd_all_def G_def req3 g1_def g_def after_async_def tok_def)
    next
      case False
      then have "r \<in> set (dt_requests d) \<Longrightarrow> rq_state (reqs s r) \<noteq> Decoding"
        using sched_invD(6) [OF inv dr(3)] by auto
      then show ?thesis using False by (simp add: s4_def upd_all_def G_def req3)
    qed
    have sel4: "running s4 = running s" "waiting s4 = waiting s" "next_req s4 = next_req s" "pre_forward s4 = None"
        "sched_cache s4 = Some c'" "sched_pool s4 = P'" "deferred s4 = Some d'" "engine_fields s4 = engine_fields s"
      by (simp_all add: s4_def s3_def s2_def s1_def upd_all_def engine_fields_def)
    have gi: "request_right U target K (g (running s ! i)) \<and> slot_right (g (running s ! i)) i (add_tokens sl new ! i) \<and>
        rq_state (g (running s ! i)) \<noteq> Waiting \<and> later_request K (reqs s (running s ! i)) (g (running s ! i)) \<and>
        work K (g (running s ! i)) < work K (reqs s (running s ! i)) \<and>
        last_logits (g (running s ! i)) = Some (rows ! i) \<and> is_greedy (g (running s ! i)) = is_greedy (reqs s (running s ! i))"
      if i: "i < length sl" for i
    proof -
      have r: "running s ! i \<in> set (running s)" "i < ?n" using i sl(2) by simp_all
      have row: "rows ! i = target (snd (sl ! i) @ [tok (running s ! i)])" using at [OF r(2)] r(2) by (simp add: new_def)
      have eq: "g (running s ! i) = after_async K (tok (running s ! i)) (rows ! i) (reqs s (running s ! i))"
        using b [OF r(2)] by (simp add: g_def)
      have "add_tokens sl new ! i = (fst (sl ! i), snd (sl ! i) @ [tok (running s ! i)])"
        using i len r(2) by (simp add: add_tokens_def new_def split_beta)
      then show ?thesis
        using after_async_right [OF right [OF r(1)] _ _ choice [OF r(1)] sl(3) [OF i] row eq] dec [OF r(1)] by simp
    qed
    have "deferred_right K s4 d'"
      unfolding deferred_right_def
    proof (intro conjI allI impI)
      show "length (dt_tokens d') = length (dt_requests d')" "distinct (dt_requests d')"
        using d'(2) by (simp_all add: deferred_right_def)
      fix i assume "i < length (dt_requests d')"
      then have i: "i < ?n" "i < length sl" using d'(3) sl(2) by simp_all
      have r: "running s ! i \<in> set (running s)" using i by simp
      have "dt_tokens d' ! i = argmax (sc_sampler K) (rows ! i)" if "is_greedy (reqs s (running s ! i))"
        using d'(2) i(1) that dec [OF r] r b [OF i(1)] by (auto simp: deferred_right_def d'(3) sel2 g1_def Let_def is_greedy_def)
      then show "let rq = reqs s4 (dt_requests d' ! i) in dt_requests d' ! i < next_req s4 \<and>
          (rq_state rq = Decoding \<and> pending_decode_tokens rq = None \<and> is_greedy rq \<longrightarrow>
            (\<exists>row. last_logits rq = Some row \<and> dt_tokens d' ! i = argmax (sc_sampler K) row))"
        using gi [OF i(2)] r sched_invD(2) [OF inv r] by (simp add: d'(3) req4 sel4)
    qed
    then have "sched_inv ok idle U target K s4"
      by (intro inv_batch [OF inv run(1) req4 sel4(1-6) ok']) (use gi len sl(2) sel4(7) in \<open>simp_all add: add_tokens_def\<close>)
    moreover have "later_request K (reqs s r) (g r)" if "r \<in> set (running s)" for r
      using gi that sl(2) by (auto simp: in_set_conv_nth)
    then have "later K s s4" using sel4 by (simp add: later_def req4)
    moreover have "tail rows s1 = (Inr (), record_step ''decode'' ?n ?n 0 s4)"
      using loop d'(1) c4 by (simp add: tail_def seq_def modify_def s2_def [symmetric] s3_def [symmetric])
    moreover have "progress K s s4"
      using gi [of 0] ne sl(2) sched_invD(2) [OF inv, of "running s ! 0"] by (auto simp: progress_def req4)
    ultimately show ?thesis
      using f by (simp add: step s1_def [symmetric] record_step_def step_right_def step_works_def progress_def later_def engine_fields_def)
  qed
qed

lemma next_step_is_async_ok:
  assumes inv: "sched_inv ok idle U target K s" and d: "deferred s = Some d"
  shows "\<exists>async s'. next_step_is_async K s = (Inr async, s') \<and> sched_inv ok idle U target K s' \<and> later K s s' \<and>
    (async \<longrightarrow> reaped s' \<and> running s' \<noteq> [] \<and> deferred s' = Some d \<and>
      (\<forall>r \<in> set (running s'). rq_state (reqs s' r) = Decoding \<and> pending_decode_tokens (reqs s' r) = None \<and> row_of r d \<noteq> None))"
proof -
  obtain s' where r: "reap_done s = (Inr (), s')" "sched_inv ok idle U target K s'" "reaped s'" "later K s s'"
      "running s' \<noteq> [] \<longrightarrow> deferred s' = deferred s"
    using reap_reaped [OF inv] by blast
  show ?thesis
    using r d reaped_slots(2) [OF r(2,3)]
    by (auto simp: next_step_is_async_def seq_def list_ex_iff Let_def)
qed

text \<open>One iteration: it returns in a state that is right, or runs out of blocks and can be rolled back.\<close>

lemma sched_step_ok:
  assumes inv: "sched_inv ok idle U target K s" and K: "plain_config forward digest K"
  shows "step_right ok idle U target K s (sched_step K s)" "busy s \<Longrightarrow> 0 < max_concurrent K \<Longrightarrow> step_works K s (sched_step K s)"
proof -
  obtain s1 where s1: "cancel_pending K s = (Inr (), s1)" "sched_inv ok idle U target K s1" "later K s s1"
    using cancel_pending_ok [OF inv] by blast
  have s: "step_right ok idle U target K s1 (sched_step K s) \<and>
    (busy s1 \<and> 0 < max_concurrent K \<longrightarrow> step_works K s1 (sched_step K s))"
  proof (cases "deferred s1")
    case None
    then show ?thesis using sync_step_ok [OF s1(2) K] s1(1) by (simp add: sched_step_def seq_def)
  next
    case (Some d)
    obtain async s2 where s2: "next_step_is_async K s1 = (Inr async, s2)" "sched_inv ok idle U target K s2" "later K s1 s2"
        "async \<longrightarrow> reaped s2 \<and> running s2 \<noteq> [] \<and> deferred s2 = Some d \<and>
          (\<forall>r \<in> set (running s2). rq_state (reqs s2 r) = Decoding \<and> pending_decode_tokens (reqs s2 r) = None \<and> row_of r d \<noteq> None)"
      using next_step_is_async_ok [OF s1(2) Some] by blast
    let ?out = "if async then async_decode_step K s2 else sync_step K s2"
    have out: "step_right ok idle U target K s2 ?out \<and> (busy s2 \<and> 0 < max_concurrent K \<longrightarrow> step_works K s2 ?out)"
      using s2(4) async_decode_step_ok [OF s2(2) _ _ _ K] sync_step_ok [OF s2(2) K] by simp
    have "step_right ok idle U target K s1 ?out" "busy s1 \<and> 0 < max_concurrent K \<longrightarrow> step_works K s1 ?out"
      using out step_right_later [OF s2(3)] step_works_later [OF s2(3)] busy_later [OF s1(2) _ s2(3)] by blast+
    moreover have "sched_step K s = ?out" using Some s1(1) s2(1) by (simp add: sched_step_def seq_def)
    ultimately show ?thesis by simp
  qed
  then show "step_right ok idle U target K s (sched_step K s)" using step_right_later [OF s1(3)] by blast
  show "step_works K s (sched_step K s)" if "busy s" "0 < max_concurrent K"
    using s that step_works_later [OF s1(3)] busy_later [OF inv _ s1(3)] by blast
qed

section \<open>Recovery\<close>

lemma preempt_on_oom_ok:
  assumes "oom_state ok idle U target K s"
  shows "\<exists>s'. preempt_on_oom K s = (Inr (), s') \<and> sched_inv ok idle U target K s' \<and> later K s s' \<and> progress K s s'"
proof -
  obtain lens c c' P' where o: "pre_forward s = Some lens" "sched_cache s = Some c" "length lens = batch_size c"
      "roll_back lens (c, sched_pool s) = (Inr (), (c', P'))"
      "sched_inv ok idle U target K (s\<lparr>pre_forward := None, sched_cache := Some c', sched_pool := P'\<rparr>)"
    using assms unfolding oom_state_def by blast
  let ?s = "s\<lparr>pre_forward := None, sched_cache := Some c', sched_pool := P'\<rparr>"
  have rb: "roll_back_partial_append s = (Inr (), ?s)"
    using o by (simp add: roll_back_partial_append_def on_kvs_def)
  have l: "later K s ?s" by (simp add: later_def engine_fields_def)
  have "preemption_victim ?s = preemption_victim s" by (simp add: preemption_victim_def Let_def)
  then obtain r where Some: "preemption_victim ?s = Some r" using assms by (auto simp: oom_state_def)
  have "r \<in> set (filter (\<lambda>r. prefilling (reqs ?s r)) (running ?s) @ filter (\<lambda>r. rq_state (reqs ?s r) = Decoding) (running ?s))"
    using Some by (auto simp: preemption_victim_def Let_def split: if_splits dest!: last_in_set)
  then have r: "r \<in> set (running ?s)" "rq_state (reqs ?s r) \<noteq> Done" by (auto simp: prefilling_def)
  have right: "request_right U target K (reqs ?s r)" using sched_invD(2,4) [OF o(5)] r(1) by blast
  have "stopped_right target K (reqs ?s r) Cancelled" using alive_room [OF right r(2)] by (simp add: stopped_cancelled)
  note f = inv_finish [OF o(5) r this]
  let ?s1 = "upd r (finished Cancelled) ?s"
  obtain s' where s': "reap_done ?s1 = (Inr (), s')" "sched_inv ok idle U target K s'" "later K ?s1 s'"
    using reap_reaped [OF f(2)] by blast
  have l1: "later K ?s ?s1" using r(2) by (simp add: later_upd)
  have "progress K ?s ?s1" by (rule progress_Done [OF o(5) sched_invD(2) [OF o(5) r(1)] r(2)]) simp
  then have "progress K ?s s'" using progress_later [OF l1 s'(3)] by blast
  then have "later K s s' \<and> progress K s s'" using l progress_later [OF l later_trans [OF l1 s'(3)]] later_trans l1 s'(3) by blast
  moreover have "preempt_on_oom K s = (Inr (), s')"
    using rb Some f(1) s'(1) by (simp add: preempt_on_oom_def seq_def)
  ultimately show ?thesis using s'(2) by blast
qed

section \<open>The turn\<close>

text \<open>A turn never crashes the engine, takes nothing back from a request, and gets work done.\<close>

lemma engine_turn_ok:
  assumes inv: "sched_inv ok idle U target K s" and K: "plain_config forward digest K"
  shows "sched_inv ok idle U target K (engine_turn K s)" "\<not> stop_event s \<Longrightarrow> later K s (engine_turn K s)"
    "stop_event s \<Longrightarrow> engine_turn K s = s\<lparr>engine_thread := Exited\<rparr>"
    "\<not> stop_event s \<Longrightarrow> busy s \<Longrightarrow> 0 < max_concurrent K \<Longrightarrow> progress K s (engine_turn K s)"
proof -
  show stopped: "stop_event s \<Longrightarrow> engine_turn K s = s\<lparr>engine_thread := Exited\<rparr>" by (simp add: engine_turn_def)
  obtain r s1 where step: "sched_step K s = (r, s1)" by (cases "sched_step K s")
  have ok: "step_right ok idle U target K s (r, s1)" using sched_step_ok(1) [OF inv K] step by simp
  have run: "sched_inv ok idle U target K (engine_turn K s) \<and> later K s (engine_turn K s) \<and>
      (busy s \<and> 0 < max_concurrent K \<longrightarrow> progress K s (engine_turn K s))" if "\<not> stop_event s"
  proof (cases r)
    case (Inr x)
    then show ?thesis using ok that step sched_step_ok(2) [OF inv K] by (simp add: engine_turn_def step_right_def step_works_def)
  next
    case (Inl e)
    then have o: "e = OutOfMemoryError" "oom_state ok idle U target K s1" "later K s s1" using ok by (simp_all add: step_right_def)
    obtain s2 where s2: "preempt_on_oom K s1 = (Inr (), s2)" "sched_inv ok idle U target K s2" "later K s1 s2" "progress K s1 s2"
      using preempt_on_oom_ok [OF o(2)] by blast
    then show ?thesis using that step Inl o later_trans [OF o(3) s2(3)] progress_later [OF o(3) s2(3)] by (simp add: engine_turn_def)
  qed
  show "sched_inv ok idle U target K (engine_turn K s)" using run stopped inv by (cases "stop_event s") simp_all
  show "\<not> stop_event s \<Longrightarrow> later K s (engine_turn K s)"
    "\<not> stop_event s \<Longrightarrow> busy s \<Longrightarrow> 0 < max_concurrent K \<Longrightarrow> progress K s (engine_turn K s)" using run by blast+
qed

end

end
