(* ===== verification/Engine_Runs.thy ===== *)
theory Engine_Runs
  imports Scheduler_Turn
begin

text \<open>
  Whole runs of the engine: API calls and engine turns in any order keep the invariant of the scheduler,
  so the engine thread never crashes and every finished request has what its finish reason promises.
\<close>

section \<open>Events\<close>

text \<open>The life of an engine as its users see it: \<open>start\<close>, \<open>submit\<close>, \<open>cancel\<close>, a read of an output queue,
  one turn of the engine thread, a \<open>stop\<close> whose join succeeds, and a \<open>stop\<close> whose join times out. The turn
  that a timed-out \<open>stop\<close> leaves running counts before it, and the thread ends before the next \<open>start\<close>.
  Every call has its outcome: the exception it raises, or what it returns; of that, the step that a read
  gets is kept.\<close>

datatype engine_event = Start_Engine | Submit request | Cancel_Handle nat | Read_Step nat | Engine_Turn | Stop_Engine
  | Stop_Timed_Out

definition engine_call ::
  "('v, 'lg, 'c) sched_config \<Rightarrow> engine_event \<Rightarrow> (('v, 'lg, 'c) sched, generation_step option) act" where
  "engine_call K ev =
     (case ev of
        Start_Engine \<Rightarrow> seq (start_engine K) (\<lambda>_. ret None)
      | Submit q \<Rightarrow> seq (submit q) (\<lambda>_. ret None)
      | Cancel_Handle r \<Rightarrow> seq (modify (\<lambda>s. if r < next_req s then cancel_request r s else s)) (\<lambda>_. ret None)
      | Read_Step r \<Rightarrow> (\<lambda>s. if r < next_req s then seq (read_step r) (\<lambda>x. ret (Some x)) s else (Inr None, s))
      | Engine_Turn \<Rightarrow> seq (modify (\<lambda>s. if engine_thread s = Alive then engine_turn K s else s)) (\<lambda>_. ret None)
      | Stop_Engine \<Rightarrow> seq (stop_engine K True) (\<lambda>_. ret None)
      | Stop_Timed_Out \<Rightarrow> seq (stop_engine K False) (\<lambda>_. ret None))"

definition engine_event :: "('v, 'lg, 'c) sched_config \<Rightarrow> engine_event \<Rightarrow> ('v, 'lg, 'c) sched \<Rightarrow> ('v, 'lg, 'c) sched" where
  "engine_event K ev s = snd (engine_call K ev s)"

lemma snd_seq_ret [simp]: "snd (seq m (\<lambda>x. ret (f x)) s) = snd (m s)"
  by (simp add: seq_def ret_def split: prod.split sum.split)

lemma engine_event_eq:
  "engine_event K ev s =
     (case ev of
        Start_Engine \<Rightarrow> snd (start_engine K s)
      | Submit q \<Rightarrow> snd (submit q s)
      | Cancel_Handle r \<Rightarrow> if r < next_req s then cancel_request r s else s
      | Read_Step r \<Rightarrow> if r < next_req s then snd (read_step r s) else s
      | Engine_Turn \<Rightarrow> if engine_thread s = Alive then engine_turn K s else s
      | Stop_Engine \<Rightarrow> snd (stop_engine K True s)
      | Stop_Timed_Out \<Rightarrow> snd (stop_engine K False s))"
  by (cases ev) (simp_all add: engine_event_def engine_call_def modify_def)

definition run_events :: "('v, 'lg, 'c) sched_config \<Rightarrow> engine_event list \<Rightarrow> ('v, 'lg, 'c) sched \<Rightarrow> ('v, 'lg, 'c) sched" where
  "run_events K evs s = foldl (\<lambda>s ev. engine_event K ev s) s evs"

definition prompts_in :: "token list set \<Rightarrow> ('v, 'lg, 'c) sched_config \<Rightarrow> engine_event list \<Rightarrow> bool" where
  "prompts_in U K evs \<longleftrightarrow> (\<forall>q. Submit q \<in> set evs \<longrightarrow> tok_encode (sc_tokenizer K) (prompt_text q) \<in> U)"

section \<open>How much work the requests have left\<close>

definition total_work :: "('v, 'lg, 'c) sched_config \<Rightarrow> ('v, 'lg, 'c) sched \<Rightarrow> nat" where
  "total_work K s = (\<Sum>r < next_req s. work K (reqs s r))"

lemma progress_total:
  assumes l: "later K s s'" and p: "progress K s s'"
  shows "total_work K s' < total_work K s"
proof -
  have n: "next_req s' = next_req s" using l by (simp add: later_def engine_fields_def)
  have le: "work K (reqs s' r) \<le> work K (reqs s r)" for r using l by (simp add: later_def later_request_def)
  show ?thesis
    unfolding total_work_def n by (rule sum_strict_mono_ex1) (use le p in \<open>auto simp: progress_def\<close>)
qed

lemma later_not_busy: "later K s s' \<Longrightarrow> \<not> busy s \<Longrightarrow> \<not> busy s'"
  unfolding busy_def later_def later_request_def engine_fields_def by auto

section \<open>API calls keep the invariant\<close>

text \<open>A change of the requests that the invariant does not see.\<close>

definition relabelled :: "('lg, 'c) running_request \<Rightarrow> ('lg, 'c) running_request \<Rightarrow> bool" where
  "relabelled rq rq' \<longleftrightarrow> (\<exists>q b. rq' = rq\<lparr>output_queue := q, cancel_event := b\<rparr> \<and> (queue_right rq \<longrightarrow> queue_right rq'))"

lemma relabelledD:
  assumes "relabelled rq rq'"
  shows "rq_request rq' = rq_request rq" "rq_state rq' = rq_state rq" "batch_idx rq' = batch_idx rq"
    "pending_decode_tokens rq' = pending_decode_tokens rq" "last_logits rq' = last_logits rq"
    "slot_right rq' i x = slot_right rq i x" "request_right U target K rq \<Longrightarrow> request_right U target K rq'"
    "tokens_generated rq' = tokens_generated rq" "rq_finish rq' = rq_finish rq"
proof -
  obtain q b where eq: "rq' = rq\<lparr>output_queue := q, cancel_event := b\<rparr>" and qr: "queue_right rq \<longrightarrow> queue_right rq'"
    using assms by (auto simp: relabelled_def)
  have h: "has_room rq' = has_room rq" "tok_prompt K rq' = tok_prompt K rq" "is_greedy rq' = is_greedy rq"
      "text_right K rq' = text_right K rq" "output_right target K rq' = output_right target K rq"
    by (simp_all add: eq has_room_def tok_prompt_def is_greedy_def text_right_def output_right_def cong: option.case_cong)
  have "stopped_right target K rq' f = stopped_right target K rq f" for f
    by (cases f) (simp_all add: stopped_right_def h, simp_all add: eq)
  then have "state_right target K rq' = state_right target K rq"
    using h by (cases "rq_state rq") (simp_all add: state_right_def eq cong: option.case_cong)
  then show "request_right U target K rq \<Longrightarrow> request_right U target K rq'"
    using qr h by (simp add: request_right_def) (simp add: eq)
  show "slot_right rq' i x = slot_right rq i x"
    by (simp add: eq slot_right_def slot_history_def fed_tokens_def prefilling_def cong: option.case_cong)
qed (use assms in \<open>auto simp: relabelled_def\<close>)

lemma inv_relabel:
  assumes inv: "sched_inv ok idle U target K s" and rl: "relabelled (reqs s r) rq"
  shows "sched_inv ok idle U target K (upd r (\<lambda>_. rq) s)"
proof -
  note i = sched_invD [OF inv] and d = relabelledD [OF rl]
  let ?s = "upd r (\<lambda>_. rq) s"
  have same: "rq_state (reqs ?s x) = rq_state (reqs s x)" "batch_idx (reqs ?s x) = batch_idx (reqs s x)" for x
    using d(2,3) by simp_all
  have "queues_right ?s" using i(10) unfolding queues_right_def upd_simps same .
  moreover have "slots ?s = slots s" unfolding slots_def by (rule filter_cong) (use d(3) in auto)
  then have "cache_right ok idle ?s"
    by (intro cache_right_cong [OF i(7)]) (use d(6) in auto)
  moreover have "deferred_right K ?s x" if "deferred ?s = Some x" for x
  proof -
    have "pending_decode_tokens (reqs ?s x) = pending_decode_tokens (reqs s x)" "last_logits (reqs ?s x) = last_logits (reqs s x)"
        "rq_request (reqs ?s x) = rq_request (reqs s x)" for x
      using d by simp_all
    then show ?thesis using i(8) [of x] that unfolding deferred_right_def is_greedy_def Let_def upd_simps same by simp
  qed
  moreover have "request_right U target K (reqs ?s x)" if "x < next_req ?s" for x
    using i(4) [of x] that relabelledD(7) [OF rl, of U target K] by (cases "x = r") simp_all
  ultimately show ?thesis using i(9) by (simp add: sched_inv_def)
qed

lemma inv_cancel: "sched_inv ok idle U target K s \<Longrightarrow> sched_inv ok idle U target K (cancel_request r s)"
proof -
  assume inv: "sched_inv ok idle U target K s"
  have "relabelled (reqs s r) (cancel (reqs s r))"
    unfolding relabelled_def
    by (intro exI [of _ "output_queue (reqs s r)"] exI [of _ True]) (simp add: cancel_def queue_right_def)
  from inv_relabel [OF inv this] show "sched_inv ok idle U target K (cancel_request r s)" by (simp add: cancel_request_def upd_def)
qed

lemma inv_read:
  assumes inv: "sched_inv ok idle U target K s"
  shows "sched_inv ok idle U target K (snd (read_step r s))"
proof -
  let ?q = "snd (get_nowait (output_queue (reqs s r)))"
  have "relabelled (reqs s r) ((reqs s r)\<lparr>output_queue := ?q\<rparr>)"
    unfolding relabelled_def
  proof (intro exI [of _ ?q] exI [of _ "cancel_event (reqs s r)"] conjI impI)
    assume "queue_right (reqs s r)"
    then show "queue_right ((reqs s r)\<lparr>output_queue := ?q\<rparr>)"
      by (cases "sq_items (output_queue (reqs s r))") (auto simp: queue_right_def get_nowait_def split: if_splits)
  qed simp
  from inv_relabel [OF inv this] show ?thesis by (simp add: read_step_def upd_def split_beta)
qed

lemma inv_submit:
  assumes inv: "sched_inv ok idle U target K s" and U: "tok_encode (sc_tokenizer K) (prompt_text q) \<in> U"
  shows "sched_inv ok idle U target K (snd (submit q s))"
proof (cases "engine_thread s = Alive")
  case True
  note i = sched_invD [OF inv]
  let ?rq = "running_request_init q default_output_queue_size"
  let ?s = "s\<lparr>reqs := (reqs s)(next_req s := ?rq), next_req := next_req s + 1, waiting := waiting s @ [next_req s]\<rparr>"
  have new: "request_right U target K ?rq"
    using U by (simp add: running_request_init_def request_right_def tok_prompt_def output_right_def text_right_def
        token_stream_def text_stream_init_def queue_right_def step_queue_init_def state_right_def)
  have st: "rq_state ?rq = Waiting" "batch_idx ?rq = None" by (simp_all add: running_request_init_def)
  have fresh: "next_req s \<notin> set (running s)" "next_req s \<notin> set (waiting s)" using i(2,3) by blast+
  have "queues_right ?s"
    unfolding queues_right_def
  proof (intro conjI ballI allI impI)
    show "distinct (running ?s @ waiting ?s)" using i(1) fresh by simp
    show "x < next_req ?s" if "x \<in> set (running ?s @ waiting ?s)" for x using i(2,3) that by (auto simp: less_Suc_eq)
    show "rq_state (reqs ?s x) = Waiting \<longleftrightarrow> x \<in> set (waiting ?s)" if "x < next_req ?s" for x
      using i(5) [of x] that st by (auto simp: less_Suc_eq)
    fix x assume "x < next_req ?s" "rq_state (reqs ?s x) \<noteq> Waiting \<and> rq_state (reqs ?s x) \<noteq> Done"
    then show "x \<in> set (running ?s)" "batch_idx (reqs ?s x) \<noteq> None"
      using i(6) [of x] st by (auto simp: less_Suc_eq split: if_splits)
  qed
  moreover have "slots ?s = slots s" unfolding slots_def by (auto intro!: filter_cong simp: fresh)
  then have "cache_right ok idle ?s"
    by (intro cache_right_cong [OF i(7)]) (use fresh in \<open>auto simp: slots_def\<close>)
  moreover have "deferred_right K ?s d" if "deferred ?s = Some d" for d
    using i(8) [of d] that unfolding deferred_right_def Let_def by auto
  moreover have "request_right U target K (reqs ?s x)" if "x < next_req ?s" for x
    using i(4) [of x] that new by (auto simp: less_Suc_eq)
  ultimately have "sched_inv ok idle U target K ?s" using i(9) by (simp add: sched_inv_def)
  then show ?thesis using True by (simp add: submit_def Let_def)
qed (use inv in \<open>simp add: submit_def\<close>)

section \<open>Stopping\<close>

lemma finish_all:
  assumes "distinct rs" "\<And>r. r \<in> set rs \<Longrightarrow> rq_spec (reqs s r) = None"
  shows "for_each (\<lambda>r. finish K r Cancelled) rs s = (Inr (), upd_all rs (\<lambda>r. finished Cancelled (reqs s r)) s)"
proof -
  have "for_each (\<lambda>r. finish K r Cancelled) rs s = (Inr (), upd_all (map id rs) (\<lambda>r. finished Cancelled (reqs s r)) s)"
  proof (rule for_each_upd_all)
    fix r R assume "r \<in> set rs" "R (id r) = reqs s (id r)"
    then show "finish K r Cancelled (s\<lparr>reqs := R\<rparr>) = (Inr (), upd (id r) (\<lambda>_. finished Cancelled (reqs s (id r))) (s\<lparr>reqs := R\<rparr>))"
      using finish_plain [of "s\<lparr>reqs := R\<rparr>" r K Cancelled] assms(2) [of r] by (simp add: upd_def)
  qed (use assms(1) in simp)
  then show ?thesis by simp
qed

definition ended :: "('v, 'lg, 'c) sched \<Rightarrow> ('v, 'lg, 'c) sched" where
  "ended s = upd_all (in_flight s @ waiting s) (\<lambda>r. finished Cancelled (reqs s r)) (s\<lparr>deferred := None, waiting := []\<rparr>)"

lemma inv_ended:
  assumes inv: "sched_inv ok idle U target K s"
  shows "sched_inv ok idle U target K (ended s)" "\<forall>r < next_req s. rq_state (reqs (ended s) r) = Done" "later K s (ended s)"
proof -
  note i = sched_invD [OF inv]
  have fin: "rq_state (reqs s r) \<noteq> Done \<longleftrightarrow> r \<in> set (in_flight s @ waiting s)" if "r < next_req s" for r
    using i(5,6) [OF that] by (auto simp: in_flight_def)
  have req: "reqs (ended s) r = (if r \<in> set (in_flight s @ waiting s) then finished Cancelled (reqs s r) else reqs s r)" for r
    by (simp add: ended_def upd_all_def)
  have sel: "running (ended s) = running s" "waiting (ended s) = []" "next_req (ended s) = next_req s" "deferred (ended s) = None"
      "pre_forward (ended s) = None" "sched_cache (ended s) = sched_cache s" "sched_pool (ended s) = sched_pool s"
    using i(9) by (simp_all add: ended_def upd_all_def)
  show all: "\<forall>r < next_req s. rq_state (reqs (ended s) r) = Done"
  proof (intro allI impI)
    fix r assume "r < next_req s"
    then show "rq_state (reqs (ended s) r) = Done" using fin [of r] by (cases "rq_state (reqs s r) = Done") (simp_all add: req)
  qed
  have "queues_right (ended s)" using i(1,2) all unfolding queues_right_def sel by auto
  moreover have b: "batch_idx (reqs (ended s) r) = batch_idx (reqs s r)" for r by (simp add: req)
  then have "slots (ended s) = slots s" by (simp add: slots_def sel)
  then have "cache_right ok idle (ended s)"
    by (intro cache_right_cong [OF i(7) sel(6,7)]) (auto simp: req slot_right_def)
  moreover have "request_right U target K (reqs (ended s) r)" if r: "r < next_req s" for r
  proof (cases "rq_state (reqs s r) = Done")
    case True
    then show ?thesis using fin [OF r] i(4) [OF r] by (simp add: req)
  next
    case False
    then have "stopped_right target K (reqs s r) Cancelled" using alive_room [OF i(4) [OF r]] by (simp add: stopped_cancelled)
    then show ?thesis using fin [OF r] False request_finished(1) [OF i(4) [OF r] False] by (simp add: req)
  qed
  ultimately show "sched_inv ok idle U target K (ended s)" by (simp add: sched_inv_def sel)
  have "rq_state (reqs s r) \<noteq> Done" if r: "r \<in> set (in_flight s @ waiting s)" for r
    using r fin [of r] i(2,3) [of r] by (auto simp: in_flight_def)
  then have "later_request K (reqs s r) (reqs (ended s) r)" for r by (simp add: req)
  moreover have "engine_fields (ended s) = engine_fields s" by (simp add: ended_def upd_all_def engine_fields_def)
  ultimately show "later K s (ended s)" by (simp add: later_def)
qed

text \<open>What holds between the events of a run.\<close>

definition engine_ok ::
  "(slot list \<Rightarrow> 'v kvs \<Rightarrow> bool) \<Rightarrow> ('v pool \<Rightarrow> bool) \<Rightarrow> token list set \<Rightarrow> (token list \<Rightarrow> 'lg) \<Rightarrow> ('v, 'lg, 'c) sched_config
    \<Rightarrow> ('v, 'lg, 'c) sched \<Rightarrow> bool" where
  "engine_ok ok idle U target K s \<longleftrightarrow> sched_inv ok idle U target K s \<and> \<not> crashed s"

text \<open>What a handle sees only grows: tokens are appended, and a finished request never changes.\<close>

definition delivered :: "('v, 'lg, 'c) sched \<Rightarrow> ('v, 'lg, 'c) sched \<Rightarrow> bool" where
  "delivered s s' \<longleftrightarrow> next_req s \<le> next_req s' \<and>
     (\<forall>r < next_req s. rq_request (reqs s' r) = rq_request (reqs s r) \<and>
        prefix (tokens_generated (reqs s r)) (tokens_generated (reqs s' r)) \<and>
        (rq_state (reqs s r) = Done \<longrightarrow> rq_state (reqs s' r) = Done \<and>
           tokens_generated (reqs s' r) = tokens_generated (reqs s r) \<and> rq_finish (reqs s' r) = rq_finish (reqs s r)))"

lemma delivered_trans: "delivered s s' \<Longrightarrow> delivered s' s'' \<Longrightarrow> delivered s s''"
  unfolding delivered_def by (auto intro: prefix_order.trans)

lemma later_delivered: "later K s s' \<Longrightarrow> delivered s s'"
  unfolding delivered_def later_def later_request_def engine_fields_def by auto

text \<open>The running requests that a cancel waits for.\<close>

definition to_cancel :: "('v, 'lg, 'c) sched \<Rightarrow> nat list" where
  "to_cancel s = filter (\<lambda>r. cancel_event (reqs s r) \<and> rq_state (reqs s r) \<noteq> Done) (running s)"

context batch_runner begin

lemma end_in_flight_ok:
  assumes inv: "sched_inv ok idle U target K s"
  shows "\<exists>s'. end_in_flight K False s = (Inr (), s') \<and> sched_inv ok idle U target K s' \<and> running s' = [] \<and> waiting s' = [] \<and>
    sched_cache s' = None \<and> engine_fields s' = engine_fields s \<and> (\<forall>r < next_req s. rq_state (reqs s' r) = Done) \<and>
    later K s s'"
proof -
  note i = sched_invD [OF inv] and e = inv_ended [OF inv]
  let ?s1 = "s\<lparr>deferred := None, waiting := []\<rparr>"
  have "distinct (in_flight s @ waiting s)" using i(1) by (auto simp: in_flight_def)
  moreover have "rq_spec (reqs s r) = None" if "r \<in> set (in_flight s @ waiting s)" for r
    using i(2,3,4) [of r] that by (auto simp: in_flight_def request_right_def)
  ultimately have f: "for_each (\<lambda>r. finish K r Cancelled) (in_flight s @ waiting s) ?s1 = (Inr (), ended s)"
    using finish_all [of "in_flight s @ waiting s" ?s1 K] by (simp add: ended_def)
  obtain s' where r: "reap_done (ended s) = (Inr (), s')" "sched_inv ok idle U target K s'"
      "running s' = filter (\<lambda>r. rq_state (reqs (ended s) r) \<noteq> Done) (running (ended s))" "waiting s' = waiting (ended s)"
      "engine_fields s' = engine_fields (ended s)" "\<forall>r. same_but_slot (reqs (ended s) r) (reqs s' r)"
      "running s' = [] \<longrightarrow> sched_cache s' = None"
    using reap_done_ok [OF e(1)] by blast
  have "running (ended s) = running s" "waiting (ended s) = []" "engine_fields (ended s) = engine_fields s"
    by (simp_all add: ended_def upd_all_def engine_fields_def)
  moreover from this have "running s' = []" using r(3) e(2) i(2) by (simp add: filter_empty_conv)
  ultimately show ?thesis
    using f r(1,2,4,5,7) e(2) same_but_slotD(2) [OF spec [OF r(6)]] later_trans [OF e(3) later_same_but_slot [OF r(5,6)]]
    by (simp add: end_in_flight_def seq_def)
qed

text \<open>A cancelled request that runs ends at the next turn, with the tokens it has.\<close>

lemma cancel_pending_exact:
  assumes inv: "sched_inv ok idle U target K s"
  shows "cancel_pending K s = (Inr (), upd_all (to_cancel s) (\<lambda>r. finished Cancelled (reqs s r)) s)"
proof -
  define g where "g = (\<lambda>r. if cancel_event (reqs s r) \<and> rq_state (reqs s r) \<noteq> Done then finished Cancelled (reqs s r) else reqs s r)"
  have "for_each (\<lambda>r s. if cancel_event (reqs s r) \<and> rq_state (reqs s r) \<noteq> Done then finish K r Cancelled s else (Inr (), s))
      (running s) s = (Inr (), upd_all (map id (running s)) g s)"
  proof (rule for_each_upd_all)
    fix r R assume r: "r \<in> set (running s)" and R: "R (id r) = reqs s (id r)"
    have "rq_spec (reqs s r) = None" using sched_invD(2,4) [OF inv] r by (auto simp: request_right_def)
    moreover have "R(r := reqs s r) = R" using R by (simp add: fun_upd_idem)
    ultimately show "(if cancel_event (reqs (s\<lparr>reqs := R\<rparr>) r) \<and> rq_state (reqs (s\<lparr>reqs := R\<rparr>) r) \<noteq> Done
        then finish K r Cancelled (s\<lparr>reqs := R\<rparr>) else (Inr (), s\<lparr>reqs := R\<rparr>)) =
        (Inr (), upd (id r) (\<lambda>_. g (id r)) (s\<lparr>reqs := R\<rparr>))"
      using R finish_plain [of "s\<lparr>reqs := R\<rparr>" r K Cancelled] by (simp add: g_def upd_def)
  qed (use sched_invD(1) [OF inv] in simp)
  moreover have "upd_all (running s) g s = upd_all (to_cancel s) (\<lambda>r. finished Cancelled (reqs s r)) s"
    by (simp add: upd_all_def g_def to_cancel_def fun_eq_iff)
  ultimately show ?thesis by (simp add: cancel_pending_def)
qed

lemma cancelled_at_next_turn:
  assumes inv: "sched_inv ok idle U target K s" and K: "plain_config forward digest K" and run: "\<not> stop_event s"
    and r: "r \<in> set (running s)" "cancel_event (reqs s r)" "rq_state (reqs s r) \<noteq> Done"
  shows "rq_state (reqs (engine_turn K s) r) = Done" "rq_finish (reqs (engine_turn K s) r) = Some Cancelled"
    "tokens_generated (reqs (engine_turn K s) r) = tokens_generated (reqs s r)"
proof -
  let ?s1 = "upd_all (to_cancel s) (\<lambda>r. finished Cancelled (reqs s r)) s"
  note c = cancel_pending_exact [OF inv]
  have inv1: "sched_inv ok idle U target K ?s1" using cancel_pending_ok [OF inv] c by auto
  have "to_cancel ?s1 = []" by (auto simp: to_cancel_def upd_all_def filter_empty_conv)
  then have c1: "cancel_pending K ?s1 = (Inr (), ?s1)" using cancel_pending_exact [OF inv1] by (simp add: upd_all_def)
  have "engine_turn K s = engine_turn K ?s1"
    using c c1 run by (simp add: engine_turn_def sched_step_def seq_def) (simp add: upd_all_def)
  moreover have "later K ?s1 (engine_turn K ?s1)"
    by (rule engine_turn_ok(2) [OF inv1 K]) (use run in \<open>simp add: upd_all_def\<close>)
  ultimately have "later_request K (reqs ?s1 r) (reqs (engine_turn K s) r)" by (simp add: later_def)
  moreover have "reqs ?s1 r = finished Cancelled (reqs s r)" using r by (simp add: upd_all_def to_cancel_def)
  ultimately show "rq_state (reqs (engine_turn K s) r) = Done" "rq_finish (reqs (engine_turn K s) r) = Some Cancelled"
    "tokens_generated (reqs (engine_turn K s) r) = tokens_generated (reqs s r)"
    by (simp_all add: later_request_def)
qed

lemma engine_event_ok:
  assumes ok: "engine_ok ok idle U target K s" and K: "plain_config forward digest K"
    and U: "\<And>q. ev = Submit q \<Longrightarrow> tok_encode (sc_tokenizer K) (prompt_text q) \<in> U"
  shows "engine_ok ok idle U target K (engine_event K ev s)"
proof -
  have inv: "sched_inv ok idle U target K s" and nc: "\<not> crashed s" using ok by (simp_all add: engine_ok_def)
  show ?thesis
  proof (cases ev)
    case Start_Engine
    then show ?thesis using inv nc by (simp add: engine_event_eq start_engine_def seq_def ret_def engine_ok_def)
  next
    case (Submit q)
    moreover have "crashed (snd (submit q s)) = crashed s" by (simp add: submit_def Let_def)
    ultimately show ?thesis using inv_submit [OF inv U] nc by (simp add: engine_event_eq engine_ok_def)
  next
    case (Cancel_Handle r)
    then show ?thesis using inv nc inv_cancel [OF inv] by (simp add: engine_event_eq engine_ok_def cancel_request_def)
  next
    case (Read_Step r)
    moreover have "crashed (snd (read_step r s)) = crashed s" by (simp add: read_step_def split_beta)
    ultimately show ?thesis using inv nc inv_read [OF inv] by (simp add: engine_event_eq engine_ok_def)
  next
    case Engine_Turn
    moreover have "crashed (engine_turn K s) = crashed s"
      using engine_turn_ok(2,3) [OF inv K] by (cases "stop_event s") (simp_all add: later_def engine_fields_def)
    ultimately show ?thesis using inv nc engine_turn_ok(1) [OF inv K] by (simp add: engine_event_eq engine_ok_def)
  next
    case Stop_Engine
    have "sched_inv ok idle U target K (s\<lparr>stop_event := True, stopping := True, engine_thread := No_Thread\<rparr>)" using inv by simp
    then obtain s' where "end_in_flight K False (s\<lparr>stop_event := True, stopping := True, engine_thread := No_Thread\<rparr>) = (Inr (), s')"
        "sched_inv ok idle U target K s'"
        "engine_fields s' = engine_fields (s\<lparr>stop_event := True, stopping := True, engine_thread := No_Thread\<rparr>)"
      using end_in_flight_ok by blast
    then show ?thesis using Stop_Engine inv nc
      by (simp add: engine_event_eq stop_engine_def engine_ok_def engine_fields_def Let_def)
  next
    case Stop_Timed_Out
    then show ?thesis using inv nc by (simp add: engine_event_eq stop_engine_def engine_ok_def Let_def)
  qed
qed

text \<open>What a call raises: a submit to an engine that does not run, and a read of an empty queue.\<close>

lemma engine_call_raises:
  assumes ok: "engine_ok ok idle U target K s"
  shows "fst (engine_call K ev s) = Inl e \<longleftrightarrow>
    (\<exists>q. ev = Submit q \<and> engine_thread s \<noteq> Alive \<and> e = EngineNotRunningError) \<or>
    (\<exists>r < next_req s. ev = Read_Step r \<and> sq_items (output_queue (reqs s r)) = [] \<and> e = Queue_Empty)"
proof -
  have inv: "sched_inv ok idle U target K s" and nc: "\<not> crashed s" using ok by (simp_all add: engine_ok_def)
  show ?thesis
  proof (cases ev)
    case Stop_Engine
    let ?s = "s\<lparr>stop_event := True, stopping := True, engine_thread := No_Thread\<rparr>"
    have "sched_inv ok idle U target K ?s" using inv by simp
    then obtain s' where "end_in_flight K False ?s = (Inr (), s')" using end_in_flight_ok by blast
    then show ?thesis using Stop_Engine nc by (simp add: engine_call_def stop_engine_def seq_def ret_def Let_def)
  qed (use nc in \<open>auto simp: engine_call_def start_engine_def submit_def stop_engine_def read_step_def get_nowait_def modify_def
      seq_def ret_def Let_def split: list.splits\<close>)
qed

lemma run_events_ok:
  assumes "engine_ok ok idle U target K s" "plain_config forward digest K" "prompts_in U K evs"
  shows "engine_ok ok idle U target K (run_events K evs s)"
  using assms
proof (induction evs arbitrary: s)
  case (Cons ev evs)
  have "engine_ok ok idle U target K (engine_event K ev s)"
    by (rule engine_event_ok [OF Cons.prems(1,2)]) (use Cons.prems(3) in \<open>simp add: prompts_in_def\<close>)
  moreover have "prompts_in U K evs" using Cons.prems(3) by (simp add: prompts_in_def)
  ultimately show ?case using Cons.IH [OF _ Cons.prems(2)] by (simp add: run_events_def)
qed (simp add: run_events_def)

lemma engine_event_delivered:
  assumes ok: "engine_ok ok idle U target K s" and K: "plain_config forward digest K"
  shows "delivered s (engine_event K ev s)"
proof -
  have inv: "sched_inv ok idle U target K s" and nc: "\<not> crashed s" using ok by (simp_all add: engine_ok_def)
  have same: "delivered s s'" if "next_req s' = next_req s"
      "\<And>r. rq_request (reqs s' r) = rq_request (reqs s r) \<and> tokens_generated (reqs s' r) = tokens_generated (reqs s r) \<and>
        rq_state (reqs s' r) = rq_state (reqs s r) \<and> rq_finish (reqs s' r) = rq_finish (reqs s r)" for s'
    using that by (simp add: delivered_def)
  show ?thesis
  proof (cases ev)
    case Start_Engine
    then show ?thesis using nc by (intro same) (simp_all add: engine_event_eq start_engine_def seq_def ret_def)
  next
    case (Submit q)
    then show ?thesis by (simp add: engine_event_eq submit_def Let_def delivered_def)
  next
    case (Cancel_Handle r)
    then show ?thesis by (intro same) (simp_all add: engine_event_eq cancel_request_def cancel_def)
  next
    case (Read_Step r)
    then show ?thesis by (intro same) (simp_all add: engine_event_eq read_step_def split_beta)
  next
    case Engine_Turn
    then show ?thesis
      using engine_turn_ok(3) [OF inv K] later_delivered [OF engine_turn_ok(2) [OF inv K]]
      by (cases "stop_event s") (auto simp: engine_event_eq delivered_def)
  next
    case Stop_Engine
    let ?s = "s\<lparr>stop_event := True, stopping := True, engine_thread := No_Thread\<rparr>"
    have "sched_inv ok idle U target K ?s" using inv by simp
    then obtain s' where e: "end_in_flight K False ?s = (Inr (), s')" "later K ?s s'" using end_in_flight_ok by blast
    have "delivered s (s'\<lparr>stopping := False\<rparr>)" using later_delivered [OF e(2)] by (simp add: delivered_def)
    moreover have "delivered s (s\<lparr>stop_event := True, stopping := False\<rparr>)" by (intro same) simp_all
    ultimately show ?thesis using Stop_Engine nc e(1) by (simp add: engine_event_eq stop_engine_def Let_def)
  next
    case Stop_Timed_Out
    then show ?thesis by (intro same) (simp_all add: engine_event_eq stop_engine_def Let_def)
  qed
qed

lemma run_events_delivered:
  assumes "engine_ok ok idle U target K s" "plain_config forward digest K" "prompts_in U K evs"
  shows "delivered s (run_events K evs s)"
  using assms
proof (induction evs arbitrary: s)
  case (Cons ev evs)
  have p: "prompts_in U K evs" using Cons.prems(3) by (simp add: prompts_in_def)
  have "engine_ok ok idle U target K (engine_event K ev s)"
    by (rule engine_event_ok [OF Cons.prems(1,2)]) (use Cons.prems(3) in \<open>simp add: prompts_in_def\<close>)
  from Cons.IH [OF this Cons.prems(2) p] engine_event_delivered [OF Cons.prems(1,2), of ev]
  show ?case by (auto simp: run_events_def intro: delivered_trans)
qed (simp add: run_events_def delivered_def)

lemma engine_turns_ok:
  assumes "engine_ok ok idle U target K s" "plain_config forward digest K" "engine_thread s = Alive" "\<not> stop_event s"
    "0 < max_concurrent K"
  shows "let s' = run_events K (replicate n Engine_Turn) s in later K s s' \<and> (busy s' \<longrightarrow> total_work K s' + n \<le> total_work K s)"
  using assms
proof (induction n arbitrary: s)
  case (Suc n)
  let ?t = "engine_turn K s"
  have inv: "sched_inv ok idle U target K s" using Suc.prems(1) by (simp add: engine_ok_def)
  have ev: "engine_event K Engine_Turn s = ?t" using Suc.prems(3) by (simp add: engine_event_eq)
  have l: "later K s ?t" by (rule engine_turn_ok(2) [OF inv Suc.prems(2,4)])
  have "engine_ok ok idle U target K (engine_event K Engine_Turn s)" by (rule engine_event_ok [OF Suc.prems(1,2)]) simp
  then have ih: "let s' = run_events K (replicate n Engine_Turn) ?t in
      later K ?t s' \<and> (busy s' \<longrightarrow> total_work K s' + n \<le> total_work K ?t)"
    using Suc.IH [of ?t] Suc.prems(2,3,4,5) l by (simp add: ev later_def engine_fields_def)
  show ?case
  proof (cases "busy s")
    case True
    have "total_work K ?t < total_work K s"
      by (rule progress_total [OF l engine_turn_ok(4) [OF inv Suc.prems(2,4) True Suc.prems(5)]])
    then show ?thesis using ih ev l by (auto simp: run_events_def Let_def intro: later_trans)
  next
    case False
    have "later K s (run_events K (replicate (Suc n) Engine_Turn) s)"
      using ih ev l by (auto simp: run_events_def Let_def intro: later_trans)
    then show ?thesis using later_not_busy [OF _ False] by (auto simp: Let_def)
  qed
qed (simp add: run_events_def)

end

lemma sched_init_ok:
  assumes "sched_init K P traced seed = Inr s" "idle P"
  shows "engine_ok ok idle U target K s"
  using assms
  by (auto simp: sched_init_def engine_ok_def sched_inv_def queues_right_def cache_right_def slots_def split: if_splits)

section \<open>What a right request has\<close>

lemma request_length:
  assumes rq: "request_right U target K rq"
  shows "length (tokens_generated rq) \<le> nat (max 1 (max_tokens (rq_request rq)))"
proof (cases "rq_state rq = Done")
  case True
  then obtain reason where "stopped_right target K rq reason" using rq by (auto simp: request_right_def state_right_def)
  then have "int (length (tokens_generated rq)) \<le> max 1 (max_tokens (rq_request rq))"
    by (cases reason) (simp_all add: stopped_right_def has_room_def)
  then show ?thesis by linarith
next
  case False
  then show ?thesis using alive_room [OF rq] by (simp add: has_room_def)
qed

lemma finished_greedy:
  assumes rq: "request_right U target K rq" and g: "temperature (sampling (rq_request rq)) = 0" and p: "tok_prompt K rq \<noteq> []"
  defines "out \<equiv> greedy_generate (argmax (sc_sampler K)) target (eos_token_id (sc_tokenizer K)) (tok_prompt K rq)
    (nat (max 1 (max_tokens (rq_request rq))))"
  shows "take (length (tokens_generated rq)) out = tokens_generated rq"
    "rq_finish rq = Some Stop \<or> rq_finish rq = Some Length \<Longrightarrow> tokens_generated rq = out"
proof -
  have run: "greedy_run (argmax (sc_sampler K)) target (tok_prompt K rq) (tokens_generated rq)"
      "eos_token_id (sc_tokenizer K) \<notin> set (tokens_generated rq)"
    using rq g by (simp_all add: request_right_def output_right_def is_greedy_def)
  note len = request_length [OF rq]
  show "take (length (tokens_generated rq)) out = tokens_generated rq"
    unfolding out_def by (rule greedy_run_generate(1) [OF run len])
  assume f: "rq_finish rq = Some Stop \<or> rq_finish rq = Some Length"
  then have "rq_state rq = Done" using rq by (auto simp: request_right_def state_right_def split: request_state.splits)
  then obtain reason where r: "rq_finish rq = Some reason" "stopped_right target K rq reason"
    using rq by (auto simp: request_right_def state_right_def)
  have "length (tokens_generated rq) = nat (max 1 (max_tokens (rq_request rq))) \<or>
      argmax (sc_sampler K) (target (tok_prompt K rq @ tokens_generated rq)) = eos_token_id (sc_tokenizer K)"
    using f r g p by (auto simp: stopped_right_def is_greedy_def)
  from greedy_run_generate(2) [OF run len this] show "tokens_generated rq = out" by (simp add: out_def)
qed

end
