(* ===== verification/Example_Engine.thy ===== *)
theory Example_Engine
  imports Engine_Runs Serving_Properties
begin

text \<open>
  A small engine that the witnesses run: a decoder of one layer over integers, a runner on the example
  pool, a tokenizer of one id per character, and one user.
\<close>

text \<open>An update of a request is evaluated when the state is known, so that a run does not carry its history.\<close>

lemma upd_code [code]:
  "upd r f \<lparr>reqs = R, next_req = n, waiting = w, running = a, sched_cache = c, sched_pool = P, deferred = d, pre_forward = p,
      rng = g, engine_thread = t, stop_event = e, stopping = st, crashed = cr, trace = tr\<rparr> =
    \<lparr>reqs = R(r := f (R r)), next_req = n, waiting = w, running = a, sched_cache = c, sched_pool = P, deferred = d, pre_forward = p,
      rng = g, engine_thread = t, stop_event = e, stopping = st, crashed = cr, trace = tr\<rparr>"
  by (simp add: upd_def)

definition ex_lm :: "(int, int, int) lm" where
  "ex_lm = \<lparr>lm_layers = 1, q_heads = 1, kv_heads = 1, embed_row = id, input_norm = (\<lambda>_ x. x),
     q_row = (\<lambda>_ i x. x + int i), k_row = (\<lambda>_ i x. x + 2 * int i), v_row = (\<lambda>_ x. 3 * x),
     attend = (\<lambda>_ q kvs. q + sum_list (map (\<lambda>(k, v). k + v) kvs)), o_row = (\<lambda>_ x. x), post_norm = (\<lambda>_ x. x),
     mlp_row = (\<lambda>_ x. x + 1), add_rows = (+), final_norm = id, head_row = id\<rparr>"

definition ex_runner :: "(int, int, int) runner" where
  "ex_runner = \<lparr>rn_model = ex_lm,
     rn_env = \<lparr>env_qwrite = (\<lambda>_ _ _ _ s. (Inr (), s)), env_qread = (\<lambda>_ s. (Inl RuntimeError, s)),
       env_digest = ex_digest, env_device = 0\<rparr>,
     rn_selects_rows = True, rn_tensor_id = 7, rn_decode_graph = None, rn_prefill_graph = None\<rparr>"

definition ex_tokenizer :: tokenizer where
  "ex_tokenizer = \<lparr>tok_encode = map (\<lambda>c. of_char c - 86), tok_decode = map (\<lambda>t. char_of (nat (t + 86))),
     decode_step = None, eos_token_id = 11\<rparr>"

definition ex_sampler :: "int sampler" where
  "ex_sampler = \<lparr>argmax = (\<lambda>x. 11 + x mod 7), draw = (\<lambda>n i x _. 12 + (x + int n + int i) mod 5), draw_one = (\<lambda>n x _. 11),
     vocab_size = 20, softmax = (\<lambda>_ _. []), uniform = (\<lambda>_ _. 0), multinomial = (\<lambda>_ _. 0)\<rparr>"

definition ex_config :: "(int, int, int list) sched_config" where
  "ex_config = \<lparr>forward_packed = sched_forward ex_runner [], sc_tokenizer = ex_tokenizer, sc_sampler = ex_sampler,
     sc_digest = ex_digest, supports_taps = True, max_concurrent = 2, decode_headroom = 1, chunk_size = 5,
     sc_dspark = None, async_sampling = True, last_rows_only = True\<rparr>"

definition ex_request :: "rat \<Rightarrow> int \<Rightarrow> request" where
  "ex_request temp n = \<lparr>prompt_text = ''abcde'', sampling = \<lparr>temperature = temp, top_k = 0, top_p = 1\<rparr>, max_tokens = n\<rparr>"

definition ex_start :: "(int, int, int list) sched" where
  "ex_start = projr (sched_init ex_config ex_pool False 0)"

definition ex_events :: "engine_event list" where
  "ex_events = [Start_Engine, Submit (ex_request 0 1), Engine_Turn, Engine_Turn]"

definition ex_final :: "(int, int, int list) sched" where
  "ex_final = run_events ex_config ex_events ex_start"

end
