(* ===== verification/Engine_Output.thy ===== *)
theory Engine_Output
  imports Engine_Runs
begin

text \<open>
  What a handle gets: the steps read from the output queue along a run, with those that are still
  queued, are the steps the engine sent, less the oldest ones that a full queue dropped.
\<close>

section \<open>The steps that are read\<close>

definition call_steps :: "('v, 'lg, 'c) sched_config \<Rightarrow> nat \<Rightarrow> engine_event \<Rightarrow> ('v, 'lg, 'c) sched \<Rightarrow> generation_step list" where
  "call_steps K r ev s =
     (if ev = Read_Step r then case fst (engine_call K ev s) of Inr (Some step) \<Rightarrow> [step] | _ \<Rightarrow> [] else [])"

fun read_steps :: "('v, 'lg, 'c) sched_config \<Rightarrow> nat \<Rightarrow> engine_event list \<Rightarrow> ('v, 'lg, 'c) sched \<Rightarrow> generation_step list" where
  "read_steps K r [] s = []"
| "read_steps K r (ev # evs) s = call_steps K r ev s @ read_steps K r evs (engine_event K ev s)"

section \<open>A queue against what was put on it\<close>

definition queue_log :: "generation_step list \<Rightarrow> step_queue \<Rightarrow> generation_step list \<Rightarrow> bool" where
  "queue_log got q sent \<longleftrightarrow> sq_maxsize q = default_output_queue_size \<and> length (sq_items q) \<le> default_output_queue_size \<and>
     suffix (sq_items q) sent \<and> subseq (got @ sq_items q) sent \<and>
     (length sent \<le> default_output_queue_size \<longrightarrow> got @ sq_items q = sent)"

lemma subseq_drop_mid: "subseq (xs @ y # ys) zs \<Longrightarrow> subseq (xs @ ys) zs"
  by (rule subseq_order.trans [rotated]) (auto intro: list_emb_append_mono)

lemma queue_log_put:
  assumes "queue_log got q sent"
  shows "queue_log got (put_dropping x q) (sent @ [x])"
proof -
  have p: "0 < sq_maxsize q" "length (sq_items q) \<le> sq_maxsize q"
    using assms by (simp_all add: queue_log_def default_output_queue_size_def)
  show ?thesis
  proof (cases "length (sq_items q) < sq_maxsize q")
    case True
    then show ?thesis using assms put_dropping_items [OF p, of x]
      by (auto simp: queue_log_def list_emb_append_mono simp flip: append_assoc)
  next
    case False
    then obtain y ys where y: "sq_items q = y # ys" using p by (cases "sq_items q") auto
    have long: "default_output_queue_size \<le> length sent"
      using False assms by (auto simp: queue_log_def suffix_def)
    have "suffix ys sent" using assms y suffix_order.trans [of ys "y # ys" sent] by (simp add: queue_log_def suffix_ConsI)
    moreover have "subseq (got @ ys) sent" using assms y subseq_drop_mid by (metis queue_log_def)
    ultimately show ?thesis using assms put_dropping_items [OF p, of x] False y long
      by (auto simp: queue_log_def list_emb_append_mono simp flip: append_assoc)
  qed
qed

lemma queue_log_puts: "queue_log got q sent \<Longrightarrow> queue_log got (foldl (\<lambda>q step. put_dropping step q) q steps) (sent @ steps)"
proof (induction steps arbitrary: q sent)
  case (Cons x xs)
  from Cons.IH [OF queue_log_put [OF Cons.prems, of x]] show ?case by simp
qed simp

lemma queue_log_get:
  assumes "queue_log got q sent" "sq_items q = x # xs"
  shows "queue_log (got @ [x]) (q\<lparr>sq_items := xs\<rparr>) sent"
  using assms suffix_order.trans [of xs "x # xs" sent] by (simp add: queue_log_def suffix_ConsI)

section \<open>The log of a run\<close>

definition logs :: "('v, 'lg, 'c) sched_config \<Rightarrow> (nat \<Rightarrow> generation_step list) \<Rightarrow> ('v, 'lg, 'c) sched \<Rightarrow> bool" where
  "logs K got s \<longleftrightarrow> (\<forall>r < next_req s. queue_log (got r) (output_queue (reqs s r)) (sent_steps K (reqs s r))) \<and>
     (\<forall>r \<ge> next_req s. got r = [])"

lemma logs_later:
  assumes "logs K got s" "later K s s'"
  shows "logs K got s'"
proof -
  have "queue_log (got r) (output_queue (reqs s' r)) (sent_steps K (reqs s' r))" if "r < next_req s" for r
  proof -
    have "sends K (reqs s r) (reqs s' r)" using assms(2) by (simp add: later_def later_request_def)
    then obtain steps where "sent_steps K (reqs s' r) = sent_steps K (reqs s r) @ steps"
        "output_queue (reqs s' r) = foldl (\<lambda>q step. put_dropping step q) (output_queue (reqs s r)) steps"
      by (auto simp: sends_def)
    then show ?thesis using queue_log_puts assms(1) that by (simp add: logs_def)
  qed
  then show ?thesis using assms later_fields [OF assms(2)] by (simp add: logs_def)
qed

lemma logs_read:
  assumes "logs K got s"
  shows "logs K (\<lambda>x. got x @ call_steps K x (Read_Step r) s) (engine_event K (Read_Step r) s)"
proof (cases "r < next_req s \<and> sq_items (output_queue (reqs s r)) \<noteq> []")
  case True
  then obtain x xs where x: "sq_items (output_queue (reqs s r)) = x # xs" by (cases "sq_items (output_queue (reqs s r))") auto
  have c: "call_steps K y (Read_Step r) s = (if y = r then [x] else [])" for y
    using True x by (simp add: call_steps_def engine_call_def read_step_def get_nowait_def seq_def ret_def)
  have e: "engine_event K (Read_Step r) s = upd r (\<lambda>rq. rq\<lparr>output_queue := (output_queue (reqs s r))\<lparr>sq_items := xs\<rparr>\<rparr>) s"
    using True x by (simp add: engine_event_eq read_step_def get_nowait_def)
  show ?thesis using assms queue_log_get [of "got r", OF _ x] True unfolding c e by (auto simp: logs_def sent_steps_def)
next
  case False
  then have "call_steps K y (Read_Step r) s = []" for y
    by (auto simp: call_steps_def engine_call_def read_step_def get_nowait_def seq_def ret_def)
  moreover have "output_queue (reqs (engine_event K (Read_Step r) s) y) = output_queue (reqs s y)"
      "sent_steps K (reqs (engine_event K (Read_Step r) s) y) = sent_steps K (reqs s y)"
      "next_req (engine_event K (Read_Step r) s) = next_req s" for y
    using False by (auto simp: engine_event_eq read_step_def get_nowait_def upd_def sent_steps_def split: list.split)
  ultimately show ?thesis using assms by (simp add: logs_def)
qed

context batch_runner begin

lemma engine_event_logs:
  assumes ok: "engine_ok ok idle U target K s" and K: "plain_config forward digest K" and l: "logs K got s"
  shows "logs K (\<lambda>r. got r @ call_steps K r ev s) (engine_event K ev s)"
proof -
  have inv: "sched_inv ok idle U target K s" and nc: "\<not> crashed s" using ok by (simp_all add: engine_ok_def)
  have none: "call_steps K r ev s = []" if "\<And>r. ev \<noteq> Read_Step r" for r
    using that by (simp add: call_steps_def)
  have same': "logs K got s'" if "\<And>r. output_queue (reqs s' r) = output_queue (reqs s r) \<and>
      sent_steps K (reqs s' r) = sent_steps K (reqs s r)" "next_req s' = next_req s" for s'
    using l that by (simp add: logs_def)
  have same: "logs K got s'" if "reqs s' = reqs s" "next_req s' = next_req s" for s'
    using that by (simp add: same')
  show ?thesis
  proof (cases ev)
    case Start_Engine
    then show ?thesis using nc none by (simp add: same engine_event_eq start_engine_def seq_def ret_def)
  next
    case (Submit q)
    have "queue_log [] (step_queue_init default_output_queue_size) []" by (simp add: queue_log_def step_queue_init_def)
    then have "logs K got (snd (submit q s))"
      using l by (auto simp: logs_def submit_def Let_def running_request_init_def sent_steps_def token_steps_def less_Suc_eq)
    then show ?thesis using Submit none by (simp add: engine_event_eq)
  next
    case (Cancel_Handle r)
    have "logs K got (cancel_request r s)" by (rule same') (simp_all add: cancel_request_def cancel_def sent_steps_def)
    then show ?thesis using Cancel_Handle none l by (simp add: engine_event_eq)
  next
    case (Read_Step r)
    then show ?thesis using logs_read [OF l] by simp
  next
    case Engine_Turn
    moreover have "logs K got (engine_turn K s)" if "\<not> stop_event s"
      using logs_later [OF l engine_turn_ok(2) [OF inv K that]] .
    moreover have "logs K got (engine_turn K s)" if "stop_event s"
      using engine_turn_ok(3) [OF inv K that] by (simp add: same)
    ultimately show ?thesis using none l by (cases "stop_event s") (simp_all add: engine_event_eq)
  next
    case Stop_Engine
    let ?s = "s\<lparr>stop_event := True, stopping := True, engine_thread := No_Thread\<rparr>"
    have "sched_inv ok idle U target K ?s" using inv by simp
    then obtain s' where e: "end_in_flight K False ?s = (Inr (), s')" "later K ?s s'" using end_in_flight_ok by blast
    have "logs K got s'" by (rule logs_later [OF same e(2)]) simp_all
    then have "logs K got (s'\<lparr>stopping := False\<rparr>)" by (simp add: logs_def)
    then show ?thesis using Stop_Engine none nc e(1) by (simp add: engine_event_eq stop_engine_def Let_def same)
  next
    case Stop_Timed_Out
    then show ?thesis using none by (simp add: same engine_event_eq stop_engine_def Let_def)
  qed
qed

lemma run_events_logs:
  assumes "engine_ok ok idle U target K s" "plain_config forward digest K" "prompts_in U K evs" "logs K got s"
  shows "logs K (\<lambda>r. got r @ read_steps K r evs s) (run_events K evs s)"
  using assms
proof (induction evs arbitrary: s got)
  case (Cons ev evs)
  have p: "prompts_in U K evs" using Cons.prems(3) by (simp add: prompts_in_def)
  have "engine_ok ok idle U target K (engine_event K ev s)"
    by (rule engine_event_ok [OF Cons.prems(1,2)]) (use Cons.prems(3) in \<open>simp add: prompts_in_def\<close>)
  from Cons.IH [OF this Cons.prems(2) p engine_event_logs [OF Cons.prems(1,2,4), of ev]] show ?case
    by (simp add: run_events_def)
qed (simp add: run_events_def)

end

section \<open>The text of the steps\<close>

definition text_of :: "tokenizer \<Rightarrow> token list \<Rightarrow> string" where
  "text_of T ts = (case decode_step T of Some step \<Rightarrow> stream_pieces step [] ts | None \<Rightarrow> tok_decode T ts)"

lemma stream_pieces_snoc:
  "stream_pieces step seen (ts @ [t]) =
     stream_pieces step seen ts @ (case step (seen @ ts) t of None \<Rightarrow> [] | Some piece \<Rightarrow> piece)"
  by (induction ts arbitrary: seen) simp_all

lemma token_stream_snoc: "token_stream T (ts @ [t]) = snd (push T [t] (token_stream T ts))"
  by (simp add: token_stream_def)

lemma token_stream_text:
  assumes "decode_step T = None \<longrightarrow> tok_decode T [] = [] \<and> (\<forall>ts t. prefix (tok_decode T ts) (tok_decode T (ts @ [t])))"
  shows "token_stream T ts = \<lparr>ts_ids = ts, ts_text = text_of T ts\<rparr>"
proof (induction ts rule: rev_induct)
  case Nil
  then show ?case using assms by (simp add: token_stream_def text_stream_init_def text_of_def split: option.split)
next
  case (snoc t ts)
  have "prefix (tok_decode T ts) (tok_decode T (ts @ [t]))" if "decode_step T = None" using assms that by blast
  then show ?case using snoc
    by (auto simp: token_stream_snoc push_def text_of_def stream_pieces_snoc prefix_def split: option.splits)
qed

abbreviation text_in :: "generation_step list \<Rightarrow> string" where
  "text_in steps \<equiv> concat (map gs_text steps)"

abbreviation tokens_in :: "generation_step list \<Rightarrow> nat" where
  "tokens_in steps \<equiv> sum_list (map gs_num_tokens steps)"

lemma token_steps_text:
  "text_in (token_steps T ts) = ts_text (token_stream T ts)" "tokens_in (token_steps T ts) = length ts"
  "\<forall>x \<in> set (token_steps T ts). gs_finish x = None \<and> \<not> gs_failed x" "length (token_steps T ts) = length ts"
proof (induction ts rule: rev_induct)
  case (snoc t ts)
  have p: "ts_text (snd (push T [t] st)) = ts_text st @ fst (push T [t] st)" for st by (simp add: push_def Let_def)
  { case 1 then show ?case using snoc by (simp add: token_steps_snoc token_stream_snoc p text_step_def) }
  { case 2 then show ?case using snoc by (simp add: token_steps_snoc text_step_def) }
  { case 3 then show ?case using snoc by (auto simp: token_steps_snoc text_step_def) }
  { case 4 then show ?case using snoc by (simp add: token_steps_snoc) }
qed (simp_all add: token_steps_def token_stream_def text_stream_init_def)

lemma sent_steps_text:
  "text_in (sent_steps K rq) = ts_text (token_stream (sc_tokenizer K) (tokens_generated rq))"
  "tokens_in (sent_steps K rq) = length (tokens_generated rq)"
  "\<forall>x \<in> set (sent_steps K rq). \<not> gs_failed x" "length (sent_steps K rq) \<le> length (tokens_generated rq) + 1"
  using token_steps_text [of "sc_tokenizer K" "tokens_generated rq"] by (auto simp: sent_steps_def terminal_step_def)

section \<open>Waiting for the result\<close>

lemma next_step_item:
  assumes "put_before p = []" "sq_items (output_queue rq) = x # xs" "\<not> gs_failed x"
  shows "next_step (p # ps) rq = ((Some (Inr x), ps), rq\<lparr>output_queue := (output_queue rq)\<lparr>sq_items := xs\<rparr>\<rparr>)"
proof -
  have "engine_puts (put_before p) rq = rq" by (simp add: assms(1) engine_puts_def)
  then have "poll_turn p rq = (Inr (Some x), rq\<lparr>output_queue := (output_queue rq)\<lparr>sq_items := xs\<rparr>\<rparr>)"
    unfolding poll_turn_def Let_def get_nowait_def using assms(2,3) by (simp add: take_step_def)
  then show ?thesis by simp
qed

text \<open>A \<open>wait\<close> on a queue that holds the terminal step returns the texts before it.\<close>

lemma wait_result_items:
  assumes "sq_items (output_queue rq) = xs @ [y]" "\<forall>x \<in> set (xs @ [y]). \<not> gs_failed x" "\<forall>x \<in> set xs. gs_finish x = None"
    and "gs_finish y = Some f" "length xs < length ps" "\<forall>p \<in> set ps. put_before p = []"
  shows "\<exists>rq'. wait_result parts ps rq = (Some (Inr (build_result (parts @ text_in xs) f rq')), rq') \<and>
    tokens_generated rq' = tokens_generated rq"
  using assms
proof (induction xs arbitrary: parts ps rq)
  case Nil
  obtain p ps' where ps: "ps = p # ps'" using Nil.prems(5) by (cases ps) simp_all
  define rq' where "rq' = rq\<lparr>output_queue := (output_queue rq)\<lparr>sq_items := []\<rparr>\<rparr>"
  have "next_step ps rq = ((Some (Inr y), ps'), rq')" unfolding ps rq'_def by (rule next_step_item) (use Nil ps in simp_all)
  then have "wait_result parts ps rq = (Some (Inr (build_result parts f rq')), rq')"
    unfolding wait_result_simp [of parts ps rq] using Nil.prems(4) by simp
  then show ?case by (simp add: rq'_def)
next
  case (Cons x xs)
  obtain p ps' where ps: "ps = p # ps'" using Cons.prems(5) by (cases ps) simp_all
  define rq' where "rq' = rq\<lparr>output_queue := (output_queue rq)\<lparr>sq_items := xs @ [y]\<rparr>\<rparr>"
  have n: "next_step ps rq = ((Some (Inr x), ps'), rq')" unfolding ps rq'_def by (rule next_step_item) (use Cons.prems ps in simp_all)
  have "\<exists>rq''. wait_result (parts @ gs_text x) ps' rq' = (Some (Inr (build_result ((parts @ gs_text x) @ text_in xs) f rq'')), rq'') \<and>
      tokens_generated rq'' = tokens_generated rq'"
    by (rule Cons.IH) (use Cons.prems ps in \<open>simp_all add: rq'_def\<close>)
  moreover have "wait_result parts ps rq = wait_result (parts @ gs_text x) ps' rq'"
    unfolding wait_result_simp [of parts ps rq] using n Cons.prems(3) by simp
  ultimately show ?case by (simp add: rq'_def)
qed

end
