(* ===== verification/Engine_Properties.thy ===== *)
theory Engine_Properties
  imports Example_Engine Engine_Output
begin

text \<open>
  The promises of the engine to its users, over whole runs of API calls and engine turns on the paged
  cache and the packed decoder, each with a run of the small engine of \<open>Example_Engine\<close>.
\<close>

text \<open>A deployment without speculation: the runner fits the pool, the pool is ready to serve the
  prompts of \<open>U\<close>, and the engine calls this runner with chunks that are not empty.\<close>

definition deployment ::
  "('v, 'lg, 'c) runner \<Rightarrow> nat list \<Rightarrow> token list set \<Rightarrow> 'v pool \<Rightarrow> ('v, 'lg, 'c list) sched_config \<Rightarrow> bool" where
  "deployment N taps U P0 K \<longleftrightarrow> runner_fits N (sc_digest K) P0 \<and>
     servable (lm_rows (rn_model N) P0) (sc_digest K) U P0 \<and>
     plain_config (sched_forward N taps) (sc_digest K) K"

abbreviation paged_engine_ok ::
  "('v, 'lg, 'c) runner \<Rightarrow> token list set \<Rightarrow> 'v pool \<Rightarrow> ('v, 'lg, 'c list) sched_config \<Rightarrow> ('v, 'lg, 'c list) sched \<Rightarrow> bool" where
  "paged_engine_ok N U P0 K \<equiv>
     engine_ok (slots_ok N P0 (sc_digest K) U) (idle_pool N P0 (sc_digest K) U) U (next_logits (rn_model N) P0) K"

lemma deployment_idle: "deployment N taps U P0 K \<Longrightarrow> idle_pool N P0 (sc_digest K) U P0"
  using serving_after_step [OF _ serving_start]
  by (auto simp: deployment_def idle_pool_def slots_ok_def kvcache_init_def)

lemma engine_run_ok:
  assumes "deployment N taps U P0 K" "sched_init K P0 traced seed = Inr s0" "prompts_in U K evs"
  shows "paged_engine_ok N U P0 K (run_events K evs s0)"
  by (rule packed.run_events_ok [OF _ _ assms(3)])
    (use sched_init_ok [where idle = "idle_pool N P0 (sc_digest K) U", OF assms(2) deployment_idle [OF assms(1)]] assms(1)
      in \<open>auto simp: deployment_def\<close>)

lemma engine_run_request:
  assumes "deployment N taps U P0 K" "sched_init K P0 traced seed = Inr s0" "prompts_in U K evs"
    "r < next_req (run_events K evs s0)"
  shows "request_right U (next_logits (rn_model N) P0) K (reqs (run_events K evs s0) r)"
  using engine_run_ok [OF assms(1-3)] assms(4) sched_invD(4) unfolding engine_ok_def by blast

lemma stopped_engine:
  assumes "deployment N taps U P0 K" "sched_init K P0 traced seed = Inr s0" "prompts_in U K evs"
    and "s = run_events K evs s0" "engine_thread s \<noteq> No_Thread" "s' = run_events K (evs @ [Stop_Engine]) s0"
  shows "engine_thread s' = No_Thread \<and> running s' = [] \<and> waiting s' = [] \<and> sched_cache s' = None \<and>
    (\<forall>r < next_req s'. rq_state (reqs s' r) = Done)"
proof -
  let ?s = "s\<lparr>stop_event := True, stopping := True, engine_thread := No_Thread\<rparr>"
  have inv: "sched_inv (slots_ok N P0 (sc_digest K) U) (idle_pool N P0 (sc_digest K) U) U (next_logits (rn_model N) P0) K ?s"
    and nc: "\<not> crashed s"
    using engine_run_ok [OF assms(1-3)] assms(4) by (simp_all add: engine_ok_def)
  obtain t where e: "end_in_flight K False ?s = (Inr (), t)" "running t = []" "waiting t = []" "sched_cache t = None"
      "engine_fields t = engine_fields ?s" "\<forall>r < next_req ?s. rq_state (reqs t r) = Done"
    using packed.end_in_flight_ok [OF inv] by blast
  have "s' = engine_event K Stop_Engine s" using assms(4,6) by (simp add: run_events_def)
  also have "\<dots> = t\<lparr>stopping := False\<rparr>"
    using e(1) nc assms(5) by (simp add: engine_event_eq stop_engine_def Let_def)
  finally show ?thesis using e(2-) by (simp add: engine_fields_def)
qed

section \<open>The run of the example\<close>

lemma ex_plain_config: "plain_config (sched_forward ex_runner []) (sc_digest ex_config) ex_config"
  by (simp add: plain_config_def ex_config_def)

lemma ex_deployment: "deployment ex_runner [] ex_U ex_pool ex_config"
proof -
  have "is_legacy_kv_layout ex_pool" "length (layer_kv_shape ex_pool) = 1" "length (layer_attention ex_pool) = 1" by code_simp+
  then have "runner_fits ex_runner ex_digest ex_pool"
    by (simp add: runner_fits_def lm_fits_def ex_runner_def ex_lm_def ex_pool_sel)
  then show ?thesis using ex_servable ex_plain_config by (simp add: deployment_def ex_config_def)
qed

lemma ex_init: "sched_init ex_config ex_pool False 0 = Inr ex_start"
  by (simp add: ex_start_def sched_init_def ex_config_def)

lemma ex_prompts_in: "prompts_in ex_U ex_config ex_events"
proof -
  have "tok_encode ex_tokenizer ''abcde'' = ex_prompt" by code_simp
  then show ?thesis by (auto simp: prompts_in_def ex_events_def ex_U_def ex_config_def ex_request_def)
qed

lemma ex_final_eval:
  "(let s = ex_final; rq = reqs s 0 in
      (next_req s, rq_state rq, rq_finish rq, tokens_generated rq, last_text rq, rq_request rq, running s, engine_thread s,
       map_option num_tokens (sched_cache s))) =
    (1, Done, Some Length, [17], ''g'', ex_request 0 1, [0], Alive, Some [6])"
  by code_simp

lemma ex_final_request:
  "next_req ex_final = 1" "rq_state (reqs ex_final 0) = Done" "rq_finish (reqs ex_final 0) = Some Length"
  "tokens_generated (reqs ex_final 0) = [17]" "last_text (reqs ex_final 0) = ''g''" "running ex_final = [0]"
  "rq_request (reqs ex_final 0) = ex_request 0 1" "engine_thread ex_final = Alive"
  "map_option num_tokens (sched_cache ex_final) = Some [6]"
  using ex_final_eval by (simp_all add: Let_def)

text \<open>The same run before its turns, and after the first one.\<close>

definition ex_queued :: "(int, int, int list) sched" where
  "ex_queued = run_events ex_config [Start_Engine, Submit (ex_request 0 1)] ex_start"

definition ex_decoding :: "(int, int, int list) sched" where
  "ex_decoding = run_events ex_config [Start_Engine, Submit (ex_request 0 1), Engine_Turn] ex_start"

lemma ex_prompts_in': "prompts_in ex_U ex_config [Start_Engine, Submit (ex_request 0 1)]"
  "prompts_in ex_U ex_config [Start_Engine, Submit (ex_request 0 1), Engine_Turn]"
  "prompts_in ex_U ex_config (ex_events @ [Cancel_Handle 0, Engine_Turn, Stop_Engine])"
  "prompts_in ex_U ex_config (ex_events @ [Stop_Engine])"
  using ex_prompts_in by (auto simp: prompts_in_def ex_events_def)

lemma ex_queued_eval:
  "(let s = ex_queued in (next_req s, engine_thread s, stop_event s, work ex_config (reqs s 0))) = (1, Alive, False, 9)"
  by code_simp

lemma ex_decoding_eval:
  "(let s = ex_decoding in (next_req s, engine_thread s, stop_event s, running s, rq_state (reqs s 0))) =
     (1, Alive, False, [0], Decoding)"
  by code_simp

lemma ex_final_tok_prompt: "tok_prompt ex_config (reqs ex_final 0) = [11, 12, 13, 14, 15]"
  unfolding tok_prompt_def ex_final_request by code_simp

section \<open>The engine thread\<close>

text \<open>C2: whatever users submit, cancel, read, start and stop, in any order with the turns of the engine
  thread, no exception ends the thread (the only error of a forward is out of memory, and a preemption
  absorbs it), and the only exceptions that a caller sees are a submit to an engine whose thread does not
  run and a read of an empty queue.\<close>

theorem engine_never_crashes:
  assumes "deployment N taps U P0 K" "sched_init K P0 traced seed = Inr s0" "prompts_in U K evs" "s = run_events K evs s0"
  shows "\<not> crashed s \<and>
    (fst (engine_call K ev s) = Inl e \<longleftrightarrow>
      (\<exists>q. ev = Submit q \<and> engine_thread s \<noteq> Alive \<and> e = EngineNotRunningError) \<or>
      (\<exists>r < next_req s. ev = Read_Step r \<and> sq_items (output_queue (reqs s r)) = [] \<and> e = Queue_Empty))"
proof -
  have ok: "paged_engine_ok N U P0 K s" using engine_run_ok [OF assms(1-3)] assms(4) by simp
  show ?thesis using packed.engine_call_raises [OF ok, of ev e] ok by (simp add: engine_ok_def)
qed

theorem engine_never_crashes_witness:
  "\<not> crashed ex_final \<and> fst (engine_call ex_config Stop_Engine ex_final) \<noteq> Inl OutOfMemoryError \<and>
   fst (engine_call ex_config (Submit (ex_request 0 1)) ex_start) = Inl EngineNotRunningError"
proof -
  note c = engine_never_crashes [OF ex_deployment ex_init]
  have "engine_thread ex_start \<noteq> Alive" by code_simp
  then show ?thesis
    using c [OF ex_prompts_in ex_final_def, of Stop_Engine OutOfMemoryError]
      c [of "[]" ex_start "Submit (ex_request 0 1)" EngineNotRunningError] by (simp add: run_events_def prompts_in_def)
qed

text \<open>C1: continuous batching is invisible to a greedy request: the tokens it gets are those of greedy
  decoding of its own prompt by the model alone, whatever the other requests, the chunks, shared
  prefixes, evictions and rollbacks; all of them when it finishes by EOS or by its length.\<close>

theorem batched_greedy_is_solo_greedy:
  assumes "deployment N taps U P0 K" "sched_init K P0 traced seed = Inr s0" "prompts_in U K evs"
    and "s = run_events K evs s0" "r < next_req s" "rq = reqs s r"
    and "temperature (sampling (rq_request rq)) = 0" "tok_prompt K rq \<noteq> []"
    and "solo = greedy_generate (argmax (sc_sampler K)) (next_logits (rn_model N) P0) (eos_token_id (sc_tokenizer K))
      (tok_prompt K rq) (nat (max 1 (max_tokens (rq_request rq))))"
  shows "prefix (tokens_generated rq) solo \<and>
    (rq_finish rq = Some Stop \<or> rq_finish rq = Some Length \<longrightarrow> tokens_generated rq = solo)"
proof -
  have "request_right U (next_logits (rn_model N) P0) K rq" using engine_run_request [OF assms(1-3)] assms(4-6) by simp
  from finished_greedy [OF this assms(7,8)] show ?thesis unfolding assms(9) by (metis take_is_prefix)
qed

theorem batched_greedy_is_solo_greedy_witness:
  "greedy_generate (argmax ex_sampler) (next_logits ex_lm ex_pool) 11 [11, 12, 13, 14, 15] 1 = [17]"
proof -
  have "tokens_generated (reqs ex_final 0) = greedy_generate (argmax (sc_sampler ex_config)) (next_logits (rn_model ex_runner) ex_pool)
      (eos_token_id (sc_tokenizer ex_config)) (tok_prompt ex_config (reqs ex_final 0))
      (nat (max 1 (max_tokens (rq_request (reqs ex_final 0)))))"
    using batched_greedy_is_solo_greedy [OF ex_deployment ex_init ex_prompts_in ex_final_def _ refl, of 0]
    by (simp add: ex_final_request ex_final_tok_prompt ex_request_def)
  then show ?thesis
    by (simp add: ex_final_request ex_final_tok_prompt) (simp add: ex_config_def ex_runner_def ex_request_def ex_tokenizer_def)
qed

text \<open>C4: a request is finished exactly when it has a finish reason; then it has at most
  \<open>max 1 max_tokens\<close> tokens, exactly that many when the reason is Length and fewer otherwise, and the
  EOS token is never among them.\<close>

theorem finished_request_has_its_tokens:
  assumes "deployment N taps U P0 K" "sched_init K P0 traced seed = Inr s0" "prompts_in U K evs"
    and "s = run_events K evs s0" "r < next_req s" "rq = reqs s r" "n = int (length (tokens_generated rq))"
  shows "(rq_state rq = Done \<longleftrightarrow> rq_finish rq \<noteq> None) \<and>
    (rq_finish rq = Some Length \<longrightarrow> n = max 1 (max_tokens (rq_request rq))) \<and>
    (rq_finish rq \<noteq> Some Length \<longrightarrow> n < max 1 (max_tokens (rq_request rq))) \<and>
    eos_token_id (sc_tokenizer K) \<notin> set (tokens_generated rq)"
proof -
  have r: "request_right U (next_logits (rn_model N) P0) K rq" using engine_run_request [OF assms(1-3)] assms(4-6) by simp
  show ?thesis
  proof (cases "rq_state rq = Done")
    case True
    then obtain f where "rq_finish rq = Some f" "stopped_right (next_logits (rn_model N) P0) K rq f"
      using r by (auto simp: request_right_def state_right_def)
    then show ?thesis using r True assms(7)
      by (cases f) (simp_all add: stopped_right_def has_room_def request_right_def output_right_def)
  next
    case False
    then have "rq_finish rq = None" using r by (cases "rq_state rq") (auto simp: request_right_def state_right_def)
    moreover have "has_room rq" by (rule alive_room [OF r False])
    ultimately show ?thesis using r False assms(7) by (simp add: has_room_def request_right_def output_right_def)
  qed
qed

theorem finished_request_has_its_tokens_witness: "int (length (tokens_generated (reqs ex_final 0))) = max 1 1"
  using finished_request_has_its_tokens [OF ex_deployment ex_init ex_prompts_in ex_final_def _ refl refl, of 0]
  by (simp add: ex_final_request ex_request_def)

text \<open>C10: an output queue never holds more than 256 steps, and a step with a finish reason is its last
  and carries the reason of the request.\<close>

theorem output_queue_is_bounded:
  assumes "deployment N taps U P0 K" "sched_init K P0 traced seed = Inr s0" "prompts_in U K evs"
    and "s = run_events K evs s0" "r < next_req s" "steps = sq_items (output_queue (reqs s r))"
  shows "length steps \<le> 256 \<and>
    (\<forall>i < length steps. gs_finish (steps ! i) \<noteq> None \<longrightarrow>
       i = length steps - 1 \<and> gs_finish (steps ! i) = rq_finish (reqs s r))"
proof -
  have "queue_right (reqs s r)"
    using engine_run_request [OF assms(1-3)] assms(4,5) by (simp add: request_right_def)
  then have q: "length steps \<le> 256" "\<forall>x \<in> set (butlast steps). gs_finish x = None"
      "steps \<noteq> [] \<longrightarrow> gs_finish (last steps) = rq_finish (reqs s r)"
    unfolding assms(6) by (simp_all add: queue_right_def default_output_queue_size_def)
  have "i = length steps - 1 \<and> gs_finish (steps ! i) = rq_finish (reqs s r)"
    if i: "i < length steps" "gs_finish (steps ! i) \<noteq> None" for i
  proof (cases "i = length steps - 1")
    case True
    then show ?thesis using q(3) i(1) last_conv_nth [of steps] by auto
  next
    case False
    then have "i < length (butlast steps)" using i(1) by simp
    then have "steps ! i \<in> set (butlast steps)" by (metis nth_butlast nth_mem)
    then have "gs_finish (steps ! i) = None" using q(2) by simp
    then show ?thesis using i(2) by simp
  qed
  then show ?thesis using q(1) by blast
qed

theorem output_queue_is_bounded_witness: "length (sq_items (output_queue (reqs ex_final 0))) \<le> 256"
  using output_queue_is_bounded [OF ex_deployment ex_init ex_prompts_in ex_final_def _ refl, of 0]
  by (simp add: ex_final_request)

text \<open>C11: the text a handle shows is the text of exactly the tokens of its request. The engine puts one
  step on the output queue per token and a terminal step at the end; their texts joined are the pieces of
  the streaming decoder in order, or, when there is no streaming decoder and one more token never changes
  the text before it, the decoded tokens. Along any run the steps that were read and the ones still queued
  are the steps sent, in order, less old ones that a full queue dropped; nothing is dropped when the
  request asks for fewer than 256 tokens. Then a \<open>wait\<close> on a finished request whose steps are all
  queued returns the whole text and all tokens.\<close>

theorem shown_text_is_decoded_tokens:
  assumes "deployment N taps U P0 K" "sched_init K P0 traced seed = Inr s0" "prompts_in U K evs"
    and "s = run_events K evs s0" "r < next_req s" "rq = reqs s r" "T = sc_tokenizer K" "ts = tokens_generated rq"
    and "decode_step T = None \<longrightarrow> tok_decode T [] = [] \<and> (\<forall>ts t. prefix (tok_decode T ts) (tok_decode T (ts @ [t])))"
    and "got = read_steps K r evs s0" "queued = sq_items (output_queue rq)"
  shows "(\<exists>sent. concat (map gs_text sent) = text_of T ts \<and> sum_list (map gs_num_tokens sent) = length ts \<and>
      subseq (got @ queued) sent \<and> suffix queued sent \<and> (max_tokens (rq_request rq) < 256 \<longrightarrow> got @ queued = sent)) \<and>
    (max_tokens (rq_request rq) < 256 \<and> rq_state rq = Done \<and> got = [] \<and>
      length queued \<le> length ps \<and> (\<forall>p \<in> set ps. put_before p = []) \<longrightarrow>
      (\<exists>res. fst (wait_result [] ps rq) = Some (Inr res) \<and> gr_text res = text_of T ts \<and> gr_tokens res = ts))"
proof -
  have right: "request_right U (next_logits (rn_model N) P0) K rq"
    using engine_run_request [OF assms(1-3)] assms(4-6) by simp
  have "logs K (\<lambda>_. []) s0" using assms(2) by (auto simp: sched_init_def logs_def split: if_splits)
  moreover have "paged_engine_ok N U P0 K s0"
    using engine_run_ok [OF assms(1,2), of "[]"] by (simp add: prompts_in_def run_events_def)
  moreover have "plain_config (sched_forward N taps) (sc_digest K) K" using assms(1) by (simp add: deployment_def)
  ultimately have "logs K (\<lambda>r. [] @ read_steps K r evs s0) s"
    using packed.run_events_logs [OF _ _ assms(3)] assms(4) by blast
  then have log: "queue_log got (output_queue rq) (sent_steps K rq)" using assms(5,6,10) by (simp add: logs_def)
  have sent: "length (sent_steps K rq) \<le> length ts + 1" using sent_steps_text(4) assms(8) by simp
  have fits: "length (sent_steps K rq) \<le> 256" if "max_tokens (rq_request rq) < 256"
  proof -
    have "nat (max 1 (max_tokens (rq_request rq))) \<le> 255" using that by simp
    then have "length ts \<le> 255" using request_length [OF right] assms(8) by simp
    then show ?thesis using sent by simp
  qed
  have shown: "concat (map gs_text (sent_steps K rq)) = text_of T ts" "sum_list (map gs_num_tokens (sent_steps K rq)) = length ts"
    using sent_steps_text [of K rq] token_stream_text [OF assms(9), of ts] assms(7,8) by simp_all
  have whole: "got @ queued = sent_steps K rq" if "max_tokens (rq_request rq) < 256"
    using log fits [OF that] assms(11) by (simp add: queue_log_def default_output_queue_size_def)
  have "\<exists>res. fst (wait_result [] ps rq) = Some (Inr res) \<and> gr_text res = text_of T ts \<and> gr_tokens res = ts"
    if w: "max_tokens (rq_request rq) < 256" "rq_state rq = Done" "got = []" "length queued \<le> length ps" "\<forall>p \<in> set ps. put_before p = []"
  proof -
    let ?xs = "token_steps T ts" and ?y = "terminal_step (the (rq_finish rq))"
    have items: "sq_items (output_queue rq) = ?xs @ [?y]"
      using whole [OF w(1)] w(2,3) assms(7,8,11) by (simp add: sent_steps_def)
    have y: "gs_finish ?y = Some (the (rq_finish rq))" "\<not> gs_failed ?y" by (simp_all add: terminal_step_def)
    have xs: "\<forall>x \<in> set (?xs @ [?y]). \<not> gs_failed x" "\<forall>x \<in> set ?xs. gs_finish x = None"
      using token_steps_text(3) [of T ts] y(2) by auto
    have "length ?xs < length ps" using items w(4) assms(11) by simp
    from wait_result_items [OF items xs y(1) this w(5), of "[]"] obtain rq' where
      "wait_result [] ps rq = (Some (Inr (build_result (text_in ?xs) (the (rq_finish rq)) rq')), rq')" "tokens_generated rq' = ts"
      using assms(8) by auto
    moreover have "text_in ?xs = text_of T ts" using token_steps_text(1) [of T ts] token_stream_text [OF assms(9), of ts] by simp
    ultimately show ?thesis by (simp add: build_result_def)
  qed
  moreover have "subseq (got @ queued) (sent_steps K rq)" "suffix queued (sent_steps K rq)"
    using log assms(11) by (simp_all add: queue_log_def)
  ultimately show ?thesis using shown whole by blast
qed

lemma ex_final_output:
  "(let rq = reqs ex_final 0 in (read_steps ex_config 0 ex_events ex_start, map gs_text (sq_items (output_queue rq)))) = ([], [''g'', []])"
  by code_simp

theorem shown_text_is_decoded_tokens_witness:
  "\<exists>res. fst (wait_result [] (replicate 2 \<lparr>put_before = [], engine_alive = None, put_between = [], past_deadline = False\<rparr>)
     (reqs ex_final 0)) = Some (Inr res) \<and> gr_text res = ''g'' \<and> gr_tokens res = [17]"
proof -
  have T: "decode_step ex_tokenizer = None" "tok_decode ex_tokenizer [] = []"
    "prefix (tok_decode ex_tokenizer ts) (tok_decode ex_tokenizer (ts @ [t]))" for ts t
    by (simp_all add: ex_tokenizer_def)
  have o: "read_steps ex_config 0 ex_events ex_start = []" "length (sq_items (output_queue (reqs ex_final 0))) = 2"
    using ex_final_output by (auto simp: Let_def dest: arg_cong [of _ _ length])
  have g: "text_of ex_tokenizer [17] = ''g''" by code_simp
  show ?thesis
    using shown_text_is_decoded_tokens [OF ex_deployment ex_init ex_prompts_in ex_final_def _ refl, of 0 ex_tokenizer "[17]"
      "[]" "sq_items (output_queue (reqs ex_final 0))"
      "replicate 2 \<lparr>put_before = [], engine_alive = None, put_between = [], past_deadline = False\<rparr>"]
    by (simp add: ex_final_request o T g ex_request_def) (simp add: ex_config_def)
qed

section \<open>The resources of the pool\<close>

text \<open>C5: no block leaks: whenever no request is running, every block of the pool is available again.\<close>

theorem idle_engine_has_all_blocks:
  assumes "deployment N taps U P0 K" "sched_init K P0 traced seed = Inr s0" "prompts_in U K evs"
    and "s = run_events K evs s0" "running s = []"
  shows "available_blocks (sched_pool s) = num_blocks (sched_pool s)"
proof -
  have c: "cache_right (slots_ok N P0 (sc_digest K) U) (idle_pool N P0 (sc_digest K) U) s"
    using engine_run_ok [OF assms(1-3)] assms(4) unfolding engine_ok_def sched_inv_def by blast
  have "slots s = []" using assms(5) by (simp add: slots_def)
  then have "idle_pool N P0 (sc_digest K) U (sched_pool s)"
    using c paged.stop by (auto simp: cache_right_def split: option.splits)
  then show ?thesis by (rule idle_all_free)
qed

theorem idle_engine_has_all_blocks_witness:
  "available_blocks (sched_pool (run_events ex_config (ex_events @ [Stop_Engine]) ex_start)) =
     num_blocks (sched_pool (run_events ex_config (ex_events @ [Stop_Engine]) ex_start))"
proof -
  have "running (run_events ex_config (ex_events @ [Stop_Engine]) ex_start) = []"
    using stopped_engine [OF ex_deployment ex_init ex_prompts_in ex_final_def _ refl]
    by (simp add: ex_final_request)
  from idle_engine_has_all_blocks [OF ex_deployment ex_init ex_prompts_in'(4) refl this] show ?thesis .
qed

text \<open>C6: the slots of the cache are the running requests that joined it, in order; each holds as many
  tokens as its request has prefilled, or its whole prompt and every token that was fed back.\<close>

theorem slots_follow_requests:
  assumes "deployment N taps U P0 K" "sched_init K P0 traced seed = Inr s0" "prompts_in U K evs"
    and "s = run_events K evs s0" "sched_cache s = Some c" "i < batch_size c"
  shows "\<exists>r \<in> set (running s). batch_idx (reqs s r) = Some i \<and>
    (rq_state (reqs s r) \<noteq> Done \<longrightarrow> num_tokens c ! i = length (slot_history (reqs s r)))"
proof -
  have "cache_right (slots_ok N P0 (sc_digest K) U) (idle_pool N P0 (sc_digest K) U) s"
    using engine_run_ok [OF assms(1-3)] assms(4) unfolding engine_ok_def sched_inv_def by blast
  then obtain sl where sl: "slots_ok N P0 (sc_digest K) U sl (c, sched_pool s)" "length sl = length (slots s)"
      "\<And>i. i < length sl \<Longrightarrow> slot_right (reqs s (slots s ! i)) i (sl ! i)"
    using cache_rightE assms(5) by metis
  have n: "num_tokens c = map (length \<circ> snd) sl" using slots_lens [OF sl(1)] by simp
  then have i: "i < length sl" using assms(6) by (simp add: batch_size_def)
  then have "slots s ! i \<in> set (slots s)" using sl(2) by simp
  then have "slots s ! i \<in> set (running s)" by (simp add: slots_def)
  then show ?thesis using sl(3) [OF i] n i by (auto simp: slot_right_def)
qed

theorem slots_follow_requests_witness: "\<exists>c. sched_cache ex_final = Some c \<and> num_tokens c = [6] \<and> batch_idx (reqs ex_final 0) = Some 0"
proof -
  obtain c where c: "sched_cache ex_final = Some c" "num_tokens c = [6]" using ex_final_request(9) by auto
  then show ?thesis
    using slots_follow_requests [OF ex_deployment ex_init ex_prompts_in ex_final_def c(1), of 0]
    by (simp add: batch_size_def ex_final_request)
qed

text \<open>C3: the engine is live: while its thread runs and it may hold a request, as many turns as the
  requests have work left (tokens to generate and to feed, prompt to prefill) end every request.\<close>

theorem every_request_finishes:
  assumes "deployment N taps U P0 K" "sched_init K P0 traced seed = Inr s0" "prompts_in U K evs"
    and "s = run_events K evs s0" "engine_thread s = Alive" "\<not> stop_event s" "0 < max_concurrent K"
    and "total_work K s \<le> n" "r < next_req s"
  shows "rq_state (reqs (run_events K (replicate n Engine_Turn) s) r) = Done"
proof -
  have ok: "paged_engine_ok N U P0 K s" using engine_run_ok [OF assms(1-3)] assms(4) by simp
  have K: "plain_config (sched_forward N taps) (sc_digest K) K" using assms(1) by (simp add: deployment_def)
  let ?n = "Suc n" and ?s = "run_events K (replicate n Engine_Turn) s"
  have l: "later K s ?s" and b: "busy ?s \<longrightarrow> total_work K ?s + n \<le> total_work K s"
    using packed.engine_turns_ok [OF ok K assms(5-7), of n] by (simp_all add: Let_def)
  have r: "r < next_req ?s" using assms(9) later_fields [OF l] by simp
  have ok': "paged_engine_ok N U P0 K ?s"
    by (rule packed.run_events_ok [OF ok K]) (simp add: prompts_in_def)
  show ?thesis
  proof (rule ccontr)
    assume nd: "rq_state (reqs ?s r) \<noteq> Done"
    then have "total_work K ?s = 0" using b r assms(8) by (auto simp: busy_def)
    then have "work K (reqs ?s r) = 0" using r by (simp add: total_work_def)
    moreover have "request_right U (next_logits (rn_model N) P0) K (reqs ?s r)"
      using ok' r sched_invD(4) unfolding engine_ok_def by blast
    ultimately show False using work_alive nd by fastforce
  qed
qed

theorem every_request_finishes_witness: "rq_state (reqs (run_events ex_config (replicate 9 Engine_Turn) ex_queued) 0) = Done"
proof -
  have q: "next_req ex_queued = 1" "engine_thread ex_queued = Alive" "\<not> stop_event ex_queued" "work ex_config (reqs ex_queued 0) = 9"
    using ex_queued_eval by (simp_all add: Let_def)
  have "total_work ex_config ex_queued \<le> 9" "0 < max_concurrent ex_config" by (simp_all add: total_work_def q) (simp add: ex_config_def)
  then show ?thesis
    using every_request_finishes [OF ex_deployment ex_init ex_prompts_in'(1) ex_queued_def q(2,3), of 9 0] q(1) by simp
qed

text \<open>C7: a cancelled request that runs ends at the next turn of the engine, as Cancelled, and gets no
  further token.\<close>

theorem cancel_takes_one_turn:
  assumes "deployment N taps U P0 K" "sched_init K P0 traced seed = Inr s0" "prompts_in U K evs"
    and "s = run_events K evs s0" "engine_thread s = Alive" "\<not> stop_event s"
    and "r \<in> set (running s)" "rq_state (reqs s r) \<noteq> Done"
  shows "let rq = reqs (run_events K [Cancel_Handle r, Engine_Turn] s) r in
    rq_state rq = Done \<and> rq_finish rq = Some Cancelled \<and> tokens_generated rq = tokens_generated (reqs s r)"
proof -
  let ?s = "cancel_request r s"
  have inv: "sched_inv (slots_ok N P0 (sc_digest K) U) (idle_pool N P0 (sc_digest K) U) U (next_logits (rn_model N) P0) K s"
    using engine_run_ok [OF assms(1-3)] assms(4) by (simp add: engine_ok_def)
  have K: "plain_config (sched_forward N taps) (sc_digest K) K" using assms(1) by (simp add: deployment_def)
  have run: "\<not> stop_event ?s" "r \<in> set (running ?s)" "cancel_event (reqs ?s r)" "rq_state (reqs ?s r) \<noteq> Done"
      "tokens_generated (reqs ?s r) = tokens_generated (reqs s r)" "engine_thread ?s = Alive"
    using assms(5-8) by (simp_all add: cancel_request_def cancel_def)
  have "r < next_req s" using sched_invD(2) [OF inv assms(7)] .
  then have "run_events K [Cancel_Handle r, Engine_Turn] s = engine_turn K ?s"
    using run(6) by (simp add: run_events_def engine_event_eq)
  then show ?thesis
    using packed.cancelled_at_next_turn [OF inv_cancel [OF inv] K run(1-4)] run(5) by (simp add: Let_def)
qed

theorem cancel_takes_one_turn_witness:
  "rq_finish (reqs (run_events ex_config [Cancel_Handle 0, Engine_Turn] ex_decoding) 0) = Some Cancelled"
proof -
  have d: "engine_thread ex_decoding = Alive" "\<not> stop_event ex_decoding" "0 \<in> set (running ex_decoding)"
      "rq_state (reqs ex_decoding 0) \<noteq> Done"
    using ex_decoding_eval by (simp_all add: Let_def)
  show ?thesis
    using cancel_takes_one_turn [OF ex_deployment ex_init ex_prompts_in'(2) ex_decoding_def d] by (simp add: Let_def)
qed

text \<open>C8: what a handle shows only grows: later events append tokens to a request and never take one
  back, and a finished request keeps its tokens and its finish reason.\<close>

theorem delivered_output_is_stable:
  assumes "deployment N taps U P0 K" "sched_init K P0 traced seed = Inr s0" "prompts_in U K (evs @ evs')"
    and "s = run_events K evs s0" "s' = run_events K (evs @ evs') s0" "r < next_req s"
  shows "prefix (tokens_generated (reqs s r)) (tokens_generated (reqs s' r)) \<and>
    (rq_state (reqs s r) = Done \<longrightarrow> rq_state (reqs s' r) = Done \<and>
       tokens_generated (reqs s' r) = tokens_generated (reqs s r) \<and> rq_finish (reqs s' r) = rq_finish (reqs s r))"
proof -
  have p: "prompts_in U K evs" "prompts_in U K evs'" using assms(3) by (auto simp: prompts_in_def)
  have K: "plain_config (sched_forward N taps) (sc_digest K) K" using assms(1) by (simp add: deployment_def)
  have "s' = run_events K evs' s" using assms(4,5) by (simp add: run_events_def)
  moreover have "paged_engine_ok N U P0 K s" using engine_run_ok [OF assms(1,2) p(1)] assms(4) by simp
  ultimately have "delivered s s'" using packed.run_events_delivered [OF _ K p(2)] by simp
  then show ?thesis using assms(6) by (auto simp: delivered_def)
qed

theorem delivered_output_is_stable_witness:
  "tokens_generated (reqs (run_events ex_config (ex_events @ [Cancel_Handle 0, Engine_Turn, Stop_Engine]) ex_start) 0) = [17]"
  using delivered_output_is_stable [OF ex_deployment ex_init ex_prompts_in'(3) ex_final_def refl, of 0]
  by (simp add: ex_final_request)

text \<open>C9: a stop whose join succeeds ends every request it found, and gives back every slot.\<close>

theorem stop_ends_every_request:
  assumes "deployment N taps U P0 K" "sched_init K P0 traced seed = Inr s0" "prompts_in U K evs"
    and "s = run_events K evs s0" "engine_thread s \<noteq> No_Thread" "s' = run_events K (evs @ [Stop_Engine]) s0"
  shows "engine_thread s' = No_Thread \<and> running s' = [] \<and> waiting s' = [] \<and> sched_cache s' = None \<and>
    (\<forall>r < next_req s'. rq_state (reqs s' r) = Done)"
  using stopped_engine [OF assms] by blast

theorem stop_ends_every_request_witness: "sched_cache (run_events ex_config (ex_events @ [Stop_Engine]) ex_start) = None"
  using stop_ends_every_request [OF ex_deployment ex_init ex_prompts_in ex_final_def _ refl] by (simp add: ex_final_request)

end
