(* ===== verification/Tensor_Parallel.thy ===== *)
theory Tensor_Parallel
  imports Infer_Prelude
begin

text \<open>
  Tensor parallelism: the process group (\<open>distributed/group.py\<close>), the collectives
  (\<open>distributed/comm.py\<close>), and the layers that each rank holds a slice of
  (\<open>distributed/linear.py\<close>, \<open>distributed/embedding.py\<close>). A matrix is the list of its rows. Sums and
  products are those of a commutative semiring: the rounding of floating-point sums is not modelled.
  A collective is a function of the tensors that the ranks pass to it.
\<close>

section \<open>The process group\<close>

record process_group =
  pg_topology :: "(nat \<times> nat) option"
  force_replica :: bool

definition is_initialized :: "process_group \<Rightarrow> bool" where
  "is_initialized G \<longleftrightarrow> pg_topology G \<noteq> None"

definition get_world_size :: "process_group \<Rightarrow> nat" where
  "get_world_size G = (if force_replica G then 1 else case pg_topology G of None \<Rightarrow> 1 | Some (w, _) \<Rightarrow> w)"

definition get_rank :: "process_group \<Rightarrow> nat" where
  "get_rank G = (if force_replica G then 0 else case pg_topology G of None \<Rightarrow> 0 | Some (_, r) \<Rightarrow> r)"

definition init_distributed :: "int \<Rightarrow> int \<Rightarrow> (process_group, unit) act" where
  "init_distributed world_size rank = (\<lambda>G.
     if world_size < 1 then (Inl ValueError, G)
     else if \<not> (0 \<le> rank \<and> rank < world_size) then (Inl ValueError, G)
     else case pg_topology G of
         Some (w, r) \<Rightarrow> if int w \<noteq> world_size \<or> int r \<noteq> rank then (Inl RuntimeError, G) else (Inr (), G)
       | None \<Rightarrow> if world_size = 1 then (Inr (), G)
           else (Inr (), G\<lparr>pg_topology := Some (nat world_size, nat rank)\<rparr>))"

definition destroy_distributed :: "process_group \<Rightarrow> process_group" where
  "destroy_distributed G = G\<lparr>pg_topology := None\<rparr>"

definition replica_scope :: "(process_group, 'a) act \<Rightarrow> (process_group, 'a) act" where
  "replica_scope body = (\<lambda>G. case body (G\<lparr>force_replica := True\<rparr>) of
     (r, G') \<Rightarrow> (r, G'\<lparr>force_replica := force_replica G\<rparr>))"

definition no_group :: process_group where
  "no_group = \<lparr>pg_topology = None, force_replica = False\<rparr>"

text \<open>The group of rank \<open>r\<close> of \<open>w\<close> after \<open>init_distributed\<close>.\<close>

definition rank_group :: "nat \<Rightarrow> nat \<Rightarrow> process_group" where
  "rank_group w r = snd (init_distributed (int w) (int r) no_group)"

lemma rank_group_sel [simp]:
  assumes "r < w"
  shows "get_world_size (rank_group w r) = w" "get_rank (rank_group w r) = r" "w \<noteq> 1 \<Longrightarrow> is_initialized (rank_group w r)"
  using assms
  by (auto simp: rank_group_def init_distributed_def no_group_def get_world_size_def get_rank_def is_initialized_def)

section \<open>Matrices and collectives\<close>

type_synonym 'a mat = "'a list list"

definition mat_shape :: "nat \<Rightarrow> nat \<Rightarrow> 'a mat \<Rightarrow> bool" where
  "mat_shape n m A \<longleftrightarrow> length A = n \<and> (\<forall>row \<in> set A. length row = m)"

definition mat_add :: "'a::comm_semiring_1 mat \<Rightarrow> 'a mat \<Rightarrow> 'a mat" where
  "mat_add A B = map2 (map2 (+)) A B"

fun mat_sum :: "'a::comm_semiring_1 mat list \<Rightarrow> 'a mat" where
  "mat_sum [] = []"
| "mat_sum [A] = A"
| "mat_sum (A # B # Cs) = mat_add A (mat_sum (B # Cs))"

definition cat_cols :: "'a mat list \<Rightarrow> 'a mat" where
  "cat_cols As = map (\<lambda>i. concat (map (\<lambda>A. A ! i) As)) [0 ..< length (hd As)]"

definition all_reduce_sum :: "process_group \<Rightarrow> 'a::comm_semiring_1 mat \<Rightarrow> 'a mat list \<Rightarrow> 'a mat res" where
  "all_reduce_sum G mine every =
     (if get_world_size G = 1 then Inr mine
      else if \<not> is_initialized G then Inl RuntimeError
      else Inr (mat_sum every))"

definition all_gather_cols :: "process_group \<Rightarrow> 'a mat \<Rightarrow> 'a mat list \<Rightarrow> 'a mat res" where
  "all_gather_cols G mine every =
     (if get_world_size G = 1 then Inr mine
      else if \<not> is_initialized G then Inl RuntimeError
      else Inr (cat_cols every))"

lemma mat_sum_shape: "As \<noteq> [] \<Longrightarrow> (\<And>A. A \<in> set As \<Longrightarrow> mat_shape n m A) \<Longrightarrow> mat_shape n m (mat_sum As)"
proof (induction As rule: mat_sum.induct)
  case (3 A B Cs)
  then have "mat_shape n m A" "mat_shape n m (mat_sum (B # Cs))" by simp_all
  then show ?case by (auto simp: mat_shape_def mat_add_def set_zip)
qed simp_all

lemma mat_sum_nth:
  assumes "As \<noteq> []" "\<And>A. A \<in> set As \<Longrightarrow> mat_shape n m A" "i < n" "j < m"
  shows "mat_sum As ! i ! j = sum_list (map (\<lambda>A. A ! i ! j) As)"
  using assms
proof (induction As rule: mat_sum.induct)
  case (3 A B Cs)
  have "mat_shape n m A" "mat_shape n m (mat_sum (B # Cs))" using 3 mat_sum_shape [of "B # Cs"] by simp_all
  moreover have "mat_sum (B # Cs) ! i ! j = sum_list (map (\<lambda>A. A ! i ! j) (B # Cs))" using 3 by simp
  ultimately show ?case using 3 by (simp add: mat_add_def mat_shape_def)
qed simp_all

lemma mat_eqI:
  assumes "mat_shape n m A" "mat_shape n m B" "\<And>i j. i < n \<Longrightarrow> j < m \<Longrightarrow> A ! i ! j = B ! i ! j"
  shows "A = B"
proof (rule nth_equalityI)
  show "length A = length B" using assms(1,2) by (simp add: mat_shape_def)
  fix i assume "i < length A"
  then have "i < n" "length (A ! i) = m" "length (B ! i) = m" using assms(1,2) by (auto simp: mat_shape_def)
  then show "A ! i = B ! i" using assms(3) by (auto intro: nth_equalityI)
qed

text \<open>The contiguous slices that the ranks take cover the list.\<close>

definition slice_of :: "nat \<Rightarrow> nat \<Rightarrow> 'a list \<Rightarrow> 'a list" where
  "slice_of n r xs = take n (drop (r * n) xs)"

lemma slice_of_fits: "r < w \<Longrightarrow> r * n + n \<le> w * n" for r :: nat
  using mult_le_mono1 [of "Suc r" w n] by simp

lemma length_slice_of: "r < w \<Longrightarrow> length xs = w * n \<Longrightarrow> length (slice_of n r xs) = n"
  using slice_of_fits [of r w n] by (simp add: slice_of_def)

lemma slice_of_nth: "r < w \<Longrightarrow> length xs = w * n \<Longrightarrow> j < n \<Longrightarrow> slice_of n r xs ! j = xs ! (r * n + j)"
  using length_slice_of [of r w xs n] by (simp add: slice_of_def)

lemma block_of_index: "0 < n \<Longrightarrow> r * n \<le> e \<and> e < r * n + n \<longleftrightarrow> r = e div n" for n :: nat
proof
  assume "r * n \<le> e \<and> e < r * n + n"
  then have "e div n = r" by (intro div_nat_eqI) (simp_all add: mult.commute)
  then show "r = e div n" by simp
next
  assume n: "0 < n" and "r = e div n"
  then have "r * n + e mod n = e" by simp
  then show "r * n \<le> e \<and> e < r * n + n" using mod_less_divisor [OF n, of e] by (intro conjI; linarith)
qed

lemma concat_slices: "length xs = w * n \<Longrightarrow> concat (map (\<lambda>r. slice_of n r xs) [0 ..< w]) = xs"
proof (induction w arbitrary: xs)
  case (Suc w)
  have "concat (map (\<lambda>r. slice_of n r (take (w * n) xs)) [0 ..< w]) = take (w * n) xs" using Suc by simp
  moreover have "slice_of n r (take (w * n) xs) = slice_of n r xs" if "r < w" for r
  proof -
    have "r * n + n \<le> w * n" using that by (rule slice_of_fits)
    then show ?thesis by (simp add: slice_of_def drop_take min_def)
  qed
  ultimately have "concat (map (\<lambda>r. slice_of n r xs) [0 ..< w]) = take (w * n) xs"
    by (metis (no_types, lifting) atLeastLessThan_iff map_eq_conv set_upt)
  moreover have "slice_of n w xs = drop (w * n) xs" using Suc.prems by (simp add: slice_of_def)
  ultimately show ?case by simp
qed simp

section \<open>Linear layers\<close>

definition dot :: "'a::comm_semiring_1 list \<Rightarrow> 'a list \<Rightarrow> 'a" where
  "dot x w = sum_list (map2 (*) x w)"

definition add_bias :: "'a::comm_semiring_1 list option \<Rightarrow> 'a list \<Rightarrow> 'a list" where
  "add_bias b y = (case b of None \<Rightarrow> y | Some b \<Rightarrow> map2 (+) y b)"

text \<open>\<open>functional.linear(x, W, b)\<close> on rows of the width of \<open>W\<close>, the only ones on which the code calls it:
  the \<open>RuntimeError\<close> for a row of another width is not modelled.\<close>

definition linear :: "'a::comm_semiring_1 mat \<Rightarrow> 'a mat \<Rightarrow> 'a list option \<Rightarrow> 'a mat" where
  "linear xs W b = map (\<lambda>x. add_bias b (map (dot x) W)) xs"

definition split_size :: "nat \<Rightarrow> nat \<Rightarrow> nat res" where
  "split_size n world_size = (if n mod world_size \<noteq> 0 then Inl ValueError else Inr (n div world_size))"

subsection \<open>Sharded along the output\<close>

record 'a column_linear =
  cl_in_features :: nat
  cl_out_features :: nat
  cl_out_per_rank :: nat
  cl_gather_output :: bool
  cl_world :: nat
  cl_rank :: nat
  cl_weight :: "'a mat"
  cl_bias :: "'a list option"

text \<open>\<open>W0\<close> and \<open>b0\<close> are the fresh parameters of \<open>nn.Linear\<close>; without a bias \<open>b0\<close> is \<open>None\<close>.\<close>

definition column_init :: "process_group \<Rightarrow> nat \<Rightarrow> nat \<Rightarrow> bool \<Rightarrow> 'a mat \<Rightarrow> 'a list option \<Rightarrow> 'a column_linear res" where
  "column_init G in_features out_features gather W0 b0 =
     (case split_size out_features (get_world_size G) of Inl e \<Rightarrow> Inl e | Inr n \<Rightarrow>
        Inr \<lparr>cl_in_features = in_features, cl_out_features = out_features, cl_out_per_rank = n,
             cl_gather_output = gather, cl_world = get_world_size G, cl_rank = get_rank G,
             cl_weight = W0, cl_bias = b0\<rparr>)"

definition shard_rows :: "'a column_linear \<Rightarrow> 'b list \<Rightarrow> 'b list" where
  "shard_rows L full = slice_of (cl_out_per_rank L) (cl_rank L) full"

text \<open>\<open>load_full_weight\<close>, with the two uses of \<open>_shard_rows\<close> as arguments: a subclass overrides it.\<close>

definition column_load_with ::
  "('a mat \<Rightarrow> 'a mat) \<Rightarrow> ('a list \<Rightarrow> 'a list) \<Rightarrow> 'a mat \<Rightarrow> 'a list option \<Rightarrow> ('a column_linear, unit) act" where
  "column_load_with shard_weight shard_bias W b = (\<lambda>L.
     if \<not> mat_shape (cl_out_features L) (cl_in_features L) W then (Inl ValueError, L)
     else let L1 = L\<lparr>cl_weight := shard_weight W\<rparr> in
       case b of None \<Rightarrow> (Inr (), L1)
       | Some full \<Rightarrow>
           if cl_bias L = None then (Inl ValueError, L1)
           else if length full \<noteq> cl_out_features L then (Inl ValueError, L1)
           else (Inr (), L1\<lparr>cl_bias := Some (shard_bias full)\<rparr>))"

definition column_load :: "'a mat \<Rightarrow> 'a list option \<Rightarrow> ('a column_linear, unit) act" where
  "column_load W b = (\<lambda>L. column_load_with (shard_rows L) (shard_rows L) W b L)"

definition column_local :: "'a::comm_semiring_1 column_linear \<Rightarrow> 'a mat \<Rightarrow> 'a mat" where
  "column_local L x = linear x (cl_weight L) (cl_bias L)"

definition column_forward ::
  "process_group \<Rightarrow> 'a::comm_semiring_1 column_linear \<Rightarrow> 'a mat \<Rightarrow> 'a mat list \<Rightarrow> 'a mat res" where
  "column_forward G L x every =
     (if cl_gather_output L then all_gather_cols G (column_local L x) every else Inr (column_local L x))"

subsection \<open>Sharded along the input\<close>

record 'a row_linear =
  rl_in_features :: nat
  rl_out_features :: nat
  rl_in_per_rank :: nat
  rl_input_is_parallel :: bool
  rl_world :: nat
  rl_rank :: nat
  rl_weight :: "'a mat"
  rl_bias :: "'a list option"

definition row_init :: "process_group \<Rightarrow> nat \<Rightarrow> nat \<Rightarrow> bool \<Rightarrow> 'a mat \<Rightarrow> 'a list option \<Rightarrow> 'a row_linear res" where
  "row_init G in_features out_features parallel W0 b0 =
     (case split_size in_features (get_world_size G) of Inl e \<Rightarrow> Inl e | Inr n \<Rightarrow>
        Inr \<lparr>rl_in_features = in_features, rl_out_features = out_features, rl_in_per_rank = n,
             rl_input_is_parallel = parallel, rl_world = get_world_size G, rl_rank = get_rank G,
             rl_weight = W0, rl_bias = b0\<rparr>)"

definition row_load :: "'a mat \<Rightarrow> 'a list option \<Rightarrow> ('a row_linear, unit) act" where
  "row_load W b = (\<lambda>L.
     if \<not> mat_shape (rl_out_features L) (rl_in_features L) W then (Inl ValueError, L)
     else let L1 = L\<lparr>rl_weight := map (slice_of (rl_in_per_rank L) (rl_rank L)) W\<rparr> in
       case b of None \<Rightarrow> (Inr (), L1)
       | Some full \<Rightarrow>
           if rl_bias L = None then (Inl ValueError, L1)
           else if length full \<noteq> rl_out_features L then (Inl ValueError, L1)
           else (Inr (), L1\<lparr>rl_bias := Some full\<rparr>))"

definition row_local :: "'a::comm_semiring_1 row_linear \<Rightarrow> 'a mat \<Rightarrow> 'a mat" where
  "row_local L x =
     (let x' = (if \<not> rl_input_is_parallel L \<and> 1 < rl_world L
                then map (\<lambda>row. slice_of (length row div rl_world L) (rl_rank L) row) x else x)
      in linear x' (rl_weight L) (if rl_rank L = 0 then rl_bias L else None))"

definition row_forward :: "process_group \<Rightarrow> 'a::comm_semiring_1 row_linear \<Rightarrow> 'a mat \<Rightarrow> 'a mat list \<Rightarrow> 'a mat res" where
  "row_forward G L x every = all_reduce_sum G (row_local L x) every"

subsection \<open>The ranks side by side\<close>

text \<open>Each rank builds its layer and loads the same full weight.\<close>

definition column_layer ::
  "nat \<Rightarrow> nat \<Rightarrow> nat \<Rightarrow> nat \<Rightarrow> bool \<Rightarrow> 'a mat \<Rightarrow> 'a list option \<Rightarrow> 'a mat \<Rightarrow> 'a list option \<Rightarrow> 'a column_linear res" where
  "column_layer w r i out gather W0 b0 W b =
     (case column_init (rank_group w r) i out gather W0 b0 of Inl e \<Rightarrow> Inl e | Inr L \<Rightarrow>
        (case column_load W b L of (Inl e, _) \<Rightarrow> Inl e | (Inr _, L') \<Rightarrow> Inr L'))"

definition row_layer ::
  "nat \<Rightarrow> nat \<Rightarrow> nat \<Rightarrow> nat \<Rightarrow> bool \<Rightarrow> 'a mat \<Rightarrow> 'a list option \<Rightarrow> 'a mat \<Rightarrow> 'a list option \<Rightarrow> 'a row_linear res" where
  "row_layer w r i out parallel W0 b0 W b =
     (case row_init (rank_group w r) i out parallel W0 b0 of Inl e \<Rightarrow> Inl e | Inr L \<Rightarrow>
        (case row_load W b L of (Inl e, _) \<Rightarrow> Inl e | (Inr _, L') \<Rightarrow> Inr L'))"

text \<open>The full weight and bias fit the layer.\<close>

definition weight_fits :: "nat \<Rightarrow> nat \<Rightarrow> 'a list option \<Rightarrow> 'a mat \<Rightarrow> 'a list option \<Rightarrow> bool" where
  "weight_fits i out b0 W b \<longleftrightarrow> mat_shape out i W \<and> (b0 = None \<longleftrightarrow> b = None) \<and> (\<forall>full. b = Some full \<longrightarrow> length full = out)"

lemma column_layer_ok:
  assumes "r < w" "weight_fits i (w * n) b0 W b"
  shows "column_layer w r i (w * n) gather W0 b0 W b =
    Inr \<lparr>cl_in_features = i, cl_out_features = w * n, cl_out_per_rank = n, cl_gather_output = gather, cl_world = w,
         cl_rank = r, cl_weight = slice_of n r W, cl_bias = map_option (slice_of n r) b\<rparr>"
  using assms
  by (cases b) (auto simp: column_layer_def column_init_def split_size_def column_load_def column_load_with_def weight_fits_def shard_rows_def Let_def)

lemma row_layer_ok:
  assumes "r < w" "weight_fits (w * n) out b0 W b"
  shows "row_layer w r (w * n) out parallel W0 b0 W b =
    Inr \<lparr>rl_in_features = w * n, rl_out_features = out, rl_in_per_rank = n, rl_input_is_parallel = parallel, rl_world = w,
         rl_rank = r, rl_weight = map (slice_of n r) W, rl_bias = b\<rparr>"
  using assms
  by (cases b) (auto simp: row_layer_def row_init_def split_size_def row_load_def weight_fits_def Let_def)

lemma column_layerD:
  assumes "r < w" "weight_fits i (w * n) b0 W b" "column_layer w r i (w * n) gather W0 b0 W b = Inr L"
  shows "cl_weight L = slice_of n r W" "cl_bias L = map_option (slice_of n r) b" "cl_gather_output L = gather"
proof -
  have "L = \<lparr>cl_in_features = i, cl_out_features = w * n, cl_out_per_rank = n, cl_gather_output = gather, cl_world = w,
      cl_rank = r, cl_weight = slice_of n r W, cl_bias = map_option (slice_of n r) b\<rparr>"
    using assms(3) column_layer_ok [OF assms(1,2), of gather W0] by simp
  then show "cl_weight L = slice_of n r W" "cl_bias L = map_option (slice_of n r) b" "cl_gather_output L = gather" by simp_all
qed

lemma row_layerD:
  assumes "r < w" "weight_fits (w * n) out b0 W b" "row_layer w r (w * n) out parallel W0 b0 W b = Inr L"
  shows "rl_weight L = map (slice_of n r) W" "rl_bias L = b" "rl_input_is_parallel L = parallel" "rl_rank L = r" "rl_world L = w"
proof -
  have "L = \<lparr>rl_in_features = w * n, rl_out_features = out, rl_in_per_rank = n, rl_input_is_parallel = parallel, rl_world = w,
      rl_rank = r, rl_weight = map (slice_of n r) W, rl_bias = b\<rparr>"
    using assms(3) row_layer_ok [OF assms(1,2), of parallel W0] by simp
  then show "rl_weight L = map (slice_of n r) W" "rl_bias L = b" "rl_input_is_parallel L = parallel" "rl_rank L = r" "rl_world L = w"
    by simp_all
qed

lemma indivisible_layer:
  assumes "r < w" "\<not> w dvd n"
  shows "column_layer w r i n gather W0 b0 W b = Inl ValueError" "row_layer w r n i parallel W0 b0 W b = Inl ValueError"
  using assms by (auto simp: column_layer_def row_layer_def column_init_def row_init_def split_size_def dvd_eq_mod_eq_0)

lemma linear_shape: "length b = n \<Longrightarrow> length W = n \<Longrightarrow> mat_shape (length x) n (linear x W (Some b))"
  "length W = n \<Longrightarrow> mat_shape (length x) n (linear x W None)"
  by (auto simp: mat_shape_def linear_def add_bias_def)

lemma gathered_linear:
  assumes "length W = w * n" "\<And>full. b = Some full \<Longrightarrow> length full = w * n" "0 < w"
  shows "cat_cols (map (\<lambda>r. linear x (slice_of n r W) (map_option (slice_of n r) b)) [0 ..< w]) = linear x W b"
proof -
  have row: "concat (map (\<lambda>r. add_bias (map_option (slice_of n r) b) (map f (slice_of n r W))) [0 ..< w]) = add_bias b (map f W)"
    for f :: "'a list \<Rightarrow> 'a"
  proof (cases b)
    case None
    have "concat (map (\<lambda>r. map f (slice_of n r W)) [0 ..< w]) = map f (concat (map (\<lambda>r. slice_of n r W) [0 ..< w]))"
      by (simp add: map_concat comp_def)
    then show ?thesis using None concat_slices [OF assms(1)] by (simp add: add_bias_def)
  next
    case (Some full)
    have "map2 (+) (map f (slice_of n r W)) (slice_of n r full) = slice_of n r (map2 (+) (map f W) full)" for r
      by (simp add: slice_of_def take_zip drop_zip take_map drop_map)
    moreover have "length (map2 (+) (map f W) full) = w * n" using assms(1,2) Some by simp
    ultimately show ?thesis using Some concat_slices [of "map2 (+) (map f W) full" w n] by (simp add: add_bias_def)
  qed
  have "hd (map (\<lambda>r. linear x (slice_of n r W) (map_option (slice_of n r) b)) [0 ..< w]) =
      linear x (slice_of n 0 W) (map_option (slice_of n 0) b)"
    using assms(3) by (simp add: upt_rec)
  then show ?thesis
    unfolding cat_cols_def linear_def by (auto simp: comp_def row intro!: nth_equalityI)
qed

lemma sum_list_of_concat: "sum_list (concat xss) = sum_list (map sum_list xss)" for xss :: "'a::comm_semiring_1 list list"
  by (induction xss) simp_all

lemma sum_list_one_rank: "r < w \<Longrightarrow> (\<And>q. q < w \<Longrightarrow> q \<noteq> r \<Longrightarrow> f q = 0) \<Longrightarrow> sum_list (map f [0 ..< w]) = f r"
  for f :: "nat \<Rightarrow> 'a::comm_semiring_1"
proof (induction w)
  case (Suc w)
  show ?case
  proof (cases "r = w")
    case True
    have "f q = 0" if "q < w" for q using Suc.prems(2) [of q] that True by simp
    then have "map f [0 ..< w] = replicate w 0" by (intro nth_equalityI) simp_all
    then show ?thesis using True by (simp add: sum_list_replicate)
  qed (use Suc in auto)
qed simp

lemma dot_slices:
  assumes "length x = w * n" "length v = w * n"
  shows "sum_list (map (\<lambda>r. dot (slice_of n r x) (slice_of n r v)) [0 ..< w]) = dot x v"
proof -
  have "map2 (*) (slice_of n r x) (slice_of n r v) = slice_of n r (map2 (*) x v)" for r
    by (simp add: slice_of_def take_zip drop_zip take_map drop_map)
  then have "sum_list (map (\<lambda>r. dot (slice_of n r x) (slice_of n r v)) [0 ..< w]) =
      sum_list (concat (map (\<lambda>r. slice_of n r (map2 (*) x v)) [0 ..< w]))"
    by (simp add: dot_def sum_list_of_concat comp_def)
  then show ?thesis using assms by (simp add: concat_slices dot_def)
qed

text \<open>The partial outputs of the ranks, the bias on rank 0 only.\<close>

definition row_partial :: "nat \<Rightarrow> 'a::comm_semiring_1 mat \<Rightarrow> 'a mat \<Rightarrow> 'a list option \<Rightarrow> nat \<Rightarrow> 'a mat" where
  "row_partial n x W b r = linear (map (slice_of n r) x) (map (slice_of n r) W) (if r = 0 then b else None)"

lemma reduced_linear:
  assumes W: "mat_shape out (w * n) W" and b: "\<And>full. b = Some full \<Longrightarrow> length full = out"
    and x: "mat_shape m (w * n) x" and w: "0 < w"
  shows "mat_sum (map (row_partial n x W b) [0 ..< w]) = linear x W b"
proof (rule mat_eqI)
  have shapes: "mat_shape m out (row_partial n x W b r)" for r
    using W b x linear_shape [of _ out] by (cases b) (auto simp: row_partial_def mat_shape_def linear_def add_bias_def)
  then show "mat_shape m out (mat_sum (map (row_partial n x W b) [0 ..< w]))"
    by (intro mat_sum_shape) (use w in auto)
  show "mat_shape m out (linear x W b)"
    using W b x by (cases b) (auto simp: mat_shape_def linear_def add_bias_def)
  fix i j assume i: "i < m" and j: "j < out"
  have xi: "length (x ! i) = w * n" "length x = m" and Wj: "length (W ! j) = w * n" "length W = out"
    using W x i j by (auto simp: mat_shape_def)
  let ?bj = "case b of None \<Rightarrow> 0 | Some full \<Rightarrow> full ! j"
  have part: "row_partial n x W b r ! i ! j = dot (slice_of n r (x ! i)) (slice_of n r (W ! j)) + (if r = 0 then ?bj else 0)" for r
    using i j xi Wj b by (auto simp: row_partial_def linear_def add_bias_def split: option.split)
  have "sum_list (map (\<lambda>r. if r = 0 then ?bj else 0) [0 ..< w]) = ?bj"
    using sum_list_one_rank [of 0 w "\<lambda>r. if r = 0 then ?bj else 0"] w by simp
  then have "mat_sum (map (row_partial n x W b) [0 ..< w]) ! i ! j = dot (x ! i) (W ! j) + ?bj"
    using mat_sum_nth [of "map (row_partial n x W b) [0 ..< w]" m out i j] shapes i j w dot_slices [OF xi(1) Wj(1)]
    by (auto simp: part comp_def sum_list_addf)
  then show "mat_sum (map (row_partial n x W b) [0 ..< w]) ! i ! j = linear x W b ! i ! j"
    using i j xi Wj b by (auto simp: linear_def add_bias_def split: option.split)
qed

section \<open>The vocabulary-parallel embedding\<close>

record 'a vocab_embedding =
  ve_vocab_size :: nat
  ve_hidden_size :: nat
  ve_world :: nat
  ve_per_rank :: nat
  ve_start :: nat
  ve_end :: nat
  ve_weight :: "'a mat"

definition embedding_init :: "process_group \<Rightarrow> nat \<Rightarrow> nat \<Rightarrow> 'a mat \<Rightarrow> 'a vocab_embedding res" where
  "embedding_init G vocab hidden W0 =
     (case split_size vocab (get_world_size G) of Inl e \<Rightarrow> Inl e | Inr n \<Rightarrow>
        Inr \<lparr>ve_vocab_size = vocab, ve_hidden_size = hidden, ve_world = get_world_size G, ve_per_rank = n,
             ve_start = get_rank G * n, ve_end = get_rank G * n + n, ve_weight = W0\<rparr>)"

definition embedding_load :: "'a mat \<Rightarrow> ('a vocab_embedding, unit) act" where
  "embedding_load W = (\<lambda>L.
     if \<not> mat_shape (ve_vocab_size L) (ve_hidden_size L) W then (Inl ValueError, L)
     else (Inr (), L\<lparr>ve_weight := take (ve_end L - ve_start L) (drop (ve_start L) W)\<rparr>))"

text \<open>\<open>functional.embedding\<close>: an id outside the table is an \<open>IndexError\<close>.\<close>

definition embed_rows :: "'a mat \<Rightarrow> int list \<Rightarrow> 'a mat res" where
  "embed_rows W ids = (if list_all (\<lambda>t. 0 \<le> t \<and> t < int (length W)) ids then Inr (map (\<lambda>t. W ! nat t) ids) else Inl IndexError)"

definition clamp :: "int \<Rightarrow> int \<Rightarrow> int \<Rightarrow> int" where
  "clamp lo hi x = min hi (max lo x)"

definition embedding_local :: "'a::comm_semiring_1 vocab_embedding \<Rightarrow> int list \<Rightarrow> 'a mat res" where
  "embedding_local L ids =
     (let local_ids = map (\<lambda>t. clamp 0 (int (ve_per_rank L) - 1) (t - int (ve_start L))) ids in
      case embed_rows (ve_weight L) local_ids of Inl e \<Rightarrow> Inl e
      | Inr rows \<Rightarrow> Inr (map2 (\<lambda>t row. map (\<lambda>x. x * of_bool (int (ve_start L) \<le> t \<and> t < int (ve_end L))) row) ids rows))"

definition embedding_forward ::
  "process_group \<Rightarrow> 'a::comm_semiring_1 vocab_embedding \<Rightarrow> int list \<Rightarrow> 'a mat list \<Rightarrow> 'a mat res" where
  "embedding_forward G L ids every =
     (if ve_world L = 1 then embed_rows (ve_weight L) ids
      else case embedding_local L ids of Inl e \<Rightarrow> Inl e | Inr mine \<Rightarrow> all_reduce_sum G mine every)"

definition embedding_layer :: "nat \<Rightarrow> nat \<Rightarrow> nat \<Rightarrow> nat \<Rightarrow> 'a mat \<Rightarrow> 'a mat \<Rightarrow> 'a vocab_embedding res" where
  "embedding_layer w r vocab hidden W0 W =
     (case embedding_init (rank_group w r) vocab hidden W0 of Inl e \<Rightarrow> Inl e | Inr L \<Rightarrow>
        (case embedding_load W L of (Inl e, _) \<Rightarrow> Inl e | (Inr _, L') \<Rightarrow> Inr L'))"

lemma embedding_layer_ok:
  assumes "r < w" "mat_shape (w * n) hidden W"
  shows "embedding_layer w r (w * n) hidden W0 W =
    Inr \<lparr>ve_vocab_size = w * n, ve_hidden_size = hidden, ve_world = w, ve_per_rank = n, ve_start = r * n,
         ve_end = r * n + n, ve_weight = slice_of n r W\<rparr>"
  using assms by (auto simp: embedding_layer_def embedding_init_def split_size_def embedding_load_def slice_of_def)

definition masked_row :: "nat \<Rightarrow> 'a::comm_semiring_1 mat \<Rightarrow> nat \<Rightarrow> int \<Rightarrow> nat \<Rightarrow> 'a list" where
  "masked_row hidden W n t r = (if int (r * n) \<le> t \<and> t < int (r * n + n) then W ! nat t else replicate hidden 0)"

lemma embedding_local_ok:
  assumes W: "mat_shape (w * n) hidden W" and r: "r < w" and n: "0 < n"
    and L: "embedding_layer w r (w * n) hidden W0 W = Inr L"
  shows "embedding_local L ids = Inr (map (\<lambda>t. masked_row hidden W n t r) ids)"
proof -
  have len: "length W = w * n" "length (slice_of n r W) = n" using W r length_slice_of [of r w W n] by (simp_all add: mat_shape_def)
  have in_range: "0 \<le> clamp 0 (int n - 1) x" "clamp 0 (int n - 1) x < int n" for x using n by (auto simp: clamp_def)
  have row: "map (\<lambda>x. x * of_bool (int (r * n) \<le> t \<and> t < int (r * n + n))) (slice_of n r W ! nat (clamp 0 (int n - 1) (t - int (r * n))))
      = masked_row hidden W n t r" for t
  proof (cases "int (r * n) \<le> t \<and> t < int (r * n + n)")
    case True
    then have "clamp 0 (int n - 1) (t - int (r * n)) = t - int (r * n)" by (auto simp: clamp_def)
    moreover have "nat (t - int (r * n)) < n" "r * n + nat (t - int (r * n)) = nat t" using True by linarith+
    ultimately show ?thesis using True slice_of_nth [OF r len(1)] by (simp add: masked_row_def del: of_nat_mult)
  next
    case False
    have "nat (clamp 0 (int n - 1) (t - int (r * n))) < n" using in_range [of "t - int (r * n)"] by linarith
    then have "slice_of n r W ! nat (clamp 0 (int n - 1) (t - int (r * n))) \<in> set W"
      using len slice_of_nth [OF r len(1)] by (metis in_set_dropD in_set_takeD nth_mem slice_of_def)
    then have "length (slice_of n r W ! nat (clamp 0 (int n - 1) (t - int (r * n)))) = hidden" using W by (simp add: mat_shape_def)
    moreover have "masked_row hidden W n t r = replicate hidden 0" using False by (auto simp: masked_row_def)
    moreover have "of_bool (int (r * n) \<le> t \<and> t < int (r * n + n)) = (0 :: 'a)" using False by auto
    ultimately show ?thesis unfolding map_replicate_const mult_zero_right by (simp only: mult_zero_right map_replicate_const)
  qed
  show ?thesis
    using L row in_range len(2)
    by (auto simp: embedding_layer_ok [OF r W] embedding_local_def embed_rows_def list_all_iff Let_def intro!: nth_equalityI
        simp del: of_nat_mult)
qed

section \<open>The merged q, k and v projections\<close>

record qkv_sizes =
  q_size :: nat
  kv_size :: nat
  with_v :: bool
  q_size_per_rank :: nat
  kv_size_per_rank :: nat

definition kv_count :: "bool \<Rightarrow> nat" where
  "kv_count v = (if v then 2 else 1)"

definition split_sizes :: "qkv_sizes \<Rightarrow> nat list" where
  "split_sizes Z = q_size_per_rank Z # replicate (kv_count (with_v Z)) (kv_size_per_rank Z)"

definition qkv_init :: "process_group \<Rightarrow> nat \<Rightarrow> nat \<Rightarrow> nat \<Rightarrow> nat \<Rightarrow> bool \<Rightarrow> 'a mat \<Rightarrow> 'a list option
    \<Rightarrow> ('a column_linear \<times> qkv_sizes) res" where
  "qkv_init G in_features num_q_heads num_kv_heads head_dim v W0 b0 =
     (let w = get_world_size G; qs = num_q_heads * head_dim; kvs = num_kv_heads * head_dim in
      if num_q_heads mod w \<noteq> 0 \<or> num_kv_heads mod w \<noteq> 0 then Inl ValueError
      else case column_init G in_features (qs + kv_count v * kvs) False W0 b0 of Inl e \<Rightarrow> Inl e
        | Inr L \<Rightarrow> Inr (L, \<lparr>q_size = qs, kv_size = kvs, with_v = v, q_size_per_rank = qs div w, kv_size_per_rank = kvs div w\<rparr>))"

fun shard_parts :: "nat \<Rightarrow> (nat \<times> nat) list \<Rightarrow> nat \<Rightarrow> 'b list \<Rightarrow> 'b list" where
  "shard_parts rank [] offset full = []"
| "shard_parts rank ((full_size, per_rank) # parts) offset full =
     take per_rank (drop (offset + rank * per_rank) full) @ shard_parts rank parts (offset + full_size) full"

definition qkv_shard_rows :: "'a column_linear \<Rightarrow> qkv_sizes \<Rightarrow> 'b list \<Rightarrow> 'b list" where
  "qkv_shard_rows L Z full =
     (if cl_world L = 1 then full
      else shard_parts (cl_rank L) (zip [q_size Z, kv_size Z, kv_size Z] (split_sizes Z)) 0 full)"

definition qkv_load :: "qkv_sizes \<Rightarrow> 'a mat \<Rightarrow> 'a list option \<Rightarrow> ('a column_linear, unit) act" where
  "qkv_load Z W b = (\<lambda>L. column_load_with (qkv_shard_rows L Z) (qkv_shard_rows L Z) W b L)"

text \<open>\<open>torch.split\<close> along the columns, and the loop over the row slices.\<close>

fun split_cols :: "nat list \<Rightarrow> 'a mat \<Rightarrow> 'a mat list" where
  "split_cols [] y = []"
| "split_cols (n # ns) y = map (take n) y # split_cols ns (map (drop n) y)"

fun separate_projections :: "nat list \<Rightarrow> nat \<Rightarrow> 'a::comm_semiring_1 column_linear \<Rightarrow> 'a mat \<Rightarrow> 'a mat list" where
  "separate_projections [] start L x = []"
| "separate_projections (n # ns) start L x =
     linear x (take n (drop start (cl_weight L))) (map_option (\<lambda>b. take n (drop start b)) (cl_bias L))
     # separate_projections ns (start + n) L x"

definition project :: "bool \<Rightarrow> 'a::comm_semiring_1 column_linear \<Rightarrow> qkv_sizes \<Rightarrow> 'a mat \<Rightarrow> 'a mat \<times> 'a mat \<times> 'a mat option" where
  "project cuda L Z x =
     (let parts = (if cuda then split_cols (split_sizes Z) (column_local L x) else separate_projections (split_sizes Z) 0 L x)
      in (parts ! 0, parts ! 1, if with_v Z then Some (parts ! 2) else None))"

lemma take_add_bias: "map (take n) (linear x W b) = linear x (take n W) (map_option (take n) b)"
  "map (drop n) (linear x W b) = linear x (drop n W) (map_option (drop n) b)"
  by (cases b; auto simp: linear_def add_bias_def take_map drop_map take_zip drop_zip)+

lemma split_is_separate:
  "split_cols ns (linear x (drop start (cl_weight L)) (map_option (drop start) (cl_bias L))) = separate_projections ns start L x"
proof (induction ns arbitrary: start)
  case (Cons n ns)
  have "map (drop n) (linear x (drop start (cl_weight L)) (map_option (drop start) (cl_bias L))) =
      linear x (drop (start + n) (cl_weight L)) (map_option (drop (start + n)) (cl_bias L))"
    by (simp add: take_add_bias option.map_comp comp_def add.commute)
  then show ?case using Cons [of "start + n"] by (simp add: take_add_bias option.map_comp comp_def)
qed simp

text \<open>Both devices give the same projections.\<close>

lemma project_same: "project cuda L Z x = project False L Z x"
  using split_is_separate [of "split_sizes Z" x 0 L]
  by (simp add: project_def column_local_def option.map_ident Let_def)

definition qkv_layer :: "nat \<Rightarrow> nat \<Rightarrow> nat \<Rightarrow> nat \<Rightarrow> nat \<Rightarrow> nat \<Rightarrow> bool \<Rightarrow> 'a mat \<Rightarrow> 'a list option \<Rightarrow> 'a mat \<Rightarrow> 'a list option
    \<Rightarrow> ('a column_linear \<times> qkv_sizes) res" where
  "qkv_layer w r i qh kvh dim v W0 b0 W b =
     (case qkv_init (rank_group w r) i qh kvh dim v W0 b0 of Inl e \<Rightarrow> Inl e | Inr (L, Z) \<Rightarrow>
        (case qkv_load Z W b L of (Inl e, _) \<Rightarrow> Inl e | (Inr _, L') \<Rightarrow> Inr (L', Z)))"

lemma shard_parts_three:
  assumes "r < w" "length A = w * m" "length B = w * n" "length C = w * n"
  shows "shard_parts r [(w * m, m), (w * n, n), (w * n, n)] 0 (A @ B @ C) = slice_of m r A @ slice_of n r B @ slice_of n r C"
proof -
  have f: "r * m + m \<le> w * m" "r * n + n \<le> w * n" using slice_of_fits [OF assms(1)] by blast+
  then have le: "w * m + r * n \<le> w * m + w * n" "r * m \<le> w * m" "r * n \<le> w * n" by linarith+
  have "take m (drop (r * m) (A @ B @ C)) = slice_of m r A"
    using f(1) le(2) assms(2) by (simp add: slice_of_def)
  moreover have "take n (drop (w * m + r * n) (A @ B @ C)) = slice_of n r B"
    using f(2) le assms(2,3) by (simp add: slice_of_def)
  moreover have "take n (drop (w * m + w * n + r * n) (A @ B @ C)) = slice_of n r C"
    using assms(2,3) by (simp add: slice_of_def)
  ultimately show ?thesis by simp
qed

lemma qkv_layer_ok:
  fixes W0 :: "'a::comm_semiring_1 mat"
  assumes r: "r < w" and i: "0 < w" and A: "mat_shape (w * m) k A" and B: "mat_shape (w * n) k B" and C: "mat_shape (w * n) k C"
    and dims: "m = q * dim" "n = h * dim" and b0: "b0 = None \<longleftrightarrow> b = None"
    and b: "\<And>x y z. b = Some (x, y, z) \<Longrightarrow> length x = w * m \<and> length y = w * n \<and> length z = w * n"
    and L: "qkv_layer w r k (w * q) (w * h) dim True W0 b0 (A @ B @ C) (map_option (\<lambda>(x, y, z). x @ y @ z) b) = Inr (L, Z)"
  shows "project cuda L Z x =
    (linear x (slice_of m r A) (map_option (\<lambda>(bq, _, _). slice_of m r bq) b),
     linear x (slice_of n r B) (map_option (\<lambda>(_, bk, _). slice_of n r bk) b),
     Some (linear x (slice_of n r C) (map_option (\<lambda>(_, _, bv). slice_of n r bv) b)))"
proof -
  let ?W = "A @ B @ C" and ?n = "w * q * dim + 2 * (w * h * dim)"
  have len: "length A = w * m" "length B = w * n" "length C = w * n" using A B C by (simp_all add: mat_shape_def)
  have shape: "mat_shape ?n k ?W" using A B C dims by (auto simp: mat_shape_def mult.assoc)
  have div: "w * q * dim div w = m" "w * h * dim div w = n" "?n mod w = 0" using i dims by (simp_all add: mult.assoc)
  let ?Z = "\<lparr>q_size = w * q * dim, kv_size = w * h * dim, with_v = True, q_size_per_rank = m, kv_size_per_rank = n\<rparr>"
  define L0 where "L0 = \<lparr>cl_in_features = k, cl_out_features = ?n, cl_out_per_rank = ?n div w, cl_gather_output = False,
      cl_world = w, cl_rank = r, cl_weight = W0, cl_bias = b0\<rparr>"
  have init: "qkv_init (rank_group w r) k (w * q) (w * h) dim True W0 b0 = Inr (L0, ?Z)"
    using r i div by (simp add: qkv_init_def column_init_def split_size_def kv_count_def L0_def Let_def)
  have sh: "qkv_shard_rows L0 ?Z (X @ Y @ V) = slice_of m r X @ slice_of n r Y @ slice_of n r V"
    if "length X = w * m" "length Y = w * n" "length V = w * n" for X Y V :: "'b list"
  proof (cases "w = 1")
    case True
    then have "r = 0" using r by simp
    then show ?thesis using True that by (simp add: qkv_shard_rows_def L0_def slice_of_def)
  next
    case False
    then show ?thesis
      using shard_parts_three [OF r that] dims
      by (simp add: qkv_shard_rows_def L0_def split_sizes_def kv_count_def numeral_2_eq_2 mult.assoc)
  qed
  have L': "Z = ?Z" "cl_weight L = slice_of m r A @ slice_of n r B @ slice_of n r C"
      "cl_bias L = map_option (\<lambda>(bq, bk, bv). slice_of m r bq @ slice_of n r bk @ slice_of n r bv) b"
    using L shape b0 b sh [OF len] sh
    by (cases b; force simp: qkv_layer_def init qkv_load_def column_load_with_def L0_def Let_def dims mult.assoc split: if_splits)+
  have sl: "length (slice_of m r A) = m" "length (slice_of n r B) = n" "length (slice_of n r C) = n"
    using length_slice_of [OF r] len by blast+
  have bs: "length (slice_of m r bq) = m \<and> length (slice_of n r bk) = n \<and> length (slice_of n r bv) = n" if "b = Some (bq, bk, bv)" for bq bk bv
    using length_slice_of [OF r] b [OF that] by blast
  have "project False L Z x =
    (linear x (slice_of m r A) (map_option (\<lambda>(bq, _, _). slice_of m r bq) b),
     linear x (slice_of n r B) (map_option (\<lambda>(_, bk, _). slice_of n r bk) b),
     Some (linear x (slice_of n r C) (map_option (\<lambda>(_, _, bv). slice_of n r bv) b)))"
    using sl bs by (cases b) (auto simp: project_def L' split_sizes_def kv_count_def numeral_2_eq_2 Let_def)
  then show ?thesis using project_same by metis
qed

end
