(* ===== verification/Expert_Routing.thy ===== *)
theory Expert_Routing
  imports Tensor_Parallel
begin

text \<open>
  The routed experts of a mixture-of-experts layer (\<open>models/blocks/moe/\<close>): the loop over the experts of
  \<open>mixtral_moe.py\<close> and \<open>glm_moe_gate.py\<close>, the two grouped matmuls over sorted (token, expert) pairs of
  \<open>grouped_experts.py\<close>, and the layer around them with its experts spread over ranks. Routing indices and
  weights are inputs; the grouped matmul kernel is an argument with its documented contract.
\<close>

section \<open>Rows\<close>

definition scale_row :: "'a::comm_semiring_1 \<Rightarrow> 'a list \<Rightarrow> 'a list" where
  "scale_row w row = map (\<lambda>x. x * w) row"

definition zero_row :: "nat \<Rightarrow> 'a::comm_semiring_1 list" where
  "zero_row n = replicate n 0"

definition row_sum :: "nat \<Rightarrow> 'a::comm_semiring_1 list list \<Rightarrow> 'a list" where
  "row_sum n rows = foldr (map2 (+)) rows (zero_row n)"

lemma length_scale_row [simp]: "length (scale_row w row) = length row" by (simp add: scale_row_def)

lemma zero_row_sel [simp]: "length (zero_row n) = n" "j < n \<Longrightarrow> zero_row n ! j = 0" by (simp_all add: zero_row_def)

lemma length_row_sum: "(\<And>row. row \<in> set rows \<Longrightarrow> length row = n) \<Longrightarrow> length (row_sum n rows) = n"
  by (induction rows) (simp_all add: row_sum_def)

lemma row_sum_nth:
  "(\<And>row. row \<in> set rows \<Longrightarrow> length row = n) \<Longrightarrow> j < n \<Longrightarrow> row_sum n rows ! j = sum_list (map (\<lambda>row. row ! j) rows)"
proof (induction rows)
  case (Cons row rows)
  then have "length (row_sum n rows) = n" by (intro length_row_sum) simp
  then show ?case using Cons by (simp add: row_sum_def)
qed (simp add: row_sum_def)

section \<open>The per-expert loop\<close>

text \<open>\<open>torch.where\<close> on the mask of one expert, a \<open>(top_k, tokens)\<close> matrix: the pairs in row-major order.\<close>

definition expert_pairs :: "nat \<Rightarrow> nat \<Rightarrow> nat list list \<Rightarrow> (nat \<times> nat) list" where
  "expert_pairs k e idx = filter (\<lambda>(pos, tok). idx ! tok ! pos = e) (List.product [0 ..< k] [0 ..< length idx])"

definition index_add :: "(nat \<times> 'a::comm_semiring_1 list) list \<Rightarrow> 'a mat \<Rightarrow> 'a mat" where
  "index_add updates out = foldl (\<lambda>out (tok, row). out[tok := map2 (+) (out ! tok) row]) out updates"

definition loop_experts ::
  "(nat \<Rightarrow> 'a::comm_semiring_1 list \<Rightarrow> 'a list) \<Rightarrow> nat \<Rightarrow> nat \<Rightarrow> nat \<Rightarrow> nat \<Rightarrow> 'a mat \<Rightarrow> nat list list \<Rightarrow> 'a list list \<Rightarrow> 'a mat" where
  "loop_experts expert start experts_per_rank k hidden xs idx ws =
     foldl (\<lambda>out l.
         let pairs = expert_pairs k (start + l) idx in
         if pairs = [] then out
         else index_add (map (\<lambda>(pos, tok). (tok, scale_row (ws ! tok ! pos) (expert l (xs ! tok)))) pairs) out)
       (replicate (length xs) (zero_row hidden)) [0 ..< experts_per_rank]"

section \<open>Grouped matmuls\<close>

text \<open>\<open>index_copy_\<close>: later writes win.\<close>

definition index_copy :: "nat list \<Rightarrow> 'r list \<Rightarrow> 'r list \<Rightarrow> 'r list" where
  "index_copy order rows dest = foldl (\<lambda>d (p, row). d[p := row]) dest (zip order rows)"

text \<open>The ids of the pairs on this rank, \<open>n_local\<close> for a pair of another rank, and the ends of the groups.\<close>

definition local_ids :: "nat \<Rightarrow> nat \<Rightarrow> nat \<Rightarrow> nat list list \<Rightarrow> int list" where
  "local_ids start n_local num_experts idx =
     (let ids = map (\<lambda>i. int i - int start) (concat idx)
      in if n_local \<noteq> num_experts then map (\<lambda>i. if 0 \<le> i \<and> i < int n_local then i else int n_local) ids else ids)"

definition sort_order :: "int list \<Rightarrow> nat list" where
  "sort_order ids = sort_key (\<lambda>p. ids ! p) [0 ..< length ids]"

definition group_ends :: "nat \<Rightarrow> int list \<Rightarrow> nat list" where
  "group_ends n_local sorted_ids = map (\<lambda>e. length (filter (\<lambda>i. i \<le> int e) sorted_ids)) [0 ..< n_local]"

definition grouped_expert_mlp ::
  "('a::comm_semiring_1 mat \<Rightarrow> nat list \<Rightarrow> 'a mat) \<Rightarrow> ('a list \<Rightarrow> 'a list) \<Rightarrow> ('a mat \<Rightarrow> nat list \<Rightarrow> 'a mat) \<Rightarrow> 'a list list
    \<Rightarrow> nat \<Rightarrow> nat \<Rightarrow> nat \<Rightarrow> nat \<Rightarrow> nat \<Rightarrow> 'a mat \<Rightarrow> nat list list \<Rightarrow> 'a list list \<Rightarrow> 'a mat" where
  "grouped_expert_mlp gate_up activation down uninit start n_local num_experts k out xs idx ws =
     (if idx = [] then []
      else let ids = local_ids start n_local num_experts idx;
               order = sort_order ids;
               sorted_ids = map (\<lambda>p. ids ! p) order;
               offs = group_ends n_local sorted_ids;
               rows = map (\<lambda>p. xs ! (p div k)) order;
               hidden = map activation (gate_up rows offs);
               out_rows = down hidden offs;
               weighted = map2 (\<lambda>row p. scale_row (concat ws ! p) row) out_rows order;
               masked = (if n_local \<noteq> num_experts
                         then map2 (\<lambda>i row. if i < int n_local then row else zero_row out) sorted_ids weighted else weighted);
               per_pair = index_copy order masked uninit
           in map (\<lambda>t. row_sum out (take k (drop (t * k) per_pair))) [0 ..< length idx])"

text \<open>What \<open>functional.grouped_mm\<close> and the Triton kernels promise: the rows of group \<open>e\<close> get the weight of
  expert \<open>e\<close>; the rows after the last group are left as they were, whatever that is.\<close>

definition grouped_mm_right :: "nat \<Rightarrow> nat \<Rightarrow> (nat \<Rightarrow> 'a list \<Rightarrow> 'a list) \<Rightarrow> ('a mat \<Rightarrow> nat list \<Rightarrow> 'a mat) \<Rightarrow> bool" where
  "grouped_mm_right n width f mm \<longleftrightarrow>
     (\<forall>rows offs. length offs = n \<and> sorted offs \<longrightarrow> length (mm rows offs) = length rows \<and> (\<forall>row \<in> set (mm rows offs). length row = width) \<and>
        (\<forall>e < n. \<forall>i < length rows. (e = 0 \<or> offs ! (e - 1) \<le> i) \<and> i < offs ! e \<longrightarrow> mm rows offs ! i = f e (rows ! i)))"

section \<open>The reference\<close>

text \<open>One token alone: the weighted sum of its experts that this rank holds.\<close>

definition routed_part :: "(nat \<Rightarrow> 'a::comm_semiring_1 list \<Rightarrow> 'a list) \<Rightarrow> nat \<Rightarrow> nat \<Rightarrow> nat \<Rightarrow> 'a list \<Rightarrow> nat \<Rightarrow> 'a \<Rightarrow> 'a list" where
  "routed_part expert start n_local hidden x e w =
     (if start \<le> e \<and> e < start + n_local then scale_row w (expert (e - start) x) else zero_row hidden)"

definition routed_row :: "(nat \<Rightarrow> 'a::comm_semiring_1 list \<Rightarrow> 'a list) \<Rightarrow> nat \<Rightarrow> nat \<Rightarrow> nat \<Rightarrow> 'a list \<Rightarrow> nat list \<Rightarrow> 'a list \<Rightarrow> 'a list" where
  "routed_row expert start n_local hidden x es ws = row_sum hidden (map2 (routed_part expert start n_local hidden x) es ws)"

text \<open>The routing of \<open>n\<close> tokens to \<open>k\<close> of \<open>num_experts\<close> experts each.\<close>

definition routing_ok :: "nat \<Rightarrow> nat \<Rightarrow> nat \<Rightarrow> nat list list \<Rightarrow> 'a list list \<Rightarrow> bool" where
  "routing_ok n k num_experts idx ws \<longleftrightarrow> 0 < k \<and> mat_shape n k idx \<and> mat_shape n k ws \<and>
     (\<forall>es \<in> set idx. \<forall>e \<in> set es. e < num_experts)"

lemma concat_nth:
  assumes "mat_shape n k A" "t < n" "j < k"
  shows "concat A ! (t * k + j) = A ! t ! j" "length (concat A) = n * k" "take k (drop (t * k) (concat A)) = A ! t"
proof -
  have gen: "length (concat A) = length A * k \<and> take k (drop (t * k) (concat A)) = A ! t" if "\<forall>row \<in> set A. length row = k" "t < length A" for A :: "'a list list" and t
    using that
  proof (induction A arbitrary: t)
    case (Cons row A)
    show ?case
    proof (cases t)
      case 0
      then show ?thesis using Cons by (cases A) auto
    next
      case (Suc u)
      then show ?thesis using Cons.IH [of u] Cons.prems by simp
    qed
  qed simp
  show "length (concat A) = n * k" "take k (drop (t * k) (concat A)) = A ! t" using gen [of A t] assms by (auto simp: mat_shape_def)
  moreover have "t * k \<le> length (concat A)" using calculation(1) slice_of_fits [OF assms(2), of k] by linarith
  ultimately show "concat A ! (t * k + j) = A ! t ! j"
    using assms(3) nth_take [of j k "drop (t * k) (concat A)"] nth_drop [of "t * k" "concat A" j] by simp
qed

lemma length_concat_mat: "mat_shape n k A \<Longrightarrow> length (concat A) = n * k"
proof (induction A arbitrary: n)
  case (Cons row A)
  then obtain m where "n = Suc m" "mat_shape m k A" "length row = k" by (auto simp: mat_shape_def)
  then show ?case using Cons.IH [of m] by simp
qed (simp add: mat_shape_def)

section \<open>The grouped path is the reference\<close>

lemma index_copy_simps [simp]:
  "index_copy [] rows dest = dest" "index_copy order [] dest = dest"
  "index_copy (p # order) (row # rows) dest = index_copy order rows (dest[p := row])"
  by (simp_all add: index_copy_def)

lemma index_copy_nth:
  assumes "length order = length rows" "distinct order" "set order \<subseteq> {..< length dest}"
  shows "length (index_copy order rows dest) = length dest"
    "i < length order \<Longrightarrow> index_copy order rows dest ! (order ! i) = rows ! i"
proof -
  have "length (index_copy order rows dest) = length dest \<and>
      (\<forall>q < length dest. q \<notin> set order \<longrightarrow> index_copy order rows dest ! q = dest ! q) \<and>
      (\<forall>i < length order. index_copy order rows dest ! (order ! i) = rows ! i)"
    using assms
  proof (induction order rows arbitrary: dest rule: list_induct2)
    case (Cons p order row rows)
    let ?d = "dest[p := row]"
    have ih: "length (index_copy order rows ?d) = length dest"
        "\<forall>q < length dest. q \<notin> set order \<longrightarrow> index_copy order rows ?d ! q = ?d ! q"
        "\<forall>i < length order. index_copy order rows ?d ! (order ! i) = rows ! i"
      using Cons.IH [of ?d] Cons.prems by simp_all
    have "index_copy order rows ?d ! p = row" using ih(2) Cons.prems by simp
    moreover have "index_copy order rows ?d ! q = dest ! q" if "q < length dest" "q \<notin> set (p # order)" for q
      using ih(2) that by simp
    ultimately show ?case using ih(1,3) by (simp add: All_less_Suc2)
  qed simp
  then show "length (index_copy order rows dest) = length dest"
    "i < length order \<Longrightarrow> index_copy order rows dest ! (order ! i) = rows ! i" by blast+
qed

text \<open>In a sorted list the rows of value \<open>e\<close> lie between the counts of smaller and of not larger values.\<close>

lemma sorted_counts:
  fixes xs :: "int list"
  assumes "sorted xs" "i < length xs"
  shows "i < length (filter (\<lambda>x. x \<le> xs ! i) xs)" "y < xs ! i \<Longrightarrow> length (filter (\<lambda>x. x \<le> y) xs) \<le> i"
proof -
  have split: "xs = take i xs @ drop i xs" by simp
  have "\<forall>x \<in> set (take (Suc i) xs). x \<le> xs ! i"
    using assms by (auto simp: in_set_conv_nth sorted_nth_mono)
  then have "length (filter (\<lambda>x. x \<le> xs ! i) (take (Suc i) xs)) = Suc i"
    using assms(2) by (simp add: filter_id_conv [THEN iffD2])
  then show "i < length (filter (\<lambda>x. x \<le> xs ! i) xs)"
    by (metis Suc_le_eq append_take_drop_id filter_append length_append le_add1)
  assume y: "y < xs ! i"
  have "y < xs ! (i + q)" if "q < length xs - i" for q
    using sorted_nth_mono [OF assms(1), of i "i + q"] y that by linarith
  then have "\<forall>x \<in> set (drop i xs). \<not> x \<le> y" using assms(2) by (auto simp: in_set_conv_nth not_le)
  then have "filter (\<lambda>x. x \<le> y) (drop i xs) = []" by (simp add: filter_empty_conv)
  then have "filter (\<lambda>x. x \<le> y) xs = filter (\<lambda>x. x \<le> y) (take i xs)" using split by (metis append_Nil2 filter_append)
  then show "length (filter (\<lambda>x. x \<le> y) xs) \<le> i" by (metis length_filter_le length_take min.boundedE)
qed

lemma sort_order_perm: "distinct (sort_order ids)" "set (sort_order ids) = {..< length ids}" "length (sort_order ids) = length ids"
  by (auto simp: sort_order_def)

lemma sort_order_sorted: "sorted (map (\<lambda>p. ids ! p) (sort_order ids))"
  by (simp add: sort_order_def)

lemma group_ends_sorted: "sorted (group_ends n xs)"
proof -
  have "length (filter (\<lambda>x. x \<le> a) xs) \<le> length (filter (\<lambda>x. x \<le> b) xs)" if "a \<le> b" for a b :: int
    using that by (induction xs) auto
  then show ?thesis by (auto simp: group_ends_def sorted_iff_nth_mono)
qed

lemma group_of_row:
  assumes "i < length ids" "xs = map (\<lambda>p. ids ! p) (sort_order ids)" "xs ! i = int e" "e < n"
  shows "(e = 0 \<or> group_ends n xs ! (e - 1) \<le> i) \<and> i < group_ends n xs ! e"
proof -
  have xs: "sorted xs" "i < length xs" using assms(1,2) sort_order_sorted sort_order_perm(3) by simp_all
  have "i < group_ends n xs ! e" using sorted_counts(1) [OF xs] assms(3,4) by (simp add: group_ends_def)
  moreover have "group_ends n xs ! (e - 1) \<le> i" if "0 < e"
  proof -
    have "int (e - 1) < xs ! i" using assms(3) that by simp
    moreover have "[0 ..< n] ! (e - 1) = e - 1" using assms(4) by simp
    ultimately show ?thesis using sorted_counts(2) [OF xs] assms(4) by (simp add: group_ends_def)
  qed
  ultimately show ?thesis by auto
qed

lemma grouped_part:
  assumes mm: "grouped_mm_right n g f1 gate_up" "grouped_mm_right n out f2 down"
    and ids: "ids = local_ids start n num_experts idx" "length ids = length (concat idx)"
    and range: "\<forall>e \<in> set (concat idx). e < num_experts" "start + n \<le> num_experts"
    and p: "order = sort_order ids" "i < length order" "p = order ! i" "sorted_ids = map (\<lambda>p. ids ! p) order"
    and rows: "rows = map (\<lambda>p. xs ! (p div k)) order"
    and out: "out_rows = down (map activation (gate_up rows (group_ends n sorted_ids))) (group_ends n sorted_ids)"
  shows "(if n \<noteq> num_experts \<and> \<not> sorted_ids ! i < int n then zero_row out else scale_row w (out_rows ! i)) =
    routed_part (\<lambda>e x. f2 e (activation (f1 e x))) start n out (xs ! (p div k)) (concat idx ! p) w"
    "length (out_rows ! i) = out"
proof -
  let ?offs = "group_ends n sorted_ids" and ?e = "concat idx ! p"
  have i: "i < length ids" using p(1,2) sort_order_perm(3) [of ids] by simp
  have pl: "p < length (concat idx)" using p(2,3) sort_order_perm(2) [of ids] p(1) ids(2) by (metis lessThan_iff nth_mem)
  have offs: "length ?offs = n \<and> sorted ?offs" by (simp add: group_ends_sorted) (simp add: group_ends_def)
  have rl: "length rows = length ids" using rows p(1) sort_order_perm(3) [of ids] by simp
  have m1: "length (gate_up rows ?offs) = length rows"
      "\<And>e i. e < n \<Longrightarrow> i < length rows \<Longrightarrow> (e = 0 \<or> ?offs ! (e - 1) \<le> i) \<and> i < ?offs ! e \<Longrightarrow> gate_up rows ?offs ! i = f1 e (rows ! i)"
    using mm(1) offs unfolding grouped_mm_right_def by blast+
  let ?h = "map activation (gate_up rows ?offs)"
  have m2: "length out_rows = length ?h" "\<forall>row \<in> set out_rows. length row = out"
      "\<And>e i. e < n \<Longrightarrow> i < length ?h \<Longrightarrow> (e = 0 \<or> ?offs ! (e - 1) \<le> i) \<and> i < ?offs ! e \<Longrightarrow> out_rows ! i = f2 e (?h ! i)"
    using mm(2) offs unfolding grouped_mm_right_def out by blast+
  show "length (out_rows ! i) = out" using m1(1) m2(1,2) rl i by simp
  have e: "?e < num_experts" using range(1) nth_mem [OF pl] by blast
  have sid: "sorted_ids ! i = ids ! p" using p by simp
  have idp: "ids ! p = (if n \<noteq> num_experts \<and> \<not> (start \<le> ?e \<and> ?e < start + n) then int n else int ?e - int start)"
    using pl by (auto simp: ids(1) local_ids_def Let_def)
  show "(if n \<noteq> num_experts \<and> \<not> sorted_ids ! i < int n then zero_row out else scale_row w (out_rows ! i)) =
    routed_part (\<lambda>e x. f2 e (activation (f1 e x))) start n out (xs ! (p div k)) ?e w"
  proof (cases "start \<le> ?e \<and> ?e < start + n")
    case True
    then have en: "sorted_ids ! i = int (?e - start)" "?e - start < n" using sid idp by auto
    have g: "(?e - start = 0 \<or> ?offs ! (?e - start - 1) \<le> i) \<and> i < ?offs ! (?e - start)"
      by (rule group_of_row [OF i _ en]) (simp add: p(1,4))
    have "out_rows ! i = f2 (?e - start) (activation (f1 (?e - start) (rows ! i)))"
      using m2(3) [OF en(2) _ g] m1(2) [OF en(2) _ g] m1(1) rl i by simp
    moreover have "rows ! i = xs ! (p div k)" using rows p(2,3) by simp
    ultimately show ?thesis using True en by (simp add: routed_part_def)
  next
    case False
    then have "n \<noteq> num_experts" using e range(2) by auto
    then show ?thesis using False sid idp by (auto simp: routed_part_def)
  qed
qed

lemma grouped_expert_mlp_ok:
  assumes mm: "grouped_mm_right n_local g f1 gate_up" "grouped_mm_right n_local out f2 down"
    and route: "routing_ok (length xs) k num_experts idx ws" and range: "start + n_local \<le> num_experts"
    and buf: "length uninit = length xs * k"
  shows "grouped_expert_mlp gate_up activation down uninit start n_local num_experts k out xs idx ws =
    map (\<lambda>t. routed_row (\<lambda>e x. f2 e (activation (f1 e x))) start n_local out (xs ! t) (idx ! t) (ws ! t)) [0 ..< length xs]"
proof -
  have r: "mat_shape (length xs) k idx" "mat_shape (length xs) k ws" "\<forall>e \<in> set (concat idx). e < num_experts" "0 < k"
    using route by (auto simp: routing_ok_def)
  have il: "length idx = length xs" using r(1) by (simp add: mat_shape_def)
  show ?thesis
  proof (cases "idx = []")
    case True
    then show ?thesis using il by (simp add: grouped_expert_mlp_def)
  next
    case False
    define ids where "ids = local_ids start n_local num_experts idx"
    define order where "order = sort_order ids"
    define sorted_ids where "sorted_ids = map (\<lambda>p. ids ! p) order"
    define offs where "offs = group_ends n_local sorted_ids"
    define rows where "rows = map (\<lambda>p. xs ! (p div k)) order"
    define out_rows where "out_rows = down (map activation (gate_up rows offs)) offs"
    define weighted where "weighted = map2 (\<lambda>row p. scale_row (concat ws ! p) row) out_rows order"
    define masked where "masked = (if n_local \<noteq> num_experts
      then map2 (\<lambda>i row. if i < int n_local then row else zero_row out) sorted_ids weighted else weighted)"
    define per_pair where "per_pair = index_copy order masked uninit"
    have eq: "grouped_expert_mlp gate_up activation down uninit start n_local num_experts k out xs idx ws =
        map (\<lambda>t. row_sum out (take k (drop (t * k) per_pair))) [0 ..< length xs]"
      using False il unfolding grouped_expert_mlp_def per_pair_def masked_def weighted_def out_rows_def rows_def offs_def
        sorted_ids_def order_def ids_def Let_def by simp
    have nl: "length ids = length (concat idx)" "length (concat idx) = length xs * k" "length order = length ids"
      using length_concat_mat [OF r(1)] by (simp_all add: ids_def local_ids_def order_def sort_order_perm Let_def)
    have ol: "length out_rows = length order"
    proof -
      have "length offs = n_local \<and> sorted offs" unfolding offs_def by (simp add: group_ends_sorted) (simp add: group_ends_def)
      then show ?thesis using mm by (simp add: out_rows_def grouped_mm_right_def rows_def)
    qed
    note part = grouped_part [OF mm ids_def nl(1) r(3) range order_def _ _ sorted_ids_def rows_def out_rows_def [unfolded offs_def]]
    have ml: "length masked = length order" using ol by (simp add: masked_def weighted_def sorted_ids_def)
    have mi: "masked ! i = routed_part (\<lambda>e x. f2 e (activation (f1 e x))) start n_local out (xs ! (order ! i div k))
        (concat idx ! (order ! i)) (concat ws ! (order ! i))" if i: "i < length order" for i
      using part(1) [OF i refl, of "concat ws ! (order ! i)"] i ol
      by (auto simp: masked_def weighted_def sorted_ids_def split: if_splits)
    have perm: "distinct order" "set order = {..< length xs * k}" using sort_order_perm [of ids] nl by (simp_all add: order_def)
    have pl: "length per_pair = length xs * k" and pi: "i < length order \<Longrightarrow> per_pair ! (order ! i) = masked ! i" for i
      using index_copy_nth [of order masked uninit] ml perm buf by (simp_all add: per_pair_def)
    have pp: "per_pair ! p = routed_part (\<lambda>e x. f2 e (activation (f1 e x))) start n_local out (xs ! (p div k)) (concat idx ! p) (concat ws ! p)"
      if "p < length xs * k" for p
    proof -
      have "p \<in> set order" using that perm(2) by simp
      then obtain i where i: "i < length order" "order ! i = p" by (auto simp: in_set_conv_nth)
      show ?thesis using pi [OF i(1)] mi [OF i(1)] unfolding i(2) by (rule trans)
    qed
    have "take k (drop (t * k) per_pair) = map2 (routed_part (\<lambda>e x. f2 e (activation (f1 e x))) start n_local out (xs ! t)) (idx ! t) (ws ! t)"
      if t: "t < length xs" for t
    proof (rule nth_equalityI)
      have fit: "t * k + k \<le> length xs * k" by (rule slice_of_fits [OF t])
      have lens: "length (idx ! t) = k" "length (ws ! t) = k" using r(1,2) t by (auto simp: mat_shape_def)
      then show "length (take k (drop (t * k) per_pair)) =
          length (map2 (routed_part (\<lambda>e x. f2 e (activation (f1 e x))) start n_local out (xs ! t)) (idx ! t) (ws ! t))"
        using fit pl by simp
      fix j assume "j < length (take k (drop (t * k) per_pair))"
      then have j: "j < k" by simp
      then have "t * k + j < length xs * k" "(t * k + j) div k = t" using fit r(4) by simp_all
      moreover have "t * k \<le> length per_pair" using fit pl by linarith
      ultimately show "take k (drop (t * k) per_pair) ! j =
          map2 (routed_part (\<lambda>e x. f2 e (activation (f1 e x))) start n_local out (xs ! t)) (idx ! t) (ws ! t) ! j"
        using pp [of "t * k + j"] concat_nth(1) [OF r(1) t j] concat_nth(1) [OF r(2) t j] j lens fit pl
          nth_drop [of "t * k" per_pair j] by simp
    qed
    then show ?thesis unfolding eq routed_row_def by simp
  qed
qed

section \<open>The loop is the reference\<close>

text \<open>One entry of the output through the updates of one expert.\<close>

lemma index_add_nth:
  assumes "mat_shape n m out" "\<And>tok row. (tok, row) \<in> set updates \<Longrightarrow> tok < n \<and> length row = m"
  shows "mat_shape n m (index_add updates out)"
    "t < n \<Longrightarrow> j < m \<Longrightarrow>
       index_add updates out ! t ! j = out ! t ! j + sum_list (map (\<lambda>(tok, row). if tok = t then row ! j else 0) updates)"
proof -
  have "mat_shape n m (index_add updates out) \<and> (t < n \<and> j < m \<longrightarrow>
      index_add updates out ! t ! j = out ! t ! j + sum_list (map (\<lambda>(tok, row). if tok = t then row ! j else 0) updates))"
    using assms
  proof (induction updates arbitrary: out)
    case (Cons u updates)
    obtain tok row where u: "u = (tok, row)" "tok < n" "length row = m" using Cons.prems(2) by (cases u) auto
    let ?o = "out[tok := map2 (+) (out ! tok) row]"
    have row: "length (out ! tok) = m" using Cons.prems(1) u(2) by (simp add: mat_shape_def)
    have "mat_shape n m ?o" using Cons.prems(1) u row by (auto simp: mat_shape_def dest!: set_update_subset_insert [THEN subsetD])
    moreover have "?o ! t ! j = out ! t ! j + (if tok = t then row ! j else 0)" if "t < n" "j < m"
      using Cons.prems(1) u row that by (auto simp: mat_shape_def)
    moreover have "tok' < n \<and> length row' = m" if "(tok', row') \<in> set updates" for tok' row'
      using Cons.prems(2) [of tok' row'] that by simp
    moreover have "index_add (u # updates) out = index_add updates ?o" by (simp add: index_add_def u(1))
    ultimately show ?case using Cons.IH [of ?o] u(1) by (simp add: add.assoc)
  qed (simp add: index_add_def)
  then show "mat_shape n m (index_add updates out)"
    "t < n \<Longrightarrow> j < m \<Longrightarrow>
       index_add updates out ! t ! j = out ! t ! j + sum_list (map (\<lambda>(tok, row). if tok = t then row ! j else 0) updates)"
    by blast+
qed

lemma sum_list_filter_if: "sum_list (map f (filter P xs)) = sum_list (map (\<lambda>x. if P x then f x else 0) xs)"
  for f :: "'b \<Rightarrow> 'a::comm_semiring_1"
  by (induction xs) simp_all

lemma sum_list_product: "sum_list (map f (List.product xs ys)) = sum_list (map (\<lambda>x. sum_list (map (\<lambda>y. f (x, y)) ys)) xs)"
  for f :: "'b \<times> 'c \<Rightarrow> 'a::comm_semiring_1"
  by (induction xs) (simp_all add: comp_def)

lemma sum_list_swap:
  "sum_list (map (\<lambda>x. sum_list (map (f x) ys)) xs) = sum_list (map (\<lambda>y. sum_list (map (\<lambda>x. f x y) xs)) ys)"
  for f :: "'b \<Rightarrow> 'c \<Rightarrow> 'a::comm_semiring_1"
  by (induction xs) (simp_all add: sum_list_addf)

lemma expert_pairs_sum:
  fixes g :: "nat \<Rightarrow> nat \<Rightarrow> 'a::comm_semiring_1"
  assumes "t < length idx"
  shows "sum_list (map (\<lambda>(pos, tok). if tok = t then g pos tok else 0) (expert_pairs k e idx)) =
    sum_list (map (\<lambda>pos. if idx ! t ! pos = e then g pos t else 0) [0 ..< k])"
proof -
  have "sum_list (map (\<lambda>tok. if idx ! tok ! pos = e then if tok = t then g pos tok else 0 else 0) [0 ..< length idx]) =
      (if idx ! t ! pos = e then g pos t else 0)" for pos
    using sum_list_one_rank [OF assms, of "\<lambda>tok. if idx ! tok ! pos = e then if tok = t then g pos tok else 0 else 0"] by simp
  moreover have "(\<Sum>x\<leftarrow>[0 ..< k]. \<Sum>y\<leftarrow>[0 ..< length idx]. if idx ! y ! x = e then case (x, y) of (pos, tok) \<Rightarrow> if tok = t then g pos tok else 0 else 0) =
      (\<Sum>pos\<leftarrow>[0 ..< k]. \<Sum>tok\<leftarrow>[0 ..< length idx]. if idx ! tok ! pos = e then if tok = t then g pos tok else 0 else 0)"
    unfolding prod.case ..
  ultimately show ?thesis by (simp only: expert_pairs_def sum_list_filter_if sum_list_product prod.case)
qed

lemma routed_row_nth:
  fixes expert :: "nat \<Rightarrow> 'a::comm_semiring_1 list \<Rightarrow> 'a list"
  assumes width: "\<And>e x. length (expert e x) = hidden" and lens: "length es = k" "length ws = k"
  shows "length (routed_row expert start n hidden x es ws) = hidden"
    "j < hidden \<Longrightarrow> routed_row expert start n hidden x es ws ! j =
      sum_list (map (\<lambda>pos. if start \<le> es ! pos \<and> es ! pos < start + n
        then expert (es ! pos - start) x ! j * ws ! pos else 0) [0 ..< k])"
proof -
  have "length (routed_part expert start n hidden x e w) = hidden" for e w using width by (simp add: routed_part_def)
  then have parts: "\<And>row. row \<in> set (map2 (routed_part expert start n hidden x) es ws) \<Longrightarrow> length row = hidden" by auto
  show "length (routed_row expert start n hidden x es ws) = hidden"
    unfolding routed_row_def by (rule length_row_sum) (rule parts)
  assume j: "j < hidden"
  have "map (\<lambda>row. row ! j) (map2 (routed_part expert start n hidden x) es ws) =
      map (\<lambda>pos. if start \<le> es ! pos \<and> es ! pos < start + n then expert (es ! pos - start) x ! j * ws ! pos else 0) [0 ..< k]"
    using lens j width by (auto simp: routed_part_def scale_row_def intro!: nth_equalityI)
  moreover have "routed_row expert start n hidden x es ws ! j =
      sum_list (map (\<lambda>row. row ! j) (map2 (routed_part expert start n hidden x) es ws))"
    unfolding routed_row_def by (rule row_sum_nth [OF parts j])
  ultimately show "routed_row expert start n hidden x es ws ! j =
      sum_list (map (\<lambda>pos. if start \<le> es ! pos \<and> es ! pos < start + n
        then expert (es ! pos - start) x ! j * ws ! pos else 0) [0 ..< k])"
    by (simp only:)
qed

lemma loop_experts_ok:
  assumes route: "routing_ok (length xs) k num_experts idx ws"
    and width: "\<And>e x. length (expert e x) = hidden"
  shows "loop_experts expert start n k hidden xs idx ws =
    map (\<lambda>t. routed_row expert start n hidden (xs ! t) (idx ! t) (ws ! t)) [0 ..< length xs]"
proof (rule mat_eqI)
  have shape: "mat_shape (length xs) k idx" "mat_shape (length xs) k ws" using route by (auto simp: routing_ok_def)
  then have il: "length idx = length xs" by (simp add: mat_shape_def)
  let ?loop = "\<lambda>ls. foldl (\<lambda>out l. let pairs = expert_pairs k (start + l) idx in if pairs = [] then out
      else index_add (map (\<lambda>(pos, tok). (tok, scale_row (ws ! tok ! pos) (expert l (xs ! tok)))) pairs) out)
      (replicate (length xs) (zero_row hidden)) ls"
  have upd: "(\<lambda>out l. let pairs = expert_pairs k (start + l) idx in if pairs = [] then out
      else index_add (map (\<lambda>(pos, tok). (tok, scale_row (ws ! tok ! pos) (expert l (xs ! tok)))) pairs) out) =
      (\<lambda>out l. index_add (map (\<lambda>(pos, tok). (tok, scale_row (ws ! tok ! pos) (expert l (xs ! tok)))) (expert_pairs k (start + l) idx)) out)"
    by (simp add: fun_eq_iff index_add_def Let_def)
  have fits: "tok < length xs \<and> length row = hidden"
    if "(tok, row) \<in> set (map (\<lambda>(pos, tok). (tok, scale_row (ws ! tok ! pos) (expert l (xs ! tok)))) (expert_pairs k e idx))" for tok row l e
    using that width il by (auto simp: expert_pairs_def)
  have inv: "mat_shape (length xs) hidden (?loop [0 ..< m]) \<and>
      (\<forall>t < length xs. \<forall>j < hidden. ?loop [0 ..< m] ! t ! j =
        sum_list (map (\<lambda>pos. if start \<le> idx ! t ! pos \<and> idx ! t ! pos < start + m
          then expert (idx ! t ! pos - start) (xs ! t) ! j * ws ! t ! pos else 0) [0 ..< k]))" for m
  proof (induction m)
    case 0
    have "(if start \<le> x \<and> x < start + 0 then v else 0) = 0" for x :: nat and v :: 'a by auto
    then show ?case by (simp add: mat_shape_def sum_list_0)
  next
    case (Suc m)
    let ?u = "map (\<lambda>(pos, tok). (tok, scale_row (ws ! tok ! pos) (expert m (xs ! tok)))) (expert_pairs k (start + m) idx)"
    have step: "?loop [0 ..< Suc m] = index_add ?u (?loop [0 ..< m])" unfolding upd by simp
    have entry: "index_add ?u (?loop [0 ..< m]) ! t ! j =
        sum_list (map (\<lambda>pos. if start \<le> idx ! t ! pos \<and> idx ! t ! pos < start + Suc m
          then expert (idx ! t ! pos - start) (xs ! t) ! j * ws ! t ! pos else 0) [0 ..< k])"
      if t: "t < length xs" and j: "j < hidden" for t j
    proof -
      have add: "index_add ?u (?loop [0 ..< m]) ! t ! j =
          ?loop [0 ..< m] ! t ! j + sum_list (map (\<lambda>(tok, row). if tok = t then row ! j else 0) ?u)"
        by (rule index_add_nth(2) [OF conjunct1 [OF Suc] _ t j]) (rule fits)
      have base: "?loop [0 ..< m] ! t ! j =
          sum_list (map (\<lambda>pos. if start \<le> idx ! t ! pos \<and> idx ! t ! pos < start + m
            then expert (idx ! t ! pos - start) (xs ! t) ! j * ws ! t ! pos else 0) [0 ..< k])"
        using conjunct2 [OF Suc] t j by blast
      have "sum_list (map (\<lambda>(tok, row). if tok = t then row ! j else 0) ?u) =
          sum_list (map (\<lambda>(pos, tok). if tok = t then scale_row (ws ! tok ! pos) (expert m (xs ! tok)) ! j else 0) (expert_pairs k (start + m) idx))"
        by (intro arg_cong [where f = sum_list]) (auto simp: comp_def split: prod.split)
      also have "\<dots> = sum_list (map (\<lambda>pos. if idx ! t ! pos = start + m then scale_row (ws ! t ! pos) (expert m (xs ! t)) ! j else 0) [0 ..< k])"
        using expert_pairs_sum [of t idx "\<lambda>pos tok. scale_row (ws ! tok ! pos) (expert m (xs ! tok)) ! j"] t il by simp
      finally have "index_add ?u (?loop [0 ..< m]) ! t ! j =
          sum_list (map (\<lambda>pos. if start \<le> idx ! t ! pos \<and> idx ! t ! pos < start + m
            then expert (idx ! t ! pos - start) (xs ! t) ! j * ws ! t ! pos else 0) [0 ..< k]) +
          sum_list (map (\<lambda>pos. if idx ! t ! pos = start + m then scale_row (ws ! t ! pos) (expert m (xs ! t)) ! j else 0) [0 ..< k])"
        using add base by (simp only:)
      also have "\<dots> = sum_list (map (\<lambda>pos. (if start \<le> idx ! t ! pos \<and> idx ! t ! pos < start + m
            then expert (idx ! t ! pos - start) (xs ! t) ! j * ws ! t ! pos else 0) +
          (if idx ! t ! pos = start + m then scale_row (ws ! t ! pos) (expert m (xs ! t)) ! j else 0)) [0 ..< k])"
        by (simp add: sum_list_addf)
      finally show ?thesis
        by (rule trans) (rule arg_cong [where f = sum_list], rule map_cong,
          use j width in \<open>auto simp: scale_row_def\<close>)
    qed
    moreover have "mat_shape (length xs) hidden (index_add ?u (?loop [0 ..< m]))"
      by (rule index_add_nth(1) [OF conjunct1 [OF Suc] fits])
    ultimately show ?case unfolding step by blast
  qed
  then show "mat_shape (length xs) hidden (loop_experts expert start n k hidden xs idx ws)" by (simp add: loop_experts_def)
  have lens: "length (idx ! t) = k" "length (ws ! t) = k" if "t < length xs" for t using shape that by (auto simp: mat_shape_def)
  note row = routed_row_nth [of expert, OF width lens]
  show "mat_shape (length xs) hidden (map (\<lambda>t. routed_row expert start n hidden (xs ! t) (idx ! t) (ws ! t)) [0 ..< length xs])"
    using row(1) by (auto simp: mat_shape_def)
  fix t j assume "t < length xs" "j < hidden"
  then show "loop_experts expert start n k hidden xs idx ws ! t ! j =
      map (\<lambda>t. routed_row expert start n hidden (xs ! t) (idx ! t) (ws ! t)) [0 ..< length xs] ! t ! j"
    using inv [of n] row(2) by (simp add: loop_experts_def)
qed

section \<open>The layer, its experts over the ranks\<close>

record 'a moe_ffn =
  moe_num_experts :: nat
  moe_per_rank :: nat
  moe_start :: nat
  moe_top_k :: nat
  moe_experts :: "nat \<Rightarrow> 'a list \<Rightarrow> 'a list"
  moe_shared :: "('a list \<Rightarrow> 'a list) option"

text \<open>A rank builds its own experts: \<open>experts\<close> is the function of the global expert index.\<close>

definition moe_init :: "process_group \<Rightarrow> nat \<Rightarrow> nat \<Rightarrow> (nat \<Rightarrow> 'a list \<Rightarrow> 'a list) \<Rightarrow> ('a list \<Rightarrow> 'a list) option \<Rightarrow> 'a moe_ffn res" where
  "moe_init G num_experts top_k experts shared =
     (if top_k = 0 \<or> num_experts < top_k then Inl ValueError
      else case split_size num_experts (get_world_size G) of Inl e \<Rightarrow> Inl e
        | Inr n \<Rightarrow> Inr \<lparr>moe_num_experts = num_experts, moe_per_rank = n, moe_start = get_rank G * n, moe_top_k = top_k,
            moe_experts = (\<lambda>l. experts (get_rank G * n + l)), moe_shared = shared\<rparr>)"

text \<open>The routed part of the forward on one rank; \<open>grouped\<close> is the packed experts, when the device takes them.\<close>

type_synonym 'a grouped_kernel = "('a mat \<Rightarrow> nat list \<Rightarrow> 'a mat) \<times> ('a list \<Rightarrow> 'a list) \<times> ('a mat \<Rightarrow> nat list \<Rightarrow> 'a mat) \<times> 'a list list"

definition moe_local ::
  "'a::comm_semiring_1 moe_ffn \<Rightarrow> nat \<Rightarrow> 'a grouped_kernel option \<Rightarrow> 'a mat \<Rightarrow> nat list list \<Rightarrow> 'a list list \<Rightarrow> 'a mat" where
  "moe_local M hidden grouped flat idx ws =
     (case grouped of
        Some (gate_up, activation, down, uninit) \<Rightarrow>
          grouped_expert_mlp gate_up activation down uninit (moe_start M) (moe_per_rank M) (moe_num_experts M) (moe_top_k M)
            hidden flat idx ws
      | None \<Rightarrow> loop_experts (moe_experts M) (moe_start M) (moe_per_rank M) (moe_top_k M) hidden flat idx ws)"

definition moe_forward ::
  "process_group \<Rightarrow> 'a::comm_semiring_1 moe_ffn \<Rightarrow> nat \<Rightarrow> 'a grouped_kernel option \<Rightarrow> 'a mat \<Rightarrow> nat list list \<Rightarrow> 'a list list
    \<Rightarrow> 'a mat list \<Rightarrow> 'a mat res" where
  "moe_forward G M hidden grouped flat idx ws every =
     (case all_reduce_sum G (moe_local M hidden grouped flat idx ws) every of Inl e \<Rightarrow> Inl e
      | Inr out \<Rightarrow> Inr (case moe_shared M of None \<Rightarrow> out | Some f \<Rightarrow> mat_add out (map f flat)))"

text \<open>The kernel of a rank computes that rank's experts.\<close>

definition kernel_right :: "'a moe_ffn \<Rightarrow> nat \<Rightarrow> nat \<Rightarrow> 'a grouped_kernel \<Rightarrow> bool" where
  "kernel_right M hidden pairs kern \<longleftrightarrow>
     (case kern of (gate_up, activation, down, uninit) \<Rightarrow> \<exists>g f1 f2.
        grouped_mm_right (moe_per_rank M) g f1 gate_up \<and> grouped_mm_right (moe_per_rank M) hidden f2 down \<and>
        (\<forall>e < moe_per_rank M. moe_experts M e = (\<lambda>x. f2 e (activation (f1 e x)))) \<and> length uninit = pairs)"

lemma routed_row_cong:
  assumes "\<And>e. e < n \<Longrightarrow> expert e = expert' e"
  shows "routed_row expert start n hidden x es ws = routed_row expert' start n hidden x es ws"
proof -
  have "routed_part expert start n hidden x e w = routed_part expert' start n hidden x e w" for e w
    using assms [of "e - start"] by (auto simp: routed_part_def)
  then have "routed_part expert start n hidden x = routed_part expert' start n hidden x" by (simp add: fun_eq_iff)
  then show ?thesis by (simp add: routed_row_def)
qed

lemma moe_local_ok:
  assumes route: "routing_ok (length xs) (moe_top_k M) (moe_num_experts M) idx ws"
    and width: "\<And>e x. length (moe_experts M e x) = hidden" and range: "moe_start M + moe_per_rank M \<le> moe_num_experts M"
    and kern: "\<And>kern. grouped = Some kern \<Longrightarrow> kernel_right M hidden (length xs * moe_top_k M) kern"
  shows "moe_local M hidden grouped xs idx ws =
    map (\<lambda>t. routed_row (moe_experts M) (moe_start M) (moe_per_rank M) hidden (xs ! t) (idx ! t) (ws ! t)) [0 ..< length xs]"
proof (cases grouped)
  case None
  then show ?thesis using loop_experts_ok [where expert = "moe_experts M", OF route width] by (simp add: moe_local_def)
next
  case (Some kern)
  obtain gate_up activation down uninit where k: "kern = (gate_up, activation, down, uninit)" by (cases kern)
  obtain g f1 f2 where f: "grouped_mm_right (moe_per_rank M) g f1 gate_up" "grouped_mm_right (moe_per_rank M) hidden f2 down"
      "\<And>e. e < moe_per_rank M \<Longrightarrow> moe_experts M e = (\<lambda>x. f2 e (activation (f1 e x)))" "length uninit = length xs * moe_top_k M"
    using kern [OF Some] unfolding kernel_right_def k by auto
  show ?thesis
    using grouped_expert_mlp_ok [OF f(1,2) route range f(4)] routed_row_cong [OF f(3)] Some k by (simp add: moe_local_def)
qed

lemma routed_over_ranks:
  fixes experts :: "nat \<Rightarrow> 'a::comm_semiring_1 list \<Rightarrow> 'a list"
  assumes width: "\<And>e x. length (experts e x) = hidden" and lens: "length es = k" "length ws = k"
    and range: "\<And>e. e \<in> set es \<Longrightarrow> e < w * n" and j: "j < hidden"
  shows "sum_list (map (\<lambda>r. routed_row (\<lambda>l. experts (r * n + l)) (r * n) n hidden x es ws ! j) [0 ..< w]) =
    routed_row experts 0 (w * n) hidden x es ws ! j"
proof -
  have one: "sum_list (map (\<lambda>r. if r * n \<le> e \<and> e < r * n + n then experts (r * n + (e - r * n)) x ! j * v else 0) [0 ..< w]) =
      experts e x ! j * v" if "e < w * n" for e v
  proof -
    have r: "e div n < w" "0 < n" using that by (auto simp: less_mult_imp_div_less intro: gr0I)
    have "r * n \<le> e \<and> e < r * n + n \<longleftrightarrow> r = e div n" for r by (rule block_of_index [OF r(2)])
    moreover from this [of "e div n"] have "e div n * n + (e - e div n * n) = e" by simp
    ultimately show ?thesis
      using sum_list_one_rank [OF r(1), of "\<lambda>r. if r * n \<le> e \<and> e < r * n + n then experts (r * n + (e - r * n)) x ! j * v else 0"]
      by (simp only: if_True if_False simp_thms)
  qed
  have "sum_list (map (\<lambda>r. routed_row (\<lambda>l. experts (r * n + l)) (r * n) n hidden x es ws ! j) [0 ..< w]) =
      sum_list (map (\<lambda>pos. sum_list (map (\<lambda>r. if r * n \<le> es ! pos \<and> es ! pos < r * n + n
        then experts (r * n + (es ! pos - r * n)) x ! j * ws ! pos else 0) [0 ..< w])) [0 ..< k])"
    using sum_list_swap [of "\<lambda>r pos. if r * n \<le> es ! pos \<and> es ! pos < r * n + n
        then experts (r * n + (es ! pos - r * n)) x ! j * ws ! pos else 0" "[0 ..< k]" "[0 ..< w]"]
      routed_row_nth(2) [of "\<lambda>l. experts (r * n + l)" for r, OF width lens j] by simp
  also have "\<dots> = sum_list (map (\<lambda>pos. experts (es ! pos) x ! j * ws ! pos) [0 ..< k])"
    using one range lens(1) by (intro arg_cong [where f = sum_list]) auto
  also have "\<dots> = routed_row experts 0 (w * n) hidden x es ws ! j"
    using routed_row_nth(2) [of experts, OF width lens j, of 0 "w * n"] range lens(1)
    by (auto intro!: arg_cong [where f = sum_list])
  finally show ?thesis .
qed

lemma moe_forward_ok:
  fixes experts :: "nat \<Rightarrow> 'a::comm_semiring_1 list \<Rightarrow> 'a list"
  assumes w: "0 < w" "r < w" and route: "routing_ok (length xs) k (w * n) idx ws" and width: "\<And>e x. length (experts e x) = hidden"
    and shared: "\<And>f x. shared = Some f \<Longrightarrow> length (f x) = hidden"
    and M: "\<And>r. r < w \<Longrightarrow> moe_init (rank_group w r) (w * n) k experts shared = Inr (M r)"
    and kern: "\<And>r kern. r < w \<Longrightarrow> grouped r = Some kern \<Longrightarrow> kernel_right (M r) hidden (length xs * k) kern"
  shows "moe_forward (rank_group w r) (M r) hidden (grouped r) xs idx ws
      (map (\<lambda>r. moe_local (M r) hidden (grouped r) xs idx ws) [0 ..< w]) =
    Inr (map (\<lambda>t. let y = routed_row experts 0 (w * n) hidden (xs ! t) (idx ! t) (ws ! t) in
      case shared of None \<Rightarrow> y | Some f \<Rightarrow> map2 (+) y (f (xs ! t))) [0 ..< length xs])"
proof -
  let ?m = "length xs" and ?full = "\<lambda>t. routed_row experts 0 (w * n) hidden (xs ! t) (idx ! t) (ws ! t)"
  let ?local = "\<lambda>r. map (\<lambda>t. routed_row (\<lambda>l. experts (r * n + l)) (r * n) n hidden (xs ! t) (idx ! t) (ws ! t)) [0 ..< ?m]"
  have sel: "moe_num_experts (M r) = w * n" "moe_per_rank (M r) = n" "moe_start (M r) = r * n" "moe_top_k (M r) = k"
      "moe_experts (M r) = (\<lambda>l. experts (r * n + l))" "moe_shared (M r) = shared" if "r < w" for r
    using M [OF that] that w by (auto simp: moe_init_def split_size_def split: if_splits dest!: sym [of _ "M r"])
  have local: "moe_local (M r) hidden (grouped r) xs idx ws = ?local r" if r: "r < w" for r
    using moe_local_ok [of xs "M r" idx ws hidden "grouped r"] route width slice_of_fits [OF r, of n] kern [OF r] sel [OF r] by simp
  have lens: "length (idx ! t) = k" "length (ws ! t) = k" if "t < ?m" for t
    using route that by (auto simp: routing_ok_def mat_shape_def)
  have in_range: "e < w * n" if "t < ?m" "e \<in> set (idx ! t)" for t e
    using route that by (auto simp: routing_ok_def mat_shape_def)
  have shapes: "mat_shape ?m hidden (?local r)" "mat_shape ?m hidden (map ?full [0 ..< ?m])" for r
    using routed_row_nth(1) [of _ hidden, OF width lens] by (auto simp: mat_shape_def)
  have total: "mat_sum (map ?local [0 ..< w]) = map ?full [0 ..< ?m]"
  proof (rule mat_eqI)
    show "mat_shape ?m hidden (mat_sum (map ?local [0 ..< w]))" by (rule mat_sum_shape) (use w shapes in auto)
    fix t j assume t: "t < ?m" and j: "j < hidden"
    have "mat_sum (map ?local [0 ..< w]) ! t ! j = sum_list (map (\<lambda>r. ?local r ! t ! j) [0 ..< w])"
      using mat_sum_nth [of "map ?local [0 ..< w]" ?m hidden t j] w shapes t j by (auto simp: comp_def)
    also have "\<dots> = ?full t ! j"
      using routed_over_ranks [where experts = experts, OF width lens [OF t] in_range [OF t] j] t by simp
    finally show "mat_sum (map ?local [0 ..< w]) ! t ! j = map ?full [0 ..< ?m] ! t ! j" using t by simp
  qed (rule shapes)
  have every: "map (\<lambda>r. moe_local (M r) hidden (grouped r) xs idx ws) [0 ..< w] = map ?local [0 ..< w]" using local by simp
  have "all_reduce_sum (rank_group w r) (moe_local (M r) hidden (grouped r) xs idx ws)
      (map (\<lambda>r. moe_local (M r) hidden (grouped r) xs idx ws) [0 ..< w]) = Inr (map ?full [0 ..< ?m])"
  proof (cases "w = 1")
    case True
    then show ?thesis using local [OF w(2)] total w(2) by (simp add: all_reduce_sum_def)
  next
    case False
    then show ?thesis using w(2) total unfolding every by (simp add: all_reduce_sum_def)
  qed
  then show ?thesis
    using sel(6) [OF w(2)] by (auto simp: moe_forward_def mat_add_def Let_def intro!: nth_equalityI split: option.split)
qed

end
