(* ===== verification/Parallel_Properties.thy ===== *)
theory Parallel_Properties
  imports Expert_Routing
begin

text \<open>
  Sharded layers against the layers they shard: what every rank returns is what one device would compute.
\<close>

section \<open>Linear layers\<close>

text \<open>C25: a column-parallel layer with gathered output returns on every rank the output of the full
  layer: each rank built it on its own group and loaded its rows of the same weight and bias.\<close>

theorem gathered_column_is_linear:
  fixes W :: "'a::comm_semiring_1 mat"
  assumes "r < w" "weight_fits i (w * n) b0 W b"
    and "\<And>r. r < w \<Longrightarrow> column_layer w r i (w * n) True W0 b0 W b = Inr (L r)"
  shows "column_forward (rank_group w r) (L r) x (map (\<lambda>r. column_local (L r) x) [0 ..< w]) = Inr (linear x W b)"
proof -
  have L: "cl_weight (L r) = slice_of n r W" "cl_bias (L r) = map_option (slice_of n r) b" "cl_gather_output (L r)" if "r < w" for r
    using column_layerD [OF that assms(2) assms(3) [OF that]] by simp_all
  have W: "length W = w * n" "\<And>full. b = Some full \<Longrightarrow> length full = w * n" "0 < w"
    using assms(1,2) by (auto simp: weight_fits_def mat_shape_def)
  have locals: "map (\<lambda>r. column_local (L r) x) [0 ..< w] = map (\<lambda>r. linear x (slice_of n r W) (map_option (slice_of n r) b)) [0 ..< w]"
    using L by (simp add: column_local_def)
  have every: "cat_cols (map (\<lambda>r. column_local (L r) x) [0 ..< w]) = linear x W b"
    unfolding locals by (rule gathered_linear [OF W])
  show ?thesis
  proof (cases "w = 1")
    case True
    then show ?thesis using L [OF assms(1)] W assms(1)
      by (cases b) (simp_all add: column_forward_def all_gather_cols_def column_local_def slice_of_def)
  next
    case False
    then show ?thesis using L(3) [OF assms(1)] assms(1) every by (simp add: column_forward_def all_gather_cols_def)
  qed
qed

definition ex_W :: "int mat" where "ex_W = [[1, 2], [3, 4], [5, 6], [7, 8]]"
definition ex_b :: "int list" where "ex_b = [10, 20, 30, 40]"

definition ex_column :: "nat \<Rightarrow> int column_linear" where
  "ex_column r = projr (column_layer 2 r 2 4 True [] (Some []) ex_W (Some ex_b))"

theorem gathered_column_is_linear_witness:
  "column_forward (rank_group 2 1) (ex_column 1) [[1, 1]] [column_local (ex_column 0) [[1, 1]], column_local (ex_column 1) [[1, 1]]] =
     Inr [[13, 27, 41, 55]]"
proof -
  have fits: "weight_fits 2 (2 * 2) (Some []) ex_W (Some ex_b)" by (simp add: weight_fits_def mat_shape_def ex_W_def ex_b_def)
  have L: "column_layer 2 r 2 (2 * 2) True [] (Some []) ex_W (Some ex_b) = Inr (ex_column r)" if "r < 2" for r
    using column_layer_ok [OF that fits, of True "[]"] by (simp add: ex_column_def)
  have "linear [[1, 1]] ex_W (Some ex_b) = [[13, 27, 41, 55]]" by code_simp
  then show ?thesis using gathered_column_is_linear [OF _ fits L, of 1 "[[1, 1]]"] by (simp add: numeral_2_eq_2)
qed

text \<open>C21: the pairing of the transformer blocks (column-parallel, an activation on each element,
  row-parallel) returns on every rank the output of the two full layers, with one all-reduce.\<close>

theorem column_then_row_is_dense:
  fixes W1 W2 :: "'a::comm_semiring_1 mat"
  assumes "r < w" "weight_fits i (w * n) b1 W1 bias1" "weight_fits (w * n) out b2 W2 bias2" "mat_shape m i x"
    and "\<And>r. r < w \<Longrightarrow> column_layer w r i (w * n) False Wa b1 W1 bias1 = Inr (C r)"
    and "\<And>r. r < w \<Longrightarrow> row_layer w r (w * n) out True Wb b2 W2 bias2 = Inr (R r)"
    and "\<And>r. r < w \<Longrightarrow> column_forward (rank_group w r) (C r) x every1 = Inr (h r)"
  shows "row_forward (rank_group w r) (R r) (map (map act) (h r)) (map (\<lambda>r. row_local (R r) (map (map act) (h r))) [0 ..< w]) =
    Inr (linear (map (map act) (linear x W1 bias1)) W2 bias2)"
proof -
  let ?y = "map (map act) (linear x W1 bias1)"
  have h: "map (map act) (h r) = map (slice_of n r) ?y" if r: "r < w" for r
  proof -
    have "h r = linear x (slice_of n r W1) (map_option (slice_of n r) bias1)"
      using assms(7) [OF r] column_layerD [OF r assms(2) assms(5) [OF r]] by (simp add: column_forward_def column_local_def)
    then show ?thesis
      by (cases bias1) (auto simp: linear_def add_bias_def slice_of_def take_map drop_map take_zip drop_zip)
  qed
  have R: "row_local (R r) (map (map act) (h r)) = row_partial n ?y W2 bias2 r" if r: "r < w" for r
    using row_layerD [OF r assms(3) assms(6) [OF r]]
    unfolding row_local_def row_partial_def h [OF r] by (cases "r = 0") (simp_all only: Let_def simp_thms if_True if_False)
  have W2: "mat_shape out (w * n) W2" "\<And>full. bias2 = Some full \<Longrightarrow> length full = out"
    using assms(3) by (auto simp: weight_fits_def)
  have y: "mat_shape m (w * n) ?y"
    using assms(2,4) by (cases bias1) (auto simp: weight_fits_def mat_shape_def linear_def add_bias_def)
  have locals: "map (\<lambda>r. row_local (R r) (map (map act) (h r))) [0 ..< w] = map (row_partial n ?y W2 bias2) [0 ..< w]" using R by simp
  have every: "mat_sum (map (\<lambda>r. row_local (R r) (map (map act) (h r))) [0 ..< w]) = linear ?y W2 bias2"
    unfolding locals proof (rule reduced_linear [OF W2 y])
    show "0 < w" using assms(1) by linarith
  qed
  show ?thesis
  proof (cases "w = 1")
    case True
    then show ?thesis using every R assms(1) by (simp add: row_forward_def all_reduce_sum_def)
  next
    case False
    then show ?thesis using every assms(1) by (simp add: row_forward_def all_reduce_sum_def)
  qed
qed

definition ex_half :: "nat \<Rightarrow> int column_linear" where
  "ex_half r = projr (column_layer 2 r 2 4 False [] (Some []) ex_W (Some ex_b))"

definition ex_down :: "nat \<Rightarrow> int row_linear" where
  "ex_down r = projr (row_layer 2 r 4 1 True [] None [[1, 1, 1, 1]] None)"

theorem column_then_row_is_dense_witness:
  "\<exists>every. row_forward (rank_group 2 1) (ex_down 1) [[82, 110]] every = Inr [[272]]"
proof -
  have f1: "weight_fits 2 (2 * 2) (Some []) ex_W (Some ex_b)" by (simp add: weight_fits_def mat_shape_def ex_W_def ex_b_def)
  have f2: "weight_fits (2 * 2) 1 None [[1, 1, 1, 1 :: int]] None" by (simp add: weight_fits_def mat_shape_def)
  have C: "column_layer 2 r 2 (2 * 2) False [] (Some []) ex_W (Some ex_b) = Inr (ex_half r)" if "r < 2" for r
    using column_layer_ok [OF that f1, of False "[]"] by (simp add: ex_half_def)
  have R: "row_layer 2 r (2 * 2) 1 True [] None [[1, 1, 1, 1]] None = Inr (ex_down r)" if "r < 2" for r
    using row_layer_ok [OF that f2, of True "[]"] by (simp add: ex_down_def)
  have h: "column_forward (rank_group 2 r) (ex_half r) [[1, 1]] [] = Inr (column_local (ex_half r) [[1, 1]])" if "r < 2" for r
    using column_layerD(3) [OF that f1 C [OF that]] by (simp add: column_forward_def)
  have x: "mat_shape 1 2 [[1, 1 :: int]]" by (simp add: mat_shape_def)
  have "map (map ((*) 2)) (column_local (ex_half 1) [[1, 1]]) = [[82, 110]]"
    "linear (map (map ((*) 2)) (linear [[1, 1]] ex_W (Some ex_b))) [[1, 1, 1, 1]] None = [[272]]" by code_simp+
  then show ?thesis
    using column_then_row_is_dense [where act = "(*) 2", OF _ f1 f2 x C R h, of 1] by auto
qed

section \<open>The embedding\<close>

text \<open>C24: over more than one rank the vocabulary-parallel embedding returns the row of every token id of
  the vocabulary, on every rank; an id outside the vocabulary gives a row of zeros, not an error.\<close>

theorem sharded_embedding_is_lookup:
  fixes W :: "'a::comm_semiring_1 mat"
  assumes "r < w" "1 < w" "0 < n" "mat_shape (w * n) hidden W"
    and "\<And>r. r < w \<Longrightarrow> embedding_layer w r (w * n) hidden W0 W = Inr (L r)"
    and "\<And>r. r < w \<Longrightarrow> embedding_local (L r) ids = Inr (y r)"
  shows "embedding_forward (rank_group w r) (L r) ids (map y [0 ..< w]) =
    Inr (map (\<lambda>t. if 0 \<le> t \<and> t < int (w * n) then W ! nat t else zero_row hidden) ids)"
proof -
  have y: "y r = map (\<lambda>t. masked_row hidden W n t r) ids" if "r < w" for r
    using assms(6) [OF that] embedding_local_ok [OF assms(4) that assms(3) assms(5) [OF that], of ids] by simp
  have "L r = \<lparr>ve_vocab_size = w * n, ve_hidden_size = hidden, ve_world = w, ve_per_rank = n, ve_start = r * n,
         ve_end = r * n + n, ve_weight = slice_of n r W\<rparr>"
    using assms(5) [OF assms(1)] embedding_layer_ok [OF assms(1,4), of W0] by simp
  then have world: "ve_world (L r) = w" by simp
  let ?row = "\<lambda>t. if 0 \<le> t \<and> t < int (w * n) then W ! nat t else zero_row hidden"
  have width: "length (W ! i) = hidden" if "i < w * n" for i using assms(4) that by (auto simp: mat_shape_def)
  have masked: "length (masked_row hidden W n t r) = hidden" if "r < w" for t r
  proof (cases "int (r * n) \<le> t \<and> t < int (r * n + n)")
    case True
    then have "nat t < w * n" using slice_of_fits [OF that, of n] by linarith
    then show ?thesis using True width by (simp add: masked_row_def)
  qed (auto simp: masked_row_def)
  have "mat_sum (map y [0 ..< w]) = map ?row ids"
  proof (rule mat_eqI)
    have shapes: "A \<in> set (map y [0 ..< w]) \<Longrightarrow> mat_shape (length ids) hidden A" for A
      using y masked by (auto simp: mat_shape_def)
    then show "mat_shape (length ids) hidden (mat_sum (map y [0 ..< w]))" by (intro mat_sum_shape) (use assms(2) in auto)
    show "mat_shape (length ids) hidden (map ?row ids)" using width by (auto simp: mat_shape_def zero_row_def nat_less_iff)
    fix i j assume i: "i < length ids" and j: "j < hidden"
    let ?t = "ids ! i"
    have "mat_sum (map y [0 ..< w]) ! i ! j = sum_list (map (\<lambda>r. masked_row hidden W n ?t r ! j) [0 ..< w])"
      using mat_sum_nth [of "map y [0 ..< w]" "length ids" hidden i j] shapes assms(2) i j y
      by (auto simp: comp_def intro!: arg_cong [where f = sum_list])
    also have "\<dots> = ?row ?t ! j"
    proof (cases "0 \<le> ?t \<and> ?t < int (w * n)")
      case True
      define q where "q = nat ?t div n"
      have q: "q < w" using True assms(3) by (simp add: q_def nat_less_iff less_mult_imp_div_less)
      have own: "int (r * n) \<le> ?t \<and> ?t < int (r * n + n) \<longleftrightarrow> r = q" for r
      proof -
        have "int (r * n) \<le> ?t \<and> ?t < int (r * n + n) \<longleftrightarrow> r * n \<le> nat ?t \<and> nat ?t < r * n + n" using True by linarith
        also have "\<dots> \<longleftrightarrow> r = q"
          unfolding q_def by (rule block_of_index [OF assms(3)])
        finally show ?thesis .
      qed
      have "sum_list (map (\<lambda>r. masked_row hidden W n ?t r ! j) [0 ..< w]) = masked_row hidden W n ?t q ! j"
        by (rule sum_list_one_rank [OF q]) (use own j in \<open>simp add: masked_row_def\<close>)
      then show ?thesis using True own [of q] by (simp add: masked_row_def)
    next
      case False
      have "masked_row hidden W n ?t r ! j = 0" if "r < w" for r
      proof -
        have "\<not> (int (r * n) \<le> ?t \<and> ?t < int (r * n + n))" using False slice_of_fits [OF that, of n] by linarith
        then show ?thesis using j by (auto simp: masked_row_def)
      qed
      then have "map (\<lambda>r. masked_row hidden W n ?t r ! j) [0 ..< w] = replicate w 0" by (intro nth_equalityI) simp_all
      then show ?thesis using False j by (auto simp: sum_list_replicate)
    qed
    finally show "mat_sum (map y [0 ..< w]) ! i ! j = map ?row ids ! i ! j" using i by simp
  qed
  then show ?thesis
    using assms(1,2) assms(6) [OF assms(1)] world by (simp add: embedding_forward_def all_reduce_sum_def)
qed

definition ex_table :: "nat \<Rightarrow> int vocab_embedding" where
  "ex_table r = projr (embedding_layer 2 r 4 2 [] ex_W)"

theorem sharded_embedding_is_lookup_witness:
  "\<exists>every. embedding_forward (rank_group 2 0) (ex_table 0) [3, 0, 9] every = Inr [[7, 8], [1, 2], [0, 0]]"
proof -
  have W: "mat_shape (2 * 2) 2 ex_W" by (simp add: mat_shape_def ex_W_def)
  have L: "embedding_layer 2 r (2 * 2) 2 [] ex_W = Inr (ex_table r)" if "r < 2" for r
    using embedding_layer_ok [OF that W, of "[]"] by (simp add: ex_table_def)
  have y: "embedding_local (ex_table r) [3, 0, 9] = Inr (map (\<lambda>t. masked_row 2 ex_W 2 t r) [3, 0, 9])" if "r < 2" for r
    by (rule embedding_local_ok [OF W that _ L [OF that]]) simp
  have "map (\<lambda>t. if 0 \<le> t \<and> t < int (2 * 2) then ex_W ! nat t else zero_row 2) [3, 0, 9] = [[7, 8], [1, 2], [0, 0 :: int]]"
    by (simp add: ex_W_def zero_row_def numeral_2_eq_2)
  then show ?thesis using sharded_embedding_is_lookup [OF _ _ _ W L y, of 0] by auto
qed

section \<open>Attention projections\<close>

text \<open>C23: the merged q, k and v layer gives every rank its own heads of each projection, on either device
  path: side by side over the ranks the outputs are the three separate projections of the full weights.\<close>

theorem merged_qkv_is_three_projections:
  fixes A B C :: "'a::comm_semiring_1 mat"
  assumes "0 < w" "mat_shape (w * (q * dim)) k A" "mat_shape (w * (h * dim)) k B" "mat_shape (w * (h * dim)) k C"
    and "b0 = None \<longleftrightarrow> b = None"
    and "\<And>x y z. b = Some (x, y, z) \<Longrightarrow> length x = w * (q * dim) \<and> length y = w * (h * dim) \<and> length z = w * (h * dim)"
    and "\<And>r. r < w \<Longrightarrow> qkv_layer w r k (w * q) (w * h) dim True W0 b0 (A @ B @ C) (map_option (\<lambda>(x, y, z). x @ y @ z) b) =
      Inr (L r, Z r)"
    and "\<And>r. P r = project cuda (L r) (Z r) x"
  shows "cat_cols (map (\<lambda>r. fst (P r)) [0 ..< w]) = linear x A (map_option fst b) \<and>
    cat_cols (map (\<lambda>r. fst (snd (P r))) [0 ..< w]) = linear x B (map_option (fst \<circ> snd) b) \<and>
    cat_cols (map (\<lambda>r. the (snd (snd (P r)))) [0 ..< w]) = linear x C (map_option (snd \<circ> snd) b)"
proof -
  let ?bq = "map_option fst b" and ?bk = "map_option (fst \<circ> snd) b" and ?bv = "map_option (snd \<circ> snd) b"
  have P: "P r = (linear x (slice_of (q * dim) r A) (map_option (slice_of (q * dim) r) ?bq),
      linear x (slice_of (h * dim) r B) (map_option (slice_of (h * dim) r) ?bk),
      Some (linear x (slice_of (h * dim) r C) (map_option (slice_of (h * dim) r) ?bv)))" if "r < w" for r
    using qkv_layer_ok [OF that assms(1-4) refl refl assms(5,6) assms(7) [OF that], of cuda x]
    unfolding assms(8) by (cases b) (simp_all add: split_beta)
  have parts: "map (\<lambda>r. fst (P r)) [0 ..< w] = map (\<lambda>r. linear x (slice_of (q * dim) r A) (map_option (slice_of (q * dim) r) ?bq)) [0 ..< w]"
    "map (\<lambda>r. fst (snd (P r))) [0 ..< w] = map (\<lambda>r. linear x (slice_of (h * dim) r B) (map_option (slice_of (h * dim) r) ?bk)) [0 ..< w]"
    "map (\<lambda>r. the (snd (snd (P r)))) [0 ..< w] = map (\<lambda>r. linear x (slice_of (h * dim) r C) (map_option (slice_of (h * dim) r) ?bv)) [0 ..< w]"
    using P by simp_all
  have lens: "length A = w * (q * dim)" "length B = w * (h * dim)" "length C = w * (h * dim)"
    using assms(2-4) by (simp_all add: mat_shape_def)
  have biases: "\<And>full. ?bq = Some full \<Longrightarrow> length full = w * (q * dim)" "\<And>full. ?bk = Some full \<Longrightarrow> length full = w * (h * dim)"
    "\<And>full. ?bv = Some full \<Longrightarrow> length full = w * (h * dim)"
    using assms(6) by fastforce+
  show ?thesis
    unfolding parts
    using gathered_linear [where x = x, OF lens(1) biases(1) assms(1)] gathered_linear [where x = x, OF lens(2) biases(2) assms(1)]
      gathered_linear [where x = x, OF lens(3) biases(3) assms(1)] by blast
qed

definition ex_qkv :: "nat \<Rightarrow> int column_linear \<times> qkv_sizes" where
  "ex_qkv r = projr (qkv_layer 2 r 2 4 2 1 True [] None (ex_W @ [[1, 0], [0, 1]] @ [[2, 0], [0, 2]]) None)"

theorem merged_qkv_is_three_projections_witness:
  "cat_cols (map (\<lambda>r. fst (snd (project True (fst (ex_qkv r)) (snd (ex_qkv r)) [[5, 7]]))) [0, 1]) = [[5, 7]]"
proof -
  have ok: "case qkv_layer 2 r 2 4 2 1 True [] None (ex_W @ [[1, 0], [0, 1]] @ [[2, 0], [0, 2]]) None of Inl _ \<Rightarrow> False | Inr _ \<Rightarrow> True"
    if "r < 2" for r
  proof -
    have "r = 0 \<or> r = 1" using that by linarith
    then show ?thesis by (elim disjE) (simp only:, code_simp)+
  qed
  have L: "qkv_layer 2 r 2 (2 * 2) (2 * 1) 1 True [] None (ex_W @ [[1, 0], [0, 1]] @ [[2, 0], [0, 2]])
      (map_option (\<lambda>(x, y, z). x @ y @ z) None) = Inr (fst (ex_qkv r), snd (ex_qkv r))" if "r < 2" for r
    using ok [OF that] by (simp add: ex_qkv_def split: sum.splits)
  have shapes: "mat_shape (2 * (2 * 1)) 2 ex_W" "mat_shape (2 * (1 * 1)) 2 [[1, 0], [0, 1 :: int]]" "mat_shape (2 * (1 * 1)) 2 [[2, 0], [0, 2 :: int]]"
    by (simp_all add: mat_shape_def ex_W_def)
  have "linear [[5, 7 :: int]] [[1, 0], [0, 1]] None = [[5, 7]]" by code_simp
  then show ?thesis
    using merged_qkv_is_three_projections [OF _ shapes _ _ L refl, of True "[[5, 7]]"] by (simp add: numeral_2_eq_2)
qed

section \<open>Routed experts\<close>

text \<open>C22: a mixture-of-experts layer with its experts spread over any number of ranks returns on every
  rank, whether a rank runs its experts in the loop or as grouped matmuls over sorted pairs, the weighted
  sum of the experts each token was routed to, plus the shared expert once.\<close>

theorem experts_over_ranks_are_dense:
  fixes experts :: "nat \<Rightarrow> 'a::comm_semiring_1 list \<Rightarrow> 'a list"
  assumes "0 < w" "r < w" "routing_ok (length xs) k (w * n) idx ws" "\<And>e x. length (experts e x) = hidden"
    and "\<And>f x. shared = Some f \<Longrightarrow> length (f x) = hidden"
    and "\<And>r. r < w \<Longrightarrow> moe_init (rank_group w r) (w * n) k experts shared = Inr (M r)"
    and "\<And>r kern. r < w \<Longrightarrow> grouped r = Some kern \<Longrightarrow> kernel_right (M r) hidden (length xs * k) kern"
  shows "moe_forward (rank_group w r) (M r) hidden (grouped r) xs idx ws
      (map (\<lambda>r. moe_local (M r) hidden (grouped r) xs idx ws) [0 ..< w]) =
    Inr (map (\<lambda>t. let y = row_sum hidden (map2 (\<lambda>e v. scale_row v (experts e (xs ! t))) (idx ! t) (ws ! t)) in
      case shared of None \<Rightarrow> y | Some f \<Rightarrow> map2 (+) y (f (xs ! t))) [0 ..< length xs])"
proof -
  have "routed_row experts 0 (w * n) hidden (xs ! t) (idx ! t) (ws ! t) =
      row_sum hidden (map2 (\<lambda>e v. scale_row v (experts e (xs ! t))) (idx ! t) (ws ! t))" if "t < length xs" for t
  proof -
    have "\<forall>e \<in> set (idx ! t). e < w * n" using assms(3) that by (auto simp: routing_ok_def mat_shape_def)
    then have "map2 (routed_part experts 0 (w * n) hidden (xs ! t)) (idx ! t) (ws ! t) =
        map2 (\<lambda>e v. scale_row v (experts e (xs ! t))) (idx ! t) (ws ! t)"
      by (auto simp: routed_part_def dest: set_zip_leftD)
    then show ?thesis unfolding routed_row_def by (rule arg_cong)
  qed
  then have "map (\<lambda>t. let y = routed_row experts 0 (w * n) hidden (xs ! t) (idx ! t) (ws ! t) in
      case shared of None \<Rightarrow> y | Some f \<Rightarrow> map2 (+) y (f (xs ! t))) [0 ..< length xs] =
    map (\<lambda>t. let y = row_sum hidden (map2 (\<lambda>e v. scale_row v (experts e (xs ! t))) (idx ! t) (ws ! t)) in
      case shared of None \<Rightarrow> y | Some f \<Rightarrow> map2 (+) y (f (xs ! t))) [0 ..< length xs]"
    by (simp add: Let_def cong: option.case_cong)
  moreover have "moe_forward (rank_group w r) (M r) hidden (grouped r) xs idx ws
      (map (\<lambda>r. moe_local (M r) hidden (grouped r) xs idx ws) [0 ..< w]) =
    Inr (map (\<lambda>t. let y = routed_row experts 0 (w * n) hidden (xs ! t) (idx ! t) (ws ! t) in
      case shared of None \<Rightarrow> y | Some f \<Rightarrow> map2 (+) y (f (xs ! t))) [0 ..< length xs])"
    by (rule moe_forward_ok) (rule assms; assumption)+
  ultimately show ?thesis by (simp only:)
qed

text \<open>Three experts on three ranks; the last rank runs a grouped kernel, the others the loop.\<close>

definition ex_experts :: "nat \<Rightarrow> int list \<Rightarrow> int list" where
  "ex_experts e x = [sum_list x + int e, 2 * int e]"

definition ex_mm :: "nat \<Rightarrow> (nat \<Rightarrow> int list \<Rightarrow> int list) \<Rightarrow> int mat \<Rightarrow> nat list \<Rightarrow> int mat" where
  "ex_mm width f rows offs =
     map (\<lambda>i. case find (\<lambda>e. i < offs ! e) [0 ..< length offs] of Some e \<Rightarrow> f e (rows ! i) | None \<Rightarrow> replicate width 7) [0 ..< length rows]"

lemma ex_mm_right:
  assumes "\<And>e x. length (f e x) = width"
  shows "grouped_mm_right n width f (ex_mm width f)"
proof -
  have found: "find (\<lambda>e. i < offs ! e) [0 ..< n] = Some e"
    if "sorted offs" "length offs = n" "e < n" "e = 0 \<or> offs ! (e - 1) \<le> i" "i < offs ! e" for offs e i
  proof -
    have "\<not> i < offs ! d" if d: "d < e" for d
    proof -
      have "offs ! d \<le> offs ! (e - 1)"
        using sorted_nth_mono [OF \<open>sorted offs\<close>, of d "e - 1"] d \<open>length offs = n\<close> \<open>e < n\<close> by linarith
      then show ?thesis using d \<open>e = 0 \<or> offs ! (e - 1) \<le> i\<close> by auto
    qed
    then show ?thesis using that(3,5) by (auto simp: find_Some_iff intro!: exI [of _ e])
  qed
  show ?thesis
    unfolding grouped_mm_right_def
  proof (intro allI impI conjI ballI)
    fix rows :: "int mat" and offs :: "nat list" assume o: "length offs = n \<and> sorted offs"
    show "length (ex_mm width f rows offs) = length rows" by (simp add: ex_mm_def)
    show "length row = width" if "row \<in> set (ex_mm width f rows offs)" for row
      using that assms by (auto simp: ex_mm_def split: option.splits)
    fix e i assume "e < n" "i < length rows" "(e = 0 \<or> offs ! (e - 1) \<le> i) \<and> i < offs ! e"
    then show "ex_mm width f rows offs ! i = f e (rows ! i)" using found [of offs e i] o by (simp add: ex_mm_def)
  qed
qed

definition ex_moe :: "nat \<Rightarrow> int moe_ffn" where
  "ex_moe r = projr (moe_init (rank_group 3 r) 3 2 ex_experts (Some (\<lambda>x. [hd x, hd (tl x)])))"

definition ex_kern :: "nat \<Rightarrow> int grouped_kernel option" where
  "ex_kern r = (if r = 2 then Some (ex_mm 2 (\<lambda>e x. ex_experts (2 + e) x), id, ex_mm 2 (\<lambda>e x. [hd x, hd (tl x)]), replicate 4 []) else None)"

theorem experts_over_ranks_are_dense_witness:
  "\<exists>every. moe_forward (rank_group 3 2) (ex_moe 2) 2 (ex_kern 2) [[1, 1], [4, 5]] [[0, 2], [1, 2]] [[10, 1], [2, 3]] every =
     Inr [[25, 5], [57, 21]]"
proof -
  have route: "routing_ok (length [[1, 1], [4, 5 :: int]]) 2 (3 * 1) [[0, 2], [1, 2]] [[10, 1], [2, 3 :: int]]"
    by (simp add: routing_ok_def mat_shape_def)
  have M: "moe_init (rank_group 3 r) (3 * 1) 2 ex_experts (Some (\<lambda>x. [hd x, hd (tl x)])) = Inr (ex_moe r)" if "r < 3" for r
    using that by (simp add: ex_moe_def moe_init_def split_size_def)
  have experts: "length (ex_experts e x) = 2" for e x by (simp add: ex_experts_def)
  have "kernel_right (ex_moe r) 2 (length [[1, 1], [4, 5 :: int]] * 2) kern" if "r < 3" "ex_kern r = Some kern" for r kern
  proof -
    have r: "r = 2" and kern: "kern = (ex_mm 2 (\<lambda>e x. ex_experts (2 + e) x), id, ex_mm 2 (\<lambda>e x. [hd x, hd (tl x)]), replicate 4 [])"
      using that(2) by (auto simp: ex_kern_def split: if_splits)
    have sel: "moe_per_rank (ex_moe 2) = 1" "moe_experts (ex_moe 2) = (\<lambda>l. ex_experts (2 + l))"
      by (simp_all add: ex_moe_def moe_init_def split_size_def)
    have mm: "grouped_mm_right 1 2 (\<lambda>e x. ex_experts (2 + e) x) (ex_mm 2 (\<lambda>e x. ex_experts (2 + e) x))"
      "grouped_mm_right 1 2 (\<lambda>e x. [hd x, hd (tl x)]) (ex_mm 2 (\<lambda>e x. [hd x, hd (tl x)]))"
      by (rule ex_mm_right, simp add: ex_experts_def)+
    have id: "ex_experts (2 + e) = (\<lambda>x. [hd (id (ex_experts (2 + e) x)), hd (tl (id (ex_experts (2 + e) x)))])" for e
      by (simp add: fun_eq_iff ex_experts_def)
    show ?thesis
      unfolding kernel_right_def r kern prod.case sel
      by (rule exI [of _ 2], rule exI [of _ "\<lambda>e x. ex_experts (2 + e) x"], rule exI [of _ "\<lambda>e x. [hd x, hd (tl x)]"])
        (intro conjI allI impI, rule mm, rule mm, rule id, simp)
  qed
  note kern = this
  have "Inr (map (\<lambda>t. let y = row_sum 2 (map2 (\<lambda>e v. scale_row v (ex_experts e ([[1, 1], [4, 5]] ! t))) ([[0, 2], [1, 2]] ! t) ([[10, 1], [2, 3]] ! t))
      in case Some (\<lambda>x. [hd x, hd (tl x)]) of None \<Rightarrow> y | Some f \<Rightarrow> map2 (+) y (f ([[1, 1], [4, 5]] ! t))) [0 ..< length [[1, 1], [4, 5 :: int]]]) =
    (Inr [[25, 5], [57, 21]] :: int mat res)" by code_simp
  moreover have "\<exists>every. moe_forward (rank_group 3 2) (ex_moe 2) 2 (ex_kern 2) [[1, 1], [4, 5]] [[0, 2], [1, 2]] [[10, 1], [2, 3]] every =
     Inr (map (\<lambda>t. let y = row_sum 2 (map2 (\<lambda>e v. scale_row v (ex_experts e ([[1, 1], [4, 5]] ! t))) ([[0, 2], [1, 2]] ! t) ([[10, 1], [2, 3]] ! t))
      in case Some (\<lambda>x. [hd x, hd (tl x)]) of None \<Rightarrow> y | Some f \<Rightarrow> map2 (+) y (f ([[1, 1], [4, 5]] ! t))) [0 ..< length [[1, 1], [4, 5 :: int]]])"
  proof (rule exI, rule experts_over_ranks_are_dense [where w = 3 and r = 2 and grouped = ex_kern and shared = "Some (\<lambda>x. [hd x, hd (tl x)])" and experts = ex_experts, OF _ _ route experts _ M kern])
  qed auto
  ultimately show ?thesis by (simp only:)
qed

end
