(* ===== verification/Speculative_Runner.thy ===== *)
theory Speculative_Runner
  imports Engine_Contracts
begin

text \<open>
  \<open>engine/speculative.py\<close>: greedy speculative decoding of one request with a draft and a target model,
  each with its own runner, pool and cache. The state of a run is the pair of the two caches with their
  pools. \<open>argmax\<close> of a logits row is torch code and an argument per model.
\<close>

section \<open>The two caches of a run\<close>

definition on_target :: "('s, 'a) act \<Rightarrow> ('s \<times> 't, 'a) act" where
  "on_target m = (\<lambda>(t, d). case m t of (r, t') \<Rightarrow> (r, (t', d)))"

definition on_draft :: "('t, 'a) act \<Rightarrow> ('s \<times> 't, 'a) act" where
  "on_draft m = (\<lambda>(t, d). case m d of (r, d') \<Rightarrow> (r, (t, d')))"

record ('v, 'lg, 'c, 'w, 'lh, 'd) spec_runner =
  sr_target :: "('v, 'lg, 'c) runner"
  sr_target_pick :: "'lg \<Rightarrow> token"
  sr_draft :: "('w, 'lh, 'd) runner"
  sr_draft_pick :: "'lh \<Rightarrow> token"
  sr_K :: nat

definition spec_runner_init ::
  "('v, 'lg, 'c) runner \<Rightarrow> ('lg \<Rightarrow> token) \<Rightarrow> nat \<Rightarrow> ('w, 'lh, 'd) runner \<Rightarrow> ('lh \<Rightarrow> token) \<Rightarrow> nat \<Rightarrow> int
    \<Rightarrow> ('v, 'lg, 'c, 'w, 'lh, 'd) spec_runner res" where
  "spec_runner_init target target_pick target_vocab draft draft_pick draft_vocab K =
     (if K < 1 then Inl ValueError
      else if target_vocab \<noteq> draft_vocab then Inl ValueError
      else Inr \<lparr>sr_target = target, sr_target_pick = target_pick, sr_draft = draft, sr_draft_pick = draft_pick, sr_K = nat K\<rparr>)"

record spec_stats =
  n_iterations :: nat
  n_target_forwards :: nat
  n_draft_forwards :: nat
  n_accepted_total :: nat
  n_emitted_total :: nat

definition spec_stats_init :: spec_stats where
  "spec_stats_init = \<lparr>n_iterations = 0, n_target_forwards = 0, n_draft_forwards = 0, n_accepted_total = 0, n_emitted_total = 0\<rparr>"

definition mean_acceptance_per_iter :: "spec_stats \<Rightarrow> rat" where
  "mean_acceptance_per_iter st = (if n_iterations st = 0 then 0 else of_nat (n_accepted_total st) / of_nat (n_iterations st))"

section \<open>One round\<close>

text \<open>The draft phase: serial decode steps from \<open>current\<close> at position \<open>pos\<close>.\<close>

fun draft_phase :: "('w, 'lh, 'd) runner \<Rightarrow> ('lh \<Rightarrow> token) \<Rightarrow> nat \<Rightarrow> nat \<Rightarrow> token \<Rightarrow> ('w kvs, token list) act" where
  "draft_phase N pick 0 pos current = ret []"
| "draft_phase N pick (Suc k) pos current =
     seq (forward_step N [current] [0, 1] [pos])
       (\<lambda>rows. case nth_res rows 0 of Inl e \<Rightarrow> raise e
         | Inr row \<Rightarrow> seq (draft_phase N pick k (Suc pos) (pick row)) (\<lambda>ds. ret (pick row # ds)))"

text \<open>How many candidates the target agrees with, from the left.\<close>

fun accept_count :: "token list \<Rightarrow> token list \<Rightarrow> nat" where
  "accept_count (t # ts) (d # ds) = (if t = d then Suc (accept_count ts ds) else 0)"
| "accept_count _ _ = 0"

text \<open>The tokens up to the first EOS, with it.\<close>

fun cut_at_eos :: "token \<Rightarrow> token list \<Rightarrow> token list" where
  "cut_at_eos eos [] = []"
| "cut_at_eos eos (t # ts) = t # (if t = eos then [] else cut_at_eos eos ts)"

text \<open>The draft cache after a round: cut back, or one more token when every candidate was accepted. The
  result is the number of forwards.\<close>

definition fix_draft :: "('w, 'lh, 'd) runner \<Rightarrow> nat \<Rightarrow> token list \<Rightarrow> nat \<Rightarrow> ('w kvs, nat) act" where
  "fix_draft N b drafts new_seq = (\<lambda>(c, P).
     case nth_res (num_tokens c) b of Inl e \<Rightarrow> (Inl e, (c, P)) | Inr now \<Rightarrow>
       if new_seq \<le> now then seq (truncate_to b (int new_seq)) (\<lambda>_. ret 0) (c, P)
       else if new_seq \<noteq> now + 1 then (Inl AssertionError, (c, P))
       else if drafts = [] then (Inl IndexError, (c, P))
       else seq (forward_step N [last drafts] [0, 1] [now]) (\<lambda>_. ret 1) (c, P))"

text \<open>After the verify forward: accept, emit, and bring both caches to the accepted history. The result is
  the tokens and counters so far, and the next last token with the length of the caches, or \<open>None\<close> when
  the loop breaks.\<close>

definition settle_round ::
  "('v, 'lg, 'c, 'w, 'lh, 'd) spec_runner \<Rightarrow> token \<Rightarrow> nat \<Rightarrow> nat \<Rightarrow> nat \<Rightarrow> token list \<Rightarrow> 'lg list \<Rightarrow> nat \<Rightarrow> token list \<Rightarrow> spec_stats
    \<Rightarrow> ('v kvs \<times> 'w kvs, token list \<times> spec_stats \<times> (token \<times> nat) option) act" where
  "settle_round R eos limit tb db drafts rows cache_seq generated st =
     (let targets = map (sr_target_pick R) rows;
          accepted = accept_count targets drafts
      in case nth_res targets accepted of Inl e \<Rightarrow> raise e | Inr bonus \<Rightarrow>
        let planned = take (limit - length generated) (take accepted drafts @ [bonus]);
            emitted = cut_at_eos eos planned;
            generated' = generated @ emitted;
            st' = st\<lparr>n_iterations := n_iterations st + 1, n_target_forwards := n_target_forwards st + 1,
                     n_draft_forwards := n_draft_forwards st + sr_K R,
                     n_accepted_total := n_accepted_total st + accepted,
                     n_emitted_total := n_emitted_total st + length emitted\<rparr>
        in if eos \<in> set planned \<or> limit \<le> length generated' then ret (generated', st', None)
           else let new_seq = cache_seq + length emitted in
             seq (on_target (truncate_to tb (int new_seq))) (\<lambda>_.
             seq (on_draft (fix_draft (sr_draft R) db drafts new_seq)) (\<lambda>forwards.
             ret (generated', st'\<lparr>n_draft_forwards := n_draft_forwards st' + forwards\<rparr>, Some (bonus, new_seq)))))"

text \<open>One turn of the loop.\<close>

definition spec_round ::
  "('v, 'lg, 'c, 'w, 'lh, 'd) spec_runner \<Rightarrow> token \<Rightarrow> nat \<Rightarrow> nat \<Rightarrow> nat \<Rightarrow> token \<Rightarrow> nat \<Rightarrow> token list \<Rightarrow> spec_stats
    \<Rightarrow> ('v kvs \<times> 'w kvs, token list \<times> spec_stats \<times> (token \<times> nat) option) act" where
  "spec_round R eos limit tb db last_token cache_seq generated st =
     seq (on_draft (draft_phase (sr_draft R) (sr_draft_pick R) (sr_K R) cache_seq last_token)) (\<lambda>drafts.
     seq (on_target (forward_step_packed (sr_target R) (Host_Ids (last_token # drafts)) [0, sr_K R + 1] [cache_seq] None False))
       (\<lambda>out. settle_round R eos limit tb db drafts (fst out) cache_seq generated st))"

section \<open>The loop and the run\<close>

lemma cut_at_eos_Nil: "cut_at_eos eos ts = [] \<longleftrightarrow> ts = []"
  by (cases ts) simp_all

lemma spec_round_grows:
  assumes "spec_round R eos m tb db last_token cs gen st s = (Inr (gen', st', nx), s')" "length gen < m"
  shows "length gen < length gen'"
proof -
  have "cut_at_eos eos (take (m - length gen) (xs @ [b])) \<noteq> []" for xs b
    using assms(2) by (simp add: cut_at_eos_Nil)
  then show ?thesis
    using assms(1)
    by (auto simp: spec_round_def settle_round_def seq_def ret_def raise_def Let_def simp del: take_append split: prod.splits sum.splits if_splits)
qed

function spec_loop ::
  "('v, 'lg, 'c, 'w, 'lh, 'd) spec_runner \<Rightarrow> token \<Rightarrow> nat \<Rightarrow> nat \<Rightarrow> nat \<Rightarrow> token \<Rightarrow> nat \<Rightarrow> token list \<Rightarrow> spec_stats
    \<Rightarrow> ('v kvs \<times> 'w kvs, token list \<times> spec_stats) act" where
  "spec_loop R eos limit tb db last_token cache_seq generated st s =
     (if length generated < limit then
        (case spec_round R eos limit tb db last_token cache_seq generated st s of
           (Inl e, s') \<Rightarrow> (Inl e, s')
         | (Inr (generated', st', None), s') \<Rightarrow> (Inr (generated', st'), s')
         | (Inr (generated', st', Some (last', cache_seq')), s') \<Rightarrow>
             spec_loop R eos limit tb db last' cache_seq' generated' st' s')
      else (Inr (generated, st), s))"
  by pat_completeness auto

termination
proof (relation "measure (\<lambda>(R, eos, m, tb, db, last_token, cs, gen, st, s). m - length gen)", goal_cases)
  case (2 R eos m tb db last_token cs gen)
  then show ?case by (force dest: spec_round_grows [OF sym] intro: diff_less_mono2)
qed simp

declare spec_loop.simps [simp del]

text \<open>The body of the \<open>try\<close> block: the first token is the target's, then the loop.\<close>

definition spec_start ::
  "('v, 'lg, 'c, 'w, 'lh, 'd) spec_runner \<Rightarrow> token \<Rightarrow> nat \<Rightarrow> token list \<Rightarrow> nat \<Rightarrow> nat \<Rightarrow> 'lg list
    \<Rightarrow> ('v kvs \<times> 'w kvs, token list \<times> spec_stats) act" where
  "spec_start R eos limit prompt_ids tb db rows =
     (if rows = [] then raise IndexError
      else let first = sr_target_pick R (last rows);
               st = spec_stats_init\<lparr>n_target_forwards := 1, n_draft_forwards := 1\<rparr>
           in if first = eos \<or> limit \<le> 1 then ret (take limit [first], st)
              else seq (spec_loop R eos limit tb db first (length prompt_ids) [first] st)
                (\<lambda>out. ret (take limit (fst out), snd out)))"

definition spec_body ::
  "('v, 'lg, 'c, 'w, 'lh, 'd) spec_runner \<Rightarrow> token \<Rightarrow> nat \<Rightarrow> token list \<Rightarrow> nat \<Rightarrow> nat
    \<Rightarrow> ('v kvs \<times> 'w kvs, token list \<times> spec_stats) act" where
  "spec_body R eos limit prompt_ids tb db =
     seq (on_target (forward_step_packed (sr_target R) (Host_Ids prompt_ids) [0, length prompt_ids] [0] None False)) (\<lambda>out.
     seq (on_draft (forward_step (sr_draft R) prompt_ids [0, length prompt_ids] [0])) (\<lambda>_.
     spec_start R eos limit prompt_ids tb db (fst out)))"

text \<open>The whole run, on the two pools.\<close>

definition free_both :: "('v kvs \<times> 'w kvs, unit) act" where
  "free_both = seq (on_target free_cache) (\<lambda>_. on_draft free_cache)"

definition finally_do :: "('s, 'a) act \<Rightarrow> ('s, unit) act \<Rightarrow> ('s, 'a) act" where
  "finally_do body cleanup = (\<lambda>s. case body s of (r, s') \<Rightarrow>
     (case cleanup s' of (Inl e, s'') \<Rightarrow> (Inl e, s'') | (Inr _, s'') \<Rightarrow> (r, s'')))"

definition run_greedy ::
  "('v, 'lg, 'c, 'w, 'lh, 'd) spec_runner \<Rightarrow> tokenizer \<Rightarrow> string \<Rightarrow> int \<Rightarrow> ('v pool \<times> 'w pool, token list \<times> spec_stats) act" where
  "run_greedy R tok prompt limit = (\<lambda>(P, Q).
     if limit < 1 then (Inr ([], spec_stats_init), (P, Q))
     else let prompt_ids = tok_encode tok prompt in
       if prompt_ids = [] then (Inr ([], spec_stats_init), (P, Q))
       else (case seq (on_target (add_request_slot (env_digest (rn_env (sr_target R))) None)) (\<lambda>tb.
                  seq (on_draft (add_request_slot (env_digest (rn_env (sr_draft R))) None)) (\<lambda>db.
                  finally_do (spec_body R (eos_token_id tok) (nat limit) prompt_ids tb db) free_both))
               ((kvcache_init 0, P), (kvcache_init 0, Q)) of
               (r, ((_, P'), (_, Q'))) \<Rightarrow> (r, (P', Q'))))"

end
