(* ===== verification/Solo_Session.thy ===== *)
theory Solo_Session
  imports Engine_Contracts
begin

text \<open>
  A cache with a single slot and no prompt, on a pool that others may share: what the runners that serve
  one request alone need. \<open>R\<close> holds the blocks of the others, \<open>h\<close> is the history of the slot.
\<close>

definition pool_ready ::
  "('v, 'lg, 'c) runner \<Rightarrow> 'v pool \<Rightarrow> digest \<Rightarrow> token list set \<Rightarrow> nat multiset \<Rightarrow> 'v pool \<Rightarrow> bool" where
  "pool_ready N P0 digest U R P \<longleftrightarrow> runner_fits N digest P0 \<and> [] \<in> U \<and>
     after_step (lm_rows (rn_model N) P0) digest U R [] P0 (kvcache_init 0, P)"

definition solo_ok ::
  "('v, 'lg, 'c) runner \<Rightarrow> 'v pool \<Rightarrow> digest \<Rightarrow> token list set \<Rightarrow> nat multiset \<Rightarrow> token list \<Rightarrow> 'v kvs \<Rightarrow> bool" where
  "solo_ok N P0 digest U R h s \<longleftrightarrow> runner_fits N digest P0 \<and> [] \<in> U \<and>
     after_step (lm_rows (rn_model N) P0) digest U R [h] P0 s \<and> slot_prompt_tokens (fst s) = [[]]"

text \<open>A state that \<open>free\<close> turns back into a pool that is ready.\<close>

definition freeable ::
  "('v, 'lg, 'c) runner \<Rightarrow> 'v pool \<Rightarrow> digest \<Rightarrow> token list set \<Rightarrow> nat multiset \<Rightarrow> 'v kvs \<Rightarrow> bool" where
  "freeable N P0 digest U R s \<longleftrightarrow> (\<exists>c' P'. free_cache s = (Inr (), (c', P')) \<and> pool_ready N P0 digest U R P')"

text \<open>The pool alone can hold \<open>n\<close> tokens.\<close>

definition holds_tokens :: "'v pool \<Rightarrow> nat multiset \<Rightarrow> nat \<Rightarrow> bool" where
  "holds_tokens P0 R n \<longleftrightarrow> R = {#} \<and> blocks_for (block_size P0) n \<le> num_blocks P0"

lemma holds_tokens_mono:
  assumes "holds_tokens P0 R n" "m \<le> n"
  shows "holds_tokens P0 R m"
proof -
  have "(m + block_size P0 - 1) div block_size P0 \<le> (n + block_size P0 - 1) div block_size P0"
    by (rule div_le_mono) (use assms(2) in simp)
  then show ?thesis using assms(1) by (simp add: holds_tokens_def blocks_for_def)
qed

lemma solo_okD:
  assumes "solo_ok N P0 digest U R h (c, P)"
  shows "after_step (lm_rows (rn_model N) P0) digest U R [h] P0 (c, P)" "batch_size c = 1" "num_tokens c = [length h]"
    "slot_prompt_tokens c = [[]]" "slot_num_published c ! 0 = 0" "kv_inv digest (c, P) R" "runner_fits N digest P0" "[] \<in> U"
    "block_size P = block_size P0" "num_blocks P = num_blocks P0"
proof -
  have a: "after_step (lm_rows (rn_model N) P0) digest U R [h] P0 (c, P)" and p: "slot_prompt_tokens c = [[]]"
    and rest: "runner_fits N digest P0" "[] \<in> U"
    using assms by (simp_all add: solo_ok_def)
  then have inv: "kv_inv digest (c, P) R" and b: "batch_size c = 1"
      and ho: "hist_ok U [h] c" and cfg: "pool_cfg P = pool_cfg P0"
    by (simp_all add: after_step_def content_def hist_ok_def)
  have n: "num_tokens c ! 0 = length h" using ho b by (simp add: hist_ok_def)
  have "slot_at digest P c 0" using kv_invD(3) [OF inv] b by simp
  then have "slot_num_published c ! 0 \<le> 0" using p by (simp add: slot_at_def slot_ok_def)
  moreover have "num_tokens c = [length h]"
    using b n by (intro nth_equalityI) (simp_all add: batch_size_def)
  ultimately show "slot_num_published c ! 0 = 0" "num_tokens c = [length h]" by simp_all
  show "block_size P = block_size P0" "num_blocks P = num_blocks P0" using pool_cfgD [OF cfg] by simp_all
  show "batch_size c = 1" "kv_inv digest (c, P) R" by (fact b, fact inv)
qed (use assms in \<open>simp_all add: solo_ok_def\<close>)

lemma solo_join:
  assumes "pool_ready N P0 digest U R P"
  shows "\<exists>s'. add_request_slot digest None (kvcache_init 0, P) = (Inr 0, s') \<and> solo_ok N P0 digest U R [] s'"
proof -
  have a: "after_step (lm_rows (rn_model N) P0) digest U R [] P0 (kvcache_init 0, P)" and U: "[] \<in> U"
    and fits: "runner_fits N digest P0"
    using assms by (simp_all add: pool_ready_def)
  let ?c = "append_slot [] (kvcache_init 0 :: 'a kvcache)"
  have add: "add_request_slot digest p (kvcache_init 0, P) = (Inr 0, (?c, P))" if "prompt_of p = []" for p
    using that by (simp add: add_request_slot_def append_slot_def batch_size_def kvcache_init_def Let_def split: option.split)
  have "num_tokens ?c = [0]" "slot_prompt_tokens ?c = [[]]" by (simp_all add: append_slot_def kvcache_init_def)
  then have "solo_ok N P0 digest U R [] (?c, P)"
    using add_request_right [OF a U, of "Inr 0" ?c P] add [of "Some []"] fits U by (simp add: solo_ok_def prompt_of_def)
  then show ?thesis using add [of None] by (simp add: prompt_of_def)
qed

lemma ready_after_free:
  assumes a: "after_step (lm_rows (rn_model N) P0) digest U R h P0 (c, P)" and fits: "runner_fits N digest P0" "[] \<in> U"
    and inv: "kv_inv digest (c1, P1) R"
    and P1: "pool_frame P1 = pool_frame P" "\<And>x. pkey P1 x = None \<or> pkey P1 x = pkey P x"
  shows "freeable N P0 digest U R (c1, P1)"
proof -
  obtain c' P' where f: "free_cache (c1, P1) = (Inr (), (c', P'))" "kv_inv digest (c', P') R" "held c' = {#}"
      "pkey P' = pkey P1" "pool_frame P' = pool_frame P1"
    using free_cache_ok [OF inv] by blast
  have fr: "pool_frame P' = pool_frame P" using f(5) P1(1) by simp
  have "pool_right (lm_rows (rn_model N) P0) digest U P'"
    by (rule pool_right_cong [of _ _ _ P]) (use a f(4) P1(2) pool_frameD [OF fr] in \<open>auto simp: after_step_def content_def\<close>)
  moreover have "pool_inv P' R" using kv_invD(2) [OF f(2)] f(3) by simp
  then have "kv_inv digest (kvcache_init 0, P') R" by (rule kv_inv_init)
  moreover have "pool_cfg P' = pool_cfg P0" using pool_cfg_frame [OF fr] a by (simp add: after_step_def)
  ultimately have "pool_ready N P0 digest U R P'"
    using fits by (simp add: pool_ready_def after_step_def content_def hist_ok_def batch_size_def kvcache_init_def index_ok_def layer_right_def)
  then show ?thesis using f(1) by (auto simp: freeable_def)
qed

lemma solo_freeable:
  assumes "solo_ok N P0 digest U R h s"
  shows "freeable N P0 digest U R s"
proof -
  obtain c P where s: "s = (c, P)" by (cases s)
  note d = solo_okD [OF assms [unfolded s]]
  show ?thesis unfolding s by (rule ready_after_free [OF d(1,7,8,6)]) simp_all
qed

lemma solo_truncate:
  assumes ok: "solo_ok N P0 digest U R h s" and m: "m \<le> length h"
  shows "\<exists>s'. truncate_to 0 (int m) s = (Inr (), s') \<and> solo_ok N P0 digest U R (take m h) s'"
proof -
  obtain c P where s: "s = (c, P)" by (cases s)
  note d = solo_okD [OF ok [unfolded s]]
  obtain s' where t: "truncate_to 0 (int m) (c, P) = (Inr (), s')"
      "after_step (lm_rows (rn_model N) P0) digest U R ([h][0 := take m h]) P0 s'"
    using truncate_right [OF d(1), of 0 m] d(2,3,5) m by auto
  have "slot_prompt_tokens (fst s') = slot_prompt_tokens c"
    using truncate_to_ok [OF d(6), of 0 m] d(2,3,5) m t(1) by auto
  then show ?thesis using t d by (auto simp: s solo_ok_def)
qed

text \<open>The forward of the slot: the logits of the new tokens, or out of memory in a pool too small for
  the whole history.\<close>

lemma solo_forward:
  assumes ok: "solo_ok N P0 digest U R h s" and ne: "new \<noteq> []"
  shows "(\<exists>sink s'. forward_step_packed N (Host_Ids new) [0, length new] [length h] None lr s =
        (Inr (step_logits (rn_model N) P0 [h] [new] lr, sink), s') \<and> solo_ok N P0 digest U R (h @ new) s') \<or>
    \<not> holds_tokens P0 R (length h + length new) \<and>
    (\<exists>s1. forward_step_packed N (Host_Ids new) [0, length new] [length h] None lr s = (Inl OutOfMemoryError, s1) \<and>
       freeable N P0 digest U R s1)"
proof -
  obtain c P where s: "s = (c, P)" by (cases s)
  note d = solo_okD [OF ok [unfolded s]]
  let ?f = "forward_step_packed N (Host_Ids new) [0, length new] [length h] None lr (c, P)"
  have cu: "sums_from 0 (map length [new]) = [0, length new]" by simp
  have tok: "step_tokens_ok [h] [new] c" using d(2,4) by (simp add: step_tokens_ok_def)
  have eq: "?f = eager_forward N (concat [new]) (sums_from 0 (map length [new])) (map length [h]) None lr (c, P)"
    using d(2,7) by (simp add: forward_step_packed_def prefill_or_eager_def runner_fits_def input_tokens_def device_count_ok_def)
  show ?thesis
  proof (cases "total_need (block_size P) (sums_from 0 (map length [new])) c 0 \<le> available P")
    case True
    obtain s' where f: "?f = (Inr (step_logits (rn_model N) P0 [h] [new] lr,
          sink_rows (rn_model N) P0 [h] [new] {} (num_layers P0)), s')"
        "after_step (lm_rows (rn_model N) P0) digest U R [h @ new] P0 s'"
      using eager_rows [OF d(1,7) tok _ True, of None lr] ne by (auto simp: eq)
    have q: "kv_quant P = None" "static_step c = None"
      using d(1,7) pool_cfgD(3) [of P P0] by (auto simp: after_step_def runner_fits_def lm_fits_def)
    have "slot_prompt_tokens (fst s') = [[]]"
      using forward_keeps_prompts [OF d(7) q f(1)] d(4) by (simp add: plain_frame_def)
    then show ?thesis using f d(7,8) s by (auto simp: solo_ok_def)
  next
    case False
    then have oom: "available P < total_need (block_size P) (sums_from 0 (map length [new])) c 0" by simp
    obtain s1 where f: "?f = (Inl OutOfMemoryError, s1)" "half_grown digest R (c, P) s1"
      using eager_oom [OF d(1,7) _ oom, of None lr] d(2) by (auto simp: eq)
    have "freeable N P0 digest U R s1"
      using f(2) ready_after_free [OF d(1,7,8), of "fst s1" "snd s1"] by (simp add: half_grown_def cells_kept_def)
    moreover have "\<not> holds_tokens P0 R (length h + length new)"
    proof
      assume "holds_tokens P0 R (length h + length new)"
      then have R: "R = {#}" and fit: "blocks_for (block_size P) (length h + length new) \<le> num_blocks P"
        using d(9,10) by (simp_all add: holds_tokens_def)
      have "length (block_ids c) = 1" using kv_invD(1) [OF d(6)] d(2) by (simp add: aligned_def)
      then obtain ids where ids: "block_ids c = [ids]" by (cases "block_ids c") auto
      have "available P + card (set ids) = num_blocks P"
        using blocks_conserved [OF kv_invD(2) [OF d(6)]] R ids by (simp add: held_def)
      moreover have "card (set ids) \<le> length ids" by (rule card_length)
      moreover have "total_need (block_size P) [0, length new] c 0 =
          blocks_for (block_size P) (length h + length new) - length ids"
        using d(2,3) ids by (simp add: total_need_def need_def new_tokens_def)
      ultimately show False using oom fit by simp
    qed
    ultimately show ?thesis using f(1) s by blast
  qed
qed

text \<open>The convenience wrapper: one row, of the last token.\<close>

lemma solo_forward_step:
  assumes ok: "solo_ok N P0 digest U R h s" and ne: "new \<noteq> []"
  shows "(\<exists>s'. forward_step N new [0, length new] [length h] s = (Inr [next_logits (rn_model N) P0 (h @ new)], s') \<and>
      solo_ok N P0 digest U R (h @ new) s') \<or>
    \<not> holds_tokens P0 R (length h + length new) \<and>
    (\<exists>s1. forward_step N new [0, length new] [length h] s = (Inl OutOfMemoryError, s1) \<and> freeable N P0 digest U R s1)"
  using solo_forward [OF assms, of True]
proof (elim disjE exE conjE)
  fix sink s' assume f: "forward_step_packed N (Host_Ids new) [0, length new] [length h] None True s =
        (Inr (step_logits (rn_model N) P0 [h] [new] True, sink), s')" and ok': "solo_ok N P0 digest U R (h @ new) s'"
  obtain c' P' where s': "s' = (c', P')" by (cases s')
  have "batch_size c' = 1" using solo_okD(2) ok' s' by blast
  then show ?thesis using f ok' s'
    by (intro disjI1 exI [of _ s']) (simp add: forward_step_def seq_def step_logits_def nth_res_def)
qed (auto simp: forward_step_def seq_def)

text \<open>All rows: row \<open>j\<close> is the prediction after the first \<open>j + 1\<close> new tokens.\<close>

lemma packed_solo: "packed [h] [new] f = map (\<lambda>j. f 0 (length h + j)) [0 ..< length new]"
  by (rule nth_equalityI) (simp_all add: packed_def packed_parts_def)

lemma solo_rows:
  "step_logits M P0 [h] [new] False = map (\<lambda>j. next_logits M P0 (h @ take (Suc j) new)) [0 ..< length new]"
proof -
  have "take (Suc (length h + j)) (h @ new) = h @ take (Suc j) new" for j by simp
  then show ?thesis by (simp add: step_logits_def packed_solo del: take_append)
qed

end
