(* ===== verification/Speculative_Proofs.thy ===== *)
theory Speculative_Proofs
  imports Speculative_Runner Solo_Session Scheduler_Invariant
begin

text \<open>
  Why the output of \<open>SpeculativeRunner.run_greedy\<close> does not depend on the draft model: a round keeps both
  caches at the same history, and the tokens it emits continue the greedy run of the target.
\<close>

section \<open>The tokens of a round\<close>

text \<open>Greedy decoding of a prompt by one model: at most \<open>n\<close> tokens, the EOS token is the last one.\<close>

fun greedy_until :: "('lg \<Rightarrow> token) \<Rightarrow> (token list \<Rightarrow> 'lg) \<Rightarrow> token \<Rightarrow> token list \<Rightarrow> nat \<Rightarrow> token list" where
  "greedy_until pick target eos p 0 = []"
| "greedy_until pick target eos p (Suc n) =
     (let t = pick (target p) in t # (if t = eos then [] else greedy_until pick target eos (p @ [t]) n))"

lemma greedy_run_append: "greedy_run pick target p (a @ b) \<longleftrightarrow> greedy_run pick target p a \<and> greedy_run pick target (p @ a) b"
  by (induction a arbitrary: p) (simp_all add: greedy_run_Cons)

lemma greedy_run_take: "greedy_run pick target p ts \<Longrightarrow> greedy_run pick target p (take n ts)"
  using greedy_run_append [of pick target p "take n ts" "drop n ts"] by simp

lemma greedy_run_until:
  assumes "greedy_run pick target p ts" "eos \<notin> set (butlast ts)" "length ts \<le> n"
    and "length ts = n \<or> ts \<noteq> [] \<and> last ts = eos"
  shows "greedy_until pick target eos p n = ts"
  using assms
proof (induction ts arbitrary: p n)
  case (Cons t ts)
  then obtain m where n: "n = Suc m" by (cases n) auto
  show ?case
  proof (cases "ts = []")
    case False
    then have "t \<noteq> eos" "eos \<notin> set (butlast ts)" using Cons.prems(2) by auto
    then show ?thesis using Cons.IH [of "p @ [t]" m] Cons.prems False n by (auto simp: greedy_run_Cons Let_def)
  qed (use Cons.prems n in \<open>auto simp: greedy_run_Cons Let_def\<close>)
qed simp

lemma accepted_greedy:
  assumes "length ts = Suc (length ds)" "\<And>j. j \<le> length ds \<Longrightarrow> ts ! j = pick (target (q @ take j ds))"
  shows "accept_count ts ds \<le> length ds \<and> greedy_run pick target q (take (accept_count ts ds) ds @ [ts ! accept_count ts ds])"
  using assms
proof (induction ts ds arbitrary: q rule: accept_count.induct)
  case (1 t ts d ds)
  have t: "t = pick (target q)" using 1(3) [of 0] by simp
  show ?case
  proof (cases "t = d")
    case True
    have "ts ! j = pick (target ((q @ [d]) @ take j ds))" if "j \<le> length ds" for j using 1(3) [of "Suc j"] that by simp
    from 1(1) [OF True _ this] show ?thesis using 1(2) True t by (simp add: greedy_run_Cons)
  qed (simp add: t greedy_run_Cons)
qed (auto simp: greedy_run_Cons)

lemma cut_at_eos_spec:
  "\<exists>n. cut_at_eos eos ts = take n ts" "eos \<notin> set (butlast (cut_at_eos eos ts))"
  "eos \<in> set ts \<Longrightarrow> last (cut_at_eos eos ts) = eos" "eos \<notin> set ts \<Longrightarrow> cut_at_eos eos ts = ts"
proof -
  show "\<exists>n. cut_at_eos eos ts = take n ts"
  proof (induction ts)
    case (Cons t ts)
    then obtain n where "cut_at_eos eos ts = take n ts" by blast
    then have "cut_at_eos eos (t # ts) = take (if t = eos then 1 else Suc n) (t # ts)" by simp
    then show ?case by blast
  qed simp
qed (induction ts; auto simp: cut_at_eos_Nil)+

section \<open>The caches of a round\<close>

text \<open>A site is where one of the two models runs: its pool before any request, the digest, the prompts of
  others on the pool and the blocks that they hold.\<close>

type_synonym 'v site = "'v pool \<times> digest \<times> token list set \<times> nat multiset"

abbreviation solo_at :: "('v, 'lg, 'c) runner \<Rightarrow> 'v site \<Rightarrow> token list \<Rightarrow> 'v kvs \<Rightarrow> bool" where
  "solo_at N A \<equiv> solo_ok N (fst A) (fst (snd A)) (fst (snd (snd A))) (snd (snd (snd A)))"

abbreviation freeable_at :: "('v, 'lg, 'c) runner \<Rightarrow> 'v site \<Rightarrow> 'v kvs \<Rightarrow> bool" where
  "freeable_at N A \<equiv> freeable N (fst A) (fst (snd A)) (fst (snd (snd A))) (snd (snd (snd A)))"

abbreviation ready_at :: "('v, 'lg, 'c) runner \<Rightarrow> 'v site \<Rightarrow> 'v pool \<Rightarrow> bool" where
  "ready_at N A \<equiv> pool_ready N (fst A) (fst (snd A)) (fst (snd (snd A))) (snd (snd (snd A)))"

abbreviation holds_at :: "'v site \<Rightarrow> nat \<Rightarrow> bool" where
  "holds_at A \<equiv> holds_tokens (fst A) (snd (snd (snd A)))"

text \<open>An operation of one model gives \<open>Q\<close>, or runs out of blocks when the pool cannot hold \<open>n\<close> tokens.\<close>

definition runs_or_oom ::
  "('v, 'lg, 'c) runner \<Rightarrow> 'v site \<Rightarrow> nat \<Rightarrow> ('a \<Rightarrow> 'v kvs \<Rightarrow> bool) \<Rightarrow> 'a res \<times> 'v kvs \<Rightarrow> bool" where
  "runs_or_oom N A n Q out \<longleftrightarrow> (\<exists>x s'. out = (Inr x, s') \<and> Q x s') \<or>
     \<not> holds_at A n \<and> (\<exists>s1. out = (Inl OutOfMemoryError, s1) \<and> freeable_at N A s1)"

lemma runs_or_oom_more: "runs_or_oom N A m Q out \<Longrightarrow> m \<le> n \<Longrightarrow> runs_or_oom N A n Q out"
  unfolding runs_or_oom_def using holds_tokens_mono by blast

lemma runs_or_oom_seq:
  assumes "runs_or_oom N A n Q (m s)" "\<And>x s'. Q x s' \<Longrightarrow> runs_or_oom N A n Q' (f x s')"
  shows "runs_or_oom N A n Q' (seq m f s)"
  using assms(1) unfolding runs_or_oom_def [of N A n Q]
proof (elim disjE exE conjE)
  fix x s' assume "m s = (Inr x, s')" "Q x s'"
  then show ?thesis using assms(2) by (simp add: seq_def)
qed (auto simp: runs_or_oom_def seq_def)

lemma step_runs:
  assumes "solo_at N A h s"
  shows "runs_or_oom N A (length h + 1) (\<lambda>rows s'. length rows = 1 \<and> solo_at N A (h @ [t]) s')
    (forward_step N [t] [0, 1] [length h] s)"
  using solo_forward_step [OF assms, of "[t]"] by (auto simp: runs_or_oom_def)

lemma draft_phase_runs:
  fixes pick :: "'lg \<Rightarrow> token"
  assumes "solo_at N A h s" "length h = pos"
  shows "runs_or_oom N A (pos + k) (\<lambda>ds s'. length ds = k \<and> solo_at N A (h @ take k (cur # ds)) s') (draft_phase N pick k pos cur s)"
  using assms
proof (induction k arbitrary: pos cur h s)
  case (Suc k)
  have one: "runs_or_oom N A (pos + Suc k) (\<lambda>rows s'. length rows = 1 \<and> solo_at N A (h @ [cur]) s') (forward_step N [cur] [0, 1] [pos] s)"
    by (rule runs_or_oom_more [of _ _ "pos + 1"]) (use step_runs [OF Suc.prems(1), of cur] Suc.prems(2) in simp_all)
  show ?case unfolding draft_phase.simps
  proof (rule runs_or_oom_seq [where m = "forward_step N [cur] [0, 1] [pos]"], rule one)
    fix rows :: "'lg list" and s' assume rows: "length rows = 1 \<and> solo_at N A (h @ [cur]) s'"
    then obtain row where "rows = [row]" by (cases rows) auto
    moreover have "runs_or_oom N A (Suc pos + k) (\<lambda>ds s'. length ds = k \<and> solo_at N A ((h @ [cur]) @ take k (pick row # ds)) s')
        (draft_phase N pick k (Suc pos) (pick row) s')"
      by (rule Suc.IH) (use rows Suc.prems(2) in auto)
    ultimately show "runs_or_oom N A (pos + Suc k) (\<lambda>ds s'. length ds = Suc k \<and> solo_at N A (h @ take (Suc k) (cur # ds)) s')
        ((case nth_res rows 0 of Inl e \<Rightarrow> raise e
          | Inr row \<Rightarrow> seq (draft_phase N pick k (Suc pos) (pick row)) (\<lambda>ds. ret (pick row # ds))) s')"
      by (auto simp: nth_res_def runs_or_oom_def seq_def ret_def)
  qed
qed (auto simp: runs_or_oom_def ret_def)

text \<open>The draft cache follows the target to the accepted history.\<close>

lemma fix_draft_runs:
  assumes "solo_at N A (h @ take K (t # ds)) s" "length ds = K" "0 < K" "n \<le> Suc K"
  shows "runs_or_oom N A (length h + Suc K) (\<lambda>_ s'. solo_at N A (take (length h + n) (h @ t # ds)) s')
    (fix_draft N 0 ds (length h + n) s)"
proof -
  obtain c P where s: "s = (c, P)" by (cases s)
  have now: "num_tokens c = [length h + K]" using solo_okD(3) [OF assms(1) [unfolded s]] assms(2) by simp
  show ?thesis
  proof (cases "n \<le> K")
    case True
    obtain s' where "truncate_to 0 (int (length h + n)) s = (Inr (), s')"
        "solo_at N A (take (length h + n) (h @ take K (t # ds))) s'"
      using solo_truncate [OF assms(1), of "length h + n"] True assms(2) by auto
    moreover have "take (length h + n) (h @ take K (t # ds)) = take (length h + n) (h @ t # ds)" using True by (simp add: min_absorb1)
    ultimately show ?thesis using now True s
      by (auto simp: fix_draft_def nth_res_def seq_def ret_def runs_or_oom_def simp del: take_append of_nat_add)
  next
    case False
    then have n: "n = Suc K" using assms(4) by simp
    have ds: "ds \<noteq> []" using assms(2,3) by auto
    have "take K (t # ds) @ [last ds] = butlast (t # ds) @ [last (t # ds)]" using assms(2) ds by (simp add: butlast_conv_take)
    also have "\<dots> = t # ds" by (rule append_butlast_last_id) simp
    finally have all: "take K (t # ds) @ [last ds] = t # ds" .
    have "runs_or_oom N A (length h + Suc K) (\<lambda>rows s'. length rows = 1 \<and> solo_at N A ((h @ take K (t # ds)) @ [last ds]) s')
        (forward_step N [last ds] [0, 1] [length (h @ take K (t # ds))] s)"
      by (rule runs_or_oom_more [OF step_runs [OF assms(1)]]) (use assms(2) in simp)
    moreover have "(h @ take K (t # ds)) @ [last ds] = h @ t # ds" using all by simp
    ultimately show ?thesis using now n s assms(2) ds
      by (auto simp: fix_draft_def nth_res_def seq_def ret_def runs_or_oom_def)
  qed
qed

text \<open>The target's rows for the candidates, and its cut.\<close>

lemma rows_run:
  assumes "solo_at N A h s" "new \<noteq> []"
  shows "runs_or_oom N A (length h + length new)
    (\<lambda>out s'. fst out = map (\<lambda>j. next_logits (rn_model N) (fst A) (h @ take (Suc j) new)) [0 ..< length new] \<and> solo_at N A (h @ new) s')
    (forward_step_packed N (Host_Ids new) [0, length new] [length h] None False s)"
  using solo_forward [OF assms, of False] by (auto simp: runs_or_oom_def solo_rows)

lemma truncate_runs:
  assumes "solo_at N A h s" "m \<le> length h"
  shows "runs_or_oom N A n (\<lambda>_ s'. solo_at N A (take m h) s') (truncate_to 0 (int m) s)"
  using solo_truncate [OF assms] by (auto simp: runs_or_oom_def)

section \<open>Both models\<close>

definition pair_out ::
  "('v, 'lg, 'c, 'w, 'lh, 'd) spec_runner \<Rightarrow> 'v site \<Rightarrow> 'w site \<Rightarrow> nat \<Rightarrow> ('a \<Rightarrow> 'v kvs \<Rightarrow> 'w kvs \<Rightarrow> bool)
    \<Rightarrow> 'a res \<times> ('v kvs \<times> 'w kvs) \<Rightarrow> bool" where
  "pair_out R A B n Q out \<longleftrightarrow> (\<exists>x t d. out = (Inr x, (t, d)) \<and> Q x t d) \<or>
     \<not> (holds_at A n \<and> holds_at B n) \<and>
     (\<exists>t d. out = (Inl OutOfMemoryError, (t, d)) \<and> freeable_at (sr_target R) A t \<and> freeable_at (sr_draft R) B d)"

lemma pair_target:
  assumes "runs_or_oom (sr_target R) A m Q (op t)" "m \<le> n" "freeable_at (sr_draft R) B d"
    and "\<And>x t'. Q x t' \<Longrightarrow> pair_out R A B n Q' (f x (t', d))"
  shows "pair_out R A B n Q' (seq (on_target op) f (t, d))"
  using runs_or_oom_more [OF assms(1,2)] assms(3,4) unfolding runs_or_oom_def
  by (elim disjE exE conjE) (auto simp: on_target_def seq_def pair_out_def)

lemma pair_draft:
  assumes "runs_or_oom (sr_draft R) B m Q (op d)" "m \<le> n" "freeable_at (sr_target R) A t"
    and "\<And>x d'. Q x d' \<Longrightarrow> pair_out R A B n Q' (f x (t, d'))"
  shows "pair_out R A B n Q' (seq (on_draft op) f (t, d))"
  using runs_or_oom_more [OF assms(1,2)] assms(3,4) unfolding runs_or_oom_def
  by (elim disjE exE conjE) (auto simp: on_draft_def seq_def pair_out_def)

lemma pair_ret: "Q x t d \<Longrightarrow> pair_out R A B n Q (ret x (t, d))"
  by (simp add: pair_out_def ret_def)

text \<open>Between two rounds: both caches hold the prompt and all the tokens but the last.\<close>

definition loop_ok ::
  "('v, 'lg, 'c, 'w, 'lh, 'd) spec_runner \<Rightarrow> 'v site \<Rightarrow> 'w site \<Rightarrow> token \<Rightarrow> nat \<Rightarrow> token list
    \<Rightarrow> token list \<Rightarrow> token \<Rightarrow> nat \<Rightarrow> 'v kvs \<Rightarrow> 'w kvs \<Rightarrow> bool" where
  "loop_ok R A B eos limit p gen last_token cs t d \<longleftrightarrow> (\<exists>h. p @ gen = h @ [last_token] \<and> length h = cs \<and> gen \<noteq> [] \<and>
     length gen < limit \<and> eos \<notin> set gen \<and> greedy_run (sr_target_pick R) (next_logits (rn_model (sr_target R)) (fst A)) p gen \<and>
     solo_at (sr_target R) A h t \<and> solo_at (sr_draft R) B h d)"

text \<open>The output is complete.\<close>

definition greedy_done ::
  "('v, 'lg, 'c, 'w, 'lh, 'd) spec_runner \<Rightarrow> 'v site \<Rightarrow> token \<Rightarrow> nat \<Rightarrow> token list \<Rightarrow> token list \<Rightarrow> bool" where
  "greedy_done R A eos limit p gen \<longleftrightarrow>
     gen = greedy_until (sr_target_pick R) (next_logits (rn_model (sr_target R)) (fst A)) eos p limit"

text \<open>What the tokens of a round are, before any cache is changed.\<close>

lemma emitted_greedy:
  assumes gen: "greedy_run pick target p gen" "eos \<notin> set gen" "length gen < limit"
    and acc: "length targets = Suc (length ds)" "\<forall>j \<le> length ds. targets ! j = pick (target ((p @ gen) @ take j ds))"
    and a: "a = accept_count targets ds"
    and planned: "planned = take (limit - length gen) (take a ds @ [targets ! a])"
    and gen': "gen' = gen @ cut_at_eos eos planned"
  shows "eos \<in> set planned \<or> limit \<le> length gen' \<Longrightarrow> gen' = greedy_until pick target eos p limit"
    and "\<not> (eos \<in> set planned \<or> limit \<le> length gen') \<Longrightarrow> greedy_run pick target p gen' \<and> eos \<notin> set gen' \<and>
      gen' = gen @ take a ds @ [targets ! a] \<and> length (cut_at_eos eos planned) = Suc a \<and> a \<le> length ds"
proof -
  have acc': "a \<le> length ds" "greedy_run pick target (p @ gen) (take a ds @ [targets ! a])"
    using accepted_greedy [OF acc(1), of pick target "p @ gen"] acc(2) a by auto
  have ne: "planned \<noteq> []" using planned gen(3) by (simp del: take_append)
  obtain n where n: "cut_at_eos eos planned = take n planned" using cut_at_eos_spec(1) by blast
  have "greedy_run pick target (p @ gen) (take n planned)" unfolding planned by (intro greedy_run_take acc'(2))
  then have run: "greedy_run pick target p gen'" using gen(1) by (simp add: gen' n greedy_run_append)
  have le: "length gen' \<le> limit" using gen(3) unfolding gen' n by (simp add: planned del: take_append)
  show "gen' = greedy_until pick target eos p limit" if "eos \<in> set planned \<or> limit \<le> length gen'"
  proof -
    have "gen' \<noteq> []" "last gen' = last (cut_at_eos eos planned)" "butlast gen' = gen @ butlast (cut_at_eos eos planned)"
      using ne by (simp_all add: gen' cut_at_eos_Nil butlast_append)
    then show ?thesis
      using greedy_run_until [OF run, of eos limit] cut_at_eos_spec(2,3) [of eos planned] le that gen(2) by auto
  qed
  assume no: "\<not> (eos \<in> set planned \<or> limit \<le> length gen')"
  have cut: "cut_at_eos eos planned = planned" using cut_at_eos_spec(4) no by blast
  have "length gen' = length gen + min (limit - length gen) (Suc a)" using acc'(1) unfolding gen' cut by (simp add: planned del: take_append)
  then have "Suc a < limit - length gen" using no gen(3) by auto
  then have p: "planned = take a ds @ [targets ! a]" using acc'(1) by (simp add: planned)
  then show "greedy_run pick target p gen' \<and> eos \<notin> set gen' \<and> gen' = gen @ take a ds @ [targets ! a] \<and>
      length (cut_at_eos eos planned) = Suc a \<and> a \<le> length ds"
    using run no gen(2) acc'(1) unfolding gen' cut by simp
qed

section \<open>A round and the loop\<close>

text \<open>What a round leaves: a complete output, or the state for the next round.\<close>

definition round_ok ::
  "('v, 'lg, 'c, 'w, 'lh, 'd) spec_runner \<Rightarrow> 'v site \<Rightarrow> 'w site \<Rightarrow> token \<Rightarrow> nat \<Rightarrow> token list
    \<Rightarrow> token list \<times> spec_stats \<times> (token \<times> nat) option \<Rightarrow> 'v kvs \<Rightarrow> 'w kvs \<Rightarrow> bool" where
  "round_ok R A B eos limit p out t d = (case out of (gen, _, nx) \<Rightarrow> case nx of
      None \<Rightarrow> greedy_done R A eos limit p gen \<and> freeable_at (sr_target R) A t \<and> freeable_at (sr_draft R) B d
    | Some (last_token, cs) \<Rightarrow> loop_ok R A B eos limit p gen last_token cs t d)"

lemma settle_round_ok:
  fixes R :: "('v, 'lg, 'c, 'w, 'lh, 'd) spec_runner" and A :: "'v site"
  defines "target \<equiv> next_logits (rn_model (sr_target R)) (fst A)"
  assumes K: "0 < sr_K R" "length ds = sr_K R"
    and gen: "p @ gen = h @ [last_token]" "length h = cs" "length gen < limit" "eos \<notin> set gen"
      "greedy_run (sr_target_pick R) target p gen"
    and rows: "rows = map (\<lambda>j. target (h @ take (Suc j) (last_token # ds))) [0 ..< Suc (sr_K R)]"
    and t: "solo_at (sr_target R) A (h @ last_token # ds) t"
    and d: "solo_at (sr_draft R) B (h @ take (sr_K R) (last_token # ds)) d"
    and n: "length h + Suc (sr_K R) \<le> n"
  shows "pair_out R A B n (round_ok R A B eos limit p) (settle_round R eos limit 0 0 ds rows cs gen st (t, d))"
proof -
  let ?targets = "map (sr_target_pick R) rows"
  define a where "a = accept_count ?targets ds"
  define planned where "planned = take (limit - length gen) (take a ds @ [?targets ! a])"
  define gen' where "gen' = gen @ cut_at_eos eos planned"
  have len: "length ?targets = Suc (length ds)" using rows K(2) by simp
  have at: "\<forall>j \<le> length ds. ?targets ! j = sr_target_pick R (target ((p @ gen) @ take j ds))"
    using K(2) unfolding gen(1) rows by (simp del: upt_Suc)
  note em = emitted_greedy [OF gen(5,4,3) len at a_def planned_def gen'_def]
  have "accept_count ?targets ds < length ?targets"
    using accepted_greedy [OF len, of "sr_target_pick R" target "p @ gen"] at len by auto
  then have bonus: "nth_res ?targets (accept_count ?targets ds) = Inr (?targets ! a)" by (simp add: nth_res_def a_def)
  define st1 where "st1 = st\<lparr>n_iterations := n_iterations st + 1, spec_stats.n_target_forwards := spec_stats.n_target_forwards st + 1,
    n_draft_forwards := n_draft_forwards st + sr_K R, n_accepted_total := n_accepted_total st + a,
    n_emitted_total := n_emitted_total st + length (cut_at_eos eos planned)\<rparr>"
  have eq: "settle_round R eos limit 0 0 ds rows cs gen st =
      (if eos \<in> set planned \<or> limit \<le> length gen' then ret (gen', st1, None)
       else seq (on_target (truncate_to 0 (int (cs + length (cut_at_eos eos planned))))) (\<lambda>_.
         seq (on_draft (fix_draft (sr_draft R) 0 ds (cs + length (cut_at_eos eos planned)))) (\<lambda>forwards.
         ret (gen', st1\<lparr>n_draft_forwards := n_draft_forwards st1 + forwards\<rparr>,
           Some (?targets ! a, cs + length (cut_at_eos eos planned))))))"
    unfolding settle_round_def Let_def bonus sum.case planned_def gen'_def a_def st1_def by (rule refl)
  show ?thesis
  proof (cases "eos \<in> set planned \<or> limit \<le> length gen'")
    case True
    then have "settle_round R eos limit 0 0 ds rows cs gen st = ret (gen', st1, None)" by (simp only: eq if_True)
    then show ?thesis
      using em(1) [OF True] solo_freeable [OF t] solo_freeable [OF d]
      by (simp add: round_ok_def greedy_done_def target_def pair_ret)
  next
    case False
    note e = em(2) [OF False]
    let ?n = "cs + length (cut_at_eos eos planned)"
    have cut: "take ?n (h @ last_token # ds) = h @ last_token # take a ds" using e gen(2) by simp
    have next_ok: "loop_ok R A B eos limit p gen' (?targets ! a) ?n t' d'"
      if "solo_at (sr_target R) A (take ?n (h @ last_token # ds)) t'" "solo_at (sr_draft R) B (take ?n (h @ last_token # ds)) d'" for t' d'
    proof -
      have "p @ gen' = (h @ last_token # take a ds) @ [?targets ! a]" using e gen(1) by simp
      moreover have "length (h @ last_token # take a ds) = ?n" using e gen(2) by simp
      ultimately show ?thesis
        using that e False unfolding cut loop_ok_def target_def [symmetric]
        by (intro exI [of _ "h @ last_token # take a ds"] conjI) (simp_all only: append_is_Nil_conv not_Cons_self2 not_le de_Morgan_disj, auto)
    qed
    have "pair_out R A B n (round_ok R A B eos limit p)
        (seq (on_target (truncate_to 0 (int ?n))) (\<lambda>_. seq (on_draft (fix_draft (sr_draft R) 0 ds ?n))
          (\<lambda>forwards. ret (gen', st' forwards, Some (?targets ! a, ?n)))) (t, d))" for st'
    proof (rule pair_target [where op = "truncate_to 0 (int ?n)" and m = n])
      show "runs_or_oom (sr_target R) A n (\<lambda>_ s'. solo_at (sr_target R) A (take ?n (h @ last_token # ds)) s') (truncate_to 0 (int ?n) t)"
        by (rule truncate_runs [OF t]) (use e K(2) gen(2) in simp)
      show "freeable_at (sr_draft R) B d" by (rule solo_freeable [OF d])
      fix t' assume t': "solo_at (sr_target R) A (take ?n (h @ last_token # ds)) t'"
      show "pair_out R A B n (round_ok R A B eos limit p)
          (seq (on_draft (fix_draft (sr_draft R) 0 ds ?n)) (\<lambda>forwards. ret (gen', st' forwards, Some (?targets ! a, ?n))) (t', d))"
      proof (rule pair_draft [where op = "fix_draft (sr_draft R) 0 ds ?n" and m = "length h + Suc (sr_K R)"])
        show "runs_or_oom (sr_draft R) B (length h + Suc (sr_K R)) (\<lambda>_ s'. solo_at (sr_draft R) B (take ?n (h @ last_token # ds)) s')
            (fix_draft (sr_draft R) 0 ds ?n d)"
          using fix_draft_runs [OF d K(2,1), of "length (cut_at_eos eos planned)"] e K(2) gen(2) by simp
        show "freeable_at (sr_target R) A t'" by (rule solo_freeable [OF t'])
      qed (use n next_ok [OF t'] in \<open>auto simp: round_ok_def intro!: pair_ret\<close>)
    qed simp
    then show ?thesis unfolding eq if_not_P [OF False] .
  qed
qed

lemma spec_round_ok:
  fixes R :: "('v, 'lg, 'c, 'w, 'lh, 'd) spec_runner" and A :: "'v site"
  assumes K: "0 < sr_K R" and ok: "loop_ok R A B eos limit p gen last_token cs t d"
    and n: "length p + limit + sr_K R \<le> n"
  shows "pair_out R A B n (round_ok R A B eos limit p) (spec_round R eos limit 0 0 last_token cs gen st (t, d))"
proof -
  let ?T = "next_logits (rn_model (sr_target R)) (fst A)"
  obtain h where h: "p @ gen = h @ [last_token]" "length h = cs" "length gen < limit" "eos \<notin> set gen"
      "greedy_run (sr_target_pick R) ?T p gen" "solo_at (sr_target R) A h t" "solo_at (sr_draft R) B h d"
    using ok unfolding loop_ok_def by blast
  have bound: "length h + Suc (sr_K R) \<le> n" using arg_cong [OF h(1), of length] h(3) n by simp
  show ?thesis unfolding spec_round_def
  proof (rule pair_draft [where op = "draft_phase (sr_draft R) (sr_draft_pick R) (sr_K R) cs last_token"],
      rule draft_phase_runs [OF h(7,2)])
    show "cs + sr_K R \<le> n" "freeable_at (sr_target R) A t" using bound h(2) solo_freeable [OF h(6)] by simp_all
    fix ds d1 assume ds: "length ds = sr_K R \<and> solo_at (sr_draft R) B (h @ take (sr_K R) (last_token # ds)) d1"
    let ?op = "forward_step_packed (sr_target R) (Host_Ids (last_token # ds)) [0, sr_K R + 1] [cs] None False"
    show "pair_out R A B n (round_ok R A B eos limit p)
        (seq (on_target ?op) (\<lambda>out. settle_round R eos limit 0 0 ds (fst out) cs gen st) (t, d1))"
    proof (rule pair_target [where op = ?op and m = "length h + Suc (sr_K R)"])
      show "runs_or_oom (sr_target R) A (length h + Suc (sr_K R)) (\<lambda>out s'. fst out =
          map (\<lambda>j. ?T (h @ take (Suc j) (last_token # ds))) [0 ..< Suc (sr_K R)] \<and> solo_at (sr_target R) A (h @ last_token # ds) s') (?op t)"
        using rows_run [OF h(6), of "last_token # ds"] ds h(2) by simp
      show "freeable_at (sr_draft R) B d1" using ds solo_freeable by blast
    qed (use bound settle_round_ok [OF K _ h(1-5)] ds in auto)
  qed
qed

lemma spec_loop_ok:
  assumes "0 < sr_K R" "loop_ok R A B eos limit p gen last_token cs t d" "length p + limit + sr_K R \<le> n"
  shows "pair_out R A B n (\<lambda>(gen', _) t' d'. greedy_done R A eos limit p gen' \<and>
      freeable_at (sr_target R) A t' \<and> freeable_at (sr_draft R) B d')
    (spec_loop R eos limit 0 0 last_token cs gen st (t, d))"
  using assms(2)
proof (induction "limit - length gen" arbitrary: gen last_token cs st t d rule: less_induct)
  case less
  let ?round = "spec_round R eos limit 0 0 last_token cs gen st (t, d)"
  have limit: "length gen < limit" using less.prems by (auto simp: loop_ok_def)
  note step = spec_loop.simps [of R eos limit 0 0 last_token cs gen st "(t, d)", unfolded if_P [OF limit]]
  from spec_round_ok [OF assms(1) less.prems assms(3), of st] show ?case unfolding pair_out_def [of _ _ _ _ "round_ok R A B eos limit p"]
  proof (elim disjE exE conjE)
    fix x t1 d1 assume r: "?round = (Inr x, t1, d1)" and ok: "round_ok R A B eos limit p x t1 d1"
    obtain gen1 st1 nx where x: "x = (gen1, st1, nx)" by (cases x)
    show ?thesis
    proof (cases nx)
      case None
      then show ?thesis using r ok x by (simp add: step round_ok_def pair_out_def)
    next
      case (Some y)
      obtain last1 cs1 where y: "y = (last1, cs1)" by (cases y)
      have "length gen < length gen1" using spec_round_grows limit r unfolding x by blast
      then have "limit - length gen1 < limit - length gen" using limit by simp
      moreover have "loop_ok R A B eos limit p gen1 last1 cs1 t1 d1" using ok x Some y by (simp add: round_ok_def)
      ultimately show ?thesis using less.hyps r x Some y by (simp add: step)
    qed
  next
    fix t1 d1 assume "?round = (Inl OutOfMemoryError, t1, d1)" "\<not> (holds_at A n \<and> holds_at B n)"
      "freeable_at (sr_target R) A t1" "freeable_at (sr_draft R) B d1"
    then show ?thesis by (simp add: step pair_out_def)
  qed
qed

section \<open>The run\<close>

text \<open>A complete output on caches that can be freed.\<close>

definition run_done ::
  "('v, 'lg, 'c, 'w, 'lh, 'd) spec_runner \<Rightarrow> 'v site \<Rightarrow> 'w site \<Rightarrow> token \<Rightarrow> nat \<Rightarrow> token list
    \<Rightarrow> token list \<times> spec_stats \<Rightarrow> 'v kvs \<Rightarrow> 'w kvs \<Rightarrow> bool" where
  "run_done R A B eos limit p out t d \<longleftrightarrow> greedy_done R A eos limit p (fst out) \<and>
     freeable_at (sr_target R) A t \<and> freeable_at (sr_draft R) B d"

lemma greedy_until_length: "length (greedy_until pick target eos p n) \<le> n"
  by (induction n arbitrary: p) (auto simp: Let_def)

lemma spec_start_ok:
  fixes R :: "('v, 'lg, 'c, 'w, 'lh, 'd) spec_runner" and A :: "'v site"
  assumes K: "0 < sr_K R" and rows: "rows \<noteq> []" "last rows = next_logits (rn_model (sr_target R)) (fst A) p"
    and m: "0 < limit" and n: "length p + limit + sr_K R \<le> n"
    and t: "solo_at (sr_target R) A p t" and d: "solo_at (sr_draft R) B p d"
  shows "pair_out R A B n (run_done R A B eos limit p) (spec_start R eos limit p 0 0 rows (t, d))"
proof -
  let ?first = "sr_target_pick R (last rows)" and ?st = "spec_stats_init\<lparr>n_target_forwards := 1, n_draft_forwards := 1\<rparr>"
  have first: "greedy_run (sr_target_pick R) (next_logits (rn_model (sr_target R)) (fst A)) p [?first]"
    by (simp add: greedy_run_Cons rows(2))
  show ?thesis
  proof (cases "?first = eos \<or> limit \<le> 1")
    case True
    have "greedy_done R A eos limit p [?first]"
      unfolding greedy_done_def by (rule greedy_run_until [OF first, symmetric]) (use True m in auto)
    then show ?thesis
      using True rows(1) m solo_freeable [OF t] solo_freeable [OF d]
      by (auto simp: spec_start_def run_done_def take_Cons' intro!: pair_ret)
  next
    case False
    have "loop_ok R A B eos limit p [?first] ?first (length p) t d"
      using False t d first by (auto simp: loop_ok_def)
    from spec_loop_ok [OF K this n, of ?st]
    have "pair_out R A B n (run_done R A B eos limit p)
        (seq (spec_loop R eos limit 0 0 ?first (length p) [?first] ?st) (\<lambda>out. ret (take limit (fst out), snd out)) (t, d))"
      by (auto simp: pair_out_def seq_def ret_def run_done_def greedy_done_def greedy_until_length)
    then show ?thesis using False rows(1) by (simp add: spec_start_def Let_def)
  qed
qed

lemma spec_body_ok:
  fixes R :: "('v, 'lg, 'c, 'w, 'lh, 'd) spec_runner" and A :: "'v site"
  assumes K: "0 < sr_K R" and p: "p \<noteq> []" and m: "0 < limit" and n: "length p + limit + sr_K R \<le> n"
    and t: "solo_at (sr_target R) A [] t" and d: "solo_at (sr_draft R) B [] d"
  shows "pair_out R A B n (run_done R A B eos limit p) (spec_body R eos limit p 0 0 (t, d))"
proof -
  let ?T = "next_logits (rn_model (sr_target R)) (fst A)"
  let ?op = "forward_step_packed (sr_target R) (Host_Ids p) [0, length p] [0] None False"
  let ?op' = "forward_step (sr_draft R) p [0, length p] [0]"
  show ?thesis unfolding spec_body_def
  proof (rule pair_target [where op = ?op and m = "length p"])
    show "runs_or_oom (sr_target R) A (length p) (\<lambda>out s'. fst out = map (\<lambda>j. ?T (take (Suc j) p)) [0 ..< length p] \<and>
        solo_at (sr_target R) A p s') (?op t)"
      using rows_run [OF t p] by simp
    show "freeable_at (sr_draft R) B d" by (rule solo_freeable [OF d])
    fix out t1 assume out: "fst out = map (\<lambda>j. ?T (take (Suc j) p)) [0 ..< length p] \<and> solo_at (sr_target R) A p t1"
    then have rows: "fst out \<noteq> []" "last (fst out) = ?T p" using p by (simp_all add: last_map del: upt_Suc)
    show "pair_out R A B n (run_done R A B eos limit p)
        (seq (on_draft ?op') (\<lambda>_. spec_start R eos limit p 0 0 (fst out)) (t1, d))"
    proof (rule pair_draft [where op = ?op' and m = "length p"])
      show "runs_or_oom (sr_draft R) B (length p) (\<lambda>_ s'. solo_at (sr_draft R) B p s') (?op' d)"
        using solo_forward_step [OF d p] by (auto simp: runs_or_oom_def)
      show "freeable_at (sr_target R) A t1" using out solo_freeable by blast
    qed (use n out spec_start_ok [OF K rows m n] in auto)
  qed (use n in simp)
qed

lemma free_both_ok:
  assumes "freeable_at N A t" "freeable_at M B d"
  shows "\<exists>c P c' Q. free_both (t, d) = (Inr (), ((c, P), (c', Q))) \<and> ready_at N A P \<and> ready_at M B Q"
  using assms by (auto simp: freeable_def free_both_def seq_def on_target_def on_draft_def)

text \<open>Runs on two pools that are ready: the greedy tokens of the target, or out of memory when one of the
  pools cannot hold the request; the pools are ready again.\<close>

lemma run_greedy_ok:
  assumes K: "0 < sr_K R" and P: "ready_at (sr_target R) A P" and Q: "ready_at (sr_draft R) B Q"
    and p: "p = tok_encode tok prompt" and m: "0 < limit" "p \<noteq> []"
    and dg: "env_digest (rn_env (sr_target R)) = fst (snd A)" "env_digest (rn_env (sr_draft R)) = fst (snd B)"
  shows "\<exists>r P' Q'. run_greedy R tok prompt limit (P, Q) = (r, (P', Q')) \<and>
    ready_at (sr_target R) A P' \<and> ready_at (sr_draft R) B Q' \<and>
    (case r of Inr (gen, _) \<Rightarrow> greedy_done R A (eos_token_id tok) (nat limit) p gen
     | Inl e \<Rightarrow> e = OutOfMemoryError \<and>
        \<not> (holds_at A (length p + nat limit + sr_K R) \<and> holds_at B (length p + nat limit + sr_K R)))"
proof -
  let ?n = "length p + nat limit + sr_K R"
  obtain t where t: "add_request_slot (fst (snd A)) None (kvcache_init 0, P) = (Inr 0, t)" "solo_at (sr_target R) A [] t"
    using solo_join [OF P] by blast
  obtain d where d: "add_request_slot (fst (snd B)) None (kvcache_init 0, Q) = (Inr 0, d)" "solo_at (sr_draft R) B [] d"
    using solo_join [OF Q] by blast
  let ?body = "spec_body R (eos_token_id tok) (nat limit) p 0 0"
  have body: "pair_out R A B ?n (run_done R A B (eos_token_id tok) (nat limit) p) (?body (t, d))"
    by (rule spec_body_ok [OF K m(2) _ order.refl t(2) d(2)]) (use m(1) in simp)
  have eq: "run_greedy R tok prompt limit (P, Q) = (case finally_do ?body free_both (t, d) of
      (r, ((_, P'), (_, Q'))) \<Rightarrow> (r, (P', Q')))"
    using m p dg t(1) d(1) by (simp add: run_greedy_def seq_def on_target_def on_draft_def)
  obtain r t1 d1 where b: "?body (t, d) = (r, t1, d1)" by (metis prod.exhaust)
  have fr: "freeable_at (sr_target R) A t1" "freeable_at (sr_draft R) B d1" and
    res: "case r of Inr (gen, _) \<Rightarrow> greedy_done R A (eos_token_id tok) (nat limit) p gen
     | Inl e \<Rightarrow> e = OutOfMemoryError \<and> \<not> (holds_at A ?n \<and> holds_at B ?n)"
    using body unfolding b pair_out_def run_done_def by (auto split: sum.splits)
  obtain c P' c' Q' where "free_both (t1, d1) = (Inr (), ((c, P'), (c', Q')))" "ready_at (sr_target R) A P'" "ready_at (sr_draft R) B Q'"
    using free_both_ok [OF fr] by blast
  then show ?thesis using res by (simp add: eq finally_do_def b)
qed

end
