(* ===== verification/Pool_Construction.thy ===== *)
theory Pool_Construction
  imports Block_Pool
begin

text \<open>
  What the constructor of the pool does with its arguments: the checks in their order against one
  description of the consistent arguments, then the allocation of the storage.
\<close>

section \<open>Consistent arguments\<close>

definition consistent_args :: "pool_args \<Rightarrow> bool" where
  "consistent_args a \<longleftrightarrow>
     (let quant = arg_kv_quant a; backend = arg_attention_backend a; layers = arg_num_layers a in
      0 < arg_num_blocks a \<and> 0 < arg_block_size a \<and>
      (\<forall>pc. arg_prefix_cache a = Some pc \<longrightarrow> int (pc_block_size pc) = arg_block_size a \<and> quant \<noteq> Some ''nvfp4'') \<and>
      (quant, backend) \<in> {None, Some ''turbo4'', Some ''turbo3''} \<times> {''flash_attn'', ''torch''} \<union>
        {None, Some ''fp8'', Some ''nvfp4''} \<times> {''flashinfer''} \<and>
      (quant \<in> {Some ''turbo4'', Some ''turbo3''} \<longrightarrow> even (arg_block_size a * arg_num_kv_heads a * arg_head_dim a)) \<and>
      (quant = Some ''nvfp4'' \<longrightarrow> 4 dvd arg_block_size a \<and> 64 dvd arg_head_dim a) \<and>
      length (kv_shape_of a) = layers \<and> (\<forall>(heads, dim) \<in> set (kv_shape_of a). 0 < heads \<and> 0 < dim) \<and>
      (quant \<noteq> None \<longrightarrow> arg_layer_streams a = None \<and> card (set (kv_shape_of a)) \<le> 1) \<and>
      length (streams_of a) = layers \<and>
      (\<forall>st \<in> set (streams_of a). st \<noteq> [] \<and> distinct (map stream_name st) \<and>
         (\<forall>sp \<in> set st. 0 < stream_kv_heads sp \<and> 0 < stream_head_dim sp)) \<and>
      length (layer_attention_of a) = layers \<and>
      (\<forall>sp \<in> set (layer_attention_of a). sp = Full \<or> (\<exists>w > 0. sp = Sliding w)))"

section \<open>The checks\<close>

lemma check_specs_ok: "check_specs seen st = Inr () \<Longrightarrow> distinct (map stream_name st) \<and>
    set (map stream_name st) \<inter> set seen = {} \<and> (\<forall>sp \<in> set st. 0 < stream_kv_heads sp \<and> 0 < stream_head_dim sp)"
  by (induction seen st rule: check_specs.induct) (auto split: if_splits)

lemma check_specs_error: "check_specs seen st = Inl e \<Longrightarrow> e = ValueError"
  by (induction seen st rule: check_specs.induct) (auto split: if_splits)

lemma check_specs_Inr: "check_specs seen st = Inr () \<longleftrightarrow> distinct (map stream_name st) \<and>
    set (map stream_name st) \<inter> set seen = {} \<and> (\<forall>sp \<in> set st. 0 < stream_kv_heads sp \<and> 0 < stream_head_dim sp)"
  by (induction seen st rule: check_specs.induct) (auto simp: not_le)

lemma heterogeneous_iff: "heterogeneous xs \<longleftrightarrow> \<not> card (set xs) \<le> 1"
proof (cases xs)
  case (Cons x ys)
  have "card (set xs) \<le> 1 \<longleftrightarrow> (\<forall>y \<in> set xs. y = x)"
  proof
    assume "card (set xs) \<le> 1"
    then show "\<forall>y \<in> set xs. y = x" using Cons card_le_Suc0_iff_eq [of "set xs"] by auto
  next
    assume "\<forall>y \<in> set xs. y = x"
    then have "set xs = {x}" using Cons by auto
    then show "card (set xs) \<le> 1" by simp
  qed
  then show ?thesis using Cons by (auto simp: heterogeneous_def list_ex_iff)
qed (simp add: heterogeneous_def)

lemma check_pool_args_Inr:
  "check_pool_args a = Inr () \<longleftrightarrow>
     0 < arg_num_blocks a \<and> 0 < arg_block_size a \<and>
     (\<forall>pc. arg_prefix_cache a = Some pc \<longrightarrow> int (pc_block_size pc) = arg_block_size a \<and> arg_kv_quant a \<noteq> Some ''nvfp4'') \<and>
     (arg_kv_quant a, arg_attention_backend a) \<in> {None, Some ''turbo4'', Some ''turbo3''} \<times> {''flash_attn'', ''torch''} \<union>
       {None, Some ''fp8'', Some ''nvfp4''} \<times> {''flashinfer''} \<and>
     (arg_kv_quant a \<in> {Some ''turbo4'', Some ''turbo3''} \<longrightarrow> even (arg_block_size a * arg_num_kv_heads a * arg_head_dim a)) \<and>
     (arg_kv_quant a = Some ''nvfp4'' \<longrightarrow> 4 dvd arg_block_size a \<and> 64 dvd arg_head_dim a) \<and>
     (arg_kv_quant a \<noteq> None \<longrightarrow> (\<forall>sh. arg_layer_kv_shape a = Some sh \<longrightarrow> card (set sh) \<le> 1))"
proof (cases "arg_kv_quant a \<in> set supported_kv_quant")
  case True
  then consider "arg_kv_quant a = None" | "arg_kv_quant a = Some ''turbo4''" | "arg_kv_quant a = Some ''turbo3''"
    | "arg_kv_quant a = Some ''fp8''" | "arg_kv_quant a = Some ''nvfp4''"
    unfolding supported_kv_quant_def list.set by (elim insertE emptyE)
  then show ?thesis
    by cases (auto simp: check_pool_args_def supported_kv_quant_def supported_attention_backends_def heterogeneous_iff
        dvd_eq_mod_eq_0 split: option.splits)
next
  case False
  then have "check_pool_args a \<noteq> Inr ()" by (simp add: check_pool_args_def)
  moreover have "arg_kv_quant a \<notin> {None, Some ''turbo4'', Some ''turbo3''} \<union> {None, Some ''fp8'', Some ''nvfp4''}"
    using False by (simp add: supported_kv_quant_def)
  ultimately show ?thesis by auto
qed

lemma check_kv_shape_Inr:
  "check_kv_shape a = Inr () \<longleftrightarrow> length (kv_shape_of a) = arg_num_layers a \<and> (\<forall>(heads, dim) \<in> set (kv_shape_of a). 0 < heads \<and> 0 < dim)"
  by (auto simp: check_kv_shape_def first_error_Inr succeeds_iff split_beta)

lemma check_streams_Inr:
  "check_streams a = Inr () \<longleftrightarrow> (arg_kv_quant a \<noteq> None \<longrightarrow> arg_layer_streams a = None) \<and>
     length (streams_of a) = arg_num_layers a \<and>
     (\<forall>st \<in> set (streams_of a). st \<noteq> [] \<and> distinct (map stream_name st) \<and>
        (\<forall>sp \<in> set st. 0 < stream_kv_heads sp \<and> 0 < stream_head_dim sp))"
proof -
  have "succeeds (if st = [] then Inl ValueError else check_specs [] st) \<longleftrightarrow> st \<noteq> [] \<and> check_specs [] st = Inr ()" for st
    by (simp add: succeeds_iff)
  then have "first_error (map (\<lambda>st. if st = [] then Inl ValueError else check_specs [] st) sts) = Inr () \<longleftrightarrow>
      (\<forall>st \<in> set sts. st \<noteq> [] \<and> check_specs [] st = Inr ())" for sts
    unfolding first_error_Inr set_map ball_simps by (simp only:)
  then show ?thesis by (simp add: check_streams_def check_specs_Inr)
qed

lemma check_layer_attention_Inr:
  "check_layer_attention a = Inr () \<longleftrightarrow> length (layer_attention_of a) = arg_num_layers a \<and>
     (\<forall>sp \<in> set (layer_attention_of a). sp = Full \<or> (\<exists>w > 0. sp = Sliding w))"
proof -
  have "valid_attn_spec sp \<longleftrightarrow> sp = Full \<or> (\<exists>w > 0. sp = Sliding w)" for sp
    by (cases sp) (auto simp: valid_attn_spec_def)
  then show ?thesis by (simp add: check_layer_attention_def first_error_Inr succeeds_iff)
qed

lemma default_shape: "arg_layer_kv_shape a = None \<Longrightarrow> card (set (kv_shape_of a)) \<le> 1"
  by (simp add: kv_shape_of_def set_replicate_conv_if)

lemma consistent_args_iff:
  "consistent_args a \<longleftrightarrow> check_pool_args a = Inr () \<and> check_kv_shape a = Inr () \<and> check_streams a = Inr () \<and>
     check_layer_attention a = Inr ()"
proof -
  have "card (set (kv_shape_of a)) \<le> 1 \<longleftrightarrow> (\<forall>sh. arg_layer_kv_shape a = Some sh \<longrightarrow> card (set sh) \<le> 1)"
    using default_shape [of a] by (cases "arg_layer_kv_shape a") (auto simp: kv_shape_of_def)
  then show ?thesis
    unfolding consistent_args_def Let_def check_pool_args_Inr check_kv_shape_Inr check_streams_Inr check_layer_attention_Inr
    by argo
qed

section \<open>The exceptions\<close>

lemma first_error_mem: "first_error rs = Inl e \<Longrightarrow> Inl e \<in> set rs"
  by (induction rs rule: first_error.induct) auto

lemma checks_raise_value_error:
  "check_pool_args a = Inl e \<Longrightarrow> e = ValueError" "check_kv_shape a = Inl e \<Longrightarrow> e = ValueError"
  "check_streams a = Inl e \<Longrightarrow> e = ValueError" "check_layer_attention a = Inl e \<Longrightarrow> e = ValueError"
proof -
  have [simp]: "Inl e = ensure b x \<longleftrightarrow> \<not> b \<and> e = x" for b x by (auto simp: ensure_def)
  show "check_pool_args a = Inl e \<Longrightarrow> e = ValueError" by (auto simp: check_pool_args_def split: if_splits)
  show "check_kv_shape a = Inl e \<Longrightarrow> e = ValueError" using first_error_mem unfolding check_kv_shape_def by fastforce
  show "check_streams a = Inl e \<Longrightarrow> e = ValueError"
    using first_error_mem check_specs_error unfolding check_streams_def by (fastforce split: if_splits)
  show "check_layer_attention a = Inl e \<Longrightarrow> e = ValueError"
    using first_error_mem unfolding check_layer_attention_def by fastforce
qed

lemma alloc_storage_Inl:
  assumes ok: "consistent_args a"
  shows "alloc_storage a = Inl e \<longleftrightarrow>
    (if arg_kv_quant a = None then arg_num_layers a = 0 \<and> e = IndexError
     else if (arg_num_kv_heads a < 0 \<or> arg_head_dim a < 0) \<and> \<not> (arg_kv_quant a = Some ''turbo3'' \<and> arg_num_kv_heads a = 0)
       then e = RuntimeError
     else (arg_kv_quant a = Some ''turbo4'' \<or> arg_kv_quant a = Some ''turbo3'') \<and>
       (arg_num_layers a = 0 \<or> arg_head_dim a \<le> 0) \<and> e = ValueError)"
proof -
  have s: "0 < arg_num_blocks a" "0 < arg_block_size a" "length (kv_shape_of a) = arg_num_layers a" "length (streams_of a) = arg_num_layers a"
      "arg_kv_quant a \<in> {None, Some ''turbo4'', Some ''turbo3'', Some ''fp8'', Some ''nvfp4''}"
    using ok by (auto simp: consistent_args_def Let_def)
  have packed: "0 \<le> (arg_block_size a * arg_num_kv_heads a * arg_head_dim a) div 2 \<longleftrightarrow> 0 \<le> arg_num_kv_heads a * arg_head_dim a"
    using s(2) by (simp add: pos_imp_zdiv_nonneg_iff mult.assoc zero_le_mult_iff)
  consider "arg_kv_quant a = None" | "arg_kv_quant a = Some ''turbo4''" | "arg_kv_quant a = Some ''turbo3''"
    | "arg_kv_quant a = Some ''fp8''" | "arg_kv_quant a = Some ''nvfp4''"
    using s(5) by (elim insertE emptyE)
  then show ?thesis
  proof cases
    case 1
    have "kv_shape_of a = [] \<longleftrightarrow> arg_num_layers a = 0" "streams_of a = [] \<longleftrightarrow> arg_num_layers a = 0" using s(3,4) by auto
    then show ?thesis using 1 by (auto simp: alloc_storage_def)
  qed (use s(1,2) packed in \<open>auto simp: alloc_storage_def torch_full_def Let_def zero_le_mult_iff pos_imp_zdiv_nonneg_iff split: if_splits\<close>)
qed

lemma pool_init_Inl:
  "pool_init z cast a = Inl e \<longleftrightarrow>
     (if \<not> consistent_args a then e = ValueError
      else if arg_kv_quant a = None then arg_num_layers a = 0 \<and> e = IndexError
      else if arg_kv_quant a \<noteq> None \<and> (arg_num_kv_heads a < 0 \<or> arg_head_dim a < 0) \<and>
          \<not> (arg_kv_quant a = Some ''turbo3'' \<and> arg_num_kv_heads a = 0) then e = RuntimeError
      else (arg_kv_quant a = Some ''turbo4'' \<or> arg_kv_quant a = Some ''turbo3'') \<and>
        (arg_num_layers a = 0 \<or> arg_head_dim a \<le> 0) \<and> e = ValueError)"
proof (cases "consistent_args a")
  case True
  then have "pool_init z cast a = Inl e \<longleftrightarrow> alloc_storage a = Inl e"
    using consistent_args_iff [of a] by (cases "alloc_storage a") (simp_all add: pool_init_def)
  then show ?thesis using True alloc_storage_Inl [OF True, of e] by simp
next
  case False
  then have "pool_init z cast a = Inl ValueError"
    using consistent_args_iff [of a] checks_raise_value_error [of a]
    by (cases "check_pool_args a"; cases "check_kv_shape a"; cases "check_streams a"; cases "check_layer_attention a")
      (auto simp: pool_init_def)
  then show ?thesis using False by auto
qed

end
