(* ===== verification/Decoding_Properties.thy ===== *)
theory Decoding_Properties
  imports Speculative_Proofs Example_Engine Pool_Construction
begin

text \<open>
  What the parts around the engine promise: speculative decoding with two models, the verification of
  DSpark, the sampler, the construction of a pool, and the errors that a handle reports.
\<close>

section \<open>Speculative decoding with two models\<close>

lemma ready_start:
  assumes "runner_fits N digest P0" "servable (lm_rows (rn_model N) P0) digest U P0" "[] \<in> U"
  shows "pool_ready N P0 digest U {#} P0"
  using assms serving_after_step [OF assms(2) serving_start] by (simp add: pool_ready_def)

text \<open>C26: speculative decoding returns the tokens that greedy decoding by the target model alone gives,
  whatever the draft model proposes; the only error is out of memory; and both pools get back every
  block the run took, on every path.\<close>

theorem speculation_is_lossless:
  assumes "0 < sr_K R" "pool_ready (sr_target R) P0 dg U H P" "pool_ready (sr_draft R) Q0 dg' U' H' Q"
    and "tok_encode tok prompt \<noteq> []" "0 < limit" "run_greedy R tok prompt limit (P, Q) = (r, (P', Q'))"
  shows "pool_ready (sr_target R) P0 dg U H P' \<and> pool_ready (sr_draft R) Q0 dg' U' H' Q' \<and>
    (case r of Inr (out, _) \<Rightarrow> out = greedy_until (sr_target_pick R) (next_logits (rn_model (sr_target R)) P0)
         (eos_token_id tok) (tok_encode tok prompt) (nat limit)
     | Inl e \<Rightarrow> e = OutOfMemoryError)"
proof -
  have "env_digest (rn_env (sr_target R)) = dg" "env_digest (rn_env (sr_draft R)) = dg'"
    using assms(2,3) by (simp_all add: pool_ready_def runner_fits_def)
  then show ?thesis
    using run_greedy_ok [where A = "(P0, dg, U, H)" and B = "(Q0, dg', U', H')" and P = P and Q = Q and R = R, OF assms(1) _ _ refl assms(5,4)]
      assms(2,3,6)
    by (auto simp: greedy_done_def split: sum.splits)
qed

text \<open>C27: a run on two idle pools that can hold the prompt, the output and one round of candidates
  returns: no round runs out of blocks and the loop ends.\<close>

theorem speculation_returns:
  assumes "0 < sr_K R" "pool_ready (sr_target R) P0 dg U {#} P" "pool_ready (sr_draft R) Q0 dg' U' {#} Q"
    and "tok_encode tok prompt \<noteq> []" "0 < limit" "n = length (tok_encode tok prompt) + nat limit + sr_K R"
    and "blocks_for (block_size P0) n \<le> num_blocks P0" "blocks_for (block_size Q0) n \<le> num_blocks Q0"
  shows "\<exists>stats P' Q'. run_greedy R tok prompt limit (P, Q) =
    (Inr (greedy_until (sr_target_pick R) (next_logits (rn_model (sr_target R)) P0)
       (eos_token_id tok) (tok_encode tok prompt) (nat limit), stats), (P', Q'))"
proof -
  have "env_digest (rn_env (sr_target R)) = dg" "env_digest (rn_env (sr_draft R)) = dg'"
    using assms(2,3) by (simp_all add: pool_ready_def runner_fits_def)
  note run = run_greedy_ok [where A = "(P0, dg, U, {#})" and B = "(Q0, dg', U', {#})" and P = P and Q = Q and R = R, unfolded fst_conv snd_conv,
      OF assms(1-3) refl assms(5,4) this]
  obtain r P' Q' where "run_greedy R tok prompt limit (P, Q) = (r, (P', Q'))"
    "case r of Inr (gen, _) \<Rightarrow> greedy_done R (P0, dg, U, {#}) (eos_token_id tok) (nat limit) (tok_encode tok prompt) gen
     | Inl e \<Rightarrow> e = OutOfMemoryError \<and> \<not> (holds_tokens P0 {#} n \<and> holds_tokens Q0 {#} n)"
    using run unfolding assms(6) by blast
  then show ?thesis using assms(7,8) by (cases r) (auto simp: greedy_done_def holds_tokens_def)
qed

text \<open>Two models on the pool of the example: they agree on some tokens and differ on others.\<close>

definition ex_spec_runner :: "(int, int, int, int, int, int) spec_runner" where
  "ex_spec_runner = \<lparr>sr_target = ex_runner, sr_target_pick = (\<lambda>x. 12 + x mod 7), sr_draft = ex_runner,
     sr_draft_pick = (\<lambda>x. if even x then 12 + x mod 7 else 13), sr_K = 2\<rparr>"

lemma ex_runner_fits: "runner_fits ex_runner ex_digest ex_pool"
proof -
  have "is_legacy_kv_layout ex_pool" "length (layer_kv_shape ex_pool) = 1" "length (layer_attention ex_pool) = 1" by code_simp+
  then show ?thesis by (simp add: runner_fits_def lm_fits_def ex_runner_def ex_lm_def ex_pool_sel)
qed

lemma ex_ready: "pool_ready ex_runner ex_pool ex_digest {[]} {#} ex_pool"
proof (rule ready_start [OF ex_runner_fits])
  have "compute_block_hashes ex_digest [] 2 = Inr []" by code_simp
  then have "prompts_ok ex_digest 2 {[]}" by (simp add: prompts_ok_def)
  moreover have "pkey ex_pool x = None" for x
    by (simp add: pkey_def ex_pool_sel(3) key_of_def entry_of_def ex_prefix_cache_def)
  ultimately have "pool_right kv ex_digest {[]} ex_pool" for kv
    by (simp add: pool_right_def keys_known_def stored_right_def ex_pool_sel)
  moreover have "length (layer_kv_shape ex_pool) = 1" by code_simp
  ultimately show "servable (lm_rows (rn_model ex_runner) ex_pool) ex_digest {[]} ex_pool"
    using ex_pool_inv by (simp add: servable_def ex_pool_sel)
qed simp

lemma ex_spec_eval:
  "greedy_until (sr_target_pick ex_spec_runner) (next_logits (rn_model (sr_target ex_spec_runner)) ex_pool)
     (eos_token_id ex_tokenizer) (tok_encode ex_tokenizer ''abcde'') (nat 4) = [18, 14, 17, 13]"
  "tok_encode ex_tokenizer ''abcde'' = [11, 12, 13, 14, 15]"
  by code_simp+

lemma ex_spec_sel: "sr_target ex_spec_runner = ex_runner" "sr_draft ex_spec_runner = ex_runner" "sr_K ex_spec_runner = 2"
  by (simp_all add: ex_spec_runner_def)

theorem speculation_is_lossless_witness:
  "\<exists>r P' Q'. run_greedy ex_spec_runner ex_tokenizer ''abcde'' 4 (ex_pool, ex_pool) = (r, (P', Q')) \<and>
    pool_ready ex_runner ex_pool ex_digest {[]} {#} P' \<and>
    (case r of Inr (out, _) \<Rightarrow> out = [18, 14, 17, 13] | Inl e \<Rightarrow> e = OutOfMemoryError)"
proof -
  obtain r P' Q' where r: "run_greedy ex_spec_runner ex_tokenizer ''abcde'' 4 (ex_pool, ex_pool) = (r, (P', Q'))"
    by (metis prod.exhaust)
  have "0 < sr_K ex_spec_runner" "tok_encode ex_tokenizer ''abcde'' \<noteq> []" "(0::int) < 4"
    by (simp_all add: ex_spec_sel ex_spec_eval)
  then show ?thesis
    using speculation_is_lossless [where R = ex_spec_runner, unfolded ex_spec_sel(1,2), OF _ ex_ready ex_ready _ _ r [unfolded ex_spec_sel]] r ex_spec_eval(1)
    by (auto simp: ex_spec_sel split: sum.splits)
qed

theorem speculation_returns_witness:
  "\<exists>stats P' Q'. run_greedy ex_spec_runner ex_tokenizer ''abcde'' 4 (ex_pool, ex_pool) = (Inr ([18, 14, 17, 13], stats), (P', Q'))"
proof -
  have "blocks_for (block_size ex_pool) (length (tok_encode ex_tokenizer ''abcde'') + nat 4 + sr_K ex_spec_runner) \<le> num_blocks ex_pool"
    by (simp add: ex_spec_sel ex_spec_eval(2) ex_pool_sel blocks_for_def)
  then show ?thesis
    using speculation_returns [where R = ex_spec_runner, unfolded ex_spec_sel(1,2), OF _ ex_ready ex_ready _ _ refl, of ex_tokenizer "''abcde''" 4]
      ex_spec_eval by (simp add: ex_spec_sel)
qed

section \<open>DSpark\<close>

lemma match_prefix_count: "match_prefix ts ds = accept_count ts ds"
  by (induction ts ds rule: match_prefix.induct) simp_all

text \<open>C28: a greedy DSpark round of a request returns an accepted prefix of the offered tokens and one more
  token, together the greedy continuation by the target model; it draws no random number.\<close>

theorem dspark_greedy_round_is_lossless:
  assumes "temp < greedy_temperature" "rows = map (\<lambda>j. target (h @ take j offered)) [0 ..< Suc (length offered)]"
  shows "\<exists>a bonus. verify_block S rows offered draft temp g = (Inr (a, bonus), g) \<and> a \<le> length offered \<and>
    greedy_run (argmax S) target h (take a offered @ [bonus])"
proof -
  let ?a = "match_prefix (map (argmax S) rows) offered"
  have len: "length (map (argmax S) rows) = Suc (length offered)" using assms(2) by simp
  have at: "map (argmax S) rows ! j = argmax S (target (h @ take j offered))" if "j \<le> length offered" for j
    using that assms(2) by (simp del: upt_Suc)
  have g: "?a \<le> length offered" "greedy_run (argmax S) target h (take ?a offered @ [map (argmax S) rows ! ?a])"
    using accepted_greedy [OF len, of "argmax S" target h] at unfolding match_prefix_count by blast+
  then have "verify_greedy S rows offered = Inr (?a, map (argmax S) rows ! ?a)"
    using len by (simp add: verify_greedy_def Let_def nth_res_def del: map_map)
  then show ?thesis using g assms(1) by (simp add: verify_block_def)
qed

theorem dspark_greedy_round_is_lossless_witness:
  "\<exists>a bonus. verify_block ex_sampler [4, 9, 2] [15, 13] [] 0 7 = (Inr (a, bonus), 7) \<and> a \<le> 2 \<and>
    greedy_run (argmax ex_sampler) (\<lambda>q. if length q = 1 then 4 else if length q = 2 then 9 else 2) [11] (take a [15, 13] @ [bonus])"
  using dspark_greedy_round_is_lossless [of 0 "[4, 9, 2]" "\<lambda>q. if length q = 1 then 4 else if length q = 2 then 9 else 2"
      "[11]" "[15, 13]" ex_sampler "[]" 7]
  by (simp add: greedy_temperature_def numeral_2_eq_2)

text \<open>C29: a sampling DSpark round accepts the offered tokens up to the first whose uniform draw is not below
  its acceptance probability; then it draws from the residual of that position, and from the row after
  the last offered token when all are accepted. These two probabilities give the target back: at every
  position whose target and draft rows are distributions over the same tokens, the probability that a
  token is drafted and accepted, or drawn after a rejection, is its probability under the target, up to the
  guard value of the code for each draft entry below that value (which the guard divides by), and up to one
  more when the residual has at most that mass. With no such entry and a larger residual it is exact.\<close>

theorem dspark_sampling_is_lossless:
  assumes "greedy_temperature \<le> temp" "length rows = Suc (length offered)" "length offered \<le> length draft"
    and "P = map (softmax S temp) rows"
  shows "(\<exists>a bonus. verify_block S rows offered draft temp g = (Inr (a, bonus), if offered = [] then g + 1 else g + 2) \<and>
      a \<le> length offered \<and> (\<forall>i < a. uniform S g i < accept_prob (P ! i) (draft ! i) (offered ! i)) \<and>
      (a < length offered \<longrightarrow> accept_prob (P ! a) (draft ! a) (offered ! a) \<le> uniform S g a \<and>
        bonus = multinomial S (g + 1) (residual_dist (P ! a) (draft ! a))) \<and>
      (a = length offered \<longrightarrow> bonus = multinomial S (if offered = [] then g else g + 1) (P ! a))) \<and>
    (\<forall>i < length offered. \<forall>x < length (draft ! i).
      distribution (P ! i) \<and> distribution (draft ! i) \<and> length (P ! i) = length (draft ! i) \<longrightarrow>
      (let accept = accept_prob (P ! i) (draft ! i); d = (!) (draft ! i); t = (!) (P ! i);
           emitted = d x * accept (int x) +
             (\<Sum>y < length (draft ! i). d y * (1 - accept (int y))) * residual_dist (P ! i) (draft ! i) ! x;
           k = of_nat (card {y. y < length (draft ! i) \<and> 0 < d y \<and> d y < tiny})
       in \<bar>emitted - t x\<bar> \<le> (k + 1) * tiny \<and>
         (tiny < (\<Sum>y < length (draft ! i). max 0 (t y - d y)) \<longrightarrow> \<bar>emitted - t x\<bar> \<le> k * tiny)))"
  using verify_block_sampling [OF assms, of g] emission_bound unfolding Let_def small_entries_def by blast

definition ex_half_sampler :: "int sampler" where
  "ex_half_sampler = ex_sampler\<lparr>softmax := \<lambda>_ _. [1/2, 1/2], uniform := \<lambda>_ _. 9/10,
     multinomial := \<lambda>_ d. if d = [0, 1] then 1 else 0\<rparr>"

theorem dspark_sampling_is_lossless_witness:
  "verify_block ex_half_sampler [0, 0] [0] [[3/4, 1/4]] 1 5 = (Inr (0, 1), 7) \<and>
   \<bar>1/4 * accept_prob [1/2, 1/2] [3/4, 1/4] 1 +
     (3/4 * (1 - accept_prob [1/2, 1/2] [3/4, 1/4] 0) + 1/4 * (1 - accept_prob [1/2, 1/2] [3/4, 1/4] 1)) *
       residual_dist [1/2, 1/2] [3/4, 1/4] ! 1 - 1/2\<bar> \<le> 0"
proof -
  have s: "(\<Sum>x < Suc (Suc 0). f x) = f 0 + f 1" for f :: "nat \<Rightarrow> rat" by (simp add: lessThan_Suc)
  have d: "distribution [1/2, 1/2]" "distribution [3/4, 1/4]"
    by (auto simp: distribution_def less_Suc_eq s)
  have k: "{y. y < Suc (Suc 0) \<and> 0 < [3/4, 1/4 :: rat] ! y \<and> [3/4, 1/4] ! y < tiny} = {}"
    by (auto simp: tiny_def less_Suc_eq nth_Cons')
  have r: "residual_dist [1/2, 1/2] [3/4, 1/4] = [0, 1]" "accept_prob [1/2, 1/2] [3/4, 1/4] 0 = 2/3"
    by (simp_all add: residual_dist_def accept_prob_def prob_def tiny_def Let_def)
  note c = dspark_sampling_is_lossless [of 1 "[0, 0]" "[0]" "[[3/4, 1/4]]" "[[1/2, 1/2], [1/2, 1/2]]" ex_half_sampler 5]
  have P: "[[1/2, 1/2], [1/2, 1/2]] = map (softmax ex_half_sampler 1) [0, 0]" by (simp add: ex_half_sampler_def)
  have hyps: "greedy_temperature \<le> 1" "length [0, 0 :: int] = Suc (length [0 :: token])" "length [0 :: token] \<le> length [[3/4, 1/4 :: rat]]"
    by (simp_all add: greedy_temperature_def)
  have n: "length [0 :: token] = 1" "(if [0 :: token] = [] then 5 + 1 else 5 + 2) = (7 :: nat)" by simp_all
  obtain a bonus where v: "verify_block ex_half_sampler [0, 0] [0] [[3/4, 1/4]] 1 5 = (Inr (a, bonus), 7)" "a \<le> 1"
      and acc: "\<forall>i < a. uniform ex_half_sampler 5 i < accept_prob ([[1/2, 1/2], [1/2, 1/2]] ! i) ([[3/4, 1/4]] ! i) ([0] ! i)"
      and rej: "a < 1 \<longrightarrow> bonus = multinomial ex_half_sampler (5 + 1) (residual_dist ([[1/2, 1/2], [1/2, 1/2]] ! a) ([[3/4, 1/4]] ! a))"
    using conjunct1 [OF c [OF hyps P], unfolded n] by blast
  have "a = 0" using acc v(2) r(2) by (cases a) (auto simp: ex_half_sampler_def)
  then have "verify_block ex_half_sampler [0, 0] [0] [[3/4, 1/4]] 1 5 = (Inr (0, 1), 7)"
    using v(1) rej by (simp add: r ex_half_sampler_def)
  moreover have "tiny < (\<Sum>y < Suc (Suc 0). max 0 ([1/2, 1/2] ! y - [3/4, 1/4] ! y))" by (simp add: s tiny_def)
  ultimately show ?thesis
    using conjunct2 [OF c [OF hyps P], THEN spec [of _ 0], THEN mp, THEN spec [of _ 1]] d k
    by (simp add: s Let_def)
qed

section \<open>Sampling\<close>

text \<open>C35: in a batch that mixes greedy and random requests, each greedy request gets the token that
  sampling its row alone gives, and a batch of greedy requests draws no random number.\<close>

theorem batch_keeps_greedy_rows:
  assumes "length rows = length ps" "i < length rows" "temperature (ps ! i) = 0"
  shows "\<exists>ts g'. sample_batch S rows ps g = (Inr ts, g') \<and> length ts = length rows \<and>
    ts ! i = fst (sample S (rows ! i) (ps ! i) g) \<and> ((\<forall>p \<in> set ps. temperature p = 0) \<longrightarrow> g' = g)"
  using assms by (simp add: sample_batch_def sample_tokens_def sample_def list_all_iff Let_def)

theorem batch_keeps_greedy_rows_witness:
  "\<exists>ts g'. sample_batch ex_sampler [5, 9] [\<lparr>temperature = 1, top_k = 0, top_p = 1\<rparr>, \<lparr>temperature = 0, top_k = 0, top_p = 1\<rparr>] 3 =
     (Inr ts, g') \<and> ts ! 1 = 13"
  using batch_keeps_greedy_rows [of "[5, 9]" "[\<lparr>temperature = 1, top_k = 0, top_p = 1\<rparr>, \<lparr>temperature = 0, top_k = 0, top_p = 1\<rparr>]" 1 ex_sampler 3]
  by (auto simp: sample_def ex_sampler_def)

section \<open>The pool\<close>

text \<open>C33: a pool that the constructor accepts is well formed: every block is free, each layer has its
  attention spec, its shape and at least one stream, and the streams of a layer have positive dimensions
  and different names.\<close>

theorem constructed_pool_is_sound:
  assumes "pool_init z cast a = Inr P" "fresh_prefix_cache a"
  shows "pool_inv P {#} \<and> available P = num_blocks P \<and> int (num_blocks P) = arg_num_blocks a \<and> 0 < block_size P \<and>
    length (layer_kv_shape P) = num_layers P \<and> length (layer_stream_specs P) = num_layers P \<and>
    length (layer_attention P) = num_layers P \<and>
    (\<forall>st \<in> set (layer_stream_specs P). st \<noteq> [] \<and> distinct (map stream_name st) \<and>
       (\<forall>sp \<in> set st. 0 < stream_kv_heads sp \<and> 0 < stream_head_dim sp))"
proof -
  have c: "check_kv_shape a = Inr ()" "check_streams a = Inr ()" "check_layer_attention a = Inr ()" "check_pool_args a = Inr ()"
    using assms(1) by (auto simp: pool_init_def first_error_Inr succeeds_iff split: sum.splits)
  note pos = check_pool_args_block_size [OF c(4)]
  have P: "layer_kv_shape P = kv_shape_of a" "layer_stream_specs P = streams_of a" "layer_attention P = layer_attention_of a"
    using assms(1) by (auto simp: pool_init_def split: sum.splits)
  let ?check = "\<lambda>st. if st = [] then Inl ValueError else check_specs [] st"
  have "first_error (map ?check (streams_of a)) = Inr ()" using c(2) by (simp add: check_streams_def split: if_splits)
  then have all: "list_all (\<lambda>st. succeeds (?check st)) (streams_of a)"
    unfolding first_error_Inr by (simp only: list_all_iff set_map ball_simps)
  have s: "st \<noteq> [] \<and> check_specs [] st = Inr ()" if "st \<in> set (streams_of a)" for st
  proof -
    have "succeeds (?check st)" using all that by (simp only: list_all_iff)
    then show ?thesis by (simp add: succeeds_iff split: if_splits)
  qed
  have "length (kv_shape_of a) = arg_num_layers a" "length (streams_of a) = arg_num_layers a" "length (layer_attention_of a) = arg_num_layers a"
    using c(1-3) by (simp_all add: check_kv_shape_def check_streams_def check_layer_attention_def split: if_splits)
  then show ?thesis
    using pool_init_inv [OF assms] pool_init_sel [OF assms(1)] pos P check_specs_ok [of "[]"] s by auto
qed

theorem constructed_pool_is_sound_witness: "pool_inv ex_pool {#} \<and> available ex_pool = 8"
  using constructed_pool_is_sound [OF ex_pool_eq ex_fresh] ex_pool_sel by simp

text \<open>C34: what the constructor does with any arguments: \<open>ValueError\<close> when they are not consistent
  (\<open>consistent_args\<close> says each condition), or for a turbo pool without layers or with a head of no
  dimension; \<open>IndexError\<close> for an uncompressed pool without layers; \<open>RuntimeError\<close> for a compressed pool of
  a negative number of heads or head dimension (a turbo3 pool without heads allocates nothing that has
  the head dimension); a pool in every other case.\<close>

theorem pool_constructor_outcomes:
  "pool_init z cast a = Inl e \<longleftrightarrow>
     (let quant = arg_kv_quant a; layers = arg_num_layers a; heads = arg_num_kv_heads a; dim = arg_head_dim a;
          turbo = (quant = Some ''turbo4'' \<or> quant = Some ''turbo3'');
          negative = (quant \<noteq> None \<and> (heads < 0 \<or> dim < 0) \<and> \<not> (quant = Some ''turbo3'' \<and> heads = 0))
      in if \<not> consistent_args a then e = ValueError
         else if quant = None then layers = 0 \<and> e = IndexError
         else if negative then e = RuntimeError
         else turbo \<and> (layers = 0 \<or> dim \<le> 0) \<and> e = ValueError)"
  unfolding Let_def by (rule pool_init_Inl)

section \<open>What a handle reports\<close>

text \<open>The steps that a handle can still see: those in its queue and those the engine puts during the polls.\<close>

definition steps_seen :: "poll list \<Rightarrow> ('lg, 'c) running_request \<Rightarrow> generation_step set" where
  "steps_seen ps r = set (sq_items (output_queue r)) \<union> (\<Union>p \<in> set ps. set (put_before p) \<union> set (put_between p))"

text \<open>Why a read failed.\<close>

definition failure_cause :: "poll list \<Rightarrow> generation_step set \<Rightarrow> py_error \<Rightarrow> bool \<Rightarrow> bool" where
  "failure_cause ps seen e cancelled \<longleftrightarrow>
     e = RequestFailedError \<and> (\<exists>s \<in> seen. gs_failed s) \<or>
     e = TimeoutError \<and> (\<exists>p \<in> set ps. past_deadline p) \<or>
     e = EngineNotRunningError \<and> (\<exists>p \<in> set ps. engine_alive p = Some False) \<and> cancelled"

lemma put_dropping_subset: "set (sq_items (put_dropping s q)) \<subseteq> insert s (set (sq_items q))"
  by (auto simp: put_dropping_def put_nowait_def get_nowait_def split: list.splits if_splits prod.splits sum.splits)

lemma engine_puts_seen: "set (sq_items (output_queue (engine_puts ss r))) \<subseteq> set (sq_items (output_queue r)) \<union> set ss"
proof -
  have "set (sq_items (foldl (\<lambda>q s. put_dropping s q) q ss)) \<subseteq> set (sq_items q) \<union> set ss" for q
    by (induction ss arbitrary: q) (use put_dropping_subset in fastforce)+
  then show ?thesis by (simp add: engine_puts_def)
qed

lemma poll_turn_cause:
  assumes "poll_turn p r = (out, r')"
  shows "set (sq_items (output_queue r')) \<subseteq> steps_seen [p] r"
    "out = Inl e \<Longrightarrow> failure_cause [p] (steps_seen [p] r) e (cancel_event r')"
    "out = Inr (Some s) \<Longrightarrow> s \<in> steps_seen [p] r"
    "tokens_generated r' = tokens_generated r \<and> prompt_token_ids r' = prompt_token_ids r"
proof -
  let ?r1 = "engine_puts (put_before p) r" and ?r2 = "engine_puts (put_between p) (engine_puts (put_before p) r)"
  have 1: "set (sq_items (output_queue ?r1)) \<subseteq> steps_seen [p] r"
    using engine_puts_seen [of "put_before p" r] by (auto simp: steps_seen_def)
  have 2: "set (sq_items (output_queue ?r2)) \<subseteq> steps_seen [p] r"
    using engine_puts_seen [of "put_between p" ?r1] 1 by (auto simp: steps_seen_def)
  note defs = poll_turn_def after_empty_poll_def get_nowait_def take_step_def cancel_def Let_def failure_cause_def
  show "set (sq_items (output_queue r')) \<subseteq> steps_seen [p] r"
    "out = Inl e \<Longrightarrow> failure_cause [p] (steps_seen [p] r) e (cancel_event r')"
    "out = Inr (Some s) \<Longrightarrow> s \<in> steps_seen [p] r"
    using assms 1 2 by (fastforce simp: defs split: list.splits if_splits prod.splits sum.splits option.splits)+
  show "tokens_generated r' = tokens_generated r \<and> prompt_token_ids r' = prompt_token_ids r"
    using assms by (auto simp: defs engine_puts_def split: list.splits if_splits prod.splits sum.splits option.splits)
qed

lemma failure_cause_mono:
  "failure_cause ps seen e c \<Longrightarrow> set ps \<subseteq> set qs \<Longrightarrow> seen \<subseteq> seen' \<Longrightarrow> failure_cause qs seen' e c"
  unfolding failure_cause_def by blast

lemma steps_seen_Cons:
  assumes "set (sq_items (output_queue r')) \<subseteq> steps_seen [p] r"
  shows "steps_seen ps r' \<subseteq> steps_seen (p # ps) r" "steps_seen [p] r \<subseteq> steps_seen (p # ps) r"
  using assms by (auto simp: steps_seen_def)

lemma next_step_cause:
  "next_step ps r = ((out, ps'), r') \<Longrightarrow> set ps' \<subseteq> set ps \<and> set (sq_items (output_queue r')) \<subseteq> steps_seen ps r \<and>
     (\<forall>e. out = Some (Inl e) \<longrightarrow> failure_cause ps (steps_seen ps r) e (cancel_event r')) \<and>
     tokens_generated r' = tokens_generated r \<and> prompt_token_ids r' = prompt_token_ids r"
proof (induction ps r arbitrary: out ps' r' rule: next_step.induct)
  case (1 r)
  then show ?case by (auto simp: steps_seen_def)
next
  case (2 p ps r)
  obtain x r1 where t: "poll_turn p r = (x, r1)" by (metis surj_pair)
  note c = poll_turn_cause [OF t]
  note mono = steps_seen_Cons [OF c(1), of ps]
  show ?case
  proof (cases "x = Inr None")
    case True
    then have "next_step ps r1 = ((out, ps'), r')" using 2(2) t by simp
    note ih = 2(1) [OF t [symmetric] True refl this]
    have "failure_cause (p # ps) (steps_seen (p # ps) r) e (cancel_event r')" if "out = Some (Inl e)" for e
      by (rule failure_cause_mono [of ps "steps_seen ps r1"]) (use ih that mono(1) in auto)
    then show ?thesis using ih mono(1) c(4) by auto
  next
    case False
    have "failure_cause (p # ps) (steps_seen (p # ps) r) e (cancel_event r1)" if "x = Inl e" for e
      by (rule failure_cause_mono [OF c(2) [OF that]]) (use mono(2) in auto)
    then show ?thesis using False 2(2) t mono(2) c(1,4) by (auto split: sum.splits option.splits)
  qed
qed

lemma wait_result_cause:
  "wait_result parts ps r = (out, r') \<Longrightarrow>
     (\<forall>e. out = Some (Inl e) \<longrightarrow> failure_cause ps (steps_seen ps r) e (cancel_event r')) \<and>
     (\<forall>res. out = Some (Inr res) \<longrightarrow> gr_tokens res = tokens_generated r \<and> gr_prompt_tokens res = length (prompt_token_ids r))"
proof (induction "length ps" arbitrary: parts ps r rule: less_induct)
  case less
  obtain x ps' r1 where n: "next_step ps r = ((x, ps'), r1)" by (metis surj_pair)
  note c = next_step_cause [OF n]
  show ?case
  proof (cases x)
    case (Some y)
    show ?thesis
    proof (cases y)
      case (Inr s)
      show ?thesis
      proof (cases "gs_finish s")
        case None
        have "length ps' < length ps" using next_step_shorter n Some by blast
        moreover have "wait_result (parts @ gs_text s) ps' r1 = (out, r')" using less.prems n Some Inr None by (simp add: wait_result_simp [of parts])
        ultimately have ih: "(\<forall>e. out = Some (Inl e) \<longrightarrow> failure_cause ps' (steps_seen ps' r1) e (cancel_event r')) \<and>
          (\<forall>res. out = Some (Inr res) \<longrightarrow> gr_tokens res = tokens_generated r1 \<and> gr_prompt_tokens res = length (prompt_token_ids r1))"
          by (rule less.hyps)
        have "steps_seen ps' r1 \<subseteq> steps_seen ps r" using c by (auto simp: steps_seen_def)
        then show ?thesis using ih c failure_cause_mono by metis
      qed (use less.prems n Some Inr c in \<open>auto simp: wait_result_simp [of parts] build_result_def\<close>)
    qed (use less.prems n Some c in \<open>auto simp: wait_result_simp [of parts]\<close>)
  qed (use less.prems n in \<open>auto simp: wait_result_simp [of parts]\<close>)
qed

text \<open>C32: when waiting for a result raises, the exception has its cause: \<open>RequestFailedError\<close> a failed step
  among those the handle could see, \<open>TimeoutError\<close> a passed deadline, and \<open>EngineNotRunningError\<close> an engine
  that was found dead, after which the request is cancelled. No other exception is raised.\<close>

theorem handle_reports_failures:
  assumes "wait_result parts ps r = (Some (Inl e), r')"
  shows "e = RequestFailedError \<and> (\<exists>s \<in> steps_seen ps r. gs_failed s) \<or>
    e = TimeoutError \<and> (\<exists>p \<in> set ps. past_deadline p) \<or>
    e = EngineNotRunningError \<and> (\<exists>p \<in> set ps. engine_alive p = Some False) \<and> cancel_event r'"
  using wait_result_cause [OF assms] by (simp add: failure_cause_def)

definition ex_dead_poll :: poll where
  "ex_dead_poll = \<lparr>put_before = [], engine_alive = Some False, put_between = [], past_deadline = False\<rparr>"

theorem handle_reports_failures_witness:
  "\<exists>e r'. wait_result [] [ex_dead_poll] (running_request_init (ex_request 0 1) 256 :: (int, int list) running_request) = (Some (Inl e), r') \<and>
     e = EngineNotRunningError \<and> cancel_event r'"
proof -
  let ?r = "running_request_init (ex_request 0 1) 256 :: (int, int list) running_request"
  have "case fst (wait_result [] [ex_dead_poll] ?r) of Some (Inl _) \<Rightarrow> True | _ \<Rightarrow> False"
    by (simp add: wait_result_simp poll_turn_def engine_puts_def ex_dead_poll_def running_request_init_def step_queue_init_def
        get_nowait_def after_empty_poll_def Let_def)
  then obtain e r' where w: "wait_result [] [ex_dead_poll] ?r = (Some (Inl e), r')"
    by (cases "wait_result [] [ex_dead_poll] ?r") (auto split: option.splits sum.splits)
  then show ?thesis using handle_reports_failures [OF w]
    by (auto simp: steps_seen_def ex_dead_poll_def running_request_init_def step_queue_init_def)
qed

end
