(* ===== verification/Quant_Formats.thy ===== *)
theory Quant_Formats
  imports Infer_Prelude Complex_Main
begin

text \<open>
  The number formats of \<open>quant/nvfp4.py\<close>, \<open>quant/mxfp4.py\<close>, \<open>quant/int8.py\<close> and the first version of
  \<open>cache/turbo_quant.py\<close>. A byte is a word of eight bits and the bit operations are those of the code. The
  values are exact rationals: the rounding of float32 and bfloat16 arithmetic is not modelled, and of
  their overflow only that of the E2M1 weights (\<open>to_bf16\<close> in \<open>Weight_Quant\<close>), where it occurs with valid
  scales; the rounding of a quantiser (\<open>torch.round\<close>, half to even) is modelled. A matrix is the list of its rows.
\<close>

unbundle bit_operations_syntax

section \<open>Two nibbles in a byte\<close>

text \<open>\<open>low | (high << 4)\<close> over \<open>flat[0::2]\<close> and \<open>flat[1::2]\<close>.\<close>

fun pack_nibbles :: "byte list \<Rightarrow> byte list" where
  "pack_nibbles (a # b # qs) = (a OR push_bit 4 b) # pack_nibbles qs"
| "pack_nibbles _ = []"

definition low_nibble :: "byte \<Rightarrow> byte" where
  "low_nibble w = w AND 0x0F"

definition high_nibble :: "byte \<Rightarrow> byte" where
  "high_nibble w = drop_bit 4 w AND 0x0F"

definition unpack_nibbles :: "byte list \<Rightarrow> byte list" where
  "unpack_nibbles bs = concat (map (\<lambda>w. [low_nibble w, high_nibble w]) bs)"

definition byte_value :: "byte \<Rightarrow> rat" where
  "byte_value w = of_int (uint w)"

definition nibble :: "byte \<Rightarrow> bool" where
  "nibble q \<longleftrightarrow> q AND 0x0F = q"

lemma nibble_mask: "(0x0F :: byte) = mask 4"
  by (simp add: mask_eq_exp_minus_1)

lemma nibble_bits: "nibble q \<longleftrightarrow> (\<forall>n \<ge> 4. \<not> bit q n)"
proof
  assume "nibble q"
  then have q: "q AND mask 4 = q" unfolding nibble_def nibble_mask .
  have "bit q n \<Longrightarrow> n < 4" for n
  proof -
    assume "bit q n"
    then have "bit (q AND mask 4) n" unfolding q .
    then show "n < 4" by (simp add: bit_and_iff bit_mask_iff)
  qed
  then show "\<forall>n \<ge> 4. \<not> bit q n" by (auto simp: not_le [symmetric])
next
  assume "\<forall>n \<ge> 4. \<not> bit q n"
  then have "q AND mask 4 = q" by (intro bit_word_eqI) (auto simp: bit_and_iff bit_mask_iff not_le)
  then show "nibble q" unfolding nibble_def nibble_mask .
qed

lemma nibble_of_bytes: "nibble (low_nibble w)" "nibble (high_nibble w)"
  by (simp_all add: nibble_def low_nibble_def high_nibble_def and.assoc)

lemma nibbles_of_pair:
  assumes "nibble a" "nibble b"
  shows "low_nibble (a OR push_bit 4 b) = a" "high_nibble (a OR push_bit 4 b) = b"
proof -
  have a: "bit a n \<Longrightarrow> n < 4" and b: "bit b n \<Longrightarrow> n < 4" for n
    using assms by (auto simp: nibble_bits not_le [symmetric])
  show "low_nibble (a OR push_bit 4 b) = a"
    unfolding low_nibble_def nibble_mask by (rule bit_word_eqI) (auto simp: bit_and_iff bit_or_iff bit_push_bit_iff bit_mask_iff dest: a)
  show "high_nibble (a OR push_bit 4 b) = b"
    unfolding high_nibble_def nibble_mask by (rule bit_word_eqI) (auto simp: bit_and_iff bit_or_iff bit_push_bit_iff bit_drop_bit_eq bit_mask_iff dest: a b)
qed

lemma pair_of_nibbles: "low_nibble w OR push_bit 4 (high_nibble w) = w"
proof -
  show ?thesis
    unfolding low_nibble_def high_nibble_def nibble_mask
    by (rule bit_word_eqI) (auto simp: bit_and_iff bit_or_iff bit_push_bit_iff bit_drop_bit_eq bit_mask_iff)
qed

lemma unpack_pack: "even (length qs) \<Longrightarrow> \<forall>q \<in> set qs. nibble q \<Longrightarrow> unpack_nibbles (pack_nibbles qs) = qs"
  by (induction qs rule: pack_nibbles.induct) (simp_all add: unpack_nibbles_def nibbles_of_pair)

lemma pack_unpack: "pack_nibbles (unpack_nibbles bs) = bs"
  by (induction bs) (simp_all add: unpack_nibbles_def pair_of_nibbles)

lemma length_unpack [simp]: "length (unpack_nibbles bs) = 2 * length bs"
  by (induction bs) (simp_all add: unpack_nibbles_def)

lemma length_pack: "length (pack_nibbles qs) = length qs div 2"
  by (induction qs rule: pack_nibbles.induct) simp_all

lemma unpack_nth: "j < 2 * length bs \<Longrightarrow> unpack_nibbles bs ! j = (if even j then low_nibble else high_nibble) (bs ! (j div 2))"
proof (induction bs arbitrary: j)
  case (Cons w bs)
  have "unpack_nibbles (w # bs) = low_nibble w # high_nibble w # unpack_nibbles bs" by (simp add: unpack_nibbles_def)
  moreover have "j = 0 \<or> j = 1 \<or> (\<exists>i. j = Suc (Suc i))" by (metis One_nat_def nat.exhaust)
  ultimately show ?case using Cons by auto
qed simp

section \<open>Rounding\<close>

text \<open>\<open>torch.round\<close>: to the nearest integer, a tie to the even one.\<close>

definition round_even :: "rat \<Rightarrow> int" where
  "round_even x = (let f = \<lfloor>x\<rfloor>; d = x - of_int f in
     if d < 1 / 2 then f else if 1 / 2 < d then f + 1 else if even f then f else f + 1)"

lemma round_even_near: "\<bar>of_int (round_even x) - x\<bar> \<le> 1 / 2"
proof -
  have "of_int \<lfloor>x\<rfloor> \<le> x" "x < of_int \<lfloor>x\<rfloor> + 1" by linarith+
  then show ?thesis by (auto simp: round_even_def Let_def abs_le_iff)
qed

lemma round_even_bounds:
  assumes "of_int a \<le> x" "x \<le> of_int b"
  shows "a \<le> round_even x \<and> round_even x \<le> b"
proof -
  have f: "a \<le> \<lfloor>x\<rfloor>" using assms(1) by (simp add: le_floor_iff)
  have "of_int \<lfloor>x\<rfloor> \<le> (of_int b :: rat)" using assms(2) by linarith
  then have le: "\<lfloor>x\<rfloor> \<le> b" by simp
  show ?thesis
  proof (cases "\<lfloor>x\<rfloor> = b")
    case True
    then have "x - of_int \<lfloor>x\<rfloor> \<le> 0" using assms(2) by simp
    then show ?thesis using f True by (auto simp: round_even_def Let_def)
  next
    case False
    then show ?thesis using f le by (auto simp: round_even_def Let_def)
  qed
qed

definition clamp_int :: "int \<Rightarrow> int \<Rightarrow> int \<Rightarrow> int" where
  "clamp_int lo hi x = min hi (max lo x)"

text \<open>A step of a uniform quantiser is at most half a step away from the value.\<close>

lemma quantise_error:
  assumes "0 < scale" "of_int a * scale \<le> y" "y \<le> of_int b * scale"
  shows "a \<le> clamp_int a b (round_even (y / scale))" "clamp_int a b (round_even (y / scale)) \<le> b"
    "\<bar>of_int (clamp_int a b (round_even (y / scale))) * scale - y\<bar> \<le> scale / 2"
proof -
  have "of_int a \<le> y / scale" "y / scale \<le> of_int b" using assms by (simp_all add: field_simps)
  then have r: "a \<le> round_even (y / scale)" "round_even (y / scale) \<le> b" using round_even_bounds by blast+
  then have c: "clamp_int a b (round_even (y / scale)) = round_even (y / scale)" by (simp add: clamp_int_def)
  have "of_int (round_even (y / scale)) * scale - y = (of_int (round_even (y / scale)) - y / scale) * scale"
    using assms(1) by (simp add: field_simps)
  then have "\<bar>of_int (round_even (y / scale)) * scale - y\<bar> = \<bar>of_int (round_even (y / scale)) - y / scale\<bar> * scale"
    using assms(1) by (simp add: abs_mult)
  also have "\<dots> \<le> 1 / 2 * scale" using round_even_near assms(1) by (intro mult_right_mono) auto
  finally show "\<bar>of_int (clamp_int a b (round_even (y / scale))) * scale - y\<bar> \<le> scale / 2" by (simp add: c)
  show "a \<le> clamp_int a b (round_even (y / scale))" "clamp_int a b (round_even (y / scale)) \<le> b" using r c by simp_all
qed

text \<open>The smallest normal number of float32.\<close>

definition float32_tiny :: rat where
  "float32_tiny = 1 / 2 ^ 126"

lemma float32_tiny_pos: "0 < float32_tiny"
  by (simp add: float32_tiny_def)


section \<open>Tensors\<close>

text \<open>A contiguous tensor: its shape and its elements in row-major order.\<close>

record 'a tensor =
  dims :: "nat list"
  flat :: "'a list"

definition tensor_ok :: "'a tensor \<Rightarrow> bool" where
  "tensor_ok t \<longleftrightarrow> length (flat t) = prod_list (dims t)"

definition matrix_of :: "nat \<Rightarrow> nat \<Rightarrow> (nat \<Rightarrow> nat \<Rightarrow> 'a) \<Rightarrow> 'a tensor" where
  "matrix_of m n f = \<lparr>dims = [m, n], flat = map (\<lambda>k. f (k div n) (k mod n)) [0 ..< m * n]\<rparr>"

text \<open>Element \<open>(i, j)\<close> of a matrix with \<open>n\<close> columns.\<close>

definition entry :: "nat \<Rightarrow> 'a tensor \<Rightarrow> nat \<Rightarrow> nat \<Rightarrow> 'a" where
  "entry n t i j = flat t ! (i * n + j)"

lemma index_in_matrix:
  assumes "i < m" "j < (n :: nat)"
  shows "i * n + j < m * n"
proof -
  have "i * n + j < Suc i * n" using assms(2) by simp
  also have "\<dots> \<le> m * n" using assms(1) by (intro mult_le_mono1) simp
  finally show ?thesis .
qed

lemma entry_matrix_of [simp]: "i < m \<Longrightarrow> j < n \<Longrightarrow> entry n (matrix_of m n f) i j = f i j"
  using index_in_matrix [of i m j n] by (simp add: entry_def matrix_of_def)

lemma dims_matrix_of [simp]: "dims (matrix_of m n f) = [m, n]"
  by (simp add: matrix_of_def)

lemma matrix_of_ok [simp]: "tensor_ok (matrix_of m n f)"
  by (simp add: matrix_of_def tensor_ok_def)

lemma index_split:
  assumes "k < m * (n :: nat)"
  shows "k div n < m" "k mod n < n"
proof -
  have "0 < n" using assms by (cases n) auto
  then show "k mod n < n" by simp
  show "k div n < m" using assms by (simp add: less_mult_imp_div_less)
qed

lemma matrix_of_cong:
  assumes "\<And>i j. i < m \<Longrightarrow> j < n \<Longrightarrow> f i j = g i j"
  shows "matrix_of m n f = matrix_of m n g"
  using assms index_split [of _ m n] by (auto simp: matrix_of_def)

lemma matrix_of_entry: "tensor_ok t \<Longrightarrow> dims t = [m, n] \<Longrightarrow> matrix_of m n (entry n t) = t"
  by (cases t) (auto simp: matrix_of_def entry_def tensor_ok_def intro!: nth_equalityI)

text \<open>\<open>repeat_interleave\<close> along the rows and along the columns of an \<open>m\<close> by \<open>n\<close> matrix.\<close>

definition repeat_rows :: "nat \<Rightarrow> nat \<Rightarrow> nat \<Rightarrow> 'a tensor \<Rightarrow> 'a tensor" where
  "repeat_rows k m n t = matrix_of (m * k) n (\<lambda>i j. entry n t (i div k) j)"

definition repeat_cols :: "nat \<Rightarrow> nat \<Rightarrow> nat \<Rightarrow> 'a tensor \<Rightarrow> 'a tensor" where
  "repeat_cols k m n t = matrix_of m (n * k) (\<lambda>i j. entry n t i (j div k))"

text \<open>The elementwise product of two matrices broadcasts an axis of size one and raises
  \<open>RuntimeError\<close> when the sizes differ otherwise.\<close>

definition axes_agree :: "nat \<Rightarrow> nat \<Rightarrow> bool" where
  "axes_agree a b \<longleftrightarrow> a = b \<or> a = 1 \<or> b = 1"

definition joint_axis :: "nat \<Rightarrow> nat \<Rightarrow> nat" where
  "joint_axis a b = (if a = 1 then b else a)"

definition axis_index :: "nat \<Rightarrow> nat \<Rightarrow> nat" where
  "axis_index a i = (if a = 1 then 0 else i)"

definition mul_broadcast ::
  "nat \<times> nat \<Rightarrow> rat tensor \<Rightarrow> nat \<times> nat \<Rightarrow> rat tensor \<Rightarrow> rat tensor res" where
  "mul_broadcast ma a mb b = (case (ma, mb) of ((m, n), (m', n')) \<Rightarrow>
     if axes_agree m m' \<and> axes_agree n n'
     then Inr (matrix_of (joint_axis m m') (joint_axis n n')
            (\<lambda>i j. entry n a (axis_index m i) (axis_index n j) * entry n' b (axis_index m' i) (axis_index n' j)))
     else Inl RuntimeError)"

lemma mul_same_shape:
  "mul_broadcast (m, n) a (m, n) b = Inr (matrix_of m n (\<lambda>i j. entry n a i j * entry n b i j))"
proof -
  have "matrix_of (joint_axis m m) (joint_axis n n) (\<lambda>i j. entry n a (axis_index m i) (axis_index n j) * entry n b (axis_index m i) (axis_index n j)) =
      matrix_of m n (\<lambda>i j. entry n a i j * entry n b i j)"
    unfolding joint_axis_def by (simp, rule matrix_of_cong) (auto simp: axis_index_def)
  then show ?thesis by (simp add: mul_broadcast_def axes_agree_def)
qed

end
