(* ===== verification/Weight_Quant.thy ===== *)
theory Weight_Quant
  imports Quant_Formats
begin

text \<open>
  The stored formats of weights: packed E2M1 with a scale per block (\<open>quant/nvfp4.py\<close>), the same with
  E8M0 scale bytes (\<open>quant/mxfp4.py\<close>), block-scaled FP8 (\<open>quant/nvfp4.py\<close>), and INT8 rows
  (\<open>quant/int8.py\<close>). FP8 and E8M0 tensors are given by the values that \<open>.float()\<close> reads from them.
\<close>

section \<open>Packed E2M1\<close>

definition fp4_lookup_values :: "rat list" where
  "fp4_lookup_values = [0, 1 / 2, 1, 3 / 2, 2, 3, 4, 6, 0, - 1 / 2, - 1, - 3 / 2, - 2, - 3, - 4, - 6]"

definition fp4_value :: "byte \<Rightarrow> rat" where
  "fp4_value q = fp4_lookup_values ! unat q"

text \<open>\<open>torch.stack([table[low], table[high]], -1).reshape(out_dim, in_dim)\<close>.\<close>

definition fp4_values :: "byte tensor \<Rightarrow> nat \<Rightarrow> nat \<Rightarrow> rat tensor" where
  "fp4_values packed out_dim in_dim = \<lparr>dims = [out_dim, in_dim], flat = map fp4_value (unpack_nibbles (flat packed))\<rparr>"

text \<open>The float32 product and its cast. An E2M1 value times a power of two (the E8M0 scales) is exact in
  float32 and in bfloat16, also below the normal range, until its magnitude reaches two to the power 128:
  from there on it is an infinity.\<close>

datatype bf16 = Finite rat | Plus_Inf | Minus_Inf

definition to_bf16 :: "rat \<Rightarrow> bf16" where
  "to_bf16 x = (if 2 ^ 128 \<le> x then Plus_Inf else if x \<le> - (2 ^ 128) then Minus_Inf else Finite x)"

definition tensor_to_bf16 :: "rat tensor \<Rightarrow> bf16 tensor" where
  "tensor_to_bf16 t = \<lparr>dims = dims t, flat = map to_bf16 (flat t)\<rparr>"

lemma tensor_to_bf16_matrix: "tensor_to_bf16 (matrix_of m n f) = matrix_of m n (\<lambda>i j. to_bf16 (f i j))"
  by (simp add: tensor_to_bf16_def matrix_of_def map_concat comp_def)

definition dequantize_nvfp4_to_bf16 :: "byte tensor \<Rightarrow> rat tensor \<Rightarrow> nat \<Rightarrow> bf16 tensor res" where
  "dequantize_nvfp4_to_bf16 packed scale block_size =
     (case dims packed of
        [out_dim, half_in] \<Rightarrow>
          (case dims scale of
             [_, _] \<Rightarrow>
               (let in_dim = half_in * 2
                in if block_size = 0 then Inl ZeroDivisionError
                   else if dims scale \<noteq> [out_dim, in_dim div block_size] then Inl ValueError
                   else map_sum id tensor_to_bf16
                     (mul_broadcast (out_dim, in_dim) (fp4_values packed out_dim in_dim)
                        (out_dim, in_dim div block_size * block_size)
                        (repeat_cols block_size out_dim (in_dim div block_size) scale)))
           | _ \<Rightarrow> Inl ValueError)
      | _ \<Rightarrow> Inl ValueError)"

text \<open>The nibble of element \<open>(i, j)\<close>: even columns are low nibbles.\<close>

definition nibble_at :: "nat \<Rightarrow> byte tensor \<Rightarrow> nat \<Rightarrow> nat \<Rightarrow> byte" where
  "nibble_at half_in packed i j = (if even j then low_nibble else high_nibble) (entry half_in packed i (j div 2))"

lemma entry_fp4_values:
  assumes "tensor_ok packed" "dims packed = [m, h]" "i < m" "j < h * 2"
  shows "entry (h * 2) (fp4_values packed m (h * 2)) i j = fp4_value (nibble_at h packed i j)"
proof -
  have len: "length (flat packed) = m * h" using assms(1,2) by (simp add: tensor_ok_def)
  have k: "i * (h * 2) + j < 2 * length (flat packed)"
    using index_in_matrix [OF assms(3,4)] by (simp add: len ac_simps)
  have "(i * (h * 2) + j) div 2 = i * h + j div 2" "even (i * (h * 2) + j) \<longleftrightarrow> even j"
    using div_mult_self1 [of 2 j "i * h"] by (simp_all add: ac_simps)
  then show ?thesis
    using k by (simp add: entry_def fp4_values_def nibble_at_def unpack_nth)
qed

text \<open>Every outcome of the dequantisation of a matrix with its scales.\<close>

lemma nvfp4_errors:
  assumes "dims packed = [m, h]" "dims scale = [r, c]"
  shows "dequantize_nvfp4_to_bf16 packed scale b =
    (if b = 0 then Inl ZeroDivisionError
     else if r \<noteq> m \<or> c \<noteq> h * 2 div b then Inl ValueError
     else if \<not> b dvd h * 2 then Inl RuntimeError
     else Inr (matrix_of m (h * 2) (\<lambda>i j. to_bf16 (entry (h * 2) (fp4_values packed m (h * 2)) i j * entry c scale i (j div b)))))"
proof (cases "b = 0 \<or> r \<noteq> m \<or> c \<noteq> h * 2 div b")
  case True
  then show ?thesis using assms by (auto simp: dequantize_nvfp4_to_bf16_def Let_def)
next
  case False
  then have d: "dequantize_nvfp4_to_bf16 packed scale b =
      map_sum id tensor_to_bf16
        (mul_broadcast (m, h * 2) (fp4_values packed m (h * 2)) (m, h * 2 div b * b) (repeat_cols b m (h * 2 div b) scale))"
    using assms by (simp add: dequantize_nvfp4_to_bf16_def Let_def)
  show ?thesis
  proof (cases "b dvd h * 2")
    case True
    then have w: "h * 2 div b * b = h * 2" by simp
    have "repeat_cols b m (h * 2 div b) scale = matrix_of m (h * 2) (\<lambda>i j. entry (h * 2 div b) scale i (j div b))"
      by (simp add: repeat_cols_def w)
    then have "dequantize_nvfp4_to_bf16 packed scale b =
      Inr (matrix_of m (h * 2) (\<lambda>i j. to_bf16 (entry (h * 2) (fp4_values packed m (h * 2)) i j * entry c scale i (j div b))))"
      unfolding d w mul_same_shape using False by (auto simp: tensor_to_bf16_matrix intro!: matrix_of_cong)
    then show ?thesis using True False by simp
  next
    case ndvd: False
    then have "h * 2 \<noteq> h * 2 div b * b" by (metis dvd_triv_right)
    moreover have "h * 2 \<noteq> 1" by presburger
    moreover have "h * 2 div b * b \<noteq> 1"
    proof
      assume "h * 2 div b * b = 1"
      then have "b = 1" by simp
      then show False using ndvd by simp
    qed
    ultimately have "\<not> axes_agree (h * 2) (h * 2 div b * b)" by (simp only: axes_agree_def) blast
    then show ?thesis using ndvd False by (simp add: d mul_broadcast_def)
  qed
qed

lemma nvfp4_shape_errors:
  "length (dims packed) \<noteq> 2 \<or> length (dims scale) \<noteq> 2 \<Longrightarrow> dequantize_nvfp4_to_bf16 packed scale b = Inl ValueError"
  by (auto simp: dequantize_nvfp4_to_bf16_def Let_def split: list.splits)

section \<open>MXFP4\<close>

text \<open>The element types that the checks of \<open>quant/mxfp4.py\<close> tell apart.\<close>

datatype storage = UInt8 | Int8 | Float8_E8M0 | Other_Dtype

definition mx_scale_to_fp32 :: "storage \<Rightarrow> byte tensor \<Rightarrow> rat tensor res" where
  "mx_scale_to_fp32 dtype raw =
     (if dtype \<noteq> UInt8 \<and> dtype \<noteq> Float8_E8M0 then Inl ValueError
      else if list_ex (\<lambda>w. w = 255) (flat raw) then Inl ValueError
      else Inr \<lparr>dims = dims raw, flat = map (\<lambda>w. 2 ^ unat w / 2 ^ 127) (flat raw)\<rparr>)"

definition dequantize_mxfp4_to_bf16 ::
  "storage \<Rightarrow> byte tensor \<Rightarrow> storage \<Rightarrow> byte tensor \<Rightarrow> nat \<Rightarrow> bf16 tensor res" where
  "dequantize_mxfp4_to_bf16 weight_dtype packed scale_dtype scale block_size =
     (if weight_dtype \<noteq> UInt8 \<and> weight_dtype \<noteq> Int8 then Inl ValueError
      else case mx_scale_to_fp32 scale_dtype scale of
             Inl e \<Rightarrow> Inl e
           | Inr s \<Rightarrow> dequantize_nvfp4_to_bf16 packed s block_size)"

section \<open>Block-scaled FP8\<close>

definition dequantize_block_fp8_to_bf16 :: "rat tensor \<Rightarrow> rat tensor \<Rightarrow> nat \<times> nat \<Rightarrow> rat tensor res" where
  "dequantize_block_fp8_to_bf16 weight scale block =
     (case (dims weight, dims scale, block) of
        ([m, n], [_, _], (block_m, block_n)) \<Rightarrow>
          (if block_m = 0 \<or> block_n = 0 then Inl ZeroDivisionError
           else if dims scale \<noteq> [m div block_m, n div block_n] then Inl ValueError
           else mul_broadcast (m, n) weight (m div block_m * block_m, n div block_n * block_n)
                  (repeat_cols block_n (m div block_m * block_m) (n div block_n)
                     (repeat_rows block_m (m div block_m) (n div block_n) scale)))
      | _ \<Rightarrow> Inl ValueError)"

text \<open>\<open>expanded[:rows, :cols]\<close> of an expansion that covers the weight.\<close>

definition crop :: "nat \<Rightarrow> nat \<Rightarrow> nat \<times> nat \<Rightarrow> 'a tensor \<Rightarrow> 'a tensor" where
  "crop rows cols full t = (case full of (m, n) \<Rightarrow> matrix_of (min rows m) (min cols n) (entry n t))"

definition dequantize_block_fp8_to_bf16_partial :: "rat tensor \<Rightarrow> rat tensor \<Rightarrow> nat \<times> nat \<Rightarrow> rat tensor res" where
  "dequantize_block_fp8_to_bf16_partial weight scale block =
     (case (dims weight, dims scale, block) of
        ([rows, cols], [_, _], (block_m, block_n)) \<Rightarrow>
          (if block_m = 0 \<or> block_n = 0 then Inl ZeroDivisionError
           else let grid_m = (rows + block_m - 1) div block_m; grid_n = (cols + block_n - 1) div block_n
             in if dims scale \<noteq> [grid_m, grid_n] then Inl ValueError
                else mul_broadcast (rows, cols) weight (min rows (grid_m * block_m), min cols (grid_n * block_n))
                       (crop rows cols (grid_m * block_m, grid_n * block_n)
                          (repeat_cols block_n (grid_m * block_m) grid_n (repeat_rows block_m grid_m grid_n scale))))
      | _ \<Rightarrow> Inl ValueError)"

lemma expanded_entry:
  assumes "i < gm * bm" "j < gn * bn"
  shows "entry (gn * bn) (repeat_cols bn (gm * bm) gn (repeat_rows bm gm gn scale)) i j = entry gn scale (i div bm) (j div bn)"
  using assms by (simp add: repeat_cols_def repeat_rows_def less_mult_imp_div_less)

text \<open>The weight times the scale of the block that each element lies in.\<close>

definition scaled_blocks :: "nat \<Rightarrow> nat \<Rightarrow> nat \<times> nat \<Rightarrow> nat \<Rightarrow> rat tensor \<Rightarrow> rat tensor \<Rightarrow> rat tensor" where
  "scaled_blocks m n block grid_n weight scale =
     matrix_of m n (\<lambda>i j. entry n weight i j * entry grid_n scale (i div fst block) (j div snd block))"

lemma ceil_covers: "0 < b \<Longrightarrow> m \<le> (m + b - 1) div b * (b :: nat)"
proof -
  assume b: "0 < b"
  have "(m + b - 1) div b * b + (m + b - 1) mod b = m + b - 1" by simp
  moreover have "(m + b - 1) mod b < b" using b by simp
  ultimately show ?thesis by linarith
qed

lemma partial_blocks:
  assumes "dims weight = [m, n]" "0 < bm" "0 < bn" "dims scale = [(m + bm - 1) div bm, (n + bn - 1) div bn]"
  shows "dequantize_block_fp8_to_bf16_partial weight scale (bm, bn) =
    Inr (scaled_blocks m n (bm, bn) ((n + bn - 1) div bn) weight scale)"
proof -
  define gm where "gm = (m + bm - 1) div bm"
  define gn where "gn = (n + bn - 1) div bn"
  have c: "min m (gm * bm) = m" "min n (gn * bn) = n" "m \<le> gm * bm" "n \<le> gn * bn"
    using ceil_covers assms(2,3) by (simp_all add: min_absorb1 gm_def gn_def)
  have crop: "crop m n (gm * bm, gn * bn) (repeat_cols bn (gm * bm) gn (repeat_rows bm gm gn scale)) =
      matrix_of m n (\<lambda>i j. entry gn scale (i div bm) (j div bn))"
    unfolding crop_def prod.case c(1,2)
    by (rule matrix_of_cong, rule expanded_entry) (use c(3,4) in \<open>auto intro: less_le_trans\<close>)
  have "dequantize_block_fp8_to_bf16_partial weight scale (bm, bn) =
      mul_broadcast (m, n) weight (min m (gm * bm), min n (gn * bn))
        (crop m n (gm * bm, gn * bn) (repeat_cols bn (gm * bm) gn (repeat_rows bm gm gn scale)))"
    using assms unfolding gm_def gn_def by (simp add: dequantize_block_fp8_to_bf16_partial_def Let_def)
  also have "\<dots> = Inr (scaled_blocks m n (bm, bn) gn weight scale)"
    unfolding c(1,2) crop mul_same_shape scaled_blocks_def fst_conv snd_conv
    by (rule arg_cong [where f = Inr], rule matrix_of_cong) simp
  finally show ?thesis by (simp add: gn_def)
qed

lemma strict_blocks:
  assumes "dims weight = [m, n]" "0 < bm" "0 < bn" "bm dvd m" "bn dvd n" "dims scale = [m div bm, n div bn]"
  shows "dequantize_block_fp8_to_bf16 weight scale (bm, bn) = Inr (scaled_blocks m n (bm, bn) (n div bn) weight scale)"
proof -
  have c: "m div bm * bm = m" "n div bn * bn = n" using assms(4,5) by simp_all
  have "entry n (repeat_cols bn m (n div bn) (repeat_rows bm (m div bm) (n div bn) scale)) i j = entry (n div bn) scale (i div bm) (j div bn)"
    if "i < m" "j < n" for i j
    using expanded_entry [of i "m div bm" bm j "n div bn" bn scale] that unfolding c by simp
  then show ?thesis
    using assms
    by (simp add: dequantize_block_fp8_to_bf16_def c mul_same_shape scaled_blocks_def)
      (rule matrix_of_cong, simp)
qed

lemma ceil_of_multiple:
  assumes "0 < b" "b dvd m"
  shows "(m + b - 1) div b = m div (b :: nat)"
proof -
  obtain k where "m = b * k" using assms(2) by (rule dvdE)
  then have "m + b - 1 = (b - 1) + k * b" using assms(1) by (simp add: ac_simps)
  then show ?thesis using assms(1) \<open>m = b * k\<close> by (simp only: div_mult_self1) simp
qed

section \<open>INT8 rows\<close>

definition row_of_tensor :: "nat \<Rightarrow> 'a tensor \<Rightarrow> nat \<Rightarrow> 'a list" where
  "row_of_tensor n t i = map (entry n t i) [0 ..< n]"

text \<open>\<open>eps\<close> is \<open>torch.finfo(weight.dtype).tiny\<close>. The maximum over no columns raises \<open>IndexError\<close>.\<close>

definition quantize_per_channel :: "rat \<Rightarrow> rat tensor \<Rightarrow> (byte tensor \<times> rat tensor) res" where
  "quantize_per_channel eps weight =
     (case dims weight of
        [m, n] \<Rightarrow>
          (if n = 0 then Inl IndexError
           else let scale = (\<lambda>i. max (Max (set (map abs (row_of_tensor n weight i)))) eps / 127)
             in Inr (matrix_of m n (\<lambda>i j. word_of_int (clamp_int (- 127) 127 (round_even (entry n weight i j / scale i)))),
                     \<lparr>dims = [m], flat = map scale [0 ..< m]\<rparr>))
      | _ \<Rightarrow> Inl ValueError)"

definition int8_value :: "byte \<Rightarrow> rat" where
  "int8_value w = of_int (sint w)"

definition dequantize_per_channel :: "byte tensor \<Rightarrow> rat tensor \<Rightarrow> rat tensor res" where
  "dequantize_per_channel q_weight scales =
     (case dims q_weight of
        [m, n] \<Rightarrow> if dims scales \<noteq> [m] then Inl ValueError
                   else Inr (matrix_of m n (\<lambda>i j. int8_value (entry n q_weight i j) * flat scales ! i))
      | _ \<Rightarrow> Inl ValueError)"

text \<open>The entries of a quantised matrix and the scales of its rows.\<close>

lemma quantize_per_channel_ok:
  assumes "dims weight = [m, n]" "0 < n" "0 < eps" "quantize_per_channel eps weight = Inr (q, scales)"
  shows "dims q = [m, n]" "tensor_ok q" "dims scales = [m]" "length (flat scales) = m"
    and "\<And>i. i < m \<Longrightarrow> flat scales ! i = max (Max (set (map abs (row_of_tensor n weight i)))) eps / 127"
    and "\<And>i j. i < m \<Longrightarrow> j < n \<Longrightarrow>
      \<bar>int8_value (entry n q i j) * flat scales ! i - entry n weight i j\<bar> \<le> flat scales ! i / 2 \<and>
      (entry n weight i j = 0 \<longrightarrow> entry n q i j = 0)"
proof -
  define scale where "scale i = max (Max (set (map abs (row_of_tensor n weight i)))) eps / 127" for i
  have qs: "q = matrix_of m n (\<lambda>i j. word_of_int (clamp_int (- 127) 127 (round_even (entry n weight i j / scale i))))"
      "scales = \<lparr>dims = [m], flat = map scale [0 ..< m]\<rparr>"
    using assms unfolding scale_def by (simp_all add: quantize_per_channel_def Let_def)
  show "dims q = [m, n]" "tensor_ok q" "dims scales = [m]" "length (flat scales) = m" by (simp_all add: qs)
  show "flat scales ! i = max (Max (set (map abs (row_of_tensor n weight i)))) eps / 127" if "i < m" for i
    using that by (simp add: qs(2) scale_def)
  show "\<bar>int8_value (entry n q i j) * flat scales ! i - entry n weight i j\<bar> \<le> flat scales ! i / 2 \<and>
      (entry n weight i j = 0 \<longrightarrow> entry n q i j = 0)" if ij: "i < m" "j < n" for i j
  proof -
    let ?w = "entry n weight i j" and ?r = "round_even (entry n weight i j / scale i)"
    have "\<bar>?w\<bar> \<le> Max (set (map abs (row_of_tensor n weight i)))"
      using ij(2) by (intro Max_ge) (auto simp: row_of_tensor_def)
    then have "\<bar>?w\<bar> \<le> 127 * scale i" by (simp add: scale_def max_def)
    then have b: "of_int (- 127) * scale i \<le> ?w" "?w \<le> of_int 127 * scale i" by (simp_all add: abs_le_iff)
    have pos: "0 < scale i" using assms(3) by (simp add: scale_def max_def)
    note e = quantise_error [OF pos b]
    have sv: "sint (word_of_int (clamp_int (- 127) 127 ?r) :: byte) = clamp_int (- 127) 127 ?r"
      using e(1,2) signed_take_bit_int_eq_self [of 7 "clamp_int (- 127) 127 ?r"] by (simp add: sint_sbintrunc')
    have "?w = 0 \<longrightarrow> entry n q i j = 0" using ij by (simp add: qs(1) round_even_def clamp_int_def)
    then show ?thesis using e(3) ij by (simp add: qs int8_value_def sv)
  qed
qed

subsection \<open>The linear layer over them\<close>

record int8_linear =
  i8_in :: nat
  i8_out :: nat
  i8_weight :: "byte tensor"
  i8_scales :: "rat tensor"
  i8_bias :: "rat list option"

definition int8_from_float :: "rat \<Rightarrow> rat tensor \<Rightarrow> rat list option \<Rightarrow> int8_linear res" where
  "int8_from_float eps weight bias =
     (case dims weight of
        [out_features, in_features] \<Rightarrow>
          (case quantize_per_channel eps weight of
             Inl e \<Rightarrow> Inl e
           | Inr (q, scales) \<Rightarrow>
               Inr \<lparr>i8_in = in_features, i8_out = out_features, i8_weight = q, i8_scales = scales, i8_bias = bias\<rparr>)
      | _ \<Rightarrow> Inl ValueError)"

text \<open>\<open>torch.nn.functional.linear\<close> on the rows of a batch.\<close>

definition linear_row :: "nat \<Rightarrow> nat \<Rightarrow> rat tensor \<Rightarrow> rat list option \<Rightarrow> rat list \<Rightarrow> rat list" where
  "linear_row m n w bias x =
     map (\<lambda>i. (\<Sum>j < n. x ! j * entry n w i j) + (case bias of None \<Rightarrow> 0 | Some b \<Rightarrow> b ! i)) [0 ..< m]"

definition functional_linear :: "nat \<Rightarrow> nat \<Rightarrow> rat tensor \<Rightarrow> rat list option \<Rightarrow> rat list list \<Rightarrow> rat list list res" where
  "functional_linear m n w bias xs =
     (if list_all (\<lambda>x. length x = n) xs then Inr (map (linear_row m n w bias) xs) else Inl RuntimeError)"

text \<open>The forward of devices without the fused kernel.\<close>

definition int8_forward :: "int8_linear \<Rightarrow> rat list list \<Rightarrow> rat list list res" where
  "int8_forward L xs =
     functional_linear (i8_out L) (i8_in L)
       (matrix_of (i8_out L) (i8_in L) (\<lambda>i j. int8_value (entry (i8_in L) (i8_weight L) i j) * flat (i8_scales L) ! i))
       (i8_bias L) xs"

text \<open>A linear layer moves by at most the movement of its weights times the size of its input.\<close>

lemma linear_row_error:
  assumes "i < m" "\<And>j. j < n \<Longrightarrow> \<bar>entry n w' i j - entry n w i j\<bar> \<le> (d :: rat)"
  shows "\<bar>linear_row m n w' bias x ! i - linear_row m n w bias x ! i\<bar> \<le> d * (\<Sum>j < n. \<bar>x ! j\<bar>)"
proof -
  have "linear_row m n w' bias x ! i - linear_row m n w bias x ! i =
      (\<Sum>j < n. x ! j * (entry n w' i j - entry n w i j))"
    using assms(1) by (simp add: linear_row_def right_diff_distrib sum_subtractf)
  also have "\<bar>\<dots>\<bar> \<le> (\<Sum>j < n. \<bar>x ! j * (entry n w' i j - entry n w i j)\<bar>)" by (rule sum_abs)
  also have "\<dots> \<le> (\<Sum>j < n. \<bar>x ! j\<bar> * d)"
    by (rule sum_mono) (use assms(2) in \<open>auto simp: abs_mult intro: mult_left_mono\<close>)
  finally show ?thesis by (simp add: sum_distrib_left mult.commute)
qed

end
