(* ===== verification/Turbo_Quant.thy ===== *)
theory Turbo_Quant
  imports Quant_Formats
begin

text \<open>
  \<open>cache/turbo_quant.py\<close>: four-bit storage of rotated K/V blocks, per channel (first version) and in polar
  form with a Lloyd-Max codebook and an optional residual sign (third version). The vector l2 and the
  square sq of the head size are numeric functions of torch and Python, and are arguments.
\<close>

unbundle bit_operations_syntax

section \<open>Per-channel blocks\<close>

text \<open>The values of channel \<open>c\<close> over the tokens of a block with \<open>C\<close> channels.\<close>

definition channel :: "nat \<Rightarrow> nat \<Rightarrow> rat list \<Rightarrow> nat \<Rightarrow> rat list" where
  "channel bs C xs c = map (\<lambda>i. xs ! (i * C + c)) [0 ..< bs]"

definition quantize_kv_block :: "rat tensor \<Rightarrow> (byte tensor \<times> rat tensor \<times> rat tensor) res" where
  "quantize_kv_block block =
     (case dims block of
        [block_size, num_kv_heads, head_dim] \<Rightarrow>
          (let C = num_kv_heads * head_dim; xs = flat block in
           if odd (block_size * num_kv_heads * head_dim) then Inl ValueError
           else if block_size = 0 then Inl IndexError
           else let low = map (\<lambda>c. Min (set (channel block_size C xs c))) [0 ..< C];
                    high = map (\<lambda>c. Max (set (channel block_size C xs c))) [0 ..< C];
                    scale = map (\<lambda>c. max (high ! c - low ! c) float32_tiny / 15) [0 ..< C];
                    q = map (\<lambda>k. word_of_int (clamp_int 0 15 (round_even ((xs ! k - low ! (k mod C)) / scale ! (k mod C)))))
                          [0 ..< block_size * C]
             in Inr (\<lparr>dims = [block_size * C div 2], flat = pack_nibbles q\<rparr>,
                     \<lparr>dims = [num_kv_heads, head_dim], flat = low\<rparr>,
                     \<lparr>dims = [num_kv_heads, head_dim], flat = scale\<rparr>))
      | _ \<Rightarrow> Inl ValueError)"

text \<open>\<open>flat.reshape(block_size, num_kv_heads, head_dim)\<close> raises \<open>RuntimeError\<close> when the counts differ.\<close>

definition dequantize_kv_block ::
  "byte tensor \<Rightarrow> rat tensor \<Rightarrow> rat tensor \<Rightarrow> nat \<Rightarrow> nat \<Rightarrow> nat \<Rightarrow> rat tensor res" where
  "dequantize_kv_block packed low scale block_size num_kv_heads head_dim =
     (let C = num_kv_heads * head_dim; q = unpack_nibbles (flat packed) in
      if dims packed \<noteq> [block_size * num_kv_heads * head_dim div 2] then Inl ValueError
      else if dims low \<noteq> [num_kv_heads, head_dim] \<or> dims scale \<noteq> [num_kv_heads, head_dim] then Inl ValueError
      else if odd (block_size * num_kv_heads * head_dim) then Inl RuntimeError
      else Inr \<lparr>dims = [block_size, num_kv_heads, head_dim],
                flat = map (\<lambda>k. flat low ! (k mod C) + byte_value (q ! k) * flat scale ! (k mod C)) [0 ..< block_size * C]\<rparr>)"

lemma nibble_of_small:
  assumes "0 \<le> x" "x < 2 ^ 4"
  shows "nibble (word_of_int x)" "byte_value (word_of_int x) = of_int x"
proof -
  have t: "take_bit 4 x = x" "take_bit 8 x = x" using assms by (simp_all add: take_bit_int_eq_self)
  have "uint (word_of_int x :: byte) = x" using t(2) by (simp add: uint_word_of_int_eq)
  then show "byte_value (word_of_int x) = of_int x" by (simp only: byte_value_def)
  have "bit (word_of_int x :: byte) n \<Longrightarrow> n < 4" for n
    using t(1) by (metis bit_take_bit_iff bit_word_of_int_iff)
  then show "nibble (word_of_int x)" by (auto simp: nibble_bits not_le [symmetric])
qed

lemma nibble_of_clamp: "nibble (word_of_int (clamp_int 0 15 x))" "byte_value (word_of_int (clamp_int 0 15 x)) = of_int (clamp_int 0 15 x)"
  by (rule nibble_of_small; simp add: clamp_int_def)+

text \<open>What packing and unpacking a block gives back.\<close>

lemma packed_nibbles_back:
  assumes "even (length xs)"
  shows "unpack_nibbles (pack_nibbles (map (\<lambda>k. word_of_int (clamp_int 0 15 (f k))) xs)) =
    map (\<lambda>k. word_of_int (clamp_int 0 15 (f k))) xs"
  by (rule unpack_pack) (use assms nibble_of_clamp(1) in auto)

lemma channel_bounds:
  assumes "k < bs * C"
  shows "Min (set (channel bs C xs (k mod C))) \<le> xs ! k" "xs ! k \<le> Max (set (channel bs C xs (k mod C)))"
proof -
  have "k div C * C + k mod C = k" by simp
  then have "xs ! k \<in> set (channel bs C xs (k mod C))"
    using index_split(1) [OF assms] unfolding channel_def by (auto intro!: image_eqI [where x = "k div C"])
  then show "Min (set (channel bs C xs (k mod C))) \<le> xs ! k" "xs ! k \<le> Max (set (channel bs C xs (k mod C)))"
    by (simp_all add: Min_le Max_ge)
qed

lemma kv_block_restored:
  assumes "dims block = [bs, nh, d]" "tensor_ok block" "even (bs * nh * d)" "0 < bs"
  shows "\<exists>packed low scale out. quantize_kv_block block = Inr (packed, low, scale) \<and>
    dequantize_kv_block packed low scale bs nh d = Inr out \<and> dims out = [bs, nh, d] \<and> tensor_ok out \<and>
    (\<forall>k < bs * (nh * d). \<bar>flat out ! k - flat block ! k\<bar> \<le> flat scale ! (k mod (nh * d)) / 2 \<and>
       flat scale ! (k mod (nh * d)) = max (Max (set (channel bs (nh * d) (flat block) (k mod (nh * d)))) -
          Min (set (channel bs (nh * d) (flat block) (k mod (nh * d))))) float32_tiny / 15)"
proof -
  define C xs where "C = nh * d" and "xs = flat block"
  define lo hi where "lo c = Min (set (channel bs C xs c))" and "hi c = Max (set (channel bs C xs c))" for c
  define sc where "sc c = max (hi c - lo c) float32_tiny / 15" for c
  define r where "r k = round_even ((xs ! k - lo (k mod C)) / sc (k mod C))" for k
  let ?q = "map (\<lambda>k. word_of_int (clamp_int 0 15 (r k))) [0 ..< bs * C] :: byte list"
  let ?p = "\<lparr>dims = [bs * C div 2], flat = pack_nibbles ?q\<rparr>" and ?lo = "\<lparr>dims = [nh, d], flat = map lo [0 ..< C]\<rparr>"
    and ?sc = "\<lparr>dims = [nh, d], flat = map sc [0 ..< C]\<rparr>"
  let ?out = "\<lparr>dims = [bs, nh, d],
    flat = map (\<lambda>k. lo (k mod C) + of_int (clamp_int 0 15 (r k)) * sc (k mod C)) [0 ..< bs * C]\<rparr>"
  have ev: "even (bs * C)" "bs * nh * d = bs * C" using assms(3) by (simp_all add: C_def ac_simps)
  have m: "k mod C < C" if "k < bs * C" for k using index_split(2) [OF that] .
  have scs: "map (\<lambda>c. max (map hi [0 ..< C] ! c - map lo [0 ..< C] ! c) float32_tiny / 15) [0 ..< C] = map sc [0 ..< C]"
    by (simp add: sc_def)
  have qs: "map (\<lambda>k. word_of_int (clamp_int 0 15 (round_even ((xs ! k - map lo [0 ..< C] ! (k mod C)) / map sc [0 ..< C] ! (k mod C))))) [0 ..< bs * C] = ?q"
    using m by (simp add: r_def)
  have "quantize_kv_block block =
    Inr (\<lparr>dims = [bs * C div 2], flat = pack_nibbles (map (\<lambda>k. word_of_int (clamp_int 0 15
          (round_even ((xs ! k - map lo [0 ..< C] ! (k mod C)) / map sc [0 ..< C] ! (k mod C))))) [0 ..< bs * C])\<rparr>, ?lo, ?sc)"
    unfolding scs [symmetric]
    using assms(1,3,4) by (simp add: quantize_kv_block_def Let_def C_def [symmetric] xs_def [symmetric] lo_def [symmetric] hi_def [symmetric])
  then have quant: "quantize_kv_block block = Inr (?p, ?lo, ?sc)" unfolding qs .
  have "dequantize_kv_block ?p ?lo ?sc bs nh d =
    Inr \<lparr>dims = [bs, nh, d], flat = map (\<lambda>k. flat ?lo ! (k mod C) +
      byte_value (unpack_nibbles (flat ?p) ! k) * flat ?sc ! (k mod C)) [0 ..< bs * C]\<rparr>"
    unfolding dequantize_kv_block_def Let_def C_def [symmetric] ev(2) using ev(1) by simp
  also have "\<dots> = Inr ?out"
  proof -
    have "unpack_nibbles (flat ?p) = ?q" unfolding tensor.select_convs by (rule packed_nibbles_back) (use ev(1) in simp)
    then show ?thesis using m by (simp add: nibble_of_clamp(2))
  qed
  finally have deq: "dequantize_kv_block ?p ?lo ?sc bs nh d = Inr ?out" .
  have err: "\<bar>flat ?out ! k - flat block ! k\<bar> \<le> flat ?sc ! (k mod C) / 2" if k: "k < bs * C" for k
  proof -
    let ?c = "k mod C"
    have pos: "0 < sc ?c" using float32_tiny_pos by (simp add: sc_def max_def)
    have "lo ?c \<le> xs ! k" "xs ! k \<le> hi ?c" using channel_bounds [OF k] by (simp_all add: lo_def hi_def)
    moreover have "hi ?c - lo ?c \<le> 15 * sc ?c" by (simp add: sc_def)
    ultimately have b: "of_int 0 * sc ?c \<le> xs ! k - lo ?c" "xs ! k - lo ?c \<le> of_int 15 * sc ?c" by simp_all
    show ?thesis
      using quantise_error(3) [OF pos b] k m [OF k] by (simp add: r_def xs_def [symmetric] algebra_simps)
  qed
  have scale: "flat ?sc ! (k mod C) =
      max (Max (set (channel bs C xs (k mod C))) - Min (set (channel bs C xs (k mod C)))) float32_tiny / 15" if "k < bs * C" for k
    using m [OF that] by (simp add: sc_def lo_def hi_def)
  have "tensor_ok ?out" by (simp add: tensor_ok_def C_def ac_simps)
  then show ?thesis
    unfolding C_def [symmetric] xs_def [symmetric]
    using quant deq err scale by (intro exI conjI allI impI) (assumption | simp only: tensor.select_convs xs_def)+
qed

section \<open>Lloyd-Max codebooks\<close>

definition lloyd_max_4bit :: "rat list" where
  "lloyd_max_4bit = map (\<lambda>c. of_int c / 1000)
     [- 3161, - 2403, - 1834, - 1400, - 1050, - 746, - 461, - 153, 153, 461, 746, 1050, 1400, 1834, 2403, 3161]"

definition lloyd_max_3bit :: "rat list" where
  "lloyd_max_3bit = map (\<lambda>c. of_int c / 1000) [- 2152, - 1344, - 756, - 245, 245, 756, 1344, 2152]"

definition lloyd_max_codebook :: "nat \<Rightarrow> rat list res" where
  "lloyd_max_codebook bits =
     (if bits = 4 then Inr lloyd_max_4bit else if bits = 3 then Inr lloyd_max_3bit else Inl ValueError)"

text \<open>\<open>(codebook[:-1] + codebook[1:]) / 2.0\<close>, and \<open>torch.searchsorted\<close> in a sorted list: the first place that
  is not below the value.\<close>

definition midpoints :: "rat list \<Rightarrow> rat list" where
  "midpoints cs = map (\<lambda>i. (cs ! i + cs ! Suc i) / 2) [0 ..< length cs - 1]"

definition searchsorted :: "rat list \<Rightarrow> rat \<Rightarrow> nat" where
  "searchsorted ms x = length (takeWhile (\<lambda>m. m < x) ms)"

definition snap :: "rat list \<Rightarrow> rat \<Rightarrow> nat" where
  "snap cs x = min (searchsorted (midpoints cs) x) (length cs - 1)"

text \<open>The centre that a value is snapped to is a nearest one.\<close>

lemma snap_nearest:
  assumes "sorted cs" "cs \<noteq> []" "c \<in> set cs"
  shows "snap cs x < length cs" "\<bar>x - cs ! snap cs x\<bar> \<le> \<bar>x - c\<bar>"
proof -
  define i where "i = searchsorted (midpoints cs) x"
  have len: "length (midpoints cs) = length cs - 1" by (simp add: midpoints_def)
  have le: "i \<le> length cs - 1" unfolding i_def searchsorted_def len [symmetric] by (rule length_takeWhile_le)
  moreover have "0 < length cs" using assms(2) by simp
  ultimately have s: "snap cs x = i" "i < length cs" by (simp add: snap_def i_def, linarith)
  then show "snap cs x < length cs" by simp
  have below: "(cs ! p + cs ! Suc p) / 2 < x" if "p < i" for p
  proof -
    have "midpoints cs ! p < x" using that nth_length_takeWhile [of "\<lambda>m. m < x" "midpoints cs"] unfolding i_def searchsorted_def
      by (metis nth_mem set_takeWhileD takeWhile_nth)
    then show ?thesis using that le by (simp add: midpoints_def)
  qed
  have above: "x \<le> (cs ! i + cs ! Suc i) / 2" if "i < length cs - 1"
  proof -
    have "\<not> midpoints cs ! i < x"
      using that nth_length_takeWhile [of "\<lambda>m. m < x" "midpoints cs"] by (simp add: i_def searchsorted_def len)
    then show ?thesis using that by (simp add: midpoints_def)
  qed
  obtain j where j: "j < length cs" "c = cs ! j" using assms(3) by (auto simp: in_set_conv_nth)
  consider "j = i" | "j < i" | "i < j" by linarith
  then have "\<bar>x - cs ! i\<bar> \<le> \<bar>x - cs ! j\<bar>"
  proof cases
    case 2
    have "cs ! j \<le> cs ! (i - 1)" "cs ! (i - 1) \<le> cs ! i" using sorted_nth_mono [OF assms(1)] 2 s(2) by auto
    moreover have "(cs ! (i - 1) + cs ! i) / 2 < x" using below [of "i - 1"] 2 by simp
    ultimately show ?thesis by (simp add: abs_if)
  next
    case 3
    have "cs ! Suc i \<le> cs ! j" "cs ! i \<le> cs ! Suc i" using sorted_nth_mono [OF assms(1)] 3 j(1) by auto
    moreover have "x \<le> (cs ! i + cs ! Suc i) / 2" using above 3 j(1) by simp
    ultimately show ?thesis by (simp add: abs_if)
  qed simp
  then show "\<bar>x - cs ! snap cs x\<bar> \<le> \<bar>x - c\<bar>" by (simp only: s(1) j(2))
qed

lemma codebook_4bit: "sorted lloyd_max_4bit" "length lloyd_max_4bit = 2 ^ 4"
  by code_simp+

lemma codebook_3bit: "sorted lloyd_max_3bit" "length lloyd_max_3bit = 2 ^ 3"
  by code_simp+

lemma codebooks_sorted: "lloyd_max_codebook bits = Inr cs \<Longrightarrow> sorted cs \<and> length cs = 2 ^ bits \<and> bits \<in> {3, 4}"
  using codebook_4bit codebook_3bit by (auto simp only: lloyd_max_codebook_def sum.simps insert_iff split: if_splits)

section \<open>Polar blocks\<close>

text \<open>\<open>l2\<close> is the L2 l2 of a vector and \<open>sq\<close> the square sq of the head size. \<open>polar_code\<close> is the nibble
  of one coordinate of a unit vector.\<close>

definition polar_code :: "rat \<Rightarrow> nat \<Rightarrow> rat list option \<Rightarrow> bool \<Rightarrow> rat \<Rightarrow> byte" where
  "polar_code rt bits codebook use_qjl u =
     (case codebook of
        Some cs \<Rightarrow>
          (let scaled = u * rt; idx = snap cs scaled
           in if use_qjl then word_of_nat idx OR push_bit 3 (if cs ! idx \<le> scaled then 1 else 0) else word_of_nat idx)
      | None \<Rightarrow> word_of_int (clamp_int 0 (2 ^ bits - 1) (round_even ((u + 1) * (2 ^ bits - 1) / 2))))"

definition polar_quantize_block ::
  "(rat list \<Rightarrow> rat) \<Rightarrow> (nat \<Rightarrow> rat) \<Rightarrow> rat tensor \<Rightarrow> nat \<Rightarrow> bool \<Rightarrow> bool \<Rightarrow> (byte tensor \<times> rat tensor) res" where
  "polar_quantize_block l2 sq block bits use_lloyd_max use_qjl =
     (case dims block of
        [block_size, num_kv_heads, head_dim] \<Rightarrow>
          (let xs = flat block; n_elems = block_size * num_kv_heads * head_dim in
           if odd n_elems then Inl ValueError
           else if bits \<noteq> 3 \<and> bits \<noteq> 4 then Inl ValueError
           else if use_qjl \<and> bits \<noteq> 3 then Inl ValueError
           else let radii = map (\<lambda>v. max (l2 (take head_dim (drop (v * head_dim) xs))) float32_tiny) [0 ..< block_size * num_kv_heads];
                    code = (\<lambda>codebook. map (\<lambda>k. polar_code (sq head_dim) bits codebook use_qjl (xs ! k / radii ! (k div head_dim))) [0 ..< n_elems]);
                    packed = (\<lambda>q. Inr (\<lparr>dims = [n_elems div 2], flat = pack_nibbles q\<rparr>, \<lparr>dims = [block_size, num_kv_heads], flat = radii\<rparr>))
             in if use_lloyd_max then (case lloyd_max_codebook bits of Inl e \<Rightarrow> Inl e | Inr cs \<Rightarrow> packed (code (Some cs)))
                else packed (code None))
      | _ \<Rightarrow> Inl ValueError)"

text \<open>The coordinate that a nibble stands for. \<open>(codebook[1] - codebook[0]) / 4\<close> is the nudge of the sign.\<close>

definition polar_value :: "rat \<Rightarrow> nat \<Rightarrow> rat list option \<Rightarrow> bool \<Rightarrow> byte \<Rightarrow> rat" where
  "polar_value rt bits codebook use_qjl w =
     (case codebook of
        Some cs \<Rightarrow>
          (if use_qjl
           then (cs ! unat (w AND 0x07) + (byte_value (drop_bit 3 w AND 0x01) * 2 - 1) * ((cs ! 1 - cs ! 0) / 4)) / rt
           else cs ! unat (w AND mask bits) / rt)
      | None \<Rightarrow> byte_value w * 2 / (2 ^ bits - 1) - 1)"

definition polar_dequantize_block ::
  "(nat \<Rightarrow> rat) \<Rightarrow> byte tensor \<Rightarrow> rat tensor \<Rightarrow> nat \<Rightarrow> nat \<Rightarrow> nat \<Rightarrow> nat \<Rightarrow> bool \<Rightarrow> bool \<Rightarrow> rat tensor res" where
  "polar_dequantize_block sq packed radii block_size num_kv_heads head_dim bits use_lloyd_max use_qjl =
     (let n_elems = block_size * num_kv_heads * head_dim; q = unpack_nibbles (flat packed) in
      if dims packed \<noteq> [n_elems div 2] then Inl ValueError
      else if dims radii \<noteq> [block_size, num_kv_heads] then Inl ValueError
      else if bits \<noteq> 3 \<and> bits \<noteq> 4 then Inl ValueError
      else if odd n_elems then Inl RuntimeError
      else let out = (\<lambda>codebook. Inr \<lparr>dims = [block_size, num_kv_heads, head_dim],
                 flat = map (\<lambda>k. polar_value (sq head_dim) bits codebook use_qjl (q ! k) * flat radii ! (k div head_dim)) [0 ..< n_elems]\<rparr>)
        in if use_lloyd_max then (case lloyd_max_codebook bits of Inl e \<Rightarrow> Inl e | Inr cs \<Rightarrow> out (Some cs)) else out None)"

text \<open>Index and sign share a nibble and can be told apart.\<close>

lemma index_and_sign:
  "list_all (\<lambda>i. list_all (\<lambda>b. let w = word_of_nat i OR push_bit 3 b :: byte
     in nibble w \<and> unat (w AND 7) = i \<and> drop_bit 3 w AND 1 = b) [0, 1]) [0 ..< 8]"
  by code_simp

lemma plain_index:
  "list_all (\<lambda>i. let w = word_of_nat i :: byte in nibble w \<and> unat (w AND mask 4) = i) [0 ..< 16]"
  "list_all (\<lambda>i. let w = word_of_nat i :: byte in nibble w \<and> unat (w AND mask 3) = i) [0 ..< 8]"
  by code_simp+

lemma sign_values: "byte_value 0 = 0" "byte_value 1 = 1"
  by (simp_all add: byte_value_def)

text \<open>What the nibble of a coordinate stands for, with a codebook.\<close>

lemma polar_value_of_code:
  assumes "lloyd_max_codebook bits = Inr cs" "use_qjl \<longrightarrow> bits = 3"
  shows "nibble (polar_code rt bits (Some cs) use_qjl u)"
    and "polar_value rt bits (Some cs) use_qjl (polar_code rt bits (Some cs) use_qjl u) =
      (cs ! snap cs (u * rt) + (if \<not> use_qjl then 0 else if cs ! snap cs (u * rt) \<le> u * rt then (cs ! 1 - cs ! 0) / 4
         else - ((cs ! 1 - cs ! 0) / 4))) / rt"
proof -
  have cs: "sorted cs" "length cs = 2 ^ bits" "bits = 3 \<or> bits = 4" using codebooks_sorted [OF assms(1)] by auto
  then have "cs \<noteq> []" by auto
  then have i: "snap cs (u * rt) < 2 ^ bits" using snap_nearest(1) [OF cs(1)] cs(2) by (metis last_in_set)
  let ?i = "snap cs (u * rt)" and ?w = "polar_code rt bits (Some cs) use_qjl u"
  have "nibble ?w \<and> polar_value rt bits (Some cs) use_qjl ?w = (cs ! ?i + (if \<not> use_qjl then 0
      else if cs ! ?i \<le> u * rt then (cs ! 1 - cs ! 0) / 4 else - ((cs ! 1 - cs ! 0) / 4))) / rt"
  proof (cases use_qjl)
    case True
    define b :: byte where "b = (if cs ! ?i \<le> u * rt then 1 else 0)"
    have "?i < 8" "b \<in> set [0, 1]" using i True assms(2) by (auto simp: b_def)
    then have w: "nibble (word_of_nat ?i OR push_bit 3 b)" "unat ((word_of_nat ?i OR push_bit 3 b :: byte) AND 7) = ?i"
        "drop_bit 3 (word_of_nat ?i OR push_bit 3 b) AND 1 = b"
      using index_and_sign unfolding list_all_iff Let_def by auto
    have c: "?w = word_of_nat ?i OR push_bit 3 b" using True by (simp add: polar_code_def Let_def b_def)
    have "byte_value b * 2 - 1 = (if cs ! ?i \<le> u * rt then 1 else - 1)" by (simp add: b_def sign_values)
    moreover define g where "g = (cs ! 1 - cs ! 0) / 4"
    ultimately show ?thesis
      unfolding c polar_value_def option.case w g_def [symmetric] using w(1) True by simp
  next
    case False
    then have c: "?w = word_of_nat ?i" by (simp add: polar_code_def Let_def)
    have "nibble (word_of_nat ?i) \<and> unat ((word_of_nat ?i :: byte) AND mask bits) = ?i"
      using cs(3) i plain_index unfolding list_all_iff Let_def by auto
    then show ?thesis using False unfolding c polar_value_def by simp
  qed
  then show "nibble ?w" "polar_value rt bits (Some cs) use_qjl ?w = (cs ! ?i + (if \<not> use_qjl then 0
      else if cs ! ?i \<le> u * rt then (cs ! 1 - cs ! 0) / 4 else - ((cs ! 1 - cs ! 0) / 4))) / rt" by blast+
qed

text \<open>The guarded norm of the vector that element \<open>k\<close> lies in.\<close>

definition radius_at :: "(rat list \<Rightarrow> rat) \<Rightarrow> nat \<Rightarrow> rat list \<Rightarrow> nat \<Rightarrow> rat" where
  "radius_at l2 d xs k = max (l2 (take d (drop (k div d * d) xs))) float32_tiny"

lemma polar_block_restored:
  assumes "dims block = [bs, nh, d]" "even (bs * nh * d)" "lloyd_max_codebook bits = Inr cs" "use_qjl \<longrightarrow> bits = 3"
  shows "\<exists>packed radii out. polar_quantize_block l2 sq block bits True use_qjl = Inr (packed, radii) \<and>
    polar_dequantize_block sq packed radii bs nh d bits True use_qjl = Inr out \<and> dims out = [bs, nh, d] \<and> tensor_ok out \<and>
    (\<forall>k < bs * nh * d. flat out ! k = polar_value (sq d) bits (Some cs) use_qjl
       (polar_code (sq d) bits (Some cs) use_qjl (flat block ! k / radius_at l2 d (flat block) k)) * radius_at l2 d (flat block) k)"
proof -
  define n xs where "n = bs * nh * d" and "xs = flat block"
  define r where "r v = max (l2 (take d (drop (v * d) xs))) float32_tiny" for v
  let ?c = "\<lambda>k. polar_code (sq d) bits (Some cs) use_qjl (xs ! k / r (k div d))"
  let ?p = "\<lparr>dims = [n div 2], flat = pack_nibbles (map ?c [0 ..< n])\<rparr>"
    and ?r = "\<lparr>dims = [bs, nh], flat = map r [0 ..< bs * nh]\<rparr>"
    and ?out = "\<lparr>dims = [bs, nh, d], flat = map (\<lambda>k. polar_value (sq d) bits (Some cs) use_qjl (?c k) * r (k div d)) [0 ..< n]\<rparr>"
  have b: "bits = 3 \<or> bits = 4" using codebooks_sorted [OF assms(3)] by auto
  have v: "k div d < bs * nh" if "k < n" for k using index_split(1) that by (simp add: n_def)
  have codes: "map (\<lambda>k. polar_code (sq d) bits (Some cs) use_qjl (xs ! k / map r [0 ..< bs * nh] ! (k div d))) [0 ..< n] = map ?c [0 ..< n]"
    using v by simp
  have "polar_quantize_block l2 sq block bits True use_qjl =
    Inr (\<lparr>dims = [n div 2], flat = pack_nibbles (map (\<lambda>k. polar_code (sq d) bits (Some cs) use_qjl (xs ! k / map r [0 ..< bs * nh] ! (k div d))) [0 ..< n])\<rparr>, ?r)"
    using assms b unfolding polar_quantize_block_def Let_def n_def xs_def r_def by auto
  then have quant: "polar_quantize_block l2 sq block bits True use_qjl = Inr (?p, ?r)" unfolding codes .
  have unpacked: "unpack_nibbles (flat ?p) = map ?c [0 ..< n]"
    unfolding tensor.select_convs
    by (rule unpack_pack) (use polar_value_of_code(1) [OF assms(3,4)] assms(2) in \<open>auto simp: n_def\<close>)
  have "polar_dequantize_block sq ?p ?r bs nh d bits True use_qjl =
    Inr \<lparr>dims = [bs, nh, d], flat = map (\<lambda>k. polar_value (sq d) bits (Some cs) use_qjl (unpack_nibbles (flat ?p) ! k) * flat ?r ! (k div d)) [0 ..< n]\<rparr>"
    using assms(2) b unfolding polar_dequantize_block_def Let_def n_def assms(3) by auto
  also have "\<dots> = Inr ?out" unfolding unpacked using v by simp
  finally have deq: "polar_dequantize_block sq ?p ?r bs nh d bits True use_qjl = Inr ?out" .
  have "tensor_ok ?out" by (simp add: tensor_ok_def n_def ac_simps)
  moreover have "flat ?out ! k = polar_value (sq d) bits (Some cs) use_qjl (polar_code (sq d) bits (Some cs) use_qjl
      (xs ! k / radius_at l2 d xs k)) * radius_at l2 d xs k" if "k < n" for k
    using that by (simp add: radius_at_def r_def)
  ultimately show ?thesis
    unfolding n_def [symmetric] xs_def [symmetric]
    using quant deq by (intro exI conjI allI impI) (assumption | simp only: tensor.select_convs)+
qed

end
