(* ===== verification/Quant_Properties.thy ===== *)
theory Quant_Properties
  imports Weight_Quant Turbo_Quant
begin

text \<open>
  What the quantised formats promise, in exact arithmetic: how far a stored value can be from the value it
  stands for, which element each stored nibble and scale belongs to, and which inputs are refused.
\<close>

section \<open>Compressed K/V blocks\<close>

text \<open>C36: Per-channel four-bit compression of a K/V block (\<open>quantize_kv_block\<close>, \<open>dequantize_kv_block\<close>). It refuses
  exactly the blocks that do not have three axes or whose number of elements is odd, with \<open>ValueError\<close>, and
  blocks without tokens, with \<open>IndexError\<close>. Any other block takes half a byte per element, and decompressing gives
  a block of the same shape whose every element is at most half of its channel's scale away from the original,
  where the scale is a fifteenth of the spread of the channel, and at least a fifteenth of the smallest float32.\<close>

theorem kv_block_round_trip:
  fixes block :: "rat tensor"
  assumes "tensor_ok block"
  shows "case quantize_kv_block block of
      Inl e \<Rightarrow> e = ValueError \<and> (length (dims block) \<noteq> 3 \<or> odd (length (flat block))) \<or>
        e = IndexError \<and> length (dims block) = 3 \<and> flat block = [] \<and> dims block ! 0 = 0
    | Inr (packed, low, scale) \<Rightarrow>
        (\<exists>bs nh d out. dims block = [bs, nh, d] \<and> even (length (flat block)) \<and> 2 * length (flat packed) = length (flat block) \<and>
           dequantize_kv_block packed low scale bs nh d = Inr out \<and> dims out = dims block \<and> tensor_ok out \<and>
           (\<forall>k < length (flat block). \<bar>flat out ! k - flat block ! k\<bar> \<le> flat scale ! (k mod (nh * d)) / 2 \<and>
              flat scale ! (k mod (nh * d)) =
                max (Max (set (channel bs (nh * d) (flat block) (k mod (nh * d)))) -
                     Min (set (channel bs (nh * d) (flat block) (k mod (nh * d))))) float32_tiny / 15))"
proof (cases "length (dims block) = 3")
  case False
  then have "quantize_kv_block block = Inl ValueError" by (auto simp: quantize_kv_block_def split: list.splits)
  then show ?thesis using False by simp
next
  case True
  then obtain bs nh d where d: "dims block = [bs, nh, d]" by (auto simp: numeral_3_eq_3 length_Suc_conv)
  have len: "length (flat block) = bs * nh * d" using assms by (simp add: tensor_ok_def d ac_simps)
  consider "odd (bs * nh * d)" | "even (bs * nh * d)" "bs = 0" | "even (bs * nh * d)" "0 < bs" by blast
  then show ?thesis
  proof cases
    case 1
    then have "quantize_kv_block block = Inl ValueError" by (simp add: quantize_kv_block_def d)
    then show ?thesis using 1 by (simp add: len)
  next
    case 2
    then have "quantize_kv_block block = Inl IndexError" by (simp add: quantize_kv_block_def d)
    then show ?thesis using 2 len d by simp
  next
    case 3
    obtain packed low scale out where r: "quantize_kv_block block = Inr (packed, low, scale)"
        "dequantize_kv_block packed low scale bs nh d = Inr out" "dims out = [bs, nh, d]" "tensor_ok out"
      and e: "\<forall>k < bs * (nh * d). \<bar>flat out ! k - flat block ! k\<bar> \<le> flat scale ! (k mod (nh * d)) / 2 \<and>
         flat scale ! (k mod (nh * d)) = max (Max (set (channel bs (nh * d) (flat block) (k mod (nh * d)))) -
           Min (set (channel bs (nh * d) (flat block) (k mod (nh * d))))) float32_tiny / 15"
      using kv_block_restored [OF d assms 3] by blast
    have "length (flat packed) = bs * (nh * d) div 2" using r(1) 3
      by (auto simp: quantize_kv_block_def Let_def d length_pack)
    then have "2 * length (flat packed) = length (flat block)" using 3(1) by (simp add: len ac_simps)
    then show ?thesis
      using r e 3(1) unfolding r(1) sum.case prod.case d len mult.assoc [of bs nh d]
      by (intro exI [where x = bs] exI [where x = nh] exI [where x = d] exI [where x = out]) blast
  qed
qed

definition ex_block :: "rat tensor" where
  "ex_block = \<lparr>dims = [2, 1, 2], flat = [0, 10, 3, 25]\<rparr>"

theorem kv_block_round_trip_witness:
  "tensor_ok ex_block \<and> (\<exists>packed low scale. quantize_kv_block ex_block = Inr (packed, low, scale) \<and>
     flat packed = [0, 0xFF] \<and> flat low = [0, 10] \<and> flat scale = [1 / 5, 1] \<and>
     (\<exists>out. dequantize_kv_block packed low scale 2 1 2 = Inr out \<and>
        (\<forall>k < 4. \<bar>flat out ! k - flat ex_block ! k\<bar> \<le> flat scale ! (k mod 2) / 2)))"
proof -
  have ok: "tensor_ok ex_block" by code_simp
  have q: "quantize_kv_block ex_block =
    Inr (\<lparr>dims = [2], flat = [0, 0xFF]\<rparr>, \<lparr>dims = [1, 2], flat = [0, 10]\<rparr>, \<lparr>dims = [1, 2], flat = [1 / 5, 1]\<rparr>)" by code_simp
  show ?thesis using kv_block_round_trip [OF ok] ok unfolding q by (auto simp: ex_block_def)
qed

text \<open>C37: Polar compression with a Lloyd-Max codebook (\<open>polar_quantize_block\<close>, \<open>polar_dequantize_block\<close>). Every
  coordinate of a vector, divided by the guarded norm of the vector and scaled by the square root of the head
  size, is snapped to a nearest centre of the codebook, and decompressing gives that centre back, nudged by a
  quarter of the first gap of the codebook towards the side of the value when the residual sign is kept, and
  scaled back by the norm. Blocks without three axes or with an odd number of elements, code sizes other than
  three and four bits, and a residual sign next to four bits are refused with \<open>ValueError\<close>.\<close>

theorem polar_block_round_trip:
  fixes block :: "rat tensor" and l2 :: "rat list \<Rightarrow> rat" and sq :: "nat \<Rightarrow> rat"
  shows "(length (dims block) \<noteq> 3 \<or> odd (prod_list (dims block)) \<or> bits \<notin> {3, 4} \<or> use_qjl \<and> bits \<noteq> 3) \<and>
      polar_quantize_block l2 sq block bits True use_qjl = Inl ValueError \<or>
    (\<exists>bs nh d cs packed radii out. dims block = [bs, nh, d] \<and> lloyd_max_codebook bits = Inr cs \<and>
       polar_quantize_block l2 sq block bits True use_qjl = Inr (packed, radii) \<and>
       polar_dequantize_block sq packed radii bs nh d bits True use_qjl = Inr out \<and> dims out = dims block \<and> tensor_ok out \<and>
       (\<forall>k < prod_list (dims block). let r = radius_at l2 d (flat block) k; x = flat block ! k / r * sq d in
          \<exists>c \<in> set cs. (\<forall>c' \<in> set cs. \<bar>x - c\<bar> \<le> \<bar>x - c'\<bar>) \<and>
            flat out ! k = (c + (if \<not> use_qjl then 0 else if c \<le> x then (cs ! 1 - cs ! 0) / 4 else - ((cs ! 1 - cs ! 0) / 4)))
              / sq d * r))"
proof (cases "length (dims block) \<noteq> 3 \<or> odd (prod_list (dims block)) \<or> bits \<notin> {3, 4} \<or> use_qjl \<and> bits \<noteq> 3")
  case True
  then have "polar_quantize_block l2 sq block bits True use_qjl = Inl ValueError"
    by (auto simp: polar_quantize_block_def Let_def ac_simps split: list.splits)
  then show ?thesis using True by blast
next
  case False
  then obtain bs nh d where d: "dims block = [bs, nh, d]" by (auto simp: numeral_3_eq_3 length_Suc_conv)
  then have p: "prod_list (dims block) = bs * nh * d" by (simp add: ac_simps)
  obtain cs where cs: "lloyd_max_codebook bits = Inr cs" using False by (auto simp: lloyd_max_codebook_def)
  have sorted: "sorted cs" "cs \<noteq> []" using codebooks_sorted [OF cs] by auto
  have inside: "cs ! snap cs x \<in> set cs" for x
    using snap_nearest(1) [OF sorted] sorted(2) by (metis last_in_set nth_mem)
  have qjl: "use_qjl \<longrightarrow> bits = 3" and ev: "even (bs * nh * d)" using False p by auto
  obtain packed radii out where r: "polar_quantize_block l2 sq block bits True use_qjl = Inr (packed, radii)"
      "polar_dequantize_block sq packed radii bs nh d bits True use_qjl = Inr out" "dims out = [bs, nh, d]" "tensor_ok out"
    and o: "\<forall>k < bs * nh * d. flat out ! k = polar_value (sq d) bits (Some cs) use_qjl
       (polar_code (sq d) bits (Some cs) use_qjl (flat block ! k / radius_at l2 d (flat block) k)) * radius_at l2 d (flat block) k"
    using polar_block_restored [OF d ev cs qjl] by blast
  have point: "let r = radius_at l2 d (flat block) k; x = flat block ! k / r * sq d in
      \<exists>c \<in> set cs. (\<forall>c' \<in> set cs. \<bar>x - c\<bar> \<le> \<bar>x - c'\<bar>) \<and>
        flat out ! k = (c + (if \<not> use_qjl then 0 else if c \<le> x then (cs ! 1 - cs ! 0) / 4 else - ((cs ! 1 - cs ! 0) / 4))) / sq d * r"
    if "k < bs * nh * d" for k
    unfolding Let_def o [rule_format, OF that] polar_value_of_code(2) [OF cs qjl]
    by (intro bexI [where x = "cs ! snap cs (flat block ! k / radius_at l2 d (flat block) k * sq d)"] conjI ballI refl)
      (use snap_nearest(2) [OF sorted] inside in auto)
  have same: "dims out = dims block" using r(3) d by simp
  show ?thesis
    unfolding p
    by (intro disjI2 exI conjI allI impI) (rule d cs r(1) r(2) same r(4) | erule point)+
qed

text \<open>A block of one vector of length five, and a rational near the square root of two.\<close>

definition ex_vector :: "rat tensor" where
  "ex_vector = \<lparr>dims = [1, 1, 2], flat = [3, 4]\<rparr>"

theorem polar_block_round_trip_witness:
  "\<exists>packed radii out. polar_quantize_block (\<lambda>v. 5) (\<lambda>d. 7 / 5) ex_vector 3 True True = Inr (packed, radii) \<and>
     flat radii = [5] \<and> polar_dequantize_block (\<lambda>d. 7 / 5) packed radii 1 1 2 3 True True = Inr out \<and>
     dims out = [1, 1, 2] \<and>
     (\<exists>c \<in> set lloyd_max_3bit. (\<forall>c' \<in> set lloyd_max_3bit. \<bar>21 / 25 - c\<bar> \<le> \<bar>21 / 25 - c'\<bar>) \<and>
        flat out ! 0 = (c + (if c \<le> 21 / 25 then 101 / 500 else - (101 / 500))) / (7 / 5) * 5)"
proof -
  have d: "dims ex_vector = [1, 1, 2]" and f: "flat ex_vector = [3, 4]" by (simp_all add: ex_vector_def)
  have cb: "lloyd_max_codebook 3 = Inr lloyd_max_3bit" by (simp add: lloyd_max_codebook_def)
  have gap: "(lloyd_max_3bit ! 1 - lloyd_max_3bit ! 0) / 4 = 101 / 500" by code_simp
  have r: "radius_at (\<lambda>v. 5) 2 [3, 4] 0 = 5" by code_simp
  have x: "[3, 4] ! 0 / 5 * (7 / 5) = (21 / 25 :: rat)" and nonempty: "0 < prod_list (dims ex_vector)" by (simp_all add: d)
  have ok: "\<not> (length (dims ex_vector) \<noteq> 3 \<or> odd (prod_list (dims ex_vector)) \<or> (3::nat) \<notin> {3, 4} \<or> True \<and> (3::nat) \<noteq> 3)"
    by (simp add: d)
  obtain packed radii out where q: "polar_quantize_block (\<lambda>v. 5) (\<lambda>d. 7 / 5) ex_vector 3 True True = Inr (packed, radii)"
      "polar_dequantize_block (\<lambda>d. 7 / 5) packed radii 1 1 2 3 True True = Inr out" "dims out = [1, 1, 2]"
    and e: "\<forall>k < prod_list (dims ex_vector). let r = radius_at (\<lambda>v. 5) 2 (flat ex_vector) k; x = flat ex_vector ! k / r * (7 / 5) in
          \<exists>c \<in> set lloyd_max_3bit. (\<forall>c' \<in> set lloyd_max_3bit. \<bar>x - c\<bar> \<le> \<bar>x - c'\<bar>) \<and>
            flat out ! k = (c + (if \<not> True then 0 else if c \<le> x then (lloyd_max_3bit ! 1 - lloyd_max_3bit ! 0) / 4
               else - ((lloyd_max_3bit ! 1 - lloyd_max_3bit ! 0) / 4))) / (7 / 5) * r"
    using polar_block_round_trip [of ex_vector 3 True "\<lambda>v. 5" "\<lambda>d. 7 / 5"] ok unfolding d cb by auto
  have "flat radii = [5]"
    using q(1) by (simp add: polar_quantize_block_def Let_def d f cb float32_tiny_def) auto
  moreover have "\<exists>c \<in> set lloyd_max_3bit. (\<forall>c' \<in> set lloyd_max_3bit. \<bar>21 / 25 - c\<bar> \<le> \<bar>21 / 25 - c'\<bar>) \<and>
        flat out ! 0 = (c + (if c \<le> 21 / 25 then 101 / 500 else - (101 / 500))) / (7 / 5) * 5"
    using e [rule_format, OF nonempty] unfolding Let_def gap d f r x by (simp only: not_True_eq_False if_False)
  ultimately show ?thesis using q by blast
qed

section \<open>Compressed weights\<close>

text \<open>C38: A weight in MXFP4 (\<open>dequantize_mxfp4_to_bf16\<close> on \<open>dequantize_nvfp4_to_bf16\<close>). With an \<open>m\<close> by \<open>h\<close> matrix of
  bytes and an \<open>r\<close> by \<open>c\<close> matrix of scale bytes, a scale byte 255 is refused before anything else, then a block
  size of zero, scales whose shape does not fit, and a block size that does not divide the row. Otherwise element
  \<open>(i, j)\<close> of the result is the E2M1 value of the low nibble of byte \<open>(i, j div 2)\<close> when \<open>j\<close> is even and of its
  high nibble when it is odd, times two to the power of the scale byte of its block less 127, and an infinity of
  the sign of that value when the product reaches two to the power 128, which takes a scale byte of 253 or 254. No
  other outcome exists.\<close>

theorem mxfp4_weight_outcomes:
  assumes "tensor_ok packed" "dims packed = [m, h]" "tensor_ok scale" "dims scale = [r, c]" "weight_dtype \<in> {UInt8, Int8}"
    "scale_dtype \<in> {UInt8, Float8_E8M0}"
  shows "dequantize_mxfp4_to_bf16 weight_dtype packed scale_dtype scale b =
    (if 255 \<in> set (flat scale) then Inl ValueError
     else if b = 0 then Inl ZeroDivisionError
     else if r \<noteq> m \<or> c \<noteq> h * 2 div b then Inl ValueError
     else if \<not> b dvd h * 2 then Inl RuntimeError
     else Inr (matrix_of m (h * 2) (\<lambda>i j.
       let x = fp4_value (nibble_at h packed i j) * (2 ^ unat (entry c scale i (j div b)) / 2 ^ 127)
       in if 2 ^ 128 \<le> x then Plus_Inf else if x \<le> - (2 ^ 128) then Minus_Inf else Finite x)))"
proof (cases "255 \<in> set (flat scale)")
  case True
  then have "mx_scale_to_fp32 scale_dtype scale = Inl ValueError" by (simp add: mx_scale_to_fp32_def list_ex_iff)
  then show ?thesis using True assms(5) by (auto simp: dequantize_mxfp4_to_bf16_def)
next
  case False
  define s where "s = \<lparr>dims = dims scale, flat = map (\<lambda>w. 2 ^ unat w / 2 ^ 127 :: rat) (flat scale)\<rparr>"
  have "mx_scale_to_fp32 scale_dtype scale = Inr s"
    using False assms(6) by (auto simp: mx_scale_to_fp32_def list_ex_iff s_def)
  then have d: "dequantize_mxfp4_to_bf16 weight_dtype packed scale_dtype scale b = dequantize_nvfp4_to_bf16 packed s b"
    using assms(5) by (auto simp: dequantize_mxfp4_to_bf16_def)
  have sd: "dims s = [r, c]" using assms(4) by (simp add: s_def)
  have elems: "matrix_of m (h * 2) (\<lambda>i j. to_bf16 (entry (h * 2) (fp4_values packed m (h * 2)) i j * entry c s i (j div b))) =
      matrix_of m (h * 2) (\<lambda>i j. to_bf16 (fp4_value (nibble_at h packed i j) * (2 ^ unat (entry c scale i (j div b)) / 2 ^ 127)))"
    if "b \<noteq> 0" "r = m" "c = h * 2 div b" "b dvd h * 2"
  proof (rule matrix_of_cong)
    fix i j assume ij: "i < m" "j < h * 2"
    have "j div b < c" using ij(2) that by (simp add: less_mult_imp_div_less)
    then have "i * c + j div b < length (flat scale)"
      using index_in_matrix [of i m "j div b" c] ij(1) assms(3,4) that(2) by (simp add: tensor_ok_def)
    then have "entry c s i (j div b) = 2 ^ unat (entry c scale i (j div b)) / 2 ^ 127" by (simp add: entry_def s_def)
    then show "to_bf16 (entry (h * 2) (fp4_values packed m (h * 2)) i j * entry c s i (j div b)) =
        to_bf16 (fp4_value (nibble_at h packed i j) * (2 ^ unat (entry c scale i (j div b)) / 2 ^ 127))"
      by (simp only: entry_fp4_values [OF assms(1,2) ij])
  qed
  show ?thesis unfolding d nvfp4_errors [OF assms(2) sd] using False elems by (simp add: to_bf16_def Let_def)
qed

definition ex_packed :: "byte tensor" where
  "ex_packed = \<lparr>dims = [2, 1], flat = [0x72, 0xF1]\<rparr>"

definition ex_mx_scale :: "byte tensor" where
  "ex_mx_scale = \<lparr>dims = [2, 1], flat = [127, 253]\<rparr>"

theorem mxfp4_weight_outcomes_witness:
  "tensor_ok ex_packed \<and> tensor_ok ex_mx_scale \<and>
   dequantize_mxfp4_to_bf16 UInt8 ex_packed UInt8 ex_mx_scale 2 = Inr \<lparr>dims = [2, 2], flat = [Finite 1, Finite 6, Finite (2 ^ 125), Minus_Inf]\<rparr>"
proof -
  have ok: "tensor_ok ex_packed" "dims ex_packed = [2, 1]" "tensor_ok ex_mx_scale" "dims ex_mx_scale = [2, 1]"
      "255 \<notin> set (flat ex_mx_scale)" by code_simp+
  have "matrix_of 2 (1 * 2) (\<lambda>i j.
        let x = fp4_value (nibble_at 1 ex_packed i j) * (2 ^ unat (entry 1 ex_mx_scale i (j div 2)) / 2 ^ 127)
        in if 2 ^ 128 \<le> x then Plus_Inf else if x \<le> - (2 ^ 128) then Minus_Inf else Finite x) =
      \<lparr>dims = [2, 2], flat = [Finite 1, Finite 6, Finite (2 ^ 125), Minus_Inf]\<rparr>" by code_simp
  then show ?thesis using mxfp4_weight_outcomes [OF ok(1-4), of UInt8 UInt8 2] ok by simp
qed

text \<open>C39: Block-scaled FP8 (\<open>dequantize_block_fp8_to_bf16\<close> and its variant for partial last blocks). On a weight whose
  sides are multiples of the block sides, both functions accept exactly the scale grid with one scale per block,
  refuse every other grid with \<open>ValueError\<close>, and return the same matrix: each element times the scale of the block
  it lies in.\<close>

theorem block_fp8_variants_agree:
  assumes "dims weight = [m, n]" "dims scale = [r, c]" "0 < bm" "0 < bn" "bm dvd m" "bn dvd n"
  shows "dequantize_block_fp8_to_bf16 weight scale (bm, bn) =
      (if r = m div bm \<and> c = n div bn
       then Inr (matrix_of m n (\<lambda>i j. entry n weight i j * entry c scale (i div bm) (j div bn))) else Inl ValueError) \<and>
    dequantize_block_fp8_to_bf16_partial weight scale (bm, bn) = dequantize_block_fp8_to_bf16 weight scale (bm, bn)"
proof (cases "r = m div bm \<and> c = n div bn")
  case True
  then have s: "dims scale = [m div bm, n div bn]" using assms(2) by simp
  then have "dims scale = [(m + bm - 1) div bm, (n + bn - 1) div bn]"
    unfolding ceil_of_multiple [OF assms(3,5)] ceil_of_multiple [OF assms(4,6)] .
  then have "dequantize_block_fp8_to_bf16_partial weight scale (bm, bn) = Inr (scaled_blocks m n (bm, bn) (n div bn) weight scale)"
    using partial_blocks [OF assms(1,3,4)] ceil_of_multiple [OF assms(4,6)] by simp
  moreover have "scaled_blocks m n (bm, bn) (n div bn) weight scale =
      matrix_of m n (\<lambda>i j. entry n weight i j * entry c scale (i div bm) (j div bn))"
    using True by (simp add: scaled_blocks_def)
  ultimately show ?thesis using strict_blocks [OF assms(1,3-6) s] True by simp
next
  case False
  then show ?thesis
    using assms unfolding dequantize_block_fp8_to_bf16_def dequantize_block_fp8_to_bf16_partial_def Let_def
    by (simp add: ceil_of_multiple [simplified])
qed

definition ex_fp8 :: "rat tensor" where
  "ex_fp8 = \<lparr>dims = [2, 4], flat = [1, 2, 3, 4, 5, 6, 7, 8]\<rparr>"

definition ex_fp8_scale :: "rat tensor" where
  "ex_fp8_scale = \<lparr>dims = [2, 2], flat = [1, 10, 100, 1000]\<rparr>"

theorem block_fp8_variants_agree_witness:
  "dequantize_block_fp8_to_bf16 ex_fp8 ex_fp8_scale (1, 2) = Inr \<lparr>dims = [2, 4], flat = [1, 2, 30, 40, 500, 600, 7000, 8000]\<rparr> \<and>
   dequantize_block_fp8_to_bf16_partial ex_fp8 ex_fp8_scale (1, 2) = dequantize_block_fp8_to_bf16 ex_fp8 ex_fp8_scale (1, 2)"
proof -
  have d: "dims ex_fp8 = [2, 4]" "dims ex_fp8_scale = [2, 2]" by (simp_all add: ex_fp8_def ex_fp8_scale_def)
  have "matrix_of 2 4 (\<lambda>i j. entry 4 ex_fp8 i j * entry 2 ex_fp8_scale (i div 1) (j div 2)) =
      \<lparr>dims = [2, 4], flat = [1, 2, 30, 40, 500, 600, 7000, 8000]\<rparr>" by code_simp
  then show ?thesis using block_fp8_variants_agree [OF d, of 1 2] by simp
qed

text \<open>C40: Weight-only INT8 (\<open>Int8Linear.from_float\<close> and its forward on devices without the fused kernel). A matrix with
  at least one column is accepted, every stored integer reads back within half a scale of its weight, zero weights
  are stored as zero, and the layer's output differs from that of the float layer by at most half the scale of the
  output row times the sum of the sizes of the inputs, where the scale is the largest weight of the row over 127.\<close>

theorem int8_linear_error:
  assumes "dims weight = [m, n]" "0 < n" "0 < eps" "list_all (\<lambda>x. length x = n) xs"
  shows "\<exists>L ys zs. int8_from_float eps weight bias = Inr L \<and> int8_forward L xs = Inr ys \<and>
    functional_linear m n weight bias xs = Inr zs \<and>
    (\<forall>i < m. flat (i8_scales L) ! i = max (Max (set (map abs (row_of_tensor n weight i)))) eps / 127 \<and>
       (\<forall>j < n. entry n weight i j = 0 \<longrightarrow> entry n (i8_weight L) i j = 0) \<and>
       (\<forall>k < length xs. \<bar>ys ! k ! i - zs ! k ! i\<bar> \<le> flat (i8_scales L) ! i / 2 * (\<Sum>j < n. \<bar>xs ! k ! j\<bar>)))"
proof -
  obtain q scales where q: "quantize_per_channel eps weight = Inr (q, scales)"
    using assms(1,2) by (simp add: quantize_per_channel_def Let_def)
  note ok = quantize_per_channel_ok [OF assms(1-3) q]
  let ?L = "\<lparr>i8_in = n, i8_out = m, i8_weight = q, i8_scales = scales, i8_bias = bias\<rparr>"
  let ?w = "matrix_of m n (\<lambda>i j. int8_value (entry n q i j) * flat scales ! i)"
  define ys zs where "ys = map (linear_row m n ?w bias) xs" and "zs = map (linear_row m n weight bias) xs"
  have L: "int8_from_float eps weight bias = Inr ?L" using assms(1) q by (simp add: int8_from_float_def)
  have ys: "int8_forward ?L xs = Inr ys" and zs: "functional_linear m n weight bias xs = Inr zs"
    using assms(4) by (simp_all add: int8_forward_def functional_linear_def ys_def zs_def)
  have "\<bar>ys ! k ! i - zs ! k ! i\<bar> \<le> flat scales ! i / 2 * (\<Sum>j < n. \<bar>xs ! k ! j\<bar>)" if i: "i < m" and k: "k < length xs" for i k
    unfolding ys_def zs_def nth_map [OF k]
    by (rule linear_row_error [OF i]) (use ok(6) [OF i] i in simp)
  then have "\<forall>i < m. flat (i8_scales ?L) ! i = max (Max (set (map abs (row_of_tensor n weight i)))) eps / 127 \<and>
       (\<forall>j < n. entry n weight i j = 0 \<longrightarrow> entry n (i8_weight ?L) i j = 0) \<and>
       (\<forall>k < length xs. \<bar>ys ! k ! i - zs ! k ! i\<bar> \<le> flat (i8_scales ?L) ! i / 2 * (\<Sum>j < n. \<bar>xs ! k ! j\<bar>))"
    using ok(5,6) unfolding int8_linear.select_convs by blast
  then show ?thesis using L ys zs by blast
qed

definition ex_int8 :: "rat tensor" where
  "ex_int8 = \<lparr>dims = [2, 2], flat = [127, 3 / 2, 0, 0]\<rparr>"

theorem int8_linear_error_witness:
  "\<exists>L ys zs. int8_from_float (1 / 1000) ex_int8 (Some [1, 2]) = Inr L \<and> flat (i8_weight L) = [127, 2, 0, 0] \<and>
     int8_forward L [[1, 2]] = Inr ys \<and> functional_linear 2 2 ex_int8 (Some [1, 2]) [[1, 2]] = Inr zs \<and>
     \<bar>ys ! 0 ! 0 - zs ! 0 ! 0\<bar> \<le> 3 / 2"
proof -
  have d: "dims ex_int8 = [2, 2]" by (simp add: ex_int8_def)
  have r: "Max (set (map abs (row_of_tensor 2 ex_int8 0))) = 127" by code_simp
  obtain L ys zs where e: "int8_from_float (1 / 1000) ex_int8 (Some [1, 2]) = Inr L" "int8_forward L [[1, 2]] = Inr ys"
      "functional_linear 2 2 ex_int8 (Some [1, 2]) [[1, 2]] = Inr zs"
      "\<forall>i < 2. flat (i8_scales L) ! i = max (Max (set (map abs (row_of_tensor 2 ex_int8 i)))) (1 / 1000) / 127 \<and>
         (\<forall>j < 2. entry 2 ex_int8 i j = 0 \<longrightarrow> entry 2 (i8_weight L) i j = 0) \<and>
         (\<forall>k < length [[1, 2 :: rat]]. \<bar>ys ! k ! i - zs ! k ! i\<bar> \<le> flat (i8_scales L) ! i / 2 * (\<Sum>j < 2. \<bar>[[1, 2]] ! k ! j\<bar>))"
    using int8_linear_error [OF d, of "1 / 1000" "[[1, 2]]" "Some [1, 2]"] by auto
  have "map_sum id (\<lambda>L. flat (i8_weight L)) (int8_from_float (1 / 1000) ex_int8 (Some [1, 2])) = Inr [127, 2, 0, 0]" by code_simp
  then have "flat (i8_weight L) = [127, 2, 0, 0]" unfolding e(1) by simp
  moreover have "\<bar>ys ! 0 ! 0 - zs ! 0 ! 0\<bar> \<le> 3 / 2"
    using e(4) [rule_format, of 0] unfolding r by (simp add: lessThan_Suc numeral_2_eq_2)
  ultimately show ?thesis using e(1-3) by blast
qed

end
