(* ===== verification/State_Cache.thy ===== *)
theory State_Cache
  imports Infer_Prelude
begin

text \<open>
  \<open>cache/state_cache.py\<close>: the attention state of requests to models that do not use the paged cache. A
  tensor of shape \<open>(B, n, width)\<close> is the list of its \<open>B\<close> rows, a row is the list of its \<open>n\<close> entries, and an
  entry of some width is opaque. \<open>zeros w\<close> and \<open>infs w\<close> are the entries of zeros and of minus infinity.
  The widths of entries are not compared.
\<close>

section \<open>Specification and state of a layer\<close>

record layer_spec =
  kv_head_dim :: int
  compression_ratio :: int
  n_win :: int
  max_n_compressed :: int
  overlap_mode :: bool
  sp_indexer :: "int option"

type_synonym 'e rows = "'e list list"

record 'e indexer_state =
  ix_compressed_kv :: "'e rows"
  ix_cmp_kv_state :: "'e rows"
  ix_cmp_score_state :: "'e rows"
  ix_n_compressed_blocks :: nat

record 'e layer_state =
  swa_kv :: "'e rows"
  compressed_kv :: "'e rows"
  cmp_kv_state :: "'e rows"
  cmp_score_state :: "'e rows"
  ls_indexer :: "'e indexer_state option"
  n_compressed_blocks :: nat
  swa_count :: nat

record 'e state_cache =
  st_specs :: "layer_spec list"
  st_batch :: int
  st_layers :: "'e layer_state list"
  st_pos :: int

section \<open>Construction\<close>

definition check_layer_spec :: "layer_spec \<Rightarrow> unit res" where
  "check_layer_spec sp = first_error
     [ensure (0 < n_win sp) ValueError,
      ensure (0 \<le> compression_ratio sp) ValueError,
      (if compression_ratio sp = 0
       then first_error [ensure (\<not> overlap_mode sp) ValueError, ensure (sp_indexer sp = None) ValueError]
       else ensure (0 < max_n_compressed sp) ValueError),
      ensure (case sp_indexer sp of None \<Rightarrow> True | Some w \<Rightarrow> 0 < w) ValueError]"

text \<open>A tensor of equal entries; a negative size raises \<open>RuntimeError\<close>.\<close>

definition full :: "int \<Rightarrow> int \<Rightarrow> int \<Rightarrow> (nat \<Rightarrow> 'e) \<Rightarrow> 'e rows res" where
  "full B n w entry =
     (if B < 0 \<or> n < 0 \<or> w < 0 then Inl RuntimeError
      else Inr (replicate (nat B) (replicate (nat n) (entry (nat w)))))"

definition build_indexer_state :: "(nat \<Rightarrow> 'e) \<Rightarrow> (nat \<Rightarrow> 'e) \<Rightarrow> layer_spec \<Rightarrow> int \<Rightarrow> int \<Rightarrow> 'e indexer_state res" where
  "build_indexer_state zeros infs sp B w =
     (case full B (max_n_compressed sp) w zeros of Inl e \<Rightarrow> Inl e | Inr ckv \<Rightarrow>
     (case full B (compression_ratio sp * 2) (w * 2) zeros of Inl e \<Rightarrow> Inl e | Inr kv \<Rightarrow>
     (case full B (compression_ratio sp * 2) (w * 2) infs of Inl e \<Rightarrow> Inl e | Inr score \<Rightarrow>
        Inr \<lparr>ix_compressed_kv = ckv, ix_cmp_kv_state = kv, ix_cmp_score_state = score, ix_n_compressed_blocks = 0\<rparr>)))"

definition build_layer_state :: "(nat \<Rightarrow> 'e) \<Rightarrow> (nat \<Rightarrow> 'e) \<Rightarrow> layer_spec \<Rightarrow> int \<Rightarrow> 'e layer_state res" where
  "build_layer_state zeros infs sp B =
     (let coff = (if overlap_mode sp then 2 else 1); slots = compression_ratio sp * coff; w = kv_head_dim sp * coff in
      case full B slots w zeros of Inl e \<Rightarrow> Inl e | Inr kv \<Rightarrow>
     (case full B slots w infs of Inl e \<Rightarrow> Inl e | Inr score \<Rightarrow>
     (case full B (n_win sp) (kv_head_dim sp) zeros of Inl e \<Rightarrow> Inl e | Inr swa \<Rightarrow>
     (case full B (max_n_compressed sp) (kv_head_dim sp) zeros of Inl e \<Rightarrow> Inl e | Inr ckv \<Rightarrow>
     (let s = \<lparr>swa_kv = swa, compressed_kv = ckv, cmp_kv_state = kv, cmp_score_state = score,
               ls_indexer = None, n_compressed_blocks = 0, swa_count = 0\<rparr> in
      case sp_indexer sp of
        None \<Rightarrow> Inr s
      | Some ix \<Rightarrow> map_sum id (\<lambda>ixs. s\<lparr>ls_indexer := Some ixs\<rparr>) (build_indexer_state zeros infs sp B ix))))))"

fun map_res :: "('a \<Rightarrow> 'b res) \<Rightarrow> 'a list \<Rightarrow> 'b list res" where
  "map_res f [] = Inr []"
| "map_res f (x # xs) = (case f x of Inl e \<Rightarrow> Inl e | Inr y \<Rightarrow> map_sum id ((#) y) (map_res f xs))"

definition state_cache_init :: "(nat \<Rightarrow> 'e) \<Rightarrow> (nat \<Rightarrow> 'e) \<Rightarrow> layer_spec list \<Rightarrow> int \<Rightarrow> 'e state_cache res" where
  "state_cache_init zeros infs specs B =
     (case first_error ([ensure (0 < B) ValueError, ensure (specs \<noteq> []) ValueError] @ map check_layer_spec specs) of
        Inl e \<Rightarrow> Inl e
      | Inr _ \<Rightarrow>
          map_sum id (\<lambda>ls. \<lparr>st_specs = specs, st_batch = B, st_layers = ls, st_pos = 0\<rparr>)
            (map_res (\<lambda>sp. build_layer_state zeros infs sp B) specs))"

section \<open>Positions and capacity\<close>

definition advance_start_pos :: "int \<Rightarrow> ('e state_cache, unit) act" where
  "advance_start_pos n = (\<lambda>c. if n < 0 then (Inl ValueError, c) else (Inr (), c\<lparr>st_pos := st_pos c + n\<rparr>))"

definition max_seq_len :: "'e state_cache \<Rightarrow> int option" where
  "max_seq_len c =
     (let limits = map (\<lambda>sp. max_n_compressed sp * compression_ratio sp)
            (filter (\<lambda>sp. 0 < compression_ratio sp) (st_specs c))
      in if limits = [] then None else Some (Min (set limits)))"

definition check_capacity :: "int \<Rightarrow> 'e state_cache \<Rightarrow> unit res" where
  "check_capacity end_pos c =
     (case max_seq_len c of
        Some limit \<Rightarrow> if limit < end_pos then Inl ValueError else Inr ()
      | None \<Rightarrow> Inr ())"

section \<open>Moving a row\<close>

text \<open>Assignment to a row broadcasts a source of one entry and raises \<open>RuntimeError\<close> when the sizes differ.\<close>

definition assign_entries :: "nat \<Rightarrow> 'e list \<Rightarrow> 'e list res" where
  "assign_entries n src =
     (if length src = n then Inr src else if length src = 1 then Inr (replicate n (src ! 0)) else Inl RuntimeError)"

definition copy_row :: "nat \<Rightarrow> nat \<Rightarrow> 'e rows \<Rightarrow> 'e rows \<Rightarrow> 'e rows res" where
  "copy_row src_row dst_row src dst =
     (case nth_res src src_row of Inl e \<Rightarrow> Inl e | Inr row \<Rightarrow>
     (case nth_res dst dst_row of Inl e \<Rightarrow> Inl e | Inr old \<Rightarrow>
        map_sum id (\<lambda>new. dst[dst_row := new]) (assign_entries (length old) row)))"

text \<open>\<open>x.field[...] = ...\<close>: the field changes unless the right-hand side raises.\<close>

definition set_field :: "('s \<Rightarrow> 'f) \<Rightarrow> ('f \<Rightarrow> 's \<Rightarrow> 's) \<Rightarrow> ('f \<Rightarrow> 'f res) \<Rightarrow> ('s, unit) act" where
  "set_field get put f = (\<lambda>s. case f (get s) of Inl e \<Rightarrow> (Inl e, s) | Inr x \<Rightarrow> (Inr (), put x s))"

text \<open>The statements that follow each other, and the sub-state of the indexer.\<close>

fun run_all :: "('s, unit) act list \<Rightarrow> ('s, unit) act" where
  "run_all [] s = (Inr (), s)"
| "run_all (a # as) s = (case a s of (Inl e, s') \<Rightarrow> (Inl e, s') | (Inr _, s') \<Rightarrow> run_all as s')"

definition on_indexer :: "('e indexer_state, unit) act \<Rightarrow> ('e layer_state, unit) act" where
  "on_indexer a = (\<lambda>s. case ls_indexer s of None \<Rightarrow> (Inr (), s)
     | Some ix \<Rightarrow> (case a ix of (r, ix') \<Rightarrow> (r, s\<lparr>ls_indexer := Some ix'\<rparr>)))"

definition copy_layer_row :: "nat \<Rightarrow> nat \<Rightarrow> 'e layer_state \<Rightarrow> ('e layer_state, unit) act" where
  "copy_layer_row src_row dst_row src = run_all
     [set_field swa_kv (\<lambda>x s. s\<lparr>swa_kv := x\<rparr>) (copy_row src_row dst_row (swa_kv src)),
      set_field compressed_kv (\<lambda>x s. s\<lparr>compressed_kv := x\<rparr>) (copy_row src_row dst_row (compressed_kv src)),
      set_field cmp_kv_state (\<lambda>x s. s\<lparr>cmp_kv_state := x\<rparr>) (copy_row src_row dst_row (cmp_kv_state src)),
      set_field cmp_score_state (\<lambda>x s. s\<lparr>cmp_score_state := x\<rparr>) (copy_row src_row dst_row (cmp_score_state src)),
      (case ls_indexer src of None \<Rightarrow> (\<lambda>s. (Inr (), s))
       | Some ix \<Rightarrow> on_indexer (run_all
           [set_field ix_compressed_kv (\<lambda>x s. s\<lparr>ix_compressed_kv := x\<rparr>) (copy_row src_row dst_row (ix_compressed_kv ix)),
            set_field ix_cmp_kv_state (\<lambda>x s. s\<lparr>ix_cmp_kv_state := x\<rparr>) (copy_row src_row dst_row (ix_cmp_kv_state ix)),
            set_field ix_cmp_score_state (\<lambda>x s. s\<lparr>ix_cmp_score_state := x\<rparr>) (copy_row src_row dst_row (ix_cmp_score_state ix))]))]"

text \<open>\<open>layer(i)\<close> gives the layer object, whose mutations stay in the cache.\<close>

definition on_layer :: "nat \<Rightarrow> ('e layer_state, unit) act \<Rightarrow> ('e state_cache, unit) act" where
  "on_layer i a = (\<lambda>c. case nth_res (st_layers c) i of Inl e \<Rightarrow> (Inl e, c)
     | Inr s \<Rightarrow> (case a s of (r, s') \<Rightarrow> (r, c\<lparr>st_layers := (st_layers c)[i := s']\<rparr>)))"

definition copy_row_from :: "'e state_cache \<Rightarrow> nat \<Rightarrow> nat \<Rightarrow> ('e state_cache, unit) act" where
  "copy_row_from src src_row dst_row = (\<lambda>c.
     if length (st_layers src) \<noteq> length (st_layers c) then (Inl ValueError, c)
     else for_each (\<lambda>i. on_layer i (copy_layer_row src_row dst_row (st_layers src ! i))) [0 ..< length (st_layers c)] c)"

end
