(* ===== verification/State_Prefix_Cache.thy ===== *)
theory State_Prefix_Cache
  imports State_Cache "HOL-Library.Sublist"
begin

text \<open>
  \<open>cache/state_prefix_cache.py\<close>: snapshots of a state cache, keyed by the prompt they were taken after, with
  first-in-first-out eviction. Snapshots are taken from and restored into row 0, the default and the only row
  the callers use.
\<close>

section \<open>Snapshots\<close>

record 'e indexer_snapshot =
  sx_compressed_kv :: "'e list"
  sx_cmp_kv_state :: "'e list"
  sx_cmp_score_state :: "'e list"
  sx_n_compressed_blocks :: nat

record 'e layer_snapshot =
  sn_swa_kv :: "'e list"
  sn_compressed_kv :: "'e list"
  sn_cmp_kv_state :: "'e list"
  sn_cmp_score_state :: "'e list"
  sn_n_compressed_blocks :: nat
  sn_swa_count :: nat
  sn_indexer :: "'e indexer_snapshot option"

record ('e, 'lg) prefix_snapshot =
  ps_position :: int
  ps_next_logits :: 'lg
  ps_layers :: "'e layer_snapshot list"

definition snapshot_indexer :: "'e indexer_state \<Rightarrow> 'e indexer_snapshot" where
  "snapshot_indexer ix =
     \<lparr>sx_compressed_kv = take (ix_n_compressed_blocks ix) (ix_compressed_kv ix ! 0),
      sx_cmp_kv_state = ix_cmp_kv_state ix ! 0, sx_cmp_score_state = ix_cmp_score_state ix ! 0,
      sx_n_compressed_blocks = ix_n_compressed_blocks ix\<rparr>"

definition snapshot_layer :: "'e layer_state \<Rightarrow> 'e layer_snapshot" where
  "snapshot_layer s =
     \<lparr>sn_swa_kv = swa_kv s ! 0, sn_compressed_kv = take (n_compressed_blocks s) (compressed_kv s ! 0),
      sn_cmp_kv_state = cmp_kv_state s ! 0, sn_cmp_score_state = cmp_score_state s ! 0,
      sn_n_compressed_blocks = n_compressed_blocks s, sn_swa_count = swa_count s,
      sn_indexer = map_option snapshot_indexer (ls_indexer s)\<rparr>"

definition snapshot_from_cache :: "'e state_cache \<Rightarrow> 'lg \<Rightarrow> ('e, 'lg) prefix_snapshot" where
  "snapshot_from_cache c next_logits =
     \<lparr>ps_position = st_pos c, ps_next_logits = next_logits, ps_layers = map snapshot_layer (st_layers c)\<rparr>"

text \<open>\<open>x[0:1].copy_(row)\<close>, and \<open>x[0:1, :n].copy_(row)\<close> for a row of \<open>n\<close> entries.\<close>

definition restore_row :: "'e list \<Rightarrow> 'e rows \<Rightarrow> 'e rows res" where
  "restore_row row x = map_sum id (\<lambda>new. x[0 := new]) (assign_entries (length (x ! 0)) row)"

definition restore_leading :: "'e list \<Rightarrow> 'e rows \<Rightarrow> 'e rows res" where
  "restore_leading row x =
     (let n = length row; old = x ! 0
      in map_sum id (\<lambda>new. x[0 := new @ drop n old]) (assign_entries (length (take n old)) row))"

definition restore_indexer :: "'e indexer_snapshot \<Rightarrow> ('e indexer_state, unit) act" where
  "restore_indexer sx = run_all
     [set_field ix_compressed_kv (\<lambda>x s. s\<lparr>ix_compressed_kv := x\<rparr>) (restore_leading (sx_compressed_kv sx)),
      set_field ix_cmp_kv_state (\<lambda>x s. s\<lparr>ix_cmp_kv_state := x\<rparr>) (restore_row (sx_cmp_kv_state sx)),
      set_field ix_cmp_score_state (\<lambda>x s. s\<lparr>ix_cmp_score_state := x\<rparr>) (restore_row (sx_cmp_score_state sx)),
      (\<lambda>s. (Inr (), s\<lparr>ix_n_compressed_blocks := sx_n_compressed_blocks sx\<rparr>))]"

definition restore_layer :: "'e layer_snapshot \<Rightarrow> ('e layer_state, unit) act" where
  "restore_layer sn = run_all
     [set_field swa_kv (\<lambda>x s. s\<lparr>swa_kv := x\<rparr>) (restore_row (sn_swa_kv sn)),
      set_field compressed_kv (\<lambda>x s. s\<lparr>compressed_kv := x\<rparr>) (restore_leading (sn_compressed_kv sn)),
      set_field cmp_kv_state (\<lambda>x s. s\<lparr>cmp_kv_state := x\<rparr>) (restore_row (sn_cmp_kv_state sn)),
      set_field cmp_score_state (\<lambda>x s. s\<lparr>cmp_score_state := x\<rparr>) (restore_row (sn_cmp_score_state sn)),
      (\<lambda>s. (Inr (), s\<lparr>n_compressed_blocks := sn_n_compressed_blocks sn, swa_count := sn_swa_count sn\<rparr>)),
      (case sn_indexer sn of None \<Rightarrow> (\<lambda>s. (Inr (), s)) | Some sx \<Rightarrow> on_indexer (restore_indexer sx))]"

definition restore_into :: "('e, 'lg) prefix_snapshot \<Rightarrow> ('e state_cache, unit) act" where
  "restore_into snap = (\<lambda>c.
     if length (st_layers c) \<noteq> length (ps_layers snap) then (Inl ValueError, c)
     else case for_each (\<lambda>i. on_layer i (restore_layer (ps_layers snap ! i))) [0 ..< length (ps_layers snap)] c of
            (Inl e, c') \<Rightarrow> (Inl e, c')
          | (Inr _, c') \<Rightarrow> (Inr (), c'\<lparr>st_pos := ps_position snap\<rparr>))"

section \<open>The cache of snapshots\<close>

text \<open>A dict keeps the order of insertion.\<close>

record ('e, 'lg) state_prefix_cache =
  spc_max_entries :: int
  spc_entries :: "(token list \<times> ('e, 'lg) prefix_snapshot) list"

definition state_prefix_cache_init :: "int \<Rightarrow> ('e, 'lg) state_prefix_cache res" where
  "state_prefix_cache_init max_entries =
     (if max_entries \<le> 0 then Inl ValueError else Inr \<lparr>spc_max_entries = max_entries, spc_entries = []\<rparr>)"

fun match_loop :: "token list \<Rightarrow> (token list \<times> 's) list \<Rightarrow> nat \<Rightarrow> 's option \<Rightarrow> nat \<times> 's option" where
  "match_loop prompt [] best_len best = (best_len, best)"
| "match_loop prompt ((key, snapshot) # rest) best_len best =
     (if length key \<le> length prompt \<and> best_len < length key \<and> take (length key) prompt = key
      then match_loop prompt rest (length key) (Some snapshot)
      else match_loop prompt rest best_len best)"

definition spc_match :: "('e, 'lg) state_prefix_cache \<Rightarrow> token list \<Rightarrow> nat \<times> ('e, 'lg) prefix_snapshot option" where
  "spc_match pc prompt = match_loop prompt (spc_entries pc) 0 None"

definition spc_insert :: "token list \<Rightarrow> ('e, 'lg) prefix_snapshot \<Rightarrow> ('e, 'lg) state_prefix_cache \<Rightarrow> ('e, 'lg) state_prefix_cache" where
  "spc_insert key snapshot pc =
     (if key \<in> fst ` set (spc_entries pc) then pc
      else let kept = (if spc_max_entries pc \<le> int (length (spc_entries pc)) then tl (spc_entries pc) else spc_entries pc)
        in pc\<lparr>spc_entries := kept @ [(key, snapshot)]\<rparr>)"

section \<open>What a match returns\<close>

definition prefix_hits :: "token list \<Rightarrow> (token list \<times> 's) list \<Rightarrow> (token list \<times> 's) set" where
  "prefix_hits prompt es = {(key, sn) \<in> set es. key \<noteq> [] \<and> prefix key prompt}"

lemma take_is_prefix: "take (length key) prompt = key \<and> length key \<le> length prompt \<longleftrightarrow> prefix key prompt"
  by (metis append_eq_conv_conj append_take_drop_id length_take min.absorb2 prefixE prefixI prefix_length_le)

lemma match_loop_longest:
  assumes "match_loop prompt es n best = (m, out)"
  shows "n \<le> m" "\<forall>(key, sn) \<in> prefix_hits prompt es. length key \<le> m"
    "m = n \<and> out = best \<or> (\<exists>key sn. (key, sn) \<in> prefix_hits prompt es \<and> length key = m \<and> out = Some sn)"
proof -
  have "n \<le> m \<and> (\<forall>(key, sn) \<in> prefix_hits prompt es. length key \<le> m) \<and>
    (m = n \<and> out = best \<or> (\<exists>key sn. (key, sn) \<in> prefix_hits prompt es \<and> length key = m \<and> out = Some sn))"
    using assms
  proof (induction prompt es n best rule: match_loop.induct)
    case (1 prompt n best)
    then show ?case by (simp add: prefix_hits_def)
  next
    case (2 prompt key sn rest n best)
    let ?hit = "length key \<le> length prompt \<and> n < length key \<and> take (length key) prompt = key"
    have hits: "prefix_hits prompt ((key, sn) # rest) =
        (if key \<noteq> [] \<and> prefix key prompt then {(key, sn)} else {}) \<union> prefix_hits prompt rest"
      by (auto simp: prefix_hits_def)
    show ?case
    proof (cases ?hit)
      case True
      then have p: "key \<noteq> []" "prefix key prompt" using take_is_prefix by auto
      have "match_loop prompt rest (length key) (Some sn) = (m, out)" using 2(3) True by simp
      then have "length key \<le> m \<and> (\<forall>(key, sn) \<in> prefix_hits prompt rest. length key \<le> m) \<and>
          (m = length key \<and> out = Some sn \<or> (\<exists>key sn. (key, sn) \<in> prefix_hits prompt rest \<and> length key = m \<and> out = Some sn))"
        using 2(1) True by blast
      then show ?thesis using p True unfolding hits by auto
    next
      case False
      then have "match_loop prompt rest n best = (m, out)" using 2(3) by (auto simp: if_not_P)
      then have ih: "n \<le> m \<and> (\<forall>(key, sn) \<in> prefix_hits prompt rest. length key \<le> m) \<and>
          (m = n \<and> out = best \<or> (\<exists>key sn. (key, sn) \<in> prefix_hits prompt rest \<and> length key = m \<and> out = Some sn))"
        using 2(2) False by blast
      have "length key \<le> m" if "prefix key prompt" using that False take_is_prefix ih by force
      then show ?thesis using ih unfolding hits by auto
    qed
  qed
  then show "n \<le> m" "\<forall>(key, sn) \<in> prefix_hits prompt es. length key \<le> m"
    "m = n \<and> out = best \<or> (\<exists>key sn. (key, sn) \<in> prefix_hits prompt es \<and> length key = m \<and> out = Some sn)" by blast+
qed

lemma spc_match_cases:
  obtains (miss) "spc_match pc prompt = (0, None)" "prefix_hits prompt (spc_entries pc) = {}"
  | (hit) key sn where "spc_match pc prompt = (length key, Some sn)" "(key, sn) \<in> set (spc_entries pc)" "key \<noteq> []"
      "prefix key prompt" "\<forall>(key', sn') \<in> prefix_hits prompt (spc_entries pc). length key' \<le> length key"
proof -
  obtain m out where mo: "spc_match pc prompt = (m, out)" by fastforce
  note l = match_loop_longest [OF mo [unfolded spc_match_def]]
  consider "m = 0" "out = None" | key sn where "(key, sn) \<in> prefix_hits prompt (spc_entries pc)" "length key = m" "out = Some sn"
    using l(3) by blast
  then show ?thesis
  proof cases
    case 1
    then have "prefix_hits prompt (spc_entries pc) = {}" using l(2) by (auto simp: prefix_hits_def)
    then show ?thesis using mo 1 miss by simp
  next
    case 2
    then show ?thesis using mo l(2) by (intro hit [of key sn]) (auto simp: prefix_hits_def)
  qed
qed

section \<open>The cache stays small\<close>

definition spc_ok :: "('e, 'lg) state_prefix_cache \<Rightarrow> bool" where
  "spc_ok pc \<longleftrightarrow> 0 < spc_max_entries pc \<and> int (length (spc_entries pc)) \<le> spc_max_entries pc \<and> distinct (map fst (spc_entries pc))"

lemma set_tl_subset: "set (tl xs) \<subseteq> set xs"
  by (cases xs) auto

lemma spc_insert_ok:
  assumes "spc_ok pc"
  shows "spc_ok (spc_insert key sn pc)"
proof (cases "key \<in> fst ` set (spc_entries pc)")
  case False
  let ?kept = "if spc_max_entries pc \<le> int (length (spc_entries pc)) then tl (spc_entries pc) else spc_entries pc"
  have "int (length ?kept) + 1 \<le> spc_max_entries pc" using assms by (auto simp: spc_ok_def)
  moreover have "set ?kept \<subseteq> set (spc_entries pc)" using set_tl_subset [of "spc_entries pc"] by auto
  moreover have "distinct (map fst ?kept)" using assms by (auto simp: spc_ok_def map_tl distinct_tl)
  ultimately show ?thesis using False assms by (auto simp: spc_insert_def Let_def spc_ok_def)
qed (use assms in \<open>simp add: spc_insert_def\<close>)

lemma spc_insert_entries: "set (spc_entries (spc_insert key sn pc)) \<subseteq> insert (key, sn) (set (spc_entries pc))"
  using set_tl_subset [of "spc_entries pc"] by (auto simp: spc_insert_def Let_def)

lemma spc_insert_max [simp]: "spc_max_entries (spc_insert key sn pc) = spc_max_entries pc"
  by (simp add: spc_insert_def Let_def)

section \<open>Restoring\<close>

text \<open>The sizes of the tensors of a layer.\<close>

definition indexer_shape :: "'e indexer_state \<Rightarrow> nat list \<times> nat list \<times> nat list" where
  "indexer_shape ix = (map length (ix_compressed_kv ix), map length (ix_cmp_kv_state ix), map length (ix_cmp_score_state ix))"

definition layer_shape :: "'e layer_state \<Rightarrow> (nat list \<times> nat list \<times> nat list \<times> nat list) \<times> (nat list \<times> nat list \<times> nat list) option" where
  "layer_shape s = ((map length (swa_kv s), map length (compressed_kv s), map length (cmp_kv_state s),
     map length (cmp_score_state s)), map_option indexer_shape (ls_indexer s))"

text \<open>A snapshot fits a layer: same windows and accumulators, and the history is long enough.\<close>

definition indexer_fits :: "'e indexer_snapshot \<Rightarrow> 'e indexer_state \<Rightarrow> bool" where
  "indexer_fits sx ix \<longleftrightarrow> ix_compressed_kv ix \<noteq> [] \<and> ix_cmp_kv_state ix \<noteq> [] \<and> ix_cmp_score_state ix \<noteq> [] \<and>
     length (sx_compressed_kv sx) = sx_n_compressed_blocks sx \<and> sx_n_compressed_blocks sx \<le> length (ix_compressed_kv ix ! 0) \<and>
     length (sx_cmp_kv_state sx) = length (ix_cmp_kv_state ix ! 0) \<and>
     length (sx_cmp_score_state sx) = length (ix_cmp_score_state ix ! 0)"

definition layer_fits :: "'e layer_snapshot \<Rightarrow> 'e layer_state \<Rightarrow> bool" where
  "layer_fits sn s \<longleftrightarrow> swa_kv s \<noteq> [] \<and> compressed_kv s \<noteq> [] \<and> cmp_kv_state s \<noteq> [] \<and> cmp_score_state s \<noteq> [] \<and>
     length (sn_compressed_kv sn) = sn_n_compressed_blocks sn \<and> sn_n_compressed_blocks sn \<le> length (compressed_kv s ! 0) \<and>
     length (sn_swa_kv sn) = length (swa_kv s ! 0) \<and> length (sn_cmp_kv_state sn) = length (cmp_kv_state s ! 0) \<and>
     length (sn_cmp_score_state sn) = length (cmp_score_state s ! 0) \<and> rel_option indexer_fits (sn_indexer sn) (ls_indexer s)"

lemma restore_row_ok: "length row = length (x ! 0) \<Longrightarrow> restore_row row x = Inr (x[0 := row])"
  by (simp add: restore_row_def assign_entries_def)

lemma restore_leading_ok:
  "length row \<le> length (x ! 0) \<Longrightarrow> restore_leading row x = Inr (x[0 := row @ drop (length row) (x ! 0)])"
  by (simp add: restore_leading_def assign_entries_def Let_def)

lemma map_length_update: "length row = length (x ! 0) \<Longrightarrow> map length (x[0 := row]) = map length x"
  by (cases x) (simp_all)

lemma restore_indexer_ok:
  assumes "indexer_fits sx ix"
  shows "\<exists>ix'. restore_indexer sx ix = (Inr (), ix') \<and> snapshot_indexer ix' = sx \<and> indexer_shape ix' = indexer_shape ix"
  using assms
  by (simp add: indexer_fits_def restore_indexer_def set_field_def restore_row_ok restore_leading_ok snapshot_indexer_def
      indexer_shape_def map_length_update)

lemma restore_layer_ok:
  assumes "layer_fits sn s"
  shows "\<exists>s'. restore_layer sn s = (Inr (), s') \<and> snapshot_layer s' = sn \<and> layer_shape s' = layer_shape s"
proof (cases "sn_indexer sn")
  case None
  then have "ls_indexer s = None" using assms by (simp add: layer_fits_def)
  then show ?thesis using None assms
    by (simp add: layer_fits_def restore_layer_def set_field_def restore_row_ok restore_leading_ok snapshot_layer_def
      layer_shape_def map_length_update)
next
  case (Some sx)
  then obtain ix where ix: "ls_indexer s = Some ix" "indexer_fits sx ix"
    using assms by (auto simp: layer_fits_def option_rel_Some1)
  obtain ix' where r: "restore_indexer sx ix = (Inr (), ix')" "snapshot_indexer ix' = sx" "indexer_shape ix' = indexer_shape ix"
    using restore_indexer_ok [OF ix(2)] by blast
  show ?thesis using Some assms ix(1) r
    by (simp add: layer_fits_def restore_layer_def set_field_def restore_row_ok restore_leading_ok snapshot_layer_def
      layer_shape_def map_length_update on_indexer_def)
qed

text \<open>A loop that changes the layers one after the other.\<close>

lemma for_each_layer:
  assumes "\<And>i. i < length ls \<Longrightarrow> \<exists>s'. a i (ls ! i) = (Inr (), s') \<and> Q i s'" "st_layers c = ls"
  shows "\<exists>ls'. for_each (\<lambda>i. on_layer i (a i)) [0 ..< length ls] c = (Inr (), c\<lparr>st_layers := ls'\<rparr>) \<and>
    length ls' = length ls \<and> (\<forall>i < length ls. Q i (ls' ! i))"
proof -
  have "\<exists>ls'. for_each (\<lambda>i. on_layer i (a i)) [0 ..< k] c = (Inr (), c\<lparr>st_layers := ls'\<rparr>) \<and>
      length ls' = length ls \<and> (\<forall>i < k. Q i (ls' ! i)) \<and> (\<forall>i. k \<le> i \<longrightarrow> ls' ! i = ls ! i)" if "k \<le> length ls" for k
    using that
  proof (induction k)
    case 0
    have "c\<lparr>st_layers := ls\<rparr> = c" using assms(2) by auto
    then show ?case by (intro exI [where x = ls]) simp
  next
    case (Suc k)
    then obtain ls' where l: "for_each (\<lambda>i. on_layer i (a i)) [0 ..< k] c = (Inr (), c\<lparr>st_layers := ls'\<rparr>)"
        "length ls' = length ls" "\<forall>i < k. Q i (ls' ! i)" "\<forall>i. k \<le> i \<longrightarrow> ls' ! i = ls ! i" by auto
    have "k < length ls" using Suc.prems by simp
    then obtain s' where s: "a k (ls ! k) = (Inr (), s')" "Q k s'" using assms(1) by blast
    have "on_layer k (a k) (c\<lparr>st_layers := ls'\<rparr>) = (Inr (), c\<lparr>st_layers := ls'[k := s']\<rparr>)"
      using Suc.prems l(2,4) s(1) by (simp add: on_layer_def nth_res_def)
    then have "for_each (\<lambda>i. on_layer i (a i)) [0 ..< Suc k] c = (Inr (), c\<lparr>st_layers := ls'[k := s']\<rparr>)"
      by (simp add: for_each_append l(1))
    moreover have "\<forall>i < Suc k. Q i (ls'[k := s'] ! i)" using l(2,3) s(2) Suc.prems by (auto simp: nth_list_update less_Suc_eq)
    ultimately show ?case using l(2,4) by (intro exI [where x = "ls'[k := s']"]) simp
  qed
  from this [of "length ls"] show ?thesis by auto
qed

lemma restore_into_ok:
  assumes "list_all2 layer_fits (ps_layers snap) (st_layers c)"
  shows "\<exists>c'. restore_into snap c = (Inr (), c') \<and> map snapshot_layer (st_layers c') = ps_layers snap \<and>
    st_pos c' = ps_position snap \<and> map layer_shape (st_layers c') = map layer_shape (st_layers c) \<and> st_specs c' = st_specs c \<and> st_batch c' = st_batch c"
proof -
  have len: "length (ps_layers snap) = length (st_layers c)" using assms by (rule list_all2_lengthD)
  have "\<exists>s'. restore_layer (ps_layers snap ! i) (st_layers c ! i) = (Inr (), s') \<and>
      (snapshot_layer s' = ps_layers snap ! i \<and> layer_shape s' = layer_shape (st_layers c ! i))" if "i < length (st_layers c)" for i
    using restore_layer_ok list_all2_nthD2 [OF assms that] by blast
  from for_each_layer [where a = "\<lambda>i. restore_layer (ps_layers snap ! i)"
      and Q = "\<lambda>i s'. snapshot_layer s' = ps_layers snap ! i \<and> layer_shape s' = layer_shape (st_layers c ! i)", OF this refl]
  obtain ls' where l: "for_each (\<lambda>i. on_layer i (restore_layer (ps_layers snap ! i))) [0 ..< length (st_layers c)] c = (Inr (), c\<lparr>st_layers := ls'\<rparr>)"
      "length ls' = length (st_layers c)"
      "\<forall>i < length (st_layers c). snapshot_layer (ls' ! i) = ps_layers snap ! i \<and> layer_shape (ls' ! i) = layer_shape (st_layers c ! i)"
    by blast
  have "map snapshot_layer ls' = ps_layers snap" "map layer_shape ls' = map layer_shape (st_layers c)"
    using l(2,3) len by (auto intro!: nth_equalityI)
  then show ?thesis using l(1) by (intro exI [where x = "c\<lparr>st_layers := ls', st_pos := ps_position snap\<rparr>"]) (simp add: restore_into_def len)
qed

end
