(* ===== verification/State_Generator.thy ===== *)
theory State_Generator
  imports State_Prefix_Cache Token_Sampler
begin

text \<open>
  \<open>engine/state_cache_generator.py\<close>: generation for one request on a model that keeps a state cache, with and
  without a cache of prompt prefixes. The model is any object with the methods of \<open>StateCacheModelLike\<close>; what
  the code relies on in such a model is \<open>state_model_ok\<close> below.
\<close>

section \<open>The model and the loops of the generator\<close>

text \<open>\<open>build_state_cache\<close> takes the longest sequence and the batch size. Logits are lists of rows, for the ragged
  forward one list per batch row.\<close>

record ('e, 'lg) state_model =
  sm_build :: "int \<Rightarrow> int \<Rightarrow> 'e state_cache res"
  sm_prefill :: "token list \<Rightarrow> ('e state_cache, 'lg list) act"
  sm_decode :: "token \<Rightarrow> int \<Rightarrow> ('e state_cache, 'lg list) act"
  sm_ragged :: "token list \<Rightarrow> int list \<Rightarrow> ('e state_cache, 'lg list list) act"

text \<open>\<open>logits[0, -1, :]\<close>\<close>

definition last_row :: "'lg list \<Rightarrow> 'lg res" where
  "last_row rows = (if rows = [] then Inl IndexError else Inr (last rows))"

definition greedy_params :: sampling_params where
  "greedy_params = \<lparr>temperature = 0, top_k = 0, top_p = 1\<rparr>"

text \<open>One decode step and the advance of the position after it.\<close>

definition decode_and_advance :: "('e, 'lg) state_model \<Rightarrow> token \<Rightarrow> ('e state_cache, 'lg list) act" where
  "decode_and_advance M t = (\<lambda>c.
     case sm_decode M t (st_pos c) c of (Inl e, c') \<Rightarrow> (Inl e, c')
     | (Inr rows, c') \<Rightarrow> (case advance_start_pos 1 c' of (Inl e, c'') \<Rightarrow> (Inl e, c'') | (Inr _, c'') \<Rightarrow> (Inr rows, c'')))"

text \<open>The while loop of \<open>iter_generate_ids\<close> from the token \<open>tok\<close> with \<open>k\<close> tokens left: the tokens it yields, how it
  ends, and the random state. The code samples before it advances the position; both are independent.\<close>

fun iter_loop :: "('e, 'lg) state_model \<Rightarrow> 'lg sampler \<Rightarrow> token option \<Rightarrow> sampling_params \<Rightarrow> nat \<Rightarrow> token
    \<Rightarrow> 'e state_cache \<Rightarrow> nat \<Rightarrow> (token list \<times> unit res) \<times> nat" where
  "iter_loop M S eos params 0 tok c g = (([], Inr ()), g)"
| "iter_loop M S eos params (Suc k) tok c g =
     (if eos = Some tok then (([], Inr ()), g)
      else if k = 0 then (([tok], Inr ()), g)
      else case decode_and_advance M tok c of
             (Inl e, _) \<Rightarrow> (([tok], Inl e), g)
           | (Inr rows, c') \<Rightarrow>
               (case last_row rows of
                  Inl e \<Rightarrow> (([tok], Inl e), g)
                | Inr row \<Rightarrow>
                    (case sample S row params g of (t, g') \<Rightarrow>
                      (case iter_loop M S eos params k t c' g' of ((ts, r), g'') \<Rightarrow> ((tok # ts, r), g'')))))"

definition iter_generate_ids :: "('e, 'lg) state_model \<Rightarrow> 'lg sampler \<Rightarrow> token list \<Rightarrow> int \<Rightarrow> token option \<Rightarrow> sampling_params
    \<Rightarrow> nat \<Rightarrow> (token list \<times> unit res) \<times> nat" where
  "iter_generate_ids M S prompt max_new eos params g =
     (if prompt = [] then (([], Inl ValueError), g)
      else if max_new \<le> 0 then (([], Inl ValueError), g)
      else case sm_build M (int (length prompt) + max_new) 1 of Inl e \<Rightarrow> (([], Inl e), g) | Inr c \<Rightarrow>
     (case sm_prefill M prompt c of (Inl e, _) \<Rightarrow> (([], Inl e), g) | (Inr rows, c1) \<Rightarrow>
     (case last_row rows of Inl e \<Rightarrow> (([], Inl e), g) | Inr row \<Rightarrow>
     (case sample S row params g of (t, g') \<Rightarrow>
     (case advance_start_pos (int (length prompt)) c1 of (Inl e, _) \<Rightarrow> (([], Inl e), g')
      | (Inr _, c2) \<Rightarrow> iter_loop M S eos params (nat max_new) t c2 g')))))"

definition generate_ids :: "('e, 'lg) state_model \<Rightarrow> 'lg sampler \<Rightarrow> token list \<Rightarrow> int \<Rightarrow> token option \<Rightarrow> token list res" where
  "generate_ids M S prompt max_new eos =
     (case fst (iter_generate_ids M S prompt max_new eos greedy_params 0) of
        (ts, Inr _) \<Rightarrow> Inr ts
      | (ts, Inl e) \<Rightarrow> Inl e)"

section \<open>Prefix sharing\<close>

text \<open>The decode steps over the rest of the prompt, with the logits of the last one.\<close>

fun replay :: "('e, 'lg) state_model \<Rightarrow> token list \<Rightarrow> 'lg list option \<Rightarrow> ('e state_cache, 'lg list option) act" where
  "replay M [] step_logits c = (Inr step_logits, c)"
| "replay M (t # ts) step_logits c =
     (case decode_and_advance M t c of (Inl e, c') \<Rightarrow> (Inl e, c') | (Inr rows, c') \<Rightarrow> replay M ts (Some rows) c')"

definition prefill_with_prefix_cache ::
  "('e, 'lg) state_model \<Rightarrow> token list \<Rightarrow> ('e state_cache \<times> ('e, 'lg) state_prefix_cache, 'lg) act" where
  "prefill_with_prefix_cache M prompt = (\<lambda>(c, pc).
     (case (case spc_match pc prompt of
        (matched, Some snap) \<Rightarrow>
          (case restore_into snap c of (Inl e, c') \<Rightarrow> (Inl e, c') | (Inr _, c') \<Rightarrow>
           if matched = length prompt then (Inr (ps_next_logits snap), c')
           else case replay M (drop matched prompt) None c' of
                  (Inl e, c'') \<Rightarrow> (Inl e, c'')
                | (Inr None, c'') \<Rightarrow> (Inl AssertionError, c'')
                | (Inr (Some rows), c'') \<Rightarrow> (last_row rows, c''))
      | (_, None) \<Rightarrow>
          (case sm_prefill M prompt c of (Inl e, c') \<Rightarrow> (Inl e, c') | (Inr rows, c') \<Rightarrow>
           (case advance_start_pos (int (length prompt)) c' of (Inl e, c'') \<Rightarrow> (Inl e, c'') | (Inr _, c'') \<Rightarrow> (last_row rows, c'')))) of
        (Inl e, c') \<Rightarrow> (Inl e, (c', pc))
      | (Inr next_logits, c') \<Rightarrow> (Inr next_logits, (c', spc_insert prompt (snapshot_from_cache c' next_logits) pc))))"

definition greedy_pick :: "'lg sampler \<Rightarrow> 'lg \<Rightarrow> token" where
  "greedy_pick S row = fst (sample S row greedy_params 0)"

fun cached_loop :: "('e, 'lg) state_model \<Rightarrow> 'lg sampler \<Rightarrow> token option \<Rightarrow> nat \<Rightarrow> token \<Rightarrow> 'e state_cache \<Rightarrow> token list res" where
  "cached_loop M S eos 0 tok c = Inr []"
| "cached_loop M S eos (Suc k) tok c =
     (if eos = Some tok then Inr []
      else if k = 0 then Inr [tok]
      else case decode_and_advance M tok c of
             (Inl e, _) \<Rightarrow> Inl e
           | (Inr rows, c') \<Rightarrow>
               (case last_row rows of Inl e \<Rightarrow> Inl e
                | Inr row \<Rightarrow> map_sum id ((#) tok) (cached_loop M S eos k (greedy_pick S row) c')))"

definition generate_ids_prefix_cached :: "('e, 'lg) state_model \<Rightarrow> 'lg sampler \<Rightarrow> token list \<Rightarrow> int \<Rightarrow> token option
    \<Rightarrow> (('e, 'lg) state_prefix_cache, token list) act" where
  "generate_ids_prefix_cached M S prompt max_new eos = (\<lambda>pc.
     if prompt = [] then (Inl ValueError, pc)
     else if max_new \<le> 0 then (Inl ValueError, pc)
     else case sm_build M (int (length prompt) + max_new) 1 of Inl e \<Rightarrow> (Inl e, pc) | Inr c \<Rightarrow>
       (case prefill_with_prefix_cache M prompt (c, pc) of
          (Inl e, (_, pc')) \<Rightarrow> (Inl e, pc')
        | (Inr row, (c', pc')) \<Rightarrow> (cached_loop M S eos (nat max_new) (greedy_pick S row) c', pc')))"

section \<open>What the code relies on in a model\<close>

text \<open>The sizes of a cache, and the view of the row that a snapshot takes.\<close>

definition shapes :: "'e state_cache \<Rightarrow> ((nat list \<times> nat list \<times> nat list \<times> nat list) \<times> (nat list \<times> nat list \<times> nat list) option) list" where
  "shapes c = map layer_shape (st_layers c)"

definition views :: "'e state_cache \<Rightarrow> 'e layer_snapshot list" where
  "views c = map snapshot_layer (st_layers c)"

text \<open>\<open>holds p v\<close> says that \<open>v\<close> is the state after the tokens \<open>p\<close>, and \<open>nxt p\<close> are the logits after them. The state is a
  function of the prefix and of what a snapshot keeps: a prefill leaves it, a decode step extends it, whatever the
  rest of the cache contains, and a snapshot fits every cache that was built for a longer sequence.\<close>

definition builds_cache :: "('e, 'lg) state_model \<Rightarrow> bool" where
  "builds_cache M \<longleftrightarrow> (\<forall>n > 0. \<exists>c. sm_build M n 1 = Inr c \<and> st_pos c = 0)"

definition prefill_ok :: "('e, 'lg) state_model \<Rightarrow> (token list \<Rightarrow> 'lg) \<Rightarrow> (token list \<Rightarrow> 'e layer_snapshot list \<Rightarrow> bool) \<Rightarrow> bool" where
  "prefill_ok M nxt holds \<longleftrightarrow> (\<forall>n c p. sm_build M n 1 = Inr c \<longrightarrow> p \<noteq> [] \<longrightarrow> int (length p) \<le> n \<longrightarrow>
     (\<exists>rows c'. sm_prefill M p c = (Inr rows, c') \<and> rows \<noteq> [] \<and> last rows = nxt p \<and> st_pos c' = st_pos c \<and>
        shapes c' = shapes c \<and> st_specs c' = st_specs c \<and> holds p (views c')))"

definition decode_ok :: "('e, 'lg) state_model \<Rightarrow> (token list \<Rightarrow> 'lg) \<Rightarrow> (token list \<Rightarrow> 'e layer_snapshot list \<Rightarrow> bool) \<Rightarrow> bool" where
  "decode_ok M nxt holds \<longleftrightarrow> (\<forall>n c0 c p t. sm_build M n 1 = Inr c0 \<longrightarrow> shapes c = shapes c0 \<longrightarrow> holds p (views c) \<longrightarrow>
     st_pos c = int (length p) \<longrightarrow> int (length p) < n \<longrightarrow>
     (\<exists>rows c'. sm_decode M t (st_pos c) c = (Inr rows, c') \<and> rows \<noteq> [] \<and> last rows = nxt (p @ [t]) \<and> st_pos c' = st_pos c \<and>
        shapes c' = shapes c \<and> st_specs c' = st_specs c \<and> holds (p @ [t]) (views c')))"

definition snapshots_fit :: "('e, 'lg) state_model \<Rightarrow> (token list \<Rightarrow> 'e layer_snapshot list \<Rightarrow> bool) \<Rightarrow> bool" where
  "snapshots_fit M holds \<longleftrightarrow> (\<forall>n c p v. sm_build M n 1 = Inr c \<longrightarrow> holds p v \<longrightarrow> int (length p) \<le> n \<longrightarrow> list_all2 layer_fits v (st_layers c))"

definition state_model_ok :: "('e, 'lg) state_model \<Rightarrow> (token list \<Rightarrow> 'lg) \<Rightarrow> (token list \<Rightarrow> 'e layer_snapshot list \<Rightarrow> bool) \<Rightarrow> bool" where
  "state_model_ok M nxt holds \<longleftrightarrow> builds_cache M \<and> prefill_ok M nxt holds \<and> decode_ok M nxt holds \<and> snapshots_fit M holds"

text \<open>A cache for sequences up to \<open>n\<close> that has processed exactly \<open>p\<close>.\<close>

definition processed :: "('e, 'lg) state_model \<Rightarrow> (token list \<Rightarrow> 'e layer_snapshot list \<Rightarrow> bool) \<Rightarrow> int \<Rightarrow> token list \<Rightarrow> 'e state_cache \<Rightarrow> bool" where
  "processed M holds n p c \<longleftrightarrow> (\<exists>c0. sm_build M n 1 = Inr c0 \<and> shapes c = shapes c0) \<and> holds p (views c) \<and> st_pos c = int (length p)"

lemma shapes_pos [simp]: "shapes (c\<lparr>st_pos := x\<rparr>) = shapes c" "views (c\<lparr>st_pos := x\<rparr>) = views c"
  by (simp_all add: shapes_def views_def)

lemma decode_and_advance_ok:
  assumes "state_model_ok M nxt holds" "processed M holds n p c" "int (length p) < n"
  shows "\<exists>rows c'. decode_and_advance M t c = (Inr rows, c') \<and> last_row rows = Inr (nxt (p @ [t])) \<and> processed M holds n (p @ [t]) c'"
proof -
  obtain c0 where c0: "sm_build M n 1 = Inr c0" "shapes c = shapes c0" and c: "holds p (views c)" "st_pos c = int (length p)"
    using assms(2) by (auto simp: processed_def)
  have "decode_ok M nxt holds" using assms(1) by (simp add: state_model_ok_def)
  from this [unfolded decode_ok_def, rule_format, OF c0 c assms(3)]
  obtain rows c' where d: "sm_decode M t (st_pos c) c = (Inr rows, c')" "rows \<noteq> []" "last rows = nxt (p @ [t])"
      "st_pos c' = st_pos c" "shapes c' = shapes c" "holds (p @ [t]) (views c')" by blast
  then have "decode_and_advance M t c = (Inr rows, c'\<lparr>st_pos := st_pos c + 1\<rparr>)"
    by (simp add: decode_and_advance_def advance_start_pos_def)
  then show ?thesis using d c c0 by (auto simp: processed_def last_row_def)
qed

lemma prefill_and_advance_ok:
  assumes "state_model_ok M nxt holds" "sm_build M n 1 = Inr c" "st_pos c = 0" "p \<noteq> []" "int (length p) \<le> n"
  shows "\<exists>rows c'. sm_prefill M p c = (Inr rows, c') \<and> last_row rows = Inr (nxt p) \<and>
    advance_start_pos (int (length p)) c' = (Inr (), c'\<lparr>st_pos := int (length p)\<rparr>) \<and> processed M holds n p (c'\<lparr>st_pos := int (length p)\<rparr>)"
proof -
  have "prefill_ok M nxt holds" using assms(1) by (simp add: state_model_ok_def)
  from this [unfolded prefill_ok_def, rule_format, OF assms(2,4,5)]
  obtain rows c' where "sm_prefill M p c = (Inr rows, c')" "rows \<noteq> []" "last rows = nxt p" "st_pos c' = st_pos c"
      "shapes c' = shapes c" "holds p (views c')" by blast
  then show ?thesis using assms(2,3) by (auto simp: processed_def last_row_def advance_start_pos_def)
qed

section \<open>Greedy decoding\<close>

text \<open>At most \<open>n\<close> greedy tokens after \<open>p\<close>, up to the end token, which is left out.\<close>

fun greedy_tokens :: "('lg \<Rightarrow> token) \<Rightarrow> (token list \<Rightarrow> 'lg) \<Rightarrow> token option \<Rightarrow> token list \<Rightarrow> nat \<Rightarrow> token list" where
  "greedy_tokens pick nxt eos p 0 = []"
| "greedy_tokens pick nxt eos p (Suc n) =
     (let t = pick (nxt p) in if eos = Some t then [] else t # greedy_tokens pick nxt eos (p @ [t]) n)"

lemma greedy_sample [simp]: "sample S row greedy_params g = (argmax S row, g)"
  by (simp add: sample_def greedy_params_def)

lemma greedy_pick_argmax [simp]: "greedy_pick S row = argmax S row"
  by (simp add: greedy_pick_def)

text \<open>The token to feed is the choice after \<open>p\<close>; \<open>m\<close> tokens are left.\<close>

lemma iter_loop_greedy:
  assumes "state_model_ok M nxt holds" "processed M holds n p c" "int (length p) + int m \<le> n" "tok = argmax S (nxt p)"
  shows "iter_loop M S eos greedy_params m tok c g = ((greedy_tokens (argmax S) nxt eos p m, Inr ()), g)"
  using assms(2-4)
proof (induction m arbitrary: p c tok)
  case (Suc m)
  show ?case
  proof (cases "eos = Some tok \<or> m = 0")
    case True
    then show ?thesis using Suc.prems(3) by (cases m) (auto simp: Let_def)
  next
    case False
    have "int (length p) < n" using Suc.prems(2) by simp
    then obtain rows c' where d: "decode_and_advance M tok c = (Inr rows, c')" "last_row rows = Inr (nxt (p @ [tok]))"
        "processed M holds n (p @ [tok]) c'"
      using decode_and_advance_ok [OF assms(1) Suc.prems(1)] by blast
    from Suc.IH [OF d(3) _ refl] Suc.prems(2)
    have "iter_loop M S eos greedy_params m (argmax S (nxt (p @ [tok]))) c' g =
        ((greedy_tokens (argmax S) nxt eos (p @ [tok]) m, Inr ()), g)" by simp
    then show ?thesis using False d(1,2) Suc.prems(3) by (auto simp: Let_def)
  qed
qed simp

lemma cached_loop_greedy:
  assumes "state_model_ok M nxt holds" "processed M holds n p c" "int (length p) + int m \<le> n" "tok = argmax S (nxt p)"
  shows "cached_loop M S eos m tok c = Inr (greedy_tokens (argmax S) nxt eos p m)"
  using assms(2-4)
proof (induction m arbitrary: p c tok)
  case (Suc m)
  show ?case
  proof (cases "eos = Some tok \<or> m = 0")
    case True
    then show ?thesis using Suc.prems(3) by (cases m) (auto simp: Let_def)
  next
    case False
    have "int (length p) < n" using Suc.prems(2) by simp
    then obtain rows c' where d: "decode_and_advance M tok c = (Inr rows, c')" "last_row rows = Inr (nxt (p @ [tok]))"
        "processed M holds n (p @ [tok]) c'"
      using decode_and_advance_ok [OF assms(1) Suc.prems(1)] by blast
    from Suc.IH [OF d(3) _ refl] Suc.prems(2)
    have "cached_loop M S eos m (argmax S (nxt (p @ [tok]))) c' = Inr (greedy_tokens (argmax S) nxt eos (p @ [tok]) m)" by simp
    then show ?thesis using False d(1,2) Suc.prems(3) by (auto simp: Let_def)
  qed
qed simp

text \<open>Generation without a prefix cache.\<close>

lemma generate_ids_greedy:
  assumes "state_model_ok M nxt holds"
  shows "generate_ids M S p k eos =
    (if p = [] \<or> k \<le> 0 then Inl ValueError else Inr (greedy_tokens (argmax S) nxt eos p (nat k)))"
proof (cases "p = [] \<or> k \<le> 0")
  case False
  let ?n = "int (length p) + k"
  have "0 < ?n" using False by simp
  then obtain c where c: "sm_build M ?n 1 = Inr c" "st_pos c = 0"
    using assms by (auto simp: state_model_ok_def builds_cache_def)
  obtain rows c' where p: "sm_prefill M p c = (Inr rows, c')" "last_row rows = Inr (nxt p)"
      "advance_start_pos (int (length p)) c' = (Inr (), c'\<lparr>st_pos := int (length p)\<rparr>)"
      "processed M holds ?n p (c'\<lparr>st_pos := int (length p)\<rparr>)"
    using prefill_and_advance_ok [OF assms c, of p] False by auto
  have "iter_loop M S eos greedy_params (nat k) (argmax S (nxt p)) (c'\<lparr>st_pos := int (length p)\<rparr>) 0 =
      ((greedy_tokens (argmax S) nxt eos p (nat k), Inr ()), 0)"
    by (rule iter_loop_greedy [OF assms p(4) _ refl]) (use False in simp)
  then show ?thesis using False c p by (simp add: generate_ids_def iter_generate_ids_def)
qed (auto simp: generate_ids_def iter_generate_ids_def)

section \<open>Sharing prefixes changes nothing\<close>

definition snapshot_right :: "(token list \<Rightarrow> 'lg) \<Rightarrow> (token list \<Rightarrow> 'e layer_snapshot list \<Rightarrow> bool) \<Rightarrow> token list \<times> ('e, 'lg) prefix_snapshot \<Rightarrow> bool" where
  "snapshot_right nxt holds e \<longleftrightarrow> (case e of (key, sn) \<Rightarrow>
     ps_position sn = int (length key) \<and> ps_next_logits sn = nxt key \<and> holds key (ps_layers sn))"

lemma replay_ok:
  assumes "state_model_ok M nxt holds" "processed M holds n p c" "int (length p + length ts) \<le> n" "ts \<noteq> []"
  shows "\<exists>rows c'. replay M ts last_rows c = (Inr (Some rows), c') \<and> last_row rows = Inr (nxt (p @ ts)) \<and> processed M holds n (p @ ts) c'"
  using assms(2-4)
proof (induction ts arbitrary: p c last_rows)
  case (Cons t ts)
  have "int (length p) < n" using Cons.prems(2) by simp
  then obtain rows c' where d: "decode_and_advance M t c = (Inr rows, c')" "last_row rows = Inr (nxt (p @ [t]))"
      "processed M holds n (p @ [t]) c'"
    using decode_and_advance_ok [OF assms(1) Cons.prems(1)] by blast
  show ?case
  proof (cases "ts = []")
    case False
    then show ?thesis using Cons.IH [OF d(3) _ False, of "Some rows"] Cons.prems(2) d(1) by simp
  qed (use d in simp)
qed simp

lemma prefill_with_prefix_cache_ok:
  assumes "state_model_ok M nxt holds" "sm_build M n 1 = Inr c" "st_pos c = 0" "p \<noteq> []" "int (length p) \<le> n"
    and "\<forall>e \<in> set (spc_entries pc). snapshot_right nxt holds e"
  shows "\<exists>c' pc'. prefill_with_prefix_cache M p (c, pc) = (Inr (nxt p), (c', pc')) \<and> processed M holds n p c' \<and>
    pc' = spc_insert p (snapshot_from_cache c' (nxt p)) pc \<and> snapshot_right nxt holds (p, snapshot_from_cache c' (nxt p))"
proof -
  have right: "snapshot_right nxt holds (p, snapshot_from_cache c' (nxt p))" if "processed M holds n p c'" for c'
    using that by (simp add: processed_def snapshot_right_def snapshot_from_cache_def views_def)
  consider (miss) "spc_match pc p = (0, None)"
    | (hit) key sn where "spc_match pc p = (length key, Some sn)" "(key, sn) \<in> set (spc_entries pc)" "prefix key p"
    using spc_match_cases [of pc p] by metis
  then show ?thesis
  proof cases
    case miss
    obtain rows c' where q: "sm_prefill M p c = (Inr rows, c')" "last_row rows = Inr (nxt p)"
        "advance_start_pos (int (length p)) c' = (Inr (), c'\<lparr>st_pos := int (length p)\<rparr>)"
        "processed M holds n p (c'\<lparr>st_pos := int (length p)\<rparr>)"
      using prefill_and_advance_ok [OF assms(1-5)] by blast
    then show ?thesis using miss right by (simp add: prefill_with_prefix_cache_def)
  next
    case hit
    have sn: "ps_position sn = int (length key)" "ps_next_logits sn = nxt key" "holds key (ps_layers sn)"
      using assms(6) hit(2) by (auto simp: snapshot_right_def)
    have len: "length key \<le> length p" using hit(3) by (rule prefix_length_le)
    have "snapshots_fit M holds" using assms(1) by (simp add: state_model_ok_def)
    then have "list_all2 layer_fits (ps_layers sn) (st_layers c)"
      using assms(2,5) sn(3) len unfolding snapshots_fit_def by (metis dual_order.trans of_nat_mono)
    then obtain c' where r: "restore_into sn c = (Inr (), c')" "views c' = ps_layers sn" "st_pos c' = ps_position sn" "shapes c' = shapes c"
      using restore_into_ok unfolding views_def shapes_def by blast
    then have key: "processed M holds n key c'" using sn assms(2) by (auto simp: processed_def)
    show ?thesis
    proof (cases "length key = length p")
      case True
      then have "key = p" using hit(3) by (auto simp: prefix_def)
      then show ?thesis using hit(1) r(1) sn(2) key right by (simp add: prefill_with_prefix_cache_def)
    next
      case False
      have split: "p = key @ drop (length key) p" using hit(3) by (auto simp: prefix_def)
      have ne: "drop (length key) p \<noteq> []" and le: "int (length key + length (drop (length key) p)) \<le> n" using False len assms(5) by auto
      obtain rows c'' where "replay M (drop (length key) p) None c' = (Inr (Some rows), c'')" "last_row rows = Inr (nxt p)" "processed M holds n p c''"
        using replay_ok [OF assms(1) key le ne, of None] unfolding split [symmetric] by blast
      then show ?thesis using hit(1) r(1) False right by (simp add: prefill_with_prefix_cache_def)
    qed
  qed
qed

lemma generate_cached_greedy:
  assumes "state_model_ok M nxt holds" "\<forall>e \<in> set (spc_entries pc). snapshot_right nxt holds e" "spc_ok pc"
  shows "\<exists>pc'. generate_ids_prefix_cached M S p k eos pc = (generate_ids M S p k eos, pc') \<and>
    (\<forall>e \<in> set (spc_entries pc'). snapshot_right nxt holds e) \<and> spc_ok pc' \<and> spc_max_entries pc' = spc_max_entries pc"
proof (cases "p = [] \<or> k \<le> 0")
  case True
  then show ?thesis using assms(2,3) by (auto simp: generate_ids_prefix_cached_def generate_ids_greedy [OF assms(1)])
next
  case False
  let ?n = "int (length p) + k"
  have "0 < ?n" using False by simp
  then obtain c where c: "sm_build M ?n 1 = Inr c" "st_pos c = 0"
    using assms(1) by (auto simp: state_model_ok_def builds_cache_def)
  have "p \<noteq> []" "int (length p) \<le> ?n" using False by auto
  then obtain c' pc' where q: "prefill_with_prefix_cache M p (c, pc) = (Inr (nxt p), (c', pc'))" "processed M holds ?n p c'"
      "pc' = spc_insert p (snapshot_from_cache c' (nxt p)) pc" "snapshot_right nxt holds (p, snapshot_from_cache c' (nxt p))"
    using prefill_with_prefix_cache_ok [OF assms(1) c _ _ assms(2)] by blast
  have "cached_loop M S eos (nat k) (argmax S (nxt p)) c' = Inr (greedy_tokens (argmax S) nxt eos p (nat k))"
    by (rule cached_loop_greedy [OF assms(1) q(2) _ refl]) (use False in simp)
  then have "generate_ids_prefix_cached M S p k eos pc = (generate_ids M S p k eos, pc')"
    using False c q(1) by (simp add: generate_ids_prefix_cached_def generate_ids_greedy [OF assms(1)])
  moreover have "\<forall>e \<in> set (spc_entries pc'). snapshot_right nxt holds e" using q(3,4) spc_insert_entries assms(2) by fastforce
  moreover have "spc_ok pc'" "spc_max_entries pc' = spc_max_entries pc" using q(3) spc_insert_ok [OF assms(3)] by auto
  ultimately show ?thesis by blast
qed

text \<open>Calls with one prefix cache, one after the other.\<close>

fun serve_cached :: "('e, 'lg) state_model \<Rightarrow> 'lg sampler \<Rightarrow> (token list \<times> int \<times> token option) list
    \<Rightarrow> ('e, 'lg) state_prefix_cache \<Rightarrow> token list res list \<times> ('e, 'lg) state_prefix_cache" where
  "serve_cached M S [] pc = ([], pc)"
| "serve_cached M S ((p, k, eos) # rest) pc =
     (case generate_ids_prefix_cached M S p k eos pc of (out, pc') \<Rightarrow>
      (case serve_cached M S rest pc' of (outs, pc'') \<Rightarrow> (out # outs, pc'')))"

lemma serve_cached_ok:
  assumes "state_model_ok M nxt holds" "\<forall>e \<in> set (spc_entries pc). snapshot_right nxt holds e" "spc_ok pc"
  shows "\<exists>pc'. serve_cached M S rs pc = (map (\<lambda>(p, k, eos). generate_ids M S p k eos) rs, pc') \<and> spc_ok pc' \<and>
    spc_max_entries pc' = spc_max_entries pc \<and> (\<forall>e \<in> set (spc_entries pc'). snapshot_right nxt holds e)"
  using assms(2,3)
proof (induction rs arbitrary: pc)
  case (Cons r rs)
  obtain p k eos where r: "r = (p, k, eos)" using prod_cases3 by blast
  obtain pc1 where g: "generate_ids_prefix_cached M S p k eos pc = (generate_ids M S p k eos, pc1)"
      "\<forall>e \<in> set (spc_entries pc1). snapshot_right nxt holds e" "spc_ok pc1" "spc_max_entries pc1 = spc_max_entries pc"
    using generate_cached_greedy [OF assms(1) Cons.prems] by blast
  then show ?case using Cons.IH [OF g(2,3)] by (auto simp: r)
qed simp

end
