(* ===== verification/State_Scheduler.thy ===== *)
theory State_Scheduler
  imports Request_State State_Generator
begin

text \<open>
  \<open>scheduler/state_cache_continuous_scheduler.py\<close>: continuous batching for models with a state cache. Every request
  has a slot, a row of one batched cache, at its own position, and a step is one ragged forward over all rows. The
  engine thread and the callers are interleaved at the turns of the loop. The idle branch takes a request from the
  queue and puts it back, with the calls of other threads in between, so it is two turns; \<open>ss_taken\<close> is what the thread
  holds. \<open>stop\<close> is the call that joins the thread. A CUDA graph is the function that its replay computes.
\<close>

section \<open>State\<close>

type_synonym srequest = "(unit, unit) running_request"

record ('e, 'lg) ss_config =
  ss_model :: "('e, 'lg) state_model"
  ss_sampler :: "'lg sampler"
  ss_tokenizer :: tokenizer
  ss_max_batch :: int
  ss_max_len :: int
  ss_graph :: "(token list \<Rightarrow> int list \<Rightarrow> ('e state_cache, 'lg list list) act) option"

record slot =
  sl_request :: nat
  sl_position :: int
  sl_next_token :: token

datatype engine_thread_state = Absent | Live | Dead

record ('e, 'lg) ssched =
  ss_reqs :: "nat \<Rightarrow> srequest"
  ss_next :: nat
  ss_waiting :: "nat list"
  ss_taken :: "nat option"
  ss_slots :: "slot option list"
  ss_cache :: "'e state_cache option"
  ss_prefix :: "('e, 'lg) state_prefix_cache option"
  ss_thread :: engine_thread_state
  ss_crashed :: bool
  ss_rng :: nat

definition ss_init :: "('e, 'lg) ss_config \<Rightarrow> bool \<Rightarrow> ('e, 'lg) state_prefix_cache option \<Rightarrow> nat \<Rightarrow> ('e, 'lg) ssched res" where
  "ss_init K graph_supported prefix_cache seed =
     (if ss_max_batch K \<le> 0 then Inl ValueError
      else if ss_max_len K \<le> 0 then Inl ValueError
      else if ss_graph K \<noteq> None \<and> \<not> graph_supported then Inl ValueError
      else Inr \<lparr>ss_reqs = (\<lambda>_. running_request_init \<lparr>prompt_text = [], sampling = greedy_params, max_tokens = 0\<rparr> 0),
        ss_next = 0, ss_waiting = [], ss_taken = None, ss_slots = replicate (nat (ss_max_batch K)) None, ss_cache = None,
        ss_prefix = prefix_cache, ss_thread = Absent, ss_crashed = False, ss_rng = seed\<rparr>)"

definition ss_upd :: "nat \<Rightarrow> (srequest \<Rightarrow> srequest) \<Rightarrow> ('e, 'lg) ssched \<Rightarrow> ('e, 'lg) ssched" where
  "ss_upd r f s = s\<lparr>ss_reqs := (ss_reqs s)(r := f (ss_reqs s r))\<rparr>"

section \<open>Finishing and emitting\<close>

text \<open>\<open>_finish\<close>, and the part of \<open>_decode_step\<close> that appends a token and emits its text.\<close>

definition finish_srequest :: "finish_reason \<Rightarrow> srequest \<Rightarrow> srequest" where
  "finish_srequest reason rq =
     rq\<lparr>rq_finish := Some reason, output_queue := put_dropping (terminal_step reason) (output_queue rq)\<rparr>"

definition emit_token :: "tokenizer \<Rightarrow> token \<Rightarrow> srequest \<Rightarrow> srequest" where
  "emit_token T t rq =
     (let ts = tokens_generated rq @ [t]; current = tok_decode T ts; delta = drop (length (last_text rq)) current
      in rq\<lparr>tokens_generated := ts, last_text := current, output_queue := put_dropping (text_step delta 1) (output_queue rq)\<rparr>)"

section \<open>Admission\<close>

definition prefill_temp :: "('e, 'lg) ss_config \<Rightarrow> token list \<Rightarrow> 'e state_cache
    \<Rightarrow> (('e, 'lg) state_prefix_cache option, 'lg \<times> 'e state_cache) act" where
  "prefill_temp K prompt temp = (\<lambda>pc.
     case pc of
       Some pc \<Rightarrow>
         (case prefill_with_prefix_cache (ss_model K) prompt (temp, pc) of
            (Inl e, (_, pc')) \<Rightarrow> (Inl e, Some pc') | (Inr row, (temp', pc')) \<Rightarrow> (Inr (row, temp'), Some pc'))
     | None \<Rightarrow>
         (case sm_prefill (ss_model K) prompt temp of (Inl e, _) \<Rightarrow> (Inl e, None)
          | (Inr rows, temp') \<Rightarrow> (map_sum id (\<lambda>row. (row, temp')) (last_row rows), None)))"

definition prefill_into_slot :: "('e, 'lg) ss_config \<Rightarrow> nat \<Rightarrow> nat \<Rightarrow> (('e, 'lg) ssched, unit) act" where
  "prefill_into_slot K r i = (\<lambda>s0.
     let prompt = tok_encode (ss_tokenizer K) (prompt_text (rq_request (ss_reqs s0 r)));
         s = ss_upd r (\<lambda>rq. rq\<lparr>prompt_token_ids := prompt\<rparr>) s0;
         params = sampling (rq_request (ss_reqs s r))
     in if prompt = [] then (Inr (), ss_upd r (finish_srequest Stop) s)
        else if ss_max_len K < int (length prompt) + max_tokens (rq_request (ss_reqs s r))
        then (Inr (), ss_upd r (finish_srequest Length) s)
        else case sm_build (ss_model K) (ss_max_len K) 1 of Inl e \<Rightarrow> (Inl e, s) | Inr temp \<Rightarrow>
          (case prefill_temp K prompt temp (ss_prefix s) of
             (Inl e, pc) \<Rightarrow> (Inl e, s\<lparr>ss_prefix := pc\<rparr>)
           | (Inr (row, temp'), pc) \<Rightarrow>
               (case sample (ss_sampler K) row params (ss_rng s) of (t, g) \<Rightarrow>
                 (let s1 = s\<lparr>ss_prefix := pc, ss_rng := g\<rparr> in
                  case ss_cache s1 of None \<Rightarrow> (Inl AssertionError, s1) | Some c \<Rightarrow>
                  (case copy_row_from temp' 0 i c of
                     (Inl e, c') \<Rightarrow> (Inl e, s1\<lparr>ss_cache := Some c'\<rparr>)
                   | (Inr _, c') \<Rightarrow>
                       (Inr (), s1\<lparr>ss_cache := Some c', ss_slots := (ss_slots s1)
                          [i := Some \<lparr>sl_request = r, sl_position = int (length prompt), sl_next_token = t\<rparr>]\<rparr>))))))"

fun admit_slots :: "('e, 'lg) ss_config \<Rightarrow> nat list \<Rightarrow> (('e, 'lg) ssched, unit) act" where
  "admit_slots K [] s = (Inr (), s)"
| "admit_slots K (i # is) s =
     (if ss_slots s ! i \<noteq> None then admit_slots K is s
      else case ss_waiting s of
             [] \<Rightarrow> (Inr (), s)
           | r # rest \<Rightarrow>
               (let s1 = s\<lparr>ss_waiting := rest\<rparr> in
                if cancel_event (ss_reqs s1 r) then admit_slots K is (ss_upd r (finish_srequest Cancelled) s1)
                else case prefill_into_slot K r i s1 of (Inl e, s') \<Rightarrow> (Inl e, s') | (Inr _, s') \<Rightarrow> admit_slots K is s'))"

definition admit :: "('e, 'lg) ss_config \<Rightarrow> (('e, 'lg) ssched, unit) act" where
  "admit K = admit_slots K [0 ..< nat (ss_max_batch K)]"

section \<open>The decode step\<close>

text \<open>The first part: the slots that go on, in order.\<close>

fun emit_slots :: "('e, 'lg) ss_config \<Rightarrow> nat list \<Rightarrow> ('e, 'lg) ssched \<Rightarrow> nat list \<times> ('e, 'lg) ssched" where
  "emit_slots K [] s = ([], s)"
| "emit_slots K (i # is) s =
     (case ss_slots s ! i of
        None \<Rightarrow> emit_slots K is s
      | Some sl \<Rightarrow>
          (let r = sl_request sl; free = (\<lambda>s. s\<lparr>ss_slots := (ss_slots s)[i := None]\<rparr>) in
           if cancel_event (ss_reqs s r) then emit_slots K is (free (ss_upd r (finish_srequest Cancelled) s))
           else if sl_next_token sl = eos_token_id (ss_tokenizer K) then emit_slots K is (free (ss_upd r (finish_srequest Stop) s))
           else let s1 = ss_upd r (emit_token (ss_tokenizer K) (sl_next_token sl)) s in
             if max_tokens (rq_request (ss_reqs s1 r)) \<le> int (length (tokens_generated (ss_reqs s1 r)))
             then emit_slots K is (free (ss_upd r (finish_srequest Length) s1))
             else case emit_slots K is s1 of (go_on, s') \<Rightarrow> (i # go_on, s')))"

text \<open>The second part: the forward over all rows, through the graph if there is one.\<close>

definition ragged_forward :: "('e, 'lg) ss_config \<Rightarrow> (('e, 'lg) ssched, 'lg list list) act" where
  "ragged_forward K = (\<lambda>s.
     let input_tokens = map (\<lambda>sl. case sl of None \<Rightarrow> 0 | Some sl \<Rightarrow> sl_next_token sl) (ss_slots s);
         positions = map (\<lambda>sl. case sl of None \<Rightarrow> 0 | Some sl \<Rightarrow> sl_position sl) (ss_slots s)
     in case ss_cache s of None \<Rightarrow> (Inl AssertionError, s) | Some c \<Rightarrow>
       (case (case ss_graph K of
                Some graph \<Rightarrow> (case check_capacity (Max (set positions) + 1) c of Inl e \<Rightarrow> (Inl e, c) | Inr _ \<Rightarrow> graph input_tokens positions c)
              | None \<Rightarrow> sm_ragged (ss_model K) input_tokens positions c) of
          (out, c') \<Rightarrow> (out, s\<lparr>ss_cache := Some c'\<rparr>)))"

text \<open>The third part: the next token and position of the slots that go on.\<close>

definition sample_slot :: "('e, 'lg) ss_config \<Rightarrow> 'lg list list \<Rightarrow> nat \<Rightarrow> (('e, 'lg) ssched, unit) act" where
  "sample_slot K logits i = (\<lambda>s.
     case ss_slots s ! i of None \<Rightarrow> (Inl AssertionError, s) | Some sl \<Rightarrow>
     (case nth_res logits i of Inl e \<Rightarrow> (Inl e, s) | Inr rows \<Rightarrow>
     (case last_row rows of Inl e \<Rightarrow> (Inl e, s) | Inr row \<Rightarrow>
     (case sample (ss_sampler K) row (sampling (rq_request (ss_reqs s (sl_request sl)))) (ss_rng s) of (t, g) \<Rightarrow>
        (Inr (), s\<lparr>ss_rng := g, ss_slots := (ss_slots s)[i := Some (sl\<lparr>sl_next_token := t, sl_position := sl_position sl + 1\<rparr>)]\<rparr>)))))"

definition ss_decode_step :: "('e, 'lg) ss_config \<Rightarrow> (('e, 'lg) ssched, unit) act" where
  "ss_decode_step K = (\<lambda>s.
     if ss_cache s = None then (Inl AssertionError, s)
     else case emit_slots K [0 ..< length (ss_slots s)] s of (go_on, s1) \<Rightarrow>
       if go_on = [] then (Inr (), s1)
       else case ragged_forward K s1 of
              (Inl e, s2) \<Rightarrow> (Inl e, s2)
            | (Inr logits, s2) \<Rightarrow> for_each (sample_slot K logits) go_on s2)"

section \<open>The engine thread and the calls\<close>

definition ss_crash :: "('e, 'lg) ssched \<Rightarrow> ('e, 'lg) ssched" where
  "ss_crash s = s\<lparr>ss_crashed := True, ss_thread := Dead\<rparr>"

text \<open>One turn of the loop, or one step of its idle branch: the blocking \<open>get\<close> takes a request in one turn and
  the \<open>put\<close> gives it back in the next, with any calls in between. A \<open>get\<close> on an empty queue times out. When a
  request arrives during its wait the code puts it back behind those that arrive before the \<open>put\<close>; in the
  model that request is found by the next admission. The two differ in the order of the queue only.\<close>

definition ss_turn :: "('e, 'lg) ss_config \<Rightarrow> ('e, 'lg) ssched \<Rightarrow> ('e, 'lg) ssched" where
  "ss_turn K s =
     (if ss_thread s \<noteq> Live then s
      else case ss_taken s of
             Some r \<Rightarrow> s\<lparr>ss_waiting := ss_waiting s @ [r], ss_taken := None\<rparr>
           | None \<Rightarrow>
               (case admit K s of
                  (Inl e, s1) \<Rightarrow> ss_crash s1
                | (Inr _, s1) \<Rightarrow>
                    if list_all (\<lambda>sl. sl = None) (ss_slots s1)
                    then (case ss_waiting s1 of [] \<Rightarrow> s1 | r # rest \<Rightarrow> s1\<lparr>ss_waiting := rest, ss_taken := Some r\<rparr>)
                    else (case ss_decode_step K s1 of (Inl e, s2) \<Rightarrow> ss_crash s2 | (Inr _, s2) \<Rightarrow> s2)))"

definition ss_end_in_flight :: "('e, 'lg) ss_config \<Rightarrow> bool \<Rightarrow> ('e, 'lg) ssched \<Rightarrow> ('e, 'lg) ssched" where
  "ss_end_in_flight K after_crash s =
     (let leftover = map (\<lambda>sl. sl_request (the sl)) (filter (\<lambda>sl. sl \<noteq> None) (ss_slots s)) @ ss_waiting s;
          s1 = s\<lparr>ss_slots := replicate (nat (ss_max_batch K)) None, ss_waiting := []\<rparr>
      in if after_crash then s1 else foldl (\<lambda>s r. ss_upd r (finish_srequest Cancelled) s) s1 leftover)"

definition ss_start :: "('e, 'lg) ss_config \<Rightarrow> (('e, 'lg) ssched, unit) act" where
  "ss_start K = (\<lambda>s.
     if ss_thread s = Live then (Inr (), s)
     else let s1 = (if ss_crashed s then ss_end_in_flight K True s else s)\<lparr>ss_crashed := False\<rparr> in
       case sm_build (ss_model K) (ss_max_len K) (ss_max_batch K) of
         Inl e \<Rightarrow> (Inl e, s1)
       | Inr c \<Rightarrow> (Inr (), s1\<lparr>ss_cache := Some c, ss_slots := replicate (nat (ss_max_batch K)) None, ss_thread := Live\<rparr>))"

definition ss_stop :: "('e, 'lg) ss_config \<Rightarrow> ('e, 'lg) ssched \<Rightarrow> ('e, 'lg) ssched" where
  "ss_stop K s =
     (if ss_thread s = Absent then s
      else let s1 = (case ss_taken s of None \<Rightarrow> s | Some r \<Rightarrow> s\<lparr>ss_waiting := ss_waiting s @ [r], ss_taken := None\<rparr>)
        in ss_end_in_flight K (ss_crashed s1) (s1\<lparr>ss_thread := Absent\<rparr>))"

definition ss_submit :: "request \<Rightarrow> (('e, 'lg) ssched, nat) act" where
  "ss_submit rq = (\<lambda>s.
     if ss_thread s \<noteq> Live then (Inl EngineNotRunningError, s)
     else let r = ss_next s in
       (Inr r, s\<lparr>ss_reqs := (ss_reqs s)(r := running_request_init rq 256), ss_next := Suc r, ss_waiting := ss_waiting s @ [r]\<rparr>))"

text \<open>What can happen, in any order.\<close>

datatype ss_call = Start | Stop_Thread | Submit_Request request | Cancel_Request nat | Turn

definition ss_event :: "('e, 'lg) ss_config \<Rightarrow> ss_call \<Rightarrow> ('e, 'lg) ssched \<Rightarrow> ('e, 'lg) ssched" where
  "ss_event K ev s =
     (case ev of
        Start \<Rightarrow> snd (ss_start K s)
      | Stop_Thread \<Rightarrow> ss_stop K s
      | Submit_Request rq \<Rightarrow> snd (ss_submit rq s)
      | Cancel_Request r \<Rightarrow> (if r < ss_next s then ss_upd r cancel s else s)
      | Turn \<Rightarrow> ss_turn K s)"

definition ss_run :: "('e, 'lg) ss_config \<Rightarrow> ss_call list \<Rightarrow> ('e, 'lg) ssched \<Rightarrow> ('e, 'lg) ssched" where
  "ss_run K evs s = foldl (\<lambda>s ev. ss_event K ev s) s evs"

end
