(* ===== verification/State_Batch_Rows.thy ===== *)
theory State_Batch_Rows
  imports State_Scheduler
begin

text \<open>
  The rows of a batched state cache: moving a prefilled request into a row changes that row only, and what the
  scheduler relies on in the ragged forward of a model.
\<close>

section \<open>Rows\<close>

type_synonym 'e row_state = "'e list \<times> 'e list \<times> 'e list \<times> 'e list \<times> ('e list \<times> 'e list \<times> 'e list) option"

definition row_view :: "nat \<Rightarrow> 'e layer_state \<Rightarrow> 'e row_state" where
  "row_view i s = (swa_kv s ! i, compressed_kv s ! i, cmp_kv_state s ! i, cmp_score_state s ! i,
     map_option (\<lambda>ix. (ix_compressed_kv ix ! i, ix_cmp_kv_state ix ! i, ix_cmp_score_state ix ! i)) (ls_indexer s))"

definition row_views :: "nat \<Rightarrow> 'e state_cache \<Rightarrow> 'e row_state list" where
  "row_views i c = map (row_view i) (st_layers c)"

text \<open>A tensor of one row, and one with \<open>B\<close> rows of the same size.\<close>

definition stacked :: "nat \<Rightarrow> nat list \<Rightarrow> nat list \<Rightarrow> bool" where
  "stacked B xs ys \<longleftrightarrow> (\<exists>x. xs = [x] \<and> ys = replicate B x)"

fun stacked_indexer :: "nat \<Rightarrow> nat list \<times> nat list \<times> nat list \<Rightarrow> nat list \<times> nat list \<times> nat list \<Rightarrow> bool" where
  "stacked_indexer B (a, b, c) (a', b', c') \<longleftrightarrow> stacked B a a' \<and> stacked B b b' \<and> stacked B c c'"

fun stacked_layer :: "nat \<Rightarrow> (nat list \<times> nat list \<times> nat list \<times> nat list) \<times> (nat list \<times> nat list \<times> nat list) option
    \<Rightarrow> (nat list \<times> nat list \<times> nat list \<times> nat list) \<times> (nat list \<times> nat list \<times> nat list) option \<Rightarrow> bool" where
  "stacked_layer B ((a, b, c, d), x) ((a', b', c', d'), x') \<longleftrightarrow>
     stacked B a a' \<and> stacked B b b' \<and> stacked B c c' \<and> stacked B d d' \<and> rel_option (stacked_indexer B) x x'"

lemma copy_row_ok:
  assumes "stacked B (map length src) (map length dst)" "d < B"
  shows "copy_row 0 d src dst = Inr (dst[d := src ! 0])" "map length (dst[d := src ! 0]) = map length dst" "d < length dst"
proof -
  obtain x where x: "map length src = [x]" "map length dst = replicate B x" using assms(1) by (auto simp: stacked_def)
  then have l: "length src = 1" "length dst = B" by (metis length_map length_Cons list.size(3) One_nat_def, metis length_map length_replicate)
  have "length (src ! 0) = x" using x(1) l(1) by (cases src) auto
  moreover have d: "length (dst ! d) = x" using x(2) l(2) assms(2) by (metis nth_map nth_replicate)
  ultimately show "copy_row 0 d src dst = Inr (dst[d := src ! 0])" "map length (dst[d := src ! 0]) = map length dst" "d < length dst"
    using l assms(2) x(2) by (simp_all add: copy_row_def nth_res_def assign_entries_def map_update) (metis list_update_id nth_replicate)
qed

definition copy_indexer_row :: "nat \<Rightarrow> 'e indexer_state \<Rightarrow> ('e indexer_state, unit) act" where
  "copy_indexer_row d ix = run_all
     [set_field ix_compressed_kv (\<lambda>x s. s\<lparr>ix_compressed_kv := x\<rparr>) (copy_row 0 d (ix_compressed_kv ix)),
      set_field ix_cmp_kv_state (\<lambda>x s. s\<lparr>ix_cmp_kv_state := x\<rparr>) (copy_row 0 d (ix_cmp_kv_state ix)),
      set_field ix_cmp_score_state (\<lambda>x s. s\<lparr>ix_cmp_score_state := x\<rparr>) (copy_row 0 d (ix_cmp_score_state ix))]"

lemma copy_indexer_row_ok:
  assumes "stacked_indexer B (indexer_shape ix) (indexer_shape iy)" "d < B"
  shows "copy_indexer_row d ix iy = (Inr (), iy
    \<lparr>ix_compressed_kv := (ix_compressed_kv iy)[d := ix_compressed_kv ix ! 0],
     ix_cmp_kv_state := (ix_cmp_kv_state iy)[d := ix_cmp_kv_state ix ! 0],
     ix_cmp_score_state := (ix_cmp_score_state iy)[d := ix_cmp_score_state ix ! 0]\<rparr>)"
proof -
  have sx: "stacked B (map length (ix_compressed_kv ix)) (map length (ix_compressed_kv iy))"
    "stacked B (map length (ix_cmp_kv_state ix)) (map length (ix_cmp_kv_state iy))"
    "stacked B (map length (ix_cmp_score_state ix)) (map length (ix_cmp_score_state iy))"
    using assms(1) by (auto simp: indexer_shape_def)
  show ?thesis
    by (simp add: copy_indexer_row_def set_field_def copy_row_ok [OF sx(1) assms(2)] copy_row_ok [OF sx(2) assms(2)] copy_row_ok [OF sx(3) assms(2)])
qed

lemma copy_layer_row_ok:
  assumes "stacked_layer B (layer_shape s) (layer_shape t)" "d < B"
  shows "\<exists>t'. copy_layer_row 0 d s t = (Inr (), t') \<and> layer_shape t' = layer_shape t \<and> row_view d t' = row_view 0 s \<and>
    (\<forall>i. i \<noteq> d \<longrightarrow> row_view i t' = row_view i t)"
proof (cases "ls_indexer s")
  case None
  have st: "stacked B (map length (swa_kv s)) (map length (swa_kv t))" "stacked B (map length (compressed_kv s)) (map length (compressed_kv t))"
    "stacked B (map length (cmp_kv_state s)) (map length (cmp_kv_state t))" "stacked B (map length (cmp_score_state s)) (map length (cmp_score_state t))"
    and "ls_indexer t = None"
    using assms(1) None by (auto simp: layer_shape_def)
  then show ?thesis using None
    by (simp add: copy_layer_row_def set_field_def copy_row_ok [OF st(1) assms(2)] copy_row_ok [OF st(2) assms(2)]
        copy_row_ok [OF st(3) assms(2)] copy_row_ok [OF st(4) assms(2)] layer_shape_def row_view_def)
next
  case (Some ix)
  obtain iy where t: "ls_indexer t = Some iy" "stacked_indexer B (indexer_shape ix) (indexer_shape iy)"
    using assms(1) Some by (auto simp: layer_shape_def option_rel_Some1)
  have st: "stacked B (map length (swa_kv s)) (map length (swa_kv t))" "stacked B (map length (compressed_kv s)) (map length (compressed_kv t))"
    "stacked B (map length (cmp_kv_state s)) (map length (cmp_kv_state t))" "stacked B (map length (cmp_score_state s)) (map length (cmp_score_state t))"
    and sx: "stacked B (map length (ix_compressed_kv ix)) (map length (ix_compressed_kv iy))"
    "stacked B (map length (ix_cmp_kv_state ix)) (map length (ix_cmp_kv_state iy))"
    "stacked B (map length (ix_cmp_score_state ix)) (map length (ix_cmp_score_state iy))"
    using assms(1) t by (auto simp: layer_shape_def indexer_shape_def)
  have ix: "on_indexer (copy_indexer_row d ix) u = (Inr (), u\<lparr>ls_indexer := Some (iy
    \<lparr>ix_compressed_kv := (ix_compressed_kv iy)[d := ix_compressed_kv ix ! 0],
     ix_cmp_kv_state := (ix_cmp_kv_state iy)[d := ix_cmp_kv_state ix ! 0],
     ix_cmp_score_state := (ix_cmp_score_state iy)[d := ix_cmp_score_state ix ! 0]\<rparr>)\<rparr>)" if "ls_indexer u = Some iy" for u
    using that by (simp add: on_indexer_def copy_indexer_row_ok [OF t(2) assms(2)])
  show ?thesis using Some t(1)
    unfolding copy_layer_row_def Some option.case copy_indexer_row_def [symmetric]
    by (simp add: set_field_def copy_row_ok [OF st(1) assms(2)] copy_row_ok [OF st(2) assms(2)] copy_row_ok [OF st(3) assms(2)]
        copy_row_ok [OF st(4) assms(2)] ix Some layer_shape_def row_view_def indexer_shape_def copy_row_ok [OF sx(1) assms(2)]
        copy_row_ok [OF sx(2) assms(2)] copy_row_ok [OF sx(3) assms(2)])
qed

lemma copy_row_from_ok:
  assumes "list_all2 (stacked_layer B) (shapes src) (shapes c)" "d < B"
  shows "\<exists>c'. copy_row_from src 0 d c = (Inr (), c') \<and> shapes c' = shapes c \<and> st_specs c' = st_specs c \<and>
    row_views d c' = row_views 0 src \<and> (\<forall>i. i \<noteq> d \<longrightarrow> row_views i c' = row_views i c)"
proof -
  have len: "length (st_layers src) = length (st_layers c)" using list_all2_lengthD [OF assms(1)] by (simp add: shapes_def)
  have "\<exists>s'. copy_layer_row 0 d (st_layers src ! j) (st_layers c ! j) = (Inr (), s') \<and>
      (layer_shape s' = layer_shape (st_layers c ! j) \<and> row_view d s' = row_view 0 (st_layers src ! j) \<and>
       (\<forall>i. i \<noteq> d \<longrightarrow> row_view i s' = row_view i (st_layers c ! j)))" if "j < length (st_layers c)" for j
    using copy_layer_row_ok [OF _ assms(2)] list_all2_nthD2 [OF assms(1), of j] that len by (auto simp: shapes_def)
  from for_each_layer [where a = "\<lambda>j. copy_layer_row 0 d (st_layers src ! j)" and Q = "\<lambda>j s'.
      layer_shape s' = layer_shape (st_layers c ! j) \<and> row_view d s' = row_view 0 (st_layers src ! j) \<and>
       (\<forall>i. i \<noteq> d \<longrightarrow> row_view i s' = row_view i (st_layers c ! j))", OF this refl]
  obtain ls where l: "for_each (\<lambda>j. on_layer j (copy_layer_row 0 d (st_layers src ! j))) [0 ..< length (st_layers c)] c = (Inr (), c\<lparr>st_layers := ls\<rparr>)"
      "length ls = length (st_layers c)" "\<forall>j < length (st_layers c). layer_shape (ls ! j) = layer_shape (st_layers c ! j) \<and>
        row_view d (ls ! j) = row_view 0 (st_layers src ! j) \<and> (\<forall>i. i \<noteq> d \<longrightarrow> row_view i (ls ! j) = row_view i (st_layers c ! j))"
    by blast
  have "map layer_shape ls = map layer_shape (st_layers c)" "map (row_view d) ls = map (row_view 0) (st_layers src)"
    "\<forall>i. i \<noteq> d \<longrightarrow> map (row_view i) ls = map (row_view i) (st_layers c)"
    using l(2,3) len by (auto intro!: nth_equalityI)
  then show ?thesis using l(1) len
    by (intro exI [where x = "c\<lparr>st_layers := ls\<rparr>"]) (simp add: copy_row_from_def shapes_def row_views_def)
qed

section \<open>What the scheduler relies on\<close>

text \<open>\<open>row_holds p v\<close> says that \<open>v\<close> is the row of a request that has processed \<open>p\<close>. The batched cache has the shape of
  the single one in every row, a prefilled cache has such a row, and the ragged forward extends every such row
  whatever the other rows hold. No position below the length the cache was built for is refused.\<close>

definition batch_builds :: "('e, 'lg) state_model \<Rightarrow> int \<Rightarrow> int \<Rightarrow> bool" where
  "batch_builds M n B \<longleftrightarrow> (\<exists>c1 c. sm_build M n 1 = Inr c1 \<and> sm_build M n B = Inr c \<and>
     list_all2 (stacked_layer (nat B)) (shapes c1) (shapes c) \<and>
     (\<forall>k \<le> n. \<forall>c' :: 'e state_cache. st_specs c' = st_specs c \<longrightarrow> check_capacity k c' = Inr ()))"

definition rows_of_views :: "('e, 'lg) state_model \<Rightarrow> (token list \<Rightarrow> 'e layer_snapshot list \<Rightarrow> bool)
    \<Rightarrow> (token list \<Rightarrow> 'e row_state list \<Rightarrow> bool) \<Rightarrow> int \<Rightarrow> bool" where
  "rows_of_views M holds row_holds n \<longleftrightarrow> (\<forall>c1 c p. sm_build M n 1 = Inr c1 \<longrightarrow> shapes c = shapes c1 \<longrightarrow> holds p (views c) \<longrightarrow>
     row_holds p (row_views 0 c))"

definition ragged_ok :: "('e, 'lg) state_model \<Rightarrow> (token list \<Rightarrow> 'lg)
    \<Rightarrow> (token list \<Rightarrow> 'e row_state list \<Rightarrow> bool) \<Rightarrow> int \<Rightarrow> int \<Rightarrow> bool" where
  "ragged_ok M nxt row_holds n B \<longleftrightarrow> (\<forall>c0 c ts ps. sm_build M n B = Inr c0 \<longrightarrow> shapes c = shapes c0 \<longrightarrow>
     length ts = nat B \<longrightarrow> length ps = nat B \<longrightarrow> (\<forall>x \<in> set ps. 0 \<le> x \<and> x < n) \<longrightarrow>
     (\<exists>logits c'. sm_ragged M ts ps c = (Inr logits, c') \<and> length logits = nat B \<and> shapes c' = shapes c \<and> st_specs c' = st_specs c \<and>
        (\<forall>i < nat B. \<forall>p. row_holds p (row_views i c) \<longrightarrow> ps ! i = int (length p) \<longrightarrow>
           logits ! i \<noteq> [] \<and> last (logits ! i) = nxt (p @ [ts ! i]) \<and> row_holds (p @ [ts ! i]) (row_views i c'))))"

definition batch_model_ok :: "('e, 'lg) ss_config \<Rightarrow> (token list \<Rightarrow> 'lg) \<Rightarrow> (token list \<Rightarrow> 'e layer_snapshot list \<Rightarrow> bool)
    \<Rightarrow> (token list \<Rightarrow> 'e row_state list \<Rightarrow> bool) \<Rightarrow> bool" where
  "batch_model_ok K nxt holds row_holds \<longleftrightarrow> state_model_ok (ss_model K) nxt holds \<and>
     batch_builds (ss_model K) (ss_max_len K) (ss_max_batch K) \<and> rows_of_views (ss_model K) holds row_holds (ss_max_len K) \<and>
     ragged_ok (ss_model K) nxt row_holds (ss_max_len K) (ss_max_batch K) \<and>
     (case ss_graph K of None \<Rightarrow> True | Some graph \<Rightarrow> graph = sm_ragged (ss_model K)) \<and>
     0 < ss_max_batch K \<and> 0 < ss_max_len K"

end
