(* ===== verification/State_Scheduler_Invariant.thy ===== *)
theory State_Scheduler_Invariant
  imports State_Batch_Rows
begin

text \<open>
  The invariant of the state-cache scheduler: which requests are where, what their rows hold, and what they have
  produced; and the effect of every small update of the state on it.
\<close>

section \<open>Requests\<close>

definition sprompt :: "('e, 'lg) ss_config \<Rightarrow> srequest \<Rightarrow> token list" where
  "sprompt K rq = tok_encode (ss_tokenizer K) (prompt_text (rq_request rq))"

definition sgreedy :: "srequest \<Rightarrow> bool" where
  "sgreedy rq \<longleftrightarrow> temperature (sampling (rq_request rq)) = 0"

abbreviation limit_of :: "srequest \<Rightarrow> int" where
  "limit_of rq \<equiv> max_tokens (rq_request rq)"

definition solo_tokens :: "('e, 'lg) ss_config \<Rightarrow> (token list \<Rightarrow> 'lg) \<Rightarrow> token list \<Rightarrow> nat \<Rightarrow> token list" where
  "solo_tokens K nxt = greedy_tokens (argmax (ss_sampler K)) nxt (Some (eos_token_id (ss_tokenizer K)))"

definition so_far :: "('e, 'lg) ss_config \<Rightarrow> (token list \<Rightarrow> 'lg) \<Rightarrow> srequest \<Rightarrow> bool" where
  "so_far K nxt rq \<longleftrightarrow> (sgreedy rq \<longrightarrow> (\<forall>k. solo_tokens K nxt (sprompt K rq) (length (tokens_generated rq) + k) =
     tokens_generated rq @ solo_tokens K nxt (sprompt K rq @ tokens_generated rq) k))"

definition has_room :: "('e, 'lg) ss_config \<Rightarrow> srequest \<Rightarrow> bool" where
  "has_room K rq \<longleftrightarrow> sprompt K rq \<noteq> [] \<and> int (length (sprompt K rq)) + limit_of rq \<le> ss_max_len K"

definition complete :: "('e, 'lg) ss_config \<Rightarrow> (token list \<Rightarrow> 'lg) \<Rightarrow> srequest \<Rightarrow> bool" where
  "complete K nxt rq \<longleftrightarrow> (sgreedy rq \<longrightarrow> tokens_generated rq = solo_tokens K nxt (sprompt K rq) (nat (limit_of rq)))"

definition req_right :: "('e, 'lg) ss_config \<Rightarrow> (token list \<Rightarrow> 'lg) \<Rightarrow> srequest \<Rightarrow> bool" where
  "req_right K nxt rq \<longleftrightarrow> 0 < limit_of rq \<and> int (length (tokens_generated rq)) \<le> limit_of rq \<and>
     eos_token_id (ss_tokenizer K) \<notin> set (tokens_generated rq) \<and>
     (tokens_generated rq \<noteq> [] \<longrightarrow> last_text rq = tok_decode (ss_tokenizer K) (tokens_generated rq)) \<and> so_far K nxt rq \<and>
     (rq_finish rq = Some Stop \<longrightarrow> sprompt K rq = [] \<and> tokens_generated rq = [] \<or> has_room K rq \<and> complete K nxt rq) \<and>
     (rq_finish rq = Some Length \<longrightarrow> sprompt K rq \<noteq> [] \<and> \<not> has_room K rq \<and> tokens_generated rq = [] \<or>
        has_room K rq \<and> int (length (tokens_generated rq)) = limit_of rq \<and> complete K nxt rq)"

lemma finish_srequest_fields [simp]:
  "rq_finish (finish_srequest reason rq) = Some reason" "rq_request (finish_srequest reason rq) = rq_request rq"
  "tokens_generated (finish_srequest reason rq) = tokens_generated rq" "last_text (finish_srequest reason rq) = last_text rq"
  "sprompt K (finish_srequest reason rq) = sprompt K rq" "sgreedy (finish_srequest reason rq) = sgreedy rq"
  "has_room K (finish_srequest reason rq) = has_room K rq" "so_far K nxt (finish_srequest reason rq) = so_far K nxt rq"
  "complete K nxt (finish_srequest reason rq) = complete K nxt rq"
  by (simp_all add: finish_srequest_def sprompt_def sgreedy_def has_room_def so_far_def complete_def)

lemma emit_token_fields [simp]:
  "rq_finish (emit_token T t rq) = rq_finish rq" "rq_request (emit_token T t rq) = rq_request rq"
  "tokens_generated (emit_token T t rq) = tokens_generated rq @ [t]" "last_text (emit_token T t rq) = tok_decode T (tokens_generated rq @ [t])"
  "sprompt K (emit_token T t rq) = sprompt K rq" "sgreedy (emit_token T t rq) = sgreedy rq"
  "has_room K (emit_token T t rq) = has_room K rq" "prompt_token_ids (emit_token T t rq) = prompt_token_ids rq"
  by (simp_all add: emit_token_def Let_def sprompt_def sgreedy_def has_room_def)

lemma same_request_fields:
  assumes "rq_request rq' = rq_request rq" "tokens_generated rq' = tokens_generated rq" "last_text rq' = last_text rq" "rq_finish rq' = rq_finish rq"
  shows "sprompt K rq' = sprompt K rq" "has_room K rq' = has_room K rq" "sgreedy rq' = sgreedy rq" "req_right K nxt rq' = req_right K nxt rq"
  using assms by (simp_all add: sprompt_def sgreedy_def has_room_def so_far_def complete_def req_right_def)

lemma req_right_cancelled: "req_right K nxt rq \<Longrightarrow> req_right K nxt (finish_srequest Cancelled rq)"
  by (simp add: req_right_def)

text \<open>The next greedy token is the choice after the tokens so far.\<close>

lemma solo_tokens_Suc:
  "solo_tokens K nxt q (Suc k) = (let t = argmax (ss_sampler K) (nxt q) in if t = eos_token_id (ss_tokenizer K) then [] else t # solo_tokens K nxt (q @ [t]) k)"
  by (simp add: solo_tokens_def Let_def)

lemma so_far_emit:
  assumes "so_far K nxt rq" "sgreedy rq \<longrightarrow> t = argmax (ss_sampler K) (nxt (sprompt K rq @ tokens_generated rq))"
    and "t \<noteq> eos_token_id (ss_tokenizer K)"
  shows "so_far K nxt (emit_token T t rq)"
proof -
  have "solo_tokens K nxt (sprompt K rq) (length (tokens_generated rq) + Suc k) =
      tokens_generated rq @ [t] @ solo_tokens K nxt (sprompt K rq @ tokens_generated rq @ [t]) k" if g: "sgreedy rq" for k
  proof -
    have "solo_tokens K nxt (sprompt K rq) (length (tokens_generated rq) + Suc k) =
        tokens_generated rq @ solo_tokens K nxt (sprompt K rq @ tokens_generated rq) (Suc k)"
      using assms(1) g unfolding so_far_def by blast
    moreover have "solo_tokens K nxt (sprompt K rq @ tokens_generated rq) (Suc k) =
        t # solo_tokens K nxt ((sprompt K rq @ tokens_generated rq) @ [t]) k"
      unfolding solo_tokens_Suc using assms(2,3) g by (simp add: Let_def)
    ultimately show ?thesis by (simp only: append_assoc append_Cons append_Nil)
  qed
  then show ?thesis by (simp add: so_far_def)
qed

lemma complete_stop:
  assumes "so_far K nxt rq" "sgreedy rq \<longrightarrow> eos_token_id (ss_tokenizer K) = argmax (ss_sampler K) (nxt (sprompt K rq @ tokens_generated rq))"
    and "int (length (tokens_generated rq)) < limit_of rq"
  shows "complete K nxt rq"
proof -
  obtain k where "nat (limit_of rq) = length (tokens_generated rq) + Suc k" using assms(3) by (metis less_imp_Suc_add add_Suc_right nat_int zless_nat_eq_int_zless)
  moreover have "solo_tokens K nxt (sprompt K rq @ tokens_generated rq) (Suc k) = []" if "sgreedy rq"
    using assms(2) that by (simp add: solo_tokens_Suc Let_def)
  ultimately show ?thesis using assms(1) unfolding complete_def so_far_def by (metis append_Nil2)
qed

lemma complete_length:
  assumes "so_far K nxt rq" "int (length (tokens_generated rq)) = limit_of rq"
  shows "complete K nxt rq"
proof -
  have "nat (limit_of rq) = length (tokens_generated rq) + 0" using assms(2) by simp
  moreover have "solo_tokens K nxt (sprompt K rq @ tokens_generated rq) 0 = []" by (simp add: solo_tokens_def)
  ultimately show ?thesis using assms(1) unfolding complete_def so_far_def by (metis append_Nil2)
qed

section \<open>Slots\<close>

text \<open>Where a slot is inside a decode step: between steps, after its token was emitted, after the forward.\<close>

datatype phase = Ready | Emitted | Forwarded

definition slot_right :: "('e, 'lg) ss_config \<Rightarrow> (token list \<Rightarrow> 'lg) \<Rightarrow> (token list \<Rightarrow> 'e row_state list \<Rightarrow> bool) \<Rightarrow> phase \<Rightarrow> 'e state_cache
    \<Rightarrow> nat \<Rightarrow> srequest \<Rightarrow> slot \<Rightarrow> bool" where
  "slot_right K nxt rh ph c i rq sl \<longleftrightarrow> rq_finish rq = None \<and> has_room K rq \<and> int (length (tokens_generated rq)) < limit_of rq \<and>
     (case ph of
        Ready \<Rightarrow> sl_position sl = int (length (sprompt K rq) + length (tokens_generated rq)) \<and>
          rh (sprompt K rq @ tokens_generated rq) (row_views i c) \<and>
          (sgreedy rq \<longrightarrow> sl_next_token sl = argmax (ss_sampler K) (nxt (sprompt K rq @ tokens_generated rq)))
      | Emitted \<Rightarrow> sl_position sl + 1 = int (length (sprompt K rq) + length (tokens_generated rq)) \<and>
          (\<exists>ts. tokens_generated rq = ts @ [sl_next_token sl] \<and> rh (sprompt K rq @ ts) (row_views i c))
      | Forwarded \<Rightarrow> sl_position sl + 1 = int (length (sprompt K rq) + length (tokens_generated rq)) \<and>
          rh (sprompt K rq @ tokens_generated rq) (row_views i c))"

lemma slot_right_cong:
  assumes "row_views i c' = row_views i c"
  shows "slot_right K nxt rh ph c' i rq sl = slot_right K nxt rh ph c i rq sl"
  by (simp only: slot_right_def assms)

section \<open>The invariant of a running engine\<close>

definition occupied :: "('e, 'lg) ssched \<Rightarrow> nat \<Rightarrow> nat \<Rightarrow> bool" where
  "occupied s i r \<longleftrightarrow> i < length (ss_slots s) \<and> (\<exists>sl. ss_slots s ! i = Some sl \<and> sl_request sl = r)"

text \<open>A request is in one place: the queue, the hand of the thread, or one slot.\<close>

definition apart :: "nat set \<Rightarrow> ('e, 'lg) ssched \<Rightarrow> bool" where
  "apart hand s \<longleftrightarrow> distinct (ss_waiting s) \<and> hand \<inter> set (ss_waiting s) = {} \<and>
     (\<forall>i r. occupied s i r \<longrightarrow> r \<notin> set (ss_waiting s) \<and> r \<notin> hand) \<and>
     (\<forall>i j r. occupied s i r \<longrightarrow> occupied s j r \<longrightarrow> i = j)"

definition untouched :: "nat set \<Rightarrow> ('e, 'lg) ssched \<Rightarrow> bool" where
  "untouched hand s \<longleftrightarrow> (\<forall>r \<in> set (ss_waiting s) \<union> hand. r < ss_next s \<and> rq_finish (ss_reqs s r) = None \<and> tokens_generated (ss_reqs s r) = [])"

definition none_lost :: "nat set \<Rightarrow> ('e, 'lg) ssched \<Rightarrow> bool" where
  "none_lost hand s \<longleftrightarrow> (\<forall>r < ss_next s. rq_finish (ss_reqs s r) = None \<longrightarrow> r \<in> set (ss_waiting s) \<union> hand \<or> (\<exists>i. occupied s i r))"

definition prefix_right :: "(token list \<Rightarrow> 'lg) \<Rightarrow> (token list \<Rightarrow> 'e layer_snapshot list \<Rightarrow> bool) \<Rightarrow> ('e, 'lg) state_prefix_cache option \<Rightarrow> bool" where
  "prefix_right nxt holds pc \<longleftrightarrow> (case pc of None \<Rightarrow> True | Some pc \<Rightarrow> \<forall>e \<in> set (spc_entries pc). snapshot_right nxt holds e)"

definition cache_right :: "('e, 'lg) ss_config \<Rightarrow> 'e state_cache \<Rightarrow> bool" where
  "cache_right K c \<longleftrightarrow> (\<exists>c0. sm_build (ss_model K) (ss_max_len K) (ss_max_batch K) = Inr c0 \<and> shapes c = shapes c0 \<and> st_specs c = st_specs c0)"

definition rows_right :: "('e, 'lg) ss_config \<Rightarrow> (token list \<Rightarrow> 'lg) \<Rightarrow> (token list \<Rightarrow> 'e row_state list \<Rightarrow> bool) \<Rightarrow> (nat \<Rightarrow> phase)
    \<Rightarrow> ('e, 'lg) ssched \<Rightarrow> bool" where
  "rows_right K nxt rh ph s \<longleftrightarrow> (\<exists>c. ss_cache s = Some c \<and> cache_right K c \<and>
     (\<forall>i sl. i < length (ss_slots s) \<longrightarrow> ss_slots s ! i = Some sl \<longrightarrow>
        sl_request sl < ss_next s \<and> slot_right K nxt rh (ph i) c i (ss_reqs s (sl_request sl)) sl))"

definition ss_core :: "('e, 'lg) ss_config \<Rightarrow> (token list \<Rightarrow> 'lg) \<Rightarrow> (token list \<Rightarrow> 'e layer_snapshot list \<Rightarrow> bool)
    \<Rightarrow> (token list \<Rightarrow> 'e row_state list \<Rightarrow> bool) \<Rightarrow> nat set \<Rightarrow> (nat \<Rightarrow> phase) \<Rightarrow> ('e, 'lg) ssched \<Rightarrow> bool" where
  "ss_core K nxt holds rh hand ph s \<longleftrightarrow> length (ss_slots s) = nat (ss_max_batch K) \<and> \<not> ss_crashed s \<and> ss_thread s = Live \<and>
     rows_right K nxt rh ph s \<and> apart hand s \<and> untouched hand s \<and> (\<forall>r < ss_next s. req_right K nxt (ss_reqs s r)) \<and>
     none_lost hand s \<and> prefix_right nxt holds (ss_prefix s)"

lemma ss_upd_sel [simp]:
  "ss_next (ss_upd r f s) = ss_next s" "ss_waiting (ss_upd r f s) = ss_waiting s" "ss_taken (ss_upd r f s) = ss_taken s"
  "ss_slots (ss_upd r f s) = ss_slots s" "ss_cache (ss_upd r f s) = ss_cache s" "ss_prefix (ss_upd r f s) = ss_prefix s"
  "ss_thread (ss_upd r f s) = ss_thread s" "ss_crashed (ss_upd r f s) = ss_crashed s" "ss_rng (ss_upd r f s) = ss_rng s"
  "ss_reqs (ss_upd r f s) r' = (if r' = r then f (ss_reqs s r) else ss_reqs s r')"
  by (simp_all add: ss_upd_def)

lemma occupied_upd [simp]: "occupied (ss_upd r f s) = occupied s"
  by (simp add: occupied_def fun_eq_iff)

text \<open>The thread takes the first request of the queue, or puts the one in its hand back.\<close>

lemma parts_waiting [simp]:
  "rows_right K nxt rh ph (s\<lparr>ss_waiting := w\<rparr>) = rows_right K nxt rh ph s" "occupied (s\<lparr>ss_waiting := w\<rparr>) = occupied s"
  by (simp_all add: rows_right_def occupied_def fun_eq_iff)

lemma core_pop:
  assumes "ss_core K nxt holds rh {} ph s" "ss_waiting s = r # rest"
  shows "ss_core K nxt holds rh {r} ph (s\<lparr>ss_waiting := rest\<rparr>)"
proof -
  have "apart {} s \<Longrightarrow> apart {r} (s\<lparr>ss_waiting := rest\<rparr>)" using assms(2) by (auto simp: apart_def)
  moreover have "untouched {} s \<Longrightarrow> untouched {r} (s\<lparr>ss_waiting := rest\<rparr>)" using assms(2) by (simp add: untouched_def)
  moreover have "none_lost {} s \<Longrightarrow> none_lost {r} (s\<lparr>ss_waiting := rest\<rparr>)" using assms(2) by (auto simp: none_lost_def)
  ultimately show ?thesis using assms(1) by (simp add: ss_core_def)
qed

lemma core_push:
  assumes "ss_core K nxt holds rh {r} ph s"
  shows "ss_core K nxt holds rh {} ph (s\<lparr>ss_waiting := ss_waiting s @ [r]\<rparr>)"
proof -
  have "apart {r} s \<Longrightarrow> apart {} (s\<lparr>ss_waiting := ss_waiting s @ [r]\<rparr>)" by (auto simp: apart_def)
  moreover have "untouched {r} s \<Longrightarrow> untouched {} (s\<lparr>ss_waiting := ss_waiting s @ [r]\<rparr>)" by (simp add: untouched_def)
  moreover have "none_lost {r} s \<Longrightarrow> none_lost {} (s\<lparr>ss_waiting := ss_waiting s @ [r]\<rparr>)" by (auto simp: none_lost_def)
  ultimately show ?thesis using assms(1) by (simp add: ss_core_def)
qed

lemma parts_taken [simp]:
  "rows_right K nxt rh ph (s\<lparr>ss_taken := x\<rparr>) = rows_right K nxt rh ph s" "apart hand (s\<lparr>ss_taken := x\<rparr>) = apart hand s"
  "untouched hand (s\<lparr>ss_taken := x\<rparr>) = untouched hand s" "none_lost hand (s\<lparr>ss_taken := x\<rparr>) = none_lost hand s"
  by (simp_all add: rows_right_def apart_def untouched_def none_lost_def occupied_def)

lemma parts_rng [simp]:
  "rows_right K nxt rh ph (s\<lparr>ss_rng := g\<rparr>) = rows_right K nxt rh ph s" "apart hand (s\<lparr>ss_rng := g\<rparr>) = apart hand s"
  "untouched hand (s\<lparr>ss_rng := g\<rparr>) = untouched hand s" "none_lost hand (s\<lparr>ss_rng := g\<rparr>) = none_lost hand s"
  by (simp_all add: rows_right_def apart_def untouched_def none_lost_def occupied_def)

lemma parts_prefix [simp]:
  "rows_right K nxt rh ph (s\<lparr>ss_prefix := pc\<rparr>) = rows_right K nxt rh ph s" "apart hand (s\<lparr>ss_prefix := pc\<rparr>) = apart hand s"
  "untouched hand (s\<lparr>ss_prefix := pc\<rparr>) = untouched hand s" "none_lost hand (s\<lparr>ss_prefix := pc\<rparr>) = none_lost hand s"
  by (simp_all add: rows_right_def apart_def untouched_def none_lost_def occupied_def)

lemma core_taken [simp]: "ss_core K nxt holds rh hand ph (s\<lparr>ss_taken := x\<rparr>) = ss_core K nxt holds rh hand ph s"
  by (simp add: ss_core_def)

lemma core_rng [simp]: "ss_core K nxt holds rh hand ph (s\<lparr>ss_rng := g\<rparr>) = ss_core K nxt holds rh hand ph s"
  by (simp add: ss_core_def)

lemma core_prefix:
  "ss_core K nxt holds rh hand ph s \<Longrightarrow> prefix_right nxt holds pc \<Longrightarrow> ss_core K nxt holds rh hand ph (s\<lparr>ss_prefix := pc\<rparr>)"
  by (simp add: ss_core_def)

text \<open>The request in the hand: it changes, it ends, or it gets a free slot and its row.\<close>

lemma hand_not_in_slot:
  assumes "ss_core K nxt holds rh {r} ph s" "i < length (ss_slots s)" "ss_slots s ! i = Some sl"
  shows "sl_request sl \<noteq> r"
proof -
  have "occupied s i (sl_request sl)" using assms(2,3) by (auto simp: occupied_def)
  then show ?thesis using assms(1) unfolding ss_core_def apart_def by blast
qed

lemma core_hand_ids:
  assumes "ss_core K nxt holds rh {r} ph s"
  shows "ss_core K nxt holds rh {r} ph (ss_upd r (\<lambda>rq. rq\<lparr>prompt_token_ids := ids\<rparr>) s)"
proof -
  have "rows_right K nxt rh ph (ss_upd r (\<lambda>rq. rq\<lparr>prompt_token_ids := ids\<rparr>) s)"
    using assms hand_not_in_slot [OF assms] by (auto simp: ss_core_def rows_right_def)
  moreover have "req_right K nxt (rq\<lparr>prompt_token_ids := ids\<rparr>) = req_right K nxt rq" for rq
    by (rule same_request_fields) simp_all
  ultimately show ?thesis using assms by (auto simp: ss_core_def apart_def untouched_def none_lost_def)
qed

lemma core_hand_finish:
  assumes "ss_core K nxt holds rh {r} ph s" "req_right K nxt (finish_srequest reason (ss_reqs s r))"
  shows "ss_core K nxt holds rh {} ph (ss_upd r (finish_srequest reason) s)"
proof -
  have "rows_right K nxt rh ph (ss_upd r (finish_srequest reason) s)"
    using assms(1) hand_not_in_slot [OF assms(1)] by (auto simp: ss_core_def rows_right_def)
  then show ?thesis using assms by (auto simp: ss_core_def apart_def untouched_def none_lost_def)
qed

lemma core_hand_seat:
  assumes core: "ss_core K nxt holds rh {r} ph s" and i: "i < length (ss_slots s)" "ss_slots s ! i = None"
    and c: "ss_cache s = Some c" "cache_right K c'" "\<And>j. j \<noteq> i \<Longrightarrow> row_views j c' = row_views j c"
    and sl: "sl_request sl = r" "slot_right K nxt rh (ph i) c' i (ss_reqs s r) sl"
  shows "ss_core K nxt holds rh {} ph (s\<lparr>ss_cache := Some c', ss_slots := (ss_slots s)[i := Some sl]\<rparr>)"
proof -
  let ?s = "s\<lparr>ss_cache := Some c', ss_slots := (ss_slots s)[i := Some sl]\<rparr>"
  have occ: "occupied ?s j q \<longleftrightarrow> (j = i \<and> q = r) \<or> (j \<noteq> i \<and> occupied s j q)" for j q
    using i(1) sl(1) by (auto simp: occupied_def nth_list_update)
  have "r < ss_next s" using core by (simp add: ss_core_def untouched_def)
  then have "rows_right K nxt rh ph ?s"
    using core c sl i(1) by (auto simp: ss_core_def rows_right_def nth_list_update slot_right_cong [OF c(3)])
  moreover have "apart {} ?s" using core unfolding ss_core_def apart_def occ by auto
  moreover have "none_lost {} ?s"
  proof -
    have free: "\<not> occupied s i q" for q using i(2) by (simp add: occupied_def)
    have "none_lost {r} s" using core by (simp add: ss_core_def)
    then have "q \<in> set (ss_waiting s) \<or> (\<exists>j. (j = i \<and> q = r) \<or> (j \<noteq> i \<and> occupied s j q))"
      if "q < ss_next s" "rq_finish (ss_reqs s q) = None" for q
      using that free unfolding none_lost_def by (metis Un_insert_right insertE sup_bot_right)
    then show ?thesis unfolding none_lost_def occ by simp
  qed
  moreover have "untouched {} ?s" using core by (simp add: ss_core_def untouched_def)
  ultimately show ?thesis using core by (simp add: ss_core_def)
qed

text \<open>The request of a slot: it ends and leaves, or emits its token; and the sampling of the next one.\<close>

lemma slot_request:
  assumes "ss_core K nxt holds rh hand ph s" "i < length (ss_slots s)" "ss_slots s ! i = Some sl"
  shows "sl_request sl < ss_next s" "req_right K nxt (ss_reqs s (sl_request sl))" "sl_request sl \<notin> set (ss_waiting s) \<union> hand"
    "\<exists>c. ss_cache s = Some c \<and> cache_right K c \<and> slot_right K nxt rh (ph i) c i (ss_reqs s (sl_request sl)) sl"
    "\<And>j sl'. j < length (ss_slots s) \<Longrightarrow> ss_slots s ! j = Some sl' \<Longrightarrow> sl_request sl' = sl_request sl \<Longrightarrow> j = i"
proof -
  have o: "occupied s i (sl_request sl)" using assms(2,3) by (auto simp: occupied_def)
  show a: "sl_request sl < ss_next s" using assms by (auto simp: ss_core_def rows_right_def)
  show "\<exists>c. ss_cache s = Some c \<and> cache_right K c \<and> slot_right K nxt rh (ph i) c i (ss_reqs s (sl_request sl)) sl"
    using assms by (auto simp: ss_core_def rows_right_def)
  show "req_right K nxt (ss_reqs s (sl_request sl))" using assms(1) a by (simp add: ss_core_def)
  show "sl_request sl \<notin> set (ss_waiting s) \<union> hand" using assms(1) o by (auto simp: ss_core_def apart_def)
  show "j = i" if "j < length (ss_slots s)" "ss_slots s ! j = Some sl'" "sl_request sl' = sl_request sl" for j sl'
  proof -
    have "occupied s j (sl_request sl)" using that by (auto simp: occupied_def)
    then show ?thesis using o assms(1) by (auto simp: ss_core_def apart_def)
  qed
qed

lemma core_slot_finish:
  assumes core: "ss_core K nxt holds rh hand ph s" and i: "i < length (ss_slots s)" "ss_slots s ! i = Some sl"
    and right: "req_right K nxt (finish_srequest reason (f (ss_reqs s (sl_request sl))))" "\<And>rq. rq_finish (f rq) = rq_finish rq"
  shows "ss_core K nxt holds rh hand ph ((ss_upd (sl_request sl) (\<lambda>rq. finish_srequest reason (f rq)) s)\<lparr>ss_slots := (ss_slots s)[i := None]\<rparr>)"
proof -
  let ?r = "sl_request sl" and ?u = "ss_upd (sl_request sl) (\<lambda>rq. finish_srequest reason (f rq)) s"
  note sr = slot_request [OF core i]
  have occ: "occupied (?u\<lparr>ss_slots := (ss_slots s)[i := None]\<rparr>) j q \<longleftrightarrow> j \<noteq> i \<and> occupied s j q" for j q
    using i by (auto simp: occupied_def nth_list_update)
  have other: "sl_request sl' \<noteq> ?r" if "j < length (ss_slots s)" "ss_slots s ! j = Some sl'" "j \<noteq> i" for j sl'
    using sr(5) that by blast
  have "rows_right K nxt rh ph (?u\<lparr>ss_slots := (ss_slots s)[i := None]\<rparr>)"
    using core other i(1) by (fastforce simp: ss_core_def rows_right_def nth_list_update)
  moreover have "apart hand (?u\<lparr>ss_slots := (ss_slots s)[i := None]\<rparr>)" using core unfolding ss_core_def apart_def occ by auto
  moreover have "none_lost hand (?u\<lparr>ss_slots := (ss_slots s)[i := None]\<rparr>)"
  proof -
    have "j \<noteq> i" if "occupied s j q" "q \<noteq> ?r" for j q using that i(2) by (auto simp: occupied_def)
    then show ?thesis using core unfolding ss_core_def none_lost_def occ by (auto, metis)
  qed
  moreover have "untouched hand (?u\<lparr>ss_slots := (ss_slots s)[i := None]\<rparr>)" using core sr(3) by (auto simp: ss_core_def untouched_def)
  ultimately show ?thesis using core right(1) by (auto simp: ss_core_def)
qed

lemma core_slot_change:
  assumes core: "ss_core K nxt holds rh hand ph s" and i: "i < length (ss_slots s)" "ss_slots s ! i = Some sl"
    and new: "req_right K nxt (f (ss_reqs s (sl_request sl)))" "sl_request sl' = sl_request sl" "ss_cache s = Some c"
      "slot_right K nxt rh p c i (f (ss_reqs s (sl_request sl))) sl'"
  shows "ss_core K nxt holds rh hand (ph(i := p)) ((ss_upd (sl_request sl) f s)\<lparr>ss_slots := (ss_slots s)[i := Some sl']\<rparr>)"
proof -
  let ?u = "(ss_upd (sl_request sl) f s)\<lparr>ss_slots := (ss_slots s)[i := Some sl']\<rparr>"
  note sr = slot_request [OF core i]
  have occ: "occupied ?u j q \<longleftrightarrow> occupied s j q" for j q using i new(2) by (auto simp: occupied_def nth_list_update)
  have other: "sl_request sl'' \<noteq> sl_request sl" if "j < length (ss_slots s)" "ss_slots s ! j = Some sl''" "j \<noteq> i" for j sl''
    using sr(5) that by blast
  have "rows_right K nxt rh (ph(i := p)) ?u"
    using core new i(1) sr(1) other by (fastforce simp: ss_core_def rows_right_def nth_list_update)
  moreover have "apart hand ?u" using core unfolding ss_core_def apart_def occ by simp
  moreover have "none_lost hand ?u"
  proof -
    have "none_lost hand s" and o: "occupied s i (sl_request sl)" using core i by (auto simp: ss_core_def occupied_def)
    then have "q \<in> set (ss_waiting s) \<union> hand \<or> (\<exists>j. occupied s j q)"
      if "q < ss_next s" "q = sl_request sl \<or> rq_finish (ss_reqs s q) = None" for q
      using that unfolding none_lost_def by blast
    then show ?thesis unfolding none_lost_def occ by auto
  qed
  moreover have "untouched hand ?u" using core sr(3) by (auto simp: ss_core_def untouched_def)
  ultimately show ?thesis using core new(1) by (auto simp: ss_core_def)
qed

end
