(* ===== verification/State_Scheduler_Steps.thy ===== *)
theory State_Scheduler_Steps
  imports State_Scheduler_Invariant
begin

text \<open>
  Admission and the decode step of the state-cache scheduler keep its invariant and raise nothing, and they bring
  every request closer to its end.
\<close>

section \<open>The work that is left\<close>

text \<open>The tokens a request may still get, and one more for each place it has yet to leave.\<close>

definition left_over :: "('e, 'lg) ssched \<Rightarrow> nat \<Rightarrow> nat" where
  "left_over s r = (if rq_finish (ss_reqs s r) \<noteq> None then 0
     else nat (limit_of (ss_reqs s r) - int (length (tokens_generated (ss_reqs s r)))) + (if \<exists>i. occupied s i r then 1 else 2))"

definition forward_of :: "('e, 'lg) ssched \<Rightarrow> ('e, 'lg) ssched \<Rightarrow> bool" where
  "forward_of s s' \<longleftrightarrow> ss_next s' = ss_next s \<and> ss_taken s' = ss_taken s \<and> (\<forall>r. rq_request (ss_reqs s' r) = rq_request (ss_reqs s r)) \<and>
     (\<forall>r < ss_next s. left_over s' r \<le> left_over s r)"

definition closer :: "('e, 'lg) ssched \<Rightarrow> ('e, 'lg) ssched \<Rightarrow> bool" where
  "closer s s' \<longleftrightarrow> (\<exists>r < ss_next s. left_over s' r < left_over s r)"

lemma forward_refl [simp]: "forward_of s s"
  by (simp add: forward_of_def)

lemma forward_trans: "forward_of s s' \<Longrightarrow> forward_of s' s'' \<Longrightarrow> forward_of s s''"
  by (auto simp: forward_of_def intro: order_trans)

lemma closer_trans1: "closer s s' \<Longrightarrow> forward_of s s' \<Longrightarrow> forward_of s' s'' \<Longrightarrow> closer s s''"
  unfolding closer_def forward_of_def by (metis order.strict_trans1)

lemma closer_trans2: "forward_of s s' \<Longrightarrow> closer s' s'' \<Longrightarrow> closer s s''"
  unfolding closer_def forward_of_def by (metis order.strict_trans2)

lemma forward_same:
  assumes "ss_next s' = ss_next s" "ss_taken s' = ss_taken s" "ss_reqs s' = ss_reqs s" "occupied s' = occupied s"
  shows "forward_of s s'"
  using assms by (simp add: forward_of_def left_over_def)

lemma occupied_simps [simp]:
  "occupied (s\<lparr>ss_cache := c\<rparr>) = occupied s" "occupied (s\<lparr>ss_prefix := pc\<rparr>) = occupied s" "occupied (s\<lparr>ss_rng := g\<rparr>) = occupied s"
  "occupied (s\<lparr>ss_taken := x\<rparr>) = occupied s"
  by (simp_all add: occupied_def fun_eq_iff)

text \<open>A change of one request that keeps what matters.\<close>

lemma core_upd_same:
  assumes "ss_core K nxt holds rh hand ph s" "\<And>rq. rq_request (f rq) = rq_request rq" "\<And>rq. tokens_generated (f rq) = tokens_generated rq"
    "\<And>rq. last_text (f rq) = last_text rq" "\<And>rq. rq_finish (f rq) = rq_finish rq"
  shows "ss_core K nxt holds rh hand ph (ss_upd r f s)" "forward_of s (ss_upd r f s)"
proof -
  note same = same_request_fields [OF assms(2-5)]
  have slot: "slot_right K nxt rh p c i (f rq) sl = slot_right K nxt rh p c i rq sl" for p c i rq sl
    by (cases p) (simp_all add: slot_right_def same assms(2-5))
  have slot': "slot_right K nxt rh p c i (ss_reqs (ss_upd r f s) q) sl = slot_right K nxt rh p c i (ss_reqs s q) sl" for p c i q sl
    by (simp add: slot)
  have "rows_right K nxt rh ph (ss_upd r f s) = rows_right K nxt rh ph s"
    by (simp only: rows_right_def slot' ss_upd_sel(1,4,5))
  moreover have "apart hand (ss_upd r f s) = apart hand s" by (simp add: apart_def)
  moreover have "untouched hand (ss_upd r f s) = untouched hand s" by (simp add: untouched_def assms(3,5) cong: if_cong) (auto simp: assms(3,5))
  moreover have "none_lost hand (ss_upd r f s) = none_lost hand s" by (auto simp: none_lost_def assms(5))
  ultimately show "ss_core K nxt holds rh hand ph (ss_upd r f s)" using assms(1) same(4) by (auto simp: ss_core_def)
  show "forward_of s (ss_upd r f s)" by (auto simp: forward_of_def left_over_def assms(2,3,5))
qed

lemma forward_finish:
  assumes "rq_finish (ss_reqs s r) = None" "\<And>rq. rq_request (f rq) = rq_request rq"
  shows "forward_of s (ss_upd r (\<lambda>rq. finish_srequest reason (f rq)) s)"
    "r < ss_next s \<Longrightarrow> closer s (ss_upd r (\<lambda>rq. finish_srequest reason (f rq)) s)"
  using assms by (auto simp: forward_of_def closer_def left_over_def intro!: exI [of _ r])

lemma forward_free:
  assumes "rq_finish (ss_reqs s (sl_request sl)) \<noteq> None" "i < length (ss_slots s)" "ss_slots s ! i = Some sl"
  shows "forward_of s (s\<lparr>ss_slots := (ss_slots s)[i := None]\<rparr>)"
proof -
  have "(\<exists>j. occupied (s\<lparr>ss_slots := (ss_slots s)[i := None]\<rparr>) j r) = (\<exists>j. occupied s j r)" if "r \<noteq> sl_request sl" for r
  proof -
    have "occupied (s\<lparr>ss_slots := (ss_slots s)[i := None]\<rparr>) j r \<longleftrightarrow> occupied s j r" for j
      using that assms(2,3) by (cases "j = i") (simp_all add: occupied_def)
    then show ?thesis by simp
  qed
  then have "left_over (s\<lparr>ss_slots := (ss_slots s)[i := None]\<rparr>) r = left_over s r" for r
    using assms(1) by (cases "r = sl_request sl") (simp_all add: left_over_def)
  then show ?thesis by (simp add: forward_of_def)
qed

section \<open>Admission\<close>

lemma prefill_temp_ok:
  assumes ok: "batch_model_ok K nxt holds rh" and temp: "sm_build (ss_model K) (ss_max_len K) 1 = Inr temp"
    and p: "p \<noteq> []" "int (length p) \<le> ss_max_len K" and pc: "prefix_right nxt holds pc"
  shows "\<exists>temp' pc'. prefill_temp K p temp pc = (Inr (nxt p, temp'), pc') \<and> shapes temp' = shapes temp \<and>
    rh p (row_views 0 temp') \<and> prefix_right nxt holds pc'"
proof -
  have m: "state_model_ok (ss_model K) nxt holds" and rows: "rows_of_views (ss_model K) holds rh (ss_max_len K)"
    and n: "0 < ss_max_len K" using ok by (simp_all add: batch_model_ok_def)
  have pos: "st_pos temp = 0" using m temp n by (fastforce simp: state_model_ok_def builds_cache_def)
  have row: "rh p (row_views 0 c)" if "shapes c = shapes temp" "holds p (views c)" for c
    using rows temp that by (auto simp: rows_of_views_def)
  show ?thesis
  proof (cases pc)
    case None
    have "prefill_ok (ss_model K) nxt holds" using m by (simp add: state_model_ok_def)
    then obtain rows c' where "sm_prefill (ss_model K) p temp = (Inr rows, c')" "rows \<noteq> []" "last rows = nxt p"
        "shapes c' = shapes temp" "holds p (views c')"
      using temp p unfolding prefill_ok_def by metis
    then show ?thesis using None row by (simp add: prefill_temp_def last_row_def prefix_right_def)
  next
    case (Some pc')
    have e: "\<forall>e \<in> set (spc_entries pc'). snapshot_right nxt holds e" using pc Some by (simp add: prefix_right_def)
    obtain c' pc'' where q: "prefill_with_prefix_cache (ss_model K) p (temp, pc') = (Inr (nxt p), (c', pc''))"
        "processed (ss_model K) holds (ss_max_len K) p c'" "pc'' = spc_insert p (snapshot_from_cache c' (nxt p)) pc'"
        "snapshot_right nxt holds (p, snapshot_from_cache c' (nxt p))"
      using prefill_with_prefix_cache_ok [OF m temp pos p e] by blast
    have "prefix_right nxt holds (Some pc'')" using q(3,4) e spc_insert_entries unfolding prefix_right_def option.case by fastforce
    moreover have "shapes c' = shapes temp" "holds p (views c')" using q(2) temp by (auto simp: processed_def)
    ultimately show ?thesis using Some q(1) row by (simp add: prefill_temp_def)
  qed
qed

lemma prefill_into_slot_ok:
  assumes ok: "batch_model_ok K nxt holds rh" and core: "ss_core K nxt holds rh {r} ph s"
    and i: "i < length (ss_slots s)" "ss_slots s ! i = None" "ph i = Ready"
  shows "\<exists>s'. prefill_into_slot K r i s = (Inr (), s') \<and> ss_core K nxt holds rh {} ph s' \<and> forward_of s s' \<and>
    (closer s s') \<and> ss_waiting s' = ss_waiting s \<and> length (ss_slots s') = length (ss_slots s) \<and> (\<forall>j. j \<noteq> i \<longrightarrow> ss_slots s' ! j = ss_slots s ! j)"
proof -
  let ?M = "ss_model K" and ?n = "ss_max_len K" and ?p = "sprompt K (ss_reqs s r)"
  let ?u = "ss_upd r (\<lambda>rq. rq\<lparr>prompt_token_ids := ?p\<rparr>) s"
  have u: "ss_core K nxt holds rh {r} ph ?u" "forward_of s ?u" by (rule core_upd_same [OF core]; simp)+
  have r: "r < ss_next s" "rq_finish (ss_reqs s r) = None" "tokens_generated (ss_reqs s r) = []"
    using core by (simp_all add: ss_core_def untouched_def)
  have right: "req_right K nxt (ss_reqs s r)" using core r(1) by (simp add: ss_core_def)
  have eq: "sprompt K (ss_reqs ?u r) = ?p" "rq_finish (ss_reqs ?u r) = None" by (simp_all add: sprompt_def r)
  have fin: "ss_core K nxt holds rh {} ph (ss_upd r (finish_srequest reason) ?u) \<and> forward_of s (ss_upd r (finish_srequest reason) ?u) \<and>
      closer s (ss_upd r (finish_srequest reason) ?u)" if "req_right K nxt (finish_srequest reason (ss_reqs ?u r))" for reason
  proof -
    let ?w = "ss_upd r (finish_srequest reason) ?u"
    have "forward_of ?u ?w" "closer ?u ?w"
      using forward_finish [where f = "\<lambda>x. x", of ?u r reason] eq(2) r(1) by simp_all
    then show ?thesis using core_hand_finish [OF u(1) that] forward_trans [OF u(2)] closer_trans2 [OF u(2)] by blast
  qed
  have "\<forall>q < ss_next ?u. req_right K nxt (ss_reqs ?u q)" using u(1) unfolding ss_core_def by blast
  then have upd: "req_right K nxt (ss_reqs ?u r)" using r(1) by (metis ss_upd_sel(1))
  consider "?p = []" | "?p \<noteq> []" "\<not> has_room K (ss_reqs s r)" | "has_room K (ss_reqs s r)" by (auto simp: has_room_def)
  then show ?thesis
  proof cases
    case 1
    then have "prefill_into_slot K r i s = (Inr (), ss_upd r (finish_srequest Stop) ?u)"
      by (simp add: prefill_into_slot_def Let_def sprompt_def)
    moreover have "req_right K nxt (finish_srequest Stop (ss_reqs ?u r))" using upd 1 eq r(3) by (simp add: req_right_def)
    ultimately show ?thesis using fin by simp
  next
    case 2
    then have "?n < int (length ?p) + limit_of (ss_reqs s r)" by (simp add: has_room_def)
    then have "prefill_into_slot K r i s = (Inr (), ss_upd r (finish_srequest Length) ?u)"
      using 2(1) by (simp add: prefill_into_slot_def Let_def sprompt_def)
    moreover have "\<not> has_room K (ss_reqs ?u r)" using 2(2) by (simp add: has_room_def sprompt_def)
    then have "req_right K nxt (finish_srequest Length (ss_reqs ?u r))" using upd 2(1) eq r(3) by (simp add: req_right_def)
    ultimately show ?thesis using fin by simp
  next
    case 3
    then have p: "?p \<noteq> []" "\<not> ?n < int (length ?p) + limit_of (ss_reqs s r)" by (auto simp: has_room_def)
    have "0 < limit_of (ss_reqs s r)" using right by (simp add: req_right_def)
    then have le: "int (length ?p) \<le> ?n" using p(2) by simp
    obtain temp cB where b: "sm_build ?M ?n 1 = Inr temp" "sm_build ?M ?n (ss_max_batch K) = Inr cB"
        "list_all2 (stacked_layer (nat (ss_max_batch K))) (shapes temp) (shapes cB)"
      using ok by (auto simp: batch_model_ok_def batch_builds_def)
    have "prefix_right nxt holds (ss_prefix s)" using core by (simp add: ss_core_def)
    then obtain temp' pc' where t: "prefill_temp K ?p temp (ss_prefix s) = (Inr (nxt ?p, temp'), pc')" "shapes temp' = shapes temp"
        "rh ?p (row_views 0 temp')" "prefix_right nxt holds pc'"
      using prefill_temp_ok [OF ok b(1) p(1) le] by blast
    obtain c where c: "ss_cache s = Some c" "cache_right K c" using core by (auto simp: ss_core_def rows_right_def)
    have st: "list_all2 (stacked_layer (nat (ss_max_batch K))) (shapes temp') (shapes c)" using b(2,3) c(2) t(2) by (auto simp: cache_right_def)
    have "i < nat (ss_max_batch K)" using i(1) core by (simp add: ss_core_def)
    then obtain c' where c': "copy_row_from temp' 0 i c = (Inr (), c')" "shapes c' = shapes c" "st_specs c' = st_specs c"
        "row_views i c' = row_views 0 temp'" "\<forall>j. j \<noteq> i \<longrightarrow> row_views j c' = row_views j c"
      using copy_row_from_ok [OF st] by blast
    obtain t g where tg: "sample (ss_sampler K) (nxt ?p) (sampling (rq_request (ss_reqs s r))) (ss_rng s) = (t, g)" by fastforce
    let ?sl = "\<lparr>sl_request = r, sl_position = int (length ?p), sl_next_token = t\<rparr>"
    let ?v = "?u\<lparr>ss_prefix := pc', ss_rng := g\<rparr>"
    have run: "prefill_into_slot K r i s = (Inr (), ?v\<lparr>ss_cache := Some c', ss_slots := (ss_slots ?v)[i := Some ?sl]\<rparr>)"
      using p b(1) t(1) tg c(1) c'(1) unfolding sprompt_def by (simp add: prefill_into_slot_def Let_def)
    have v: "ss_core K nxt holds rh {r} ph ?v" using core_prefix [OF u(1) t(4)] by simp
    have "slot_right K nxt rh (ph i) c' i (ss_reqs ?v r) ?sl"
    proof -
      have "has_room K (ss_reqs ?u r)" using 3 by (simp add: has_room_def sprompt_def)
      moreover have "sgreedy (ss_reqs s r) \<longrightarrow> t = argmax (ss_sampler K) (nxt ?p)" using tg by (auto simp: sgreedy_def sample_def)
      moreover have "sgreedy (ss_reqs ?u r) = sgreedy (ss_reqs s r)" by (simp add: sgreedy_def)
      ultimately show ?thesis
        using t(3) c'(4) r \<open>0 < limit_of (ss_reqs s r)\<close> eq(1) i(3) unfolding slot_right_def by simp
    qed
    moreover have "cache_right K c'" using c(2) c'(2,3) by (auto simp: cache_right_def)
    ultimately have core': "ss_core K nxt holds rh {} ph (?v\<lparr>ss_cache := Some c', ss_slots := (ss_slots ?v)[i := Some ?sl]\<rparr>)"
      using core_hand_seat [OF v, of i c c' ?sl] i c(1) c'(5) by simp
    let ?w = "?v\<lparr>ss_cache := Some c', ss_slots := (ss_slots ?v)[i := Some ?sl]\<rparr>"
    have occ: "occupied ?w j q \<longleftrightarrow> (j = i \<and> q = r) \<or> (j \<noteq> i \<and> occupied s j q)" for j q
      using i(1) by (auto simp: occupied_def nth_list_update)
    have notin: "\<not> occupied s j r" for j using core by (auto simp: ss_core_def apart_def)
    have free: "\<not> occupied s i q" for q using i(2) by (simp add: occupied_def)
    have "(\<exists>j. occupied ?w j q) = (\<exists>j. occupied s j q)" if "q \<noteq> r" for q using that occ free by metis
    then have less: "left_over ?w q = left_over s q" if "q \<noteq> r" for q using that by (simp add: left_over_def)
    have "\<exists>j. occupied ?w j r" using occ by blast
    then have lt: "left_over ?w r < left_over s r" using notin r(2) by (simp add: left_over_def)
    have "left_over ?w q \<le> left_over s q" for q using less lt by (cases "q = r") (simp_all add: less_imp_le)
    moreover have "rq_request (ss_reqs ?w q) = rq_request (ss_reqs s q)" for q by simp
    ultimately have "forward_of s ?w \<and> closer s ?w" using lt r(1) unfolding forward_of_def closer_def by auto
    then show ?thesis using run core' by simp
  qed
qed

lemma ss_slots_waiting: "ss_slots (s\<lparr>ss_waiting := w\<rparr>) = ss_slots s"
  by simp

lemma admit_slots_idle: "ss_waiting s = [] \<Longrightarrow> admit_slots K is s = (Inr (), s)"
  by (induction "is") simp_all

lemma admit_slots_ok:
  assumes ok: "batch_model_ok K nxt holds rh" and "ss_core K nxt holds rh {} (\<lambda>_. Ready) s" "\<forall>i \<in> set is. i < length (ss_slots s)" "distinct is"
  shows "\<exists>s'. admit_slots K is s = (Inr (), s') \<and> ss_core K nxt holds rh {} (\<lambda>_. Ready) s' \<and> forward_of s s' \<and>
    (is \<noteq> [] \<longrightarrow> (\<forall>i \<in> set is. ss_slots s ! i = None) \<longrightarrow> ss_waiting s \<noteq> [] \<longrightarrow> closer s s') \<and>
    length (ss_slots s') = length (ss_slots s) \<and> (\<forall>j. ss_slots s ! j \<noteq> None \<longrightarrow> ss_slots s' ! j \<noteq> None)"
  using assms(2-4)
proof (induction "is" arbitrary: s)
  case (Cons i "is")
  consider "ss_slots s ! i \<noteq> None" | "ss_slots s ! i = None" "ss_waiting s = []" | r rest where "ss_slots s ! i = None" "ss_waiting s = r # rest"
    by (metis list.exhaust)
  then show ?case
  proof cases
    case 1
    then show ?thesis using Cons.IH [of s] Cons.prems by auto
  next
    case 2
    then show ?thesis using Cons.prems by simp
  next
    case 3
    let ?s = "s\<lparr>ss_waiting := rest\<rparr>"
    have pop: "ss_core K nxt holds rh {r} (\<lambda>_. Ready) ?s" by (rule core_pop [OF Cons.prems(1) 3(2)])
    have fw: "forward_of s ?s" by (rule forward_same) simp_all
    have r: "rq_finish (ss_reqs s r) = None" "r < ss_next s" "tokens_generated (ss_reqs s r) = []"
      using pop by (simp_all add: ss_core_def untouched_def)
    have go: ?thesis if one: "ss_core K nxt holds rh {} (\<lambda>_. Ready) s1" "forward_of ?s s1" "closer ?s s1" "length (ss_slots s1) = length (ss_slots s)"
        "\<forall>j. ss_slots s ! j \<noteq> None \<longrightarrow> ss_slots s1 ! j \<noteq> None"
      and run: "admit_slots K (i # is) s = admit_slots K is s1" for s1
    proof -
      obtain s' where "admit_slots K is s1 = (Inr (), s')" "ss_core K nxt holds rh {} (\<lambda>_. Ready) s'" "forward_of s1 s'"
          "length (ss_slots s') = length (ss_slots s1)" "\<forall>j. ss_slots s1 ! j \<noteq> None \<longrightarrow> ss_slots s' ! j \<noteq> None"
        using Cons.IH [OF one(1)] Cons.prems(2,3) one(4) by auto
      then show ?thesis using run fw one(2-5) by (auto intro: forward_trans closer_trans1 closer_trans2)
    qed
    show ?thesis
    proof (cases "cancel_event (ss_reqs s r)")
      case True
      let ?s1 = "ss_upd r (finish_srequest Cancelled) ?s"
      have "req_right K nxt (ss_reqs ?s r)" using pop r(2) by (simp add: ss_core_def)
      then have "req_right K nxt (finish_srequest Cancelled (ss_reqs ?s r))" by (rule req_right_cancelled)
      then have "ss_core K nxt holds rh {} (\<lambda>_. Ready) ?s1" by (rule core_hand_finish [OF pop])
      moreover have "forward_of ?s ?s1" "closer ?s ?s1" using forward_finish [where f = "\<lambda>x. x", of ?s r Cancelled] r by simp_all
      ultimately show ?thesis using True 3 by (intro go [of ?s1]) simp_all
    next
      case False
      have i: "i < length (ss_slots ?s)" "ss_slots ?s ! i = None" using Cons.prems(2) 3 by simp_all
      obtain s1 where s1: "prefill_into_slot K r i ?s = (Inr (), s1)" "ss_core K nxt holds rh {} (\<lambda>_. Ready) s1" "forward_of ?s s1" "closer ?s s1"
          "length (ss_slots s1) = length (ss_slots ?s)" "\<forall>j. j \<noteq> i \<longrightarrow> ss_slots s1 ! j = ss_slots ?s ! j"
        using prefill_into_slot_ok [OF ok pop i] by blast
      have "\<forall>j. ss_slots s ! j \<noteq> None \<longrightarrow> ss_slots s1 ! j \<noteq> None" using s1(6) 3(1) by (metis ss_slots_waiting)
      then show ?thesis by (intro go [OF s1(2-4)]) (use s1 False 3 in simp_all)
    qed
  qed
qed simp

section \<open>The decode step\<close>

lemma core_phase_cong:
  assumes "ss_core K nxt holds rh hand ph s" "\<And>i. i < length (ss_slots s) \<Longrightarrow> ss_slots s ! i \<noteq> None \<Longrightarrow> ph' i = ph i"
  shows "ss_core K nxt holds rh hand ph' s"
proof -
  have "rows_right K nxt rh ph s \<Longrightarrow> rows_right K nxt rh ph' s" using assms(2) unfolding rows_right_def by fastforce
  then show ?thesis using assms(1) by (simp add: ss_core_def)
qed

text \<open>One slot of the first part: its request ends, or its token is out.\<close>

lemma emit_stop_right:
  assumes "ss_core K nxt holds rh hand ph s" "i < length (ss_slots s)" "ss_slots s ! i = Some sl" "ph i = Ready"
    "sl_next_token sl = eos_token_id (ss_tokenizer K)"
  shows "req_right K nxt (finish_srequest Stop (ss_reqs s (sl_request sl)))"
proof -
  let ?rq = "ss_reqs s (sl_request sl)"
  note sr = slot_request [OF assms(1-3)]
  have "has_room K ?rq" "int (length (tokens_generated ?rq)) < limit_of ?rq"
    "sgreedy ?rq \<longrightarrow> eos_token_id (ss_tokenizer K) = argmax (ss_sampler K) (nxt (sprompt K ?rq @ tokens_generated ?rq))"
    using sr(4) assms(4,5) by (auto simp: slot_right_def)
  then have "complete K nxt ?rq" using sr(2) complete_stop by (auto simp: req_right_def)
  then show ?thesis using sr(2) \<open>has_room K ?rq\<close> by (simp add: req_right_def)
qed

lemma emit_right:
  assumes "ss_core K nxt holds rh hand ph s" "i < length (ss_slots s)" "ss_slots s ! i = Some sl" "ph i = Ready"
    "sl_next_token sl \<noteq> eos_token_id (ss_tokenizer K)"
  defines "rq \<equiv> emit_token (ss_tokenizer K) (sl_next_token sl) (ss_reqs s (sl_request sl))"
  shows "req_right K nxt rq" "limit_of rq \<le> int (length (tokens_generated rq)) \<Longrightarrow> req_right K nxt (finish_srequest Length rq)"
proof -
  let ?r = "ss_reqs s (sl_request sl)"
  note sr = slot_request [OF assms(1-3)]
  have s: "rq_finish ?r = None" "has_room K ?r" "int (length (tokens_generated ?r)) < limit_of ?r"
    "sgreedy ?r \<longrightarrow> sl_next_token sl = argmax (ss_sampler K) (nxt (sprompt K ?r @ tokens_generated ?r))"
    using sr(4) assms(4) by (auto simp: slot_right_def)
  have "so_far K nxt rq" unfolding rq_def
    by (rule so_far_emit) (use sr(2) s(4) assms(5) in \<open>auto simp: req_right_def\<close>)
  then show right: "req_right K nxt rq" using sr(2) s assms(5) by (simp add: rq_def req_right_def)
  show "req_right K nxt (finish_srequest Length rq)" if "limit_of rq \<le> int (length (tokens_generated rq))"
  proof -
    have "int (length (tokens_generated rq)) = limit_of rq" using that right by (simp add: req_right_def)
    moreover have "complete K nxt rq" using complete_length [OF \<open>so_far K nxt rq\<close>] calculation by simp
    ultimately show ?thesis using right s(2) by (simp add: req_right_def rq_def)
  qed
qed

lemma finish_and_free:
  assumes core: "ss_core K nxt holds rh {} ph s" and i: "i < length (ss_slots s)" "ss_slots s ! i = Some sl"
    and f: "req_right K nxt (finish_srequest reason (f (ss_reqs s (sl_request sl))))" "\<And>rq. rq_finish (f rq) = rq_finish rq"
      "\<And>rq. rq_request (f rq) = rq_request rq"
  defines "s' \<equiv> (ss_upd (sl_request sl) (\<lambda>rq. finish_srequest reason (f rq)) s)\<lparr>ss_slots := (ss_slots s)[i := None]\<rparr>"
  shows "ss_core K nxt holds rh {} ph s'" "forward_of s s'" "closer s s'"
proof -
  let ?u = "ss_upd (sl_request sl) (\<lambda>rq. finish_srequest reason (f rq)) s"
  note sr = slot_request [OF core i]
  have fin: "rq_finish (ss_reqs s (sl_request sl)) = None" using sr(4) by (auto simp: slot_right_def)
  show "ss_core K nxt holds rh {} ph s'" unfolding s'_def by (rule core_slot_finish [OF core i f(1,2)])
  have u: "forward_of s ?u" "closer s ?u" using forward_finish [OF fin f(3)] sr(1) by blast+
  have "forward_of ?u (?u\<lparr>ss_slots := (ss_slots ?u)[i := None]\<rparr>)" by (rule forward_free [of _ sl]) (use i in simp_all)
  then have v: "forward_of ?u s'" by (simp add: s'_def)
  show "forward_of s s'" by (rule forward_trans [OF u(1) v])
  show "closer s s'" by (rule closer_trans1 [OF u(2,1) v])
qed

lemma ss_slots_same: "ss_slots s ! i = x \<Longrightarrow> s\<lparr>ss_slots := (ss_slots s)[i := x]\<rparr> = s"
  by (metis list_update_id ssched.surjective ssched.update_convs(5))

lemma emit_slots_ok:
  assumes "ss_core K nxt holds rh {} ph s" "\<forall>i \<in> set is. i < length (ss_slots s) \<and> ph i = Ready" "distinct is"
  shows "\<exists>go s' ph'. emit_slots K is s = (go, s') \<and> ss_core K nxt holds rh {} ph' s' \<and> forward_of s s' \<and> ss_waiting s' = ss_waiting s \<and>
    length (ss_slots s') = length (ss_slots s) \<and> set go \<subseteq> set is \<and> distinct go \<and> ss_cache s' = ss_cache s \<and>
    (\<forall>i \<in> set is. i \<in> set go \<longleftrightarrow> ss_slots s' ! i \<noteq> None) \<and> (\<forall>i \<in> set go. ph' i = Emitted) \<and>
    (\<forall>i. i \<notin> set is \<longrightarrow> ss_slots s' ! i = ss_slots s ! i \<and> ph' i = ph i) \<and>
    ((\<exists>i \<in> set is. ss_slots s ! i \<noteq> None) \<longrightarrow> closer s s')"
  using assms
proof (induction "is" arbitrary: s ph)
  case (Cons i "is")
  have i: "i < length (ss_slots s)" "ph i = Ready" using Cons.prems(2) by simp_all
  show ?case
  proof (cases "ss_slots s ! i")
    case None
    obtain go s' ph' where ih: "emit_slots K is s = (go, s')" "ss_core K nxt holds rh {} ph' s'" "forward_of s s'" "ss_waiting s' = ss_waiting s"
        "length (ss_slots s') = length (ss_slots s)" "set go \<subseteq> set is" "distinct go" "ss_cache s' = ss_cache s"
        "\<forall>i \<in> set is. i \<in> set go \<longleftrightarrow> ss_slots s' ! i \<noteq> None" "\<forall>i \<in> set go. ph' i = Emitted"
        "\<forall>i. i \<notin> set is \<longrightarrow> ss_slots s' ! i = ss_slots s ! i \<and> ph' i = ph i" "(\<exists>i \<in> set is. ss_slots s ! i \<noteq> None) \<longrightarrow> closer s s'"
      using Cons.IH [of ph s] Cons.prems by auto
    show ?thesis
      by (intro exI [where x = go] exI [where x = s'] exI [where x = ph'])
        (use ih None Cons.prems(3) in auto)
  next
    case (Some sl)
    let ?r = "sl_request sl" and ?T = "ss_tokenizer K"
    have rest: ?thesis if one: "ss_core K nxt holds rh {} ph1 s1" "forward_of s s1" "closer s s1" "ss_waiting s1 = ss_waiting s"
        "length (ss_slots s1) = length (ss_slots s)" "ss_cache s1 = ss_cache s" "\<forall>j. j \<noteq> i \<longrightarrow> ss_slots s1 ! j = ss_slots s ! j \<and> ph1 j = ph j"
      and run: "emit_slots K (i # is) s = (case emit_slots K is s1 of (go, s') \<Rightarrow> (if keep then i # go else go, s'))"
      and keep: "keep \<longleftrightarrow> ss_slots s1 ! i \<noteq> None" "keep \<longrightarrow> ph1 i = Emitted" for s1 ph1 keep
    proof -
      have "\<forall>j \<in> set is. j < length (ss_slots s1) \<and> ph1 j = Ready" "distinct is" using Cons.prems(2,3) one(5,7) by auto
      then obtain go s' ph' where ih: "emit_slots K is s1 = (go, s')" "ss_core K nxt holds rh {} ph' s'" "forward_of s1 s'" "ss_waiting s' = ss_waiting s1"
        "length (ss_slots s') = length (ss_slots s1)" "set go \<subseteq> set is" "distinct go" "ss_cache s' = ss_cache s1"
        "\<forall>i \<in> set is. i \<in> set go \<longleftrightarrow> ss_slots s' ! i \<noteq> None" "\<forall>i \<in> set go. ph' i = Emitted"
        "\<forall>i. i \<notin> set is \<longrightarrow> ss_slots s' ! i = ss_slots s1 ! i \<and> ph' i = ph1 i"
        using Cons.IH [of ph1 s1] one(1) by blast
      have "i \<notin> set is" using Cons.prems(3) by simp
      then have at_i: "ss_slots s' ! i = ss_slots s1 ! i" "ph' i = ph1 i" "i \<notin> set go" using ih(6,11) by auto
      show ?thesis
      proof (intro exI conjI)
        show "emit_slots K (i # is) s = (if keep then i # go else go, s')" using run ih(1) by simp
        show "ss_core K nxt holds rh {} ph' s'" by (rule ih(2))
        show "forward_of s s'" by (rule forward_trans [OF one(2) ih(3)])
        show "(\<exists>i \<in> set (i # is). ss_slots s ! i \<noteq> None) \<longrightarrow> closer s s'" using closer_trans1 [OF one(3,2) ih(3)] by blast
      qed (use ih(4-) one(4-7) at_i keep in auto)
    qed
    note sr = slot_request [OF Cons.prems(1) i(1) Some]
    consider (cancel) "cancel_event (ss_reqs s ?r)" | (stop) "\<not> cancel_event (ss_reqs s ?r)" "sl_next_token sl = eos_token_id ?T"
      | (emit) "\<not> cancel_event (ss_reqs s ?r)" "sl_next_token sl \<noteq> eos_token_id ?T" by blast
    then show ?thesis
    proof cases
      case cancel
      have "req_right K nxt (finish_srequest Cancelled (ss_reqs s ?r))" by (rule req_right_cancelled [OF sr(2)])
      note ff = finish_and_free [where f = "\<lambda>x. x", OF Cons.prems(1) i(1) Some this refl refl]
      show ?thesis
        by (rule rest [where keep = False, OF ff]) (use cancel i Some in \<open>simp_all add: Let_def split: prod.splits\<close>)
    next
      case stop
      note ff = finish_and_free [where f = "\<lambda>x. x", OF Cons.prems(1) i(1) Some emit_stop_right [OF Cons.prems(1) i(1) Some i(2) stop(2)] refl refl]
      show ?thesis
        by (rule rest [where keep = False, OF ff]) (use stop i Some in \<open>simp_all add: Let_def split: prod.splits\<close>)
    next
      case emit
      let ?f = "emit_token ?T (sl_next_token sl)"
      note right = emit_right [OF Cons.prems(1) i(1) Some i(2) emit(2)]
      obtain c where c: "ss_cache s = Some c" "slot_right K nxt rh (ph i) c i (ss_reqs s ?r) sl" using sr(4) by blast
      show ?thesis
      proof (cases "limit_of (?f (ss_reqs s ?r)) \<le> int (length (tokens_generated (?f (ss_reqs s ?r))))")
        case True
        have upd: "ss_upd ?r (finish_srequest Length) (ss_upd ?r ?f s) = ss_upd ?r (\<lambda>rq. finish_srequest Length (?f rq)) s"
          by (simp add: ss_upd_def)
        note ff = finish_and_free [where f = ?f, OF Cons.prems(1) i(1) Some right(2) [OF True] emit_token_fields(1,2)]
        show ?thesis
          by (rule rest [where keep = False, OF ff]) (use emit True i Some in \<open>simp_all add: Let_def upd split: prod.splits\<close>)
      next
        case False
        have "slot_right K nxt rh Emitted c i (?f (ss_reqs s ?r)) sl"
          using c(2) False i(2) by (simp add: slot_right_def)
        from core_slot_change [where f = ?f, OF Cons.prems(1) i(1) Some right(1) refl c(1) this]
        have core: "ss_core K nxt holds rh {} (ph(i := Emitted)) (ss_upd ?r ?f s)"
          using ss_slots_same [of "ss_upd ?r ?f s" i "Some sl"] Some by simp
        have o: "\<exists>j. occupied s j ?r" using i(1) Some by (auto simp: occupied_def)
        have "int (length (tokens_generated (ss_reqs s ?r))) < limit_of (ss_reqs s ?r)" using c(2) by (simp add: slot_right_def)
        then have lt: "left_over (ss_upd ?r ?f s) ?r < left_over s ?r" using c(2) by (auto simp: left_over_def slot_right_def)
        then have fw: "forward_of s (ss_upd ?r ?f s)" "closer s (ss_upd ?r ?f s)"
          using sr(1) by (auto simp: forward_of_def closer_def left_over_def)
        show ?thesis
          by (rule rest [where keep = True, OF core fw]) (use emit False i Some in \<open>simp_all add: Let_def split: prod.splits\<close>)
      qed
    qed
  qed
qed (simp, blast)

end
