(* ===== verification/State_Scheduler_Forward.thy ===== *)
theory State_Scheduler_Forward
  imports State_Scheduler_Steps
begin

text \<open>
  The forward and the sampling of a decode step, and the whole step: it keeps the invariant, raises nothing, and
  brings every request of a slot closer to its end.
\<close>

section \<open>The forward over all rows\<close>

definition logits_right :: "('e, 'lg) ss_config \<Rightarrow> (token list \<Rightarrow> 'lg) \<Rightarrow> 'lg list list \<Rightarrow> ('e, 'lg) ssched \<Rightarrow> bool" where
  "logits_right K nxt logits s \<longleftrightarrow> length logits = length (ss_slots s) \<and>
     (\<forall>i sl. i < length (ss_slots s) \<longrightarrow> ss_slots s ! i = Some sl \<longrightarrow> logits ! i \<noteq> [] \<and>
        last (logits ! i) = nxt (sprompt K (ss_reqs s (sl_request sl)) @ tokens_generated (ss_reqs s (sl_request sl))))"

lemma emitted_position:
  assumes "slot_right K nxt rh Emitted c i rq sl"
  shows "0 \<le> sl_position sl" "sl_position sl < ss_max_len K"
proof -
  have "sprompt K rq \<noteq> []" "int (length (sprompt K rq)) + limit_of rq \<le> ss_max_len K" "int (length (tokens_generated rq)) < limit_of rq"
    "sl_position sl + 1 = int (length (sprompt K rq) + length (tokens_generated rq))"
    using assms by (auto simp: slot_right_def has_room_def)
  then show "0 \<le> sl_position sl" "sl_position sl < ss_max_len K" by (simp_all flip: length_greater_0_conv)
qed

lemma ragged_forward_ok:
  assumes ok: "batch_model_ok K nxt holds rh" and core: "ss_core K nxt holds rh {} ph s"
    and ph: "\<forall>i < length (ss_slots s). ss_slots s ! i \<noteq> None \<longrightarrow> ph i = Emitted"
  shows "\<exists>logits c'. ragged_forward K s = (Inr logits, s\<lparr>ss_cache := Some c'\<rparr>) \<and>
    ss_core K nxt holds rh {} (\<lambda>_. Forwarded) (s\<lparr>ss_cache := Some c'\<rparr>) \<and> logits_right K nxt logits s"
proof -
  let ?ts = "map (\<lambda>sl. case sl of None \<Rightarrow> 0 | Some sl \<Rightarrow> sl_next_token sl) (ss_slots s)"
    and ?ps = "map (\<lambda>sl. case sl of None \<Rightarrow> 0 | Some sl \<Rightarrow> sl_position sl) (ss_slots s)"
  obtain c where c: "ss_cache s = Some c" "cache_right K c"
    and rows: "\<forall>i sl. i < length (ss_slots s) \<longrightarrow> ss_slots s ! i = Some sl \<longrightarrow>
        sl_request sl < ss_next s \<and> slot_right K nxt rh (ph i) c i (ss_reqs s (sl_request sl)) sl"
    using core by (auto simp: ss_core_def rows_right_def)
  have len: "length (ss_slots s) = nat (ss_max_batch K)" using core by (simp add: ss_core_def)
  have n: "0 < ss_max_len K" "0 < ss_max_batch K" using ok by (simp_all add: batch_model_ok_def)
  have emitted: "slot_right K nxt rh Emitted c i (ss_reqs s (sl_request sl)) sl" if "i < length (ss_slots s)" "ss_slots s ! i = Some sl" for i sl
    using rows ph that by (metis option.distinct(1))
  have pos: "0 \<le> x \<and> x < ss_max_len K" if "x \<in> set ?ps" for x
  proof -
    from that obtain i where "i < length (ss_slots s)" "x = (case ss_slots s ! i of None \<Rightarrow> 0 | Some sl \<Rightarrow> sl_position sl)"
      by (auto simp: in_set_conv_nth)
    then show ?thesis using emitted emitted_position n(1) by (cases "ss_slots s ! i") fastforce+
  qed
  obtain c0 where c0: "sm_build (ss_model K) (ss_max_len K) (ss_max_batch K) = Inr c0" "shapes c = shapes c0" "st_specs c = st_specs c0"
    using c(2) by (auto simp: cache_right_def)
  have "ragged_ok (ss_model K) nxt rh (ss_max_len K) (ss_max_batch K)" using ok by (simp add: batch_model_ok_def)
  from this [unfolded ragged_ok_def, rule_format, OF c0(1,2), of ?ts ?ps]
  obtain logits c' where r: "sm_ragged (ss_model K) ?ts ?ps c = (Inr logits, c')" "length logits = nat (ss_max_batch K)" "shapes c' = shapes c"
      "st_specs c' = st_specs c" and out: "\<forall>i < nat (ss_max_batch K). \<forall>p. rh p (row_views i c) \<longrightarrow> ?ps ! i = int (length p) \<longrightarrow>
         logits ! i \<noteq> [] \<and> last (logits ! i) = nxt (p @ [?ts ! i]) \<and> rh (p @ [?ts ! i]) (row_views i c')"
    using len pos by auto
  have new: "slot_right K nxt rh Forwarded c' i (ss_reqs s (sl_request sl)) sl \<and> logits ! i \<noteq> [] \<and>
      last (logits ! i) = nxt (sprompt K (ss_reqs s (sl_request sl)) @ tokens_generated (ss_reqs s (sl_request sl)))"
    if i: "i < length (ss_slots s)" "ss_slots s ! i = Some sl" for i sl
  proof -
    let ?rq = "ss_reqs s (sl_request sl)"
    note e = emitted [OF i]
    obtain ts where ts: "tokens_generated ?rq = ts @ [sl_next_token sl]" "rh (sprompt K ?rq @ ts) (row_views i c)"
      using e by (auto simp: slot_right_def)
    have at: "?ps ! i = int (length (sprompt K ?rq @ ts))" "?ts ! i = sl_next_token sl"
      using e i ts(1) by (simp_all add: slot_right_def)
    have "i < nat (ss_max_batch K)" using len i(1) by simp
    from out [rule_format, OF this ts(2) at(1)]
    have o: "logits ! i \<noteq> []" "last (logits ! i) = nxt (sprompt K ?rq @ tokens_generated ?rq)"
        "rh (sprompt K ?rq @ tokens_generated ?rq) (row_views i c')"
      unfolding at(2) ts(1) by simp_all
    have "slot_right K nxt rh Forwarded c' i ?rq sl" using e o(3) by (simp add: slot_right_def)
    then show ?thesis using o(1,2) by blast
  qed
  have "cache_right K c'" using c0 r(3,4) by (simp add: cache_right_def)
  then have "rows_right K nxt rh (\<lambda>_. Forwarded) (s\<lparr>ss_cache := Some c'\<rparr>)"
    using new rows by (simp add: rows_right_def)
  moreover have "apart {} (s\<lparr>ss_cache := Some c'\<rparr>) = apart {} s" "untouched {} (s\<lparr>ss_cache := Some c'\<rparr>) = untouched {} s"
    "none_lost {} (s\<lparr>ss_cache := Some c'\<rparr>) = none_lost {} s" by (simp_all add: apart_def untouched_def none_lost_def)
  ultimately have "ss_core K nxt holds rh {} (\<lambda>_. Forwarded) (s\<lparr>ss_cache := Some c'\<rparr>)" using core by (simp add: ss_core_def)
  moreover have "logits_right K nxt logits s" using new r(2) len by (simp add: logits_right_def)
  moreover have "ragged_forward K s = (Inr logits, s\<lparr>ss_cache := Some c'\<rparr>)"
  proof (cases "ss_graph K")
    case None
    then show ?thesis using c(1) r(1) by (simp add: ragged_forward_def Let_def)
  next
    case (Some graph)
    then have g: "graph = sm_ragged (ss_model K)" using ok by (simp add: batch_model_ok_def)
    have "?ps \<noteq> []" using len n(2) by (cases "ss_slots s") auto
    then have "Max (set ?ps) \<in> set ?ps" by (intro Max_in) auto
    then have "Max (set ?ps) + 1 \<le> ss_max_len K" using pos by fastforce
    then have "check_capacity (Max (set ?ps) + 1) c = Inr ()"
      using ok c0 by (fastforce simp: batch_model_ok_def batch_builds_def)
    then show ?thesis using Some g c(1) r(1) by (simp add: ragged_forward_def Let_def)
  qed
  ultimately show ?thesis by blast
qed

text \<open>Sampling the slots that go on.\<close>

lemma sample_slot_ok:
  assumes core: "ss_core K nxt holds rh {} ph s" and logits: "logits_right K nxt logits s"
    and i: "i < length (ss_slots s)" "ss_slots s ! i = Some sl" "ph i = Forwarded"
  shows "\<exists>s'. sample_slot K logits i s = (Inr (), s') \<and> ss_core K nxt holds rh {} (ph(i := Ready)) s' \<and> logits_right K nxt logits s' \<and>
    forward_of s s' \<and> ss_waiting s' = ss_waiting s \<and> length (ss_slots s') = length (ss_slots s) \<and>
    (\<forall>j. (ss_slots s' ! j = None) = (ss_slots s ! j = None))"
proof -
  let ?rq = "ss_reqs s (sl_request sl)"
  have l: "logits ! i \<noteq> []" "last (logits ! i) = nxt (sprompt K ?rq @ tokens_generated ?rq)" "i < length logits"
    using logits i by (auto simp: logits_right_def)
  obtain t g where tg: "sample (ss_sampler K) (last (logits ! i)) (sampling (rq_request ?rq)) (ss_rng s) = (t, g)" by fastforce
  let ?sl = "sl\<lparr>sl_next_token := t, sl_position := sl_position sl + 1\<rparr>"
  let ?s = "s\<lparr>ss_slots := (ss_slots s)[i := Some ?sl], ss_rng := g\<rparr>"
  have run: "sample_slot K logits i s = (Inr (), ?s)"
    using i l(1,3) tg by (simp add: sample_slot_def nth_res_def last_row_def)
  obtain c where c: "ss_cache s = Some c" "slot_right K nxt rh (ph i) c i ?rq sl" using slot_request(4) [OF core i(1,2)] by blast
  have "sgreedy ?rq \<longrightarrow> t = argmax (ss_sampler K) (nxt (sprompt K ?rq @ tokens_generated ?rq))"
    using tg l(2) by (auto simp: sgreedy_def sample_def)
  then have "slot_right K nxt rh Ready c i ?rq ?sl" using c(2) i(3) by (simp add: slot_right_def)
  from core_slot_change [where f = "\<lambda>rq. rq" and sl' = ?sl, OF core i(1,2) slot_request(2) [OF core i(1,2)] _ c(1) this]
  have "ss_core K nxt holds rh {} (ph(i := Ready)) ((ss_upd (sl_request sl) (\<lambda>rq. rq) s)\<lparr>ss_slots := (ss_slots s)[i := Some ?sl]\<rparr>)" by simp
  moreover have "ss_upd (sl_request sl) (\<lambda>rq. rq) s = s" by (simp add: ss_upd_def)
  ultimately have "ss_core K nxt holds rh {} (ph(i := Ready)) (s\<lparr>ss_slots := (ss_slots s)[i := Some ?sl]\<rparr>)" by simp
  then have "ss_core K nxt holds rh {} (ph(i := Ready)) ((s\<lparr>ss_slots := (ss_slots s)[i := Some ?sl]\<rparr>)\<lparr>ss_rng := g\<rparr>)" by (simp only: core_rng)
  then have core': "ss_core K nxt holds rh {} (ph(i := Ready)) ?s" by simp
  have "occupied ?s j r \<longleftrightarrow> occupied s j r" for j r using i(1,2) by (auto simp: occupied_def nth_list_update)
  then have "occupied ?s = occupied s" by (simp add: fun_eq_iff)
  then have "forward_of s ?s" by (intro forward_same) simp_all
  moreover have "logits_right K nxt logits ?s" using logits i(1,2) by (auto simp: logits_right_def nth_list_update)
  moreover have "(ss_slots ?s ! j = None) = (ss_slots s ! j = None)" for j using i(1,2) by (auto simp: nth_list_update)
  ultimately show ?thesis using run core' by (intro exI [where x = ?s]) simp
qed

lemma sample_slots_ok:
  assumes "ss_core K nxt holds rh {} ph s" "logits_right K nxt logits s" "distinct go"
    "\<forall>i \<in> set go. i < length (ss_slots s) \<and> ss_slots s ! i \<noteq> None \<and> ph i = Forwarded"
  shows "\<exists>s' ph'. for_each (sample_slot K logits) go s = (Inr (), s') \<and> ss_core K nxt holds rh {} ph' s' \<and> forward_of s s' \<and>
    ss_waiting s' = ss_waiting s \<and> length (ss_slots s') = length (ss_slots s) \<and> (\<forall>j. (ss_slots s' ! j = None) = (ss_slots s ! j = None)) \<and>
    (\<forall>i \<in> set go. ph' i = Ready) \<and> (\<forall>i. i \<notin> set go \<longrightarrow> ph' i = ph i)"
  using assms
proof (induction go arbitrary: s ph)
  case Nil
  then show ?case by simp blast
next
  case (Cons i go)
  then obtain sl where i: "i < length (ss_slots s)" "ss_slots s ! i = Some sl" "ph i = Forwarded" by auto
  obtain s1 where s1: "sample_slot K logits i s = (Inr (), s1)" "ss_core K nxt holds rh {} (ph(i := Ready)) s1" "logits_right K nxt logits s1"
      "forward_of s s1" "ss_waiting s1 = ss_waiting s" "length (ss_slots s1) = length (ss_slots s)" "\<forall>j. (ss_slots s1 ! j = None) = (ss_slots s ! j = None)"
    using sample_slot_ok [OF Cons.prems(1,2) i] by blast
  have "\<forall>j \<in> set go. j < length (ss_slots s1) \<and> ss_slots s1 ! j \<noteq> None \<and> (ph(i := Ready)) j = Forwarded"
    using Cons.prems(3,4) s1(6,7) by auto
  then obtain s' ph' where "for_each (sample_slot K logits) go s1 = (Inr (), s')" "ss_core K nxt holds rh {} ph' s'" "forward_of s1 s'"
      "ss_waiting s' = ss_waiting s1" "length (ss_slots s') = length (ss_slots s1)" "\<forall>j. (ss_slots s' ! j = None) = (ss_slots s1 ! j = None)"
      "\<forall>j \<in> set go. ph' j = Ready" "\<forall>j. j \<notin> set go \<longrightarrow> ph' j = (ph(i := Ready)) j"
    using Cons.IH [OF s1(2,3)] Cons.prems(3) by auto
  then show ?case using s1 Cons.prems(3)
    by (intro exI [where x = s'] exI [where x = ph']) (auto intro: forward_trans)
qed

lemma decode_step_ok:
  assumes ok: "batch_model_ok K nxt holds rh" and core: "ss_core K nxt holds rh {} (\<lambda>_. Ready) s" and some: "\<exists>i < length (ss_slots s). ss_slots s ! i \<noteq> None"
  shows "\<exists>s'. ss_decode_step K s = (Inr (), s') \<and> ss_core K nxt holds rh {} (\<lambda>_. Ready) s' \<and> forward_of s s' \<and> closer s s'"
proof -
  obtain go s1 ph where e: "emit_slots K [0 ..< length (ss_slots s)] s = (go, s1)" "ss_core K nxt holds rh {} ph s1" "forward_of s s1"
      "length (ss_slots s1) = length (ss_slots s)" "set go \<subseteq> {0 ..< length (ss_slots s)}" "distinct go" "ss_cache s1 = ss_cache s"
      "\<forall>i < length (ss_slots s). i \<in> set go \<longleftrightarrow> ss_slots s1 ! i \<noteq> None" "\<forall>i \<in> set go. ph i = Emitted" "closer s s1"
    using emit_slots_ok [OF core, of "[0 ..< length (ss_slots s)]"] some by fastforce
  have cache: "ss_cache s \<noteq> None" using core by (auto simp: ss_core_def rows_right_def)
  show ?thesis
  proof (cases "go = []")
    case True
    have "ss_core K nxt holds rh {} (\<lambda>_. Ready) s1" by (rule core_phase_cong [OF e(2)]) (use e(4,8) True in auto)
    then show ?thesis using e cache True by (simp add: ss_decode_step_def)
  next
    case False
    have "\<forall>i < length (ss_slots s1). ss_slots s1 ! i \<noteq> None \<longrightarrow> ph i = Emitted" using e(4,8,9) by auto
    from ragged_forward_ok [OF ok e(2) this] obtain logits c' where r: "ragged_forward K s1 = (Inr logits, s1\<lparr>ss_cache := Some c'\<rparr>)"
        "ss_core K nxt holds rh {} (\<lambda>_. Forwarded) (s1\<lparr>ss_cache := Some c'\<rparr>)" "logits_right K nxt logits s1" by blast
    let ?s2 = "s1\<lparr>ss_cache := Some c'\<rparr>"
    have l2: "logits_right K nxt logits ?s2" using r(3) by (simp add: logits_right_def)
    have "\<forall>i \<in> set go. i < length (ss_slots ?s2) \<and> ss_slots ?s2 ! i \<noteq> None \<and> Forwarded = Forwarded" using e(4,5,8) by auto
    from sample_slots_ok [OF r(2) l2 e(6) this] obtain s' ph' where s': "for_each (sample_slot K logits) go ?s2 = (Inr (), s')"
        "ss_core K nxt holds rh {} ph' s'" "forward_of ?s2 s'" "length (ss_slots s') = length (ss_slots ?s2)"
        "\<forall>j. (ss_slots s' ! j = None) = (ss_slots ?s2 ! j = None)" "\<forall>i \<in> set go. ph' i = Ready" by blast
    have "ss_core K nxt holds rh {} (\<lambda>_. Ready) s'" by (rule core_phase_cong [OF s'(2)]) (use e(4,8) s'(4-6) in auto)
    moreover have "forward_of s1 ?s2" by (rule forward_same) simp_all
    moreover have "ss_decode_step K s = (Inr (), s')" using cache e(1) False r(1) s'(1) by (simp add: ss_decode_step_def)
    ultimately show ?thesis using e(3,10) s'(3) forward_trans closer_trans1 by blast
  qed
qed

end
