(* ===== verification/State_Scheduler_Runs.thy ===== *)
theory State_Scheduler_Runs
  imports State_Scheduler_Forward
begin

text \<open>
  Turns of the engine thread, the calls of other threads, and runs of both: the thread never crashes, every request
  stays accounted for, and enough turns end them all.
\<close>

section \<open>A turn of the engine thread\<close>

abbreviation in_hand :: "('e, 'lg) ssched \<Rightarrow> nat set" where
  "in_hand s \<equiv> set_option (ss_taken s)"

definition ended :: "('e, 'lg) ssched \<Rightarrow> bool" where
  "ended s \<longleftrightarrow> (\<forall>r < ss_next s. rq_finish (ss_reqs s r) \<noteq> None)"

text \<open>Two for each piece of work that is left, and one while a request is in the hand of the idle thread.\<close>

definition work :: "('e, 'lg) ssched \<Rightarrow> nat" where
  "work s = 2 * (\<Sum>r < ss_next s. left_over s r) + (if ss_taken s = None then 0 else 1)"

lemma left_over_ended: "rq_finish (ss_reqs s r) \<noteq> None \<longleftrightarrow> left_over s r = 0"
  by (simp add: left_over_def)

lemma forward_work:
  assumes "forward_of s s'"
  shows "work s' \<le> work s" "closer s s' \<Longrightarrow> Suc (work s') < work s" "ended s \<Longrightarrow> ended s'"
proof -
  have n: "ss_next s' = ss_next s" "ss_taken s' = ss_taken s" "\<forall>r < ss_next s. left_over s' r \<le> left_over s r"
    using assms by (simp_all add: forward_of_def)
  have "(\<Sum>r < ss_next s. left_over s' r) \<le> (\<Sum>r < ss_next s. left_over s r)" by (rule sum_mono) (use n(3) in simp)
  then show "work s' \<le> work s" using n(1,2) by (simp add: work_def)
  show "Suc (work s') < work s" if c: "closer s s'"
  proof -
    obtain r where r: "r < ss_next s" "left_over s' r < left_over s r" using c by (auto simp: closer_def)
    have "(\<Sum>r < ss_next s. left_over s' r) < (\<Sum>r < ss_next s. left_over s r)"
      by (rule sum_strict_mono_ex1) (use n(3) r in auto)
    then show ?thesis using n(1,2) by (simp add: work_def)
  qed
  show "ended s'" if "ended s"
    using that n(1,3) unfolding ended_def left_over_ended by (metis le_zero_eq)
qed

lemma some_slot: "\<not> list_all (\<lambda>sl. sl = None) xs \<longleftrightarrow> (\<exists>i < length xs. xs ! i \<noteq> None)"
  by (auto simp: list_all_length)

lemma live_turn:
  assumes ok: "batch_model_ok K nxt holds rh" and core: "ss_core K nxt holds rh (in_hand s) (\<lambda>_. Ready) s"
  shows "ss_core K nxt holds rh (in_hand (ss_turn K s)) (\<lambda>_. Ready) (ss_turn K s)"
    "ss_next (ss_turn K s) = ss_next s" "\<forall>r. rq_request (ss_reqs (ss_turn K s) r) = rq_request (ss_reqs s r)"
    "if ended s then ended (ss_turn K s) else work (ss_turn K s) < work s"
proof -
  have live: "ss_thread s = Live" using core by (simp add: ss_core_def)
  have goal: "ss_core K nxt holds rh (in_hand (ss_turn K s)) (\<lambda>_. Ready) (ss_turn K s) \<and> ss_next (ss_turn K s) = ss_next s \<and>
    (\<forall>r. rq_request (ss_reqs (ss_turn K s) r) = rq_request (ss_reqs s r)) \<and> (if ended s then ended (ss_turn K s) else work (ss_turn K s) < work s)"
  proof (cases "ss_taken s")
    case (Some r)
    let ?s = "s\<lparr>ss_waiting := ss_waiting s @ [r], ss_taken := None\<rparr>"
    have t: "ss_turn K s = ?s" using live Some by (simp add: ss_turn_def)
    have "ss_core K nxt holds rh {r} (\<lambda>_. Ready) s" using core Some by simp
    from core_push [OF this] have "ss_core K nxt holds rh {} (\<lambda>_. Ready) ?s" by simp
    moreover have "left_over ?s q = left_over s q" for q by (simp add: left_over_def occupied_def)
    ultimately show ?thesis unfolding t using Some by (simp add: work_def ended_def)
  next
    case None
    have core: "ss_core K nxt holds rh {} (\<lambda>_. Ready) s" using core None by simp
    have len: "length (ss_slots s) = nat (ss_max_batch K)" "0 < nat (ss_max_batch K)"
      using core ok by (simp_all add: ss_core_def batch_model_ok_def)
    have "\<forall>i \<in> set [0 ..< nat (ss_max_batch K)]. i < length (ss_slots s)" using len(1) by simp
    from admit_slots_ok [OF ok core this distinct_upt]
    obtain s1 where a: "admit K s = (Inr (), s1)" "ss_core K nxt holds rh {} (\<lambda>_. Ready) s1" "forward_of s s1"
      "[0 ..< nat (ss_max_batch K)] \<noteq> [] \<longrightarrow> (\<forall>i \<in> set [0 ..< nat (ss_max_batch K)]. ss_slots s ! i = None) \<longrightarrow> ss_waiting s \<noteq> [] \<longrightarrow> closer s s1"
      "length (ss_slots s1) = length (ss_slots s)" "\<forall>j. ss_slots s ! j \<noteq> None \<longrightarrow> ss_slots s1 ! j \<noteq> None"
      unfolding admit_def by blast
    have f1: "ss_next s1 = ss_next s" "ss_taken s1 = None" "\<forall>r. rq_request (ss_reqs s1 r) = rq_request (ss_reqs s r)"
      using a(3) None by (simp_all add: forward_of_def)
    show ?thesis
    proof (cases "list_all (\<lambda>sl. sl = None) (ss_slots s1)")
      case True
      have "\<forall>i < length (ss_slots s). ss_slots s ! i = None" using True a(5,6) by (auto simp: list_all_length)
      then have empty: "\<forall>i < nat (ss_max_batch K). ss_slots s ! i = None" using len by simp
      have nobody: "ended s" if "ss_waiting s = []"
        using core that \<open>\<forall>i < length (ss_slots s). ss_slots s ! i = None\<close> by (auto simp: ss_core_def none_lost_def ended_def occupied_def)
      let ?t = "case ss_waiting s1 of [] \<Rightarrow> s1 | r # rest \<Rightarrow> s1\<lparr>ss_waiting := rest, ss_taken := Some r\<rparr>"
      have t: "ss_turn K s = ?t" using live None a(1) True by (simp add: ss_turn_def)
      have "ss_core K nxt holds rh (in_hand ?t) (\<lambda>_. Ready) ?t"
      proof (cases "ss_waiting s1")
        case (Cons r rest)
        then show ?thesis using core_pop [OF a(2) Cons] by simp
      qed (use a(2) f1 in simp)
      moreover have "left_over ?t q = left_over s1 q" for q by (cases "ss_waiting s1") (simp_all add: left_over_def)
      then have "work ?t \<le> Suc (work s1)" "ended s1 \<longrightarrow> ended ?t" using f1 by (auto simp: work_def ended_def split: list.split)
      moreover have "work ?t < work s" if "\<not> ended s"
        using forward_work(2) [OF a(3)] a(4) len(2) empty nobody that calculation(2) by auto
      moreover have "ended s1" if "ended s" by (rule forward_work(3) [OF a(3) that])
      moreover have "ss_next ?t = ss_next s" "\<forall>r. rq_request (ss_reqs ?t r) = rq_request (ss_reqs s r)"
        using f1 by (simp_all split: list.split)
      ultimately show ?thesis unfolding t by simp
    next
      case False
      then obtain s2 where d: "ss_decode_step K s1 = (Inr (), s2)" "ss_core K nxt holds rh {} (\<lambda>_. Ready) s2" "forward_of s1 s2" "closer s1 s2"
        using decode_step_ok [OF ok a(2)] by (auto simp: some_slot)
      have t: "ss_turn K s = s2" using live None a(1) False d(1) by (simp add: ss_turn_def)
      have "forward_of s s2" "closer s s2" using forward_trans [OF a(3) d(3)] closer_trans2 [OF a(3) d(4)] by blast+
      note w = forward_work [OF this(1)] this
      have "work s2 < work s" using w(2,5) by simp
      then show ?thesis unfolding t using d(2) w(3,4) None by (simp add: forward_of_def)
    qed
  qed
  from goal show "ss_core K nxt holds rh (in_hand (ss_turn K s)) (\<lambda>_. Ready) (ss_turn K s)"
    "ss_next (ss_turn K s) = ss_next s" "\<forall>r. rq_request (ss_reqs (ss_turn K s) r) = rq_request (ss_reqs s r)"
    "if ended s then ended (ss_turn K s) else work (ss_turn K s) < work s" by blast+
qed

text \<open>The idle branch is not first come, first served: after a pass that filled no slot, the first request goes to the end.\<close>

lemma idle_turn_reorders:
  assumes "ss_thread s = Live" "ss_taken s = None" "admit K s = (Inr (), s1)" "list_all (\<lambda>sl. sl = None) (ss_slots s1)"
    and "ss_waiting s1 = r # rest" "ss_thread s1 = Live"
  shows "ss_waiting (ss_turn K (ss_turn K s)) = rest @ [r]"
  using assms by (simp add: ss_turn_def)

section \<open>The other calls\<close>

text \<open>Between \<open>stop\<close> and \<open>start\<close>.\<close>

definition at_rest :: "('e, 'lg) ss_config \<Rightarrow> (token list \<Rightarrow> 'lg) \<Rightarrow> (token list \<Rightarrow> 'e layer_snapshot list \<Rightarrow> bool) \<Rightarrow> ('e, 'lg) ssched \<Rightarrow> bool" where
  "at_rest K nxt holds s \<longleftrightarrow> ss_thread s = Absent \<and> \<not> ss_crashed s \<and> ss_waiting s = [] \<and> ss_taken s = None \<and> ended s \<and>
     (\<forall>r < ss_next s. req_right K nxt (ss_reqs s r)) \<and> prefix_right nxt holds (ss_prefix s)"

definition engine_ok :: "('e, 'lg) ss_config \<Rightarrow> (token list \<Rightarrow> 'lg) \<Rightarrow> (token list \<Rightarrow> 'e layer_snapshot list \<Rightarrow> bool)
    \<Rightarrow> (token list \<Rightarrow> 'e row_state list \<Rightarrow> bool) \<Rightarrow> ('e, 'lg) ssched \<Rightarrow> bool" where
  "engine_ok K nxt holds rh s \<longleftrightarrow> ss_core K nxt holds rh (in_hand s) (\<lambda>_. Ready) s \<or> at_rest K nxt holds s"

lemma init_at_rest:
  assumes "ss_init K graph_supported pc seed = Inr s" "prefix_right nxt holds pc"
  shows "at_rest K nxt holds s"
  using assms by (auto simp: ss_init_def at_rest_def ended_def split: if_splits)

lemma start_ok:
  assumes "batch_model_ok K nxt holds rh" "at_rest K nxt holds s"
  shows "\<exists>s'. ss_start K s = (Inr (), s') \<and> ss_core K nxt holds rh (in_hand s') (\<lambda>_. Ready) s'"
proof -
  obtain c where c: "sm_build (ss_model K) (ss_max_len K) (ss_max_batch K) = Inr c"
    using assms(1) by (auto simp: batch_model_ok_def batch_builds_def)
  let ?s = "s\<lparr>ss_crashed := False, ss_cache := Some c, ss_slots := replicate (nat (ss_max_batch K)) None, ss_thread := Live\<rparr>"
  have r: "ss_thread s = Absent" "\<not> ss_crashed s" "ss_taken s = None" "ss_waiting s = []" "ended s" "prefix_right nxt holds (ss_prefix s)"
    "\<forall>r < ss_next s. req_right K nxt (ss_reqs s r)" using assms(2) by (simp_all add: at_rest_def)
  have run: "ss_start K s = (Inr (), ?s)" using c r by (simp add: ss_start_def Let_def)
  have free: "\<not> occupied ?s i q" for i q by (simp add: occupied_def)
  have "rows_right K nxt rh (\<lambda>_. Ready) ?s" using c by (simp add: rows_right_def cache_right_def)
  moreover have "apart {} ?s" using free r by (simp add: apart_def)
  moreover have "untouched {} ?s" using r by (simp add: untouched_def)
  moreover have "none_lost {} ?s" using r by (auto simp: none_lost_def ended_def)
  ultimately have "ss_core K nxt holds rh {} (\<lambda>_. Ready) ?s" using r by (simp add: ss_core_def)
  then show ?thesis using run r by simp
qed

lemma init_req_right:
  assumes "0 < max_tokens rq"
  shows "req_right K nxt (running_request_init rq n)"
  using assms by (simp add: req_right_def running_request_init_def so_far_def)

lemma occupied_new [simp]: "occupied (s\<lparr>ss_reqs := x\<rparr>) = occupied s" "occupied (s\<lparr>ss_next := n\<rparr>) = occupied s"
  by (simp_all add: occupied_def fun_eq_iff)

lemma submit_ok:
  assumes core: "ss_core K nxt holds rh hand ph s" and rq: "0 < max_tokens rq"
  shows "\<exists>s'. ss_submit rq s = (Inr (ss_next s), s') \<and> ss_core K nxt holds rh hand ph s' \<and> ss_taken s' = ss_taken s"
proof -
  let ?r = "ss_next s" and ?rq = "running_request_init rq 256"
  let ?s = "s\<lparr>ss_reqs := (ss_reqs s)(?r := ?rq), ss_next := Suc ?r, ss_waiting := ss_waiting s @ [?r]\<rparr>"
  have run: "ss_submit rq s = (Inr ?r, ?s)" using core by (simp add: ss_submit_def ss_core_def Let_def)
  have occ: "occupied ?s = occupied s" by simp
  have seated: "r < ?r" if "occupied s i r" for i r using core that by (auto simp: ss_core_def rows_right_def occupied_def)
  have u: "untouched hand s" "apart hand s" "none_lost hand s" "rows_right K nxt rh ph s" using core by (simp_all add: ss_core_def)
  then have new: "?r \<notin> set (ss_waiting s) \<union> hand" by (auto simp: untouched_def)
  have "rows_right K nxt rh ph ?s" using u(4) unfolding rows_right_def by fastforce
  moreover have "apart hand ?s" using u(2) new seated by (auto simp: apart_def occ)
  moreover have "untouched hand ?s" using u(1) new by (auto simp: untouched_def running_request_init_def less_Suc_eq)
  moreover have "none_lost hand ?s" using u(3) by (auto simp: none_lost_def occ less_Suc_eq)
  moreover have "\<forall>r < ss_next ?s. req_right K nxt (ss_reqs ?s r)"
    using core init_req_right [OF rq] by (auto simp: ss_core_def less_Suc_eq)
  ultimately have "ss_core K nxt holds rh hand ph ?s" using core by (simp add: ss_core_def)
  then show ?thesis using run by simp
qed

lemma cancel_fields [simp]: "rq_request (cancel rq) = rq_request rq" "tokens_generated (cancel rq) = tokens_generated rq"
  "last_text (cancel rq) = last_text rq" "rq_finish (cancel rq) = rq_finish rq"
  by (simp_all add: cancel_def)

text \<open>Everything that \<open>stop\<close> finds ends as cancelled; the rest has ended before.\<close>

lemma cancel_all:
  assumes "\<forall>r < ss_next s. req_right K nxt (ss_reqs s r)" "\<forall>r < ss_next s. rq_finish (ss_reqs s r) = None \<longrightarrow> r \<in> set rs"
  shows "let s' = foldl (\<lambda>s r. ss_upd r (finish_srequest Cancelled) s) s rs in
    (\<forall>r < ss_next s'. req_right K nxt (ss_reqs s' r)) \<and> ended s' \<and> ss_waiting s' = ss_waiting s \<and> ss_taken s' = ss_taken s \<and>
    ss_thread s' = ss_thread s \<and> ss_crashed s' = ss_crashed s \<and> ss_prefix s' = ss_prefix s"
  using assms
proof (induction rs arbitrary: s)
  case Nil
  then show ?case by (auto simp: ended_def)
next
  case (Cons q rs)
  let ?s = "ss_upd q (finish_srequest Cancelled) s"
  have "\<forall>r < ss_next ?s. req_right K nxt (ss_reqs ?s r)" "\<forall>r < ss_next ?s. rq_finish (ss_reqs ?s r) = None \<longrightarrow> r \<in> set rs"
    using Cons.prems by (auto simp: req_right_cancelled)
  from Cons.IH [OF this] show ?case by (simp add: Let_def)
qed

lemma stop_ok:
  assumes core: "ss_core K nxt holds rh (in_hand s) (\<lambda>_. Ready) s"
  shows "at_rest K nxt holds (ss_stop K s)"
proof -
  let ?b = "case ss_taken s of None \<Rightarrow> s | Some r \<Rightarrow> s\<lparr>ss_waiting := ss_waiting s @ [r], ss_taken := None\<rparr>"
  have b: "ss_core K nxt holds rh {} (\<lambda>_. Ready) ?b" "ss_taken ?b = None"
    using core core_push by (auto split: option.split) fastforce
  let ?rs = "map (\<lambda>sl. sl_request (the sl)) (filter (\<lambda>sl. sl \<noteq> None) (ss_slots ?b)) @ ss_waiting ?b"
  let ?e = "?b\<lparr>ss_thread := Absent, ss_slots := replicate (nat (ss_max_batch K)) None, ss_waiting := []\<rparr>"
  have k: "ss_thread s = Live" "\<not> ss_crashed ?b" "none_lost {} ?b" "\<forall>r < ss_next ?b. req_right K nxt (ss_reqs ?b r)" "prefix_right nxt holds (ss_prefix ?b)"
    using core b(1) unfolding ss_core_def by blast+
  have stop: "ss_stop K s = foldl (\<lambda>s r. ss_upd r (finish_srequest Cancelled) s) ?e ?rs"
    using k(1,2) by (simp add: ss_stop_def ss_end_in_flight_def Let_def split del: option.split)
  have "r \<in> set ?rs" if "r < ss_next ?b" "rq_finish (ss_reqs ?b r) = None" for r
  proof -
    have "r \<in> set (ss_waiting ?b) \<or> (\<exists>i. occupied ?b i r)" using k(3) that by (auto simp: none_lost_def)
    then show ?thesis
    proof
      assume "\<exists>i. occupied ?b i r"
      then obtain i sl where i: "i < length (ss_slots ?b)" "ss_slots ?b ! i = Some sl" "sl_request sl = r" unfolding occupied_def by blast
      then have "Some sl \<in> set (filter (\<lambda>sl. sl \<noteq> None) (ss_slots ?b))" using nth_mem [OF i(1)] by simp
      then show ?thesis using i(3) by force
    qed simp
  qed
  then have "\<forall>r < ss_next ?e. rq_finish (ss_reqs ?e r) = None \<longrightarrow> r \<in> set ?rs" by simp
  moreover have "\<forall>r < ss_next ?e. req_right K nxt (ss_reqs ?e r)" using k(4) by simp
  ultimately show ?thesis using cancel_all [of ?e K nxt ?rs] b(2) k(2,5) unfolding stop at_rest_def Let_def by simp
qed

section \<open>Runs\<close>

fun proper :: "ss_call \<Rightarrow> bool" where
  "proper (Submit_Request rq) \<longleftrightarrow> 0 < max_tokens rq"
| "proper _ \<longleftrightarrow> True"

lemma event_ok:
  assumes ok: "batch_model_ok K nxt holds rh" and inv: "engine_ok K nxt holds rh s" and ev: "proper ev"
  shows "engine_ok K nxt holds rh (ss_event K ev s)"
proof -
  consider (live) "ss_core K nxt holds rh (in_hand s) (\<lambda>_. Ready) s" | (rest) "at_rest K nxt holds s" using inv by (auto simp: engine_ok_def)
  then show ?thesis
  proof cases
    case live
    then have t: "ss_thread s = Live" by (simp add: ss_core_def)
    show ?thesis
    proof (cases ev)
      case Start
      then show ?thesis using inv t by (simp add: ss_event_def ss_start_def)
    next
      case Stop_Thread
      then show ?thesis using stop_ok [OF live] by (simp add: ss_event_def engine_ok_def)
    next
      case (Submit_Request rq)
      then show ?thesis using submit_ok [OF live, of rq] ev by (auto simp: ss_event_def engine_ok_def)
    next
      case (Cancel_Request r)
      have "ss_core K nxt holds rh (in_hand s) (\<lambda>_. Ready) (ss_upd r cancel s)" by (rule core_upd_same(1) [OF live]) simp_all
      then show ?thesis using inv Cancel_Request by (auto simp: ss_event_def engine_ok_def)
    next
      case Turn
      then show ?thesis using live_turn(1) [OF ok live] by (simp add: ss_event_def engine_ok_def)
    qed
  next
    case rest
    then have t: "ss_thread s = Absent" by (simp add: at_rest_def)
    show ?thesis
    proof (cases ev)
      case Start
      then show ?thesis using start_ok [OF ok rest] by (auto simp: ss_event_def engine_ok_def)
    next
      case (Cancel_Request r)
      have "req_right K nxt (cancel rq) = req_right K nxt rq" for rq by (rule same_request_fields) simp_all
      then have "at_rest K nxt holds (ss_upd r cancel s)" using rest by (simp add: at_rest_def ended_def)
      then show ?thesis using inv Cancel_Request by (auto simp: ss_event_def engine_ok_def)
    qed (use inv t in \<open>simp_all add: ss_event_def ss_stop_def ss_submit_def ss_turn_def\<close>)
  qed
qed

lemma run_ok:
  assumes "batch_model_ok K nxt holds rh" "engine_ok K nxt holds rh s" "list_all proper evs"
  shows "engine_ok K nxt holds rh (ss_run K evs s)"
  using assms(2,3) unfolding ss_run_def
  by (induction evs arbitrary: s) (simp_all add: event_ok [OF assms(1)])

lemma engine_ok_requests:
  assumes "engine_ok K nxt holds rh s"
  shows "\<not> ss_crashed s" "ss_thread s \<noteq> Dead" "r < ss_next s \<Longrightarrow> req_right K nxt (ss_reqs s r)"
  using assms by (auto simp: engine_ok_def at_rest_def ss_core_def)

text \<open>Turns without new requests.\<close>

lemma turns_end:
  assumes ok: "batch_model_ok K nxt holds rh" and "ss_core K nxt holds rh (in_hand s) (\<lambda>_. Ready) s" "work s \<le> n \<or> ended s"
  shows "ended (ss_run K (replicate n Turn) s) \<and> ss_next (ss_run K (replicate n Turn) s) = ss_next s \<and>
    ss_thread (ss_run K (replicate n Turn) s) = Live"
  using assms(2,3)
proof (induction n arbitrary: s)
  case 0
  have "ended s" if "work s = 0"
  proof -
    have "left_over s r = 0" if "r < ss_next s" for r using \<open>work s = 0\<close> that by (simp add: work_def)
    then show ?thesis unfolding ended_def left_over_ended by blast
  qed
  then show ?case using 0 by (auto simp: ss_run_def ss_core_def)
next
  case (Suc n)
  note t = live_turn [OF ok Suc.prems(1)]
  have "work (ss_turn K s) \<le> n \<or> ended (ss_turn K s)" using t(4) Suc.prems(2) by (auto split: if_splits)
  from Suc.IH [OF t(1) this] show ?case using t(2) by (simp add: ss_run_def ss_event_def)
qed

end
