(* ===== verification/Example_State_Model.thy ===== *)
theory Example_State_Model
  imports State_Scheduler_Runs
begin

text \<open>
  A small model with a state cache that the witnesses run: one layer whose window holds the tokens seen so far, and a
  scheduler with two slots. Its logits are the tokens; the sampler picks the last one plus one, and token 5 ends.
\<close>

type_synonym ex_entry = "token list"

definition ex_spec :: layer_spec where
  "ex_spec = \<lparr>kv_head_dim = 1, compression_ratio = 0, n_win = 1, max_n_compressed = 0, overlap_mode = False, sp_indexer = None\<rparr>"

definition ex_build :: "int \<Rightarrow> int \<Rightarrow> ex_entry state_cache res" where
  "ex_build n B = state_cache_init (\<lambda>_. []) (\<lambda>_. []) [ex_spec] B"

definition ex_rows :: "(nat \<Rightarrow> ex_entry \<Rightarrow> ex_entry) \<Rightarrow> ex_entry state_cache \<Rightarrow> ex_entry list \<times> ex_entry state_cache" where
  "ex_rows f c =
     (let s = hd (st_layers c); new = map (\<lambda>i. f i (swa_kv s ! i ! 0)) [0 ..< length (swa_kv s)]
      in (new, c\<lparr>st_layers := [s\<lparr>swa_kv := map (\<lambda>x. [x]) new\<rparr>]\<rparr>))"

definition ex_state_model :: "(ex_entry, token list) state_model" where
  "ex_state_model = \<lparr>sm_build = ex_build,
     sm_prefill = (\<lambda>p c. case ex_rows (\<lambda>_ _. p) c of (new, c') \<Rightarrow> (Inr new, c')),
     sm_decode = (\<lambda>t pos c. case ex_rows (\<lambda>_ q. q @ [t]) c of (new, c') \<Rightarrow> (Inr new, c')),
     sm_ragged = (\<lambda>ts ps c. case ex_rows (\<lambda>i q. q @ [ts ! i]) c of (new, c') \<Rightarrow> (Inr (map (\<lambda>x. [x]) new), c'))\<rparr>"

definition ex_state_sampler :: "token list sampler" where
  "ex_state_sampler = \<lparr>argmax = (\<lambda>x. last x + 1), draw = (\<lambda>_ _ _ _. 0), draw_one = (\<lambda>_ _ _. 0),
     vocab_size = 20, softmax = (\<lambda>_ _. []), uniform = (\<lambda>_ _. 0), multinomial = (\<lambda>_ _. 0)\<rparr>"

definition ex_state_tokenizer :: tokenizer where
  "ex_state_tokenizer = \<lparr>tok_encode = map (\<lambda>c. of_char c - 96), tok_decode = map (\<lambda>t. char_of (nat (t + 96))),
     decode_step = None, eos_token_id = 5\<rparr>"

definition ex_state_config :: "(ex_entry, token list) ss_config" where
  "ex_state_config = \<lparr>ss_model = ex_state_model, ss_sampler = ex_state_sampler, ss_tokenizer = ex_state_tokenizer,
     ss_max_batch = 2, ss_max_len = 8, ss_graph = None\<rparr>"

definition ex_holds :: "token list \<Rightarrow> ex_entry layer_snapshot list \<Rightarrow> bool" where
  "ex_holds p v \<longleftrightarrow> v = [\<lparr>sn_swa_kv = [p], sn_compressed_kv = [], sn_cmp_kv_state = [], sn_cmp_score_state = [],
     sn_n_compressed_blocks = 0, sn_swa_count = 0, sn_indexer = None\<rparr>]"

definition ex_row_holds :: "token list \<Rightarrow> ex_entry row_state list \<Rightarrow> bool" where
  "ex_row_holds p v \<longleftrightarrow> v = [([p], [], [], [], None)]"

section \<open>The example satisfies the contracts\<close>

lemma ex_build_one: "ex_build n 1 = Inr \<lparr>st_specs = [ex_spec], st_batch = 1, st_layers = [\<lparr>swa_kv = [[[]]], compressed_kv = [[]],
   cmp_kv_state = [[]], cmp_score_state = [[]], ls_indexer = None, n_compressed_blocks = 0, swa_count = 0\<rparr>], st_pos = 0\<rparr>"
  by (simp add: ex_build_def state_cache_init_def check_layer_spec_def build_layer_state_def full_def ex_spec_def ensure_def)

lemma ex_build_two: "ex_build n 2 = Inr \<lparr>st_specs = [ex_spec], st_batch = 2, st_layers = [\<lparr>swa_kv = [[[]], [[]]], compressed_kv = [[], []],
   cmp_kv_state = [[], []], cmp_score_state = [[], []], ls_indexer = None, n_compressed_blocks = 0, swa_count = 0\<rparr>], st_pos = 0\<rparr>"
  by (simp add: ex_build_def state_cache_init_def check_layer_spec_def build_layer_state_def full_def ex_spec_def ensure_def numeral_2_eq_2)

text \<open>The caches with the sizes of a built one.\<close>

lemma ex_one_layer:
  assumes "shapes c = [(([1], [0], [0], [0]), None)]"
  obtains x k m sp b q where "c = \<lparr>st_specs = sp, st_batch = b, st_layers = [\<lparr>swa_kv = [[x]], compressed_kv = [[]], cmp_kv_state = [[]],
    cmp_score_state = [[]], ls_indexer = None, n_compressed_blocks = k, swa_count = m\<rparr>], st_pos = q\<rparr>"
proof -
  obtain s where s: "st_layers c = [s]" "layer_shape s = (([1], [0], [0], [0]), None)" using assms by (auto simp: shapes_def)
  obtain x where "swa_kv s = [[x]]" "compressed_kv s = [[]]" "cmp_kv_state s = [[]]" "cmp_score_state s = [[]]" "ls_indexer s = None"
    using s(2) by (auto simp: layer_shape_def length_Suc_conv)
  then have "s = \<lparr>swa_kv = [[x]], compressed_kv = [[]], cmp_kv_state = [[]], cmp_score_state = [[]], ls_indexer = None,
      n_compressed_blocks = n_compressed_blocks s, swa_count = swa_count s\<rparr>" by simp
  then show ?thesis using s(1) that [of "st_specs c" "st_batch c" x "n_compressed_blocks s" "swa_count s" "st_pos c"]
    by (metis state_cache.surjective old.unit.exhaust)
qed

lemma ex_two_rows:
  assumes "shapes c = [(([1, 1], [0, 0], [0, 0], [0, 0]), None)]"
  obtains x y k m sp b q where "c = \<lparr>st_specs = sp, st_batch = b, st_layers = [\<lparr>swa_kv = [[x], [y]], compressed_kv = [[], []],
    cmp_kv_state = [[], []], cmp_score_state = [[], []], ls_indexer = None, n_compressed_blocks = k, swa_count = m\<rparr>], st_pos = q\<rparr>"
proof -
  obtain s where s: "st_layers c = [s]" "layer_shape s = (([1, 1], [0, 0], [0, 0], [0, 0]), None)" using assms by (auto simp: shapes_def)
  obtain x y where "swa_kv s = [[x], [y]]" "compressed_kv s = [[], []]" "cmp_kv_state s = [[], []]" "cmp_score_state s = [[], []]" "ls_indexer s = None"
    using s(2) by (auto simp: layer_shape_def length_Suc_conv)
  then have "s = \<lparr>swa_kv = [[x], [y]], compressed_kv = [[], []], cmp_kv_state = [[], []], cmp_score_state = [[], []], ls_indexer = None,
      n_compressed_blocks = n_compressed_blocks s, swa_count = swa_count s\<rparr>" by simp
  then show ?thesis using s(1) that [of "st_specs c" "st_batch c" x y "n_compressed_blocks s" "swa_count s" "st_pos c"]
    by (metis state_cache.surjective old.unit.exhaust)
qed

lemma ex_shapes:
  "ex_build n 1 = Inr c \<Longrightarrow> shapes c = [(([1], [0], [0], [0]), None)]" "ex_build n 2 = Inr c \<Longrightarrow> shapes c = [(([1, 1], [0, 0], [0, 0], [0, 0]), None)]"
  by (auto simp: ex_build_one ex_build_two shapes_def layer_shape_def)

lemma ex_state_model_ok: "state_model_ok ex_state_model (\<lambda>p. p) ex_holds"
proof -
  have "builds_cache ex_state_model" by (simp add: builds_cache_def ex_state_model_def ex_build_one)
  moreover have "prefill_ok ex_state_model (\<lambda>p. p) ex_holds"
    by (auto simp: prefill_ok_def ex_state_model_def ex_build_one ex_rows_def shapes_def layer_shape_def views_def ex_holds_def snapshot_layer_def)
  moreover have "decode_ok ex_state_model (\<lambda>p. p) ex_holds"
    unfolding decode_ok_def
  proof (intro allI impI)
    fix n c0 c p t
    assume "sm_build ex_state_model n 1 = Inr c0" "shapes c = shapes c0" and h: "ex_holds p (views c)"
    then have "shapes c = [(([1], [0], [0], [0]), None)]" using ex_shapes(1) by (simp add: ex_state_model_def)
    then show "\<exists>rows c'. sm_decode ex_state_model t (st_pos c) c = (Inr rows, c') \<and> rows \<noteq> [] \<and> last rows = p @ [t] \<and> st_pos c' = st_pos c \<and>
        shapes c' = shapes c \<and> st_specs c' = st_specs c \<and> ex_holds (p @ [t]) (views c')"
      using h by (elim ex_one_layer)
        (simp add: ex_state_model_def ex_rows_def shapes_def layer_shape_def views_def ex_holds_def snapshot_layer_def)
  qed
  moreover have "snapshots_fit ex_state_model ex_holds"
    by (auto simp: snapshots_fit_def ex_state_model_def ex_build_one ex_holds_def layer_fits_def)
  ultimately show ?thesis by (simp add: state_model_ok_def)
qed

lemma ex_batch_ok: "batch_model_ok ex_state_config (\<lambda>p. p) ex_holds ex_row_holds"
proof -
  have "batch_builds ex_state_model 8 2"
    by (auto simp: batch_builds_def ex_state_model_def ex_build_one ex_build_two shapes_def layer_shape_def stacked_def numeral_2_eq_2
        check_capacity_def max_seq_len_def ex_spec_def)
  moreover have "rows_of_views ex_state_model ex_holds ex_row_holds 8"
    unfolding rows_of_views_def
  proof (intro allI impI)
    fix c1 c p
    assume "sm_build ex_state_model 8 1 = Inr c1" "shapes c = shapes c1" and h: "ex_holds p (views c)"
    then have "shapes c = [(([1], [0], [0], [0]), None)]" using ex_shapes(1) by (simp add: ex_state_model_def)
    then show "ex_row_holds p (row_views 0 c)" using h
      by (elim ex_one_layer) (simp add: views_def ex_holds_def snapshot_layer_def ex_row_holds_def row_views_def row_view_def)
  qed
  moreover have "ragged_ok ex_state_model (\<lambda>p. p) ex_row_holds 8 2"
    unfolding ragged_ok_def
  proof (intro allI impI)
    fix c0 c :: "ex_entry state_cache" and ts ps :: "int list"
    assume b: "sm_build ex_state_model 8 2 = Inr c0" "shapes c = shapes c0" and l: "length ts = nat 2"
    then have "shapes c = [(([1, 1], [0, 0], [0, 0], [0, 0]), None)]" using ex_shapes(2) by (simp add: ex_state_model_def)
    then show "\<exists>logits c'. sm_ragged ex_state_model ts ps c = (Inr logits, c') \<and> length logits = nat 2 \<and> shapes c' = shapes c \<and> st_specs c' = st_specs c \<and>
        (\<forall>i < nat 2. \<forall>p. ex_row_holds p (row_views i c) \<longrightarrow> ps ! i = int (length p) \<longrightarrow>
           logits ! i \<noteq> [] \<and> last (logits ! i) = p @ [ts ! i] \<and> ex_row_holds (p @ [ts ! i]) (row_views i c'))"
      by (elim ex_two_rows)
        (auto simp: ex_state_model_def ex_rows_def shapes_def layer_shape_def ex_row_holds_def row_views_def row_view_def numeral_2_eq_2 less_Suc_eq)
  qed
  ultimately show ?thesis using ex_state_model_ok by (simp add: batch_model_ok_def ex_state_config_def)
qed

section \<open>A run\<close>

definition ex_state_request :: "string \<Rightarrow> int \<Rightarrow> request" where
  "ex_state_request p n = \<lparr>prompt_text = p, sampling = greedy_params, max_tokens = n\<rparr>"

definition ex_prefix_cache :: "(ex_entry, token list) state_prefix_cache" where
  "ex_prefix_cache = \<lparr>spc_max_entries = 2, spc_entries = []\<rparr>"

definition ex_ss :: "(ex_entry, token list) ssched" where
  "ex_ss = projr (ss_init ex_state_config False (Some ex_prefix_cache) 0)"

text \<open>Three requests for two slots: the first runs to the end token, the second to its limit, the third is too long.\<close>

definition ex_ss_events :: "ss_call list" where
  "ex_ss_events = [Start, Submit_Request (ex_state_request ''b'' 5), Submit_Request (ex_state_request ''a'' 2),
     Submit_Request (ex_state_request ''aaaa'' 5), Turn, Turn]"

definition ex_ss_mid :: "(ex_entry, token list) ssched" where
  "ex_ss_mid = ss_run ex_state_config ex_ss_events ex_ss"

definition ex_ss_final :: "(ex_entry, token list) ssched" where
  "ex_ss_final = ss_run ex_state_config (ex_ss_events @ [Turn]) ex_ss"

text \<open>Of each request: what was asked, how it ended, and its tokens.\<close>

definition ex_view :: "(ex_entry, token list) ssched \<Rightarrow> engine_thread_state \<times> nat \<times> (string \<times> rat \<times> int \<times> finish_reason option \<times> token list) list" where
  "ex_view s = (ss_thread s, ss_next s, map (\<lambda>r. let rq = ss_reqs s r in
     (prompt_text (rq_request rq), temperature (sampling (rq_request rq)), max_tokens (rq_request rq), rq_finish rq, tokens_generated rq)) [0 ..< ss_next s])"

lemma ex_ss_start: "ss_init ex_state_config False (Some ex_prefix_cache) 0 = Inr ex_ss" "prefix_right (\<lambda>p. p) ex_holds (Some ex_prefix_cache)"
  by (simp_all add: ex_ss_def ss_init_def ex_state_config_def prefix_right_def ex_prefix_cache_def)

lemma ex_ss_mid_view: "ex_view ex_ss_mid = (Live, 3, [(''b'', 0, 5, None, [3, 4]), (''a'', 0, 2, Some Length, [2, 3]), (''aaaa'', 0, 5, None, [])])"
  by code_simp

lemma ex_ss_final_view:
  "ex_view ex_ss_final = (Live, 3, [(''b'', 0, 5, Some Stop, [3, 4]), (''a'', 0, 2, Some Length, [2, 3]), (''aaaa'', 0, 5, Some Length, [])])"
  by code_simp

end
