(* ===== verification/State_Properties.thy ===== *)
theory State_Properties
  imports Example_State_Model
begin

text \<open>
  The properties of generation with a state cache: what a snapshot keeps, sharing of prompt prefixes, and continuous
  batching of requests over one cache.
\<close>

section \<open>Snapshots\<close>

lemma match_after_insert:
  assumes "spc_ok pc" "p \<notin> fst ` set (spc_entries pc)" "p \<noteq> []"
  shows "spc_match (spc_insert p sn pc) p = (length p, Some sn)"
proof -
  let ?pc = "spc_insert p sn pc"
  have mem: "(p, sn) \<in> set (spc_entries ?pc)" using assms(2) by (simp add: spc_insert_def Let_def)
  have dist: "distinct (map fst (spc_entries ?pc))" using spc_insert_ok [OF assms(1)] by (simp add: spc_ok_def)
  show ?thesis
  proof (cases rule: spc_match_cases [of ?pc p])
    case miss
    then show ?thesis using mem assms(3) by (auto simp: prefix_hits_def)
  next
    case (hit key sn')
    have "length p \<le> length key" using hit(5) mem assms(3) by (auto simp: prefix_hits_def)
    then have "key = p" using hit(4) by (metis prefix_length_le prefix_order.eq_iff prefix_length_prefix)
    moreover have "sn' = sn" using eq_key_imp_eq_value [OF dist] hit(2) mem calculation by blast
    ultimately show ?thesis using hit(1) by simp
  qed
qed

text \<open>C31: The state of a prompt that was inserted into the prefix cache is found again under that prompt, and restoring it into a
  cache that it fits gives back everything the snapshot took: window, compressed entries, accumulators, counts and position.
  The sizes of that cache stay as they were built.\<close>

theorem snapshot_round_trip:
  fixes c d :: "'e state_cache" and lg :: 'lg
  assumes "spc_ok pc" "p \<notin> fst ` set (spc_entries pc)" "p \<noteq> []"
    and "list_all2 layer_fits (map snapshot_layer (st_layers c)) (st_layers d)"
  shows "\<exists>sn d'. spc_match (spc_insert p (snapshot_from_cache c lg) pc) p = (length p, Some sn) \<and>
    restore_into sn d = (Inr (), d') \<and> snapshot_from_cache d' lg = snapshot_from_cache c lg \<and> ps_next_logits sn = lg \<and>
    shapes d' = shapes d \<and> st_specs d' = st_specs d"
proof -
  let ?sn = "snapshot_from_cache c lg"
  have "list_all2 layer_fits (ps_layers ?sn) (st_layers d)" using assms(4) by (simp add: snapshot_from_cache_def)
  from restore_into_ok [OF this] obtain d' where r: "restore_into ?sn d = (Inr (), d')" "map snapshot_layer (st_layers d') = ps_layers ?sn"
      "st_pos d' = ps_position ?sn" "map layer_shape (st_layers d') = map layer_shape (st_layers d)" "st_specs d' = st_specs d" by blast
  have "snapshot_from_cache d' lg = ?sn" using r(2,3) by (simp add: snapshot_from_cache_def)
  moreover have "shapes d' = shapes d" using r(4) by (simp add: shapes_def)
  ultimately show ?thesis using match_after_insert [OF assms(1-3)] r(1,5)
    by (intro exI [where x = ?sn] exI [where x = d']) (simp add: snapshot_from_cache_def)
qed

definition ex_used_layer :: "nat layer_state" where
  "ex_used_layer = \<lparr>swa_kv = [[11, 12]], compressed_kv = [[21, 22, 0]], cmp_kv_state = [[31, 32]], cmp_score_state = [[41, 42]],
     ls_indexer = Some \<lparr>ix_compressed_kv = [[51, 0, 0]], ix_cmp_kv_state = [[61, 62]], ix_cmp_score_state = [[71, 72]], ix_n_compressed_blocks = 1\<rparr>,
     n_compressed_blocks = 2, swa_count = 2\<rparr>"

definition ex_used_cache :: "nat state_cache" where
  "ex_used_cache = \<lparr>st_specs = [], st_batch = 1, st_layers = [ex_used_layer], st_pos = 5\<rparr>"

text \<open>A cache for longer sequences: four compressed entries instead of three.\<close>

definition ex_free_cache :: "nat state_cache" where
  "ex_free_cache = \<lparr>st_specs = [], st_batch = 1, st_layers = [\<lparr>swa_kv = [[0, 0]], compressed_kv = [[0, 0, 0, 0]],
     cmp_kv_state = [[0, 0]], cmp_score_state = [[9, 9]],
     ls_indexer = Some \<lparr>ix_compressed_kv = [[0, 0, 0, 0]], ix_cmp_kv_state = [[0, 0]], ix_cmp_score_state = [[9, 9]], ix_n_compressed_blocks = 0\<rparr>,
     n_compressed_blocks = 0, swa_count = 0\<rparr>], st_pos = 0\<rparr>"

theorem snapshot_round_trip_witness:
  "\<exists>sn d'. spc_match (spc_insert [7, 8] (snapshot_from_cache ex_used_cache (1::nat)) \<lparr>spc_max_entries = 1, spc_entries = []\<rparr>) [7, 8] = (2, Some sn) \<and>
    restore_into sn ex_free_cache = (Inr (), d') \<and> snapshot_from_cache d' (1::nat) = snapshot_from_cache ex_used_cache 1"
proof -
  have small: "spc_ok (\<lparr>spc_max_entries = 1, spc_entries = []\<rparr> :: (nat, nat) state_prefix_cache)" by (simp add: spc_ok_def)
  have "list_all2 layer_fits (map snapshot_layer (st_layers ex_used_cache)) (st_layers ex_free_cache)"
    by (simp add: ex_used_cache_def ex_free_cache_def ex_used_layer_def snapshot_layer_def snapshot_indexer_def layer_fits_def indexer_fits_def)
  note fits = this
  have new: "[7, 8] \<notin> fst ` set (spc_entries (\<lparr>spc_max_entries = 1, spc_entries = []\<rparr> :: (nat, nat) state_prefix_cache))" by simp
  have len: "length [7, 8 :: int] = 2" by simp
  show ?thesis using snapshot_round_trip [OF small new _ fits, of 1, unfolded len] by simp blast
qed

text \<open>C30: However many calls share one prefix cache, and whatever it has evicted, every call returns what generation without
  a cache returns, errors included. The cache never holds more entries than its limit, one for each prompt, and a lookup
  finds the longest prompt that it holds of which the new one is an extension.\<close>

theorem prefix_sharing_changes_nothing:
  fixes M :: "('e, 'lg) state_model"
  assumes "state_model_ok M nxt holds" "state_prefix_cache_init m = Inr pc0"
  shows "\<exists>pc. serve_cached M S calls pc0 = (map (\<lambda>(p, k, eos). generate_ids M S p k eos) calls, pc) \<and>
    int (length (spc_entries pc)) \<le> m \<and> distinct (map fst (spc_entries pc)) \<and>
    (\<forall>p. case spc_match pc p of
       (n, None) \<Rightarrow> n = 0 \<and> (\<forall>(key, sn) \<in> set (spc_entries pc). key = [] \<or> \<not> prefix key p)
     | (n, Some sn) \<Rightarrow> (take n p, sn) \<in> set (spc_entries pc) \<and> 0 < n \<and> n \<le> length p \<and>
         (\<forall>(key, sn') \<in> set (spc_entries pc). prefix key p \<longrightarrow> length key \<le> n))"
proof -
  have pc0: "0 < m" "pc0 = \<lparr>spc_max_entries = m, spc_entries = []\<rparr>"
    using assms(2) by (auto simp: state_prefix_cache_init_def split: if_splits)
  then have "spc_ok pc0" by (simp add: spc_ok_def)
  moreover have "\<forall>e \<in> set (spc_entries pc0). snapshot_right nxt holds e" using pc0(2) by simp
  ultimately obtain pc where s: "serve_cached M S calls pc0 = (map (\<lambda>(p, k, eos). generate_ids M S p k eos) calls, pc)" "spc_ok pc"
      "spc_max_entries pc = spc_max_entries pc0"
    using serve_cached_ok [OF assms(1)] by blast
  have "case spc_match pc p of
       (n, None) \<Rightarrow> n = 0 \<and> (\<forall>(key, sn) \<in> set (spc_entries pc). key = [] \<or> \<not> prefix key p)
     | (n, Some sn) \<Rightarrow> (take n p, sn) \<in> set (spc_entries pc) \<and> 0 < n \<and> n \<le> length p \<and>
         (\<forall>(key, sn') \<in> set (spc_entries pc). prefix key p \<longrightarrow> length key \<le> n)" for p
  proof (cases rule: spc_match_cases [of pc p])
    case miss
    then show ?thesis by (auto simp: prefix_hits_def)
  next
    case (hit key sn)
    have "take (length key) p = key" "length key \<le> length p" using hit(4) take_is_prefix by blast+
    then show ?thesis using hit by (auto simp: prefix_hits_def)
  qed
  then show ?thesis using s pc0 by (simp add: spc_ok_def)
qed

theorem prefix_sharing_changes_nothing_witness:
  "fst (serve_cached ex_state_model ex_state_sampler [([1], 2, None), ([1, 2], 9, Some 5), ([], 1, None), ([1, 2], 1, None)] ex_prefix_cache) =
    [Inr [2, 3], Inr [3, 4], Inl ValueError, Inr [3]]"
proof -
  have "state_prefix_cache_init 2 = Inr ex_prefix_cache" by (simp add: state_prefix_cache_init_def ex_prefix_cache_def)
  from prefix_sharing_changes_nothing [OF ex_state_model_ok this, of ex_state_sampler "[([1], 2, None), ([1, 2], 9, Some 5), ([], 1, None), ([1, 2], 1, None)]"]
  have "fst (serve_cached ex_state_model ex_state_sampler [([1], 2, None), ([1, 2], 9, Some 5), ([], 1, None), ([1, 2], 1, None)] ex_prefix_cache) =
      map (\<lambda>(p, k, eos). generate_ids ex_state_model ex_state_sampler p k eos) [([1], 2, None), ([1, 2], 9, Some 5), ([], 1, None), ([1, 2], 1, None)]"
    by fastforce
  also have "\<dots> = [Inr [2, 3], Inr [3, 4], Inl ValueError, Inr [3]]" by code_simp
  finally show ?thesis .
qed

section \<open>Continuous batching\<close>

lemma solo_prefix:
  assumes "so_far K nxt rq" "sgreedy rq" "int (length (tokens_generated rq)) \<le> limit_of rq"
  shows "prefix (tokens_generated rq) (solo_tokens K nxt (sprompt K rq) (nat (limit_of rq)))"
proof -
  have "nat (limit_of rq) = length (tokens_generated rq) + (nat (limit_of rq) - length (tokens_generated rq))" using assms(3) by simp
  then show ?thesis using assms(1,2) unfolding so_far_def by (metis prefixI)
qed

text \<open>C12: Whatever calls and turns of the engine thread follow each other, starts and stops included, the thread never
  crashes, and a greedy request gets the tokens that \<open>StateCacheGenerator\<close> produces for it alone: at every moment what it has
  is a prefix of them, and when it ends by itself it has all of them. A request without a prompt ends as stopped, one that
  is too long for the cache ends by length, both with no token. The text is the decoding of the tokens. The requests
  ask for at least one token (with fewer, generation alone raises and the scheduler gives one), and the joins of the stops succeed.\<close>

theorem batched_tokens_as_alone:
  fixes K :: "('e, 'lg) ss_config"
  assumes "batch_model_ok K nxt holds row_holds" "ss_init K supported pc seed = Inr s0" "prefix_right nxt holds pc"
    and "list_all proper evs"
  shows "let s = ss_run K evs s0 in \<not> ss_crashed s \<and> ss_thread s \<noteq> Dead \<and>
    (\<forall>r < ss_next s.
       let rq = ss_reqs s r; p = tok_encode (ss_tokenizer K) (prompt_text (rq_request rq)); k = max_tokens (rq_request rq); ts = tokens_generated rq;
           alone = generate_ids (ss_model K) (ss_sampler K) p k (Some (eos_token_id (ss_tokenizer K)))
       in int (length ts) \<le> k \<and> (ts \<noteq> [] \<longrightarrow> last_text rq = tok_decode (ss_tokenizer K) ts) \<and>
          (temperature (sampling (rq_request rq)) = 0 \<longrightarrow>
             (p \<noteq> [] \<longrightarrow> (\<exists>full. alone = Inr full \<and> prefix ts full)) \<and>
             (rq_finish rq = Some Stop \<or> rq_finish rq = Some Length \<longrightarrow>
                (if p = [] then rq_finish rq = Some Stop \<and> ts = []
                 else if ss_max_len K < int (length p) + k then rq_finish rq = Some Length \<and> ts = []
                 else alone = Inr ts))))"
proof -
  let ?s = "ss_run K evs s0"
  have "engine_ok K nxt holds row_holds s0" using init_at_rest [OF assms(2,3)] by (simp add: engine_ok_def)
  then have inv: "engine_ok K nxt holds row_holds ?s" by (rule run_ok [OF assms(1) _ assms(4)])
  have m: "state_model_ok (ss_model K) nxt holds" using assms(1) by (simp add: batch_model_ok_def)
  have one: "int (length (tokens_generated rq)) \<le> limit_of rq \<and>
      (tokens_generated rq \<noteq> [] \<longrightarrow> last_text rq = tok_decode (ss_tokenizer K) (tokens_generated rq)) \<and>
      (sgreedy rq \<longrightarrow>
         (sprompt K rq \<noteq> [] \<longrightarrow> (\<exists>full. generate_ids (ss_model K) (ss_sampler K) (sprompt K rq) (limit_of rq) (Some (eos_token_id (ss_tokenizer K))) = Inr full \<and>
            prefix (tokens_generated rq) full)) \<and>
         (rq_finish rq = Some Stop \<or> rq_finish rq = Some Length \<longrightarrow>
            (if sprompt K rq = [] then rq_finish rq = Some Stop \<and> tokens_generated rq = []
             else if ss_max_len K < int (length (sprompt K rq)) + limit_of rq then rq_finish rq = Some Length \<and> tokens_generated rq = []
             else generate_ids (ss_model K) (ss_sampler K) (sprompt K rq) (limit_of rq) (Some (eos_token_id (ss_tokenizer K))) = Inr (tokens_generated rq))))"
    if right: "req_right K nxt rq" for rq
  proof -
    have pos: "0 < limit_of rq" using right by (simp add: req_right_def)
    have gen: "generate_ids (ss_model K) (ss_sampler K) (sprompt K rq) (limit_of rq) (Some (eos_token_id (ss_tokenizer K))) =
        Inr (solo_tokens K nxt (sprompt K rq) (nat (limit_of rq)))" if "sprompt K rq \<noteq> []"
      using that pos by (simp add: generate_ids_greedy [OF m] solo_tokens_def)
    have pre: "sgreedy rq \<longrightarrow> prefix (tokens_generated rq) (solo_tokens K nxt (sprompt K rq) (nat (limit_of rq)))"
      using right solo_prefix by (auto simp: req_right_def)
    show ?thesis using right gen pre by (auto simp: req_right_def has_room_def complete_def)
  qed
  show ?thesis unfolding Let_def
    using engine_ok_requests(1,2) [OF inv] one [OF engine_ok_requests(3) [OF inv]] unfolding sprompt_def sgreedy_def by blast
qed

lemma ex_ss_requests:
  "ss_next ex_ss_final = 3" "prompt_text (rq_request (ss_reqs ex_ss_final 0)) = ''b''" "temperature (sampling (rq_request (ss_reqs ex_ss_final 0))) = 0"
  "max_tokens (rq_request (ss_reqs ex_ss_final 0)) = 5" "rq_finish (ss_reqs ex_ss_final 0) = Some Stop" "tokens_generated (ss_reqs ex_ss_final 0) = [3, 4]"
proof -
  show n: "ss_next ex_ss_final = 3" using ex_ss_final_view by (simp add: ex_view_def)
  have "[0..<3] = [0, 1, 2::nat]" by (simp add: upt_rec)
  then show "prompt_text (rq_request (ss_reqs ex_ss_final 0)) = ''b''" "temperature (sampling (rq_request (ss_reqs ex_ss_final 0))) = 0"
    "max_tokens (rq_request (ss_reqs ex_ss_final 0)) = 5" "rq_finish (ss_reqs ex_ss_final 0) = Some Stop" "tokens_generated (ss_reqs ex_ss_final 0) = [3, 4]"
    using ex_ss_final_view by (simp_all add: ex_view_def Let_def n)
qed

theorem batched_tokens_as_alone_witness:
  "\<not> ss_crashed ex_ss_final \<and> rq_finish (ss_reqs ex_ss_final 0) = Some Stop \<and> last_text (ss_reqs ex_ss_final 0) = ''cd'' \<and>
    generate_ids ex_state_model ex_state_sampler [2] 5 (Some 5) = Inr [3, 4]"
proof -
  have ok: "list_all proper (ex_ss_events @ [Turn])" by (simp add: ex_ss_events_def ex_state_request_def)
  note t = batched_tokens_as_alone [OF ex_batch_ok ex_ss_start ok, unfolded Let_def, folded ex_ss_final_def]
  have enc: "tok_encode ex_state_tokenizer ''b'' = [2]" "tok_decode ex_state_tokenizer [3, 4] = ''cd''" by code_simp+
  have K: "ss_tokenizer ex_state_config = ex_state_tokenizer" "ss_model ex_state_config = ex_state_model" "ss_sampler ex_state_config = ex_state_sampler"
    "eos_token_id ex_state_tokenizer = 5" "ss_max_len ex_state_config = 8" by (simp_all add: ex_state_config_def ex_state_tokenizer_def)
  have "(0::nat) < ss_next ex_ss_final" by (simp add: ex_ss_requests)
  with t show ?thesis by (auto simp: ex_ss_requests enc K dest!: spec [where x = "0::nat"])
qed

text \<open>C13: Once no more requests come, every request ends: two turns for each token that it may still get, four for
  its way through the queue and the slot, and one more are enough. The requests ask for at least one token, and the
  joins of the stops succeed.\<close>

theorem batched_requests_end:
  fixes K :: "('e, 'lg) ss_config"
  assumes "batch_model_ok K nxt holds row_holds" "ss_init K supported pc seed = Inr s0" "prefix_right nxt holds pc"
    and "list_all proper evs" "ss_thread (ss_run K evs s0) = Live"
    and "1 + 2 * (\<Sum>r < ss_next (ss_run K evs s0). nat (max_tokens (rq_request (ss_reqs (ss_run K evs s0) r))) + 2) \<le> n"
  shows "let s = ss_run K (evs @ replicate n Turn) s0 in ss_thread s = Live \<and> ss_next s = ss_next (ss_run K evs s0) \<and>
    (\<forall>r < ss_next s. rq_finish (ss_reqs s r) \<noteq> None)"
proof -
  let ?s = "ss_run K evs s0"
  have "engine_ok K nxt holds row_holds s0" using init_at_rest [OF assms(2,3)] by (simp add: engine_ok_def)
  then have inv: "engine_ok K nxt holds row_holds ?s" by (rule run_ok [OF assms(1) _ assms(4)])
  then have core: "ss_core K nxt holds row_holds (in_hand ?s) (\<lambda>_. Ready) ?s" using assms(5) by (simp add: engine_ok_def at_rest_def)
  have "left_over ?s r \<le> nat (limit_of (ss_reqs ?s r)) + 2" for r by (simp add: left_over_def nat_le_iff)
  then have "(\<Sum>r < ss_next ?s. left_over ?s r) \<le> (\<Sum>r < ss_next ?s. nat (limit_of (ss_reqs ?s r)) + 2)" by (intro sum_mono) simp
  then have "work ?s \<le> n" using assms(6) by (simp add: work_def)
  then have e: "ended (ss_run K (replicate n Turn) ?s)" "ss_next (ss_run K (replicate n Turn) ?s) = ss_next ?s"
    "ss_thread (ss_run K (replicate n Turn) ?s) = Live"
    using turns_end [OF assms(1) core] by blast+
  have "ss_run K (evs @ replicate n Turn) s0 = ss_run K (replicate n Turn) ?s" by (simp add: ss_run_def)
  then show ?thesis using e unfolding Let_def ended_def by simp
qed

theorem batched_requests_end_witness:
  "let s = ss_run ex_state_config (ex_ss_events @ replicate 37 Turn) ex_ss in
    rq_finish (ss_reqs s 0) \<noteq> None \<and> rq_finish (ss_reqs s 1) \<noteq> None \<and> rq_finish (ss_reqs s 2) \<noteq> None"
proof -
  have ok: "list_all proper ex_ss_events" by (simp add: ex_ss_events_def ex_state_request_def)
  have n: "ss_next ex_ss_mid = 3" "ss_thread ex_ss_mid = Live" using ex_ss_mid_view by (simp_all add: ex_view_def)
  have three: "[0..<3] = [0, 1, 2::nat]" "{..<3} = {0, 1, 2::nat}" by (auto simp: upt_rec)
  have "max_tokens (rq_request (ss_reqs ex_ss_mid 0)) = 5" "max_tokens (rq_request (ss_reqs ex_ss_mid 1)) = 2" "max_tokens (rq_request (ss_reqs ex_ss_mid 2)) = 5"
    using ex_ss_mid_view by (simp_all add: ex_view_def Let_def n three)
  then have "1 + 2 * (\<Sum>r < ss_next ex_ss_mid. nat (max_tokens (rq_request (ss_reqs ex_ss_mid r))) + 2) \<le> 37" by (simp add: n three)
  from batched_requests_end [OF ex_batch_ok ex_ss_start ok, folded ex_ss_mid_def, OF n(2) this] show ?thesis unfolding Let_def by (simp add: n)
qed

end
