(* ===== verification/Spec2Isabelle.thy ===== *)
theory Spec2Isabelle
  imports Cache_Properties Serving_Properties Engine_Properties Parallel_Properties Decoding_Properties Quant_Properties
    State_Properties
begin

text \<open>
  A model of mini-infer, an inference engine for language models, and the theorems that make its host-side logic correct.
  Paths are relative to \<open>src/mini_infer/\<close>.

  The program. \<open>scheduler/continuous_scheduler.py\<close> runs an engine thread. API threads submit, cancel and read requests
  (\<open>scheduler/request_state.py\<close>). In every turn the thread admits requests, prefills prompts in chunks, samples one
  token per decoding request (\<open>engine/sampler.py\<close>), optionally verifies a drafted block (\<open>engine/dspark/\<close>), and makes one
  packed forward (\<open>engine/model_runner.py\<close>) over all of them. The forward reads and writes a paged K/V cache
  (\<open>cache/paged_kv_cache.py\<close>) whose blocks come from a pool with reference counts (\<open>cache/block_pool.py\<close>); full prompt
  blocks are shared under a chained hash (\<open>cache/prefix_cache.py\<close>). Models with a compressed attention state are served
  by a second scheduler (\<open>scheduler/state_cache_continuous_scheduler.py\<close>) over one batched \<open>cache/state_cache.py\<close>, with
  snapshots of prompt states (\<open>cache/state_prefix_cache.py\<close>). Layers run on several ranks (\<open>distributed/\<close>), and weights and
  K/V blocks have compressed formats (\<open>quant/\<close>, \<open>cache/turbo_quant.py\<close>).

  How code is rendered. An operation is a function of the state that gives \<open>Inl\<close> an exception or \<open>Inr\<close> a result and the new
  state (\<open>act\<close> in \<open>Infer_Prelude\<close>), so an exception leaves the partial update that the code leaves. Dictionaries are
  maps, or association lists where the order matters; queues, slots and tensors are lists; hashes are bytes; Python
  integers are \<open>int\<close> or \<open>nat\<close>. Loops over lists are structural recursion. There is no fuel: the loop of speculative
  decoding terminates because every round emits a token (\<open>spec_round_grows\<close>), the loops of the generators recurse on the
  tokens that are left, and the engine loop is a run of single turns, with a measure that every turn with work
  decreases. Threads are interleaved at the calls and the turns of the engine: a run is any list of these events.

  Theories and sources.
  \<^item> \<open>Infer_Prelude\<close>: exceptions, operations, block arithmetic, the collections of simplification rules.
  \<^item> \<open>Block_Provider\<close>: the interface \<open>block_provider\<close> between a pool and the holders of its blocks; \<open>Block_Pool\<close> models
    \<open>cache/block_pool.py\<close> and interprets it; \<open>Pool_Construction\<close> gives every
    outcome of its constructor; \<open>Prefix_Cache\<close> models \<open>cache/prefix_cache.py\<close>.
  \<^item> \<open>Paged_Cache\<close>, \<open>Paged_Append\<close>, \<open>Paged_Publish\<close>, \<open>Paged_Reserve\<close>: the operations of \<open>cache/paged_kv_cache.py\<close>;
    \<open>Paged_Accounting\<close>: every block is free, idle or held, and the counts agree; \<open>Paged_Content\<close>, \<open>Prefix_Transparency\<close>,
    \<open>Serving_Runs\<close>: a slot reads back its own rows, whatever is shared.
  \<^item> \<open>Transformer\<close>, \<open>Packed_Transformer\<close>: \<open>cache/packed_attention.py\<close> and the decoders under \<open>models/\<close> with the shape of
    Qwen; \<open>Model_Runner\<close>: \<open>engine/model_runner.py\<close>, with \<open>Slot_Prompts\<close> for the prompts of its slots; \<open>Token_Sampler\<close>: \<open>engine/sampler.py\<close>, \<open>engine/device_tokens.py\<close>.
  \<^item> \<open>DSpark_Sampling\<close>, \<open>DSpark_Spec\<close>: the drafting and acceptance of \<open>engine/dspark/\<close>; \<open>Speculative_Runner\<close>,
    \<open>Speculative_Proofs\<close>: \<open>engine/speculative.py\<close>, with \<open>Solo_Session\<close> for a cache with one slot.
  \<^item> \<open>Request_State\<close>: \<open>scheduler/request_state.py\<close> and the text stream of \<open>engine/tokenizer.py\<close>.
  \<^item> \<open>Scheduler\<close>, \<open>Scheduler_Step\<close>, \<open>Scheduler_Engine\<close>: the state and the operations of the continuous scheduler, the
    steps of a turn, the thread and the calls. \<open>Engine_Contracts\<close> has the interfaces \<open>slot_store\<close> and \<open>batch_runner\<close> that
    it needs and their interpretation on the paged cache and the packed forward. \<open>Scheduler_Invariant\<close>,
    \<open>Scheduler_Slots\<close>, \<open>Scheduler_Admission\<close>, \<open>Scheduler_Sampling\<close>, \<open>Scheduler_Forward\<close>, \<open>Scheduler_Turn\<close> prove its
    invariant inside these interfaces, phase by phase, \<open>Engine_Runs\<close> puts events together, and \<open>Engine_Output\<close> follows
    the steps from the engine to the handle that reads them.
  \<^item> \<open>State_Cache\<close>, \<open>State_Prefix_Cache\<close>, \<open>State_Generator\<close> (\<open>engine/state_cache_generator.py\<close>) and \<open>State_Scheduler\<close> model the
    serving of state-cache models. \<open>State_Batch_Rows\<close> has the rows of a batched cache, \<open>State_Scheduler_Invariant\<close>,
    \<open>State_Scheduler_Steps\<close>, \<open>State_Scheduler_Forward\<close> and \<open>State_Scheduler_Runs\<close> the invariant, the steps and the runs.
  \<^item> \<open>Tensor_Parallel\<close>: \<open>distributed/\<close>; \<open>Expert_Routing\<close>: \<open>models/blocks/moe/mixtral_moe.py\<close>, \<open>grouped_experts.py\<close>.
  \<^item> \<open>Quant_Formats\<close>, \<open>Weight_Quant\<close>: \<open>quant/\<close>; \<open>Turbo_Quant\<close>: \<open>cache/turbo_quant.py\<close>.
  \<^item> \<open>Example_Pool\<close>, \<open>Example_Engine\<close>, \<open>Example_State_Model\<close>: small instances that the witnesses run.
  \<^item> The theories named \<open>..._Properties\<close> hold the properties, each after a text with its number.

  What is shown. The engine: a greedy request gets the tokens of greedy decoding of its prompt alone, no exception
  ends the thread and the calls raise only what they should, every request ends after a bounded number of turns, an
  idle engine has given back all blocks, stop and cancel do what they promise, and the steps that a handle reads carry
  the text of its tokens (\<open>Engine_Properties\<close>). These properties are about engines without speculative decoding
  (\<open>plain_config\<close>: no \<open>DSparkSpec\<close>), on an uncompressed pool and a runner without captured graphs (\<open>deployment\<close>);
  the model of the scheduler has the speculating branches, and the theorems on drafting and verification
  are about a round of it (\<open>Decoding_Properties\<close>). A stop whose join times out is an event of its own; the thread that it
  leaves behind is taken to end before the next start, which the code does not enforce. The caches: accounting, eviction order, hashing, exact outcome of
  allocation and reservation, own rows read back (\<open>Cache_Properties\<close>, \<open>Serving_Properties\<close>). Parallel layers equal the
  dense ones on every rank (\<open>Parallel_Properties\<close>). Speculation is lossless and returns; a sampled DSpark round has the probabilities
  of the target up to the guard values of the code; the pool constructor and the
  handles raise what they should (\<open>Decoding_Properties\<close>). Formats: outcomes, round trips and error bounds
  (\<open>Quant_Properties\<close>). State-cache serving: snapshots, prefix sharing, batching and its liveness (\<open>State_Properties\<close>).

  Measures. An output queue holds 256 steps, as in the code, so nothing is dropped for fewer than 256 tokens. The work left in an engine counts, for every request, the
  tokens it may still get and the places it has yet to leave; every turn with work decreases it. For the state-cache
  scheduler it counts double, with one more for the request in the hand of the idle thread.

  Assumptions, all arguments or named hypotheses. Arithmetic on tensors is exact: a commutative semiring for parallel
  layers, rationals for formats and probabilities; rounding, overflow and infinities of floating-point types are not
  modelled, except the infinities of E2M1 weights, which valid scale bytes reach. A linear layer gets rows of the width of
  its weight. The digest is injective on what a run feeds to it, with results of the size the pool expects. Row functions
  of a model (norms, projections, rotation, the attention of one query), the tokenizer, softmax and random draws are
  arguments. A state-cache model satisfies \<open>state_model_ok\<close> and, in a batch, \<open>batch_model_ok\<close>: its logits and its
  state are a function of the tokens processed, and rows do not see each other. A captured CUDA graph computes the
  forward it was captured from. Quantised storages of the pool are arguments of the paged cache.

  Not modelled. Triton, Gluon and Pallas kernels and the floating-point layers of the model families: their
  meaning is that of GPU languages and of rounding. Loading of checkpoints, HTTP, sockets, processes and
  \<open>torch.distributed\<close> itself (\<open>api/\<close>, \<open>workers/\<close>, \<open>distributed/loader.py\<close>, \<open>scheduler/tp_state_cache_*.py\<close>): input and output
  around what is modelled. Benchmarks and \<open>scripts/\<close>: no part of the engine. Of modelled files: log messages and
  timings, the NVFP4 shadow and the legacy padded read of the paged cache, the random rotation and the kernels of
  compressed K/V, the operations that start and end a captured static step, captured graphs, and the check
  that refuses the snapshot of a cache of another class.
\<close>

end
